(* ===== verification/Prelude.thy ===== *)
theory Prelude
  imports Main "HOL-Library.Word" "HOL-Library.List_Lexorder"
begin

unbundle bit_operations_syntax

text \<open>
  The shared vocabulary of the development: Go's byte slices and strings, the fixed-width
  little-endian integers of \<^verbatim>\<open>encoding/binary\<close>, slice expressions, the bit counting of
  \<^verbatim>\<open>math/bits\<close>, error values as the left side of a sum, and the generic facts about them
  that every component uses.  Lemmas about encodings are collected in \<open>codec\<close>, lemmas
  about slices of concatenations in \<open>slices\<close>.
\<close>

named_theorems codec
named_theorems slices

section \<open>Types of the model\<close>

text \<open>A Go string is an immutable byte sequence, so strings and byte slices share one type.\<close>

type_synonym byte = "8 word"
type_synonym bytes = "8 word list"
type_synonym u16 = "16 word"
type_synonym u32 = "32 word"
type_synonym u64 = "64 word"

text \<open>A result of a Go function with an \<^verbatim>\<open>error\<close> return: \<open>Inl\<close> is the error.\<close>

type_synonym ('e, 'a) result = "'e + 'a"

text \<open>The bytes of an ASCII literal.\<close>

definition lit :: "string \<Rightarrow> bytes" where
  "lit s = map (\<lambda>c. of_nat (of_char c)) s"

lemma length_lit [simp]: "length (lit s) = length s"
  by (simp add: lit_def)

section \<open>Results\<close>

fun is_ok :: "('e, 'a) result \<Rightarrow> bool" where
  "is_ok (Inl _) = False"
| "is_ok (Inr _) = True"

lemma is_ok_iff: "is_ok r \<longleftrightarrow> (\<exists>a. r = Inr a)"
  by (cases r) auto

section \<open>Slices\<close>

text \<open>The Go slice expression \<^verbatim>\<open>b[i:j]\<close>, for \<open>i \<le> j \<le> length b\<close>.\<close>

definition gslice :: "'a list \<Rightarrow> nat \<Rightarrow> nat \<Rightarrow> 'a list" where
  "gslice b i j = take (j - i) (drop i b)"

lemma length_gslice [simp]: "j \<le> length b \<Longrightarrow> length (gslice b i j) = j - i"
  by (auto simp: gslice_def)

lemma gslice_append_left [slices]:
  "j \<le> length xs \<Longrightarrow> gslice (xs @ ys) i j = gslice xs i j"
  by (auto simp: gslice_def)

lemma gslice_append_right [slices]:
  "length xs \<le> i \<Longrightarrow> gslice (xs @ ys) i j = gslice ys (i - length xs) (j - length xs)"
  by (auto simp: gslice_def)

lemma gslice_exact [slices]: "gslice (xs @ ys @ zs) (length xs) (length xs + length ys) = ys"
  by (simp add: gslice_def)

lemma gslice_0: "gslice xs 0 j = take j xs"
  by (simp add: gslice_def)

lemma gslice_full [simp]: "gslice xs 0 (length xs) = xs"
  by (simp add: gslice_def)

lemma gslice_empty [simp]: "gslice xs i i = []"
  by (simp add: gslice_def)

lemma gslice_append_gslice: "i \<le> j \<Longrightarrow> j \<le> k \<Longrightarrow> gslice b i j @ gslice b j k = gslice b i k"
proof -
  assume ij: "i \<le> j" and jk: "j \<le> k"
  have "take (k - i) (drop i b) = take (j - i) (drop i b) @ take (k - j) (drop (j - i) (drop i b))"
    using ij jk take_add [of "j - i" "k - j" "drop i b"] by simp
  then show ?thesis using ij by (simp add: gslice_def)
qed

lemma gslice_Cons_nth: "i < j \<Longrightarrow> j \<le> length b \<Longrightarrow> gslice b i j = b ! i # gslice b (Suc i) j"
proof -
  assume "i < j" and "j \<le> length b"
  then have "drop i b = b ! i # drop (Suc i) b" by (simp add: Cons_nth_drop_Suc)
  with \<open>i < j\<close> show ?thesis by (simp add: gslice_def take_Cons')
qed

lemma gslice_take: "j \<le> m \<Longrightarrow> gslice (take m b) i j = gslice b i j"
  by (simp add: gslice_def drop_take min_absorb1 diff_le_mono)

lemma nth_gslice: "i + n < j \<Longrightarrow> j \<le> length b \<Longrightarrow> gslice b i j ! n = b ! (i + n)"
  by (simp add: gslice_def)

section \<open>Little-endian integers\<close>

text \<open>
  \<^verbatim>\<open>binary.LittleEndian.PutUint16/32/64\<close> and their readers.  The value is kept as a natural
  number below \<open>256 ^ n\<close>; the callers convert with \<open>unat\<close> and \<open>of_nat\<close>.
\<close>

fun le_put :: "nat \<Rightarrow> nat \<Rightarrow> bytes" where
  "le_put 0 v = []"
| "le_put (Suc n) v = of_nat (v mod 256) # le_put n (v div 256)"

fun le_get :: "bytes \<Rightarrow> nat" where
  "le_get [] = 0"
| "le_get (b # bs) = unat b + 256 * le_get bs"

lemma length_le_put [simp, codec]: "length (le_put n v) = n"
  by (induction n arbitrary: v) auto

lemma unat_byte_of_nat [simp]: "unat (of_nat (v mod 256) :: byte) = v mod 256"
  by (simp add: unat_of_nat)

lemma unat_byte_less [simp]: "unat (b :: byte) < 256"
  using unsigned_less [of b, where ?'a = nat] by simp

lemma le_get_put [simp, codec]: "le_get (le_put n v) = v mod 256 ^ n"
proof (induction n arbitrary: v)
  case 0
  then show ?case by simp
next
  case (Suc n)
  have "v mod (256 * 256 ^ n) = 256 * (v div 256 mod 256 ^ n) + v mod 256"
    by (rule mod_mult2_eq)
  then show ?case using Suc by simp
qed

lemma le_put_get [simp, codec]: "le_put (length bs) (le_get bs) = bs"
proof (induction bs)
  case Nil
  then show ?case by simp
next
  case (Cons b bs)
  have m: "(unat b + 256 * le_get bs) mod 256 = unat b"
    by simp
  have d: "(unat b + 256 * le_get bs) div 256 = le_get bs"
    by simp
  show ?case using Cons m d by simp
qed

lemma le_get_less: "le_get bs < 256 ^ length bs"
proof (induction bs)
  case Nil
  then show ?case by simp
next
  case (Cons b bs)
  have "unat b + 256 * le_get bs < 256 + 256 * le_get bs" by simp
  also have "\<dots> \<le> 256 * 256 ^ length bs" using Cons by simp
  finally show ?case by simp
qed

lemma le_put_get_len: "length bs = n \<Longrightarrow> le_put n (le_get bs) = bs"
  using le_put_get by blast

lemma le_get_put_u64 [simp, codec]: "(of_nat (le_get (le_put 8 (unat w))) :: u64) = w"
  using unsigned_less [of w, where ?'a = nat] by simp

lemma le_get_put_u32 [simp, codec]: "(of_nat (le_get (le_put 4 (unat w))) :: u32) = w"
  using unsigned_less [of w, where ?'a = nat] by simp

lemma le_get_put_u16 [simp, codec]: "(of_nat (le_get (le_put 2 (unat w))) :: u16) = w"
  using unsigned_less [of w, where ?'a = nat] by simp

lemma le_put_of_nat_u64: "length bs = 8 \<Longrightarrow> le_put 8 (unat (of_nat (le_get bs) :: u64)) = bs"
  using le_get_less [of bs] le_put_get_len [of bs 8] by (simp add: unat_of_nat)

lemma le_put_of_nat_u32: "length bs = 4 \<Longrightarrow> le_put 4 (unat (of_nat (le_get bs) :: u32)) = bs"
  using le_get_less [of bs] le_put_get_len [of bs 4] by (simp add: unat_of_nat)

lemma le_put_of_nat_u16: "length bs = 2 \<Longrightarrow> le_put 2 (unat (of_nat (le_get bs) :: u16)) = bs"
  using le_get_less [of bs] le_put_get_len [of bs 2] by (simp add: unat_of_nat)

section \<open>Fixed-width arrays\<close>

text \<open>An array of \<open>n\<close> elements of \<open>w\<close> bytes each, read back element by element.\<close>

fun read_array :: "nat \<Rightarrow> nat \<Rightarrow> bytes \<Rightarrow> nat list" where
  "read_array w 0 bs = []"
| "read_array w (Suc n) bs = le_get (take w bs) # read_array w n (drop w bs)"

definition write_array :: "nat \<Rightarrow> nat list \<Rightarrow> bytes" where
  "write_array w xs = concat (map (le_put w) xs)"

lemma length_read_array [simp, codec]: "length (read_array w n bs) = n"
  by (induction n arbitrary: bs) auto

lemma length_write_array [simp, codec]: "length (write_array w xs) = w * length xs"
  by (induction xs) (auto simp: write_array_def)

lemma read_write_array [codec]:
  "\<forall>x \<in> set xs. x < 256 ^ w \<Longrightarrow> read_array w (length xs) (write_array w xs) = xs"
  by (induction xs) (auto simp: write_array_def)

lemma write_read_array [codec]: "length bs = w * n \<Longrightarrow> write_array w (read_array w n bs) = bs"
proof (induction n arbitrary: bs)
  case 0
  then show ?case by (simp add: write_array_def)
next
  case (Suc n)
  have "length (take w bs) = w" using Suc.prems by simp
  then have "le_put w (le_get (take w bs)) = take w bs" by (rule le_put_get_len)
  moreover have "write_array w (read_array w n (drop w bs)) = drop w bs"
    using Suc.prems by (intro Suc.IH) simp
  ultimately show ?case by (simp add: write_array_def)
qed

section \<open>Bit counting\<close>

text \<open>\<^verbatim>\<open>bits.Len\<close>: the number of bits needed to write \<open>n\<close>, 0 for 0.\<close>

fun bits_Len :: "nat \<Rightarrow> nat" where
  "bits_Len n = (if n = 0 then 0 else Suc (bits_Len (n div 2)))"

declare bits_Len.simps [simp del]

lemma bits_Len_0 [simp]: "bits_Len 0 = 0"
  by (simp add: bits_Len.simps)

lemma bits_Len_bounds: "0 < n \<Longrightarrow> 0 < bits_Len n \<and> 2 ^ (bits_Len n - 1) \<le> n \<and> n < 2 ^ bits_Len n"
proof (induction n rule: bits_Len.induct)
  case (1 n)
  show ?case
  proof (cases "n = 1")
    case True
    then show ?thesis by (simp add: bits_Len.simps)
  next
    case False
    with "1.prems" have n2: "0 < n div 2" by simp
    with "1.IH" "1.prems" have ih: "0 < bits_Len (n div 2)" "2 ^ (bits_Len (n div 2) - 1) \<le> n div 2"
      "n div 2 < 2 ^ bits_Len (n div 2)" by auto
    have e: "bits_Len n = Suc (bits_Len (n div 2))"
      using "1.prems" by (simp add: bits_Len.simps [of n])
    have "2 * 2 ^ (bits_Len (n div 2) - 1) \<le> n" using ih(2) by linarith
    moreover have "2 * 2 ^ (bits_Len (n div 2) - 1) = (2::nat) ^ bits_Len (n div 2)"
      using ih(1) by (cases "bits_Len (n div 2)") auto
    moreover have "n < 2 * 2 ^ bits_Len (n div 2)" using ih(3) by linarith
    ultimately show ?thesis by (simp add: e)
  qed
qed

lemma pow2_lessD: "(2::nat) ^ a < 2 ^ b \<Longrightarrow> a < b"
  by simp

lemma bits_Len_unique: "2 ^ e \<le> n \<Longrightarrow> n < 2 ^ Suc e \<Longrightarrow> bits_Len n = Suc e"
proof -
  assume lo: "2 ^ e \<le> n" and hi: "n < 2 ^ Suc e"
  have pos: "0 < n" using lo by (cases n) auto
  note b = bits_Len_bounds [OF pos]
  have "(2::nat) ^ (bits_Len n - 1) < 2 ^ Suc e" using b hi by linarith
  then have "bits_Len n - 1 < Suc e" by (rule power_less_imp_less_exp [rotated]) simp
  moreover have "(2::nat) ^ e < 2 ^ bits_Len n" using b lo by linarith
  then have "e < bits_Len n" by (rule power_less_imp_less_exp [rotated]) simp
  ultimately show ?thesis by linarith
qed

lemma bits_Len_pow2 [simp]: "bits_Len (2 ^ e) = Suc e"
  by (rule bits_Len_unique) auto

section \<open>Clamping and saturation\<close>

text \<open>\<^verbatim>\<open>clampInt\<close> of \<^verbatim>\<open>internal/sketch/util.go\<close>.\<close>

definition clampInt :: "int \<Rightarrow> int \<Rightarrow> int \<Rightarrow> int" where
  "clampInt v lo hi = (if v < lo then lo else if v > hi then hi else v)"

lemma clampInt_range: "lo \<le> hi \<Longrightarrow> lo \<le> clampInt v lo hi \<and> clampInt v lo hi \<le> hi"
  by (simp add: clampInt_def)

lemma clampInt_id [simp]: "lo \<le> v \<Longrightarrow> v \<le> hi \<Longrightarrow> clampInt v lo hi = v"
  by (simp add: clampInt_def)

text \<open>
  \<^verbatim>\<open>satAdd64\<close> of \<^verbatim>\<open>internal/sketch/util.go\<close>, on 64-bit words: the subtraction in the guard
  wraps, exactly as Go's does.
\<close>

definition satAdd64 :: "u64 \<Rightarrow> u64 \<Rightarrow> u64" where
  "satAdd64 a b = (if a > - 1 - b then - 1 else a + b)"

text \<open>A saturating sum of natural numbers, the specification of every saturating counter.\<close>

definition sat_plus :: "nat \<Rightarrow> nat \<Rightarrow> nat \<Rightarrow> nat" where
  "sat_plus m a b = min m (a + b)"

lemma sat_plus_assoc: "sat_plus m (sat_plus m a b) c = sat_plus m a (sat_plus m b c)"
  by (simp add: sat_plus_def)

lemma sat_plus_comm: "sat_plus m a b = sat_plus m b a"
  by (simp add: sat_plus_def add.commute)

lemma word_sat_add_unat:
  fixes a b :: "'a::len word"
  shows "unat (if a > - 1 - b then - 1 else a + b) = sat_plus (2 ^ LENGTH('a) - 1) (unat a) (unat b)"
proof -
  have m: "unat (- 1 :: 'a word) = 2 ^ LENGTH('a) - 1" by (simp add: unsigned_minus_1_eq_mask mask_eq_exp_minus_1)
  have la: "unat a < 2 ^ LENGTH('a)" and lb: "unat b < 2 ^ LENGTH('a)" by simp_all
  have "b \<le> - 1" by (rule word_n1_ge)
  then have s: "unat (- 1 - b) = 2 ^ LENGTH('a) - 1 - unat b" by (simp only: unat_sub m)
  show ?thesis
  proof (cases "a > - 1 - b")
    case True
    then have "unat a > 2 ^ LENGTH('a) - 1 - unat b" by (simp add: word_less_nat_alt s)
    then show ?thesis using True by (simp add: sat_plus_def m)
  next
    case False
    then have "unat a \<le> 2 ^ LENGTH('a) - 1 - unat b" by (simp add: word_less_nat_alt s)
    with lb have le: "unat a + unat b \<le> 2 ^ LENGTH('a) - 1" by linarith
    then have "unat a + unat b < 2 ^ LENGTH('a)"
      using la by linarith
    then have "unat (a + b) = unat a + unat b" by (simp add: unat_word_ariths)
    then show ?thesis using False le by (simp add: sat_plus_def)
  qed
qed

lemma satAdd64_unat [simp]: "unat (satAdd64 a b) = sat_plus (2 ^ 64 - 1) (unat a) (unat b)"
  unfolding satAdd64_def word_sat_add_unat by simp

section \<open>Signed wrap-around\<close>

text \<open>The value of a Go \<^verbatim>\<open>int64\<close> expression whose exact result is \<open>x\<close>.\<close>

definition int64 :: "int \<Rightarrow> int" where
  "int64 x = (x + 2 ^ 63) mod 2 ^ 64 - 2 ^ 63"

lemma int64_id [simp]: "- (2 ^ 63) \<le> x \<Longrightarrow> x < 2 ^ 63 \<Longrightarrow> int64 x = x"
  by (simp add: int64_def)

lemma int64_range: "- (2 ^ 63) \<le> int64 x \<and> int64 x < 2 ^ 63"
proof -
  have "0 \<le> (x + 2 ^ 63) mod 2 ^ 64" "(x + 2 ^ 63) mod 2 ^ 64 < 2 ^ 64" by simp_all
  then show ?thesis unfolding int64_def by simp
qed

section \<open>Shared helpers\<close>

text \<open>Go's \<^verbatim>\<open>strings.TrimPrefix\<close>.\<close>

definition TrimPrefix :: "bytes \<Rightarrow> bytes \<Rightarrow> bytes" where
  "TrimPrefix s p = (if take (length p) s = p then drop (length p) s else s)"

lemma find_SomeD: "find P xs = Some x \<Longrightarrow> x \<in> set xs \<and> P x"
  by (auto simp: find_Some_iff)

end
