(* ===== verification/Sha256.thy ===== *)
theory Sha256
  imports Prelude
begin

unbundle bit_operations_syntax

text \<open>
  SHA-256 as \<^verbatim>\<open>crypto/sha256\<close> computes it: the message is padded to whole 64-byte blocks,
  each block is expanded to 64 words and folded into eight 32-bit registers.  The component
  theories use it through \<open>HashBytes\<close> (\<open>CoreHash\<close>); what they rely on is that a digest has
  32 bytes.
\<close>

fun be_put :: "nat \<Rightarrow> nat \<Rightarrow> bytes" where
  "be_put 0 v = []"
| "be_put (Suc n) v = of_nat (v div 256 ^ n mod 256) # be_put n v"

lemma length_be_put [simp]: "length (be_put n v) = n"
  by (induction n) auto

definition be32 :: "bytes \<Rightarrow> u32" where
  "be32 bs = foldl (\<lambda>a b. push_bit 8 a OR ucast b) 0 bs"

definition sha_K :: "u32 list" where
  "sha_K = [
   0x428A2F98, 0x71374491, 0xB5C0FBCF, 0xE9B5DBA5, 0x3956C25B, 0x59F111F1,
   0x923F82A4, 0xAB1C5ED5, 0xD807AA98, 0x12835B01, 0x243185BE, 0x550C7DC3,
   0x72BE5D74, 0x80DEB1FE, 0x9BDC06A7, 0xC19BF174, 0xE49B69C1, 0xEFBE4786,
   0xFC19DC6, 0x240CA1CC, 0x2DE92C6F, 0x4A7484AA, 0x5CB0A9DC, 0x76F988DA,
   0x983E5152, 0xA831C66D, 0xB00327C8, 0xBF597FC7, 0xC6E00BF3, 0xD5A79147,
   0x6CA6351, 0x14292967, 0x27B70A85, 0x2E1B2138, 0x4D2C6DFC, 0x53380D13,
   0x650A7354, 0x766A0ABB, 0x81C2C92E, 0x92722C85, 0xA2BFE8A1, 0xA81A664B,
   0xC24B8B70, 0xC76C51A3, 0xD192E819, 0xD6990624, 0xF40E3585, 0x106AA070,
   0x19A4C116, 0x1E376C08, 0x2748774C, 0x34B0BCB5, 0x391C0CB3, 0x4ED8AA4A,
   0x5B9CCA4F, 0x682E6FF3, 0x748F82EE, 0x78A5636F, 0x84C87814, 0x8CC70208,
   0x90BEFFFA, 0xA4506CEB, 0xBEF9A3F7, 0xC67178F2]"

definition sha_IV :: "u32 list" where
  "sha_IV = [0x6A09E667, 0xBB67AE85, 0x3C6EF372, 0xA54FF53A,
             0x510E527F, 0x9B05688C, 0x1F83D9AB, 0x5BE0CD19]"

definition rotr :: "nat \<Rightarrow> u32 \<Rightarrow> u32" where
  "rotr n x = drop_bit n x OR push_bit (32 - n) x"

text \<open>The message schedule: the last 16 words give the next one.\<close>

definition sha_next :: "u32 list \<Rightarrow> u32" where
  "sha_next w =
     (let n = length w; a = w ! (n - 2); b = w ! (n - 15)
      in (rotr 17 a XOR rotr 19 a XOR drop_bit 10 a) + w ! (n - 7)
         + (rotr 7 b XOR rotr 18 b XOR drop_bit 3 b) + w ! (n - 16))"

fun sha_expand :: "nat \<Rightarrow> u32 list \<Rightarrow> u32 list" where
  "sha_expand 0 w = w"
| "sha_expand (Suc n) w = sha_expand n (w @ [sha_next w])"

fun block_words :: "nat \<Rightarrow> bytes \<Rightarrow> u32 list" where
  "block_words 0 bs = []"
| "block_words (Suc n) bs = be32 (take 4 bs) # block_words n (drop 4 bs)"

fun sha_round :: "u32 list \<Rightarrow> u32 \<times> u32 \<Rightarrow> u32 list" where
  "sha_round [a, b, c, d, e, f, g, h] (k, w) =
     (let t1 = h + (rotr 6 e XOR rotr 11 e XOR rotr 25 e) + ((e AND f) XOR (NOT e AND g)) + k + w;
          t2 = (rotr 2 a XOR rotr 13 a XOR rotr 22 a) + ((a AND b) XOR (a AND c) XOR (b AND c))
      in [t1 + t2, a, b, c, d + t1, e, f, g])"
| "sha_round s _ = s"

definition sha_block :: "u32 list \<Rightarrow> bytes \<Rightarrow> u32 list" where
  "sha_block s block =
     map2 (+) s (foldl sha_round s (zip sha_K (sha_expand 48 (block_words 16 block))))"

definition sha_pad :: "bytes \<Rightarrow> bytes" where
  "sha_pad m = m @ 0x80 # replicate ((119 - length m mod 64) mod 64) 0 @ be_put 8 (8 * length m)"

fun sha_blocks :: "nat \<Rightarrow> u32 list \<Rightarrow> bytes \<Rightarrow> u32 list" where
  "sha_blocks 0 s bs = s"
| "sha_blocks (Suc n) s bs = sha_blocks n (sha_block s (take 64 bs)) (drop 64 bs)"

definition sha256 :: "bytes \<Rightarrow> bytes" where
  "sha256 m = concat (map (\<lambda>x. be_put 4 (unat x))
                (sha_blocks (length (sha_pad m) div 64) sha_IV (sha_pad m)))"

lemma length_sha_round [simp]: "length (sha_round s kw) = length s"
  by (cases "(s, kw)" rule: sha_round.cases) (auto simp: Let_def)

lemma length_foldl_sha_round [simp]: "length (foldl sha_round s kws) = length s"
  by (induction kws arbitrary: s) auto

lemma length_sha_block [simp]: "length (sha_block s block) = length s"
  by (simp add: sha_block_def)

lemma length_sha_blocks [simp]: "length (sha_blocks n s bs) = length s"
  by (induction n arbitrary: s bs) auto

lemma length_sha256 [simp]: "length (sha256 m) = 32"
proof -
  have "length (concat (map (\<lambda>x. be_put 4 (unat x)) ws)) = 4 * length ws" for ws :: "u32 list"
    by (induction ws) auto
  then show ?thesis by (simp add: sha256_def sha_IV_def)
qed

end
