(* ===== verification/CoreHash.thy ===== *)
theory CoreHash
  imports Sha256
begin

unbundle bit_operations_syntax

text \<open>
  \<^verbatim>\<open>internal/core/hash.go\<close>: domain-separated digests and their text form.  A digest is its
  32 bytes; \<open>Hash_String\<close> writes the canonical \<^verbatim>\<open>sha256:\<close> text and \<open>ParseHash\<close> reads it, with
  or without the prefix and in either case of the hex digits, as \<^verbatim>\<open>hex.DecodeString\<close> does.
\<close>

type_synonym hash = bytes

definition HashBytes :: "bytes \<Rightarrow> bytes \<Rightarrow> hash" where
  "HashBytes domain b = sha256 (domain @ [0] @ b)"

lemma length_HashBytes [simp]: "length (HashBytes d b) = 32"
  by (simp add: HashBytes_def)

definition hashTextPrefix :: bytes where
  "hashTextPrefix = lit ''sha256:''"

lemma length_hashTextPrefix: "length hashTextPrefix = 7"
  by (simp add: hashTextPrefix_def)

abbreviation hexLen :: nat where "hexLen \<equiv> 64"

text \<open>One hex digit, and \<^verbatim>\<open>hex.EncodeToString\<close>.\<close>

definition hex_digit :: "nat \<Rightarrow> byte" where
  "hex_digit n = (if n < 10 then of_nat (48 + n) else of_nat (87 + n))"

definition hex_encode :: "bytes \<Rightarrow> bytes" where
  "hex_encode bs = concat (map (\<lambda>b. [hex_digit (unat b div 16), hex_digit (unat b mod 16)]) bs)"

definition from_hex :: "byte \<Rightarrow> nat option" where
  "from_hex c =
     (let n = unat c in
      if 48 \<le> n \<and> n \<le> 57 then Some (n - 48)
      else if 97 \<le> n \<and> n \<le> 102 then Some (n - 87)
      else if 65 \<le> n \<and> n \<le> 70 then Some (n - 55)
      else None)"

text \<open>\<^verbatim>\<open>hex.DecodeString\<close>: \<open>None\<close> for an odd length or a byte that is not a digit.\<close>

fun hex_decode :: "bytes \<Rightarrow> bytes option" where
  "hex_decode [] = Some []"
| "hex_decode [c] = None"
| "hex_decode (c # d # cs) =
     (case (from_hex c, from_hex d) of
        (Some x, Some y) \<Rightarrow> map_option (\<lambda>bs. of_nat (16 * x + y) # bs) (hex_decode cs)
      | _ \<Rightarrow> None)"

definition Hash_String :: "hash \<Rightarrow> bytes" where
  "Hash_String h = hashTextPrefix @ hex_encode h"

definition Hash_Short :: "hash \<Rightarrow> bytes" where
  "Hash_Short h = take 12 (hex_encode h)"

definition Hash_IsZero :: "hash \<Rightarrow> bool" where
  "Hash_IsZero h \<longleftrightarrow> h = replicate 32 0"

text \<open>\<open>None\<close> is the error, which always wraps \<^verbatim>\<open>ErrNotFound\<close>.\<close>

definition ParseHash :: "bytes \<Rightarrow> hash option" where
  "ParseHash s =
     (let t = TrimPrefix s hashTextPrefix in if length t \<noteq> hexLen then None else hex_decode t)"

lemma length_hex_encode [simp]: "length (hex_encode bs) = 2 * length bs"
  by (induction bs) (auto simp: hex_encode_def)

lemma unat_div_16: "unat (b :: byte) div 16 < 16"
  using unat_byte_less [of b] by (simp add: less_mult_imp_div_less del: unat_byte_less)

lemma unat_hex_digit: "n < 16 \<Longrightarrow> unat (hex_digit n) = (if n < 10 then 48 + n else 87 + n)"
  unfolding hex_digit_def by (simp add: unat_of_nat del: of_nat_add)

lemma from_hex_digit [simp]: "n < 16 \<Longrightarrow> from_hex (hex_digit n) = Some n"
  by (auto simp: from_hex_def unat_hex_digit Let_def)

lemma hex_decode_encode [simp, codec]: "hex_decode (hex_encode bs) = Some bs"
proof (induction bs)
  case Nil
  then show ?case by (simp add: hex_encode_def)
next
  case (Cons b bs)
  have lt: "unat b div 16 < 16" by (rule unat_div_16)
  have b: "(of_nat (16 * (unat b div 16) + unat b mod 16) :: byte) = b" by (simp add: mult_div_mod_eq)
  show ?case using Cons lt b unfolding hex_encode_def by simp
qed

lemma hex_decode_length: "hex_decode cs = Some bs \<Longrightarrow> length cs = 2 * length bs"
  by (induction cs arbitrary: bs rule: hex_decode.induct) (auto split: option.splits)

text \<open>An encoding never starts with the prefix, whose second character is not a hex digit.\<close>

lemma hex_encode_no_prefix: "take 7 (hex_encode bs) \<noteq> hashTextPrefix"
proof
  assume a: "take 7 (hex_encode bs) = hashTextPrefix"
  then have "length (take 7 (hex_encode bs)) = 7" by (simp add: hashTextPrefix_def)
  then have l: "7 \<le> 2 * length bs" by simp
  then obtain b cs where bs: "bs = b # cs" by (cases bs) auto
  have "hex_encode bs ! 0 = lit ''sha256:'' ! 0"
    using arg_cong [OF a, of "\<lambda>x. x ! 0"] l by (simp add: hashTextPrefix_def)
  then have "hex_digit (unat b div 16) = 115" by (simp add: bs hex_encode_def lit_def)
  moreover have "unat b div 16 < 16" by (rule unat_div_16)
  ultimately have "from_hex 115 = Some (unat b div 16)" using from_hex_digit by metis
  then show False by (simp add: from_hex_def)
qed

text \<open>\<^verbatim>\<open>ParseHash\<close> reads back every digest, from its canonical text and from the bare hex
  string, and what it accepts is always a 32-byte digest.\<close>

theorem ParseHash_round_trip:
  "(length h = 32 \<longrightarrow> ParseHash (Hash_String h) = Some h \<and> ParseHash (hex_encode h) = Some h)
    \<and> (ParseHash s = Some h' \<longrightarrow> length h' = 32)"
proof (intro conjI impI)
  assume l: "length h = 32"
  show "ParseHash (Hash_String h) = Some h"
    using l by (simp add: ParseHash_def Hash_String_def TrimPrefix_def)
  show "ParseHash (hex_encode h) = Some h"
    using l hex_encode_no_prefix [of h]
    by (simp add: ParseHash_def TrimPrefix_def length_hashTextPrefix)
next
  assume "ParseHash s = Some h'"
  then have "hex_decode (TrimPrefix s hashTextPrefix) = Some h'"
    and "length (TrimPrefix s hashTextPrefix) = 64"
    by (auto simp: ParseHash_def Let_def split: if_splits)
  then show "length h' = 32" using hex_decode_length by fastforce
qed

theorem ParseHash_round_trip_witness:
  "ParseHash (Hash_String (replicate 32 7)) = Some (replicate 32 7)
    \<and> ParseHash (hex_encode (replicate 32 7)) = Some (replicate 32 7)"
  using ParseHash_round_trip [of "replicate 32 7" "[]" "[]"] by simp

end
