(* ===== verification/Crc32c.thy ===== *)
theory Crc32c
  imports Prelude
begin

text \<open>
  Go's \<^verbatim>\<open>hash/crc32\<close> with the Castagnoli polynomial, as \<^verbatim>\<open>internal/sketch/header.go\<close> uses it
  (\<^verbatim>\<open>crc32.MakeTable(crc32.Castagnoli)\<close> and \<^verbatim>\<open>crc32.Checksum\<close>): the reflected table-driven
  algorithm, one table lookup per byte.  The lemmas show what the checksum is for: a change
  confined to at most four consecutive bytes always changes it.
\<close>

unbundle bit_operations_syntax

section \<open>The checksum\<close>

definition castagnoli :: u32 where
  "castagnoli = 0x82F63B78"

definition crc_bit :: "u32 \<Rightarrow> u32" where
  "crc_bit s = (if bit s 0 then drop_bit 1 s XOR castagnoli else drop_bit 1 s)"

definition crc_table :: "byte \<Rightarrow> u32" where
  "crc_table i = (crc_bit ^^ 8) (ucast i)"

definition crc_update :: "u32 \<Rightarrow> byte \<Rightarrow> u32" where
  "crc_update s b = crc_table (ucast s XOR b) XOR drop_bit 8 s"

definition crc32c :: "bytes \<Rightarrow> u32" where
  "crc32c bs = NOT (foldl crc_update (NOT 0) bs)"

section \<open>Linearity and injectivity of the register\<close>

lemma crc_bit_xor: "crc_bit (x XOR y) = crc_bit x XOR crc_bit y"
  by (rule bit_word_eqI) (auto simp: crc_bit_def bit_simps)

lemma crc_iter_xor: "(crc_bit ^^ n) (x XOR y) = (crc_bit ^^ n) x XOR (crc_bit ^^ n) y"
  by (induction n) (simp_all add: crc_bit_xor)

lemma crc_bit_0: "crc_bit x = 0 \<Longrightarrow> x = 0"
proof -
  assume e: "crc_bit x = 0"
  have p: "bit castagnoli 31" by (simp add: castagnoli_def)
  have nb: "\<not> bit x 0"
  proof
    assume b: "bit x 0"
    have "\<not> bit (drop_bit 1 x) 31" by (auto simp: bit_simps dest: bit_imp_le_length)
    with p have "bit (drop_bit 1 x XOR castagnoli) 31" by (simp add: bit_xor_iff)
    with e b show False by (simp add: crc_bit_def)
  qed
  with e have d: "drop_bit 1 x = 0" by (simp add: crc_bit_def)
  show "x = 0"
  proof (rule bit_word_eqI)
    fix n assume "n < LENGTH(32)"
    show "bit x n = bit 0 n"
    proof (cases n)
      case 0 then show ?thesis using nb by simp
    next
      case (Suc m)
      have "bit (drop_bit 1 x) m = bit x (Suc m)" by (simp add: bit_simps)
      then show ?thesis using d Suc by simp
    qed
  qed
qed

lemma xor_right_cancel_word: "x XOR z = (y :: 'a::len word) XOR z \<Longrightarrow> x = y"
proof -
  assume "x XOR z = y XOR z"
  then have "(x XOR z) XOR z = (y XOR z) XOR z" by simp
  then show "x = y" by (simp add: xor.assoc)
qed

lemma xor_left_cancel_word: "z XOR x = z XOR (y :: 'a::len word) \<Longrightarrow> x = y"
  by (rule xor_right_cancel_word [of x z y]) (simp only: xor.commute [of _ z])

lemma crc_iter_inj: "(crc_bit ^^ n) x = (crc_bit ^^ n) y \<Longrightarrow> x = y"
proof (induction n)
  case 0
  then show ?case by simp
next
  case (Suc n)
  have "crc_bit ((crc_bit ^^ n) x XOR (crc_bit ^^ n) y) = 0"
    using Suc.prems by (simp add: crc_bit_xor)
  then have "(crc_bit ^^ n) x XOR (crc_bit ^^ n) y = 0" by (rule crc_bit_0)
  then have "(crc_bit ^^ n) x XOR (crc_bit ^^ n) y = (crc_bit ^^ n) y XOR (crc_bit ^^ n) y" by simp
  then have "(crc_bit ^^ n) x = (crc_bit ^^ n) y" by (rule xor_right_cancel_word)
  then show ?case by (rule Suc.IH)
qed

lemma crc_iter_low_zero:
  "(\<And>i. i < n \<Longrightarrow> \<not> bit y i) \<Longrightarrow> (crc_bit ^^ n) y = drop_bit n y"
proof (induction n)
  case 0
  then show ?case by simp
next
  case (Suc n)
  then have "(crc_bit ^^ n) y = drop_bit n y" by simp
  moreover have "\<not> bit (drop_bit n y) 0" using Suc.prems [of n] by (simp add: bit_simps)
  moreover have "crc_bit (drop_bit n y) = drop_bit (Suc n) y"
    using calculation(2) by (simp add: crc_bit_def)
  ultimately show ?case by simp
qed

text \<open>One table step is eight register steps on the state with the byte folded in.\<close>

lemma crc_update_iter: "crc_update s b = (crc_bit ^^ 8) (s XOR ucast b)"
proof -
  let ?lo = "ucast (ucast s XOR b :: byte) :: u32"
  let ?hi = "push_bit 8 (drop_bit 8 s) :: u32"
  have split: "s XOR ucast b = ?lo XOR ?hi"
    by (rule bit_word_eqI) (auto simp: bit_simps)
  have "(crc_bit ^^ 8) ?hi = drop_bit 8 ?hi"
    by (rule crc_iter_low_zero) (simp add: bit_simps)
  also have "\<dots> = drop_bit 8 s"
    by (rule bit_word_eqI) (auto simp: bit_simps dest: bit_imp_le_length)
  finally show ?thesis
    by (simp add: split crc_iter_xor crc_update_def crc_table_def)
qed

lemma crc_update_inj_state: "crc_update s b = crc_update s' b \<Longrightarrow> s = s'"
proof -
  assume "crc_update s b = crc_update s' b"
  then have "s XOR ucast b = s' XOR ucast b" unfolding crc_update_iter by (rule crc_iter_inj)
  then show "s = s'" by (rule xor_right_cancel_word)
qed

lemma crc_fold_inj_state: "foldl crc_update s bs = foldl crc_update s' bs \<Longrightarrow> s = s'"
  by (induction bs arbitrary: s s') (auto dest: crc_update_inj_state)

section \<open>Bursts\<close>

fun pack :: "bytes \<Rightarrow> u32" where
  "pack [] = 0"
| "pack (b # bs) = ucast b XOR push_bit 8 (pack bs)"

lemma pack_high_zero: "8 * length bs \<le> i \<Longrightarrow> \<not> bit (pack bs) i"
proof (induction bs arbitrary: i)
  case Nil
  then show ?case by simp
next
  case (Cons b bs)
  then have "8 \<le> i" "\<not> bit (pack bs) (i - 8)" by auto
  then show ?case by (auto simp: bit_simps dest: bit_imp_le_length)
qed

lemma crc_fold_pack:
  "length bs \<le> 4 \<Longrightarrow> foldl crc_update s bs = ((crc_bit ^^ 8) ^^ length bs) (s XOR pack bs)"
proof (induction bs arbitrary: s)
  case Nil
  then show ?case by simp
next
  case (Cons b bs)
  have hz: "drop_bit 8 (push_bit 8 (pack bs)) = pack bs"
    using pack_high_zero [of bs] Cons.prems
    by (intro bit_word_eqI) (auto simp: bit_simps intro: ccontr)
  have f: "(crc_bit ^^ 8) (push_bit 8 (pack bs)) = pack bs"
    by (subst crc_iter_low_zero) (simp_all add: bit_simps hz)
  have "foldl crc_update s (b # bs) = ((crc_bit ^^ 8) ^^ length bs) (crc_update s b XOR pack bs)"
    using Cons by simp
  also have "crc_update s b XOR pack bs = (crc_bit ^^ 8) ((s XOR ucast b) XOR push_bit 8 (pack bs))"
    by (simp add: crc_update_iter f crc_iter_xor)
  finally show ?case by (simp add: xor.assoc funpow_swap1)
qed

lemma funpow8_inj: "((crc_bit ^^ 8) ^^ n) x = ((crc_bit ^^ 8) ^^ n) y \<Longrightarrow> x = y"
  by (metis funpow_mult crc_iter_inj)

lemma pack_inj: "length u = length v \<Longrightarrow> length u \<le> 4 \<Longrightarrow> pack u = pack v \<Longrightarrow> u = v"
proof (induction u v rule: list_induct2)
  case Nil
  then show ?case by simp
next
  case (Cons a u b v)
  have bits: "bit (pack (a # u)) i = bit (pack (b # v)) i" for i
    using Cons.prems by simp
  have ab: "a = b"
  proof (rule bit_word_eqI)
    fix i assume "i < LENGTH(8)"
    then show "bit a i = bit b i" using bits [of i] by (auto simp: bit_simps)
  qed
  have "pack u = pack v"
  proof (rule bit_word_eqI)
    fix i assume "i < LENGTH(32)"
    show "bit (pack u) i = bit (pack v) i"
    proof (cases "i < 24")
      case True
      then show ?thesis using bits [of "i + 8"] ab by (auto simp: bit_simps)
    next
      case False
      then show ?thesis using Cons.prems Cons.hyps pack_high_zero [of u i] pack_high_zero [of v i]
        by simp
    qed
  qed
  then show ?case using Cons ab by simp
qed

text \<open>Two inputs that differ only inside a window of at most four bytes have different checksums.\<close>

lemma crc32c_burst:
  assumes len: "length u = length v" and l4: "length u \<le> 4"
    and eq: "crc32c (xs @ u @ ys) = crc32c (xs @ v @ ys)"
  shows "u = v"
proof -
  let ?s = "foldl crc_update (NOT 0) xs"
  have "foldl crc_update (foldl crc_update ?s u) ys = foldl crc_update (foldl crc_update ?s v) ys"
    using eq by (simp add: crc32c_def)
  then have "foldl crc_update ?s u = foldl crc_update ?s v" by (rule crc_fold_inj_state)
  then have "?s XOR pack u = ?s XOR pack v"
    using crc_fold_pack [of u ?s] crc_fold_pack [of v ?s] len l4 by (simp add: funpow8_inj)
  then have "pack u = pack v" by (rule xor_left_cancel_word)
  then show ?thesis using len l4 by (intro pack_inj)
qed

lemma crc32c_update_byte:
  assumes "i < length bs" and "crc32c (bs[i := c]) = crc32c bs"
  shows "bs ! i = c"
proof -
  have e: "bs[i := c] = take i bs @ [c] @ drop (Suc i) bs"
    using assms(1) by (simp add: upd_conv_take_nth_drop)
  have f: "take i bs @ [bs ! i] @ drop (Suc i) bs = bs"
    using assms(1) by (simp add: Cons_nth_drop_Suc)
  have "crc32c (take i bs @ [bs ! i] @ drop (Suc i) bs) = crc32c (take i bs @ [c] @ drop (Suc i) bs)"
    unfolding f e [symmetric] using assms(2) by (rule sym)
  then have "[bs ! i] = [c]" by (rule crc32c_burst [rotated 2]) simp_all
  then show ?thesis by simp
qed

section \<open>Codewords\<close>

lemma pack_le_get: "length bs \<le> 4 \<Longrightarrow> pack bs = of_nat (le_get bs)"
proof (induction bs)
  case Nil
  then show ?case by simp
next
  case (Cons b bs)
  have d: "(ucast b :: u32) AND push_bit 8 (pack bs) = 0"
    by (rule bit_word_eqI) (auto simp: bit_simps dest: bit_imp_le_length)
  have "pack (b # bs) = ucast b + push_bit 8 (pack bs)"
    using disjunctive_add_eq_xor [OF d] by simp
  also have "push_bit 8 (pack bs) = 256 * of_nat (le_get bs)"
    using Cons by (simp add: push_bit_eq_mult)
  finally show ?case by simp
qed

text \<open>A block followed by its little-endian checksum leaves the register at a fixed residue.\<close>

lemma crc_residue:
  assumes "length c = 4"
  shows "crc32c d = of_nat (le_get c) \<longleftrightarrow>
    foldl crc_update (NOT 0) (d @ c) = ((crc_bit ^^ 8) ^^ 4) (NOT 0)"
proof -
  let ?s = "foldl crc_update (NOT 0) d"
  have f: "foldl crc_update (NOT 0) (d @ c) = ((crc_bit ^^ 8) ^^ 4) (?s XOR pack c)"
    using crc_fold_pack [of c ?s] assms by simp
  have "?s XOR pack c = NOT 0 \<longleftrightarrow> pack c = NOT ?s"
  proof
    assume "?s XOR pack c = NOT 0"
    then have "?s XOR (?s XOR pack c) = ?s XOR NOT 0" by simp
    then show "pack c = NOT ?s" by (simp flip: xor.assoc)
  next
    assume "pack c = NOT ?s"
    then show "?s XOR pack c = NOT 0" by (intro bit_word_eqI) (auto simp: bit_simps)
  qed
  then have "foldl crc_update (NOT 0) (d @ c) = ((crc_bit ^^ 8) ^^ 4) (NOT 0) \<longleftrightarrow> pack c = NOT ?s"
    unfolding f by (auto dest: funpow8_inj)
  then show ?thesis using pack_le_get [of c] assms by (auto simp: crc32c_def)
qed

text \<open>Two codewords of one length that differ inside a four-byte window are equal.\<close>

lemma crc_codeword_burst:
  assumes len: "length u = length v" and l4: "length u \<le> 4"
    and a: "d @ c = xs @ u @ ys" "length c = 4" "crc32c d = of_nat (le_get c)"
    and b: "d' @ c' = xs @ v @ ys" "length c' = 4" "crc32c d' = of_nat (le_get c')"
  shows "u = v"
proof -
  have "foldl crc_update (NOT 0) (xs @ u @ ys) = foldl crc_update (NOT 0) (xs @ v @ ys)"
    using a b crc_residue [of c d] crc_residue [of c' d'] by simp
  then have "crc32c (xs @ u @ ys) = crc32c (xs @ v @ ys)" unfolding crc32c_def by (rule arg_cong)
  then show ?thesis using len l4 by (intro crc32c_burst)
qed

end
