(* ===== verification/GoFloat.thy ===== *)
theory GoFloat
  imports Prelude
begin

text \<open>
  IEEE 754 binary64 as far as the sketches use it.  A \<^verbatim>\<open>float64\<close> is its bit pattern
  (\<^verbatim>\<open>math.Float64bits\<close>).  \<open>f64_round m e\<close> is the double nearest to \<open>m * 2 ^ e\<close>, ties to
  even, with gradual underflow and overflow to infinity; conversion from an integer and
  multiplication of non-negative values are roundings of the exact result.  \<open>f64_integral\<close>
  reads a double that is an integer, \<open>f64_less\<close> and \<open>f64_le\<close> are the comparisons.
\<close>

type_synonym f64 = "64 word"

section \<open>Fields\<close>

definition f64_sign :: "f64 \<Rightarrow> bool" where
  "f64_sign w = bit w 63"

definition f64_exp :: "f64 \<Rightarrow> nat" where
  "f64_exp w = unat w div 2 ^ 52 mod 2 ^ 11"

definition f64_man :: "f64 \<Rightarrow> nat" where
  "f64_man w = unat w mod 2 ^ 52"

definition f64_isNaN :: "f64 \<Rightarrow> bool" where
  "f64_isNaN w \<longleftrightarrow> f64_exp w = 2047 \<and> f64_man w \<noteq> 0"

text \<open>The exact value of a finite double without its sign, as \<open>m * 2 ^ e\<close>.\<close>

definition f64_dyadic :: "f64 \<Rightarrow> nat \<times> int" where
  "f64_dyadic w = (if f64_exp w = 0 then (f64_man w, - 1074)
                   else (2 ^ 52 + f64_man w, int (f64_exp w) - 1075))"

section \<open>Rounding\<close>

definition rne_shift :: "nat \<Rightarrow> nat \<Rightarrow> nat" where
  "rne_shift m s =
     (let q = m div 2 ^ s; r = m mod 2 ^ s
      in if 2 * r > 2 ^ s \<or> (2 * r = 2 ^ s \<and> odd q) then q + 1 else q)"

definition f64_round :: "nat \<Rightarrow> int \<Rightarrow> f64" where
  "f64_round m e =
     (if m = 0 then 0
      else let q = max (int (bits_Len m) - 53 + e) (- 1074);
               man = (if e \<ge> q then m * 2 ^ nat (e - q) else rne_shift m (nat (q - e)));
               v = nat (q + 1074) * 2 ^ 52 + man
           in if v \<ge> 2047 * 2 ^ 52 then of_nat (2047 * 2 ^ 52) else of_nat v)"

definition f64_of_nat :: "nat \<Rightarrow> f64" where
  "f64_of_nat n = f64_round n 0"

definition f64_of_int :: "int \<Rightarrow> f64" where
  "f64_of_int i = (if i < 0 then of_nat (2 ^ 63 + unat (f64_of_nat (nat (- i)))) else f64_of_nat (nat i))"

text \<open>Multiplication of two finite non-negative doubles.\<close>

definition f64_mul :: "f64 \<Rightarrow> f64 \<Rightarrow> f64" where
  "f64_mul a b =
     (let (ma, ea) = f64_dyadic a; (mb, eb) = f64_dyadic b in f64_round (ma * mb) (ea + eb))"

text \<open>\<^verbatim>\<open>math.Round\<close> of a finite non-negative double: halves round away from zero.\<close>

definition f64_Round :: "f64 \<Rightarrow> nat" where
  "f64_Round w =
     (let (m, e) = f64_dyadic w
      in if e \<ge> 0 then m * 2 ^ nat e
         else (2 * m + 2 ^ nat (- e)) div 2 ^ (nat (- e) + 1))"

section \<open>Reading integers and comparing\<close>

definition f64_integral :: "f64 \<Rightarrow> int option" where
  "f64_integral w =
     (let e = f64_exp w; m = 2 ^ 52 + f64_man w; s = (if f64_sign w then - 1 else 1)
      in if e = 2047 then None
         else if e = 0 then (if f64_man w = 0 then Some 0 else None)
         else if e < 1023 then None
         else if 1075 \<le> e then Some (s * int (m * 2 ^ (e - 1075)))
         else if 2 ^ (1075 - e) dvd m then Some (s * int (m div 2 ^ (1075 - e)))
         else None)"

text \<open>
  Comparison: a NaN compares false, and otherwise the sign-magnitude pattern is ordered like
  the value, with both zeros equal.
\<close>

definition f64_key :: "f64 \<Rightarrow> int" where
  "f64_key w = (if f64_sign w then - (int (unat w) - 2 ^ 63) else int (unat w))"

definition f64_less :: "f64 \<Rightarrow> f64 \<Rightarrow> bool" where
  "f64_less a b \<longleftrightarrow> \<not> f64_isNaN a \<and> \<not> f64_isNaN b \<and> f64_key a < f64_key b"

definition f64_le :: "f64 \<Rightarrow> f64 \<Rightarrow> bool" where
  "f64_le a b \<longleftrightarrow> \<not> f64_isNaN a \<and> \<not> f64_isNaN b \<and> f64_key a \<le> f64_key b"

text \<open>\<^verbatim>\<open>clamp\<close> of \<^verbatim>\<open>internal/sketch/util.go\<close>.\<close>

definition f64_clamp :: "f64 \<Rightarrow> f64 \<Rightarrow> f64 \<Rightarrow> f64" where
  "f64_clamp v lo hi =
     (if f64_isNaN v then lo else if f64_less v lo then lo else if f64_less hi v then hi else v)"

lemma f64_clamp_range:
  assumes "f64_le lo hi"
  shows "f64_le lo (f64_clamp v lo hi) \<and> f64_le (f64_clamp v lo hi) hi"
  using assms by (auto simp: f64_clamp_def f64_le_def f64_less_def)

definition f64_one :: f64 where "f64_one = 0x3FF0000000000000"

text \<open>A rate that is strictly between 0 and 1, the test of the sketch decoders.\<close>

definition rate_ok :: "f64 \<Rightarrow> bool" where
  "rate_ok v \<longleftrightarrow> \<not> (f64_isNaN v \<or> f64_le v 0 \<or> f64_le f64_one v)"

text \<open>A positive pattern below that of 1 is a rate, and clamping between two rates gives one.\<close>

lemma small_not_NaN:
  assumes "w < f64_one"
  shows "\<not> f64_isNaN w"
proof -
  have "unat w < 1023 * 2 ^ 52" using assms by (simp add: f64_one_def word_less_nat_alt)
  then have "unat w div 2 ^ 52 < 1023" by (rule less_mult_imp_div_less)
  then have "f64_exp w < 1023" by (simp add: f64_exp_def)
  then show ?thesis by (simp add: f64_isNaN_def)
qed

lemma f64_key_mono: "\<not> f64_sign a \<Longrightarrow> \<not> f64_sign b \<Longrightarrow> f64_key a < f64_key b \<longleftrightarrow> a < b"
  by (simp add: f64_key_def word_less_nat_alt del: of_nat_unat)

lemma rate_ok_clamp:
  assumes "\<not> f64_sign lo" and "\<not> f64_sign hi" and "0 < lo" and "lo < hi" and "hi < f64_one"
  shows "rate_ok (f64_clamp v lo hi)"
proof -
  have n: "\<not> f64_isNaN lo" "\<not> f64_isNaN hi" using assms small_not_NaN by (auto intro: less_trans)
  have s: "\<not> f64_sign 0" "\<not> f64_sign f64_one" by (simp_all add: f64_sign_def f64_one_def)
  have k: "f64_key 0 < f64_key lo" "f64_key lo < f64_key hi" "f64_key hi < f64_key f64_one"
    using assms s by (simp_all add: f64_key_mono)
  have "f64_le lo hi" using n k by (simp add: f64_le_def)
  from f64_clamp_range [OF this, of v] show ?thesis using k by (auto simp: rate_ok_def f64_le_def)
qed

section \<open>Integers below \<open>2 ^ 53\<close> are exact\<close>

lemma f64_of_nat_bits:
  assumes "0 < n" and "n < 2 ^ 53"
  shows "unat (f64_of_nat n) = (bits_Len n + 1021) * 2 ^ 52 + n * 2 ^ (53 - bits_Len n)
    \<and> bits_Len n \<le> 53 \<and> 2 ^ 52 \<le> n * 2 ^ (53 - bits_Len n) \<and> n * 2 ^ (53 - bits_Len n) < 2 ^ 53"
proof -
  let ?L = "bits_Len n" and ?M = "n * 2 ^ (53 - bits_Len n)"
  note b = bits_Len_bounds [OF assms(1)]
  have "(2::nat) ^ (?L - 1) < 2 ^ 53" using b assms(2) by linarith
  then have "?L - 1 < 53" by (rule power_less_imp_less_exp [rotated]) simp
  then have L: "?L \<le> 53" using b by simp
  have lo: "2 ^ 52 \<le> ?M"
  proof -
    have "2 ^ (?L - 1) * 2 ^ (53 - ?L) \<le> ?M" using b by simp
    moreover have "?L - 1 + (53 - ?L) = 52" using L b by simp
    ultimately show ?thesis by (simp flip: power_add)
  qed
  have hi: "?M < 2 ^ 53"
  proof -
    have "?M < 2 ^ ?L * 2 ^ (53 - ?L)" using b by simp
    also have "\<dots> = 2 ^ 53" using L by (simp flip: power_add)
    finally show ?thesis .
  qed
  define v where "v = (?L + 1021) * 2 ^ 52 + ?M"
  have q: "max (int ?L - 53 + 0) (- 1074) = int ?L - 53" using L by simp
  have nq: "nat (int ?L - 53 + 1074) = ?L + 1021" by simp
  have nd: "nat (0 - (int ?L - 53)) = 53 - ?L" by simp
  have "(?L + 1021) * 2 ^ 52 \<le> 1074 * (2::nat) ^ 52" using L by (intro mult_le_mono1) simp
  then have "v < 1074 * 2 ^ 52 + 2 ^ 53" using hi unfolding v_def by (rule add_le_less_mono)
  then have vlt: "v < 2047 * 2 ^ 52" by (rule less_trans) simp
  have "f64_of_nat n = of_nat v"
    using assms(1) vlt L unfolding f64_of_nat_def f64_round_def Let_def q nq nd v_def by simp
  moreover have "v < 2 ^ 64" using vlt by (rule less_trans) simp
  ultimately have "unat (f64_of_nat n) = v" by (simp add: unat_of_nat)
  then show ?thesis using L lo hi by (simp add: v_def)
qed

lemma f64_fields:
  assumes "unat w = e * 2 ^ 52 + m" and "m < 2 ^ 52" and "e < 2 ^ 11"
  shows "f64_exp w = e" and "f64_man w = m" and "\<not> f64_sign w"
proof -
  have d: "unat w div 2 ^ 52 = e" using assms by simp
  show "f64_exp w = e" using d assms(3) by (simp add: f64_exp_def)
  show "f64_man w = m" using assms by (simp add: f64_man_def)
  have "e * 2 ^ 52 + m < Suc e * 2 ^ 52" using assms(2) by simp
  also have "\<dots> \<le> 2 ^ 11 * 2 ^ 52" using assms(3) by (intro mult_le_mono1) simp
  finally have "unat w < 2 ^ 63" using assms(1) by simp
  then have "\<not> bit (unat w) 63" by (simp add: bit_iff_odd)
  then show "\<not> f64_sign w" by (simp add: f64_sign_def bit_unsigned_iff)
qed

lemma f64_integral_of_nat [simp]:
  assumes "n < 2 ^ 53"
  shows "f64_integral (f64_of_nat n) = Some (int n)"
proof (cases "n = 0")
  case True
  then show ?thesis
    by (simp add: f64_of_nat_def f64_round_def f64_integral_def f64_exp_def f64_man_def)
next
  case False
  let ?L = "bits_Len n" and ?M = "n * 2 ^ (53 - bits_Len n)"
  have L: "?L \<le> 53" and lo: "2 ^ 52 \<le> ?M" and hi: "?M < 2 ^ 53"
    and u: "unat (f64_of_nat n) = (?L + 1021) * 2 ^ 52 + ?M"
    using f64_of_nat_bits [of n] assms False by auto
  have L0: "0 < ?L" using bits_Len_bounds [of n] False by simp
  have "unat (f64_of_nat n) = (?L + 1022) * 2 ^ 52 + (?M - 2 ^ 52)"
    using u lo by simp
  moreover have "?M - 2 ^ 52 < 2 ^ 52" using hi by simp
  moreover have "?L + 1022 < 2 ^ 11" using L by simp
  ultimately have e: "f64_exp (f64_of_nat n) = ?L + 1022" and m: "f64_man (f64_of_nat n) = ?M - 2 ^ 52"
    and s: "\<not> f64_sign (f64_of_nat n)"
    using f64_fields by blast+
  have mm: "2 ^ 52 + (?M - 2 ^ 52) = ?M" using lo by simp
  have sh: "1075 - (?L + 1022) = 53 - ?L" using L by simp
  show ?thesis
  proof (cases "?L = 53")
    case True
    then show ?thesis using lo by (simp add: f64_integral_def e m s Let_def)
  next
    case False
    then show ?thesis using L L0 s unfolding f64_integral_def e m Let_def mm sh by simp
  qed
qed

end
