(* ===== verification/SketchHeader.thy ===== *)
theory SketchHeader
  imports Crc32c GoFloat "HOL-Library.Multiset"
begin

unbundle bit_operations_syntax

text \<open>
  The QPKS frame of \<^verbatim>\<open>internal/sketch/header.go\<close>: a 32-byte prefix, the construction
  parameters in ascending order of their names, a body, and a CRC-32C trailer.  The theory
  holds \<open>EncodeHeader\<close>, \<open>DecodeHeader\<close> with its two passes (\<open>walk_params\<close> validates and
  measures, \<open>read_params\<close> fills the map), \<open>Param\<close> and \<open>MustParamInt\<close>, and shows that they
  are inverse to each other, that decoding accepts only what encoding produces (up to the
  reserved byte) and that no change within four consecutive bytes goes unnoticed.
\<close>

section \<open>Errors, kinds and the header\<close>

datatype sketch_error = ErrBadMagic | ErrUnsupportedVersion | ErrKindMismatch | ErrCorrupt
  | ErrTruncated | ErrMalformed | ErrShapeMismatch | ErrTooLarge | ErrGenerational

abbreviation headerPrefixLen :: nat where "headerPrefixLen \<equiv> 32"
abbreviation crcLen :: nat where "crcLen \<equiv> 4"
abbreviation minFrameLen :: nat where "minFrameLen \<equiv> 36"
abbreviation maxParams :: nat where "maxParams \<equiv> 64"
abbreviation maxParamNameLen :: nat where "maxParamNameLen \<equiv> 32"
abbreviation MaxFrameBytes :: nat where "MaxFrameBytes \<equiv> 67108864"

definition FormatVersion :: u16 where "FormatVersion = 1"

definition HeaderMagic :: bytes where "HeaderMagic = [0x51, 0x50, 0x4B, 0x53]"

definition KindBloom :: byte where "KindBloom = 1"
definition KindCMS :: byte where "KindCMS = 2"
definition KindHLL :: byte where "KindHLL = 3"
definition KindMisraGries :: byte where "KindMisraGries = 4"
definition KindMinHash :: byte where "KindMinHash = 5"

definition Kind_Valid :: "byte \<Rightarrow> bool" where
  "Kind_Valid k \<longleftrightarrow> k \<ge> KindBloom \<and> k \<le> KindMinHash"

text \<open>
  The parameter map is an association list with distinct names.  \<open>h_Created\<close> is the 64-bit
  pattern of the signed millisecond count.
\<close>

record Header =
  h_Magic :: bytes
  h_Ver :: u16
  h_Kind :: byte
  h_Params :: "(bytes \<times> f64) list"
  h_Count :: u64
  h_Created :: u64
  h_CRC32C :: u32

definition paramByteOK :: "byte \<Rightarrow> bool" where
  "paramByteOK c \<longleftrightarrow> (c \<ge> 0x61 \<and> c \<le> 0x7A) \<or> (c \<ge> 0x30 \<and> c \<le> 0x39) \<or> c = 0x2E"

definition paramNameOK :: "bytes \<Rightarrow> bool" where
  "paramNameOK name \<longleftrightarrow> name \<noteq> [] \<and> length name \<le> maxParamNameLen \<and> list_all paramByteOK name"

section \<open>Encoding\<close>

definition enc_param :: "bytes \<times> f64 \<Rightarrow> bytes" where
  "enc_param p = of_nat (length (fst p)) # fst p @ le_put 8 (unat (snd p))"

definition enc_params :: "(bytes \<times> f64) list \<Rightarrow> bytes" where
  "enc_params ps = concat (map enc_param ps)"

text \<open>The names of a map in ascending order, each with its value.\<close>

definition sorted_params :: "(bytes \<times> f64) list \<Rightarrow> (bytes \<times> f64) list" where
  "sorted_params ps = map (\<lambda>n. (n, the (map_of ps n))) (sort (map fst ps))"

definition enc_prefix :: "u16 \<Rightarrow> byte \<Rightarrow> byte \<Rightarrow> u64 \<Rightarrow> u64 \<Rightarrow> nat \<Rightarrow> nat \<Rightarrow> bytes" where
  "enc_prefix ver kind reserved cnt created paramCount bodyLen =
     HeaderMagic @ le_put 2 (unat ver) @ [kind, reserved] @ le_put 8 (unat cnt)
     @ le_put 8 (unat created) @ le_put 4 paramCount @ le_put 4 bodyLen"

definition seal :: "bytes \<Rightarrow> bytes" where
  "seal frame = frame @ le_put 4 (unat (crc32c frame))"

definition EncodeHeader :: "Header \<Rightarrow> bytes \<Rightarrow> (sketch_error, bytes) result" where
  "EncodeHeader h body =
     (if length (h_Params h) > maxParams then Inl ErrMalformed
      else if length body > MaxFrameBytes then Inl ErrTooLarge
      else if \<not> list_all (\<lambda>p. paramNameOK (fst p)) (h_Params h) then Inl ErrMalformed
      else let ps = sorted_params (h_Params h);
               total = headerPrefixLen + sum_list (map (\<lambda>p. 1 + length (fst p) + 8) (h_Params h))
                 + length body + crcLen
           in if total > MaxFrameBytes then Inl ErrTooLarge
              else Inr (seal (enc_prefix (h_Ver h) (h_Kind h) 0 (h_Count h) (h_Created h)
                                (length ps) (length body)
                              @ enc_params ps @ body)))"

section \<open>Decoding\<close>

text \<open>Pass 1 over the parameter block; \<open>prev\<close> is the previous name.\<close>

fun walk_params :: "bytes \<Rightarrow> nat \<Rightarrow> nat \<Rightarrow> bytes option \<Rightarrow> nat \<Rightarrow> (sketch_error, nat) result" where
  "walk_params b limit 0 prev off = Inr off"
| "walk_params b limit (Suc n) prev off =
     (if off \<ge> limit then Inl ErrTruncated
      else let nameLen = unat (b ! off) in
        if nameLen = 0 \<or> nameLen > maxParamNameLen then Inl ErrMalformed
        else if off + 1 + nameLen + 8 > limit then Inl ErrTruncated
        else let name = gslice b (off + 1) (off + 1 + nameLen) in
          if \<not> list_all paramByteOK name then Inl ErrMalformed
          else if (case prev of None \<Rightarrow> False | Some p \<Rightarrow> p \<ge> name) then Inl ErrMalformed
          else walk_params b limit n (Some name) (off + 1 + nameLen + 8))"

text \<open>Pass 2 over the parameter block.\<close>

fun read_params :: "bytes \<Rightarrow> nat \<Rightarrow> nat \<Rightarrow> (bytes \<times> f64) list" where
  "read_params b 0 p = []"
| "read_params b (Suc n) p =
     (let nameLen = unat (b ! p); nameEnd = p + 1 + nameLen
      in (gslice b (p + 1) nameEnd, of_nat (le_get (gslice b nameEnd (nameEnd + 8))))
         # read_params b n (nameEnd + 8))"

definition u16_at :: "bytes \<Rightarrow> nat \<Rightarrow> u16" where
  "u16_at b i = of_nat (le_get (gslice b i (i + 2)))"

definition u32_at :: "bytes \<Rightarrow> nat \<Rightarrow> u32" where
  "u32_at b i = of_nat (le_get (gslice b i (i + 4)))"

definition u64_at :: "bytes \<Rightarrow> nat \<Rightarrow> u64" where
  "u64_at b i = of_nat (le_get (gslice b i (i + 8)))"

definition DecodeHeader :: "bytes \<Rightarrow> (sketch_error, Header \<times> bytes) result" where
  "DecodeHeader b =
     (if length b < minFrameLen then Inl ErrTruncated
      else if length b > MaxFrameBytes then Inl ErrTooLarge
      else if gslice b 0 4 \<noteq> HeaderMagic then Inl ErrBadMagic
      else if u16_at b 4 = 0 \<or> u16_at b 4 > FormatVersion then Inl ErrUnsupportedVersion
      else if \<not> Kind_Valid (b ! 6) then Inl ErrMalformed
      else if unat (u32_at b 24) > maxParams then Inl ErrMalformed
      else let limit = length b - crcLen; paramCount = unat (u32_at b 24) in
        case walk_params b limit paramCount None headerPrefixLen of
          Inl e \<Rightarrow> Inl e
        | Inr off \<Rightarrow>
            let bodyLen = unat (u32_at b 28) in
            if bodyLen > MaxFrameBytes then Inl ErrTooLarge
            else if headerPrefixLen + (off - headerPrefixLen) + bodyLen \<noteq> limit then Inl ErrTruncated
            else if crc32c (gslice b 0 limit) \<noteq> u32_at b limit then Inl ErrCorrupt
            else Inr (\<lparr>h_Magic = HeaderMagic, h_Ver = u16_at b 4, h_Kind = b ! 6,
                       h_Params = read_params b paramCount headerPrefixLen,
                       h_Count = u64_at b 8, h_Created = u64_at b 16,
                       h_CRC32C = u32_at b limit\<rparr>,
                      gslice b off (off + bodyLen)))"

section \<open>Reading parameters\<close>

definition Param :: "Header \<Rightarrow> bytes \<Rightarrow> f64 option" where
  "Param h name = map_of (h_Params h) name"

definition MustParamInt :: "Header \<Rightarrow> bytes \<Rightarrow> int \<Rightarrow> int \<Rightarrow> (sketch_error, int) result" where
  "MustParamInt h name lo hi =
     (case map_of (h_Params h) name of
        None \<Rightarrow> Inl ErrMalformed
      | Some v \<Rightarrow> (case f64_integral v of
            None \<Rightarrow> Inl ErrMalformed
          | Some i \<Rightarrow> if i < lo \<or> i > hi then Inl ErrMalformed else Inr i))"

section \<open>The parameter block\<close>

lemma enc_params_simps [simp]:
  "enc_params [] = []" "enc_params (p # ps) = enc_param p @ enc_params ps"
  by (simp_all add: enc_params_def)

lemma length_enc_param [simp]: "length (enc_param p) = 9 + length (fst p)"
  by (simp add: enc_param_def)

lemma length_enc_params: "length (enc_params ps) = sum_list (map (\<lambda>p. 1 + length (fst p) + 8) ps)"
  by (induction ps) auto

lemma drop_appendD:
  assumes "drop off b = xs @ ys"
  shows "gslice b off (off + length xs) = xs" and "drop (off + length xs) b = ys"
proof -
  show "gslice b off (off + length xs) = xs" using assms by (simp add: gslice_def)
  have "drop (length xs) (drop off b) = ys" using assms by simp
  then show "drop (off + length xs) b = ys" by (simp add: add.commute)
qed

lemma drop_ConsD:
  assumes "drop off b = x # ys"
  shows "off < length b" and "b ! off = x" and "drop (Suc off) b = ys"
proof -
  show l: "off < length b" using assms by (cases "off < length b") auto
  have "b ! off # drop (Suc off) b = x # ys" using l assms by (simp add: Cons_nth_drop_Suc)
  then show "b ! off = x" and "drop (Suc off) b = ys" by simp_all
qed

definition ascending :: "bytes option \<Rightarrow> bytes list \<Rightarrow> bool" where
  "ascending prev names = sorted_wrt (<) (case prev of None \<Rightarrow> names | Some p \<Rightarrow> p # names)"

lemma ascending_Cons:
  "ascending prev (n # ns) \<longleftrightarrow> (case prev of None \<Rightarrow> True | Some p \<Rightarrow> p < n) \<and> ascending (Some n) ns"
  by (auto simp: ascending_def split: option.splits intro: less_trans)

lemma ascending_Nil [simp]: "ascending prev []"
  by (simp add: ascending_def split: option.splits)

lemma paramNameOK_length: "paramNameOK n \<Longrightarrow> 0 < length n \<and> length n \<le> 32"
  by (auto simp: paramNameOK_def)

text \<open>The fields of one encoded parameter, found where the block starts.\<close>

lemma enc_param_at:
  assumes d: "drop off b = enc_param (n, v) @ rest" and ok: "paramNameOK n"
  shows "off < length b" and "unat (b ! off) = length n"
    and "gslice b (off + 1) (off + 1 + length n) = n"
    and "gslice b (off + 1 + length n) (off + 1 + length n + 8) = le_put 8 (unat v)"
    and "drop (off + 1 + length n + 8) b = rest"
proof -
  have d1: "drop off b = of_nat (length n) # n @ le_put 8 (unat v) @ rest"
    using d by (simp add: enc_param_def)
  note c = drop_ConsD [OF d1]
  show "off < length b" by (rule c)
  show "unat (b ! off) = length n" using c(2) paramNameOK_length [OF ok] by (simp add: unat_of_nat)
  note s1 = drop_appendD [OF c(3)]
  show "gslice b (off + 1) (off + 1 + length n) = n" using s1(1) by simp
  note s2 = drop_appendD [OF s1(2)]
  show "gslice b (off + 1 + length n) (off + 1 + length n + 8) = le_put 8 (unat v)"
    using s2(1) by simp
  show "drop (off + 1 + length n + 8) b = rest" using s2(2) by simp
qed

lemma walk_params_complete:
  assumes "drop off b = enc_params ps @ rest" and "off + length (enc_params ps) \<le> limit"
    and "list_all (\<lambda>p. paramNameOK (fst p)) ps" and "ascending prev (map fst ps)"
  shows "walk_params b limit (length ps) prev off = Inr (off + length (enc_params ps))
    \<and> read_params b (length ps) off = ps"
  using assms
proof (induction ps arbitrary: prev off)
  case Nil
  then show ?case by simp
next
  case (Cons p ps)
  obtain n v where p: "p = (n, v)" by (cases p)
  have ok: "paramNameOK n" and oks: "list_all (\<lambda>p. paramNameOK (fst p)) ps"
    using Cons.prems(3) p by auto
  have "drop off b = enc_param (n, v) @ enc_params ps @ rest" using Cons.prems(1) p by simp
  note at = enc_param_at [OF this ok]
  let ?o = "off + 1 + length n + 8"
  have asc: "case prev of None \<Rightarrow> True | Some q \<Rightarrow> q < n" "ascending (Some n) (map fst ps)"
    using Cons.prems(4) p by (auto simp: ascending_Cons)
  have lim: "?o + length (enc_params ps) \<le> limit" using Cons.prems(2) p by simp
  have ih: "walk_params b limit (length ps) (Some n) ?o = Inr (?o + length (enc_params ps))
      \<and> read_params b (length ps) ?o = ps"
    by (rule Cons.IH [OF at(5) lim oks asc(2)])
  have notge: "\<not> (case prev of None \<Rightarrow> False | Some q \<Rightarrow> q \<ge> n)"
    using asc(1) by (simp add: not_le split: option.splits)
  have "walk_params b limit (length (p # ps)) prev off
      = walk_params b limit (length ps) (Some n) ?o"
    using ok notge lim paramNameOK_length [OF ok]
    by (simp only: walk_params.simps length_Cons at Let_def) (simp add: paramNameOK_def)
  moreover have "read_params b (length (p # ps)) off = p # ps"
    using ih by (simp only: read_params.simps length_Cons at Let_def le_get_put_u64 p)
  ultimately show ?case using ih p by simp
qed

text \<open>
  The converse: a walk that succeeds has passed over the encoding of what pass 2 reads.
\<close>

lemma walk_params_sound:
  assumes "walk_params b limit n prev off = Inr off'" and "limit \<le> length b" and "off \<le> limit"
  shows "off \<le> off' \<and> off' \<le> limit \<and> length (read_params b n off) = n
    \<and> list_all (\<lambda>p. paramNameOK (fst p)) (read_params b n off)
    \<and> ascending prev (map fst (read_params b n off))
    \<and> gslice b off off' = enc_params (read_params b n off)"
  using assms
proof (induction n arbitrary: prev off)
  case 0
  then show ?case by simp
next
  case (Suc n)
  let ?l = "unat (b ! off)"
  let ?n = "gslice b (off + 1) (off + 1 + ?l)" and ?e = "off + 1 + ?l"
  let ?v = "of_nat (le_get (gslice b ?e (?e + 8))) :: f64"
  have g: "off < limit" "?l \<noteq> 0" "?l \<le> 32" "?e + 8 \<le> limit" "list_all paramByteOK ?n"
    "\<not> (case prev of None \<Rightarrow> False | Some p \<Rightarrow> p \<ge> ?n)"
    and w: "walk_params b limit n (Some ?n) (?e + 8) = Inr off'"
    using Suc.prems(1) by (auto simp: Let_def split: if_splits option.splits)
  note ih = Suc.IH [OF w Suc.prems(2) g(4)]
  have ln: "length ?n = ?l" using g Suc.prems(2) by simp
  have ok: "paramNameOK ?n" using g ln by (auto simp: paramNameOK_def)
  have lv: "length (gslice b ?e (?e + 8)) = 8" using g Suc.prems(2) by simp
  have h: "gslice b off (off + 1) = [b ! off]"
    using g Suc.prems(2) by (simp add: gslice_Cons_nth)
  have "gslice b off off' = gslice b off (off + 1) @ gslice b (off + 1) ?e
      @ gslice b ?e (?e + 8) @ gslice b (?e + 8) off'"
    using conjunct1 [OF ih] by (simp add: gslice_append_gslice)
  moreover have "enc_param (?n, ?v) = gslice b off (off + 1) @ gslice b (off + 1) ?e
      @ gslice b ?e (?e + 8)"
    using ln h le_put_of_nat_u64 [OF lv] by (simp add: enc_param_def)
  ultimately have "gslice b off off' = enc_params ((?n, ?v) # read_params b n (?e + 8))"
    using ih by simp
  moreover have "ascending prev (map fst ((?n, ?v) # read_params b n (?e + 8)))"
    using ih g(6) by (auto simp: ascending_Cons split: option.splits)
  moreover have "read_params b (Suc n) off = (?n, ?v) # read_params b n (?e + 8)"
    by (simp add: Let_def)
  ultimately show ?case using ih ok by auto
qed

section \<open>Round trip\<close>

lemma sorted_params_facts:
  assumes "distinct (map fst ps)"
  shows "length (sorted_params ps) = length ps" and "ascending None (map fst (sorted_params ps))"
    and "set (sorted_params ps) = set ps" and "map_of (sorted_params ps) = map_of ps"
    and "mset (map fst (sorted_params ps)) = mset (map fst ps)"
proof -
  have m: "map fst (sorted_params ps) = sort (map fst ps)"
    by (simp add: sorted_params_def comp_def)
  show "length (sorted_params ps) = length ps" by (simp add: sorted_params_def)
  show "mset (map fst (sorted_params ps)) = mset (map fst ps)" by (simp add: m)
  show "ascending None (map fst (sorted_params ps))"
    using assms unfolding m ascending_def by (simp add: strict_sorted_iff)
  show st: "set (sorted_params ps) = set ps"
    using assms by (force simp: sorted_params_def image_iff map_of_eq_Some_iff)
  have "distinct (map fst (sorted_params ps))" using assms by (simp add: m)
  then show "map_of (sorted_params ps) = map_of ps" using assms st by (metis map_of_inject_set)
qed

lemma length_enc_params_sorted:
  assumes "distinct (map fst ps)"
  shows "length (enc_params (sorted_params ps)) = sum_list (map (\<lambda>p. 1 + length (fst p) + 8) ps)"
proof -
  have f: "map (\<lambda>p. 1 + length (fst p) + 8) qs = map (\<lambda>n. 9 + length n) (map fst qs)"
    for qs :: "(bytes \<times> f64) list" by simp
  have "mset (map (\<lambda>n. 9 + length n) (map fst (sorted_params ps)))
      = mset (map (\<lambda>n. 9 + length n) (map fst ps))"
    using sorted_params_facts(5) [OF assms] by (simp only: mset_map)
  then show ?thesis unfolding length_enc_params f by (metis sum_mset_sum_list)
qed

lemma length_enc_prefix [simp]: "length (enc_prefix ver k r c cr pc bl) = 32"
  by (simp add: enc_prefix_def HeaderMagic_def)

lemma gslice_at: "b = xs @ ys @ zs \<Longrightarrow> length xs = i \<Longrightarrow> gslice b i (i + length ys) = ys"
  by (simp add: gslice_def)

lemma enc_prefix_fields:
  assumes b: "b = enc_prefix ver k r c cr pc bl @ rest" and pc: "pc < 2 ^ 32" and bl: "bl < 2 ^ 32"
  shows "gslice b 0 4 = HeaderMagic" and "u16_at b 4 = ver" and "b ! 6 = k"
    and "u64_at b 8 = c" and "u64_at b 16 = cr"
    and "unat (u32_at b 24) = pc" and "unat (u32_at b 28) = bl"
proof -
  let ?V = "le_put 2 (unat ver)" and ?C = "le_put 8 (unat c)" and ?D = "le_put 8 (unat cr)"
    and ?P = "le_put 4 pc" and ?B = "le_put 4 bl"
  note e = b [unfolded enc_prefix_def]
  have m [simp]: "length HeaderMagic = 4" by (simp add: HeaderMagic_def)
  show "gslice b 0 4 = HeaderMagic" using gslice_at [of b "[]" HeaderMagic] e by simp
  have "gslice b 4 (4 + length ?V) = ?V"
    by (rule gslice_at [of b "HeaderMagic"]) (simp_all only: e append.assoc append_Cons append_Nil m)
  then show "u16_at b 4 = ver" using le_get_put_u16 [of ver] by (simp add: u16_at_def)
  show "b ! 6 = k" by (simp only: e) (simp add: nth_append)
  have "gslice b 8 (8 + length ?C) = ?C"
    by (rule gslice_at [of b "HeaderMagic @ ?V @ [k, r]"]) (simp_all add: e)
  then show "u64_at b 8 = c" using le_get_put_u64 [of c] by (simp add: u64_at_def)
  have "gslice b 16 (16 + length ?D) = ?D"
    by (rule gslice_at [of b "HeaderMagic @ ?V @ [k, r] @ ?C"]) (simp_all add: e)
  then show "u64_at b 16 = cr" using le_get_put_u64 [of cr] by (simp add: u64_at_def)
  have "gslice b 24 (24 + length ?P) = ?P"
    by (rule gslice_at [of b "HeaderMagic @ ?V @ [k, r] @ ?C @ ?D"]) (simp_all add: e)
  then show "unat (u32_at b 24) = pc" using pc by (simp add: u32_at_def unat_of_nat)
  have "gslice b 28 (28 + length ?B) = ?B"
    by (rule gslice_at [of b "HeaderMagic @ ?V @ [k, r] @ ?C @ ?D @ ?P"]) (simp_all add: e)
  then show "unat (u32_at b 28) = bl" using bl by (simp add: u32_at_def unat_of_nat)
qed

text \<open>The image of \<open>EncodeHeader\<close>, with any reserved byte.\<close>

definition frame_of :: "byte \<Rightarrow> Header \<Rightarrow> bytes \<Rightarrow> bytes" where
  "frame_of r h body = seal (enc_prefix (h_Ver h) (h_Kind h) r (h_Count h) (h_Created h)
     (length (h_Params h)) (length body) @ enc_params (h_Params h) @ body)"

text \<open>What a frame is accepted for, apart from its checksum.\<close>

definition header_ok :: "Header \<Rightarrow> bytes \<Rightarrow> bool" where
  "header_ok h body \<longleftrightarrow> h_Magic h = HeaderMagic \<and> h_Ver h = FormatVersion \<and> Kind_Valid (h_Kind h)
     \<and> length (h_Params h) \<le> maxParams
     \<and> list_all (\<lambda>p. paramNameOK (fst p)) (h_Params h) \<and> ascending None (map fst (h_Params h))
     \<and> minFrameLen + length (enc_params (h_Params h)) + length body \<le> MaxFrameBytes"

lemma length_seal [simp]: "length (seal f) = length f + 4"
  by (simp add: seal_def)

lemma seal_checks:
  "gslice (seal f) 0 (length f) = f" "u32_at (seal f) (length f) = crc32c f"
proof -
  show "gslice (seal f) 0 (length f) = f" by (simp add: seal_def gslice_def)
  have "gslice (seal f) (length f) (length f + 4) = le_put 4 (unat (crc32c f))"
    by (simp add: seal_def gslice_def)
  then show "u32_at (seal f) (length f) = crc32c f"
    using le_get_put_u32 [of "crc32c f"] by (simp only: u32_at_def)
qed

lemma length_frame_of [simp]:
  "length (frame_of r h body) = 36 + length (enc_params (h_Params h)) + length body"
  by (simp add: frame_of_def)

lemma DecodeHeader_frame_of:
  assumes ok: "header_ok h body" and crc: "h_CRC32C h = crc32c (take (length (frame_of r h body) - 4) (frame_of r h body))"
  shows "DecodeHeader (frame_of r h body) = Inr (h, body)"
proof -
  let ?b = "frame_of r h body" and ?ps = "h_Params h"
  let ?E = "enc_params ?ps"
  define f where "f = enc_prefix (h_Ver h) (h_Kind h) r (h_Count h) (h_Created h)
     (length ?ps) (length body) @ ?E @ body"
  have b: "?b = seal f" by (simp add: frame_of_def f_def)
  have sz: "length ?ps \<le> 64" "36 + length ?E + length body \<le> MaxFrameBytes"
    using ok by (simp_all add: header_ok_def)
  have pb: "?b = enc_prefix (h_Ver h) (h_Kind h) r (h_Count h) (h_Created h)
     (length ?ps) (length body) @ ?E @ body @ le_put 4 (unat (crc32c f))"
    by (simp add: b seal_def f_def)
  have lf: "length f = 32 + length ?E + length body" by (simp add: f_def)
  note fl = enc_prefix_fields [OF pb]
  have flds: "gslice ?b 0 4 = HeaderMagic" "u16_at ?b 4 = h_Ver h" "?b ! 6 = h_Kind h"
    "u64_at ?b 8 = h_Count h" "u64_at ?b 16 = h_Created h" "unat (u32_at ?b 24) = length ?ps"
    "unat (u32_at ?b 28) = length body"
    using fl sz by simp_all
  have d: "drop 32 ?b = ?E @ body @ le_put 4 (unat (crc32c f))" by (simp add: pb)
  have w: "walk_params ?b (length ?b - 4) (length ?ps) None 32 = Inr (32 + length ?E)
      \<and> read_params ?b (length ?ps) 32 = ?ps"
    by (rule walk_params_complete [OF d]) (use ok in \<open>simp_all add: header_ok_def\<close>)
  have bd: "gslice ?b (32 + length ?E) (32 + length ?E + length body) = body"
    by (rule gslice_at [where xs = "enc_prefix (h_Ver h) (h_Kind h) r (h_Count h) (h_Created h)
     (length ?ps) (length body) @ ?E"]) (simp_all add: pb)
  have ck: "crc32c (gslice ?b 0 (length ?b - 4)) = u32_at ?b (length ?b - 4)"
    "u32_at ?b (length ?b - 4) = h_CRC32C h"
    using seal_checks [of f] crc unfolding b by (simp_all add: gslice_0)
  have v: "h_Ver h = 1" "FormatVersion = 1" using ok by (simp_all add: header_ok_def FormatVersion_def)
  show ?thesis
    using ok sz w ck unfolding DecodeHeader_def flds Let_def bd
    by (simp add: header_ok_def bd v flds)
qed

lemma u16_at_bytes: "i + 2 \<le> length b \<Longrightarrow> le_put 2 (unat (u16_at b i)) = gslice b i (i + 2)"
  by (simp add: u16_at_def le_put_of_nat_u16)

lemma u32_at_bytes: "i + 4 \<le> length b \<Longrightarrow> le_put 4 (unat (u32_at b i)) = gslice b i (i + 4)"
  by (simp add: u32_at_def le_put_of_nat_u32)

lemma u64_at_bytes: "i + 8 \<le> length b \<Longrightarrow> le_put 8 (unat (u64_at b i)) = gslice b i (i + 8)"
  by (simp add: u64_at_def le_put_of_nat_u64)

lemma prefix_bytes:
  assumes "36 \<le> length b" and "gslice b 0 4 = HeaderMagic"
  shows "enc_prefix (u16_at b 4) (b ! 6) (b ! 7) (u64_at b 8) (u64_at b 16)
    (unat (u32_at b 24)) (unat (u32_at b 28)) = gslice b 0 32"
proof -
  have k: "[b ! 6, b ! 7] = gslice b 6 8"
    using assms(1) by (simp add: gslice_Cons_nth)
  show ?thesis
    using assms(1) unfolding enc_prefix_def k assms(2) [symmetric]
    by (simp add: u16_at_bytes u32_at_bytes u64_at_bytes gslice_append_gslice)
qed

lemma DecodeHeader_OkD:
  assumes "DecodeHeader b = Inr (h, body)"
  shows "header_ok h body" and "b = frame_of (b ! 7) h body"
    and "h_CRC32C h = crc32c (take (length b - 4) b)"
proof -
  obtain off where g: "36 \<le> length b" "length b \<le> MaxFrameBytes" "gslice b 0 4 = HeaderMagic"
    "u16_at b 4 \<noteq> 0" "u16_at b 4 \<le> FormatVersion" "Kind_Valid (b ! 6)" "unat (u32_at b 24) \<le> 64"
    and w: "walk_params b (length b - 4) (unat (u32_at b 24)) None 32 = Inr off"
    and bl: "unat (u32_at b 28) \<le> MaxFrameBytes" "32 + (off - 32) + unat (u32_at b 28) = length b - 4"
    and crc: "crc32c (gslice b 0 (length b - 4)) = u32_at b (length b - 4)"
    and h: "h = \<lparr>h_Magic = HeaderMagic, h_Ver = u16_at b 4, h_Kind = b ! 6,
                       h_Params = read_params b (unat (u32_at b 24)) 32,
                       h_Count = u64_at b 8, h_Created = u64_at b 16,
                       h_CRC32C = u32_at b (length b - 4)\<rparr>"
    and body: "body = gslice b off (off + unat (u32_at b 28))"
    using assms by (auto simp: DecodeHeader_def Let_def not_less split: if_splits sum.splits)
  have p: "32 \<le> off \<and> off \<le> length b - 4 \<and> length (h_Params h) = unat (u32_at b 24)
      \<and> list_all (\<lambda>p. paramNameOK (fst p)) (h_Params h) \<and> ascending None (map fst (h_Params h))
      \<and> gslice b 32 off = enc_params (h_Params h)"
    using walk_params_sound [OF w] g(1) by (simp add: h)
  then have po: "32 \<le> off" "off \<le> length b - 4" by simp_all
  have off: "off + unat (u32_at b 28) = length b - 4" using bl p by simp
  have lb: "length body = unat (u32_at b 28)" using off g(1) by (simp add: body)
  have le: "length (enc_params (h_Params h)) = off - 32"
    using p g(1) length_gslice [of off b 32] by (metis diff_le_self order.trans)
  have "unat (u16_at b 4) = 1" using g(4,5) unfolding FormatVersion_def
    by (metis le_antisym linorder_not_le word_le_nat_alt word_less_1 unsigned_1)
  then have ver: "u16_at b 4 = FormatVersion" by (metis FormatVersion_def unat_1 unsigned_word_eqI)
  show "header_ok h body"
    using g p le lb off ver by (simp add: header_ok_def h)
  show "h_CRC32C h = crc32c (take (length b - 4) b)" using crc by (simp add: h gslice_0)
  have parts: "gslice b 0 32 = enc_prefix (h_Ver h) (h_Kind h) (b ! 7) (h_Count h) (h_Created h)
     (length (h_Params h)) (length body)"
    using prefix_bytes [OF g(1,3)] p by (simp add: h lb)
  have bd: "gslice b off (length b - 4) = body" by (simp add: body off)
  define f where "f = gslice b 0 32 @ gslice b 32 off @ gslice b off (length b - 4)"
  have f: "f = gslice b 0 (length b - 4)" using po by (simp add: f_def gslice_append_gslice)
  have "gslice b (length b - 4) (length b - 4 + 4) = le_put 4 (unat (crc32c f))"
    using u32_at_bytes [of "length b - 4" b] crc g(1) by (simp add: f)
  then have "b = f @ le_put 4 (unat (crc32c f))"
    using g(1) gslice_append_gslice [of 0 "length b - 4" "length b" b] by (simp add: f)
  moreover have "seal f = frame_of (b ! 7) h body"
    using p by (simp add: frame_of_def f_def bd parts)
  ultimately show "b = frame_of (b ! 7) h body" by (simp add: seal_def)
qed

section \<open>What the frame guarantees\<close>

lemma ascending_distinct: "ascending None ns \<Longrightarrow> distinct ns"
  by (simp add: ascending_def strict_sorted_iff)

lemma ascending_sorted_params:
  assumes "ascending None (map fst ps)"
  shows "sorted_params ps = ps"
proof -
  have s: "sort (map fst ps) = map fst ps"
    using assms by (simp add: ascending_def strict_sorted_iff sorted_sort_id)
  have "\<forall>p \<in> set ps. (fst p, the (map_of ps (fst p))) = p"
    using ascending_distinct [OF assms] by (auto simp: map_of_eq_Some_iff)
  then show ?thesis unfolding sorted_params_def s by (simp add: map_idI comp_def)
qed

lemma EncodeHeader_eq:
  assumes "distinct (map fst (h_Params h))"
  shows "EncodeHeader h body =
    (if length (h_Params h) > maxParams then Inl ErrMalformed
     else if length body > MaxFrameBytes then Inl ErrTooLarge
     else if \<not> list_all (\<lambda>p. paramNameOK (fst p)) (h_Params h) then Inl ErrMalformed
     else if minFrameLen + length (enc_params (sorted_params (h_Params h))) + length body > MaxFrameBytes
     then Inl ErrTooLarge
     else Inr (frame_of 0 (h\<lparr>h_Params := sorted_params (h_Params h)\<rparr>) body))"
  using length_enc_params_sorted [OF assms] unfolding EncodeHeader_def Let_def frame_of_def
  by (simp add: add.assoc add.commute add.left_commute)

lemma header_ok_sorted:
  assumes "distinct (map fst (h_Params h))" and "h_Ver h = FormatVersion" and "Kind_Valid (h_Kind h)"
    and "length (h_Params h) \<le> maxParams" and "list_all (\<lambda>p. paramNameOK (fst p)) (h_Params h)"
    and "minFrameLen + sum_list (map (\<lambda>p. 9 + length (fst p)) (h_Params h)) + length body \<le> MaxFrameBytes"
  shows "header_ok (h\<lparr>h_Magic := HeaderMagic, h_Params := sorted_params (h_Params h), h_CRC32C := c\<rparr>) body"
proof -
  note sp = sorted_params_facts [OF assms(1)]
  have "list_all (\<lambda>p. paramNameOK (fst p)) (sorted_params (h_Params h))"
    using assms(5) sp(3) by (simp add: list_all_iff)
  then show ?thesis
    using assms sp length_enc_params_sorted [OF assms(1)] by (simp add: header_ok_def)
qed

lemma EncodeHeader_round_trip:
  assumes "distinct (map fst (h_Params h))" and "h_Ver h = FormatVersion" and "Kind_Valid (h_Kind h)"
    and "length (h_Params h) \<le> maxParams" and "list_all (\<lambda>p. paramNameOK (fst p)) (h_Params h)"
    and "minFrameLen + sum_list (map (\<lambda>p. 9 + length (fst p)) (h_Params h)) + length body \<le> MaxFrameBytes"
  shows "\<exists>frame c. EncodeHeader h body = Inr frame \<and> DecodeHeader frame
     = Inr (h\<lparr>h_Magic := HeaderMagic, h_Params := sorted_params (h_Params h), h_CRC32C := c\<rparr>, body)"
proof -
  let ?h = "\<lambda>c. h\<lparr>h_Magic := HeaderMagic, h_Params := sorted_params (h_Params h), h_CRC32C := c\<rparr>"
  let ?f = "frame_of 0 (h\<lparr>h_Params := sorted_params (h_Params h)\<rparr>) body"
  let ?c = "crc32c (take (length ?f - 4) ?f)"
  have f: "frame_of 0 (?h c) body = ?f" for c by (simp add: frame_of_def)
  have "DecodeHeader (frame_of 0 (?h ?c) body) = Inr (?h ?c, body)"
    by (rule DecodeHeader_frame_of [OF header_ok_sorted [OF assms]]) (simp add: f)
  moreover have "EncodeHeader h body = Inr ?f"
    using assms length_enc_params_sorted [OF assms(1)] by (simp add: EncodeHeader_eq)
  ultimately show ?thesis unfolding f by blast
qed

text \<open>C20. Every header the sketches can build (distinct legal names, the current version, a
  defined kind, a frame within the ceiling) is encoded, and decoding the frame gives back the
  version, kind, count, creation time, every parameter and the body.\<close>

theorem frame_round_trip:
  assumes "distinct (map fst (h_Params h))" and "h_Ver h = FormatVersion" and "Kind_Valid (h_Kind h)"
    and "length (h_Params h) \<le> maxParams" and "list_all (\<lambda>p. paramNameOK (fst p)) (h_Params h)"
    and "minFrameLen + sum_list (map (\<lambda>p. 9 + length (fst p)) (h_Params h)) + length body \<le> MaxFrameBytes"
  shows "\<exists>frame h'. EncodeHeader h body = Inr frame \<and> DecodeHeader frame = Inr (h', body)
    \<and> h_Ver h' = h_Ver h \<and> h_Kind h' = h_Kind h \<and> h_Count h' = h_Count h
    \<and> h_Created h' = h_Created h \<and> (\<forall>name. Param h' name = Param h name)"
proof -
  obtain frame c where f: "EncodeHeader h body = Inr frame" "DecodeHeader frame
     = Inr (h\<lparr>h_Magic := HeaderMagic, h_Params := sorted_params (h_Params h), h_CRC32C := c\<rparr>, body)"
    using EncodeHeader_round_trip [OF assms] by blast
  show ?thesis
    by (rule exI [of _ frame], rule exI, rule conjI [OF f(1)], rule conjI [OF f(2)])
      (simp add: Param_def sorted_params_facts(4) [OF assms(1)])
qed

definition sample_header :: Header where
  "sample_header = \<lparr>h_Magic = [], h_Ver = FormatVersion, h_Kind = KindBloom,
     h_Params = [([0x6D], 7), ([0x6B], 3)], h_Count = 9, h_Created = 5, h_CRC32C = 0\<rparr>"

lemmas sample_header_eval = sample_header_def FormatVersion_def Kind_Valid_def KindBloom_def
  KindMinHash_def paramNameOK_def paramByteOK_def HeaderMagic_def

theorem frame_round_trip_witness:
  "\<exists>frame h'. EncodeHeader sample_header [1, 2] = Inr frame \<and> DecodeHeader frame = Inr (h', [1, 2])
    \<and> Param h' [0x6D] = Some 7 \<and> h_Count h' = 9"
proof -
  obtain frame h' where "EncodeHeader sample_header [1, 2] = Inr frame"
    "DecodeHeader frame = Inr (h', [1, 2])" "h_Count h' = h_Count sample_header"
    "\<forall>name. Param h' name = Param sample_header name"
    using frame_round_trip [of sample_header "[1, 2]"] by (auto simp: sample_header_eval)
  moreover have "Param sample_header [0x6D] = Some 7" "h_Count sample_header = 9"
    by (simp_all add: sample_header_def Param_def)
  ultimately show ?thesis by auto
qed

text \<open>Decoding is injective on the bytes: a frame that decodes, with the reserved byte
  zero, is exactly the frame that encoding its header and body produces.\<close>

theorem frame_canonical:
  assumes "DecodeHeader b = Inr (h, body)" and "b ! 7 = 0"
  shows "EncodeHeader h body = Inr b"
proof -
  note d = DecodeHeader_OkD [OF assms(1)]
  have asc: "ascending None (map fst (h_Params h))" using d(1) by (simp add: header_ok_def)
  have "EncodeHeader h body = Inr (frame_of 0 h body)"
    using d(1) by (simp add: EncodeHeader_eq ascending_distinct [OF asc] ascending_sorted_params [OF asc]
        header_ok_def)
  then show ?thesis using d(2) assms(2) by simp
qed

text \<open>A concrete frame that decodes: one parameter \<^verbatim>\<open>k\<close> and a two-byte body.\<close>

definition sample_frame :: bytes where
  "sample_frame = frame_of 0 (sample_header\<lparr>h_Params := [([0x6B], 3)]\<rparr>) [1, 2]"

lemma sample_frame_decodes: "\<exists>h. DecodeHeader sample_frame = Inr (h, [1, 2])"
proof -
  let ?c = "crc32c (take (length sample_frame - 4) sample_frame)"
  let ?h = "sample_header\<lparr>h_Params := [([0x6B], 3)], h_Magic := HeaderMagic, h_CRC32C := ?c\<rparr>"
  have f: "frame_of 0 ?h [1, 2] = sample_frame" by (simp add: sample_frame_def frame_of_def)
  have "header_ok ?h [1, 2]"
    by (simp add: header_ok_def sample_header_eval ascending_def enc_param_def)
  then have "DecodeHeader (frame_of 0 ?h [1, 2]) = Inr (?h, [1, 2])"
    by (rule DecodeHeader_frame_of) (simp add: f)
  then show ?thesis unfolding f by blast
qed

lemma sample_frame_reserved: "sample_frame ! 7 = 0"
  by (simp add: sample_frame_def frame_of_def seal_def enc_prefix_def nth_append HeaderMagic_def)

theorem frame_canonical_witness:
  "\<exists>h. DecodeHeader sample_frame = Inr (h, [1, 2]) \<and> EncodeHeader h [1, 2] = Inr sample_frame"
  using sample_frame_decodes frame_canonical [of sample_frame _ "[1, 2]"] sample_frame_reserved by blast

lemma DecodeHeader_codeword:
  assumes "DecodeHeader b = Inr r"
  shows "b = take (length b - 4) b @ drop (length b - 4) b" and "length (drop (length b - 4) b) = 4"
    and "crc32c (take (length b - 4) b) = of_nat (le_get (drop (length b - 4) b))"
proof -
  have l: "36 \<le> length b" using assms by (simp add: DecodeHeader_def split: if_splits)
  have "crc32c (gslice b 0 (length b - 4)) = u32_at b (length b - 4)"
    using assms by (auto simp: DecodeHeader_def Let_def split: if_splits sum.splits)
  then show "crc32c (take (length b - 4) b) = of_nat (le_get (drop (length b - 4) b))"
    using l by (simp add: gslice_def u32_at_def)
  show "b = take (length b - 4) b @ drop (length b - 4) b" "length (drop (length b - 4) b) = 4"
    using l by simp_all
qed

lemma DecodeHeader_burst:
  assumes ok: "DecodeHeader (xs @ u @ ys) = Inr r"
    and len: "length v = length u" "length u \<le> 4" and diff: "v \<noteq> u"
  shows "\<exists>e. DecodeHeader (xs @ v @ ys) = Inl e"
proof (cases "DecodeHeader (xs @ v @ ys)")
  case (Inl e)
  then show ?thesis by blast
next
  case (Inr r')
  have "v = u"
    by (rule crc_codeword_burst [OF len(1) _ DecodeHeader_codeword(1) [OF Inr, symmetric]
          DecodeHeader_codeword(2,3) [OF Inr] DecodeHeader_codeword(1) [OF ok, symmetric]
          DecodeHeader_codeword(2,3) [OF ok]])
      (use len in simp)
  then show ?thesis using diff by simp
qed

text \<open>Damage confined to four consecutive bytes of a valid frame, the checksum trailer
  included, is never accepted: the damaged frame is refused.\<close>

theorem frame_burst_rejected:
  assumes ok: "DecodeHeader (xs @ u @ ys) = Inr r"
    and len: "length v = length u" "length u \<le> 4" and diff: "v \<noteq> u"
  shows "\<exists>e. DecodeHeader (xs @ v @ ys) = Inl e"
  using assms by (rule DecodeHeader_burst)

theorem frame_burst_rejected_witness: "\<exists>e. DecodeHeader (sample_frame[6 := 2, 7 := 1]) = Inl e"
proof -
  have l: "length sample_frame = 48"
    by (simp add: sample_frame_def)
  have e: "take 6 sample_frame @ [sample_frame ! 6, sample_frame ! 7] @ drop 8 sample_frame = sample_frame"
  proof -
    have "drop 6 sample_frame = sample_frame ! 6 # sample_frame ! 7 # drop 8 sample_frame"
      using l Cons_nth_drop_Suc [of 6 sample_frame] Cons_nth_drop_Suc [of 7 sample_frame] by simp
    then show ?thesis using append_take_drop_id [of 6 sample_frame] by simp
  qed
  have u: "sample_frame[6 := 2, 7 := 1] = take 6 sample_frame @ [2, 1] @ drop 8 sample_frame"
    using l by (simp add: upd_conv_take_nth_drop take_Suc_conv_app_nth nth_append numeral_eq_Suc)
  obtain h where h: "DecodeHeader sample_frame = Inr (h, [1, 2])" using sample_frame_decodes by blast
  have "[2, 1] \<noteq> [sample_frame ! 6, sample_frame ! 7]"
    using sample_frame_reserved by simp
  with frame_burst_rejected [of "take 6 sample_frame" "[sample_frame ! 6, sample_frame ! 7]"
      "drop 8 sample_frame" "(h, [1, 2])" "[2, 1]"] h
  show ?thesis unfolding e u by simp
qed

text \<open>Walking the same parameters under another limit.\<close>

lemma walk_params_relimit:
  assumes "walk_params b limit n prev off = Inr off'" and "limit \<le> length b"
    and "take (min limit limit') b2 = take (min limit limit') b"
    and "off \<le> limit" and "off \<le> limit'"
  shows "walk_params b2 limit' n prev off = (if off' \<le> limit' then Inr off' else Inl ErrTruncated)"
  using assms
proof (induction n arbitrary: prev off)
  case 0
  then show ?case by simp
next
  case (Suc n)
  let ?m = "min limit limit'"
  let ?e = "off + 1 + unat (b ! off) + 8" and ?n = "gslice b (off + 1) (off + 1 + unat (b ! off))"
  have g: "off < limit" "unat (b ! off) \<noteq> 0" "unat (b ! off) \<le> 32" "?e \<le> limit"
    "list_all paramByteOK ?n" "\<not> (case prev of None \<Rightarrow> False | Some p \<Rightarrow> p \<ge> ?n)"
    and w: "walk_params b limit n (Some ?n) ?e = Inr off'"
    using Suc.prems(1) by (auto simp: Let_def split: if_splits option.splits)
  have mono: "?e \<le> off'" using walk_params_sound [OF w Suc.prems(2) g(4)] by simp
  have o: "off < limit' \<Longrightarrow> b2 ! off = b ! off"
    using Suc.prems(3) g(1) by (metis min_less_iff_conj nth_take)
  consider "off = limit'" | "off < limit'" "limit' < ?e" | "?e \<le> limit'" using Suc.prems(5) by linarith
  then show ?case
  proof cases
    case 1
    then show ?thesis using mono by simp
  next
    case 2
    then show ?thesis using o g mono by simp
  next
    case 3
    then have o3: "b2 ! off = b ! off" by (intro o) simp
    have j: "off + 1 + unat (b ! off) \<le> ?m" using 3 g(4) by simp
    have n: "gslice b2 (off + 1) (off + 1 + unat (b ! off)) = ?n"
      using gslice_take [OF j, of b2] gslice_take [OF j, of b] Suc.prems(3) by simp
    have "walk_params b2 limit' (Suc n) prev off = walk_params b2 limit' n (Some ?n) ?e"
      using g 3 unfolding walk_params.simps(2) Let_def o3 n by simp
    then show ?thesis using Suc.IH [OF w Suc.prems(2,3) g(4) 3] by simp
  qed
qed

lemma DecodeHeader_relength:
  assumes ok: "DecodeHeader b = Inr r" and len: "length b2 \<noteq> length b"
    and eq: "take (min (length b) (length b2)) b2 = take (min (length b) (length b2)) b"
  shows "DecodeHeader b2 = Inl (if length b2 > MaxFrameBytes then ErrTooLarge else ErrTruncated)"
proof (cases "length b2 < 36")
  case True
  then show ?thesis by (simp add: DecodeHeader_def)
next
  case False
  obtain off where g: "36 \<le> length b" "gslice b 0 4 = HeaderMagic"
    "u16_at b 4 \<noteq> 0" "u16_at b 4 \<le> FormatVersion" "Kind_Valid (b ! 6)" "unat (u32_at b 24) \<le> 64"
    and w: "walk_params b (length b - 4) (unat (u32_at b 24)) None 32 = Inr off"
    and bl: "unat (u32_at b 28) \<le> MaxFrameBytes" "32 + (off - 32) + unat (u32_at b 28) = length b - 4"
    using ok by (auto simp: DecodeHeader_def Let_def not_less split: if_splits sum.splits)
  let ?m = "min (length b) (length b2)"
  have m: "36 \<le> ?m" using g(1) False by simp
  have gs: "gslice b2 i j = gslice b i j" if "j \<le> 36" for i j
    using gslice_take [of j ?m b2] gslice_take [of j ?m b] eq that m by simp
  have n6: "b2 ! 6 = b ! 6" using eq m nth_take [of 6 ?m b2] nth_take [of 6 ?m b] by simp
  have fl: "u16_at b2 4 = u16_at b 4" "u32_at b2 24 = u32_at b 24" "u32_at b2 28 = u32_at b 28"
    by (simp_all add: u16_at_def u32_at_def gs)
  have tk: "take (min (length b - 4) (length b2 - 4)) b2 = take (min (length b - 4) (length b2 - 4)) b"
  proof -
    have "min (?m - 4) ?m = ?m - 4" by linarith
    then show ?thesis
      using arg_cong [OF eq, of "take (?m - 4)"] by (simp only: take_take min_diff)
  qed
  have w2: "walk_params b2 (length b2 - 4) (unat (u32_at b 24)) None 32
      = (if off \<le> length b2 - 4 then Inr off else Inl ErrTruncated)"
    by (rule walk_params_relimit [OF w _ tk]) (use g(1) False in simp_all)
  have off: "32 \<le> off" using walk_params_sound [OF w] g(1) by simp
  have "off + unat (u32_at b 28) \<noteq> length b2 - 4" using bl off len m by simp
  then show ?thesis
    using False g bl off unfolding DecodeHeader_def fl n6 gs [of 4 0, simplified] Let_def w2
    by (simp add: not_less leD)
qed

text \<open>The length of a frame is exact: every proper prefix of a valid frame (a torn write) is
  \<^verbatim>\<open>ErrTruncated\<close>, and a valid frame followed by further bytes is refused too.\<close>

theorem frame_length_exact:
  assumes "DecodeHeader b = Inr r"
  shows "(n < length b \<longrightarrow> DecodeHeader (take n b) = Inl ErrTruncated)
    \<and> (ys \<noteq> [] \<longrightarrow> DecodeHeader (b @ ys)
        = Inl (if length (b @ ys) > MaxFrameBytes then ErrTooLarge else ErrTruncated))"
proof -
  have "length b \<le> MaxFrameBytes" using assms by (simp add: DecodeHeader_def split: if_splits)
  then show ?thesis
    using DecodeHeader_relength [OF assms, of "take n b"] DecodeHeader_relength [OF assms, of "b @ ys"]
    by auto
qed

theorem frame_length_exact_witness:
  "DecodeHeader (take 47 sample_frame) = Inl ErrTruncated
    \<and> DecodeHeader (sample_frame @ [0]) = Inl ErrTruncated"
proof -
  have l: "length sample_frame = 48" by (simp add: sample_frame_def sample_header_def enc_param_def)
  obtain h where "DecodeHeader sample_frame = Inr (h, [1, 2])" using sample_frame_decodes by blast
  from frame_length_exact [OF this, of 47 "[0]"] l show ?thesis by simp
qed

text \<open>Reading an integer parameter that was written exactly.\<close>

lemma MustParamInt_of_nat:
  assumes "map_of (h_Params h) name = Some (f64_of_nat n)" and "n < 2 ^ 53"
  shows "MustParamInt h name lo hi = (if lo \<le> int n \<and> int n \<le> hi then Inr (int n) else Inl ErrMalformed)"
  using assms by (simp add: MustParamInt_def not_less [symmetric] del: not_less)

lemma MustParamInt_range: "MustParamInt h name lo hi = Inr i \<Longrightarrow> lo \<le> i \<and> i \<le> hi"
  by (auto simp: MustParamInt_def split: option.splits if_splits)

end
