(* ===== verification/SketchCodec.thy ===== *)
theory SketchCodec
  imports SketchHeader
begin

text \<open>
  What the persistable sketches share: \<open>unmarshal_frame\<close> is the body of every
  \<^verbatim>\<open>UnmarshalBinary\<close> (decode the frame, refuse another kind, dispatch on the version), and
  the locale \<open>sketch_codec\<close> is the contract of the \<^verbatim>\<open>Sketch\<close> interface between a
  \<^verbatim>\<open>Header()\<close>, a marshalled body and a \<^verbatim>\<open>decodeV1\<close>.  Every sketch theory interprets it, and
  its round-trip and integrity facts come from here.  The locale \<open>membership\<close> is the contract
  of a set that only grows, \<open>stream_merge\<close> that of a summary whose merge is exactly one pass over
  both streams.
\<close>

definition unmarshal_frame ::
    "byte \<Rightarrow> (Header \<Rightarrow> bytes \<Rightarrow> (sketch_error, 's) result) \<Rightarrow> bytes \<Rightarrow> (sketch_error, 's) result" where
  "unmarshal_frame kind decodeV1 data =
     (case DecodeHeader data of
        Inl e \<Rightarrow> Inl e
      | Inr (h, body) \<Rightarrow>
          if h_Kind h \<noteq> kind then Inl ErrKindMismatch
          else if h_Ver h = 1 then decodeV1 h body
          else Inl ErrUnsupportedVersion)"

lemma unmarshal_frame_OkD:
  assumes "unmarshal_frame k dec data = Inr s"
  obtains h body where "DecodeHeader data = Inr (h, body)" and "dec h body = Inr s"
  using assms by (auto simp: unmarshal_frame_def split: sum.splits prod.splits if_splits)

lemma unat_u64_less: "unat (w :: u64) < 256 ^ 8"
  using unsigned_less [of w, where ?'a = nat] by simp

lemma u64_array_round_trip:
  "map of_nat (read_array 8 (length ws) (write_array 8 (map unat ws))) = (ws :: u64 list)"
proof -
  have "read_array 8 (length (map unat ws)) (write_array 8 (map unat ws)) = map unat ws"
    using unat_u64_less by (intro read_write_array) simp
  then show ?thesis by (simp add: comp_def)
qed

lemma u32_array_round_trip:
  "map of_nat (read_array 4 (length ws) (write_array 4 (map unat ws))) = (ws :: u32 list)"
proof -
  have "unat w < 256 ^ 4" for w :: u32
    using unsigned_less [of w, where ?'a = nat] by simp
  then have "read_array 4 (length (map unat ws)) (write_array 4 (map unat ws)) = map unat ws"
    by (intro read_write_array) simp
  then show ?thesis by (simp add: comp_def)
qed

text \<open>Two headers that a \<^verbatim>\<open>decodeV1\<close> cannot tell apart.\<close>

definition same_header :: "Header \<Rightarrow> Header \<Rightarrow> bool" where
  "same_header h h' \<longleftrightarrow> h_Count h' = h_Count h \<and> h_Created h' = h_Created h
     \<and> map_of (h_Params h') = map_of (h_Params h)"

locale sketch_codec =
  fixes header :: "'s \<Rightarrow> Header"
    and body :: "'s \<Rightarrow> bytes"
    and decodeV1 :: "Header \<Rightarrow> bytes \<Rightarrow> (sketch_error, 's) result"
    and kind :: byte
    and wf :: "'s \<Rightarrow> bool"
  assumes kind_valid: "Kind_Valid kind"
    and header_ver: "wf s \<Longrightarrow> h_Ver (header s) = FormatVersion"
    and header_kind: "wf s \<Longrightarrow> h_Kind (header s) = kind"
    and header_names: "wf s \<Longrightarrow> distinct (map fst (h_Params (header s)))"
    and header_names_ok: "wf s \<Longrightarrow> list_all (\<lambda>p. paramNameOK (fst p)) (h_Params (header s))"
    and header_few: "wf s \<Longrightarrow> length (h_Params (header s)) \<le> 8"
    and body_fits: "wf s \<Longrightarrow> length (body s) \<le> MaxFrameBytes - 512"
    and decode_encoded: "wf s \<Longrightarrow> same_header (header s) h \<Longrightarrow> decodeV1 h (body s) = Inr s"
begin

lemma params_small:
  assumes "wf s"
  shows "sum_list (map (\<lambda>p. 9 + length (fst p)) (h_Params (header s))) \<le> 328"
proof -
  have "sum_list (map (\<lambda>p. 9 + length (fst p)) ps) \<le> 41 * length ps"
    if "list_all (\<lambda>p. paramNameOK (fst p)) ps" for ps :: "(bytes \<times> f64) list"
    using that by (induction ps) (auto dest: paramNameOK_length)
  from this [OF header_names_ok [OF assms]] header_few [OF assms] show ?thesis by linarith
qed

lemma frame_exists:
  assumes "wf s"
  shows "\<exists>frame h. EncodeHeader (header s) (body s) = Inr frame
    \<and> DecodeHeader frame = Inr (h, body s) \<and> same_header (header s) h
    \<and> h_Kind h = kind \<and> h_Ver h = 1"
proof -
  have sz: "minFrameLen + sum_list (map (\<lambda>p. 9 + length (fst p)) (h_Params (header s)))
      + length (body s) \<le> MaxFrameBytes"
    using params_small [OF assms] body_fits [OF assms] by simp
  have "length (h_Params (header s)) \<le> maxParams" using header_few [OF assms] by simp
  from EncodeHeader_round_trip [OF header_names [OF assms] header_ver [OF assms] _ this
      header_names_ok [OF assms] sz]
  obtain frame c where f: "EncodeHeader (header s) (body s) = Inr frame" "DecodeHeader frame
     = Inr ((header s)\<lparr>h_Magic := HeaderMagic, h_Params := sorted_params (h_Params (header s)),
         h_CRC32C := c\<rparr>, body s)"
    using kind_valid header_kind [OF assms] by auto
  then show ?thesis
    using header_ver [OF assms] header_kind [OF assms] sorted_params_facts(4) [OF header_names [OF assms]]
    by (auto simp: same_header_def FormatVersion_def)
qed

lemma marshal_round_trip:
  assumes "wf s"
  shows "\<exists>frame. EncodeHeader (header s) (body s) = Inr frame
    \<and> unmarshal_frame kind decodeV1 frame = Inr s"
  using frame_exists [OF assms] decode_encoded [OF assms]
  by (auto simp: unmarshal_frame_def)

lemma unmarshal_other_kind:
  assumes "wf s" and "k \<noteq> kind" and "EncodeHeader (header s) (body s) = Inr frame"
  shows "unmarshal_frame k dec frame = Inl ErrKindMismatch"
  using frame_exists [OF assms(1)] assms(2,3) by (auto simp: unmarshal_frame_def)

lemma marshal_injective:
  assumes "wf s" and "wf t" and "EncodeHeader (header s) (body s) = EncodeHeader (header t) (body t)"
  shows "s = t"
  using marshal_round_trip [OF assms(1)] marshal_round_trip [OF assms(2)] assms(3) by auto

lemma damaged_frame_refused:
  assumes "wf s" and "EncodeHeader (header s) (body s) = Inr (xs @ u @ ys)"
    and "length v = length u" and "length u \<le> 4" and "v \<noteq> u"
  shows "\<exists>e. unmarshal_frame kind decodeV1 (xs @ v @ ys) = Inl e"
proof -
  obtain h where "DecodeHeader (xs @ u @ ys) = Inr (h, body s)"
    using frame_exists [OF assms(1)] assms(2) by auto
  from DecodeHeader_burst [OF this assms(3,4,5)] show ?thesis
    by (auto simp: unmarshal_frame_def)
qed

end

locale membership =
  fixes add :: "'s \<Rightarrow> 'k \<Rightarrow> 's"
    and test :: "'s \<Rightarrow> 'k \<Rightarrow> bool"
    and wf :: "'s \<Rightarrow> bool"
  assumes add_wf: "wf s \<Longrightarrow> wf (add s k)"
    and test_added: "wf s \<Longrightarrow> test (add s k) k"
    and test_kept: "wf s \<Longrightarrow> test s j \<Longrightarrow> test (add s k) j"
begin

lemma fold_wf: "wf s \<Longrightarrow> wf (foldl add s ks)"
  by (induction ks arbitrary: s) (auto intro: add_wf)

lemma fold_kept: "wf s \<Longrightarrow> test s j \<Longrightarrow> test (foldl add s ks) j"
  by (induction ks arbitrary: s) (auto intro: add_wf test_kept)

lemma fold_found: "wf s \<Longrightarrow> k \<in> set ks \<Longrightarrow> test (foldl add s ks) k"
  by (induction ks arbitrary: s) (auto intro: add_wf test_added fold_kept)

end

locale stream_merge =
  fixes init :: "'s"
    and add :: "'s \<Rightarrow> 'x \<Rightarrow> 's"
    and merge :: "'s \<Rightarrow> 's \<Rightarrow> (sketch_error, 's) result"
    and ok :: "'x list \<Rightarrow> bool"
  assumes merge_runs: "ok (xs @ ys) \<Longrightarrow> merge (foldl add init xs) (foldl add init ys) = Inr (foldl add init (xs @ ys))"
    and ok_prefix: "ok (xs @ ys) \<Longrightarrow> ok xs"
begin

lemma merge_empty: "ok xs \<Longrightarrow> merge (foldl add init xs) init = Inr (foldl add init xs)"
  using merge_runs [of xs "[]"] by simp

text \<open>Merging shards one after the other is one pass over their concatenation.\<close>

lemma merge_shards:
  assumes "ok (xs @ concat yss)"
  shows "foldl (\<lambda>r ys. case r of Inl e \<Rightarrow> Inl e | Inr s \<Rightarrow> merge s (foldl add init ys)) (Inr (foldl add init xs)) yss
     = Inr (foldl add init (xs @ concat yss))"
  using assms
proof (induction yss arbitrary: xs)
  case Nil
  then show ?case by simp
next
  case (Cons ys yss)
  have o: "ok ((xs @ ys) @ concat yss)" using Cons.prems by simp
  have "merge (foldl add init xs) (foldl add init ys) = Inr (foldl add init (xs @ ys))"
    by (rule merge_runs [OF ok_prefix [OF o]])
  then show ?case using Cons.IH [OF o] by simp
qed

end

locale stream_merge_comm = stream_merge +
  assumes swap: "ok (xs @ ys) \<Longrightarrow> ok (ys @ xs) \<and> foldl add init (xs @ ys) = foldl add init (ys @ xs)"
begin

lemma merge_commute:
  assumes "ok (xs @ ys)"
  shows "merge (foldl add init xs) (foldl add init ys) = merge (foldl add init ys) (foldl add init xs)"
  using merge_runs [OF assms] merge_runs [of ys xs] swap [OF assms] by simp

end

end
