(* ===== verification/SketchHash.thy ===== *)
theory SketchHash
  imports CoreHash
begin

unbundle bit_operations_syntax

text \<open>
  \<^verbatim>\<open>internal/sketch/hash.go\<close>: the three hash domains, the two 64-bit words that double hashing
  takes from one digest, and the two mixers of the MinHash signatures.
\<close>

definition domainBloom :: bytes where "domainBloom = lit ''qompack.sketch.bloom.v1''"
definition domainCMS :: bytes where "domainCMS = lit ''qompack.sketch.cms.v1''"
definition domainHLL :: bytes where "domainHLL = lit ''qompack.sketch.hll.v1''"

definition hash128 :: "bytes \<Rightarrow> bytes \<Rightarrow> u64 \<times> u64" where
  "hash128 domain key =
     (let s = HashBytes domain key
      in (of_nat (le_get (gslice s 0 8)), of_nat (le_get (gslice s 8 16)) OR 1))"

definition splitmix64 :: "u64 \<Rightarrow> u64" where
  "splitmix64 x0 =
     (let x = x0 + 0x9E3779B97F4A7C15;
          x = (x XOR drop_bit 30 x) * 0xBF58476D1CE4E5B9;
          x = (x XOR drop_bit 27 x) * 0x94D049BB133111EB
      in x XOR drop_bit 31 x)"

definition fnv1a64 :: "bytes \<Rightarrow> u64" where
  "fnv1a64 b = foldl (\<lambda>h c. (h XOR ucast c) * 1099511628211) 14695981039346656037 b"

text \<open>The stride of double hashing is odd, so it is never zero.\<close>

lemma hash128_odd: "odd (snd (hash128 domain key))"
  by (simp add: hash128_def Let_def even_or_iff)

section \<open>The mixer is a bijection\<close>

text \<open>
  An exclusive-or with a right shift of itself can be undone bit by bit from the top, and the
  two multipliers are odd, so \<open>splitmix64\<close> never merges two seeds: distinct permutation
  indices get distinct coefficients.
\<close>

lemma xorshift_inj:
  fixes x y :: u64
  assumes s: "0 < s" and eq: "x XOR drop_bit s x = y XOR drop_bit s y"
  shows "x = y"
proof -
  have b: "bit x i \<noteq> bit x (i + s) \<longleftrightarrow> bit y i \<noteq> bit y (i + s)" for i
    using arg_cong [OF eq, of "\<lambda>w. bit w i"] by (auto simp: bit_simps add.commute)
  have "bit x i = bit y i" for i
  proof (induction "64 - i" arbitrary: i rule: less_induct)
    case less
    show ?case
    proof (cases "i < 64")
      case True
      then have "bit x (i + s) = bit y (i + s)" using less s by simp
      then show ?thesis using b [of i] by blast
    next
      case False
      then show ?thesis using bit_imp_le_length [of x i] bit_imp_le_length [of y i] by auto
    qed
  qed
  then show ?thesis by (intro bit_word_eqI)
qed

lemma mult_inverse_cancel:
  fixes a b :: u64
  assumes "m * n = 1" and "a * m = b * m"
  shows "a = b"
proof -
  have "a * m * n = b * m * n" using assms(2) by simp
  then show ?thesis using assms(1) by (simp add: mult.assoc)
qed

lemma splitmix64_inj: "splitmix64 x = splitmix64 y \<longleftrightarrow> x = y"
proof
  assume e: "splitmix64 x = splitmix64 y"
  let ?a = "\<lambda>x. x + 0x9E3779B97F4A7C15 :: u64"
  let ?b = "\<lambda>x. (?a x XOR drop_bit 30 (?a x)) * (0xBF58476D1CE4E5B9 :: u64)"
  let ?c = "\<lambda>x. (?b x XOR drop_bit 27 (?b x)) * (0x94D049BB133111EB :: u64)"
  have "?c x XOR drop_bit 31 (?c x) = ?c y XOR drop_bit 31 (?c y)"
    using e by (simp add: splitmix64_def Let_def)
  then have "?c x = ?c y" by (rule xorshift_inj [rotated]) simp
  then have "?b x XOR drop_bit 27 (?b x) = ?b y XOR drop_bit 27 (?b y)"
    by (rule mult_inverse_cancel [where n = "3573116690164977347", rotated]) simp
  then have "?b x = ?b y" by (rule xorshift_inj [rotated]) simp
  then have "?a x XOR drop_bit 30 (?a x) = ?a y XOR drop_bit 30 (?a y)"
    by (rule mult_inverse_cancel [where n = "10871156337175269513", rotated]) simp
  then have "?a x = ?a y" by (rule xorshift_inj [rotated]) simp
  then show "x = y" by simp
qed simp

end
