(* ===== verification/Bloom.thy ===== *)
theory Bloom
  imports SketchCodec SketchHash
begin

unbundle bit_operations_syntax

text \<open>
  The Bloom filter of \<^verbatim>\<open>internal/sketch/bloom.go\<close>: construction, \<open>Add\<close>, \<open>Test\<close>, the rebuild
  from a key sequence, and the QPKS codec.  The abstraction of a filter is the set of its set
  bits; \<open>Add\<close> joins the probe positions of a key to it and \<open>Test\<close> asks whether they are in it.
  The locale \<open>membership\<close> is the promise its clients use: a key that was added is found for
  ever.
\<close>

section \<open>State\<close>

record Bloom =
  mBits :: u64
  bk :: byte
  words :: "u64 list"
  bcount :: u64
  capacity :: int
  fpRate :: f64
  bcreated :: u64

abbreviation MaxBloomCapacity :: int where "MaxBloomCapacity \<equiv> 16777216"
abbreviation MaxBloomBits :: u64 where "MaxBloomBits \<equiv> 268435456"
abbreviation maxBloomHashes :: int where "maxBloomHashes \<equiv> 64"

text \<open>The bit patterns of \<open>1e-6\<close> and \<open>0.5\<close>.\<close>

definition minBloomFPRate :: f64 where "minBloomFPRate = 0x3EB0C6F7A0B5ED8D"
definition maxBloomFPRate :: f64 where "maxBloomFPRate = 0x3FE0000000000000"

section \<open>Construction\<close>

text \<open>
  The logarithms of the sizing formula are not modelled: \<open>mraw n p\<close> is
  \<^verbatim>\<open>uint64(mRaw)\<close>, \<open>kraw n p\<close> the rounded \<^verbatim>\<open>mRaw/n*Ln2\<close> and \<open>kcap n\<close> the rounded
  \<^verbatim>\<open>MaxBloomBits/n*Ln2\<close>.  What the constructor makes of them is.
\<close>

definition bloomSizing ::
    "(int \<Rightarrow> f64 \<Rightarrow> u64) \<Rightarrow> (int \<Rightarrow> f64 \<Rightarrow> int) \<Rightarrow> (int \<Rightarrow> int) \<Rightarrow> int \<Rightarrow> f64 \<Rightarrow> int \<times> u64" where
  "bloomSizing mraw kraw kcap n p =
     (let k = clampInt (kraw n p) 1 maxBloomHashes;
          m = (mraw n p + 64 - 1) AND NOT 63;
          (k, m) = (if m > MaxBloomBits then (clampInt (kcap n) 1 maxBloomHashes, MaxBloomBits) else (k, m));
          m = (if m = 0 then 64 else m)
      in (k, m))"

definition NewBloom ::
    "(int \<Rightarrow> f64 \<Rightarrow> u64) \<Rightarrow> (int \<Rightarrow> f64 \<Rightarrow> int) \<Rightarrow> (int \<Rightarrow> int) \<Rightarrow> int \<Rightarrow> f64 \<Rightarrow> Bloom" where
  "NewBloom mraw kraw kcap cap fp =
     (let n = clampInt cap 1 MaxBloomCapacity;
          p = f64_clamp fp minBloomFPRate maxBloomFPRate;
          (k, m) = bloomSizing mraw kraw kcap n p
      in \<lparr>mBits = m, bk = of_int k, words = replicate (unat (m div 64)) 0, bcount = 0,
          capacity = n, fpRate = p, bcreated = 0\<rparr>)"

section \<open>Operations\<close>

definition probe_idx :: "u64 \<Rightarrow> u64 \<Rightarrow> u64 \<Rightarrow> u64 \<Rightarrow> u64" where
  "probe_idx h1 h2 m i = (h1 + i * h2 + i * i) mod m"

definition add_probe :: "u64 \<Rightarrow> u64 \<Rightarrow> u64 \<Rightarrow> u64 list \<times> bool \<Rightarrow> nat \<Rightarrow> u64 list \<times> bool" where
  "add_probe h1 h2 m st i =
     (let (ws, fresh) = st;
          idx = probe_idx h1 h2 m (of_nat i);
          w = unat (drop_bit 6 idx);
          bt = push_bit (unat (idx AND 63)) 1
      in if ws ! w AND bt = 0 then (ws[w := ws ! w OR bt], True) else (ws, fresh))"

definition Bloom_Add :: "Bloom \<Rightarrow> bytes \<Rightarrow> Bloom" where
  "Bloom_Add b key =
     (if mBits b = 0 then b
      else let (h1, h2) = hash128 domainBloom key;
               (ws, fresh) = foldl (add_probe h1 h2 (mBits b)) (words b, False) [0..<unat (bk b)]
           in b\<lparr>words := ws, bcount := (if fresh then satAdd64 (bcount b) 1 else bcount b)\<rparr>)"

definition Bloom_Test :: "Bloom \<Rightarrow> bytes \<Rightarrow> bool" where
  "Bloom_Test b key =
     (if mBits b = 0 then False
      else let (h1, h2) = hash128 domainBloom key
           in list_all (\<lambda>i. let idx = probe_idx h1 h2 (mBits b) (of_nat i)
                in words b ! unat (drop_bit 6 idx) AND push_bit (unat (idx AND 63)) 1 \<noteq> 0)
                [0..<unat (bk b)])"

definition Bloom_Count :: "Bloom \<Rightarrow> int" where
  "Bloom_Count b = (if uint (bcount b) > 2 ^ 63 - 1 then 2 ^ 63 - 1 else uint (bcount b))"

text \<open>A nil key sequence is the empty one.\<close>

definition RebuildBloom ::
    "(int \<Rightarrow> f64 \<Rightarrow> u64) \<Rightarrow> (int \<Rightarrow> f64 \<Rightarrow> int) \<Rightarrow> (int \<Rightarrow> int) \<Rightarrow> int \<Rightarrow> f64 \<Rightarrow> bytes list \<Rightarrow> Bloom" where
  "RebuildBloom mraw kraw kcap cap fp keys = foldl Bloom_Add (NewBloom mraw kraw kcap cap fp) keys"

definition OnesCount64 :: "u64 \<Rightarrow> nat" where
  "OnesCount64 w = length (filter (bit w) [0..<64])"

definition Bloom_setBits :: "Bloom \<Rightarrow> u64" where
  "Bloom_setBits b = foldl (\<lambda>s w. s + of_nat (OnesCount64 w)) 0 (words b)"

definition Bloom_SetCreated :: "Bloom \<Rightarrow> u64 \<Rightarrow> Bloom" where
  "Bloom_SetCreated b t = b\<lparr>bcreated := t\<rparr>"

section \<open>Codec\<close>

definition Bloom_Header :: "Bloom \<Rightarrow> Header" where
  "Bloom_Header b =
     \<lparr>h_Magic = HeaderMagic, h_Ver = FormatVersion, h_Kind = KindBloom,
      h_Params = [(lit ''capacity'', f64_of_int (capacity b)), (lit ''fprate'', fpRate b),
                  (lit ''k'', f64_of_nat (unat (bk b))), (lit ''m'', f64_of_nat (unat (mBits b)))],
      h_Count = bcount b, h_Created = bcreated b, h_CRC32C = 0\<rparr>"

definition Bloom_body :: "Bloom \<Rightarrow> bytes" where
  "Bloom_body b = write_array 8 (map unat (words b))"

definition Bloom_MarshalBinary :: "Bloom \<Rightarrow> (sketch_error, bytes) result" where
  "Bloom_MarshalBinary b =
     (if mBits b = 0 \<or> bk b = 0 then Inl ErrMalformed else EncodeHeader (Bloom_Header b) (Bloom_body b))"

definition Bloom_decodeV1 :: "Header \<Rightarrow> bytes \<Rightarrow> (sketch_error, Bloom) result" where
  "Bloom_decodeV1 h body =
     (case MustParamInt h (lit ''m'') 64 268435456 of Inl e \<Rightarrow> Inl e | Inr m \<Rightarrow>
      if m mod 64 \<noteq> 0 then Inl ErrMalformed
      else case MustParamInt h (lit ''k'') 1 maxBloomHashes of Inl e \<Rightarrow> Inl e | Inr k \<Rightarrow>
      case MustParamInt h (lit ''capacity'') 1 MaxBloomCapacity of Inl e \<Rightarrow> Inl e | Inr cap \<Rightarrow>
      case Param h (lit ''fprate'') of None \<Rightarrow> Inl ErrMalformed | Some fp \<Rightarrow>
      if \<not> rate_ok fp then Inl ErrMalformed
      else if int (length body) \<noteq> m div 8 then Inl ErrTruncated
      else Inr \<lparr>mBits = of_int m, bk = of_int k,
                words = map of_nat (read_array 8 (nat (m div 64)) body),
                bcount = h_Count h, capacity = cap, fpRate = fp, bcreated = h_Created h\<rparr>)"

definition Bloom_UnmarshalBinary :: "bytes \<Rightarrow> (sketch_error, Bloom) result" where
  "Bloom_UnmarshalBinary data = unmarshal_frame KindBloom Bloom_decodeV1 data"

section \<open>The invariant\<close>

definition Bloom_wf :: "Bloom \<Rightarrow> bool" where
  "Bloom_wf b \<longleftrightarrow> 64 \<le> unat (mBits b) \<and> mBits b \<le> MaxBloomBits \<and> unat (mBits b) = 64 * length (words b)
     \<and> 1 \<le> unat (bk b) \<and> unat (bk b) \<le> 64 \<and> 1 \<le> capacity b \<and> capacity b \<le> MaxBloomCapacity
     \<and> rate_ok (fpRate b)"

lemma f64_of_int_nonneg: "0 \<le> i \<Longrightarrow> f64_of_int i = f64_of_nat (nat i)"
  by (simp add: f64_of_int_def)

lemma and_not_63: "64 dvd unat ((x :: u64) AND NOT 63)"
proof -
  have "bit (x AND NOT 63) i = False" if "i < 6" for i
  proof -
    have m: "(63 :: u64) = mask 6" by (simp add: mask_eq_exp_minus_1)
    show ?thesis using that unfolding m by (simp add: bit_simps)
  qed
  then have "take_bit 6 (x AND NOT 63) = 0" by (intro bit_word_eqI) (auto simp: bit_simps)
  then have "take_bit 6 (unat (x AND NOT 63)) = 0"
    by (metis unsigned_0 unsigned_take_bit_eq)
  then show ?thesis by (simp add: take_bit_eq_mod dvd_eq_mod_eq_0)
qed

lemma fp_clamped_ok: "rate_ok (f64_clamp fp minBloomFPRate maxBloomFPRate)"
  by (rule rate_ok_clamp)
    (simp_all add: f64_sign_def minBloomFPRate_def maxBloomFPRate_def f64_one_def)

lemma bloomSizing_range:
  assumes "bloomSizing mraw kraw kcap n p = (k, m)"
  shows "1 \<le> k \<and> k \<le> 64 \<and> 64 dvd unat m \<and> 64 \<le> unat m \<and> m \<le> MaxBloomBits"
proof -
  let ?m = "(mraw n p + 64 - 1) AND NOT 63"
  have d: "64 dvd unat ?m" by (rule and_not_63)
  have k: "1 \<le> clampInt v 1 64 \<and> clampInt v 1 64 \<le> 64" for v by (rule clampInt_range) simp
  consider "?m > MaxBloomBits" | "?m = 0" | "?m \<noteq> 0" "?m \<le> MaxBloomBits" by fastforce
  then show ?thesis
  proof cases
    case 1
    then have "m = MaxBloomBits" "k = clampInt (kcap n) 1 64"
      using assms by (auto simp: bloomSizing_def Let_def split: if_splits)
    then show ?thesis using k [of "kcap n"] by simp
  next
    case 2
    then have "m = 64" "k = clampInt (kraw n p) 1 64"
      using assms by (auto simp: bloomSizing_def Let_def split: if_splits)
    then show ?thesis using k [of "kraw n p"] by simp
  next
    case 3
    then have "m = ?m" "k = clampInt (kraw n p) 1 64"
      using assms by (auto simp: bloomSizing_def Let_def split: if_splits)
    moreover have "0 < unat ?m" using 3 by (simp add: unat_gt_0)
    then have "64 \<le> unat ?m" using d by (intro dvd_imp_le)
    ultimately show ?thesis using k [of "kraw n p"] d 3 by simp
  qed
qed

lemma NewBloom_wf: "Bloom_wf (NewBloom mraw kraw kcap cap fp)"
proof -
  let ?n = "clampInt cap 1 MaxBloomCapacity" and ?p = "f64_clamp fp minBloomFPRate maxBloomFPRate"
  obtain k m where s: "bloomSizing mraw kraw kcap ?n ?p = (k, m)" by fastforce
  note r = bloomSizing_range [OF s]
  have "unat (of_int k :: byte) = nat k"
    using r unat_of_nat [of "nat k", where ?'a = 8] by (simp add: of_nat_nat nat_less_iff)
  then show ?thesis
    using r fp_clamped_ok [of fp] clampInt_range [of 1 MaxBloomCapacity cap]
    by (auto simp: NewBloom_def Let_def s Bloom_wf_def unat_div dvd_mult_div_cancel)
qed

section \<open>The set of set bits\<close>

definition bits_of :: "u64 list \<Rightarrow> nat set" where
  "bits_of ws = {j. j < 64 * length ws \<and> bit (ws ! (j div 64)) (j mod 64)}"

definition probes :: "u64 \<Rightarrow> nat \<Rightarrow> bytes \<Rightarrow> nat set" where
  "probes m k key = (let (h1, h2) = hash128 domainBloom key
     in (\<lambda>i. unat (probe_idx h1 h2 m (of_nat i))) ` {0..<k})"

lemma unat_word_index: "unat (drop_bit 6 (idx :: u64)) = unat idx div 64"
  by (simp add: drop_bit_eq_div unat_div)

lemma unat_bit_index: "unat ((idx :: u64) AND 63) = unat idx mod 64"
proof -
  have m: "(63 :: u64) = mask 6" by (simp add: mask_eq_exp_minus_1)
  show ?thesis unfolding m by (simp add: unsigned_take_bit_eq take_bit_eq_mod unat_mod flip: take_bit_eq_mask)
qed

lemma and_bit_eq_0: "(w :: u64) AND push_bit i 1 = 0 \<longleftrightarrow> \<not> bit w i"
proof
  assume "w AND push_bit i 1 = 0"
  then have "bit (w AND push_bit i 1) i = False" by simp
  then show "\<not> bit w i" by (auto simp: bit_simps dest: bit_imp_le_length)
next
  assume "\<not> bit w i"
  then show "w AND push_bit i 1 = 0"
    by (intro bit_word_eqI) (auto simp: bit_simps)
qed

lemmas and_pow2_eq_0 = and_bit_eq_0 [unfolded push_bit_of_1]

lemma bits_of_set_bit:
  assumes "j < 64 * length ws"
  shows "bits_of (ws[j div 64 := ws ! (j div 64) OR push_bit (j mod 64) 1]) = insert j (bits_of ws)"
proof (rule set_eqI)
  fix i
  have jl: "j div 64 < length ws" using assms by (simp add: less_mult_imp_div_less mult.commute)
  have ij: "i div 64 = j div 64 \<Longrightarrow> i mod 64 = j mod 64 \<Longrightarrow> i = j" by (metis div_mult_mod_eq)
  show "i \<in> bits_of (ws[j div 64 := ws ! (j div 64) OR push_bit (j mod 64) 1])
      \<longleftrightarrow> i \<in> insert j (bits_of ws)"
  proof (cases "i div 64 = j div 64")
    case True
    then show ?thesis using jl assms ij
      by (auto simp: bits_of_def nth_list_update bit_simps)
  next
    case False
    then show ?thesis using assms by (auto simp: bits_of_def nth_list_update)
  qed
qed

lemma add_probe_bits:
  assumes "unat m = 64 * length ws" and "0 < length ws"
  shows "length (fst (add_probe h1 h2 m (ws, fresh) i)) = length ws
    \<and> bits_of (fst (add_probe h1 h2 m (ws, fresh) i))
        = insert (unat (probe_idx h1 h2 m (of_nat i))) (bits_of ws)
    \<and> (snd (add_probe h1 h2 m (ws, fresh) i)
        \<longleftrightarrow> fresh \<or> unat (probe_idx h1 h2 m (of_nat i)) \<notin> bits_of ws)"
proof -
  let ?j = "unat (probe_idx h1 h2 m (of_nat i))"
  have j: "?j < 64 * length ws" using assms by (simp add: probe_idx_def unat_mod)
  then have bt: "?j \<in> bits_of ws \<longleftrightarrow> \<not> ws ! (?j div 64) AND push_bit (?j mod 64) 1 = 0"
    by (simp add: bits_of_def and_pow2_eq_0)
  show ?thesis
    using bits_of_set_bit [OF j] bt
    by (auto simp: add_probe_def Let_def unat_word_index unat_bit_index insert_absorb)
qed

lemma add_probes_bits:
  assumes "unat m = 64 * length ws" and "0 < length ws"
  shows "length (fst (foldl (add_probe h1 h2 m) (ws, fresh) is)) = length ws
    \<and> bits_of (fst (foldl (add_probe h1 h2 m) (ws, fresh) is))
        = bits_of ws \<union> (\<lambda>i. unat (probe_idx h1 h2 m (of_nat i))) ` set is
    \<and> (snd (foldl (add_probe h1 h2 m) (ws, fresh) is)
        \<longleftrightarrow> fresh \<or> \<not> (\<lambda>i. unat (probe_idx h1 h2 m (of_nat i))) ` set is \<subseteq> bits_of ws)"
  using assms
proof (induction "is" arbitrary: ws fresh)
  case Nil
  then show ?case by simp
next
  case (Cons i "is")
  obtain ws' fresh' where s: "add_probe h1 h2 m (ws, fresh) i = (ws', fresh')" by fastforce
  note a = add_probe_bits [OF Cons.prems, of h1 h2 fresh i, unfolded s fst_conv snd_conv]
  have "unat m = 64 * length ws'" "0 < length ws'" using a Cons.prems by simp_all
  note ih = Cons.IH [OF this, of fresh']
  show ?case unfolding foldl_Cons s using ih a by auto
qed

section \<open>Refinement to sets of bits\<close>

lemma Bloom_wf_words: "Bloom_wf b \<Longrightarrow> unat (mBits b) = 64 * length (words b) \<and> 0 < length (words b)"
  by (auto simp: Bloom_wf_def)

lemma Bloom_wf_nonzero: "Bloom_wf b \<Longrightarrow> mBits b \<noteq> 0"
  by (auto simp: Bloom_wf_def)

lemma Bloom_Add_fields:
  assumes "Bloom_wf b"
  shows "mBits (Bloom_Add b key) = mBits b \<and> bk (Bloom_Add b key) = bk b
    \<and> capacity (Bloom_Add b key) = capacity b \<and> fpRate (Bloom_Add b key) = fpRate b
    \<and> bcreated (Bloom_Add b key) = bcreated b \<and> length (words (Bloom_Add b key)) = length (words b)
    \<and> bits_of (words (Bloom_Add b key)) = bits_of (words b) \<union> probes (mBits b) (unat (bk b)) key
    \<and> bcount (Bloom_Add b key) = (if probes (mBits b) (unat (bk b)) key \<subseteq> bits_of (words b)
         then bcount b else satAdd64 (bcount b) 1)"
proof -
  obtain h1 h2 where h: "hash128 domainBloom key = (h1, h2)" by fastforce
  note w = Bloom_wf_words [OF assms]
  obtain ws fresh where f: "foldl (add_probe h1 h2 (mBits b)) (words b, False) [0..<unat (bk b)] = (ws, fresh)"
    by fastforce
  have p: "(\<lambda>i. unat (probe_idx h1 h2 (mBits b) (of_nat i))) ` set [0..<unat (bk b)]
      = probes (mBits b) (unat (bk b)) key"
    by (simp add: probes_def h)
  from add_probes_bits [OF conjunct1 [OF w] conjunct2 [OF w], of h1 h2 False "[0..<unat (bk b)]"]
  have "length ws = length (words b)" "bits_of ws = bits_of (words b) \<union> probes (mBits b) (unat (bk b)) key"
    "fresh \<longleftrightarrow> \<not> probes (mBits b) (unat (bk b)) key \<subseteq> bits_of (words b)"
    unfolding f p by simp_all
  then show ?thesis using Bloom_wf_nonzero [OF assms] by (simp add: Bloom_Add_def h f)
qed

lemma Bloom_Add_wf: "Bloom_wf b \<Longrightarrow> Bloom_wf (Bloom_Add b key)"
  using Bloom_Add_fields [of b key] by (auto simp: Bloom_wf_def)

lemma Bloom_Test_iff:
  assumes "Bloom_wf b"
  shows "Bloom_Test b key \<longleftrightarrow> probes (mBits b) (unat (bk b)) key \<subseteq> bits_of (words b)"
proof -
  obtain h1 h2 where h: "hash128 domainBloom key = (h1, h2)" by fastforce
  note w = Bloom_wf_words [OF assms]
  have j: "unat (probe_idx h1 h2 (mBits b) i) < 64 * length (words b)" for i
    using w by (simp add: probe_idx_def unat_mod)
  show ?thesis
    using Bloom_wf_nonzero [OF assms] j
    by (auto simp: Bloom_Test_def h Let_def list_all_iff probes_def unat_word_index unat_bit_index
        and_pow2_eq_0 bits_of_def)
qed

section \<open>Membership\<close>

interpretation bloom: membership Bloom_Add Bloom_Test Bloom_wf
proof unfold_locales
  fix b :: Bloom and key key' :: bytes
  assume wf: "Bloom_wf b"
  note f = Bloom_Add_fields [OF wf, of key] and wf' = Bloom_Add_wf [OF wf, of key]
  show "Bloom_wf (Bloom_Add b key)" by (rule wf')
  show "Bloom_Test (Bloom_Add b key) key"
    using f by (simp add: Bloom_Test_iff [OF wf'])
  show "Bloom_Test b key' \<Longrightarrow> Bloom_Test (Bloom_Add b key) key'"
    using f by (auto simp: Bloom_Test_iff [OF wf'] Bloom_Test_iff [OF wf])
qed

lemma bits_of_inject:
  assumes "length ws = length vs" and "bits_of ws = bits_of vs"
  shows "ws = vs"
proof (rule nth_equalityI [OF assms(1)])
  fix i assume i: "i < length ws"
  show "ws ! i = vs ! i"
  proof (rule bit_word_eqI)
    fix j assume "j < LENGTH(64)"
    then have j: "j < 64" by simp
    then have "64 * i + j < 64 * length ws" using i by linarith
    moreover have "64 * i + j \<in> bits_of ws \<longleftrightarrow> 64 * i + j \<in> bits_of vs" using assms(2) by simp
    ultimately show "bit (ws ! i) j = bit (vs ! i) j"
      using assms(1) j by (simp add: bits_of_def)
  qed
qed

lemma Bloom_Add_present:
  assumes "Bloom_wf b" and "Bloom_Test b key"
  shows "Bloom_Add b key = b"
proof -
  note f = Bloom_Add_fields [OF assms(1), of key]
  have p: "probes (mBits b) (unat (bk b)) key \<subseteq> bits_of (words b)"
    using assms by (simp add: Bloom_Test_iff)
  have "words (Bloom_Add b key) = words b"
    using f p by (intro bits_of_inject) auto
  then show ?thesis using f p by (intro Bloom.equality) auto
qed

text \<open>C31. \<^verbatim>\<open>Add\<close> and \<^verbatim>\<open>Test\<close> refine the set of set bits: \<^verbatim>\<open>Add\<close> joins the probe positions of
  the key to it, \<^verbatim>\<open>Test\<close> asks whether they are in it, and adding a key the filter already
  reports changes nothing at all, the count included.\<close>

theorem Bloom_refines_bit_set:
  assumes "Bloom_wf b"
  shows "bits_of (words (Bloom_Add b key)) = bits_of (words b) \<union> probes (mBits b) (unat (bk b)) key
    \<and> (Bloom_Test b key \<longleftrightarrow> probes (mBits b) (unat (bk b)) key \<subseteq> bits_of (words b))
    \<and> (Bloom_Test b key \<longrightarrow> Bloom_Add b key = b)
    \<and> Bloom_Add (Bloom_Add b key) key = Bloom_Add b key"
  using Bloom_Add_fields [OF assms, of key] Bloom_Test_iff [OF assms] Bloom_Add_present [OF assms]
    Bloom_Add_present [OF Bloom_Add_wf [OF assms] bloom.test_added [OF assms]]
  by simp

text \<open>A sizing of three words and two probes, for the witnesses.\<close>

definition small_bloom :: Bloom where
  "small_bloom = NewBloom (\<lambda>n p. 192) (\<lambda>n p. 2) (\<lambda>n. 1) 10 maxBloomFPRate"

theorem Bloom_refines_bit_set_witness:
  "Bloom_Add (Bloom_Add small_bloom [1, 2]) [1, 2] = Bloom_Add small_bloom [1, 2]
    \<and> bits_of (words (Bloom_Add small_bloom [1, 2]))
      = bits_of (words small_bloom) \<union> probes (mBits small_bloom) (unat (bk small_bloom)) [1, 2]"
proof -
  have "Bloom_wf small_bloom" by (simp only: small_bloom_def NewBloom_wf)
  from Bloom_refines_bit_set [OF this, of "[1, 2]"] show ?thesis by blast
qed

text \<open>No false negatives: a filter rebuilt from a sequence of keys, for any capacity, rate and
  result of the sizing formula, reports every one of them.\<close>

theorem RebuildBloom_no_false_negatives:
  assumes "key \<in> set keys"
  shows "Bloom_Test (RebuildBloom mraw kraw kcap cap fp keys) key"
  using assms unfolding RebuildBloom_def by (intro bloom.fold_found NewBloom_wf)

theorem RebuildBloom_no_false_negatives_witness:
  "Bloom_Test (RebuildBloom (\<lambda>n p. 192) (\<lambda>n p. 2) (\<lambda>n. 1) 10 maxBloomFPRate [[1], [2, 3]]) [2, 3]"
  by (rule RebuildBloom_no_false_negatives) simp

text \<open>The construction is total: whatever the capacity, the rate (a NaN or an infinity
  included) and the result of the sizing formula, the filter and every filter reached from it by
  \<^verbatim>\<open>Add\<close> satisfies the invariant: a whole number of words within the ceiling, 1 to 64 probes,
  a rate strictly between 0 and 1.\<close>

theorem NewBloom_invariant: "Bloom_wf (foldl Bloom_Add (NewBloom mraw kraw kcap cap fp) keys)"
  by (intro bloom.fold_wf NewBloom_wf)

lemma Bloom_count_step:
  assumes "Bloom_wf b" and "unat (bcount b) \<le> card K" and "finite K" and "\<forall>k \<in> K. Bloom_Test b k"
  shows "unat (bcount (Bloom_Add b key)) \<le> card (insert key K)"
proof (cases "Bloom_Test b key")
  case True
  then show ?thesis using Bloom_Add_present [OF assms(1) True] assms
    by (simp add: card_insert_le order.trans)
next
  case False
  then have "key \<notin> K" using assms(4) by blast
  moreover have "unat (bcount (Bloom_Add b key)) \<le> Suc (unat (bcount b))"
    using Bloom_Add_fields [OF assms(1), of key] by (auto simp: sat_plus_def)
  ultimately show ?thesis using assms by simp
qed

lemma Bloom_count_fold:
  assumes "Bloom_wf b" and "unat (bcount b) \<le> card K" and "finite K" and "\<forall>k \<in> K. Bloom_Test b k"
  shows "unat (bcount (foldl Bloom_Add b keys)) \<le> card (K \<union> set keys)"
  using assms
proof (induction keys arbitrary: b K)
  case Nil
  then show ?case by simp
next
  case (Cons key keys)
  have "unat (bcount (foldl Bloom_Add (Bloom_Add b key) keys)) \<le> card (insert key K \<union> set keys)"
    using Cons.prems Bloom_count_step [OF Cons.prems, of key]
    by (intro Cons.IH) (auto intro: bloom.add_wf bloom.test_added bloom.test_kept)
  then show ?case by simp
qed

text \<open>The reported count never exceeds the number of distinct keys held.\<close>

theorem Bloom_count_lower_bound:
  "Bloom_Count (RebuildBloom mraw kraw kcap cap fp keys) \<le> int (card (set keys))"
proof -
  let ?b = "RebuildBloom mraw kraw kcap cap fp keys"
  have "unat (bcount ?b) \<le> card ({} \<union> set keys)"
    unfolding RebuildBloom_def
    by (rule Bloom_count_fold [OF NewBloom_wf]) (simp_all add: NewBloom_def Let_def split: prod.split)
  moreover have "uint (bcount ?b) = int (unat (bcount ?b))" by (rule of_nat_unat [symmetric])
  ultimately have "uint (bcount ?b) \<le> int (card (set keys))" by (simp del: of_nat_unat)
  then show ?thesis unfolding Bloom_Count_def by simp
qed

section \<open>Persistence\<close>

interpretation bloom_codec: sketch_codec Bloom_Header Bloom_body Bloom_decodeV1 KindBloom Bloom_wf
proof unfold_locales
  show "Kind_Valid KindBloom" by (simp add: Kind_Valid_def KindBloom_def KindMinHash_def)
next
  fix b assume wf: "Bloom_wf b"
  show "h_Ver (Bloom_Header b) = FormatVersion" "h_Kind (Bloom_Header b) = KindBloom"
    "length (h_Params (Bloom_Header b)) \<le> 8"
    by (simp_all add: Bloom_Header_def)
  show "distinct (map fst (h_Params (Bloom_Header b)))"
    by (simp add: Bloom_Header_def lit_def)
  show "list_all (\<lambda>p. paramNameOK (fst p)) (h_Params (Bloom_Header b))"
    by (simp add: Bloom_Header_def lit_def paramNameOK_def paramByteOK_def)
  have "unat (mBits b) \<le> 268435456" using wf by (simp add: Bloom_wf_def word_le_nat_alt)
  then show "length (Bloom_body b) \<le> MaxFrameBytes - 512"
    using wf by (simp add: Bloom_body_def Bloom_wf_def)
  fix h assume "same_header (Bloom_Header b) h"
  then have sh: "h_Count h = bcount b" "h_Created h = bcreated b"
    "map_of (h_Params h) = map_of (h_Params (Bloom_Header b))"
    by (auto simp: same_header_def Bloom_Header_def)
  have p: "map_of (h_Params h) (lit ''m'') = Some (f64_of_nat (unat (mBits b)))"
    "map_of (h_Params h) (lit ''k'') = Some (f64_of_nat (unat (bk b)))"
    "map_of (h_Params h) (lit ''capacity'') = Some (f64_of_nat (nat (capacity b)))"
    "map_of (h_Params h) (lit ''fprate'') = Some (fpRate b)"
    using wf unfolding sh(3) by (simp_all add: Bloom_Header_def lit_def f64_of_int_nonneg Bloom_wf_def)
  have b: "unat (mBits b) < 2 ^ 53" "unat (bk b) < 2 ^ 53" "nat (capacity b) < 2 ^ 53"
    "int (unat (mBits b)) \<le> 268435456"
    using wf by (simp_all add: Bloom_wf_def word_le_nat_alt nat_less_iff)
  have u: "uint (mBits b) = 64 * int (length (words b))"
    using wf of_nat_unat [of "mBits b", where ?'a = int] by (simp add: Bloom_wf_def del: of_nat_unat)
  have ws: "map of_nat (read_array 8 (length (words b)) (Bloom_body b)) = words b"
    using u64_array_round_trip [of "words b"] by (simp add: Bloom_body_def)
  have lb: "length (Bloom_body b) = 8 * length (words b)" by (simp add: Bloom_body_def)
  have mw: "(of_int (64 * int (length (words b))) :: u64) = mBits b" unfolding u [symmetric] by simp
  have "MustParamInt h (lit ''m'') 64 268435456 = Inr (int (unat (mBits b)))"
    "MustParamInt h (lit ''k'') 1 64 = Inr (int (unat (bk b)))"
    "MustParamInt h (lit ''capacity'') 1 MaxBloomCapacity = Inr (capacity b)"
    using wf b MustParamInt_of_nat [OF p(1) b(1)] MustParamInt_of_nat [OF p(2) b(2)]
      MustParamInt_of_nat [OF p(3) b(3)] by (simp_all add: Bloom_wf_def del: of_nat_unat)
  then show "Bloom_decodeV1 h (Bloom_body b) = Inr b"
    using wf mw ws lb by (simp add: Bloom_decodeV1_def Param_def sh(1,2) p(4) u Bloom_wf_def)
qed

lemma Bloom_MarshalBinary_wf: "Bloom_wf b \<Longrightarrow> Bloom_MarshalBinary b = EncodeHeader (Bloom_Header b) (Bloom_body b)"
  by (auto simp: Bloom_MarshalBinary_def Bloom_wf_def)

text \<open>Every filter that satisfies the invariant survives a save: marshalling succeeds, and
  unmarshalling the frame gives back the same state, bit array, count, rate and creation time.\<close>

theorem Bloom_marshal_round_trip:
  assumes "Bloom_wf b"
  shows "\<exists>frame. Bloom_MarshalBinary b = Inr frame \<and> Bloom_UnmarshalBinary frame = Inr b"
  using bloom_codec.marshal_round_trip [OF assms]
  by (simp add: Bloom_MarshalBinary_wf [OF assms] Bloom_UnmarshalBinary_def)

theorem Bloom_marshal_round_trip_witness:
  "\<exists>frame. Bloom_MarshalBinary (Bloom_Add small_bloom [7]) = Inr frame
    \<and> Bloom_UnmarshalBinary frame = Inr (Bloom_Add small_bloom [7])"
  by (rule Bloom_marshal_round_trip) (simp only: small_bloom_def NewBloom_wf Bloom_Add_wf)

lemma Bloom_decodeV1_wf:
  assumes "Bloom_decodeV1 h body = Inr b"
  shows "Bloom_wf b"
proof -
  obtain m k where m: "MustParamInt h (lit ''m'') 64 268435456 = Inr m" "m mod 64 = 0"
    and k: "MustParamInt h (lit ''k'') 1 64 = Inr k"
    and c: "MustParamInt h (lit ''capacity'') 1 MaxBloomCapacity = Inr (capacity b)"
    and f: "rate_ok (fpRate b)"
    and b: "mBits b = of_int m" "bk b = of_int k" "length (words b) = nat (m div 64)"
    using assms by (auto simp: Bloom_decodeV1_def split: sum.splits option.splits if_splits)
  have r: "64 \<le> m" "m \<le> 268435456" "1 \<le> k" "k \<le> 64" "1 \<le> capacity b" "capacity b \<le> MaxBloomCapacity"
    using MustParamInt_range [OF m(1)] MustParamInt_range [OF k] MustParamInt_range [OF c] by simp_all
  have um: "unat (of_int m :: u64) = nat m"
    using r unat_of_nat [of "nat m", where ?'a = 64] by (simp add: nat_less_iff)
  have uk: "unat (of_int k :: byte) = nat k"
    using r unat_of_nat [of "nat k", where ?'a = 8] by (simp add: nat_less_iff)
  have "m = 64 * (m div 64)" using m(2) mult_div_mod_eq [of 64 m] by simp
  then have n: "nat m = 64 * nat (m div 64)" using r by linarith
  have "64 \<le> nat m" "nat m \<le> 268435456" "1 \<le> nat k" "nat k \<le> 64" using r by linarith+
  then show ?thesis using r f n unfolding Bloom_wf_def word_le_nat_alt b um uk by simp
qed

text \<open>Unmarshalling is strict: whatever bytes it is given, a filter it returns satisfies the
  invariant, so no forged frame can make a later probe leave the bit array.\<close>

theorem Bloom_unmarshal_strict:
  assumes "Bloom_UnmarshalBinary data = Inr b"
  shows "Bloom_wf b"
  using assms unfolding Bloom_UnmarshalBinary_def by (auto elim: unmarshal_frame_OkD intro: Bloom_decodeV1_wf)

theorem Bloom_unmarshal_strict_witness:
  "\<exists>data b. Bloom_UnmarshalBinary data = Inr b \<and> capacity b = 10 \<and> Bloom_wf b"
proof -
  have w: "Bloom_wf small_bloom" and c: "capacity small_bloom = 10"
    by (simp_all only: small_bloom_def NewBloom_wf)
      (simp add: NewBloom_def Let_def split: prod.split)
  obtain frame where "unmarshal_frame KindBloom Bloom_decodeV1 frame = Inr small_bloom"
    using bloom_codec.marshal_round_trip [OF w] by blast
  then have "Bloom_UnmarshalBinary frame = Inr small_bloom" by (simp add: Bloom_UnmarshalBinary_def)
  with Bloom_unmarshal_strict [OF this] c show ?thesis by blast
qed

section \<open>Fill\<close>

lemma OnesCount64_card: "OnesCount64 w = card {i. bit w i}"
proof -
  have "{i. bit w i} = set (filter (bit w) [0..<64])"
    using bit_imp_le_length [of w] by auto
  then show ?thesis unfolding OnesCount64_def by (simp only: distinct_card distinct_filter distinct_upt)
qed

lemma bits_of_Nil [simp]: "bits_of [] = {}"
  by (simp add: bits_of_def)

lemma bits_of_snoc: "bits_of (ws @ [w]) = bits_of ws \<union> (\<lambda>i. 64 * length ws + i) ` {i. bit w i}"
proof (rule set_eqI)
  fix j
  show "j \<in> bits_of (ws @ [w]) \<longleftrightarrow> j \<in> bits_of ws \<union> (\<lambda>i. 64 * length ws + i) ` {i. bit w i}"
  proof (cases "j < 64 * length ws")
    case True
    then have "j div 64 < length ws" by (simp add: less_mult_imp_div_less mult.commute)
    then show ?thesis using True by (auto simp: bits_of_def nth_append)
  next
    case False
    then obtain i where j: "j = 64 * length ws + i" by (metis le_Suc_ex not_less)
    have "i < 64 \<Longrightarrow> (64 * length ws + i) div 64 = length ws \<and> (64 * length ws + i) mod 64 = i" by simp
    then show ?thesis using j bit_imp_le_length [of w i]
      by (auto simp: bits_of_def nth_append)
  qed
qed

lemma card_bits_of: "card (bits_of ws) = sum_list (map OnesCount64 ws) \<and> finite (bits_of ws)"
proof (induction ws rule: rev_induct)
  case Nil
  then show ?case by simp
next
  case (snoc w ws)
  have fin: "finite {i. bit w i}" using bit_imp_le_length [of w] by (auto intro: finite_subset [of _ "{0..<64}"])
  have "bits_of ws \<inter> (\<lambda>i. 64 * length ws + i) ` {i. bit w i} = {}" by (auto simp: bits_of_def)
  moreover have "card ((\<lambda>i. 64 * length ws + i) ` {i. bit w i}) = OnesCount64 w"
    by (simp add: OnesCount64_card card_image inj_on_def)
  ultimately show ?case using snoc fin by (simp add: bits_of_snoc card_Un_disjoint)
qed

text \<open>The popcount pass of the saturation figures counts exactly the set bits, without
  overflow, and never exceeds the length of the array.\<close>

theorem Bloom_setBits_exact:
  assumes "Bloom_wf b"
  shows "unat (Bloom_setBits b) = card (bits_of (words b)) \<and> Bloom_setBits b \<le> mBits b"
proof -
  have f: "foldl (\<lambda>s w. s + of_nat (OnesCount64 w)) s ws = s + (of_nat (sum_list (map OnesCount64 ws)) :: u64)"
    for s ws by (induction ws arbitrary: s) (simp_all add: add.assoc)
  have "bits_of (words b) \<subseteq> {0..<64 * length (words b)}" by (auto simp: bits_of_def)
  then have c: "card (bits_of (words b)) \<le> unat (mBits b)"
    using Bloom_wf_words [OF assms] card_mono [of "{0..<64 * length (words b)}" "bits_of (words b)"] by simp
  have "Bloom_setBits b = of_nat (card (bits_of (words b)))"
    using card_bits_of [of "words b"] by (simp add: Bloom_setBits_def f)
  moreover have "card (bits_of (words b)) < 2 ^ 64"
    using c unsigned_less [of "mBits b", where ?'a = nat] by simp
  ultimately have "unat (Bloom_setBits b) = card (bits_of (words b))" by (simp add: unat_of_nat)
  then show ?thesis using c by (simp add: word_le_nat_alt)
qed

theorem Bloom_setBits_exact_witness: "unat (Bloom_setBits small_bloom) = card (bits_of (words small_bloom))"
proof -
  have "Bloom_wf small_bloom" by (simp only: small_bloom_def NewBloom_wf)
  from Bloom_setBits_exact [OF this] show ?thesis by blast
qed

end
