(* ===== verification/Hll.thy ===== *)
theory Hll
  imports SketchCodec SketchHash
begin

unbundle bit_operations_syntax

text \<open>
  The HyperLogLog of \<^verbatim>\<open>internal/sketch/hll.go\<close>: construction with power-of-two rounding, \<open>Add\<close>,
  \<open>MergeFrom\<close> and the codec.  A register holds the largest rank of the keys that select it, so the
  registers depend on the set of keys only and the merge of two sketches is the sketch of the
  union.  \<^verbatim>\<open>Cardinality\<close>, a floating-point function of the registers, is not modelled.
\<close>

section \<open>State\<close>

record HLL =
  hp :: byte
  regs :: "byte list"
  hcount :: u64
  hcreated :: u64

abbreviation MinHLLRegisters :: int where "MinHLLRegisters \<equiv> 64"
abbreviation MaxHLLRegisters :: int where "MaxHLLRegisters \<equiv> 65536"

text \<open>\<^verbatim>\<open>bits.TrailingZeros\<close> and \<^verbatim>\<open>bits.LeadingZeros64\<close>.\<close>

fun TrailingZeros :: "nat \<Rightarrow> nat" where
  "TrailingZeros n = (if n = 0 then 64 else if odd n then 0 else Suc (TrailingZeros (n div 2)))"

declare TrailingZeros.simps [simp del]

definition LeadingZeros64 :: "u64 \<Rightarrow> nat" where
  "LeadingZeros64 w = 64 - bits_Len (unat w)"

definition NewHLL :: "int \<Rightarrow> HLL" where
  "NewHLL registers =
     (let m = nat (clampInt registers MinHLLRegisters MaxHLLRegisters);
          m = (if m AND (m - 1) \<noteq> 0 then 2 ^ bits_Len (m - 1) else m);
          m = (if m > nat MaxHLLRegisters then nat MaxHLLRegisters else m)
      in \<lparr>hp = of_nat (TrailingZeros m), regs = replicate m 0, hcount = 0, hcreated = 0\<rparr>)"

section \<open>Operations\<close>

definition hll_index :: "nat \<Rightarrow> bytes \<Rightarrow> nat" where
  "hll_index m key = unat (fst (hash128 domainHLL key) AND (of_nat m - 1))"

definition hll_rho :: "byte \<Rightarrow> bytes \<Rightarrow> byte" where
  "hll_rho p key = of_int (int (LeadingZeros64 (drop_bit (unat p) (fst (hash128 domainHLL key)))) - int (unat p) + 1)"

definition HLL_Add :: "HLL \<Rightarrow> bytes \<Rightarrow> HLL" where
  "HLL_Add h key =
     (if regs h = [] then h
      else let idx = hll_index (length (regs h)) key; rho = hll_rho (hp h) key
           in h\<lparr>regs := (if rho > regs h ! idx then (regs h)[idx := rho] else regs h),
                hcount := hcount h + 1\<rparr>)"

definition HLL_MergeFrom :: "HLL \<Rightarrow> HLL option \<Rightarrow> (sketch_error, HLL) result" where
  "HLL_MergeFrom h src =
     (case src of None \<Rightarrow> Inl ErrShapeMismatch
      | Some s \<Rightarrow>
          if hp s \<noteq> hp h \<or> length (regs s) \<noteq> length (regs h) then Inl ErrShapeMismatch
          else Inr (h\<lparr>regs := map2 (\<lambda>r t. if t > r then t else r) (regs h) (regs s),
                     hcount := satAdd64 (hcount h) (hcount s)\<rparr>))"

definition HLL_SetCreated :: "HLL \<Rightarrow> u64 \<Rightarrow> HLL" where
  "HLL_SetCreated h t = h\<lparr>hcreated := t\<rparr>"

section \<open>Codec\<close>

definition HLL_Header :: "HLL \<Rightarrow> Header" where
  "HLL_Header h =
     \<lparr>h_Magic = HeaderMagic, h_Ver = FormatVersion, h_Kind = KindHLL,
      h_Params = [(lit ''registers'', f64_of_nat (length (regs h)))],
      h_Count = hcount h, h_Created = hcreated h, h_CRC32C = 0\<rparr>"

definition HLL_MarshalBinary :: "HLL \<Rightarrow> (sketch_error, bytes) result" where
  "HLL_MarshalBinary h =
     (if regs h = [] then Inl ErrMalformed else EncodeHeader (HLL_Header h) (regs h))"

definition HLL_decodeV1 :: "Header \<Rightarrow> bytes \<Rightarrow> (sketch_error, HLL) result" where
  "HLL_decodeV1 hdr body =
     (case MustParamInt hdr (lit ''registers'') MinHLLRegisters MaxHLLRegisters of Inl e \<Rightarrow> Inl e | Inr m \<Rightarrow>
      if nat m AND (nat m - 1) \<noteq> 0 then Inl ErrMalformed
      else if int (length body) \<noteq> m then Inl ErrTruncated
      else let p = TrailingZeros (nat m) in
        if \<not> list_all (\<lambda>r. r \<le> of_nat (64 - p + 1)) body then Inl ErrMalformed
        else Inr \<lparr>hp = of_nat p, regs = body, hcount = h_Count hdr, hcreated = h_Created hdr\<rparr>)"

definition HLL_UnmarshalBinary :: "bytes \<Rightarrow> (sketch_error, HLL) result" where
  "HLL_UnmarshalBinary data = unmarshal_frame KindHLL HLL_decodeV1 data"

section \<open>Powers of two\<close>

lemma TrailingZeros_pow2 [simp]: "TrailingZeros (2 ^ p) = p"
  by (induction p) (simp_all add: TrailingZeros.simps)

lemma pow2_and: "(2 ^ p :: nat) AND (2 ^ p - 1) = 0"
proof -
  have "(2 ^ p :: nat) AND (2 ^ p - 1) = take_bit p (2 ^ p)"
    by (simp only: take_bit_eq_mask mask_eq_exp_minus_1)
  then show ?thesis by (simp add: take_bit_eq_mod)
qed

lemma and_pred_pow2:
  assumes "0 < m" and "m AND (m - 1) = (0 :: nat)"
  shows "m = 2 ^ (bits_Len m - 1)"
proof (rule ccontr)
  let ?L = "bits_Len m - 1"
  assume ne: "m \<noteq> 2 ^ ?L"
  note b = bits_Len_bounds [OF assms(1)]
  have top: "bit n ?L" if "2 ^ ?L \<le> n" "n < 2 ^ bits_Len m" for n :: nat
  proof -
    have "n div 2 ^ ?L < 2"
    proof -
      have "(2::nat) ^ bits_Len m = 2 * 2 ^ ?L" using b by (cases "bits_Len m") auto
      then show ?thesis using that by (simp add: less_mult_imp_div_less)
    qed
    moreover have "1 \<le> n div 2 ^ ?L" using that(1) by (simp add: div_greater_zero_iff Suc_le_eq)
    ultimately have "n div 2 ^ ?L = 1" by linarith
    then show ?thesis by (simp add: bit_iff_odd)
  qed
  have "bit m ?L" by (rule top) (use b in simp_all)
  moreover have "2 ^ ?L \<le> m - 1" "m - 1 < 2 ^ bits_Len m" using b ne assms(1) by linarith+
  then have "bit (m - 1) ?L" by (rule top)
  ultimately have "bit (m AND (m - 1)) ?L" by (simp add: bit_and_iff)
  then show False using assms(2) by simp
qed

section \<open>The invariant\<close>

definition HLL_wf :: "HLL \<Rightarrow> bool" where
  "HLL_wf h \<longleftrightarrow> 6 \<le> unat (hp h) \<and> unat (hp h) \<le> 16 \<and> length (regs h) = 2 ^ unat (hp h)
     \<and> list_all (\<lambda>r. unat r \<le> 65 - unat (hp h)) (regs h)"

lemma NewHLL_shape:
  "\<exists>p. 6 \<le> p \<and> p \<le> 16 \<and> NewHLL r = \<lparr>hp = of_nat p, regs = replicate (2 ^ p) 0, hcount = 0, hcreated = 0\<rparr>
    \<and> (r \<le> 65536 \<longrightarrow> nat r \<le> 2 ^ p)"
proof -
  define M where "M = nat (clampInt r 64 65536)"
  let ?m' = "if M AND (M - 1) \<noteq> 0 then 2 ^ bits_Len (M - 1) else M"
  have m: "64 \<le> M" "M \<le> 65536" using clampInt_range [of 64 65536 r] unfolding M_def by linarith+
  have rm: "r \<le> 65536 \<longrightarrow> nat r \<le> M" by (auto simp: clampInt_def M_def)
  obtain p where p: "?m' = 2 ^ p" "6 \<le> p" "p \<le> 16" "M \<le> 2 ^ p"
  proof (cases "M AND (M - 1) = 0")
    case True
    have "0 < M" using m by simp
    then have "\<exists>q. M = 2 ^ q" by (intro exI, rule and_pred_pow2 [OF _ True])
    then obtain q where e: "M = 2 ^ q" ..
    have l: "(2::nat) ^ 5 < 2 ^ q" and u: "(2::nat) ^ q < 2 ^ 17" using m unfolding e by simp_all
    have "5 < q" using l by (rule pow2_lessD)
    moreover have "q < 17" using u by (rule pow2_lessD)
    ultimately show ?thesis using True e by (intro that [of q]) simp_all
  next
    case False
    let ?p = "bits_Len (M - 1)"
    have b: "2 ^ (?p - 1) \<le> M - 1" "M - 1 < 2 ^ ?p" using bits_Len_bounds [of "M - 1"] m by auto
    have "(2::nat) ^ 5 < 2 ^ ?p" using b m by simp
    then have "5 < ?p" by (rule pow2_lessD)
    moreover have "(2::nat) ^ (?p - 1) < 2 ^ 16" using b m by simp
    then have "?p - 1 < 16" by (rule pow2_lessD)
    moreover have "M \<le> 2 ^ ?p" using b m by linarith
    ultimately show ?thesis using False by (intro that [of ?p]) (simp, linarith+)
  qed
  have "(2::nat) ^ p \<le> 2 ^ 16" using p(3) by (intro power_increasing) auto
  then have "NewHLL r = \<lparr>hp = of_nat p, regs = replicate (2 ^ p) 0, hcount = 0, hcreated = 0\<rparr>"
    unfolding NewHLL_def Let_def M_def [symmetric] p(1) by simp
  moreover have "r \<le> 65536 \<longrightarrow> nat r \<le> 2 ^ p" using rm p(4) le_trans by blast
  ultimately show ?thesis using p(2,3) by blast
qed

lemma NewHLL_wf: "HLL_wf (NewHLL r)"
proof -
  obtain p where "6 \<le> p" "p \<le> 16" "NewHLL r = \<lparr>hp = of_nat p, regs = replicate (2 ^ p) 0, hcount = 0, hcreated = 0\<rparr>"
    using NewHLL_shape by blast
  moreover from this have "unat (of_nat p :: byte) = p" by (simp add: unat_of_nat)
  ultimately show ?thesis by (simp add: HLL_wf_def list_all_iff)
qed

lemma hll_index_range:
  assumes "p \<le> 16"
  shows "hll_index (2 ^ p) key < 2 ^ p"
proof -
  have "(of_nat (2 ^ p) :: u64) - 1 = mask p" by (simp add: mask_eq_exp_minus_1)
  then have "hll_index (2 ^ p) key = unat (take_bit p (fst (hash128 domainHLL key)))"
    unfolding hll_index_def by (simp add: take_bit_eq_mask)
  then show ?thesis by (simp add: unsigned_take_bit_eq)
qed

text \<open>A rank is between 1 and \<open>65 - p\<close>.\<close>

lemma hll_rho_range:
  assumes "6 \<le> unat p" and "unat p \<le> 16"
  shows "1 \<le> unat (hll_rho p key) \<and> unat (hll_rho p key) \<le> 65 - unat p"
proof -
  let ?w = "drop_bit (unat p) (fst (hash128 domainHLL key)) :: u64"
  have "unat ?w < 2 ^ (64 - unat p)"
  proof -
    have "unat (fst (hash128 domainHLL key)) < 2 ^ (64 - unat p) * 2 ^ unat p"
      using unsigned_less [of "fst (hash128 domainHLL key)", where ?'a = nat] assms
      by (simp flip: power_add)
    then have "unat (fst (hash128 domainHLL key)) div 2 ^ unat p < 2 ^ (64 - unat p)"
      by (rule less_mult_imp_div_less)
    moreover have "unat ?w = unat (fst (hash128 domainHLL key)) div 2 ^ unat p"
      using unsigned_drop_bit_eq [of "unat p" "fst (hash128 domainHLL key)", where ?'a = nat]
      by (simp only: drop_bit_eq_div take_bit_eq_mod mod_less [OF unsigned_less])
    ultimately show ?thesis by simp
  qed
  then have L: "bits_Len (unat ?w) \<le> 64 - unat p"
  proof (cases "unat ?w = 0")
    case False
    then have "(2::nat) ^ (bits_Len (unat ?w) - 1) < 2 ^ (64 - unat p)"
      using bits_Len_bounds [of "unat ?w"] \<open>unat ?w < _\<close> by linarith
    then have "bits_Len (unat ?w) - 1 < 64 - unat p" by (rule power_less_imp_less_exp [rotated]) simp
    then show ?thesis by linarith
  qed simp
  let ?n = "64 - bits_Len (unat ?w) - unat p + 1"
  have "int (LeadingZeros64 ?w) - int (unat p) + 1 = int ?n"
    using L assms unfolding LeadingZeros64_def by linarith
  then have "hll_rho p key = of_nat ?n" unfolding hll_rho_def by (simp only: of_int_of_nat_eq)
  moreover have "?n \<le> 65 - unat p" "1 \<le> ?n" using assms by linarith+
  moreover have "?n < 256" using \<open>?n \<le> 65 - unat p\<close> by linarith
  then have "unat (of_nat ?n :: byte) = ?n" unfolding unat_of_nat by (intro mod_less) simp
  ultimately show ?thesis by presburger
qed

section \<open>Registers\<close>

lemma HLL_wf_regs: "HLL_wf h \<Longrightarrow> regs h \<noteq> [] \<and> hll_index (length (regs h)) key < length (regs h)"
  using hll_index_range [of "unat (hp h)" key] by (auto simp: HLL_wf_def)

lemma HLL_Add_fields:
  assumes "HLL_wf h"
  shows "hp (HLL_Add h key) = hp h \<and> hcreated (HLL_Add h key) = hcreated h
    \<and> hcount (HLL_Add h key) = hcount h + 1 \<and> length (regs (HLL_Add h key)) = length (regs h)
    \<and> (\<forall>i < length (regs h). regs (HLL_Add h key) ! i
        = (if hll_index (length (regs h)) key = i then max (regs h ! i) (hll_rho (hp h) key) else regs h ! i))"
  using HLL_wf_regs [OF assms, of key]
  by (auto simp: HLL_Add_def Let_def nth_list_update max_def)

lemma HLL_wf_nth: "HLL_wf h \<Longrightarrow> i < length (regs h) \<Longrightarrow> unat (regs h ! i) \<le> 65 - unat (hp h)"
  by (simp add: HLL_wf_def list_all_length)

lemma HLL_Add_wf:
  assumes "HLL_wf h"
  shows "HLL_wf (HLL_Add h key)"
proof -
  note f = HLL_Add_fields [OF assms, of key]
  have "unat (hll_rho (hp h) key) \<le> 65 - unat (hp h)"
    using assms hll_rho_range [of "hp h" key] by (simp add: HLL_wf_def)
  then have "unat (regs (HLL_Add h key) ! i) \<le> 65 - unat (hp h)" if "i < length (regs h)" for i
    using f that HLL_wf_nth [OF assms that] by (simp add: max_def)
  then show ?thesis using assms f by (simp add: HLL_wf_def list_all_length)
qed

definition HLL_run :: "HLL \<Rightarrow> bytes list \<Rightarrow> HLL" where
  "HLL_run h keys = foldl HLL_Add h keys"

text \<open>A register is the least upper bound of its initial value and of the ranks of its keys.\<close>

lemma HLL_run_spec:
  assumes "HLL_wf h"
  shows "HLL_wf (HLL_run h keys) \<and> hp (HLL_run h keys) = hp h \<and> hcreated (HLL_run h keys) = hcreated h
    \<and> hcount (HLL_run h keys) = hcount h + of_nat (length keys) \<and> length (regs (HLL_run h keys)) = length (regs h)
    \<and> (\<forall>i < length (regs h). \<forall>v. regs (HLL_run h keys) ! i \<le> v \<longleftrightarrow>
         regs h ! i \<le> v \<and> (\<forall>k \<in> set keys. hll_index (length (regs h)) k = i \<longrightarrow> hll_rho (hp h) k \<le> v))"
  using assms
proof (induction keys arbitrary: h)
  case Nil
  then show ?case by (simp add: HLL_run_def)
next
  case (Cons k keys)
  note f = HLL_Add_fields [OF Cons.prems, of k]
  have r: "HLL_run h (k # keys) = HLL_run (HLL_Add h k) keys" by (simp add: HLL_run_def)
  note ih = Cons.IH [OF HLL_Add_wf [OF Cons.prems, of k]]
  show ?case unfolding r using ih f by auto
qed

lemma word_eq_by_bounds: "(\<And>v. (a :: 'a::len word) \<le> v \<longleftrightarrow> b \<le> v) \<Longrightarrow> a = b"
  by (meson order_antisym order_refl)

lemma regs_eqI:
  assumes "length rs = length ts" and "\<And>i v. i < length rs \<Longrightarrow> rs ! i \<le> v \<longleftrightarrow> ts ! i \<le> (v :: byte)"
  shows "rs = ts"
  using assms(1) by (rule nth_equalityI) (rule word_eq_by_bounds, rule assms(2))

lemma HLL_order_set:
  assumes "set keys = set keys'"
  shows "regs (HLL_run (NewHLL r) keys) = regs (HLL_run (NewHLL r) keys')"
proof -
  note a = HLL_run_spec [OF NewHLL_wf, of r keys] and b = HLL_run_spec [OF NewHLL_wf, of r keys']
  show ?thesis by (rule regs_eqI) (use a b assms in simp_all)
qed

text \<open>The registers depend on the set of keys alone: order and repetition never matter.\<close>

theorem HLL_order_independent:
  assumes "set keys = set keys'"
  shows "regs (foldl HLL_Add (NewHLL r) keys) = regs (foldl HLL_Add (NewHLL r) keys')"
  using HLL_order_set [OF assms] by (simp only: HLL_run_def)

theorem HLL_order_independent_witness:
  "regs (foldl HLL_Add (NewHLL 100) [[1], [2], [1]]) = regs (foldl HLL_Add (NewHLL 100) [[2], [1]])"
  by (rule HLL_order_independent) auto

text \<open>Construction and \<^verbatim>\<open>Add\<close> keep the invariant for every argument: a power of two of
  registers between 64 and 65536, at least as many as were asked for up to the ceiling, and no
  rank above \<open>65 - p\<close>.\<close>

theorem NewHLL_invariant:
  "HLL_wf (foldl HLL_Add (NewHLL r) keys)
    \<and> min (nat r) 65536 \<le> length (regs (foldl HLL_Add (NewHLL r) keys))"
proof -
  have s: "HLL_wf (foldl HLL_Add (NewHLL r) keys)
      \<and> length (regs (foldl HLL_Add (NewHLL r) keys)) = length (regs (NewHLL r))"
    using HLL_run_spec [OF NewHLL_wf, of r keys] by (simp add: HLL_run_def)
  have "min (nat r) 65536 \<le> length (regs (NewHLL r))"
  proof (cases "r \<le> 65536")
    case True
    then show ?thesis using NewHLL_shape [of r] by auto
  next
    case False
    have "65536 AND (65535 :: nat) = 0" using pow2_and [of 16] by simp
    then show ?thesis using False by (simp add: NewHLL_def clampInt_def Let_def)
  qed
  then show ?thesis using s by simp
qed

section \<open>Merging\<close>

lemma HLL_MergeFrom_runs:
  assumes "length (xs @ ys) < 2 ^ 64"
  shows "HLL_MergeFrom (HLL_run (NewHLL r) xs) (Some (HLL_run (NewHLL r) ys)) = Inr (HLL_run (NewHLL r) (xs @ ys))"
proof -
  let ?h = "NewHLL r"
  note a = HLL_run_spec [OF NewHLL_wf, of r xs] and b = HLL_run_spec [OF NewHLL_wf, of r ys]
    and c = HLL_run_spec [OF NewHLL_wf, of r "xs @ ys"]
  have z: "hcount ?h = 0" by (simp add: NewHLL_def Let_def)
  have rg: "map2 (\<lambda>r t. if t > r then t else r) (regs (HLL_run ?h xs)) (regs (HLL_run ?h ys)) = regs (HLL_run ?h (xs @ ys))"
  proof (rule regs_eqI)
    fix i v assume "i < length (map2 (\<lambda>r t. if t > r then t else r) (regs (HLL_run ?h xs)) (regs (HLL_run ?h ys)))"
    then have i: "i < length (regs ?h)" "i < length (regs (HLL_run ?h xs))" "i < length (regs (HLL_run ?h ys))"
      using a b by simp_all
    have "(if t > s then t else s) \<le> v \<longleftrightarrow> s \<le> v \<and> t \<le> v" for s t :: byte by auto
    then show "map2 (\<lambda>r t. if t > r then t else r) (regs (HLL_run ?h xs)) (regs (HLL_run ?h ys)) ! i \<le> v
        \<longleftrightarrow> regs (HLL_run ?h (xs @ ys)) ! i \<le> v"
      using i a b c by auto
  qed (use a b c in simp)
  have "satAdd64 (of_nat (length xs)) (of_nat (length ys)) = (of_nat (length xs + length ys) :: u64)"
    using assms
    by (intro unsigned_word_eqI [where ?'a = nat]) (simp add: sat_plus_def unat_of_nat del: of_nat_add)
  then show ?thesis
    using a b c rg z by (auto simp: HLL_MergeFrom_def intro!: HLL.equality)
qed

lemma HLL_run_swap: "HLL_run (NewHLL r) (xs @ ys) = HLL_run (NewHLL r) (ys @ xs)"
proof -
  note a = HLL_run_spec [OF NewHLL_wf, of r "xs @ ys"] and b = HLL_run_spec [OF NewHLL_wf, of r "ys @ xs"]
  have "regs (HLL_run (NewHLL r) (xs @ ys)) = regs (HLL_run (NewHLL r) (ys @ xs))"
    using HLL_order_set [of "xs @ ys" "ys @ xs" r] by auto
  then show ?thesis using a b by (intro HLL.equality) (simp_all add: add.commute)
qed

interpretation hll: stream_merge_comm "NewHLL r" HLL_Add "\<lambda>h h'. HLL_MergeFrom h (Some h')"
    "\<lambda>ks. length ks < 2 ^ 64" for r
  using HLL_MergeFrom_runs [of _ _ r] HLL_run_swap [of r]
  by unfold_locales (simp_all add: add.commute flip: HLL_run_def del: foldl_append)

text \<open>C32. Merging is exact: folding the sketches of any shards together is the sketch of all their
  keys (for fewer than \<open>2 ^ 64\<close> additions, so that the plain counter of \<^verbatim>\<open>Add\<close> does not wrap
  where \<^verbatim>\<open>MergeFrom\<close> saturates), in either order.\<close>

theorem HLL_merge_exact:
  assumes "length (xs @ concat yss) < 2 ^ 64"
  shows "foldl (\<lambda>s ys. case s of Inl e \<Rightarrow> Inl e | Inr h \<Rightarrow> HLL_MergeFrom h (Some (foldl HLL_Add (NewHLL r) ys)))
      (Inr (foldl HLL_Add (NewHLL r) xs)) yss = Inr (foldl HLL_Add (NewHLL r) (xs @ concat yss))
    \<and> HLL_MergeFrom (foldl HLL_Add (NewHLL r) xs) (Some (foldl HLL_Add (NewHLL r) (concat yss)))
      = HLL_MergeFrom (foldl HLL_Add (NewHLL r) (concat yss)) (Some (foldl HLL_Add (NewHLL r) xs))"
  using hll.merge_shards [OF assms, of r] hll.merge_commute [OF assms, of r] by blast

theorem HLL_merge_exact_witness:
  "HLL_MergeFrom (foldl HLL_Add (NewHLL 100) [[1]]) (Some (foldl HLL_Add (NewHLL 100) [[2], [3]]))
    = Inr (foldl HLL_Add (NewHLL 100) [[1], [2], [3]])"
  using HLL_merge_exact [of "[[1]]" "[[[2], [3]]]" 100] by simp

section \<open>Persistence\<close>

lemma byte_le_of_nat: "n < 256 \<Longrightarrow> (r :: byte) \<le> of_nat n \<longleftrightarrow> unat r \<le> n"
  by (simp add: word_le_nat_alt unat_of_nat)

interpretation hll_codec: sketch_codec HLL_Header regs HLL_decodeV1 KindHLL HLL_wf
proof unfold_locales
  show "Kind_Valid KindHLL" by (simp add: Kind_Valid_def KindBloom_def KindHLL_def KindMinHash_def)
next
  fix s assume wf: "HLL_wf s"
  show "h_Ver (HLL_Header s) = FormatVersion" "h_Kind (HLL_Header s) = KindHLL"
    "length (h_Params (HLL_Header s)) \<le> 8" "distinct (map fst (h_Params (HLL_Header s)))"
    by (simp_all add: HLL_Header_def)
  show "list_all (\<lambda>p. paramNameOK (fst p)) (h_Params (HLL_Header s))"
    by (simp add: HLL_Header_def lit_def paramNameOK_def paramByteOK_def)
  let ?p = "unat (hp s)"
  have p: "6 \<le> ?p" "?p \<le> 16" and l: "length (regs s) = 2 ^ ?p"
    and a: "list_all (\<lambda>r. unat r \<le> 65 - ?p) (regs s)" using wf by (simp_all add: HLL_wf_def)
  have b: "(2::nat) ^ 6 \<le> 2 ^ ?p" "(2::nat) ^ ?p \<le> 2 ^ 16"
    using p power_increasing [of 6 ?p "2::nat"] power_increasing [of ?p 16 "2::nat"] by simp_all
  then show "length (regs s) \<le> MaxFrameBytes - 512" by (simp add: l)
  fix h assume "same_header (HLL_Header s) h"
  then have sh: "h_Count h = hcount s" "h_Created h = hcreated s"
    "map_of (h_Params h) (lit ''registers'') = Some (f64_of_nat (2 ^ ?p))"
    by (auto simp: same_header_def HLL_Header_def l)
  have m: "MustParamInt h (lit ''registers'') 64 65536 = Inr (int (2 ^ ?p))"
  proof -
    have bn: "64 \<le> (2::nat) ^ ?p" "(2::nat) ^ ?p \<le> 65536" using b by simp_all
    then have "64 \<le> int (2 ^ ?p)" "int (2 ^ ?p) \<le> 65536" by linarith+
    then show ?thesis
      using MustParamInt_of_nat [OF sh(3), of 64 65536] bn by (simp del: of_nat_power)
  qed
  have "list_all (\<lambda>r. r \<le> of_nat (64 - ?p + 1)) (regs s)"
  proof -
    have e: "65 - ?p = 64 - ?p + 1" using p by simp
    show ?thesis
      using a p unfolding e by (simp add: byte_le_of_nat list_all_iff del: of_nat_add of_nat_Suc)
  qed
  then show "HLL_decodeV1 h (regs s) = Inr s"
    using pow2_and [of ?p] by (simp add: HLL_decodeV1_def m sh(1,2) l nat_power_eq)
qed

text \<open>Every well-formed sketch survives a save: it marshals, and the frame unmarshals to the
  same registers, count and creation time.\<close>

theorem HLL_marshal_round_trip:
  assumes "HLL_wf h"
  shows "\<exists>frame. HLL_MarshalBinary h = Inr frame \<and> HLL_UnmarshalBinary frame = Inr h"
  using hll_codec.marshal_round_trip [OF assms] HLL_wf_regs [OF assms]
  by (simp add: HLL_MarshalBinary_def HLL_UnmarshalBinary_def)

theorem HLL_marshal_round_trip_witness:
  "\<exists>frame. HLL_MarshalBinary (HLL_Add (NewHLL 100) [1]) = Inr frame
    \<and> HLL_UnmarshalBinary frame = Inr (HLL_Add (NewHLL 100) [1])"
  by (rule HLL_marshal_round_trip) (intro HLL_Add_wf NewHLL_wf)

text \<open>Unmarshalling is strict: whatever the bytes, a sketch it returns has a power of two of
  registers in range and no rank that \<^verbatim>\<open>Add\<close> could not have written.\<close>

theorem HLL_unmarshal_strict:
  assumes "HLL_UnmarshalBinary data = Inr h"
  shows "HLL_wf h"
proof -
  obtain hdr body where "HLL_decodeV1 hdr body = Inr h"
    using assms unfolding HLL_UnmarshalBinary_def by (rule unmarshal_frame_OkD)
  then obtain m where m: "MustParamInt hdr (lit ''registers'') 64 65536 = Inr m"
    and z: "nat m AND (nat m - 1) = 0" and l: "int (length body) = m"
    and r: "list_all (\<lambda>r. r \<le> of_nat (64 - TrailingZeros (nat m) + 1)) body"
    and h: "hp h = of_nat (TrailingZeros (nat m))" "regs h = body"
    by (auto simp: HLL_decodeV1_def Let_def split: sum.splits if_splits)
  have rg: "64 \<le> length body" "length body \<le> 65536" using MustParamInt_range [OF m] l by linarith+
  have nm: "nat m = length body" using l by linarith
  have "0 < length body" using rg by linarith
  from and_pred_pow2 [OF this] z nm have "\<exists>q. length body = 2 ^ q" by metis
  then obtain q where q: "length body = 2 ^ q" ..
  have q5: "(2::nat) ^ 5 < 2 ^ q" and q17: "(2::nat) ^ q < 2 ^ 17" using rg unfolding q by simp_all
  have q': "6 \<le> q" "q \<le> 16" using pow2_lessD [OF q5] pow2_lessD [OF q17] by simp_all
  have tz: "TrailingZeros (nat m) = q" by (simp add: nm q)
  have uq: "unat (of_nat q :: byte) = q" using q' by (simp add: unat_of_nat)
  have "list_all (\<lambda>r. unat r \<le> 65 - q) body"
  proof -
    have e: "65 - q = 64 - q + 1" using q' by simp
    show ?thesis
      using r q' unfolding tz e by (simp add: byte_le_of_nat list_all_iff del: of_nat_add of_nat_Suc)
  qed
  then show ?thesis using q q' uq by (simp add: HLL_wf_def h tz)
qed

theorem HLL_unmarshal_strict_witness:
  "\<exists>data h. HLL_UnmarshalBinary data = Inr h \<and> hcount h = 0 \<and> HLL_wf h"
proof -
  obtain frame where "unmarshal_frame KindHLL HLL_decodeV1 frame = Inr (NewHLL 64)"
    using hll_codec.marshal_round_trip [OF NewHLL_wf] by blast
  then have "HLL_UnmarshalBinary frame = Inr (NewHLL 64)" by (simp only: HLL_UnmarshalBinary_def)
  moreover have "hcount (NewHLL 64) = 0" by (simp add: NewHLL_def Let_def)
  ultimately show ?thesis using HLL_unmarshal_strict by blast
qed

end
