(* ===== verification/CountMin.thy ===== *)
theory CountMin
  imports SketchCodec SketchHash
begin

unbundle bit_operations_syntax

text \<open>
  The Count-Min sketch of \<^verbatim>\<open>internal/sketch/cms.go\<close>.  The abstraction of a table is, for each
  cell, the saturated sum of the weights that were hashed to it; \<open>Estimate\<close> is the minimum over
  a key's cells, so it never under-counts, and merging is exact.
\<close>

section \<open>State and construction\<close>

record CMS =
  width :: nat
  depth :: nat
  cells :: "u32 list"
  total :: u64
  epsilon :: f64
  delta :: f64
  ccreated :: u64

abbreviation MaxCMSCells :: nat where "MaxCMSCells \<equiv> 8388608"
abbreviation MaxCMSDepth :: int where "MaxCMSDepth \<equiv> 64"

text \<open>The bit patterns of \<open>1e-5\<close>, \<open>1e-9\<close>, \<open>0.5\<close> and \<open>2 ^ 62\<close>.\<close>

definition minCMSEpsilon :: f64 where "minCMSEpsilon = 0x3EE4F8B588E368F1"
definition maxCMSEpsilon :: f64 where "maxCMSEpsilon = 0x3FE0000000000000"
definition minCMSDelta :: f64 where "minCMSDelta = 0x3E112E0BE826D695"
definition maxCMSDelta :: f64 where "maxCMSDelta = 0x3FE0000000000000"
definition maxTotalFloat :: f64 where "maxTotalFloat = 0x43D0000000000000"

text \<open>
  The halving loop of the constructor.  Its guard implies \<open>0 < w\<close>, because the depth is at
  least 1; the conjunct makes the recursion well-founded for every argument.
\<close>

function halve_width :: "nat \<Rightarrow> int \<Rightarrow> int" where
  "halve_width d w = (if 0 < w \<and> w * int d > int MaxCMSCells then halve_width d (w div 2) else w)"
  by pat_completeness auto

termination
  by (relation "measure (\<lambda>(d, w). nat w)") auto

declare halve_width.simps [simp del]

text \<open>
  The float formulas are arguments: \<open>wraw e\<close> is \<^verbatim>\<open>int(math.Ceil(math.E/eps))\<close> and \<open>draw d\<close> is
  \<^verbatim>\<open>int(math.Ceil(math.Log(1/dlt)))\<close>.
\<close>

definition NewCMS :: "(f64 \<Rightarrow> int) \<Rightarrow> (f64 \<Rightarrow> int) \<Rightarrow> f64 \<Rightarrow> f64 \<Rightarrow> CMS" where
  "NewCMS wraw draw e d =
     (let eps = f64_clamp e minCMSEpsilon maxCMSEpsilon;
          dlt = f64_clamp d minCMSDelta maxCMSDelta;
          dep = nat (clampInt (draw dlt) 1 MaxCMSDepth);
          w = halve_width dep (wraw eps);
          wid = nat (if w < 1 then 1 else w)
      in \<lparr>width = wid, depth = dep, cells = replicate (wid * dep) 0, total = 0,
          epsilon = eps, delta = dlt, ccreated = 0\<rparr>)"

section \<open>Operations\<close>

definition cellIndex :: "nat \<Rightarrow> nat \<Rightarrow> u64 \<Rightarrow> u64 \<Rightarrow> nat" where
  "cellIndex wid j h1 h2 = j * wid + unat ((h1 + of_nat j * h2) mod of_nat wid)"

definition satAdd32 :: "u32 \<Rightarrow> u32 \<Rightarrow> u32" where
  "satAdd32 a n = (if a > - 1 - n then - 1 else a + n)"

definition CMS_Add :: "CMS \<Rightarrow> bytes \<Rightarrow> u32 \<Rightarrow> CMS" where
  "CMS_Add c key n =
     (if n = 0 \<or> width c < 1 \<or> depth c < 1 then c
      else let (h1, h2) = hash128 domainCMS key
           in c\<lparr>cells := foldl (\<lambda>cs j. let idx = cellIndex (width c) j h1 h2
                                      in cs[idx := satAdd32 (cs ! idx) n]) (cells c) [0..<depth c],
                total := satAdd64 (total c) (ucast n)\<rparr>)"

definition Estimate :: "CMS \<Rightarrow> bytes \<Rightarrow> u32" where
  "Estimate c key =
     (if width c < 1 \<or> depth c < 1 then 0
      else let (h1, h2) = hash128 domainCMS key
           in foldl (\<lambda>best j. let v = cells c ! cellIndex (width c) j h1 h2
                              in if v < best then v else best) (- 1) [0..<depth c])"

text \<open>\<open>None\<close> is a nil source.\<close>

definition CMS_MergeFrom :: "CMS \<Rightarrow> CMS option \<Rightarrow> (sketch_error, CMS) result" where
  "CMS_MergeFrom c src =
     (case src of None \<Rightarrow> Inl ErrShapeMismatch
      | Some o' \<Rightarrow>
          if width c \<noteq> width o' \<or> depth c \<noteq> depth o' then Inl ErrShapeMismatch
          else Inr (c\<lparr>cells := map2 satAdd32 (cells c) (cells o'),
                     total := satAdd64 (total c) (total o')\<rparr>))"

definition Scale :: "CMS \<Rightarrow> f64 \<Rightarrow> CMS" where
  "Scale c factor =
     (let f = f64_clamp factor 0 maxTotalFloat in
      if f = f64_one then c
      else c\<lparr>cells := map (\<lambda>v. of_nat (min (f64_Round (f64_mul (f64_of_nat (unat v)) f)) (2 ^ 32 - 1))) (cells c),
             total := of_nat (min (f64_Round (f64_mul (f64_of_nat (unat (total c))) f)) (2 ^ 62))\<rparr>)"

definition CMS_SetCreated :: "CMS \<Rightarrow> u64 \<Rightarrow> CMS" where
  "CMS_SetCreated c t = c\<lparr>ccreated := t\<rparr>"

section \<open>Codec\<close>

definition CMS_Header :: "CMS \<Rightarrow> Header" where
  "CMS_Header c =
     \<lparr>h_Magic = HeaderMagic, h_Ver = FormatVersion, h_Kind = KindCMS,
      h_Params = [(lit ''delta'', delta c), (lit ''depth'', f64_of_nat (depth c)),
                  (lit ''epsilon'', epsilon c), (lit ''width'', f64_of_nat (width c))],
      h_Count = total c, h_Created = ccreated c, h_CRC32C = 0\<rparr>"

definition CMS_body :: "CMS \<Rightarrow> bytes" where
  "CMS_body c = write_array 4 (map unat (cells c))"

definition CMS_MarshalBinary :: "CMS \<Rightarrow> (sketch_error, bytes) result" where
  "CMS_MarshalBinary c =
     (if width c < 1 \<or> depth c < 1 then Inl ErrMalformed else EncodeHeader (CMS_Header c) (CMS_body c))"

definition cmsRateParam :: "Header \<Rightarrow> bytes \<Rightarrow> (sketch_error, f64) result" where
  "cmsRateParam h name =
     (case Param h name of None \<Rightarrow> Inl ErrMalformed
      | Some v \<Rightarrow> if \<not> rate_ok v then Inl ErrMalformed else Inr v)"

definition CMS_decodeV1 :: "Header \<Rightarrow> bytes \<Rightarrow> (sketch_error, CMS) result" where
  "CMS_decodeV1 h body =
     (case MustParamInt h (lit ''depth'') 1 MaxCMSDepth of Inl e \<Rightarrow> Inl e | Inr dep \<Rightarrow>
      case MustParamInt h (lit ''width'') 1 (int MaxCMSCells) of Inl e \<Rightarrow> Inl e | Inr wid \<Rightarrow>
      if wid * dep > int MaxCMSCells then Inl ErrMalformed
      else case cmsRateParam h (lit ''epsilon'') of Inl e \<Rightarrow> Inl e | Inr eps \<Rightarrow>
      case cmsRateParam h (lit ''delta'') of Inl e \<Rightarrow> Inl e | Inr dlt \<Rightarrow>
      if int (length body) \<noteq> wid * dep * 4 then Inl ErrTruncated
      else Inr \<lparr>width = nat wid, depth = nat dep,
                cells = map of_nat (read_array 4 (nat (wid * dep)) body),
                total = h_Count h, epsilon = eps, delta = dlt, ccreated = h_Created h\<rparr>)"

definition CMS_UnmarshalBinary :: "bytes \<Rightarrow> (sketch_error, CMS) result" where
  "CMS_UnmarshalBinary data = unmarshal_frame KindCMS CMS_decodeV1 data"

section \<open>The invariant\<close>

definition CMS_wf :: "CMS \<Rightarrow> bool" where
  "CMS_wf c \<longleftrightarrow> 1 \<le> width c \<and> 1 \<le> depth c \<and> depth c \<le> 64 \<and> width c * depth c \<le> MaxCMSCells
     \<and> length (cells c) = width c * depth c \<and> rate_ok (epsilon c) \<and> rate_ok (delta c)"

lemma halve_width_bound:
  assumes "1 \<le> d"
  shows "halve_width d w * int d \<le> int MaxCMSCells"
  using assms
proof (induction d w rule: halve_width.induct)
  case (1 d w)
  show ?case
  proof (cases "0 < w \<and> w * int d > int MaxCMSCells")
    case True
    then show ?thesis using 1 by (subst halve_width.simps) simp
  next
    case False
    have "w \<le> 0 \<Longrightarrow> w * int d \<le> 0" by (simp add: mult_nonpos_nonneg)
    then show ?thesis using False by (subst halve_width.simps) auto
  qed
qed

lemma one_le_nat_max: "1 \<le> nat (if w < 1 then 1 else w)"
  by (simp, arith)

lemma NewCMS_wf: "CMS_wf (NewCMS wraw draw e d)"
proof -
  let ?dlt = "f64_clamp d minCMSDelta maxCMSDelta" and ?eps = "f64_clamp e minCMSEpsilon maxCMSEpsilon"
  let ?dep = "nat (clampInt (draw ?dlt) 1 MaxCMSDepth)"
  let ?w = "halve_width ?dep (wraw ?eps)"
  let ?wid = "nat (if ?w < 1 then 1 else ?w)"
  have dep: "1 \<le> ?dep" "?dep \<le> 64" using clampInt_range [of 1 64 "draw ?dlt"] by linarith+
  have wd: "?wid * ?dep \<le> MaxCMSCells"
  proof (cases "?w < 1")
    case True
    then show ?thesis using dep by simp
  next
    case False
    then have "int (?wid * ?dep) = ?w * int ?dep" by simp
    then show ?thesis using halve_width_bound [OF dep(1), of "wraw ?eps"] by linarith
  qed
  have "rate_ok ?eps"
    by (rule rate_ok_clamp) (simp_all add: f64_sign_def minCMSEpsilon_def maxCMSEpsilon_def f64_one_def)
  moreover have "rate_ok ?dlt"
    by (rule rate_ok_clamp) (simp_all add: f64_sign_def minCMSDelta_def maxCMSDelta_def f64_one_def)
  moreover have "1 \<le> ?wid" by (rule one_le_nat_max)
  ultimately show ?thesis using dep wd unfolding NewCMS_def Let_def CMS_wf_def by simp
qed

section \<open>Cells as saturated sums\<close>

definition key_cells :: "nat \<Rightarrow> nat \<Rightarrow> bytes \<Rightarrow> nat set" where
  "key_cells wid dep key = (let (h1, h2) = hash128 domainCMS key
     in (\<lambda>j. cellIndex wid j h1 h2) ` {0..<dep})"

lemma satAdd32_unat [simp]: "unat (satAdd32 a n) = sat_plus (2 ^ 32 - 1) (unat a) (unat n)"
  unfolding satAdd32_def word_sat_add_unat by simp

lemma cellIndex_range:
  assumes "1 \<le> wid" and "wid < 2 ^ 64"
  shows "j * wid \<le> cellIndex wid j h1 h2" and "cellIndex wid j h1 h2 < Suc j * wid"
proof -
  have "unat (of_nat wid :: u64) = wid" using assms by (simp add: unat_of_nat)
  then have "unat ((h1 + of_nat j * h2) mod of_nat wid) < wid" using assms by (simp add: unat_mod)
  then show "j * wid \<le> cellIndex wid j h1 h2" "cellIndex wid j h1 h2 < Suc j * wid"
    by (simp_all add: cellIndex_def)
qed

lemma cellIndex_inj:
  assumes w: "1 \<le> wid" "wid < 2 ^ 64" and eq: "cellIndex wid i h1 h2 = cellIndex wid j h1 h2"
  shows "i = j"
proof -
  have "i * wid < Suc j * wid" "j * wid < Suc i * wid"
    using cellIndex_range [OF w, of i h1 h2] cellIndex_range [OF w, of j h1 h2] eq by linarith+
  then have "i < Suc j" "j < Suc i" unfolding mult_less_cancel2 by simp_all
  then show ?thesis by simp
qed

text \<open>Updating a list of distinct positions, one after the other.\<close>

lemma foldl_update_distinct:
  assumes "distinct js" and "inj_on ix (set js)" and "\<forall>j \<in> set js. ix j < length cs"
  shows "length (foldl (\<lambda>cs j. cs[ix j := f (cs ! ix j)]) cs js) = length cs
    \<and> (\<forall>x < length cs. foldl (\<lambda>cs j. cs[ix j := f (cs ! ix j)]) cs js ! x
        = (if x \<in> ix ` set js then f (cs ! x) else cs ! x))"
  using assms
proof (induction js arbitrary: cs)
  case Nil
  then show ?case by simp
next
  case (Cons j js)
  let ?cs = "cs[ix j := f (cs ! ix j)]"
  have ih: "length (foldl (\<lambda>cs j. cs[ix j := f (cs ! ix j)]) ?cs js) = length ?cs
    \<and> (\<forall>x < length ?cs. foldl (\<lambda>cs j. cs[ix j := f (cs ! ix j)]) ?cs js ! x
        = (if x \<in> ix ` set js then f (?cs ! x) else ?cs ! x))"
    using Cons.prems by (intro Cons.IH) auto
  have "ix j \<notin> ix ` set js" using Cons.prems by (auto simp: inj_on_def)
  then have "x \<in> ix ` set js \<Longrightarrow> ?cs ! x = cs ! x" for x by (metis nth_list_update_neq)
  moreover have "x < length cs \<Longrightarrow> ?cs ! x = (if x = ix j then f (cs ! x) else cs ! x)" for x
    by (simp add: nth_list_update)
  ultimately show ?case using ih \<open>ix j \<notin> ix ` set js\<close> by simp
qed

lemma CMS_wf_width: "CMS_wf c \<Longrightarrow> 1 \<le> width c \<and> width c < 2 ^ 64"
proof -
  assume wf: "CMS_wf c"
  then have "width c * 1 \<le> width c * depth c" unfolding CMS_wf_def by (intro mult_le_mono2) simp
  moreover have "width c * depth c \<le> MaxCMSCells" "1 \<le> width c" using wf by (simp_all add: CMS_wf_def)
  ultimately have "width c \<le> MaxCMSCells" "1 \<le> width c" unfolding mult_1_right by linarith+
  then show ?thesis by simp
qed

lemma key_cells_range:
  assumes "CMS_wf c" and "x \<in> key_cells (width c) (depth c) key"
  shows "x < length (cells c)"
proof -
  obtain h1 h2 j where h: "j < depth c" "x = cellIndex (width c) j h1 h2"
    using assms(2) by (auto simp: key_cells_def split: prod.splits)
  note w = CMS_wf_width [OF assms(1)]
  have "x < Suc j * width c" using cellIndex_range(2) [of "width c" j h1 h2] w h by simp
  also have "\<dots> \<le> depth c * width c" using h by (intro mult_le_mono1) simp
  finally show ?thesis using assms(1) by (simp add: CMS_wf_def mult.commute)
qed

lemma CMS_Add_cells:
  assumes wf: "CMS_wf c"
  shows "length (cells (CMS_Add c key n)) = length (cells c)
    \<and> (\<forall>x < length (cells c). unat (cells (CMS_Add c key n) ! x)
        = sat_plus (2 ^ 32 - 1) (unat (cells c ! x))
            (if x \<in> key_cells (width c) (depth c) key then unat n else 0))"
proof -
  obtain h1 h2 where h: "hash128 domainCMS key = (h1, h2)" by fastforce
  let ?ix = "\<lambda>j. cellIndex (width c) j h1 h2"
  note w = CMS_wf_width [OF wf]
  have kc: "key_cells (width c) (depth c) key = ?ix ` set [0..<depth c]" by (simp add: key_cells_def h)
  have rg: "\<forall>j \<in> set [0..<depth c]. ?ix j < length (cells c)"
    using key_cells_range [OF wf, of _ key] unfolding kc by blast
  have inj: "inj_on ?ix (set [0..<depth c])" using cellIndex_inj w by (auto simp: inj_on_def)
  have le: "unat v = sat_plus (2 ^ 32 - 1) (unat v) 0" for v :: u32
    using unsigned_less [of v, where ?'a = nat] by (simp add: sat_plus_def)
  have w0: "\<not> width c < 1" "\<not> depth c < 1" using wf by (simp_all add: CMS_wf_def)
  note fd = foldl_update_distinct [OF distinct_upt inj rg, of "\<lambda>v. satAdd32 v n"]
  show ?thesis
  proof (cases "n = 0")
    case True
    then show ?thesis using le by (auto simp: CMS_Add_def)
  next
    case False
    then have "cells (CMS_Add c key n)
        = foldl (\<lambda>cs j. cs[?ix j := satAdd32 (cs ! ?ix j) n]) (cells c) [0..<depth c]"
      using w0 by (simp add: CMS_Add_def h Let_def)
    then show ?thesis using fd le unfolding kc by auto
  qed
qed

lemma CMS_Add_shape:
  "width (CMS_Add c key n) = width c \<and> depth (CMS_Add c key n) = depth c
    \<and> epsilon (CMS_Add c key n) = epsilon c \<and> delta (CMS_Add c key n) = delta c
    \<and> ccreated (CMS_Add c key n) = ccreated c"
  by (simp add: CMS_Add_def split: prod.split)

lemma CMS_Add_wf: "CMS_wf c \<Longrightarrow> CMS_wf (CMS_Add c key n)"
  using CMS_Add_cells [of c key n] CMS_Add_shape [of c key n] by (simp add: CMS_wf_def)

lemma CMS_Add_total:
  assumes "CMS_wf c"
  shows "unat (total (CMS_Add c key n)) = sat_plus (2 ^ 64 - 1) (unat (total c)) (unat n)"
proof -
  have "unat (ucast n :: u64) = unat n" using unsigned_less [of n, where ?'a = nat] by (simp add: unsigned_ucast_eq take_bit_nat_eq_self)
  moreover have "sat_plus (2 ^ 64 - 1) (unat (total c)) 0 = unat (total c)"
    using unsigned_less [of "total c", where ?'a = nat] by (simp add: sat_plus_def)
  ultimately show ?thesis using assms by (auto simp: CMS_Add_def CMS_wf_def split: prod.split)
qed

section \<open>Streams\<close>

definition CMS_run :: "CMS \<Rightarrow> (bytes \<times> u32) list \<Rightarrow> CMS" where
  "CMS_run c st = foldl (\<lambda>c p. CMS_Add c (fst p) (snd p)) c st"

text \<open>The true weight of a key, and the weight hashed to one cell.\<close>

definition true_count :: "bytes \<Rightarrow> (bytes \<times> u32) list \<Rightarrow> nat" where
  "true_count key st = sum_list (map (\<lambda>p. if fst p = key then unat (snd p) else 0) st)"

definition cell_mass :: "nat \<Rightarrow> nat \<Rightarrow> nat \<Rightarrow> (bytes \<times> u32) list \<Rightarrow> nat" where
  "cell_mass wid dep x st =
     sum_list (map (\<lambda>p. if x \<in> key_cells wid dep (fst p) then unat (snd p) else 0) st)"

definition stream_total :: "(bytes \<times> u32) list \<Rightarrow> nat" where
  "stream_total st = sum_list (map (\<lambda>p. unat (snd p)) st)"

lemma CMS_run_spec:
  assumes "CMS_wf c"
  shows "CMS_wf (CMS_run c st)
    \<and> width (CMS_run c st) = width c \<and> depth (CMS_run c st) = depth c
    \<and> epsilon (CMS_run c st) = epsilon c \<and> delta (CMS_run c st) = delta c
    \<and> ccreated (CMS_run c st) = ccreated c
    \<and> unat (total (CMS_run c st)) = sat_plus (2 ^ 64 - 1) (unat (total c)) (stream_total st)
    \<and> (\<forall>x < length (cells c). unat (cells (CMS_run c st) ! x)
        = sat_plus (2 ^ 32 - 1) (unat (cells c ! x)) (cell_mass (width c) (depth c) x st))"
  using assms
proof (induction st arbitrary: c)
  case Nil
  have "sat_plus (2 ^ 64 - 1) (unat (total c)) 0 = unat (total c)"
    using unsigned_less [of "total c", where ?'a = nat] by (simp add: sat_plus_def)
  moreover have "sat_plus (2 ^ 32 - 1) (unat v) 0 = unat v" for v :: u32
    using unsigned_less [of v, where ?'a = nat] by (simp add: sat_plus_def)
  ultimately show ?case using Nil by (simp add: CMS_run_def stream_total_def cell_mass_def)
next
  case (Cons p st)
  obtain k n where p: "p = (k, n)" by (cases p)
  note a = CMS_Add_cells [OF Cons.prems, of k n] CMS_Add_shape [of c k n]
    CMS_Add_total [OF Cons.prems, of k n]
  have r: "CMS_run c (p # st) = CMS_run (CMS_Add c k n) st" by (simp add: CMS_run_def p)
  have s: "stream_total (p # st) = unat n + stream_total st" by (simp add: stream_total_def p)
  have m: "cell_mass w d x (p # st) = (if x \<in> key_cells w d k then unat n else 0) + cell_mass w d x st" for w d x
    by (simp add: cell_mass_def p)
  note ih = Cons.IH [OF CMS_Add_wf [OF Cons.prems, of k n]]
  have sp: "sat_plus M (sat_plus M a b) d = sat_plus M a (b + d)" for M a b d
    by (simp add: sat_plus_def)
  show ?case unfolding r s m using ih a by (simp add: sp)
qed

lemma NewCMS_zero:
  "total (NewCMS wraw draw e d) = 0" "x < length (cells (NewCMS wraw draw e d)) \<Longrightarrow> cells (NewCMS wraw draw e d) ! x = 0"
  by (simp_all add: NewCMS_def Let_def)

lemma foldl_min_word:
  fixes best :: "'a::len word"
  shows "foldl (\<lambda>best j. let v = f j in if v < best then v else best) best js
    = fold (\<lambda>j b. min (f j) b) js best"
proof (induction js arbitrary: best)
  case (Cons j js)
  have "(let v = f j in if v < best then v else best) = min (f j) best"
    by (auto simp: Let_def min_def)
  then show ?case using Cons by simp
qed simp

lemma fold_min_le:
  fixes best :: "'a::len word"
  shows "u \<le> fold (\<lambda>j b. min (f j) b) js best \<longleftrightarrow> u \<le> best \<and> (\<forall>j \<in> set js. u \<le> f j)"
  by (induction js arbitrary: best) auto

lemma Estimate_fold:
  assumes "CMS_wf c" and h: "hash128 domainCMS key = (h1, h2)"
  shows "Estimate c key = fold (\<lambda>j b. min (cells c ! cellIndex (width c) j h1 h2) b) [0..<depth c] (- 1)"
proof -
  have w0: "\<not> width c < 1" "\<not> depth c < 1" using assms by (simp_all add: CMS_wf_def)
  show ?thesis
    using w0 foldl_min_word [of "\<lambda>j. cells c ! cellIndex (width c) j h1 h2"]
    unfolding Estimate_def h by simp
qed

lemma Estimate_iff:
  assumes "CMS_wf c"
  shows "u \<le> Estimate c key \<longleftrightarrow> (\<forall>x \<in> key_cells (width c) (depth c) key. u \<le> cells c ! x)"
proof -
  obtain h1 h2 where h: "hash128 domainCMS key = (h1, h2)" by fastforce
  show ?thesis unfolding Estimate_fold [OF assms h] fold_min_le by (simp add: key_cells_def h)
qed

lemma fold_min_in:
  fixes best :: "'a::len word"
  shows "fold (\<lambda>j b. min (f j) b) js best \<in> insert best (f ` set js)"
proof (induction js arbitrary: best)
  case (Cons j js)
  then show ?case using Cons [of "min (f j) best"] by (auto simp: min_def split: if_splits)
qed simp

lemma Estimate_in:
  assumes "CMS_wf c"
  shows "\<exists>x \<in> key_cells (width c) (depth c) key. Estimate c key = cells c ! x"
proof -
  obtain h1 h2 where h: "hash128 domainCMS key = (h1, h2)" by fastforce
  have d0: "0 \<in> set [0..<depth c]" using assms by (simp add: CMS_wf_def)
  have kc: "key_cells (width c) (depth c) key = (\<lambda>j. cellIndex (width c) j h1 h2) ` set [0..<depth c]"
    by (simp add: key_cells_def h)
  have "Estimate c key \<in> insert (- 1) ((\<lambda>j. cells c ! cellIndex (width c) j h1 h2) ` set [0..<depth c])"
    unfolding Estimate_fold [OF assms h] by (rule fold_min_in)
  then consider "Estimate c key = - 1" | "Estimate c key \<in> (\<lambda>x. cells c ! x) ` key_cells (width c) (depth c) key"
    unfolding kc by auto
  then show ?thesis
  proof cases
    case 1
    have "- 1 \<le> cells c ! cellIndex (width c) 0 h1 h2"
      using Estimate_iff [OF assms, of "- 1" key] 1 d0 unfolding kc by simp
    then have "Estimate c key = cells c ! cellIndex (width c) 0 h1 h2"
      using 1 by (simp add: word_order.extremum_unique)
    then show ?thesis using d0 unfolding kc by blast
  next
    case 2
    then show ?thesis by auto
  qed
qed

lemma key_cells_finite: "finite (key_cells w d key)"
  by (simp add: key_cells_def split: prod.split)

lemma key_cells_nonempty: "1 \<le> d \<Longrightarrow> key_cells w d key \<noteq> {}"
  by (auto simp: key_cells_def split: prod.splits)

lemma CMS_run_cell:
  assumes "x \<in> key_cells (width (NewCMS wraw draw e d)) (depth (NewCMS wraw draw e d)) key"
  shows "unat (cells (CMS_run (NewCMS wraw draw e d) st) ! x) =
    min (2 ^ 32 - 1) (cell_mass (width (NewCMS wraw draw e d)) (depth (NewCMS wraw draw e d)) x st)"
proof -
  have x: "x < length (cells (NewCMS wraw draw e d))" by (rule key_cells_range [OF NewCMS_wf assms])
  show ?thesis using CMS_run_spec [OF NewCMS_wf, of wraw draw e d st] x NewCMS_zero(2) [OF x]
    by (simp add: sat_plus_def)
qed

text \<open>The estimate of a key after any stream is exactly the least, over the rows, of the
  saturated weight that the stream hashed to the key's cell of that row.\<close>

theorem CMS_estimate_exact:
  "unat (Estimate (CMS_run (NewCMS wraw draw e d) st) key) =
     Min ((\<lambda>x. min (2 ^ 32 - 1) (cell_mass (width (NewCMS wraw draw e d)) (depth (NewCMS wraw draw e d)) x st))
       ` key_cells (width (NewCMS wraw draw e d)) (depth (NewCMS wraw draw e d)) key)"
proof -
  let ?c = "CMS_run (NewCMS wraw draw e d) st"
  let ?K = "key_cells (width (NewCMS wraw draw e d)) (depth (NewCMS wraw draw e d)) key"
  have sp: "CMS_wf ?c" "width ?c = width (NewCMS wraw draw e d)" "depth ?c = depth (NewCMS wraw draw e d)"
    using CMS_run_spec [OF NewCMS_wf, of wraw draw e d st] by simp_all
  obtain x where x: "x \<in> ?K" "Estimate ?c key = cells ?c ! x"
    using Estimate_in [OF sp(1), of key] unfolding sp by blast
  have le: "unat (Estimate ?c key) \<le> unat (cells ?c ! y)" if "y \<in> ?K" for y
    using Estimate_iff [OF sp(1), of "Estimate ?c key" key] that unfolding sp
    by (simp add: word_le_nat_alt)
  show ?thesis
  proof (rule Min_eqI [symmetric])
    show "finite ((\<lambda>x. min (2 ^ 32 - 1) (cell_mass (width (NewCMS wraw draw e d)) (depth (NewCMS wraw draw e d)) x st)) ` ?K)"
      by (simp add: key_cells_finite)
  qed (use le x CMS_run_cell in \<open>auto intro!: rev_image_eqI\<close>)
qed

lemma true_count_le_mass:
  assumes "x \<in> key_cells w d key"
  shows "true_count key st \<le> cell_mass w d x st"
  unfolding true_count_def cell_mass_def using assms by (intro sum_list_mono) auto

lemma CMS_min_true:
  "min (2 ^ 32 - 1) (true_count key st) \<le> unat (Estimate (CMS_run (NewCMS wraw draw e d) st) key)"
proof -
  let ?c = "CMS_run (NewCMS wraw draw e d) st"
  have sp: "CMS_wf ?c" "width ?c = width (NewCMS wraw draw e d)" "depth ?c = depth (NewCMS wraw draw e d)"
    using CMS_run_spec [OF NewCMS_wf, of wraw draw e d st] by simp_all
  obtain x where x: "x \<in> key_cells (width (NewCMS wraw draw e d)) (depth (NewCMS wraw draw e d)) key"
    "Estimate ?c key = cells ?c ! x"
    using Estimate_in [OF sp(1), of key] unfolding sp by blast
  show ?thesis unfolding x(2) CMS_run_cell [OF x(1)]
    using true_count_le_mass [OF x(1), of st] by (rule min.mono [OF order_refl])
qed


section \<open>Merging\<close>

lemma map_unat_inject: "map unat xs = map unat (ys :: 'a::len word list) \<Longrightarrow> xs = ys"
  by (rule injD [OF inj_mapI]) (auto simp: inj_def intro: unsigned_word_eqI)

lemma CMS_eqI:
  assumes "CMS_wf c" and "CMS_wf c'"
    and "width c = width c'" and "depth c = depth c'" and "epsilon c = epsilon c'" and "delta c = delta c'"
    and "ccreated c = ccreated c'" and "unat (total c) = unat (total c')"
    and "\<And>x. x < length (cells c) \<Longrightarrow> unat (cells c ! x) = unat (cells c' ! x)"
  shows "c = c'"
proof -
  have "length (cells c) = length (cells c')" using assms(1-4) by (simp add: CMS_wf_def)
  then have "map unat (cells c) = map unat (cells c')" using assms(9) by (intro nth_equalityI) simp_all
  then have "cells c = cells c'" by (rule map_unat_inject)
  moreover have "total c = total c'" using assms(8) by (rule unsigned_word_eqI)
  ultimately show ?thesis using assms(3-7) by (intro CMS.equality) simp_all
qed

lemma mass_append:
  "cell_mass w d x (st @ st') = cell_mass w d x st + cell_mass w d x st'"
  "stream_total (st @ st') = stream_total st + stream_total st'"
  by (simp_all add: cell_mass_def stream_total_def)

lemma CMS_run_swap:
  "CMS_run (NewCMS wraw draw e d) (st @ st') = CMS_run (NewCMS wraw draw e d) (st' @ st)"
proof -
  note a = CMS_run_spec [OF NewCMS_wf, of wraw draw e d "st @ st'"]
  note b = CMS_run_spec [OF NewCMS_wf, of wraw draw e d "st' @ st"]
  have l: "length (cells (CMS_run (NewCMS wraw draw e d) (st @ st'))) = length (cells (NewCMS wraw draw e d))"
    using a NewCMS_wf [of wraw draw e d] by (simp add: CMS_wf_def)
  show ?thesis
    by (rule CMS_eqI) (use a b l in \<open>simp_all add: mass_append add.commute\<close>)
qed

lemma CMS_MergeFrom_runs:
  "CMS_MergeFrom (CMS_run (NewCMS wraw draw e d) st) (Some (CMS_run (NewCMS wraw draw e d) st'))
     = Inr (CMS_run (NewCMS wraw draw e d) (st @ st'))"
proof -
  let ?c0 = "NewCMS wraw draw e d"
  let ?a = "CMS_run ?c0 st" and ?b = "CMS_run ?c0 st'" and ?r = "CMS_run ?c0 (st @ st')"
  let ?m = "?a\<lparr>cells := map2 satAdd32 (cells ?a) (cells ?b), total := satAdd64 (total ?a) (total ?b)\<rparr>"
  note a = CMS_run_spec [OF NewCMS_wf, of wraw draw e d st] and b = CMS_run_spec [OF NewCMS_wf, of wraw draw e d st']
    and r = CMS_run_spec [OF NewCMS_wf, of wraw draw e d "st @ st'"]
  have l: "length (cells ?a) = length (cells ?c0)" "length (cells ?b) = length (cells ?c0)"
    "length (cells ?r) = length (cells ?c0)"
    using a b r NewCMS_wf [of wraw draw e d] by (simp_all add: CMS_wf_def)
  have sp: "sat_plus M (min M u) (min M v) = min M (u + v)" for M u v by (simp add: sat_plus_def)
  have "?m = ?r"
  proof (rule CMS_eqI)
    show "CMS_wf ?m" using a l NewCMS_wf [of wraw draw e d] by (simp add: CMS_wf_def)
    show "CMS_wf ?r" using r by simp
    show "unat (total ?m) = unat (total ?r)"
      using a b r by (simp add: NewCMS_zero mass_append) (simp add: sat_plus_def)
    fix x assume "x < length (cells ?m)"
    then have x: "x < length (cells ?c0)" using l by simp
    then show "unat (cells ?m ! x) = unat (cells ?r ! x)"
      using a b r l NewCMS_zero(2) [OF x] by (simp add: mass_append) (simp add: sat_plus_def)
  qed (use a b r in simp_all)
  moreover have "width ?a = width ?b" "depth ?a = depth ?b" using a b by simp_all
  ultimately show ?thesis by (simp add: CMS_MergeFrom_def)
qed

interpretation cms: stream_merge_comm "NewCMS wraw draw e d" "\<lambda>c p. CMS_Add c (fst p) (snd p)"
    "\<lambda>c c'. CMS_MergeFrom c (Some c')" "\<lambda>_. True" for wraw draw e d
  by unfold_locales (simp_all add: CMS_MergeFrom_runs CMS_run_swap flip: CMS_run_def del: foldl_append)

text \<open>Merging is exact: merging shards one after the other gives precisely the table of a
  single pass over the concatenated streams, saturation included, in either order; a nil source
  or another shape is refused.\<close>

theorem CMS_merge_exact:
  "foldl (\<lambda>r st. case r of Inl e \<Rightarrow> Inl e | Inr c \<Rightarrow> CMS_MergeFrom c (Some (CMS_run (NewCMS wraw draw e d) st)))
      (Inr (CMS_run (NewCMS wraw draw e d) st0)) sts = Inr (CMS_run (NewCMS wraw draw e d) (st0 @ concat sts))
    \<and> CMS_MergeFrom (CMS_run (NewCMS wraw draw e d) st) (Some (CMS_run (NewCMS wraw draw e d) st'))
      = CMS_MergeFrom (CMS_run (NewCMS wraw draw e d) st') (Some (CMS_run (NewCMS wraw draw e d) st))
    \<and> CMS_MergeFrom c None = Inl ErrShapeMismatch
    \<and> (width c \<noteq> width c' \<or> depth c \<noteq> depth c' \<longrightarrow> CMS_MergeFrom c (Some c') = Inl ErrShapeMismatch)"
  using cms.merge_shards [of wraw draw e d st0 sts] cms.merge_commute [of wraw draw e d st st']
  unfolding CMS_run_def by (auto simp: CMS_MergeFrom_def simp del: foldl_append)

theorem CMS_merge_exact_witness:
  "CMS_MergeFrom (NewCMS (\<lambda>_. 4) (\<lambda>_. 2) 0 0) (Some (NewCMS (\<lambda>_. 5) (\<lambda>_. 2) 0 0)) = Inl ErrShapeMismatch"
proof -
  have "width (NewCMS (\<lambda>_. 4) (\<lambda>_. 2) 0 0) \<noteq> width (NewCMS (\<lambda>_. 5) (\<lambda>_. 2) 0 0)"
    by (simp add: NewCMS_def Let_def halve_width.simps clampInt_def)
  then show ?thesis
    using CMS_merge_exact [of "\<lambda>_. 4" "\<lambda>_. 2" 0 0 "[]" "[]" "[]" "[]" "NewCMS (\<lambda>_. 4) (\<lambda>_. 2) 0 0" "NewCMS (\<lambda>_. 5) (\<lambda>_. 2) 0 0"]
    by blast
qed

section \<open>Decay\<close>

lemma f64_mul_zero: "f64_Round (f64_mul a 0) = 0" "f64_Round (f64_mul a 0x8000000000000000) = 0"
  by (simp_all add: f64_mul_def f64_dyadic_def f64_exp_def f64_man_def f64_round_def f64_Round_def
      split: prod.split)

lemma Scale_wf: "CMS_wf c \<Longrightarrow> CMS_wf (Scale c f)"
  by (simp add: Scale_def CMS_wf_def Let_def)

lemma f64_key_0 [simp]: "f64_key 0 = 0"
  by (simp add: f64_key_def f64_sign_def)

lemma f64_key_nonneg_zero:
  assumes "f64_key w \<le> 0" and "\<not> f64_key w < 0"
  shows "w = 0 \<or> w = 0x8000000000000000"
proof (cases "f64_sign w")
  case True
  then have "unat w = 2 ^ 63" using assms by (simp add: f64_key_def del: of_nat_unat)
  then have "w = 0x8000000000000000" by (intro unsigned_word_eqI) simp
  then show ?thesis ..
next
  case False
  then have "unat w = 0" using assms by (simp add: f64_key_def del: of_nat_unat)
  then show ?thesis by (simp add: unat_eq_zero)
qed

lemma Scale_clamped_zero:
  assumes "f64_isNaN f \<or> f64_le f 0"
  shows "f64_clamp f 0 maxTotalFloat = 0 \<or> f64_clamp f 0 maxTotalFloat = 0x8000000000000000"
proof -
  have n0: "\<not> f64_isNaN 0" by (simp add: f64_isNaN_def f64_man_def)
  have s: "\<not> f64_sign maxTotalFloat" by (simp add: f64_sign_def maxTotalFloat_def)
  have k: "0 < f64_key maxTotalFloat"
    using s unfolding f64_key_def by (simp add: maxTotalFloat_def)
  consider "f64_isNaN f" | "\<not> f64_isNaN f" "f64_key f < 0" | "\<not> f64_isNaN f" "f64_key f \<le> 0" "\<not> f64_key f < 0"
    using assms by (cases "f64_key f < 0") (auto simp: f64_le_def)
  then show ?thesis
  proof cases
    case 3
    from 3(2,3) have "f = 0 \<or> f = 0x8000000000000000" by (rule f64_key_nonneg_zero)
    moreover have "f64_clamp f 0 maxTotalFloat = f"
      using 3 k by (simp add: f64_clamp_def f64_less_def)
    ultimately show ?thesis by simp
  qed (use n0 in \<open>simp_all add: f64_clamp_def f64_less_def\<close>)
qed

text \<open>Decay keeps the invariant; a factor of one leaves the table unchanged, and a zero,
  negative or NaN factor discards the history: every counter and the total become 0.\<close>

theorem Scale_decay:
  "(CMS_wf c \<longrightarrow> CMS_wf (Scale c f)) \<and> Scale c f64_one = c
    \<and> (f64_isNaN f \<or> f64_le f 0 \<longrightarrow> Scale c f = c\<lparr>cells := replicate (length (cells c)) 0, total := 0\<rparr>)"
proof (intro conjI impI)
  show "CMS_wf c \<Longrightarrow> CMS_wf (Scale c f)" by (rule Scale_wf)
  show "Scale c f64_one = c"
    by (simp add: Scale_def Let_def f64_clamp_def f64_less_def f64_isNaN_def f64_exp_def f64_man_def
        f64_key_def f64_sign_def f64_one_def maxTotalFloat_def)
  assume "f64_isNaN f \<or> f64_le f 0"
  from Scale_clamped_zero [OF this] show "Scale c f = c\<lparr>cells := replicate (length (cells c)) 0, total := 0\<rparr>"
    unfolding Scale_def Let_def by (auto simp: f64_mul_zero f64_one_def map_replicate_const)
qed

theorem Scale_decay_witness:
  "Scale (CMS_run (NewCMS (\<lambda>_. 4) (\<lambda>_. 2) 0 0) [([1], 5)]) 0
    = (CMS_run (NewCMS (\<lambda>_. 4) (\<lambda>_. 2) 0 0) [([1], 5)])
        \<lparr>cells := replicate (length (cells (CMS_run (NewCMS (\<lambda>_. 4) (\<lambda>_. 2) 0 0) [([1], 5)]))) 0, total := 0\<rparr>"
proof -
  have "f64_le 0 0" by (simp add: f64_le_def f64_isNaN_def f64_man_def)
  then show ?thesis using Scale_decay by blast
qed

section \<open>Persistence\<close>

lemma CMS_header_params:
  "map_of (h_Params (CMS_Header c)) (lit ''depth'') = Some (f64_of_nat (depth c))"
  "map_of (h_Params (CMS_Header c)) (lit ''width'') = Some (f64_of_nat (width c))"
  "map_of (h_Params (CMS_Header c)) (lit ''epsilon'') = Some (epsilon c)"
  "map_of (h_Params (CMS_Header c)) (lit ''delta'') = Some (delta c)"
  by (simp_all add: CMS_Header_def lit_def)

interpretation cms_codec: sketch_codec CMS_Header CMS_body CMS_decodeV1 KindCMS CMS_wf
proof unfold_locales
  show "Kind_Valid KindCMS" by (simp add: Kind_Valid_def KindBloom_def KindCMS_def KindMinHash_def)
next
  fix c assume wf: "CMS_wf c"
  show "h_Ver (CMS_Header c) = FormatVersion" "h_Kind (CMS_Header c) = KindCMS"
    "length (h_Params (CMS_Header c)) \<le> 8"
    by (simp_all add: CMS_Header_def)
  show "distinct (map fst (h_Params (CMS_Header c)))"
    by (simp add: CMS_Header_def lit_def)
  show "list_all (\<lambda>p. paramNameOK (fst p)) (h_Params (CMS_Header c))"
    by (simp add: CMS_Header_def lit_def paramNameOK_def paramByteOK_def)
  have wd: "width c * depth c \<le> MaxCMSCells" "length (cells c) = width c * depth c" "width c \<le> MaxCMSCells"
    using wf CMS_wf_width [OF wf] le_trans [of "width c" "width c * depth c" MaxCMSCells]
    by (simp_all add: CMS_wf_def)
  then show "length (CMS_body c) \<le> MaxFrameBytes - 512"
    unfolding CMS_body_def length_write_array length_map wd(2) by linarith
  fix h assume "same_header (CMS_Header c) h"
  then have sh: "h_Count h = total c" "h_Created h = ccreated c"
    "map_of (h_Params h) = map_of (h_Params (CMS_Header c))"
    by (auto simp: same_header_def CMS_Header_def)
  note p = CMS_header_params [of c, folded sh(3)]
  have i: "int (width c) * int (depth c) \<le> int MaxCMSCells" using wd(1) by (simp flip: of_nat_mult)
  have "MustParamInt h (lit ''depth'') 1 64 = Inr (int (depth c))"
    "MustParamInt h (lit ''width'') 1 (int MaxCMSCells) = Inr (int (width c))"
    using wf wd MustParamInt_of_nat [OF p(1), of 1 64] MustParamInt_of_nat [OF p(2), of 1 "int MaxCMSCells"]
    by (simp_all add: CMS_wf_def)
  moreover have "cmsRateParam h (lit ''epsilon'') = Inr (epsilon c)" "cmsRateParam h (lit ''delta'') = Inr (delta c)"
    using wf p by (simp_all add: cmsRateParam_def Param_def CMS_wf_def)
  moreover have "map of_nat (read_array 4 (nat (int (width c) * int (depth c))) (CMS_body c)) = cells c"
    using u32_array_round_trip [of "cells c"] wd by (simp add: CMS_body_def nat_mult_distrib)
  moreover have "int (length (CMS_body c)) = int (width c) * int (depth c) * 4"
    using wd by (simp add: CMS_body_def)
  ultimately show "CMS_decodeV1 h (CMS_body c) = Inr c"
    using i by (simp add: CMS_decodeV1_def sh(1,2))
qed

text \<open>Every well-formed table survives a save: it marshals, and the frame unmarshals to the
  same state.\<close>

theorem CMS_marshal_round_trip:
  assumes "CMS_wf c"
  shows "\<exists>frame. CMS_MarshalBinary c = Inr frame \<and> CMS_UnmarshalBinary frame = Inr c"
  using cms_codec.marshal_round_trip [OF assms] assms
  by (auto simp: CMS_MarshalBinary_def CMS_UnmarshalBinary_def CMS_wf_def)

theorem CMS_marshal_round_trip_witness:
  "\<exists>frame. CMS_MarshalBinary (CMS_Add (NewCMS (\<lambda>_. 4) (\<lambda>_. 2) 0 0) [1] 7) = Inr frame
    \<and> CMS_UnmarshalBinary frame = Inr (CMS_Add (NewCMS (\<lambda>_. 4) (\<lambda>_. 2) 0 0) [1] 7)"
  by (rule CMS_marshal_round_trip) (intro CMS_Add_wf NewCMS_wf)

text \<open>Unmarshalling is strict: a table it returns has the shape its header declares, within the
  ceilings, so no later cell index leaves the table.\<close>

theorem CMS_unmarshal_strict:
  assumes "CMS_UnmarshalBinary data = Inr c"
  shows "CMS_wf c"
proof -
  obtain h body where "CMS_decodeV1 h body = Inr c"
    using assms unfolding CMS_UnmarshalBinary_def by (rule unmarshal_frame_OkD)
  then obtain dep wid where d: "MustParamInt h (lit ''depth'') 1 64 = Inr dep"
    and w: "MustParamInt h (lit ''width'') 1 (int MaxCMSCells) = Inr wid"
    and p: "wid * dep \<le> int MaxCMSCells" "cmsRateParam h (lit ''epsilon'') = Inr (epsilon c)"
      "cmsRateParam h (lit ''delta'') = Inr (delta c)"
    and c: "width c = nat wid" "depth c = nat dep" "length (cells c) = nat (wid * dep)"
    by (auto simp: CMS_decodeV1_def split: sum.splits if_splits)
  have r: "1 \<le> dep" "dep \<le> 64" "1 \<le> wid"
    using MustParamInt_range [OF d] MustParamInt_range [OF w] by simp_all
  have "nat (wid * dep) = nat wid * nat dep" using r by (simp add: nat_mult_distrib)
  moreover have "nat (wid * dep) \<le> MaxCMSCells" using p(1) by simp
  moreover have "rate_ok (epsilon c)" "rate_ok (delta c)"
    using p by (auto simp: cmsRateParam_def split: option.splits if_splits)
  moreover have "1 \<le> nat dep" "nat dep \<le> 64" "1 \<le> nat wid" using r by linarith+
  ultimately show ?thesis unfolding CMS_wf_def c by simp
qed

theorem CMS_unmarshal_strict_witness:
  "\<exists>data c. CMS_UnmarshalBinary data = Inr c \<and> total c = 0 \<and> CMS_wf c"
proof -
  let ?c = "NewCMS (\<lambda>_. 4) (\<lambda>_. 2) 0 0"
  obtain frame where "unmarshal_frame KindCMS CMS_decodeV1 frame = Inr ?c"
    using cms_codec.marshal_round_trip [OF NewCMS_wf] by blast
  then have "CMS_UnmarshalBinary frame = Inr ?c" by (simp only: CMS_UnmarshalBinary_def)
  with CMS_unmarshal_strict [OF this] NewCMS_zero(1) show ?thesis by blast
qed

end
