(* ===== verification/GoMap.thy ===== *)
theory GoMap
  imports Prelude
begin

text \<open>
  Go maps.  A map is kept as the association list of its entries in ascending order of the keys,
  so equal maps are equal lists and a range over a map, whose order Go leaves open, is a pass over
  the list wherever the result does not depend on the order.  \<open>mput\<close> is assignment, \<open>mdel\<close>
  deletion, \<open>mget\<close> a read with the zero value for an absent key.
\<close>

type_synonym ('k, 'v) gomap = "('k \<times> 'v) list"

fun mput :: "'k::linorder \<Rightarrow> 'v \<Rightarrow> ('k, 'v) gomap \<Rightarrow> ('k, 'v) gomap" where
  "mput k v [] = [(k, v)]"
| "mput k v (p # al) =
     (if k < fst p then (k, v) # p # al
      else if k = fst p then (k, v) # al
      else p # mput k v al)"

definition mdel :: "'k \<Rightarrow> ('k, 'v) gomap \<Rightarrow> ('k, 'v) gomap" where
  "mdel k al = filter (\<lambda>p. fst p \<noteq> k) al"

definition mget :: "'v \<Rightarrow> ('k, 'v) gomap \<Rightarrow> 'k \<Rightarrow> 'v" where
  "mget z al k = (case map_of al k of None \<Rightarrow> z | Some v \<Rightarrow> v)"

definition map_ok :: "('k::linorder, 'v) gomap \<Rightarrow> bool" where
  "map_ok al \<longleftrightarrow> sorted_wrt (<) (map fst al)"

lemma map_ok_Nil [simp]: "map_ok []"
  by (simp add: map_ok_def)

lemma map_ok_Cons: "map_ok (p # al) \<longleftrightarrow> (\<forall>q \<in> set al. fst p < fst q) \<and> map_ok al"
  by (simp add: map_ok_def)

lemma map_ok_distinct: "map_ok al \<Longrightarrow> distinct (map fst al)"
  by (simp add: map_ok_def strict_sorted_iff)

lemma set_mput_subset: "set (mput k v al) \<subseteq> insert (k, v) (set al)"
  by (induction al) auto

lemma map_ok_mput [simp]: "map_ok al \<Longrightarrow> map_ok (mput k v al)"
proof (induction al)
  case (Cons p al)
  then show ?case using set_mput_subset [of k v al]
    by (fastforce simp: map_ok_Cons)
qed (simp add: map_ok_Cons)

lemma map_of_mput [simp]: "map_ok al \<Longrightarrow> map_of (mput k v al) = (map_of al)(k \<mapsto> v)"
proof (induction al)
  case (Cons p al)
  have "k < fst p \<Longrightarrow> map_of al k = None"
    using Cons.prems by (auto simp: map_ok_Cons map_of_eq_None_iff dest: less_asym)
  then show ?case using Cons by (auto simp: map_ok_Cons fun_eq_iff)
qed simp

lemma keys_mput: "fst ` set (mput k v al) = insert k (fst ` set al)"
  by (induction al) auto

lemma length_mput:
  "map_ok al \<Longrightarrow> length (mput k v al) = (if map_of al k = None then Suc (length al) else length al)"
proof (induction al)
  case (Cons p al)
  then show ?case
    by (cases "k < fst p") (auto simp: map_ok_Cons map_of_eq_None_iff split: if_splits dest: less_asym)
qed simp

lemma map_ok_filter [simp]: "map_ok al \<Longrightarrow> map_ok (filter P al)"
  by (simp add: map_ok_def sorted_wrt_map sorted_wrt_filter)

lemma map_ok_map_snd [simp]: "map_ok (map (\<lambda>p. (fst p, f p)) al) = map_ok al"
  by (simp add: map_ok_def comp_def)

lemma map_ok_mdel [simp]: "map_ok al \<Longrightarrow> map_ok (mdel k al)"
  by (simp add: mdel_def)

lemma map_of_mdel: "map_of (mdel k al) x = (if x = k then None else map_of al x)"
  by (induction al) (auto simp: mdel_def)

text \<open>Equal maps are equal lists.\<close>

lemma map_ok_eqI:
  assumes "map_ok al" and "map_ok bl" and "map_of al = map_of bl"
  shows "al = bl"
  using assms
proof (induction al arbitrary: bl)
  case Nil
  then show ?case by (cases bl) (auto simp: fun_eq_iff split: if_splits)
next
  case (Cons p al)
  obtain q bl' where bl: "bl = q # bl'"
    using Cons.prems(3) by (cases bl) (auto simp: fun_eq_iff split: if_splits)
  have lp: "\<forall>x \<in> fst ` set al. fst p < x" and lq: "\<forall>x \<in> fst ` set bl'. fst q < x"
    using Cons.prems(1,2) by (auto simp: bl map_ok_Cons)
  have dom: "insert (fst p) (fst ` set al) = insert (fst q) (fst ` set bl')"
    using arg_cong [OF Cons.prems(3), of dom] unfolding dom_map_of_conv_image_fst by (simp add: bl)
  have k: "fst p = fst q"
  proof (rule ccontr)
    assume "fst p \<noteq> fst q"
    have "fst p \<in> insert (fst q) (fst ` set bl')" unfolding dom [symmetric] by simp
    moreover have "fst q \<in> insert (fst p) (fst ` set al)" unfolding dom by simp
    ultimately have "fst p \<in> fst ` set bl'" "fst q \<in> fst ` set al"
      using \<open>fst p \<noteq> fst q\<close> by (simp_all add: eq_commute)
    then show False using lp lq by (meson less_asym)
  qed
  then have s: "snd p = snd q" using fun_cong [OF Cons.prems(3), of "fst p"] by (simp add: bl)
  have "map_of al x = map_of bl' x" for x
  proof (cases "x = fst p")
    case True
    then have "map_of al x = None" "map_of bl' x = None"
      using lp lq k by (auto simp: map_of_eq_None_iff)
    then show ?thesis by simp
  next
    case False
    then show ?thesis using fun_cong [OF Cons.prems(3), of x] k by (simp add: bl)
  qed
  then have "al = bl'" using Cons.prems(1,2) by (intro Cons.IH) (auto simp: bl map_ok_Cons)
  then show ?case using k s by (simp add: bl prod_eq_iff)
qed

lemma mget_mput [simp]: "map_ok al \<Longrightarrow> mget z (mput k v al) x = (if x = k then v else mget z al x)"
  by (simp add: mget_def)

text \<open>Sums over the values of a map.\<close>

lemma sum_mput:
  fixes al :: "('k::linorder, int) gomap"
  assumes "map_ok al"
  shows "sum_list (map snd (mput k v al)) = sum_list (map snd al) - mget 0 al k + v"
  using assms
proof (induction al)
  case Nil
  then show ?case by (simp add: mget_def)
next
  case (Cons p al)
  have "k < fst p \<Longrightarrow> map_of al k = None"
    using Cons.prems by (auto simp: map_ok_Cons map_of_eq_None_iff dest: less_asym)
  then show ?case using Cons by (auto simp: map_ok_Cons mget_def)
qed

end
