(* ===== verification/MisraGries.thy ===== *)
theory MisraGries
  imports SketchCodec GoMap
begin

text \<open>
  The Misra-Gries summary of \<^verbatim>\<open>internal/sketch/misragries.go\<close>: \<open>Add\<close> with its decrement,
  \<open>MergeFrom\<close> with the trim by the \<open>(k+1)\<close>-th largest count, \<open>Top\<close>, and the codec.  The
  contract is \<open>counter_summary\<close>: reported counts are below the true counts by at most the
  recorded error, the error is at most \<open>total / (k+1)\<close>, and so every key above that share of the
  stream is reported.
\<close>

section \<open>State\<close>

record MisraGries =
  mk :: int
  counters :: "(bytes, int) gomap"
  mtotal :: int
  merr :: int
  mcreated :: u64

abbreviation MaxMGCounters :: int where "MaxMGCounters \<equiv> 1048576"
abbreviation MaxMGKeyBytes :: nat where "MaxMGKeyBytes \<equiv> 8192"

text \<open>\<open>min (2 ^ 61, MaxInt)\<close> on a 64-bit target.\<close>

abbreviation maxMGCount :: int where "maxMGCount \<equiv> 2305843009213693952"

definition mgSatTotal :: "int \<Rightarrow> int \<Rightarrow> int" where
  "mgSatTotal tot n =
     (let s = satAdd64 (of_int tot) (of_int n)
      in if s \<le> of_int maxMGCount then uint s else maxMGCount)"

definition mgSatCount :: "int \<Rightarrow> int \<Rightarrow> int" where
  "mgSatCount a b = (if b > maxMGCount - a then maxMGCount else a + b)"

definition NewMisraGries :: "int \<Rightarrow> MisraGries" where
  "NewMisraGries k = \<lparr>mk = clampInt k 1 MaxMGCounters, counters = [], mtotal = 0, merr = 0, mcreated = 0\<rparr>"

section \<open>Operations\<close>

text \<open>Subtract \<open>d\<close> from every counter and drop those that reach zero.\<close>

definition decrement :: "int \<Rightarrow> (bytes, int) gomap \<Rightarrow> (bytes, int) gomap" where
  "decrement d cs = filter (\<lambda>p. \<not> snd p \<le> 0) (map (\<lambda>p. (fst p, snd p - d)) cs)"

definition MG_Add :: "MisraGries \<Rightarrow> bytes \<Rightarrow> int \<Rightarrow> MisraGries" where
  "MG_Add m key0 n =
     (if n \<le> 0 \<or> mk m < 1 then m
      else let key = (if length key0 > MaxMGKeyBytes then take MaxMGKeyBytes key0 else key0);
               tot = mgSatTotal (mtotal m) n
           in case map_of (counters m) key of
                Some c \<Rightarrow> m\<lparr>mtotal := tot, counters := mput key (mgSatCount c n) (counters m)\<rparr>
              | None \<Rightarrow>
                  if int (length (counters m)) < mk m
                  then m\<lparr>mtotal := tot, counters := mput key (clampInt n 1 maxMGCount) (counters m)\<rparr>
                  else let d = foldl (\<lambda>d p. if snd p < d then snd p else d) n (counters m);
                           cs = decrement d (counters m)
                       in m\<lparr>mtotal := tot,
                            counters := (if n - d > 0 then mput key (clampInt (n - d) 1 maxMGCount) cs else cs),
                            merr := mgSatTotal (merr m) d\<rparr>)"

text \<open>\<^verbatim>\<open>sortCounted\<close>: count descending, then key ascending.\<close>

definition sortCounted :: "(bytes \<times> int) list \<Rightarrow> (bytes \<times> int) list" where
  "sortCounted c = sort_key (\<lambda>p. - snd p) (sort_key fst c)"

definition MG_Top :: "MisraGries \<Rightarrow> int \<Rightarrow> (bytes \<times> int) list" where
  "MG_Top m n =
     (let out = sortCounted (counters m)
      in if n > 0 \<and> n < int (length out) then take (nat n) out else out)"

text \<open>\<open>None\<close> is a nil source.  The total and the error are added without saturation.\<close>

definition MG_MergeFrom :: "MisraGries \<Rightarrow> MisraGries option \<Rightarrow> (sketch_error, MisraGries) result" where
  "MG_MergeFrom m src =
     (case src of None \<Rightarrow> Inl ErrShapeMismatch
      | Some s \<Rightarrow>
          if mk s \<noteq> mk m then Inl ErrShapeMismatch
          else
            let cs = foldl (\<lambda>cs p. mput (fst p) (mgSatCount (mget 0 cs (fst p)) (snd p)) cs)
                       (counters m) (counters s);
                (cs, e) = (if int (length cs) > mk m
                           then let d = rev (sort (map snd cs)) ! nat (mk m)
                                in (decrement d cs, int64 (merr m + d))
                           else (cs, merr m))
            in Inr (m\<lparr>counters := cs, mtotal := int64 (mtotal m + mtotal s), merr := int64 (e + merr s)\<rparr>))"

definition MG_SetCreated :: "MisraGries \<Rightarrow> u64 \<Rightarrow> MisraGries" where
  "MG_SetCreated m t = m\<lparr>mcreated := t\<rparr>"

section \<open>Codec\<close>

definition MG_Header :: "MisraGries \<Rightarrow> Header" where
  "MG_Header m =
     \<lparr>h_Magic = HeaderMagic, h_Ver = FormatVersion, h_Kind = KindMisraGries,
      h_Params = [(lit ''err'', f64_of_int (merr m)), (lit ''k'', f64_of_int (mk m))],
      h_Count = of_int (mtotal m), h_Created = mcreated m, h_CRC32C = 0\<rparr>"

text \<open>One entry of the body: the length of the key, the key and the counter as a 64-bit pattern.\<close>

definition enc_entry :: "bytes \<times> int \<Rightarrow> bytes" where
  "enc_entry p = le_put 2 (length (fst p)) @ fst p @ le_put 8 (nat (snd p mod 2 ^ 64))"

definition MG_body :: "MisraGries \<Rightarrow> bytes" where
  "MG_body m =
     le_put 4 (length (counters m))
     @ concat (map (\<lambda>k. enc_entry (k, mget 0 (counters m) k)) (sort (map fst (counters m))))"

fun check_counters :: "(bytes, int) gomap \<Rightarrow> sketch_error option" where
  "check_counters [] = None"
| "check_counters (p # cs) =
     (if length (fst p) > MaxMGKeyBytes then Some ErrTooLarge
      else if snd p < 1 \<or> snd p > maxMGCount then Some ErrMalformed
      else check_counters cs)"

definition MG_MarshalBinary :: "MisraGries \<Rightarrow> (sketch_error, bytes) result" where
  "MG_MarshalBinary m =
     (if mk m < 1 then Inl ErrMalformed
      else if mtotal m < 0 \<or> mtotal m > maxMGCount then Inl ErrMalformed
      else case check_counters (counters m) of
             Some e \<Rightarrow> Inl e
           | None \<Rightarrow> EncodeHeader (MG_Header m) (MG_body m))"

text \<open>Pass 1 over the entries of the body.\<close>

fun walk_entries :: "bytes \<Rightarrow> nat \<Rightarrow> bytes option \<Rightarrow> nat \<Rightarrow> (sketch_error, nat) result" where
  "walk_entries body 0 prev off = Inr off"
| "walk_entries body (Suc n) prev off =
     (if off + 2 > length body then Inl ErrTruncated
      else let keyLen = le_get (gslice body off (off + 2)) in
        if keyLen < 1 \<or> keyLen > MaxMGKeyBytes then Inl ErrMalformed
        else if off + 2 + keyLen + 8 > length body then Inl ErrTruncated
        else let key = gslice body (off + 2) (off + 2 + keyLen) in
          if (case prev of None \<Rightarrow> False | Some p \<Rightarrow> p \<ge> key) then Inl ErrMalformed
          else let cnt = int64 (int (le_get (gslice body (off + 2 + keyLen) (off + 2 + keyLen + 8)))) in
            if cnt < 1 \<or> cnt > maxMGCount then Inl ErrMalformed
            else walk_entries body n (Some key) (off + 2 + keyLen + 8))"

text \<open>Pass 2: fill the map.\<close>

fun read_entries :: "bytes \<Rightarrow> nat \<Rightarrow> nat \<Rightarrow> (bytes \<times> int) list" where
  "read_entries body 0 p = []"
| "read_entries body (Suc n) p =
     (let keyLen = le_get (gslice body p (p + 2)); e = p + 2 + keyLen
      in (gslice body (p + 2) e, int64 (int (le_get (gslice body e (e + 8))))) # read_entries body n (e + 8))"

definition MG_decodeV1 :: "Header \<Rightarrow> bytes \<Rightarrow> (sketch_error, MisraGries) result" where
  "MG_decodeV1 h body =
     (case MustParamInt h (lit ''k'') 1 MaxMGCounters of Inl e \<Rightarrow> Inl e | Inr k \<Rightarrow>
      case MustParamInt h (lit ''err'') 0 maxMGCount of Inl e \<Rightarrow> Inl e | Inr errBound \<Rightarrow>
      if uint (h_Count h) > maxMGCount then Inl ErrMalformed
      else if length body < 4 then Inl ErrTruncated
      else let declared = le_get (gslice body 0 4) in
        if int declared > k then Inl ErrMalformed
        else case walk_entries body declared None 4 of Inl e \<Rightarrow> Inl e | Inr off \<Rightarrow>
          if off \<noteq> length body then Inl ErrTruncated
          else Inr \<lparr>mk = k, counters = foldl (\<lambda>cs p. mput (fst p) (snd p) cs) [] (read_entries body declared 4),
                    mtotal = uint (h_Count h), merr = errBound, mcreated = h_Created h\<rparr>)"

definition MG_UnmarshalBinary :: "bytes \<Rightarrow> (sketch_error, MisraGries) result" where
  "MG_UnmarshalBinary data = unmarshal_frame KindMisraGries MG_decodeV1 data"

section \<open>The contract of a counter summary\<close>

text \<open>
  \<open>rel s f\<close> says that \<open>s\<close> summarises a stream in which the key \<open>x\<close> has the weight \<open>f x\<close>.
\<close>

locale counter_summary =
  fixes budget :: "'s \<Rightarrow> int"
    and cnt :: "'s \<Rightarrow> 'k \<Rightarrow> int"
    and err :: "'s \<Rightarrow> int"
    and tot :: "'s \<Rightarrow> int"
    and rel :: "'s \<Rightarrow> ('k \<Rightarrow> int) \<Rightarrow> bool"
    and add :: "'s \<Rightarrow> 'k \<times> int \<Rightarrow> 's"
    and norm :: "'k \<Rightarrow> 'k"
    and limit :: int
  assumes budget_pos: "rel s f \<Longrightarrow> 0 < budget s"
    and lower: "rel s f \<Longrightarrow> cnt s x \<le> f x"
    and upper: "rel s f \<Longrightarrow> f x \<le> cnt s x + err s"
    and err_share: "rel s f \<Longrightarrow> err s * (budget s + 1) \<le> tot s"
    and add_rel: "rel s f \<Longrightarrow> 0 < n \<Longrightarrow> tot s + n \<le> limit \<Longrightarrow>
        rel (add s (k, n)) (f(norm k := f (norm k) + n)) \<and> tot (add s (k, n)) = tot s + n
        \<and> budget (add s (k, n)) = budget s"
begin

text \<open>A key with more than its share of the stream has a positive counter.\<close>

lemma retained:
  assumes "rel s f" and "tot s < f x * (budget s + 1)"
  shows "0 < cnt s x"
proof (rule ccontr)
  assume "\<not> 0 < cnt s x"
  then have "f x \<le> err s" using upper [OF assms(1), of x] by simp
  then have "f x * (budget s + 1) \<le> err s * (budget s + 1)"
    using budget_pos [OF assms(1)] by (intro mult_right_mono) simp_all
  then show False using err_share [OF assms(1)] assms(2) by simp
qed

lemma fold_rel:
  assumes "rel s f" and "\<forall>p \<in> set st. 0 < snd p" and "tot s + sum_list (map snd st) \<le> limit"
  shows "rel (foldl add s st) (\<lambda>x. f x + sum_list (map snd (filter (\<lambda>p. norm (fst p) = x) st)))
    \<and> tot (foldl add s st) = tot s + sum_list (map snd st) \<and> budget (foldl add s st) = budget s"
  using assms
proof (induction st arbitrary: s f)
  case Nil
  then show ?case by simp
next
  case (Cons p st)
  obtain k n where p: "p = (k, n)" by (cases p)
  have nn: "0 \<le> sum_list (map snd st)" using Cons.prems(2) by (intro sum_list_nonneg) auto
  note a = add_rel [OF Cons.prems(1), of n k]
  have a': "rel (add s (k, n)) (f(norm k := f (norm k) + n))" "tot (add s (k, n)) = tot s + n"
    "budget (add s (k, n)) = budget s"
    using a Cons.prems(2,3) nn p by auto
  have "(\<lambda>x. (f(norm k := f (norm k) + n)) x + sum_list (map snd (filter (\<lambda>p. norm (fst p) = x) st)))
      = (\<lambda>x. f x + sum_list (map snd (filter (\<lambda>p. norm (fst p) = x) (p # st))))"
    by (auto simp: p fun_eq_iff)
  then show ?case using Cons.IH [OF a'(1)] a' Cons.prems p by simp
qed

end

section \<open>Arithmetic of the counters\<close>

lemma mgSatTotal_exact:
  assumes "0 \<le> a" and "0 \<le> b" and "a + b \<le> maxMGCount"
  shows "mgSatTotal a b = a + b"
proof -
  have u: "unat (of_int x :: u64) = nat x" if "0 \<le> x" "x \<le> maxMGCount" for x
    using that unat_of_nat [of "nat x", where ?'a = 64] by (simp add: nat_less_iff)
  have "unat (satAdd64 (of_int a) (of_int b)) = nat a + nat b"
    using assms u [of a] u [of b] by (simp add: sat_plus_def nat_add_distrib [symmetric] nat_le_iff)
  moreover have "nat a + nat b \<le> nat maxMGCount" using assms by linarith
  ultimately show ?thesis
    using assms unfolding mgSatTotal_def Let_def word_le_nat_alt u [of maxMGCount, simplified]
    by (simp add: uint_nat del: of_nat_unat)
qed

lemma mgSatCount_exact: "a + b \<le> maxMGCount \<Longrightarrow> mgSatCount a b = a + b"
  by (simp add: mgSatCount_def)

abbreviation cget :: "(bytes, int) gomap \<Rightarrow> bytes \<Rightarrow> int" where
  "cget \<equiv> mget 0"

abbreviation csum :: "(bytes, int) gomap \<Rightarrow> int" where
  "csum cs \<equiv> sum_list (map snd cs)"

lemma map_ok_decrement [simp]: "map_ok cs \<Longrightarrow> map_ok (decrement d cs)"
  by (simp add: decrement_def)

lemma decrement_pos: "p \<in> set (decrement d cs) \<Longrightarrow> 0 < snd p"
  by (auto simp: decrement_def)

lemma cget_decrement: "map_ok cs \<Longrightarrow> 0 \<le> d \<Longrightarrow> cget (decrement d cs) x = max 0 (cget cs x - d)"
proof (induction cs)
  case Nil
  then show ?case by (simp add: decrement_def mget_def)
next
  case (Cons p cs)
  have n: "fst p \<notin> fst ` set cs" using map_ok_distinct [OF Cons.prems(1)] by simp
  then have c0: "map_of cs (fst p) = None" by (simp add: map_of_eq_None_iff)
  have "fst ` set (decrement d cs) \<subseteq> fst ` set cs" by (force simp: decrement_def)
  then have d0: "map_of (decrement d cs) (fst p) = None" using n by (auto simp: map_of_eq_None_iff)
  show ?case using Cons c0 d0 by (auto simp: decrement_def mget_def map_ok_Cons)
qed

lemma length_decrement: "length (decrement d cs) = length (filter (\<lambda>c. d < c) (map snd cs))"
  by (induction cs) (auto simp: decrement_def)

lemma csum_decrement: "csum (decrement d cs) = csum cs - d * int (length cs) - sum_list (map (\<lambda>c. min 0 (c - d)) (map snd cs))"
  by (induction cs) (auto simp: decrement_def algebra_simps)

lemma csum_decrement_le:
  assumes "\<forall>c \<in> set (map snd cs). 0 \<le> c"
  shows "csum (decrement d cs) + d * int (length (filter (\<lambda>c. d \<le> c) (map snd cs))) \<le> csum cs"
  using assms by (induction cs) (auto simp: decrement_def algebra_simps)

text \<open>The element at index \<open>k\<close> of the descending order.\<close>

lemma kth_largest:
  fixes cs :: "int list"
  assumes "k < length cs"
  shows "Suc k \<le> length (filter (\<lambda>c. rev (sort cs) ! k \<le> c) cs)"
    and "length (filter (\<lambda>c. rev (sort cs) ! k < c) cs) \<le> k"
    and "rev (sort cs) ! k \<in> set cs"
proof -
  let ?ys = "rev (sort cs)"
  have l: "length ?ys = length cs" by simp
  have srt: "?ys ! j \<le> ?ys ! i" if "i \<le> j" "j < length cs" for i j
    using that by (simp add: rev_nth sorted_nth_mono)
  have m: "length (filter P ?ys) = length (filter P cs)" for P
    by (metis mset_filter mset_rev mset_sort size_mset)
  have split: "filter P ?ys = filter P (take n ?ys) @ filter P (drop n ?ys)" for P n
    by (metis append_take_drop_id filter_append)
  have "filter (\<lambda>c. ?ys ! k \<le> c) (take (Suc k) ?ys) = take (Suc k) ?ys"
    using srt assms by (auto simp: filter_id_conv in_set_conv_nth)
  then show "Suc k \<le> length (filter (\<lambda>c. ?ys ! k \<le> c) cs)"
    using split [of "\<lambda>c. ?ys ! k \<le> c" "Suc k"] assms l unfolding m [symmetric] by simp
  have "filter (\<lambda>c. ?ys ! k < c) (drop k ?ys) = []"
    using srt assms by (auto simp: filter_empty_conv in_set_conv_nth not_less)
  then have "length (filter (\<lambda>c. ?ys ! k < c) ?ys) \<le> length (take k ?ys)"
    unfolding split [of "\<lambda>c. ?ys ! k < c" k]
    using length_filter_le [of "\<lambda>c. ?ys ! k < c" "take k ?ys"] by simp
  then show "length (filter (\<lambda>c. ?ys ! k < c) cs) \<le> k" unfolding m by simp
  have "?ys ! k \<in> set ?ys" using assms by (intro nth_mem) simp
  then show "?ys ! k \<in> set cs" by simp
qed

section \<open>The error bound\<close>

definition MG_wf :: "MisraGries \<Rightarrow> bool" where
  "MG_wf m \<longleftrightarrow> 1 \<le> mk m \<and> mk m \<le> MaxMGCounters \<and> map_ok (counters m)
     \<and> int (length (counters m)) \<le> mk m
     \<and> (\<forall>p \<in> set (counters m). 1 \<le> snd p \<and> snd p \<le> maxMGCount \<and> length (fst p) \<le> MaxMGKeyBytes)
     \<and> 0 \<le> merr m \<and> 0 \<le> mtotal m \<and> mtotal m \<le> maxMGCount"

definition MG_rel :: "MisraGries \<Rightarrow> (bytes \<Rightarrow> int) \<Rightarrow> bool" where
  "MG_rel m f \<longleftrightarrow> MG_wf m \<and> (\<forall>x. cget (counters m) x \<le> f x \<and> f x \<le> cget (counters m) x + merr m)
     \<and> csum (counters m) + (mk m + 1) * merr m \<le> mtotal m"

definition trunc_key :: "bytes \<Rightarrow> bytes" where
  "trunc_key key = take MaxMGKeyBytes key"

lemma trunc_key_if: "(if length key > MaxMGKeyBytes then take MaxMGKeyBytes key else key) = trunc_key key"
  by (simp add: trunc_key_def)

lemma length_trunc_key [simp]: "length (trunc_key key) \<le> MaxMGKeyBytes"
  by (simp add: trunc_key_def)

lemma mput_entries: "p \<in> set (mput k v cs) \<Longrightarrow> p = (k, v) \<or> p \<in> set cs"
  using set_mput_subset [of k v cs] by auto

lemma cget_le_csum:
  assumes "\<forall>p \<in> set cs. 1 \<le> snd p"
  shows "cget cs x \<le> csum cs" and "0 \<le> csum cs"
proof -
  show n: "0 \<le> csum cs" using assms by (intro sum_list_nonneg) auto
  show "cget cs x \<le> csum cs"
  proof (cases "map_of cs x")
    case None
    then show ?thesis using n by (simp add: mget_def)
  next
    case (Some c)
    then have "c \<in> set (map snd cs)" by (force dest: map_of_SomeD)
    then have "c \<le> csum cs" using assms by (intro member_le_sum_list) auto
    then show ?thesis using Some by (simp add: mget_def)
  qed
qed

lemma cget_nonneg: "\<forall>p \<in> set cs. 1 \<le> snd p \<Longrightarrow> 0 \<le> cget cs x"
  by (cases "map_of cs x") (force simp: mget_def dest: map_of_SomeD)+

lemma foldl_min_snd:
  fixes n :: int
  shows "foldl (\<lambda>d p. if snd p < d then snd p else d) n cs = Min (insert n (snd ` set cs))"
proof (induction cs arbitrary: n)
  case Nil
  then show ?case by simp
next
  case (Cons p cs)
  have "(if snd p < n then snd p else n) = min (snd p) n" by auto
  then have "foldl (\<lambda>d p. if snd p < d then snd p else d) n (p # cs) = Min (insert (min (snd p) n) (snd ` set cs))"
    using Cons by simp
  also have "\<dots> = Min (insert n (insert (snd p) (snd ` set cs)))"
    by (cases "set cs = {}") (auto simp: min.assoc min.commute min.left_commute)
  finally show ?case by simp
qed

lemma filter_all_le:
  assumes "\<forall>c \<in> set cs. d \<le> (c :: int)"
  shows "filter (\<lambda>c. d \<le> c) cs = cs"
  using assms by (simp add: filter_id_conv)

text \<open>The three cases of \<open>Add\<close>.\<close>

lemma MG_rel_csum: "MG_rel m f \<Longrightarrow> csum (counters m) \<le> mtotal m \<and> merr m \<le> mtotal m"
proof -
  assume r: "MG_rel m f"
  then have w: "1 \<le> mk m" "0 \<le> merr m" and e: "csum (counters m) + (mk m + 1) * merr m \<le> mtotal m"
    and p: "\<forall>p \<in> set (counters m). 1 \<le> snd p"
    by (auto simp: MG_rel_def MG_wf_def)
  have c: "0 \<le> csum (counters m)" using cget_le_csum(2) [OF p] .
  have "1 * merr m \<le> (mk m + 1) * merr m" using w by (intro mult_right_mono) auto
  then show ?thesis using c e w by linarith
qed

lemma MG_Add_known:
  assumes rel: "MG_rel m f" and n: "0 < n" "mtotal m + n \<le> maxMGCount"
    and c: "map_of (counters m) (trunc_key key) = Some c"
  shows "MG_Add m key n = m\<lparr>mtotal := mtotal m + n, counters := mput (trunc_key key) (c + n) (counters m)\<rparr>"
proof -
  have w: "1 \<le> mk m" "0 \<le> mtotal m" using rel by (simp_all add: MG_rel_def MG_wf_def)
  have "c \<le> mtotal m"
    using cget_le_csum(1) [of "counters m" "trunc_key key"] MG_rel_csum [OF rel] rel c
    by (auto simp: mget_def MG_rel_def MG_wf_def)
  then show ?thesis
    using n w c unfolding MG_Add_def trunc_key_if Let_def
    by (simp add: mgSatTotal_exact mgSatCount_exact)
qed

lemma MG_Add_room:
  assumes rel: "MG_rel m f" and n: "0 < n" "mtotal m + n \<le> maxMGCount"
    and c: "map_of (counters m) (trunc_key key) = None" and r: "int (length (counters m)) < mk m"
  shows "MG_Add m key n = m\<lparr>mtotal := mtotal m + n, counters := mput (trunc_key key) n (counters m)\<rparr>"
proof -
  have w: "1 \<le> mk m" "0 \<le> mtotal m" using rel by (simp_all add: MG_rel_def MG_wf_def)
  then show ?thesis
    using n c r unfolding MG_Add_def trunc_key_if Let_def by (simp add: mgSatTotal_exact)
qed

lemma MG_Add_full:
  assumes rel: "MG_rel m f" and n: "0 < n" "mtotal m + n \<le> maxMGCount"
    and c: "map_of (counters m) (trunc_key key) = None" and r: "\<not> int (length (counters m)) < mk m"
    and d: "d = Min (insert n (snd ` set (counters m)))"
  shows "MG_Add m key n = m\<lparr>mtotal := mtotal m + n,
      counters := (if n - d > 0 then mput (trunc_key key) (n - d) (decrement d (counters m))
                   else decrement d (counters m)), merr := merr m + d\<rparr>"
proof -
  have w: "1 \<le> mk m" "0 \<le> mtotal m" "0 \<le> merr m" using rel by (simp_all add: MG_rel_def MG_wf_def)
  have dn: "d \<le> n" "1 \<le> d" using d n rel by (auto simp: MG_rel_def MG_wf_def)
  have "merr m + d \<le> maxMGCount" using MG_rel_csum [OF rel] dn n by linarith
  then show ?thesis
    using n w c r dn unfolding MG_Add_def trunc_key_if Let_def foldl_min_snd d [symmetric]
    by (auto simp: mgSatTotal_exact)
qed

lemma MG_relD:
  assumes "MG_rel m f"
  shows "1 \<le> mk m" "mk m \<le> MaxMGCounters" "map_ok (counters m)" "int (length (counters m)) \<le> mk m"
    "\<And>p. p \<in> set (counters m) \<Longrightarrow> 1 \<le> snd p \<and> snd p \<le> maxMGCount \<and> length (fst p) \<le> MaxMGKeyBytes"
    "0 \<le> merr m" "0 \<le> mtotal m" "mtotal m \<le> maxMGCount"
    "\<And>x. cget (counters m) x \<le> f x" "\<And>x. f x \<le> cget (counters m) x + merr m"
    "csum (counters m) + (mk m + 1) * merr m \<le> mtotal m"
  using assms by (auto simp: MG_rel_def MG_wf_def)

lemma MG_Add_rel:
  assumes rel: "MG_rel m f" and n: "0 < n" "mtotal m + n \<le> maxMGCount"
  shows "MG_rel (MG_Add m key n) (f(trunc_key key := f (trunc_key key) + n))
    \<and> mtotal (MG_Add m key n) = mtotal m + n \<and> mk (MG_Add m key n) = mk m"
proof -
  let ?k = "trunc_key key" and ?cs = "counters m"
  note r = MG_relD [OF rel]
  consider (known) c where "map_of ?cs ?k = Some c"
    | (room) "map_of ?cs ?k = None" "int (length ?cs) < mk m"
    | (full) "map_of ?cs ?k = None" "\<not> int (length ?cs) < mk m"
    by (cases "map_of ?cs ?k") auto
  then show ?thesis
  proof cases
    case known
    note a = MG_Add_known [OF rel n known]
    have g: "cget ?cs ?k = c" using known by (simp add: mget_def)
    have cm: "1 \<le> c" "c \<le> mtotal m"
      using r(5) map_of_SomeD [OF known] cget_le_csum(1) [of ?cs ?k] MG_rel_csum [OF rel] g by fastforce+
    have "length (mput ?k (c + n) ?cs) = length ?cs" using known by (simp add: length_mput r(3))
    moreover have "csum (mput ?k (c + n) ?cs) = csum ?cs + n" using g by (simp add: sum_mput r(3))
    moreover have "\<forall>p \<in> set (mput ?k (c + n) ?cs). 1 \<le> snd p \<and> snd p \<le> maxMGCount \<and> length (fst p) \<le> MaxMGKeyBytes"
      using r(5) cm n by (auto dest!: mput_entries)
    ultimately show ?thesis
      using r n g unfolding a MG_rel_def MG_wf_def by (auto simp: algebra_simps)
  next
    case room
    note a = MG_Add_room [OF rel n room]
    have g: "cget ?cs ?k = 0" using room by (simp add: mget_def)
    have "length (mput ?k n ?cs) = Suc (length ?cs)" using room by (simp add: length_mput r(3))
    moreover have "csum (mput ?k n ?cs) = csum ?cs + n" using g by (simp add: sum_mput r(3))
    moreover have "\<forall>p \<in> set (mput ?k n ?cs). 1 \<le> snd p \<and> snd p \<le> maxMGCount \<and> length (fst p) \<le> MaxMGKeyBytes"
      using r(5,7) n by (auto dest!: mput_entries)
    ultimately show ?thesis
      using r n g room(2) r(9) [of ?k] r(10) [of ?k] unfolding a MG_rel_def MG_wf_def
      by (auto simp: algebra_simps)
  next
    case full
    define d where "d = Min (insert n (snd ` set ?cs))"
    note a = MG_Add_full [OF rel n full d_def]
    have d: "d \<le> n" "1 \<le> d" "\<And>p. p \<in> set ?cs \<Longrightarrow> d \<le> snd p"
      using n r(5) by (auto simp: d_def)
    have len: "int (length ?cs) = mk m" using full(2) r(4) by simp
    let ?ds = "decrement d ?cs" and ?cs' = "if n - d > 0 then mput ?k (n - d) (decrement d ?cs) else decrement d ?cs"
    have ok: "map_ok ?ds" using r(3) by simp
    have gd: "cget ?ds x = max 0 (cget ?cs x - d)" for x using cget_decrement [OF r(3)] d by simp
    have g: "cget ?cs ?k = 0" using full by (simp add: mget_def)
    have gk: "cget ?ds ?k = 0" using gd [of ?k] g d by simp
    have g': "cget ?cs' x = (if x = ?k then n - d else max 0 (cget ?cs x - d))" for x
      using gd gk ok d by auto
    have fl: "filter (\<lambda>c. d \<le> c) (map snd ?cs) = map snd ?cs"
      using d(3) by (intro filter_all_le) auto
    have sd: "csum ?ds + d * mk m \<le> csum ?cs"
      using csum_decrement_le [of ?cs d] r(5) unfolding fl length_map len by force
    have s': "csum ?cs' = csum ?ds + (n - d)"
      using d gk ok by (auto simp: sum_mput)
    have ent: "\<forall>p \<in> set ?ds. 1 \<le> snd p \<and> snd p \<le> maxMGCount \<and> length (fst p) \<le> MaxMGKeyBytes"
      using r(5) d by (fastforce simp: decrement_def)
    have ent': "\<forall>p \<in> set ?cs'. 1 \<le> snd p \<and> snd p \<le> maxMGCount \<and> length (fst p) \<le> MaxMGKeyBytes"
      using ent r(7) d n by (auto dest!: mput_entries split: if_splits)
    have len': "int (length ?cs') \<le> mk m"
    proof (cases "n - d > 0")
      case True
      have "d \<in> insert n (snd ` set ?cs)" unfolding d_def by (intro Min_in) simp_all
      then have "d \<in> set (map snd ?cs)" using True by simp
      then have "length ?ds < length ?cs"
        unfolding length_decrement using length_filter_less [of d "map snd ?cs" "\<lambda>c. d < c"] by simp
      then have "length (mput ?k (n - d) ?ds) \<le> length ?cs" by (simp add: length_mput ok)
      then show ?thesis using True len by simp
    next
      case False
      have "length ?ds \<le> length ?cs"
        unfolding length_decrement using length_filter_le [of "\<lambda>c. d < c" "map snd ?cs"] by simp
      then show ?thesis using False len by simp
    qed
    have nn: "0 \<le> cget ?cs x" for x using cget_nonneg [of ?cs x] r(5) by force
    have b: "cget ?cs' x \<le> (f(?k := f ?k + n)) x
        \<and> (f(?k := f ?k + n)) x \<le> cget ?cs' x + (merr m + d)" for x
      using r(9) [of x] r(10) [of x] nn [of x] d g unfolding g' by (auto simp: max_def)
    have "csum ?cs' + (mk m + 1) * (merr m + d) \<le> mtotal m + n"
      using r(11) sd unfolding s' by (simp add: algebra_simps)
    then show ?thesis
      using r n d len' ent' b ok unfolding a MG_rel_def MG_wf_def by simp
  qed
qed

lemma NewMisraGries_rel: "MG_rel (NewMisraGries k) (\<lambda>x. 0)"
  using clampInt_range [of 1 MaxMGCounters k]
  by (simp add: MG_rel_def MG_wf_def NewMisraGries_def mget_def)

interpretation mg: counter_summary mk "\<lambda>m. cget (counters m)" merr mtotal MG_rel
    "\<lambda>m p. MG_Add m (fst p) (snd p)" trunc_key maxMGCount
proof unfold_locales
  fix m f
  assume rel: "MG_rel m f"
  note r = MG_relD [OF rel]
  show "0 < mk m" using r(1) by simp
  show "cget (counters m) x \<le> f x" "f x \<le> cget (counters m) x + merr m" for x by (rule r)+
  have "0 \<le> csum (counters m)" using cget_le_csum(2) [of "counters m"] r(5) by blast
  then show "merr m * (mk m + 1) \<le> mtotal m" using r(11) by (simp add: mult.commute)
  show "MG_rel (MG_Add m (fst (k, n)) (snd (k, n))) (f(trunc_key k := f (trunc_key k) + n))
      \<and> mtotal (MG_Add m (fst (k, n)) (snd (k, n))) = mtotal m + n \<and> mk (MG_Add m (fst (k, n)) (snd (k, n))) = mk m"
    if "0 < n" "mtotal m + n \<le> maxMGCount" for k n
    using MG_Add_rel [OF rel that] by simp
qed

definition MG_run :: "MisraGries \<Rightarrow> (bytes \<times> int) list \<Rightarrow> MisraGries" where
  "MG_run m st = foldl (\<lambda>m p. MG_Add m (fst p) (snd p)) m st"

text \<open>The weight of a key in a stream; weights that are not positive are ignored.\<close>

definition MG_true :: "(bytes \<times> int) list \<Rightarrow> bytes \<Rightarrow> int" where
  "MG_true st x = sum_list (map snd (filter (\<lambda>p. trunc_key (fst p) = x) (filter (\<lambda>p. 0 < snd p) st)))"

definition MG_mass :: "(bytes \<times> int) list \<Rightarrow> int" where
  "MG_mass st = sum_list (map snd (filter (\<lambda>p. 0 < snd p) st))"

lemma MG_mass_nonneg: "0 \<le> MG_mass st"
  unfolding MG_mass_def by (intro sum_list_nonneg) auto

lemma MG_run_positive: "MG_run m st = MG_run m (filter (\<lambda>p. 0 < snd p) st)"
  by (induction st arbitrary: m) (auto simp: MG_run_def MG_Add_def)

lemma MG_run_rel:
  assumes "MG_mass st \<le> maxMGCount"
  shows "MG_rel (MG_run (NewMisraGries k) st) (MG_true st)
    \<and> mtotal (MG_run (NewMisraGries k) st) = MG_mass st
    \<and> mk (MG_run (NewMisraGries k) st) = clampInt k 1 MaxMGCounters"
proof -
  let ?st = "filter (\<lambda>p. 0 < snd p) st"
  have "mtotal (NewMisraGries k) + sum_list (map snd ?st) \<le> maxMGCount"
    using assms by (simp add: NewMisraGries_def MG_mass_def)
  from mg.fold_rel [OF NewMisraGries_rel _ this]
  have "MG_rel (MG_run (NewMisraGries k) ?st) (\<lambda>x. 0 + sum_list (map snd (filter (\<lambda>p. trunc_key (fst p) = x) ?st)))
    \<and> mtotal (MG_run (NewMisraGries k) ?st) = mtotal (NewMisraGries k) + sum_list (map snd ?st)
    \<and> mk (MG_run (NewMisraGries k) ?st) = mk (NewMisraGries k)"
    unfolding MG_run_def by simp
  moreover have "MG_true st = (\<lambda>x. 0 + sum_list (map snd (filter (\<lambda>p. trunc_key (fst p) = x) ?st)))"
    by (simp add: MG_true_def fun_eq_iff)
  ultimately show ?thesis
    unfolding MG_run_positive [of _ st] by (simp add: MG_mass_def NewMisraGries_def)
qed

text \<open>C25. The Misra-Gries guarantee, for every stream whose total weight stays below the
  saturation ceiling: the total is exact, every reported count is a lower bound on the key's true
  weight and short of it by at most the recorded error, the error is at most total/(k+1), and
  every key with more than that share of the stream is still in the table.\<close>

theorem MG_error_bound:
  assumes "MG_mass st \<le> maxMGCount" and "m = MG_run (NewMisraGries k) st"
  shows "mtotal m = MG_mass st \<and> cget (counters m) x \<le> MG_true st x
    \<and> MG_true st x - merr m \<le> cget (counters m) x \<and> merr m * (mk m + 1) \<le> mtotal m
    \<and> (mtotal m < MG_true st x * (mk m + 1) \<longrightarrow> x \<in> fst ` set (counters m))"
proof -
  have rel: "MG_rel m (MG_true st)" and t: "mtotal m = MG_mass st"
    using MG_run_rel [OF assms(1), of k] by (simp_all add: assms(2))
  have "x \<in> fst ` set (counters m)" if "0 < cget (counters m) x"
    using that by (cases "map_of (counters m) x") (force simp: mget_def dest: map_of_SomeD)+
  then show ?thesis
    using t mg.lower [OF rel, of x] mg.upper [OF rel, of x] mg.err_share [OF rel] mg.retained [OF rel, of x]
    by linarith
qed

theorem MG_error_bound_witness:
  "cget (counters (MG_run (NewMisraGries 1) [([7], 5), ([8], 2)])) [7] \<le> 5
    \<and> [7] \<in> fst ` set (counters (MG_run (NewMisraGries 1) [([7], 5), ([8], 2)]))"
proof -
  let ?st = "[([7], 5), ([8], 2)] :: (bytes \<times> int) list"
  have m: "MG_mass ?st = 7" and t: "MG_true ?st [7] = 5"
    by (simp_all add: MG_mass_def MG_true_def trunc_key_def)
  have k: "mk (MG_run (NewMisraGries 1) ?st) = 1"
    using MG_run_rel [of ?st 1] by (simp add: m clampInt_def)
  show ?thesis using MG_error_bound [of ?st "MG_run (NewMisraGries 1) ?st" 1 "[7]"] by (simp add: m t k)
qed

section \<open>Merging\<close>

lemma MG_merge_counters:
  assumes "map_ok cs" and "map_ok os"
    and "\<forall>p \<in> set cs. 1 \<le> snd p \<and> length (fst p) \<le> MaxMGKeyBytes"
    and "\<forall>p \<in> set os. 1 \<le> snd p \<and> length (fst p) \<le> MaxMGKeyBytes"
    and "csum cs + csum os \<le> maxMGCount"
  shows "let R = foldl (\<lambda>cs p. mput (fst p) (mgSatCount (mget 0 cs (fst p)) (snd p)) cs) cs os
    in map_ok R \<and> (\<forall>x. cget R x = cget cs x + cget os x) \<and> csum R = csum cs + csum os
       \<and> (\<forall>p \<in> set R. 1 \<le> snd p \<and> length (fst p) \<le> MaxMGKeyBytes)"
  using assms
proof (induction os arbitrary: cs)
  case Nil
  then show ?case by (simp add: mget_def)
next
  case (Cons p os)
  let ?v = "mgSatCount (cget cs (fst p)) (snd p)"
  let ?cs = "mput (fst p) ?v cs"
  have os0: "0 \<le> csum os" using Cons.prems(4) by (intro cget_le_csum(2)) auto
  have le: "cget cs (fst p) + snd p \<le> maxMGCount"
    using cget_le_csum(1) [of cs "fst p"] Cons.prems(3,5) os0 by fastforce
  then have v: "?v = cget cs (fst p) + snd p" by (rule mgSatCount_exact)
  have vp: "1 \<le> ?v" using v cget_nonneg [of cs "fst p"] Cons.prems(3,4) by force
  have s: "csum ?cs = csum cs + snd p" using v Cons.prems(1) by (simp add: sum_mput)
  have ent: "\<forall>q \<in> set ?cs. 1 \<le> snd q \<and> length (fst q) \<le> MaxMGKeyBytes"
    using Cons.prems(3,4) vp by (auto dest!: mput_entries)
  have n: "map_of os (fst p) = None"
    using map_ok_distinct [OF Cons.prems(2)] by (simp add: map_of_eq_None_iff)
  have g: "cget (p # os) x = (if x = fst p then snd p else cget os x)" for x by (simp add: mget_def)
  have "cget os (fst p) = 0" using n by (simp add: mget_def)
  then have gx: "cget ?cs x + cget os x = cget cs x + cget (p # os) x" for x
    unfolding g using v Cons.prems(1) by auto
  have "map_ok os" "csum ?cs + csum os \<le> maxMGCount"
    using Cons.prems s by (auto simp: map_ok_Cons)
  from Cons.IH [OF map_ok_mput [OF Cons.prems(1)] this(1) ent _ this(2)] Cons.prems(4)
  show ?case unfolding Let_def foldl_Cons gx using s by simp
qed

lemma MG_MergeFrom_rel:
  assumes a: "MG_rel m f" and b: "MG_rel s g" and k: "mk s = mk m" and t: "mtotal m + mtotal s \<le> maxMGCount"
  shows "\<exists>r. MG_MergeFrom m (Some s) = Inr r \<and> MG_rel r (\<lambda>x. f x + g x)
    \<and> mtotal r = mtotal m + mtotal s \<and> mk r = mk m"
proof -
  note ra = MG_relD [OF a] and rb = MG_relD [OF b]
  define R where "R = foldl (\<lambda>cs p. mput (fst p) (mgSatCount (mget 0 cs (fst p)) (snd p)) cs) (counters m) (counters s)"
  have cs: "csum (counters m) + csum (counters s) \<le> maxMGCount"
    using MG_rel_csum [OF a] MG_rel_csum [OF b] t by linarith
  have R: "map_ok R" "\<And>x. cget R x = cget (counters m) x + cget (counters s) x"
    "csum R = csum (counters m) + csum (counters s)"
    "\<And>p. p \<in> set R \<Longrightarrow> 1 \<le> snd p \<and> length (fst p) \<le> MaxMGKeyBytes"
    using MG_merge_counters [OF ra(3) rb(3) _ _ cs] ra(5) rb(5) unfolding R_def [symmetric] Let_def by blast+
  have Rle: "snd p \<le> maxMGCount" if "p \<in> set R" for p
  proof -
    have "snd p \<le> csum R" using that R(4) by (intro member_le_sum_list) force+
    then show ?thesis using R(3) cs by linarith
  qed
  define d where "d = (if int (length R) > mk m then rev (sort (map snd R)) ! nat (mk m) else 0)"
  define C where "C = (if int (length R) > mk m then decrement d R else R)"
  have facts: "0 \<le> d \<and> map_ok C \<and> int (length C) \<le> mk m
    \<and> (\<forall>p \<in> set C. 1 \<le> snd p \<and> snd p \<le> maxMGCount \<and> length (fst p) \<le> MaxMGKeyBytes)
    \<and> (\<forall>x. cget C x = max 0 (cget R x - d)) \<and> csum C + (mk m + 1) * d \<le> csum R"
  proof (cases "int (length R) > mk m")
    case False
    then show ?thesis using R Rle cget_nonneg [of R] by (auto simp: d_def C_def)
  next
    case True
    then have kl: "nat (mk m) < length (map snd R)" using ra(1) by simp
    have dd: "d = rev (sort (map snd R)) ! nat (mk m)" using True by (simp add: d_def)
    note kth = kth_largest [OF kl, folded dd]
    have d1: "1 \<le> d" using kth(3) R(4) by auto
    have len: "int (length (decrement d R)) \<le> mk m"
      using kth(2) ra(1) unfolding length_decrement by linarith
    have "d * (mk m + 1) \<le> d * int (length (filter (\<lambda>c. d \<le> c) (map snd R)))"
      using kth(1) d1 ra(1) by (intro mult_left_mono) linarith+
    then have sm: "csum (decrement d R) + (mk m + 1) * d \<le> csum R"
      using csum_decrement_le [of R d] R(4) by (force simp: mult.commute)
    have "\<forall>p \<in> set (decrement d R). 1 \<le> snd p \<and> snd p \<le> maxMGCount \<and> length (fst p) \<le> MaxMGKeyBytes"
      using R(4) Rle d1 by (fastforce simp: decrement_def)
    then show ?thesis using True d1 len sm R(1) cget_decrement [OF R(1), of d] by (simp add: C_def)
  qed
  let ?e = "merr m + d + merr s"
  have mk1: "d \<le> (mk m + 1) * d" using facts ra(1) mult_right_mono [of 1 "mk m + 1" d] by simp
  have C0: "0 \<le> csum C" using facts by (intro cget_le_csum(2)) blast
  have small: "0 \<le> ?e" "?e < 2 ^ 63" "0 \<le> merr m + d" "merr m + d < 2 ^ 63"
    using facts ra(6) rb(6) mk1 C0 R(3) MG_rel_csum [OF a] MG_rel_csum [OF b] t cs by simp_all
  define r where "r = m\<lparr>counters := C, mtotal := mtotal m + mtotal s, merr := ?e\<rparr>"
  have e: "(if int (length R) > mk m
      then (decrement (rev (sort (map snd R)) ! nat (mk m)) R, int64 (merr m + rev (sort (map snd R)) ! nat (mk m)))
      else (R, merr m)) = (C, merr m + d)"
  proof (cases "int (length R) > mk m")
    case True
    then have "rev (sort (map snd R)) ! nat (mk m) = d" by (simp add: d_def)
    then show ?thesis using True small by (simp only: if_True C_def) simp
  next
    case False
    then show ?thesis by (simp add: C_def d_def)
  qed
  have "MG_MergeFrom m (Some s) = Inr r"
    using k small ra(7) rb(7) t unfolding MG_MergeFrom_def option.case Let_def R_def [symmetric] e r_def
    by simp
  moreover have "MG_rel r (\<lambda>x. f x + g x)"
  proof -
    have bd: "cget C x \<le> f x + g x \<and> f x + g x \<le> cget C x + ?e" for x
    proof -
      have "cget C x = max 0 (cget (counters m) x + cget (counters s) x - d)" using facts R(2) by simp
      moreover have "0 \<le> cget (counters m) x" "0 \<le> cget (counters s) x"
        using cget_nonneg ra(5) rb(5) by blast+
      moreover have "0 \<le> d" using facts by simp
      ultimately show ?thesis
        using ra(9) [of x] ra(10) [of x] rb(9) [of x] rb(10) [of x] by linarith
    qed
    have "csum C + (mk m + 1) * ?e \<le> mtotal m + mtotal s"
      using facts R(3) ra(11) rb(11) k by (simp add: algebra_simps)
    then show ?thesis
      using ra rb(7) t facts small bd unfolding MG_rel_def MG_wf_def r_def by simp
  qed
  ultimately show ?thesis by (simp add: r_def)
qed

text \<open>Merging keeps the guarantee: the merge of the summaries of two streams with the same
  budget succeeds and reports lower bounds on the combined weights, short by at most its error,
  which is at most the combined total divided by \<open>k+1\<close>; another budget or a nil source is
  refused.\<close>

theorem MG_merge_bound:
  assumes "MG_mass st + MG_mass st' \<le> maxMGCount"
  shows "\<exists>r. MG_MergeFrom (MG_run (NewMisraGries k) st) (Some (MG_run (NewMisraGries k) st')) = Inr r
    \<and> mtotal r = MG_mass st + MG_mass st'
    \<and> cget (counters r) x \<le> MG_true st x + MG_true st' x
    \<and> MG_true st x + MG_true st' x - merr r \<le> cget (counters r) x
    \<and> merr r * (mk r + 1) \<le> mtotal r \<and> int (length (counters r)) \<le> mk r
    \<and> MG_MergeFrom r None = Inl ErrShapeMismatch"
proof -
  have m: "MG_mass st \<le> maxMGCount" "MG_mass st' \<le> maxMGCount"
    using assms MG_mass_nonneg [of st] MG_mass_nonneg [of st'] by linarith+
  note a = MG_run_rel [OF m(1), of k] and b = MG_run_rel [OF m(2), of k]
  obtain r where r: "MG_MergeFrom (MG_run (NewMisraGries k) st) (Some (MG_run (NewMisraGries k) st')) = Inr r"
    "MG_rel r (\<lambda>x. MG_true st x + MG_true st' x)" "mtotal r = MG_mass st + MG_mass st'"
    using MG_MergeFrom_rel [of "MG_run (NewMisraGries k) st" "MG_true st" "MG_run (NewMisraGries k) st'" "MG_true st'"]
      a b assms by auto
  show ?thesis
    using r(1,3) mg.lower [OF r(2), of x] mg.upper [OF r(2), of x] mg.err_share [OF r(2)] MG_relD(4) [OF r(2)]
    by (intro exI [of _ r]) (simp add: MG_MergeFrom_def)
qed

theorem MG_merge_bound_witness:
  "\<exists>r. MG_MergeFrom (MG_run (NewMisraGries 1) [([7], 5)]) (Some (MG_run (NewMisraGries 1) [([8], 2)])) = Inr r
    \<and> mtotal r = 7 \<and> 5 - merr r \<le> cget (counters r) [7]"
proof -
  have "MG_mass [([7], 5)] = 5" "MG_mass [([8], 2)] = 2" "MG_true [([7], 5)] [7] = 5" "MG_true [([8], 2)] [7] = 0"
    by (simp_all add: MG_mass_def MG_true_def trunc_key_def)
  then show ?thesis using MG_merge_bound [of "[([7], 5)]" "[([8], 2)]" 1 "[7]"] by auto
qed

section \<open>Reporting\<close>

lemma sortCounted_set: "set (sortCounted c) = set c" "length (sortCounted c) = length c"
  by (simp_all add: sortCounted_def)

definition before :: "bytes \<times> int \<Rightarrow> bytes \<times> int \<Rightarrow> bool" where
  "before p q \<longleftrightarrow> snd q < snd p \<or> (snd p = snd q \<and> fst p \<le> fst q)"

lemma insort_before:
  assumes "sorted_wrt before xs" and "\<forall>x \<in> set xs. fst a \<le> fst x"
  shows "sorted_wrt before (insort_key (\<lambda>p. - snd p) a xs)"
  using assms
proof (induction xs)
  case (Cons x xs)
  show ?case
  proof (cases "snd x \<le> snd a")
    case True
    have "before a y" if "y \<in> set (x # xs)" for y
      using Cons.prems True that by (auto simp: before_def)
    then show ?thesis using Cons.prems True by simp
  next
    case False
    then show ?thesis using Cons by (auto simp: before_def set_insort_key)
  qed
qed simp

lemma sortCounted_sorted: "sorted_wrt before (sortCounted c)"
proof -
  have "sorted_wrt before (sort_key (\<lambda>p. - snd p) c')" if "sorted (map fst c')" for c' :: "(bytes \<times> int) list"
    using that by (induction c') (auto intro!: insort_before)
  then show ?thesis unfolding sortCounted_def by (simp add: sorted_sort_key)
qed

text \<open>\<^verbatim>\<open>Top\<close> is the deterministic ranking its callers rely on: it is ordered by count
  descending and then by key ascending, it lists only entries of the table, all of them when
  \<open>n\<close> is not positive, and when it stops at \<open>n\<close> nothing it leaves out ranks above what it lists.\<close>

theorem MG_Top_ranking:
  "sorted_wrt before (MG_Top m n) \<and> set (MG_Top m n) \<subseteq> set (counters m)
    \<and> length (MG_Top m n) = (if n \<le> 0 then length (counters m) else min (nat n) (length (counters m)))
    \<and> (\<exists>rest. sorted_wrt before (MG_Top m n @ rest) \<and> set (MG_Top m n @ rest) = set (counters m))"
proof -
  let ?s = "sortCounted (counters m)"
  have t: "MG_Top m n = take (if n \<le> 0 then length ?s else nat n) ?s"
    by (auto simp: MG_Top_def Let_def)
  have e: "MG_Top m n @ drop (if n \<le> 0 then length ?s else nat n) ?s = ?s"
    unfolding t by (rule append_take_drop_id)
  have "sorted_wrt before (MG_Top m n @ drop (if n \<le> 0 then length ?s else nat n) ?s)"
    "set (MG_Top m n @ drop (if n \<le> 0 then length ?s else nat n) ?s) = set (counters m)"
    unfolding e by (simp_all only: sortCounted_sorted sortCounted_set)
  moreover have "length (MG_Top m n) = (if n \<le> 0 then length (counters m) else min (nat n) (length (counters m)))"
    unfolding t by (simp add: sortCounted_set min.commute)
  ultimately show ?thesis by (auto simp: sorted_wrt_append)
qed

section \<open>Persistence\<close>

lemma foldl_mput_sorted:
  assumes "map_ok (cs @ ps)"
  shows "foldl (\<lambda>cs p. mput (fst p) (snd p) cs) cs ps = cs @ ps"
  using assms
proof (induction ps arbitrary: cs)
  case (Cons p ps)
  have "mput (fst p) (snd p) cs = cs @ [p]" if "map_ok (cs @ p # ps)" for cs
    using that
  proof (induction cs)
    case (Cons q cs)
    then have "fst q < fst p" by (auto simp: map_ok_Cons)
    then show ?case using Cons by (auto simp: map_ok_Cons not_less_iff_gr_or_eq)
  qed simp
  from this [OF Cons.prems] show ?case using Cons by simp
qed simp

lemma MG_body_sorted:
  assumes "map_ok (counters m)"
  shows "MG_body m = le_put 4 (length (counters m)) @ concat (map enc_entry (counters m))"
proof -
  have s: "sort (map fst (counters m)) = map fst (counters m)"
    using assms by (simp add: map_ok_def strict_sorted_iff sorted_sort_id)
  have "map (\<lambda>k. enc_entry (k, mget 0 (counters m) k)) (map fst (counters m)) = map enc_entry (counters m)"
    using map_ok_distinct [OF assms] by (auto simp: mget_def map_of_is_SomeI)
  then show ?thesis unfolding MG_body_def s by (simp only:)
qed

lemma length_enc_entry [simp]: "length (enc_entry p) = 10 + length (fst p)"
  by (simp add: enc_entry_def)

definition entry_ok :: "bytes \<times> int \<Rightarrow> bool" where
  "entry_ok p \<longleftrightarrow> 1 \<le> length (fst p) \<and> length (fst p) \<le> MaxMGKeyBytes \<and> 1 \<le> snd p \<and> snd p \<le> maxMGCount"

lemma enc_entry_at:
  assumes d: "drop off b = enc_entry p @ rest" and ok: "entry_ok p"
  shows "off + 2 + length (fst p) + 8 \<le> length b"
    and "le_get (gslice b off (off + 2)) = length (fst p)"
    and "gslice b (off + 2) (off + 2 + length (fst p)) = fst p"
    and "int64 (int (le_get (gslice b (off + 2 + length (fst p)) (off + 2 + length (fst p) + 8)))) = snd p"
    and "drop (off + 2 + length (fst p) + 8) b = rest"
proof -
  have d1: "drop off b = le_put 2 (length (fst p)) @ fst p @ le_put 8 (nat (snd p mod 2 ^ 64)) @ rest"
    using d by (simp add: enc_entry_def)
  have o: "1 \<le> length (fst p)" "length (fst p) \<le> 8192" "1 \<le> snd p" "snd p \<le> maxMGCount"
    using ok by (simp_all add: entry_ok_def)
  note s1 = drop_appendD [OF d1]
  note s2 = drop_appendD [OF s1(2)]
  note s3 = drop_appendD [OF s2(2)]
  show "le_get (gslice b off (off + 2)) = length (fst p)" using s1(1) o by simp
  show "gslice b (off + 2) (off + 2 + length (fst p)) = fst p" using s2(1) by simp
  have "nat (snd p mod 2 ^ 64) = nat (snd p)" using o by simp
  then show "int64 (int (le_get (gslice b (off + 2 + length (fst p)) (off + 2 + length (fst p) + 8)))) = snd p"
    using s3(1) o by (simp add: nat_less_iff)
  show "drop (off + 2 + length (fst p) + 8) b = rest" using s3(2) by simp
  have "length (drop off b) = 10 + length (fst p) + length rest" using d by simp
  then show "off + 2 + length (fst p) + 8 \<le> length b" using o by simp
qed

lemma walk_entries_complete:
  assumes "drop off b = concat (map enc_entry ps)" and "list_all entry_ok ps" and "ascending prev (map fst ps)"
    and "off \<le> length b"
  shows "walk_entries b (length ps) prev off = Inr (length b) \<and> read_entries b (length ps) off = ps"
  using assms
proof (induction ps arbitrary: prev off)
  case Nil
  then show ?case by simp
next
  case (Cons p ps)
  have ok: "entry_ok p" and oks: "list_all entry_ok ps" using Cons.prems(2) by auto
  have "drop off b = enc_entry p @ concat (map enc_entry ps)" using Cons.prems(1) by simp
  note at = enc_entry_at [OF this ok]
  let ?o = "off + 2 + length (fst p) + 8"
  have asc: "case prev of None \<Rightarrow> True | Some q \<Rightarrow> q < fst p" "ascending (Some (fst p)) (map fst ps)"
    using Cons.prems(3) by (auto simp: ascending_Cons)
  have ih: "walk_entries b (length ps) (Some (fst p)) ?o = Inr (length b) \<and> read_entries b (length ps) ?o = ps"
    by (rule Cons.IH [OF at(5) oks asc(2) at(1)])
  have notge: "\<not> (case prev of None \<Rightarrow> False | Some q \<Rightarrow> q \<ge> fst p)"
    using asc(1) by (simp add: not_le split: option.splits)
  have "walk_entries b (length (p # ps)) prev off = walk_entries b (length ps) (Some (fst p)) ?o"
    using ok notge at(1) by (simp only: walk_entries.simps length_Cons at(2-4) Let_def) (auto simp: entry_ok_def)
  moreover have "read_entries b (length (p # ps)) off = p # ps"
    using ih by (simp only: read_entries.simps length_Cons at(2-4) Let_def prod.collapse)
  ultimately show ?case using ih by simp
qed

text \<open>What a save needs beyond the invariant: non-empty keys, an error the float parameter holds
  exactly, and a body that fits the frame.\<close>

definition MG_savable :: "MisraGries \<Rightarrow> bool" where
  "MG_savable m \<longleftrightarrow> MG_wf m \<and> (\<forall>p \<in> set (counters m). fst p \<noteq> []) \<and> merr m < 2 ^ 53
     \<and> length (MG_body m) \<le> MaxFrameBytes - 512"

lemma ascending_map_ok: "ascending None (map fst cs) = map_ok cs"
  by (simp add: ascending_def map_ok_def)

lemma MG_header_params:
  "map_of (h_Params (MG_Header m)) (lit ''k'') = Some (f64_of_int (mk m))"
  "map_of (h_Params (MG_Header m)) (lit ''err'') = Some (f64_of_int (merr m))"
  by (simp_all add: MG_Header_def lit_def)

lemma MustParamInt_of_int:
  assumes "map_of (h_Params h) name = Some (f64_of_int i)" and "0 \<le> i" and "i < 2 ^ 53"
  shows "MustParamInt h name lo hi = (if lo \<le> i \<and> i \<le> hi then Inr i else Inl ErrMalformed)"
  using assms MustParamInt_of_nat [of h name "nat i" lo hi] by (simp add: f64_of_int_def nat_less_iff)

lemma uint_of_int_small: "0 \<le> i \<Longrightarrow> i \<le> maxMGCount \<Longrightarrow> uint (of_int i :: u64) = i"
  by (simp add: uint_word_of_int_eq take_bit_int_eq_self)

interpretation mg_codec: sketch_codec MG_Header MG_body MG_decodeV1 KindMisraGries MG_savable
proof unfold_locales
  show "Kind_Valid KindMisraGries"
    by (simp add: Kind_Valid_def KindBloom_def KindMisraGries_def KindMinHash_def)
next
  fix m assume sv: "MG_savable m"
  show "h_Ver (MG_Header m) = FormatVersion" "h_Kind (MG_Header m) = KindMisraGries"
    "length (h_Params (MG_Header m)) \<le> 8"
    by (simp_all add: MG_Header_def)
  show "distinct (map fst (h_Params (MG_Header m)))" by (simp add: MG_Header_def lit_def)
  show "list_all (\<lambda>p. paramNameOK (fst p)) (h_Params (MG_Header m))"
    by (simp add: MG_Header_def lit_def paramNameOK_def paramByteOK_def)
  show "length (MG_body m) \<le> MaxFrameBytes - 512" using sv by (simp add: MG_savable_def)
  fix h assume "same_header (MG_Header m) h"
  then have sh: "h_Count h = of_int (mtotal m)" "h_Created h = mcreated m"
    "map_of (h_Params h) = map_of (h_Params (MG_Header m))"
    by (auto simp: same_header_def MG_Header_def)
  have wf: "MG_wf m" and ne: "\<forall>p \<in> set (counters m). fst p \<noteq> []" and er: "merr m < 2 ^ 53"
    using sv by (simp_all add: MG_savable_def)
  have ok: "map_ok (counters m)" and mk: "1 \<le> mk m" "mk m \<le> MaxMGCounters" and l: "int (length (counters m)) \<le> mk m"
    and e0: "0 \<le> merr m" and t: "0 \<le> mtotal m" "mtotal m \<le> maxMGCount"
    using wf by (simp_all add: MG_wf_def)
  note p = MG_header_params [of m, folded sh(3)]
  have q: "MustParamInt h (lit ''k'') 1 MaxMGCounters = Inr (mk m)"
    "MustParamInt h (lit ''err'') 0 maxMGCount = Inr (merr m)"
    using MustParamInt_of_int [OF p(1), of 1 MaxMGCounters] MustParamInt_of_int [OF p(2), of 0 maxMGCount] mk e0 er
    by simp_all
  let ?b = "MG_body m"
  note b = MG_body_sorted [OF ok]
  have d: "drop 4 ?b = concat (map enc_entry (counters m))" by (simp add: b)
  have l4: "4 \<le> length ?b" by (simp add: b)
  have ents: "list_all entry_ok (counters m)"
    using wf ne by (fastforce simp: list_all_iff entry_ok_def MG_wf_def Suc_le_eq)
  have w: "walk_entries ?b (length (counters m)) None 4 = Inr (length ?b)
      \<and> read_entries ?b (length (counters m)) 4 = counters m"
    by (rule walk_entries_complete [OF d ents _ l4]) (simp add: ascending_map_ok ok)
  have "length (counters m) < 4294967296" using l mk by linarith
  then have dec: "le_get (gslice ?b 0 4) = length (counters m)"
    by (simp add: b gslice_0)
  have put: "foldl (\<lambda>cs p. mput (fst p) (snd p) cs) [] (counters m) = counters m"
    using foldl_mput_sorted [of "[]" "counters m"] ok by simp
  show "MG_decodeV1 h ?b = Inr m"
    using w l4 l t unfolding MG_decodeV1_def q dec Let_def
    by (simp add: sh(1,2) uint_of_int_small put)
qed

lemma check_counters_ok:
  "(\<forall>p \<in> set cs. 1 \<le> snd p \<and> snd p \<le> maxMGCount \<and> length (fst p) \<le> MaxMGKeyBytes) \<Longrightarrow> check_counters cs = None"
  by (induction cs) auto

lemma MG_MarshalBinary_wf: "MG_wf m \<Longrightarrow> MG_MarshalBinary m = EncodeHeader (MG_Header m) (MG_body m)"
  using check_counters_ok [of "counters m"] by (auto simp: MG_MarshalBinary_def MG_wf_def)

text \<open>A summary with non-empty keys survives a save: it marshals, and the frame unmarshals to
  the same counters, total, error bound and creation time.\<close>

theorem MG_marshal_round_trip:
  assumes "MG_savable m"
  shows "\<exists>frame. MG_MarshalBinary m = Inr frame \<and> MG_UnmarshalBinary frame = Inr m"
  using mg_codec.marshal_round_trip [OF assms] MG_MarshalBinary_wf [of m] assms
  by (simp add: MG_UnmarshalBinary_def MG_savable_def)

theorem MG_marshal_round_trip_witness:
  "\<exists>frame. MG_MarshalBinary (MG_run (NewMisraGries 2) [([7], 5)]) = Inr frame
    \<and> MG_UnmarshalBinary frame = Inr (MG_run (NewMisraGries 2) [([7], 5)])"
proof (rule MG_marshal_round_trip)
  have "MG_run (NewMisraGries 2) [([7], 5)]
      = \<lparr>mk = 2, counters = [([7], 5)], mtotal = 5, merr = 0, mcreated = 0\<rparr>"
    using mgSatTotal_exact [of 0 5]
    by (simp add: MG_run_def MG_Add_def NewMisraGries_def clampInt_def)
  then show "MG_savable (MG_run (NewMisraGries 2) [([7], 5)])"
    by (simp add: MG_savable_def MG_wf_def map_ok_def MG_body_def enc_entry_def)
qed

lemma MG_empty_key:
  "MG_Add (NewMisraGries 1) [] 1 = \<lparr>mk = 1, counters = [([], 1)], mtotal = 1, merr = 0, mcreated = 0\<rparr>"
  using mgSatTotal_exact [of 0 1] by (simp add: MG_Add_def NewMisraGries_def clampInt_def)

text \<open>The exception to the round trip: \<^verbatim>\<open>Add\<close> accepts the empty key and \<^verbatim>\<open>MarshalBinary\<close>
  writes it, but \<^verbatim>\<open>decodeV1\<close> refuses a key of length 0, so the saved summary cannot be read
  back.\<close>

theorem MG_empty_key_unreadable:
  "\<exists>frame. MG_MarshalBinary (MG_Add (NewMisraGries 1) [] 1) = Inr frame
    \<and> MG_UnmarshalBinary frame = Inl ErrMalformed"
proof -
  let ?m = "\<lparr>mk = 1, counters = [([], 1)], mtotal = 1, merr = 0, mcreated = 0\<rparr> :: MisraGries"
  have mb: "MG_MarshalBinary ?m = EncodeHeader (MG_Header ?m) (MG_body ?m)"
    by (rule MG_MarshalBinary_wf) (simp add: MG_wf_def map_ok_def)
  have b: "MG_body ?m = le_put 4 1 @ le_put 2 0 @ le_put 8 1"
    by (simp add: MG_body_def enc_entry_def mget_def)
  have n: "list_all (\<lambda>p. paramNameOK (fst p)) (h_Params (MG_Header ?m))" "distinct (map fst (h_Params (MG_Header ?m)))"
    by (simp_all add: MG_Header_def lit_def paramNameOK_def paramByteOK_def)
  have k: "Kind_Valid (h_Kind (MG_Header ?m))"
    by (simp add: MG_Header_def Kind_Valid_def KindBloom_def KindMisraGries_def KindMinHash_def)
  have sz: "minFrameLen + sum_list (map (\<lambda>p. 9 + length (fst p)) (h_Params (MG_Header ?m)))
      + length (MG_body ?m) \<le> MaxFrameBytes"
    by (simp add: MG_Header_def b)
  have v: "h_Ver (MG_Header ?m) = FormatVersion" and few: "length (h_Params (MG_Header ?m)) \<le> maxParams"
    by (simp_all add: MG_Header_def)
  from EncodeHeader_round_trip [OF n(2) v k few n(1) sz]
  obtain frame c where f: "EncodeHeader (MG_Header ?m) (MG_body ?m) = Inr frame" "DecodeHeader frame
     = Inr ((MG_Header ?m)\<lparr>h_Magic := HeaderMagic, h_Params := sorted_params (h_Params (MG_Header ?m)),
         h_CRC32C := c\<rparr>, MG_body ?m)" (is "_ = Inr (?h, _)")
    by blast
  have ps: "map_of (h_Params ?h) = map_of (h_Params (MG_Header ?m))"
    using sorted_params_facts(4) [OF n(2)] by simp
  note p = MG_header_params [of ?m, folded ps]
  have "MustParamInt ?h (lit ''k'') 1 MaxMGCounters = Inr 1" "MustParamInt ?h (lit ''err'') 0 maxMGCount = Inr 0"
    using MustParamInt_of_int [OF p(1), of 1 MaxMGCounters] MustParamInt_of_int [OF p(2), of 0 maxMGCount] by simp_all
  moreover have "le_get (gslice (MG_body ?m) 0 4) = 1" "le_get (gslice (MG_body ?m) 4 6) = 0" "length (MG_body ?m) = 14"
    by (simp_all add: b gslice_def)
  moreover have "uint (h_Count ?h) = 1" by (simp add: MG_Header_def)
  ultimately have "MG_decodeV1 ?h (MG_body ?m) = Inl ErrMalformed"
    by (simp add: MG_decodeV1_def)
  then have "MG_UnmarshalBinary frame = Inl ErrMalformed"
    unfolding MG_UnmarshalBinary_def unmarshal_frame_def f(2)
    by (simp add: MG_Header_def FormatVersion_def)
  then show ?thesis using f(1) mb unfolding MG_empty_key by auto
qed

lemma walk_entries_sound:
  assumes "walk_entries b n prev off = Inr off'"
  shows "list_all entry_ok (read_entries b n off) \<and> ascending prev (map fst (read_entries b n off))
    \<and> length (read_entries b n off) = n"
  using assms
proof (induction n arbitrary: prev off)
  case 0
  then show ?case by simp
next
  case (Suc n)
  let ?l = "le_get (gslice b off (off + 2))"
  let ?k = "gslice b (off + 2) (off + 2 + ?l)"
  let ?c = "int64 (int (le_get (gslice b (off + 2 + ?l) (off + 2 + ?l + 8))))"
  have g: "1 \<le> ?l" "?l \<le> 8192" "off + 2 + ?l + 8 \<le> length b" "1 \<le> ?c" "?c \<le> maxMGCount"
    "\<not> (case prev of None \<Rightarrow> False | Some p \<Rightarrow> p \<ge> ?k)"
    and w: "walk_entries b n (Some ?k) (off + 2 + ?l + 8) = Inr off'"
    using Suc.prems by (auto simp: Let_def not_less Suc_le_eq split: if_splits option.splits)
  have "length ?k = ?l" using g(3) by simp
  then have "entry_ok (?k, ?c)" using g by (simp add: entry_ok_def)
  moreover have "ascending prev (?k # map fst (read_entries b n (off + 2 + ?l + 8)))"
    using Suc.IH [OF w] g(6) by (auto simp: ascending_Cons split: option.splits)
  ultimately show ?case using Suc.IH [OF w] by (simp add: Let_def)
qed

text \<open>Unmarshalling is strict: whatever the bytes, a summary it returns satisfies the
  invariant: at most \<open>k\<close> counters, all positive and below the ceiling, distinct keys.\<close>

theorem MG_unmarshal_strict:
  assumes "MG_UnmarshalBinary data = Inr m"
  shows "MG_wf m"
proof -
  obtain h body where "MG_decodeV1 h body = Inr m"
    using assms unfolding MG_UnmarshalBinary_def by (rule unmarshal_frame_OkD)
  then obtain off where k: "MustParamInt h (lit ''k'') 1 MaxMGCounters = Inr (mk m)"
    and e: "MustParamInt h (lit ''err'') 0 maxMGCount = Inr (merr m)"
    and t: "mtotal m = uint (h_Count h)" "uint (h_Count h) \<le> maxMGCount"
    and d: "int (le_get (gslice body 0 4)) \<le> mk m"
    and w: "walk_entries body (le_get (gslice body 0 4)) None 4 = Inr off"
    and c: "counters m = foldl (\<lambda>cs p. mput (fst p) (snd p) cs) [] (read_entries body (le_get (gslice body 0 4)) 4)"
    by (auto simp: MG_decodeV1_def Let_def split: sum.splits if_splits)
  let ?ps = "read_entries body (le_get (gslice body 0 4)) 4"
  have s: "list_all entry_ok ?ps" "map_ok ?ps" "length ?ps = le_get (gslice body 0 4)"
    using walk_entries_sound [OF w] by (simp_all add: ascending_map_ok)
  have "counters m = ?ps" using foldl_mput_sorted [of "[]" ?ps] s(2) c by simp
  then show ?thesis
    using s d t MustParamInt_range [OF k] MustParamInt_range [OF e]
    unfolding MG_wf_def by (auto simp: list_all_iff entry_ok_def)
qed

theorem MG_unmarshal_strict_witness:
  "\<exists>data m. MG_UnmarshalBinary data = Inr m \<and> mk m = 3 \<and> MG_wf m"
proof -
  have "MG_savable (NewMisraGries 3)" and k: "mk (NewMisraGries 3) = 3"
    by (simp_all add: MG_savable_def MG_wf_def NewMisraGries_def clampInt_def MG_body_def)
  then obtain frame where "MG_UnmarshalBinary frame = Inr (NewMisraGries 3)"
    using mg_codec.marshal_round_trip unfolding MG_UnmarshalBinary_def by blast
  with MG_unmarshal_strict k show ?thesis by blast
qed

end
