(* ===== verification/HeavyHitters.thy ===== *)
theory HeavyHitters
  imports CountMin MisraGries
begin

text \<open>
  \<^verbatim>\<open>CMS.HeavyHitters\<close>: the keys of a Misra-Gries summary with the estimates of a Count-Min table.
  One sketch cannot invent a key and the other cannot lose an occurrence.
\<close>

definition HeavyHitters :: "CMS \<Rightarrow> MisraGries option \<Rightarrow> int \<Rightarrow> (bytes \<times> int) list" where
  "HeavyHitters c mg n =
     (case mg of None \<Rightarrow> []
      | Some m \<Rightarrow>
          if n \<le> 0 then []
          else let out = sortCounted (map (\<lambda>p. (fst p, min (uint (Estimate c (fst p))) (2 ^ 63 - 1))) (MG_Top m 0))
               in if n < int (length out) then take (nat n) out else out)"

lemma uint_u32_small: "min (uint (w :: u32)) (2 ^ 63 - 1) = uint w"
  using uint_bounded [of w] by simp

lemma MG_true_le_true_count:
  assumes "\<forall>p \<in> set st. length (fst p) \<le> MaxMGKeyBytes"
  shows "MG_true (map (\<lambda>p. (fst p, uint (snd p))) st) key = int (true_count key st)"
  using assms
proof (induction st)
  case Nil
  then show ?case by (simp add: MG_true_def true_count_def)
next
  case (Cons p st)
  have "trunc_key (fst p) = fst p" using Cons.prems by (simp add: trunc_key_def)
  moreover have "0 < uint (snd p) \<longleftrightarrow> snd p \<noteq> 0" using uint_0_iff [of "snd p"] uint_ge_0 [of "snd p"] by linarith
  ultimately show ?case using Cons
    by (auto simp: MG_true_def true_count_def)
qed

lemma HeavyHitters_take:
  assumes "0 < n"
  shows "\<exists>j. HeavyHitters c (Some m) n = take j (sortCounted (map (\<lambda>p. (fst p, uint (Estimate c (fst p)))) (MG_Top m 0)))"
  using assms unfolding HeavyHitters_def Let_def uint_u32_small
  by (auto intro: exI [of _ "length (MG_Top m 0)"] simp: sortCounted_set)

lemma sorted_wrt_take: "sorted_wrt P xs \<Longrightarrow> sorted_wrt P (take j xs)"
  by (metis append_take_drop_id sorted_wrt_append)

lemma true_count_pos: "0 < true_count key st \<Longrightarrow> key \<in> fst ` set st"
  by (induction st) (auto simp: true_count_def split: if_splits)

text \<open>The pairing over one stream fed to both sketches: the report is ranked by count and key,
  every key in it occurred in the stream, and its count is at least the true weight of the key
  (or the saturation value of the table) while the Misra-Gries count is at most that weight.\<close>

theorem HeavyHitters_two_sided:
  assumes "\<forall>p \<in> set st. length (fst p) \<le> MaxMGKeyBytes"
    and "MG_mass (map (\<lambda>p. (fst p, uint (snd p))) st) \<le> maxMGCount"
    and c: "c = CMS_run (NewCMS wraw draw e d) st"
    and m: "m = MG_run (NewMisraGries k) (map (\<lambda>p. (fst p, uint (snd p))) st)"
    and mem: "(key, v) \<in> set (HeavyHitters c (Some m) n)"
  shows "sorted_wrt before (HeavyHitters c (Some m) n) \<and> key \<in> fst ` set st
    \<and> int (min (2 ^ 32 - 1) (true_count key st)) \<le> v
    \<and> cget (counters m) key \<le> int (true_count key st)"
proof -
  have n: "0 < n" using mem by (cases "n \<le> 0") (simp_all add: HeavyHitters_def)
  obtain j where j: "HeavyHitters c (Some m) n
      = take j (sortCounted (map (\<lambda>p. (fst p, uint (Estimate c (fst p)))) (MG_Top m 0)))"
    using HeavyHitters_take [OF n] by blast
  have "(key, v) \<in> (\<lambda>p. (fst p, uint (Estimate c (fst p)))) ` set (MG_Top m 0)"
    using mem unfolding j by (auto dest!: in_set_takeD simp: sortCounted_set)
  then obtain w where w: "(key, w) \<in> set (counters m)" and v: "v = uint (Estimate c key)"
    by (auto simp: MG_Top_def Let_def sortCounted_set)
  let ?st = "map (\<lambda>p. (fst p, uint (snd p))) st"
  have rel: "MG_rel m (MG_true ?st)" using MG_run_rel [OF assms(2), of k] by (simp add: m)
  note r = MG_relD [OF rel]
  have "cget (counters m) key = w"
    using w map_ok_distinct [OF r(3)] by (simp add: mget_def)
  then have cw: "1 \<le> cget (counters m) key" using r(5) [OF w] by simp
  have le: "cget (counters m) key \<le> int (true_count key st)"
    using r(9) [of key] MG_true_le_true_count [OF assms(1)] by simp
  then have "key \<in> fst ` set st" using cw by (intro true_count_pos) linarith
  moreover have "int (min (2 ^ 32 - 1) (true_count key st)) \<le> int (unat (Estimate c key))"
    unfolding of_nat_le_iff c by (rule CMS_min_true)
  then have "int (min (2 ^ 32 - 1) (true_count key st)) \<le> v" unfolding v by (simp only: of_nat_unat)
  moreover have "sorted_wrt before (HeavyHitters c (Some m) n)"
    unfolding j by (intro sorted_wrt_take sortCounted_sorted)
  ultimately show ?thesis using le by blast
qed

theorem HeavyHitters_two_sided_witness:
  "\<exists>v. (([7], v) \<in> set (HeavyHitters (CMS_run (NewCMS (\<lambda>_. 4) (\<lambda>_. 2) 0 0) [([7], 5)])
      (Some (MG_run (NewMisraGries 2) [([7], 5)])) 3)) \<and> 5 \<le> v"
proof -
  let ?st = "[([7], 5)] :: (bytes \<times> u32) list"
  let ?c = "CMS_run (NewCMS (\<lambda>_. 4) (\<lambda>_. 2) 0 0) ?st" and ?m = "MG_run (NewMisraGries 2) [([7], 5)]"
  have m: "counters ?m = [([7], 5)]"
    using mgSatTotal_exact [of 0 5] by (simp add: MG_run_def MG_Add_def NewMisraGries_def clampInt_def)
  have mem: "([7], uint (Estimate ?c [7])) \<in> set (HeavyHitters ?c (Some ?m) 3)"
    by (simp add: HeavyHitters_def MG_Top_def sortCounted_def m uint_u32_small [simplified])
  have "int (min (2 ^ 32 - 1) (true_count [7] ?st)) \<le> uint (Estimate ?c [7])"
    using HeavyHitters_two_sided [of ?st ?c "\<lambda>_. 4" "\<lambda>_. 2" 0 0 ?m 2 "[7]" "uint (Estimate ?c [7])" 3] mem
    by (simp add: MG_mass_def)
  then show ?thesis using mem by (auto simp: true_count_def)
qed

end
