(* ===== verification/Chunk.thy ===== *)
theory Chunk
  imports CoreHash SketchHash
begin

unbundle bit_operations_syntax

text \<open>
  Content-defined chunking, \<^verbatim>\<open>internal/chunk\<close>: the gear table, parameter normalization, the
  boundary scan \<open>nextCut\<close>, \<open>Split\<close>, the Merkle root, and \<open>SplitStream\<close> over a scripted reader
  (theory \<open>ChunkStream\<close>).  The scan is shown equal to a reference that rolls the fingerprint
  from the first byte, so a boundary is a function of the 64 bytes before it.
\<close>

section \<open>The gear table\<close>

definition gearSeed :: u64 where "gearSeed = 0x90674E5A1CDB7F31"

text \<open>\<^verbatim>\<open>splitmix64(&state)\<close>: the new state and the output.\<close>

definition gear_splitmix64 :: "u64 \<Rightarrow> u64 \<times> u64" where
  "gear_splitmix64 x =
     (let x = x + 0x9E3779B97F4A7C15;
          z = (x XOR drop_bit 30 x) * 0xBF58476D1CE4E5B9;
          z = (z XOR drop_bit 27 z) * 0x94D049BB133111EB
      in (x, z XOR drop_bit 31 z))"

fun gear_rows :: "nat \<Rightarrow> u64 \<Rightarrow> u64 list" where
  "gear_rows 0 s = []"
| "gear_rows (Suc n) s = (let (s', v) = gear_splitmix64 s in v # gear_rows n s')"

definition newGearTable :: "u64 \<Rightarrow> u64 list" where
  "newGearTable seed = gear_rows 256 seed"

definition gear :: "u64 list" where
  "gear = newGearTable gearSeed"

section \<open>Parameters\<close>

record Params =
  pMin :: int
  pTarget :: int
  pMax :: int

datatype params_error = MinNotPositive | TargetNotAboveMin | MaxNotAboveTarget

definition Validate :: "Params \<Rightarrow> params_error option" where
  "Validate p =
     (if pMin p \<le> 0 then Some MinNotPositive
      else if pTarget p \<le> pMin p then Some TargetNotAboveMin
      else if pMax p \<le> pTarget p then Some MaxNotAboveTarget
      else None)"

abbreviation GearWindow :: nat where "GearWindow \<equiv> 64"
abbreviation targetFloor :: int where "targetFloor \<equiv> 256"
abbreviation targetCeiling :: int where "targetCeiling \<equiv> 1048576"

definition DefaultParams :: Params where
  "DefaultParams = \<lparr>pMin = 1024, pTarget = 4096, pMax = 16384\<rparr>"

definition chunk_clamp :: "int \<Rightarrow> int \<Rightarrow> int \<Rightarrow> int" where
  "chunk_clamp v lo hi = min (max v lo) hi"

definition Normalized :: "Params \<Rightarrow> Params" where
  "Normalized p =
     (let target = (if pTarget p \<le> 0 then pTarget DefaultParams else pTarget p);
          target = 2 ^ (bits_Len (nat target) - 1);
          target = chunk_clamp target targetFloor targetCeiling;
          minLen = max (max (pMin p) (int GearWindow)) (target div 8);
          minLen = (if minLen \<ge> target then target div 4 else minLen);
          maxLen = (if pMax p \<le> 0 then 4 * target else pMax p);
          maxLen = chunk_clamp maxLen (2 * target) (16 * target)
      in \<lparr>pMin = minLen, pTarget = target, pMax = maxLen\<rparr>)"

section \<open>The chunker\<close>

record chunker =
  cMin :: nat
  cTarget :: nat
  cMax :: nat
  maskS :: u64
  maskL :: u64

definition topBits :: "nat \<Rightarrow> u64" where
  "topBits n = push_bit (64 - n) (NOT 0)"

fun TrailingZeros64 :: "nat \<Rightarrow> nat" where
  "TrailingZeros64 n = (if n = 0 then 64 else if odd n then 0 else Suc (TrailingZeros64 (n div 2)))"

declare TrailingZeros64.simps [simp del]

definition New :: "Params \<Rightarrow> chunker" where
  "New p =
     (let np = Normalized p; width = TrailingZeros64 (nat (pTarget np))
      in \<lparr>cMin = nat (pMin np), cTarget = nat (pTarget np), cMax = nat (pMax np),
          maskS = topBits (width + 1), maskL = topBits (width - 1)\<rparr>)"

definition roll :: "u64 \<Rightarrow> byte \<Rightarrow> u64" where
  "roll fp b = push_bit 1 fp XOR gear ! unat b"

text \<open>One scan loop: \<open>k\<close> positions from \<open>i\<close> on; a cut length, or the fingerprint to go on with.\<close>

fun scan :: "bytes \<Rightarrow> u64 \<Rightarrow> nat \<Rightarrow> nat \<Rightarrow> u64 \<Rightarrow> nat + u64" where
  "scan data msk 0 i fp = Inr fp"
| "scan data msk (Suc k) i fp =
     (let fp = roll fp (data ! i)
      in if fp AND msk = 0 then Inl (i + 1) else scan data msk k (i + 1) fp)"

definition nextCut :: "chunker \<Rightarrow> bytes \<Rightarrow> nat" where
  "nextCut c data =
     (let n = length data in
      if n \<le> cMin c then n
      else let n = (if n > cMax c then cMax c else n);
               normal = (if cTarget c > n then n else cTarget c);
               fp = foldl (\<lambda>fp j. roll fp (data ! j)) 0 [cMin c - GearWindow..<cMin c]
           in case scan data (maskS c) (normal - cMin c) (cMin c) fp of
                Inl l \<Rightarrow> l
              | Inr fp \<Rightarrow>
                  (let i = max (cMin c) normal in
                   case scan data (maskL c) (n - i) i fp of Inl l \<Rightarrow> l | Inr _ \<Rightarrow> n))"

record Chunk =
  Offset :: int
  Len :: nat
  Hash :: hash

definition DomainChunk :: bytes where "DomainChunk = lit ''qompack.chunk.v1''"
definition DomainRoot :: bytes where "DomainRoot = lit ''qompack.root.v1''"

text \<open>\<^verbatim>\<open>hashInto\<close>: the domain prefix with its separator, then the payload, through one hasher.\<close>

definition hashInto :: "bytes \<Rightarrow> hash" where
  "hashInto payload = sha256 ((DomainChunk @ [0]) @ payload)"

text \<open>The loop of \<open>Split\<close>; \<open>None\<close> would be a scan that does not advance.\<close>

partial_function (option) split_loop :: "chunker \<Rightarrow> nat \<Rightarrow> bytes \<Rightarrow> Chunk list option" where
  "split_loop c off data =
     (if data = [] then Some []
      else let n = nextCut c data in
           Option.bind (split_loop c (off + n) (drop n data))
             (\<lambda>cs. Some (\<lparr>Offset = int off, Len = n, Hash = hashInto (take n data)\<rparr> # cs)))"

definition Split :: "chunker \<Rightarrow> bytes \<Rightarrow> Chunk list option" where
  "Split c data = split_loop c 0 data"

record ChunkRef =
  refHash :: hash
  refLen :: nat

definition Refs :: "Chunk list \<Rightarrow> ChunkRef list" where
  "Refs chunks = map (\<lambda>c. \<lparr>refHash = Hash c, refLen = Len c\<rparr>) chunks"

definition RootHash :: "Chunk list \<Rightarrow> hash" where
  "RootHash chunks = sha256 (DomainRoot @ [0] @ concat (map Hash chunks))"

section \<open>Normalization\<close>

definition chunker_ok :: "chunker \<Rightarrow> bool" where
  "chunker_ok c \<longleftrightarrow> GearWindow \<le> cMin c \<and> cMin c < cTarget c \<and> cTarget c < cMax c"

lemma Normalized_target:
  "\<exists>e. 8 \<le> e \<and> e \<le> 20 \<and> pTarget (Normalized p) = 2 ^ e"
proof -
  let ?t = "if pTarget p \<le> 0 then pTarget DefaultParams else pTarget p"
  let ?e = "bits_Len (nat ?t) - 1"
  have t: "pTarget (Normalized p) = chunk_clamp (2 ^ ?e) 256 1048576"
    by (simp add: Normalized_def Let_def)
  consider "?e \<le> 8" | "8 < ?e" "?e \<le> 20" | "20 < ?e" by linarith
  then show ?thesis
  proof cases
    case 1
    then have "(2::int) ^ ?e \<le> 2 ^ 8" by (intro power_increasing) auto
    then have "chunk_clamp (2 ^ ?e) 256 1048576 = 2 ^ 8" by (simp add: chunk_clamp_def)
    then show ?thesis unfolding t by (intro exI [of _ 8]) simp
  next
    case 2
    then have "(2::int) ^ 8 \<le> 2 ^ ?e" "(2::int) ^ ?e \<le> 2 ^ 20"
      using power_increasing [of 8 ?e "2::int"] power_increasing [of ?e 20 "2::int"] by linarith+
    then have "chunk_clamp (2 ^ ?e) 256 1048576 = 2 ^ ?e" by (simp add: chunk_clamp_def)
    then show ?thesis unfolding t using 2 by (intro exI [of _ ?e]) simp
  next
    case 3
    then have "(2::int) ^ 20 \<le> 2 ^ ?e" by (intro power_increasing) auto
    then have "chunk_clamp (2 ^ ?e) 256 1048576 = 2 ^ 20" by (simp add: chunk_clamp_def)
    then show ?thesis unfolding t by (intro exI [of _ 20]) simp
  qed
qed

lemma Normalized_Min:
  "pMin (Normalized p) =
     (let t = pTarget (Normalized p); m = max (max (pMin p) 64) (t div 8) in if m \<ge> t then t div 4 else m)"
  by (simp add: Normalized_def Let_def)

lemma Normalized_Max:
  "pMax (Normalized p) =
     (let t = pTarget (Normalized p) in chunk_clamp (if pMax p \<le> 0 then 4 * t else pMax p) (2 * t) (16 * t))"
  by (simp add: Normalized_def Let_def)

lemma min_len_bounds:
  fixes t a :: int
  assumes t: "256 \<le> t"
  defines "r \<equiv> let m = max (max a 64) (t div 8) in if m \<ge> t then t div 4 else m"
  shows "64 \<le> r \<and> t div 8 \<le> r \<and> r < t"
proof -
  obtain x where x: "x = t div 8" by blast
  obtain y where y: "y = t div 4" by blast
  have "64 \<le> y" "y < t" "x \<le> y" using t unfolding x y by linarith+
  then show ?thesis unfolding r_def x [symmetric] y [symmetric] Let_def by (auto simp: max_def)
qed

lemma chunk_clamp_bounds:
  fixes t v :: int
  assumes "256 \<le> t"
  shows "2 * t \<le> chunk_clamp v (2 * t) (16 * t)" "chunk_clamp v (2 * t) (16 * t) \<le> 16 * t"
  using assms by (auto simp: chunk_clamp_def min_def max_def)

lemma Normalized_bounds:
  fixes p :: Params
  defines "q \<equiv> Normalized p"
  shows "64 \<le> pMin q" and "pTarget q div 8 \<le> pMin q" and "pMin q < pTarget q"
    and "2 * pTarget q \<le> pMax q" and "pMax q \<le> 16 * pTarget q"
    and "256 \<le> pTarget q" and "pTarget q \<le> 1048576"
proof -
  show t: "256 \<le> pTarget q" "pTarget q \<le> 1048576"
    using Normalized_target [of p] power_increasing [of 8 _ "2::int"] power_increasing [of _ 20 "2::int"]
    unfolding q_def by auto
  have "64 \<le> pMin q \<and> pTarget q div 8 \<le> pMin q \<and> pMin q < pTarget q"
    using min_len_bounds [OF t(1), of "pMin p"] unfolding q_def Normalized_Min Let_def .
  then show "64 \<le> pMin q" "pTarget q div 8 \<le> pMin q" "pMin q < pTarget q" by simp_all
  show "2 * pTarget q \<le> pMax q" "pMax q \<le> 16 * pTarget q"
    unfolding q_def Normalized_Max Let_def using t(1) unfolding q_def by (rule chunk_clamp_bounds)+
qed

lemma Normalized_fixpoint:
  assumes "pTarget (Normalized q) = pTarget q" "64 \<le> pMin q" "pTarget q div 8 \<le> pMin q"
    "pMin q < pTarget q" "2 * pTarget q \<le> pMax q" "pMax q \<le> 16 * pTarget q"
  shows "Normalized q = q"
proof -
  have "max (max (pMin q) 64) (pTarget q div 8) = pMin q" using assms(2,3) by simp
  then have "pMin (Normalized q) = pMin q" unfolding Normalized_Min assms(1) Let_def using assms(4) by simp
  moreover have "pMax (Normalized q) = pMax q"
    unfolding Normalized_Max assms(1) Let_def chunk_clamp_def using assms(2-6) by simp
  ultimately show ?thesis using assms(1) by (intro Params.equality) simp_all
qed

lemma bits_Len_pow2_int: "bits_Len (nat (2 ^ e)) = Suc e"
  by (simp add: nat_power_eq)

text \<open>\<^verbatim>\<open>Normalized\<close> turns any parameters, the zero value included, into a shape the scan can
  run with: a power-of-two target within its bounds, a minimum between the priming window and the
  target, a maximum between 2 and 16 targets.  It is idempotent, and it leaves the built-in
  defaults alone.\<close>

theorem Normalized_correct:
  "(\<exists>e. pTarget (Normalized p) = 2 ^ e) \<and> 256 \<le> pTarget (Normalized p) \<and> pTarget (Normalized p) \<le> 1048576
    \<and> 64 \<le> pMin (Normalized p) \<and> pMin (Normalized p) < pTarget (Normalized p)
    \<and> 2 * pTarget (Normalized p) \<le> pMax (Normalized p) \<and> pMax (Normalized p) \<le> 16 * pTarget (Normalized p)
    \<and> Validate (Normalized p) = None
    \<and> Normalized (Normalized p) = Normalized p \<and> Normalized DefaultParams = DefaultParams"
proof -
  note b = Normalized_bounds [of p]
  obtain e where e: "pTarget (Normalized p) = 2 ^ e" "8 \<le> e" "e \<le> 20" using Normalized_target by blast
  have "chunk_clamp (2 ^ e) 256 1048576 = 2 ^ e" using b(6,7) unfolding e(1) chunk_clamp_def by simp
  then have "pTarget (Normalized (Normalized p)) = pTarget (Normalized p)"
    unfolding Normalized_def [of "Normalized p"] Let_def using e(1) by (simp add: bits_Len_pow2_int)
  then have "Normalized (Normalized p) = Normalized p" using b by (intro Normalized_fixpoint)
  moreover have "Normalized DefaultParams = DefaultParams"
  proof (rule Normalized_fixpoint)
    have "bits_Len (nat 4096) - 1 = 12" using bits_Len_pow2_int [of 12] by simp
    then show "pTarget (Normalized DefaultParams) = pTarget DefaultParams"
      unfolding Normalized_def Let_def DefaultParams_def by (simp add: chunk_clamp_def)
  qed (simp_all add: DefaultParams_def)
  moreover have "Validate (Normalized p) = None" using b by (simp add: Validate_def)
  ultimately show ?thesis using b(1,3-7) e(1) by (intro conjI exI [of _ e]) (assumption | rule refl)+
qed

lemma New_ok: "chunker_ok (New p)"
proof -
  have "pTarget (Normalized p) < pMax (Normalized p)" using Normalized_bounds(4,6) [of p] by linarith
  then show ?thesis
    using Normalized_bounds [of p] by (simp add: chunker_ok_def New_def Let_def)
qed

section \<open>The rolling fingerprint\<close>

text \<open>The fingerprint of a byte string, rolled from its first byte.\<close>

definition fingerprint :: "bytes \<Rightarrow> u64" where
  "fingerprint xs = foldl roll 0 xs"

lemma foldl_roll: "foldl roll s ys = push_bit (length ys) s XOR foldl roll 0 ys"
proof (induction ys rule: rev_induct)
  case (snoc y ys)
  have "foldl roll s (ys @ [y]) = roll (push_bit (length ys) s XOR foldl roll 0 ys) y"
    using snoc by simp
  also have "\<dots> = push_bit (Suc (length ys)) s XOR roll (foldl roll 0 ys) y"
    by (simp add: roll_def push_bit_xor xor.assoc)
  finally show ?case by simp
qed simp

lemma fingerprint_append:
  "fingerprint (xs @ ys) = push_bit (length ys) (fingerprint xs) XOR fingerprint ys"
  using foldl_roll [of "fingerprint xs" ys] by (simp add: fingerprint_def)

lemma fingerprint_window: "64 \<le> length ys \<Longrightarrow> fingerprint (xs @ ys) = fingerprint ys"
  by (simp add: fingerprint_append push_bit_word_beyond)

lemma fingerprint_snoc: "i < length data \<Longrightarrow> fingerprint (take (Suc i) data) = roll (fingerprint (take i data)) (data ! i)"
  by (simp add: fingerprint_def take_Suc_conv_app_nth)

lemma foldl_nth_range:
  "b \<le> length data \<Longrightarrow> foldl (\<lambda>fp j. roll fp (data ! j)) s [a..<b] = foldl roll s (drop a (take b data))"
proof (induction b)
  case (Suc b)
  then show ?case by (cases "a \<le> b") (simp_all add: take_Suc_conv_app_nth)
qed simp

section \<open>The boundary scan against its reference\<close>

definition boundary :: "chunker \<Rightarrow> bytes \<Rightarrow> nat \<Rightarrow> bool" where
  "boundary c data i \<longleftrightarrow> fingerprint (take (Suc i) data) AND (if i < cTarget c then maskS c else maskL c) = 0"

definition nextCut_ref :: "chunker \<Rightarrow> bytes \<Rightarrow> nat" where
  "nextCut_ref c data =
     (if length data \<le> cMin c then length data
      else case find (boundary c data) [cMin c..<min (length data) (cMax c)] of
             Some i \<Rightarrow> Suc i | None \<Rightarrow> min (length data) (cMax c))"

lemma find_append: "find P (xs @ ys) = (case find P xs of Some x \<Rightarrow> Some x | None \<Rightarrow> find P ys)"
  by (induction xs) simp_all

lemma scan_find:
  assumes "i + k \<le> length data"
  shows "scan data msk k i (fingerprint (take i data)) =
    (case find (\<lambda>j. fingerprint (take (Suc j) data) AND msk = 0) [i..<i + k] of
       Some j \<Rightarrow> Inl (Suc j) | None \<Rightarrow> Inr (fingerprint (take (i + k) data)))"
  using assms
proof (induction k arbitrary: i)
  case (Suc k)
  have "[i..<i + Suc k] = i # [Suc i..<Suc i + k]" using upt_conv_Cons [of i "i + Suc k"] by simp
  moreover have "i < length data" using Suc.prems by simp
  ultimately show ?case
    using Suc.IH [of "Suc i"] Suc.prems
    by (simp del: upt_Suc add: fingerprint_snoc [symmetric] Let_def split: option.split)
qed simp

lemma scan_boundary:
  assumes ab: "a \<le> b" "b \<le> length data"
    and msk: "\<And>j. a \<le> j \<Longrightarrow> j < b \<Longrightarrow> (if j < cTarget c then maskS c else maskL c) = msk"
  shows "scan data msk (b - a) a (fingerprint (take a data)) =
    (case find (boundary c data) [a..<b] of Some j \<Rightarrow> Inl (Suc j) | None \<Rightarrow> Inr (fingerprint (take b data)))"
proof -
  have "find (boundary c data) [a..<b] = find (\<lambda>j. fingerprint (take (Suc j) data) AND msk = 0) [a..<b]"
    by (rule find_cong) (simp_all add: boundary_def msk)
  moreover obtain k where k: "b = a + k" using ab(1) le_Suc_ex by blast
  ultimately show ?thesis using ab scan_find [of a k data msk] unfolding k by simp
qed

lemma nextCut_eq_ref:
  assumes ok: "chunker_ok c"
  shows "nextCut c data = nextCut_ref c data"
proof (cases "length data \<le> cMin c")
  case False
  let ?n = "min (length data) (cMax c)"
  let ?t = "min (cTarget c) ?n"
  have o: "64 \<le> cMin c" "cMin c < cTarget c" "cTarget c < cMax c" using ok by (auto simp: chunker_ok_def)
  have m: "cMin c \<le> ?t" "?t \<le> ?n" using False o by auto
  have nn: "(if cMax c < length data then cMax c else length data) = ?n"
    "(if ?n < cTarget c then ?n else cTarget c) = ?t" "max (cMin c) ?t = ?t" using m by auto
  have prime: "foldl (\<lambda>fp j. roll fp (data ! j)) 0 [cMin c - 64..<cMin c] = fingerprint (take (cMin c) data)"
    using fingerprint_window [of "drop (cMin c - 64) (take (cMin c) data)" "take (cMin c - 64) (take (cMin c) data)"]
      False o unfolding append_take_drop_id by (simp add: foldl_nth_range fingerprint_def [symmetric])
  have s1: "scan data (maskS c) (?t - cMin c) (cMin c) (fingerprint (take (cMin c) data)) =
      (case find (boundary c data) [cMin c..<?t] of Some j \<Rightarrow> Inl (Suc j) | None \<Rightarrow> Inr (fingerprint (take ?t data)))"
    using m by (intro scan_boundary) auto
  have s2: "scan data (maskL c) (?n - ?t) ?t (fingerprint (take ?t data)) =
      (case find (boundary c data) [?t..<?n] of Some j \<Rightarrow> Inl (Suc j) | None \<Rightarrow> Inr (fingerprint (take ?n data)))"
    using m by (intro scan_boundary) auto
  have "[cMin c..<?n] = [cMin c..<?t] @ [?t..<?n]" using m by (metis upt_add_eq_append le_add_diff_inverse)
  then have sp: "find (boundary c data) [cMin c..<?n] =
      (case find (boundary c data) [cMin c..<?t] of Some x \<Rightarrow> Some x | None \<Rightarrow> find (boundary c data) [?t..<?n])"
    by (simp only: find_append)
  show ?thesis
    unfolding nextCut_def nextCut_ref_def Let_def nn prime s1 sp
    using False by (cases "find (boundary c data) [cMin c..<?t]"; cases "find (boundary c data) [?t..<?n]") (simp_all add: s2)
qed (simp add: nextCut_def nextCut_ref_def Let_def)

lemma nextCut_bounds:
  assumes ok: "chunker_ok c"
  shows "nextCut c data \<le> length data" "nextCut c data \<le> cMax c"
    "cMin c < length data \<Longrightarrow> cMin c < nextCut c data" "data \<noteq> [] \<Longrightarrow> 0 < nextCut c data"
proof -
  have o: "64 \<le> cMin c" "cMin c < cMax c" using ok by (auto simp: chunker_ok_def)
  have "nextCut c data \<le> length data \<and> nextCut c data \<le> cMax c
      \<and> (cMin c < length data \<longrightarrow> cMin c < nextCut c data)"
    unfolding nextCut_eq_ref [OF ok] nextCut_ref_def using o
    by (auto split: option.split dest!: find_SomeD)
  then show "nextCut c data \<le> length data" "nextCut c data \<le> cMax c"
    "cMin c < length data \<Longrightarrow> cMin c < nextCut c data" by auto
  then show "0 < nextCut c data" if "data \<noteq> []"
    using that by (cases "length data \<le> cMin c") (simp_all add: nextCut_def Let_def)
qed

text \<open>Beyond \<open>cMax\<close> bytes the scan looks at nothing.\<close>

lemma nextCut_lookahead:
  assumes ok: "chunker_ok c" and len: "cMax c \<le> length data"
  shows "nextCut c (data @ rest) = nextCut c data"
proof -
  have o: "cMin c < length data" "cMin c < cMax c" using ok len by (auto simp: chunker_ok_def)
  have "find (boundary c (data @ rest)) [cMin c..<cMax c] = find (boundary c data) [cMin c..<cMax c]"
    using len by (intro find_cong) (simp_all add: boundary_def)
  moreover have "min (length (data @ rest)) (cMax c) = cMax c" "min (length data) (cMax c) = cMax c"
    using len by simp_all
  ultimately show ?thesis
    using o unfolding nextCut_eq_ref [OF ok] nextCut_ref_def by (simp split: option.split)
qed

section \<open>Splitting\<close>

text \<open>The reference: the payloads the successive cuts take off the front.\<close>

function payloads :: "chunker \<Rightarrow> bytes \<Rightarrow> bytes list" where
  "payloads c data =
     (if data = [] \<or> nextCut c data = 0 then []
      else take (nextCut c data) data # payloads c (drop (nextCut c data) data))"
  by auto
termination by (relation "measure (\<lambda>(_, data). length data)") auto

declare payloads.simps [simp del]

lemma payloads_Nil [simp]: "payloads c [] = []"
  by (simp add: payloads.simps)

lemma payloads_step:
  "chunker_ok c \<Longrightarrow> data \<noteq> [] \<Longrightarrow>
   payloads c data = take (nextCut c data) data # payloads c (drop (nextCut c data) data)"
  using nextCut_bounds(4) [of c data] payloads.simps [of c data] by simp

fun stamp :: "nat \<Rightarrow> bytes list \<Rightarrow> Chunk list" where
  "stamp off [] = []"
| "stamp off (b # bs) = \<lparr>Offset = int off, Len = length b, Hash = HashBytes DomainChunk b\<rparr> # stamp (off + length b) bs"

lemma hashInto_eq: "hashInto b = HashBytes DomainChunk b"
  by (simp add: hashInto_def HashBytes_def)

lemma split_loop_eq:
  assumes ok: "chunker_ok c"
  shows "split_loop c off data = Some (stamp off (payloads c data))"
proof (induction "length data" arbitrary: data off rule: less_induct)
  case less
  show ?case
  proof (cases "data = []")
    case False
    let ?n = "nextCut c data"
    have n: "0 < ?n" "?n \<le> length data" using nextCut_bounds [OF ok, of data] False by auto
    then have "split_loop c (off + ?n) (drop ?n data) = Some (stamp (off + ?n) (payloads c (drop ?n data)))"
      using False by (intro less) simp
    then show ?thesis using False n payloads_step [OF ok False]
      by (subst split_loop.simps) (simp add: Let_def hashInto_eq min_absorb2)
  qed (simp add: split_loop.simps)
qed

lemma Split_eq: "Split (New p) data = Some (stamp 0 (payloads (New p) data))"
  by (simp add: Split_def split_loop_eq New_ok)

lemma concat_payloads: "chunker_ok c \<Longrightarrow> concat (payloads c data) = data"
proof (induction "length data" arbitrary: data rule: less_induct)
  case less
  show ?case
  proof (cases "data = []")
    case False
    have "concat (payloads c (drop (nextCut c data) data)) = drop (nextCut c data) data"
      using nextCut_bounds(4) [OF less.prems False] False less by simp
    then show ?thesis by (simp add: payloads_step [OF less.prems False])
  qed simp
qed

lemma payloads_sizes:
  assumes ok: "chunker_ok c"
  shows "list_all (\<lambda>b. 0 < length b \<and> length b \<le> cMax c) (payloads c data)
    \<and> list_all (\<lambda>b. cMin c < length b) (butlast (payloads c data))"
proof (induction "length data" arbitrary: data rule: less_induct)
  case less
  show ?case
  proof (cases "data = []")
    case False
    let ?n = "nextCut c data"
    note b = nextCut_bounds [OF ok, of data]
    have "drop ?n data = [] \<or> cMin c < ?n"
    proof (cases "length data \<le> cMin c")
      case True then show ?thesis by (simp add: nextCut_def Let_def)
    qed (use b in simp)
    moreover have "payloads c (drop ?n data) = [] \<longleftrightarrow> drop ?n data = []"
      using payloads_step [OF ok, of "drop ?n data"] by (cases "drop ?n data = []") simp_all
    moreover have "length (drop ?n data) < length data" using b False by simp
    note less [OF this]
    ultimately show ?thesis using b False by (auto simp: payloads_step [OF ok False])
  qed simp
qed

lemma stamp_spec:
  "map Len (stamp off bs) = map length bs" "map Hash (stamp off bs) = map (HashBytes DomainChunk) bs"
  "map Offset (stamp off bs) = map (\<lambda>i. int (off + sum_list (map length (take i bs)))) [0..<length bs]"
proof (induction bs arbitrary: off)
  case (Cons b bs)
  case 3
  show ?case using Cons.IH(3) [of "off + length b"]
    by (simp del: upt_Suc add: upt_conv_Cons map_Suc_upt [symmetric] o_def add.assoc)
qed simp_all

lemma length_stamp [simp]: "length (stamp off bs) = length bs"
  by (induction bs arbitrary: off) simp_all

lemma take_stamp: "take n (stamp off bs) = stamp off (take n bs)"
  by (induction bs arbitrary: off n) (simp_all add: take_Cons' )

lemma Refs_stamp: "Refs (stamp off bs) = Refs (stamp 0 bs)"
proof -
  have "Refs (stamp o1 bs) = Refs (stamp o2 bs)" for o1 o2
    by (induction bs arbitrary: o1 o2) (simp_all add: Refs_def)
  then show ?thesis .
qed

lemma Refs_drop_stamp: "Refs (drop n (stamp off bs)) = Refs (stamp 0 (drop n bs))"
proof (induction bs arbitrary: off n)
  case (Cons b bs)
  show ?case
  proof (cases n)
    case 0 then show ?thesis using Refs_stamp [of off "b # bs"] by simp
  qed (use Cons in simp)
qed (simp add: Refs_def)

lemma payload_at:
  assumes "i < length bs"
  shows "take (length (bs ! i)) (drop (sum_list (map length (take i bs))) (concat bs)) = bs ! i"
  using assms
proof (induction bs arbitrary: i)
  case (Cons b bs)
  show ?case by (cases i) (use Cons in simp_all)
qed simp

lemma stamp_nth:
  assumes "i < length bs"
  shows "Len (stamp off bs ! i) = length (bs ! i)" "Hash (stamp off bs ! i) = HashBytes DomainChunk (bs ! i)"
    "Offset (stamp off bs ! i) = int (off + sum_list (map length (take i bs)))"
  using assms arg_cong [OF stamp_spec(1) [of off bs], of "\<lambda>l. l ! i"] arg_cong [OF stamp_spec(2) [of off bs], of "\<lambda>l. l ! i"]
    arg_cong [OF stamp_spec(3) [of off bs], of "\<lambda>l. l ! i"] by simp_all

lemma stamp_payload:
  "concat bs = data \<Longrightarrow> i < length bs \<Longrightarrow>
   take (length (bs ! i)) (drop (sum_list (map length (take i bs))) data) = bs ! i"
  using payload_at by blast

lemma map_stamp_payload:
  "concat bs = data \<Longrightarrow> map (\<lambda>k. take (Len k) (drop (nat (Offset k)) data)) (stamp 0 bs) = bs"
  by (rule nth_equalityI) (simp_all add: stamp_nth stamp_payload)

lemma payloads_prefix:
  assumes ok: "chunker_ok c"
  shows "sum_list (map length (take n (payloads c (u @ x)))) + cMax c \<le> length u \<Longrightarrow>
    take (Suc n) (payloads c (u @ x)) = take (Suc n) (payloads c (u @ y))"
proof (induction n arbitrary: u)
  case 0
  have "u \<noteq> []" using 0 ok by (auto simp: chunker_ok_def)
  moreover have "nextCut c u \<le> length u" using nextCut_bounds(1) [OF ok] .
  ultimately show ?case using 0 nextCut_lookahead [OF ok, of u] by (simp add: payloads_step [OF ok])
next
  case (Suc n)
  let ?k = "nextCut c u"
  have u: "u \<noteq> []" "cMax c \<le> length u" using Suc.prems ok by (auto simp: chunker_ok_def)
  have k: "?k \<le> length u" using nextCut_bounds(1) [OF ok] .
  have st: "payloads c (u @ z) = take ?k u # payloads c (drop ?k u @ z)" for z
    using nextCut_lookahead [OF ok u(2)] u k by (simp add: payloads_step [OF ok])
  have "sum_list (map length (take n (payloads c (drop ?k u @ x)))) + cMax c \<le> length (drop ?k u)"
    using Suc.prems k unfolding st by simp
  then show ?case using Suc.IH [of "drop ?k u"] unfolding st by simp
qed

lemma payloads_suffix:
  assumes ok: "chunker_ok c"
  shows "sum_list (map length (take n (payloads c (x @ v)))) = length x \<Longrightarrow> drop n (payloads c (x @ v)) = payloads c v"
proof (induction n arbitrary: x)
  case (Suc n)
  let ?k = "nextCut c (x @ v)"
  show ?case
  proof (cases "x @ v = []")
    case False
    have k: "?k \<le> length (x @ v)" using nextCut_bounds(1) [OF ok] .
    have st: "payloads c (x @ v) = take ?k (x @ v) # payloads c (drop ?k (x @ v))"
      using payloads_step [OF ok False] .
    have lk: "length (take ?k (x @ v)) = ?k" using k by simp
    have sum: "?k + sum_list (map length (take n (payloads c (drop ?k (x @ v))))) = length x"
      using Suc.prems unfolding st by (simp only: take_Suc_Cons list.map sum_list.Cons lk)
    then have d: "drop ?k (x @ v) = drop ?k x @ v" by simp
    have "sum_list (map length (take n (payloads c (drop ?k x @ v)))) = length (drop ?k x)"
      using sum unfolding d by simp
    then show ?thesis using Suc.IH [of "drop ?k x"] unfolding st d by simp
  qed simp
qed simp

section \<open>What the chunker promises\<close>

text \<open>C23. \<open>nextCut\<close>, which primes its fingerprint over the 64 bytes before the minimum and scans two
  ranges with two masks, finds exactly the first boundary of a scan that rolls the fingerprint from
  the first byte of the chunk, and a boundary depends on the 64 bytes before it only.\<close>

theorem nextCut_reference:
  "nextCut (New p) data = nextCut_ref (New p) data
   \<and> (\<forall>xs ys. 64 \<le> length ys \<longrightarrow> foldl roll 0 (xs @ ys) = foldl roll 0 ys)"
  using nextCut_eq_ref [OF New_ok] fingerprint_window by (simp add: fingerprint_def)

theorem nextCut_reference_witness:
  "nextCut (New DefaultParams) [1, 2] = nextCut_ref (New DefaultParams) [1, 2]
   \<and> foldl roll 0 ([7] @ replicate 64 0) = foldl roll 0 (replicate 64 0)"
proof -
  have "64 \<le> length (replicate 64 0 :: bytes)" by simp
  then show ?thesis using nextCut_reference [of DefaultParams "[1, 2]"] by blast
qed

text \<open>C29. \<open>Split\<close> ends for every input and partitions it: the offsets are the running sums of the
  lengths from 0 on, every chunk is non-empty and at most the maximum long, all but the last are
  longer than the minimum, the hash of a chunk is the domain-separated hash of its bytes, and
  together the chunks are the input.\<close>

theorem Split_partition:
  "\<exists>cs. Split (New p) data = Some cs
    \<and> map Offset cs = map (\<lambda>i. int (sum_list (map Len (take i cs)))) [0..<length cs]
    \<and> concat (map (\<lambda>k. take (Len k) (drop (nat (Offset k)) data)) cs) = data
    \<and> list_all (\<lambda>k. 0 < Len k \<and> int (Len k) \<le> pMax (Normalized p)
                  \<and> Hash k = HashBytes DomainChunk (take (Len k) (drop (nat (Offset k)) data))) cs
    \<and> list_all (\<lambda>k. pMin (Normalized p) < int (Len k)) (butlast cs)"
proof -
  let ?c = "New p" let ?bs = "payloads ?c data" let ?cs = "stamp 0 ?bs"
  note sz = payloads_sizes [OF New_ok, of p data] and st = stamp_spec [of 0 ?bs]
  have cat: "concat ?bs = data" by (rule concat_payloads) (rule New_ok)
  have par: "int (cMin ?c) = pMin (Normalized p)" "int (cMax ?c) = pMax (Normalized p)"
    using Normalized_bounds [of p] by (simp_all add: New_def Let_def)
  note len = stamp_nth [of _ ?bs 0, simplified] and pay = stamp_payload [OF cat]
  have off: "map Offset ?cs = map (\<lambda>i. int (sum_list (map Len (take i ?cs)))) [0..<length ?cs]"
    using st(3) by (simp add: take_stamp stamp_spec(1))
  have "map (\<lambda>k. take (Len k) (drop (nat (Offset k)) data)) ?cs = ?bs" by (rule map_stamp_payload) (rule cat)
  then have p1: "concat (map (\<lambda>k. take (Len k) (drop (nat (Offset k)) data)) ?cs) = data" using cat by simp
  have p2: "list_all (\<lambda>k. 0 < Len k \<and> int (Len k) \<le> pMax (Normalized p)
      \<and> Hash k = HashBytes DomainChunk (take (Len k) (drop (nat (Offset k)) data))) ?cs"
    using sz unfolding par(2) [symmetric] by (auto simp: list_all_length pay len)
  have p3: "list_all (\<lambda>k. pMin (Normalized p) < int (Len k)) (butlast ?cs)"
    using sz unfolding par(1) [symmetric] by (auto simp: list_all_length nth_butlast len)
  show ?thesis using off p1 p2 p3 Split_eq by blast
qed

text \<open>C30. Chunking is local.  Where two inputs share a prefix, they share every chunk that starts
  at least the maximum before its end; where they share a suffix that starts at a boundary of both,
  the chunks from there on are the same but for their offsets.\<close>

theorem Split_locality:
  assumes "Split (New p) (u @ x) = Some cs" and "Split (New p) (u @ y) = Some ds"
    and "Split (New p) (x @ v) = Some es" and "Split (New p) (y @ v) = Some fs"
  shows "(sum_list (map Len (take n cs)) + nat (pMax (Normalized p)) \<le> length u \<longrightarrow> take (Suc n) cs = take (Suc n) ds)
    \<and> (sum_list (map Len (take n es)) = length x \<and> sum_list (map Len (take m fs)) = length y
         \<longrightarrow> Refs (drop n es) = Refs (drop m fs))"
proof -
  have e: "cs = stamp 0 (payloads (New p) (u @ x))" "ds = stamp 0 (payloads (New p) (u @ y))"
    "es = stamp 0 (payloads (New p) (x @ v))" "fs = stamp 0 (payloads (New p) (y @ v))"
    using assms by (simp_all add: Split_eq)
  have "cMax (New p) = nat (pMax (Normalized p))" by (simp add: New_def Let_def)
  then show ?thesis
    using payloads_prefix [OF New_ok [of p], of n u x y]
      payloads_suffix [OF New_ok [of p], of n x v] payloads_suffix [OF New_ok [of p], of m y v]
    unfolding e take_stamp stamp_spec(1) Refs_drop_stamp by simp
qed

theorem Split_locality_witness:
  "take (Suc 0) (the (Split (New DefaultParams) (replicate 16384 0 @ [1]))) =
     take (Suc 0) (the (Split (New DefaultParams) (replicate 16384 0 @ [2, 3])))
   \<and> Refs (drop 0 (the (Split (New DefaultParams) ([] @ [7])))) = Refs (drop 0 (the (Split (New DefaultParams) ([] @ [7]))))"
proof -
  have s: "Split (New DefaultParams) d = Some (the (Split (New DefaultParams) d))" for d by (simp add: Split_eq)
  have "nat (pMax (Normalized DefaultParams)) = 16384" using Normalized_correct by (simp add: DefaultParams_def)
  then show ?thesis
    using Split_locality [OF s s s s, where n = 0 and u = "replicate 16384 0" and x = "[1]" and y = "[2, 3]"]
      Split_locality [OF s s s s, where n = 0 and m = 0 and x = "[]" and y = "[]" and v = "[7]"]
    by simp
qed

end
