(* ===== verification/ChunkStream.thy ===== *)
theory ChunkStream
  imports Chunk
begin

text \<open>
  \<^verbatim>\<open>SplitStream\<close> of \<^verbatim>\<open>internal/chunk/stream.go\<close>: the same chunks as \<open>Split\<close>, from a reader.  The reader is a
  script of read results, each the bytes delivered and the error delivered with them; a result
  larger than the free space of the buffer is delivered in parts, the end of the script is
  \<open>io.EOF\<close>.  The callback is a state transformer that may fail.  The refill loop ends for every
  script; the emit loop and the outer loop are partial functions whose termination is proved.
\<close>

datatype read_error = EOF | ErrUnexpectedEOF | ReadError nat

type_synonym script = "(bytes \<times> read_error option) list"

datatype read_stop = ErrNoProgress | ReadFailed read_error

datatype 'e stream_error = NilCallback | FromReader read_stop | FromCallback 'e

type_synonym ('e, 's) callback = "Chunk \<Rightarrow> bytes \<Rightarrow> 's \<Rightarrow> 'e option \<times> 's"

abbreviation maxEmptyReads :: nat where "maxEmptyReads \<equiv> 100"

text \<open>One \<^verbatim>\<open>Read\<close> into \<open>k\<close> free bytes: what arrives, the error with it, and the reader after it.\<close>

fun Read :: "nat \<Rightarrow> script \<Rightarrow> bytes \<times> read_error option \<times> script" where
  "Read k [] = ([], Some EOF, [])"
| "Read k ((bs, err) # rest) =
     (if length bs \<le> k then (bs, err, rest) else (take k bs, None, (drop k bs, err) # rest))"

definition script_size :: "script \<Rightarrow> nat" where
  "script_size sc = (\<Sum>(bs, err) \<leftarrow> sc. Suc (length bs))"

lemma script_size_simps [simp]:
  "script_size [] = 0" "script_size ((bs, err) # sc) = Suc (length bs) + script_size sc"
  by (simp_all add: script_size_def)

lemma Read_size:
  assumes "Read k sc = (bs, err, sc')" "err \<noteq> Some EOF \<or> sc \<noteq> []"
  shows "script_size sc' < script_size sc \<or> (bs = [] \<and> err = None \<and> sc' = sc)"
  using assms by (cases sc; cases "k = 0") (auto split: if_splits)

text \<open>The switch after a read: the new count of empty reads, or the end of the call.\<close>

definition after_read :: "bytes \<Rightarrow> read_error option \<Rightarrow> nat \<Rightarrow> read_stop + bool \<times> nat" where
  "after_read bs err emp =
     (let emp' = (if bs \<noteq> [] then 0 else if err = None then emp + 1 else emp)
      in if bs = [] \<and> err = None \<and> maxEmptyReads \<le> emp' then Inl ErrNoProgress
         else case err of
                None \<Rightarrow> Inr (False, emp')
              | Some EOF \<Rightarrow> Inr (True, emp')
              | Some ErrUnexpectedEOF \<Rightarrow> if bs \<noteq> [] then Inr (True, emp') else Inl (ReadFailed ErrUnexpectedEOF)
              | Some (ReadError e) \<Rightarrow> Inl (ReadFailed (ReadError e)))"

function refill :: "chunker \<Rightarrow> script \<Rightarrow> bytes \<Rightarrow> bool \<Rightarrow> nat \<Rightarrow> read_stop + script \<times> bytes \<times> bool \<times> nat" where
  "refill c sc buf eof emp =
     (if eof \<or> cMax c < length buf then Inr (sc, buf, eof, emp)
      else let (bs, err, sc') = Read (2 * cMax c - length buf) sc
           in case after_read bs err emp of
                Inl e \<Rightarrow> Inl e
              | Inr (eof', emp') \<Rightarrow> refill c sc' (buf @ bs) eof' emp')"
  by auto
termination
proof (relation "measures [\<lambda>(c, sc, buf, eof, emp). if eof then 0 else 1, \<lambda>(c, sc, buf, eof, emp). script_size sc,
    \<lambda>(c, sc, buf, eof, emp). maxEmptyReads - emp]", simp)
  fix c :: chunker and sc sc' :: script and buf bs :: bytes and eof eof' :: bool and emp emp' :: nat
    and x xa y err xb z
  assume g: "\<not> (eof \<or> cMax c < length buf)" "x = Read (2 * cMax c - length buf) sc" "(bs, xa) = x"
    "(err, sc') = xa" "after_read bs err emp = (Inr z :: read_stop + bool \<times> nat)" "(eof', emp') = z"
  show "((c, sc', buf @ bs, eof', emp'), c, sc, buf, eof, emp) \<in> measures [\<lambda>(c, sc, buf, eof, emp). if eof then 0 else 1,
    \<lambda>(c, sc, buf, eof, emp). script_size sc, \<lambda>(c, sc, buf, eof, emp). maxEmptyReads - emp]"
  proof (cases "err = Some EOF")
    case True then show ?thesis using g by (auto simp: after_read_def Let_def)
  next
    case False
    have "Read (2 * cMax c - length buf) sc = (bs, err, sc')" using g by auto
    from Read_size [OF this] False
    show ?thesis using g by (auto simp: after_read_def Let_def split: if_splits option.splits read_error.splits)
  qed
qed

declare refill.simps [simp del]

text \<open>The emit loop: the callback's error if any, then offset, buffer and callback state.\<close>

partial_function (option) emit ::
  "chunker \<Rightarrow> bool \<Rightarrow> ('e, 's) callback \<Rightarrow> int \<Rightarrow> bytes \<Rightarrow> 's \<Rightarrow> ('e option \<times> int \<times> bytes \<times> 's) option" where
  "emit c eof fn off buf s =
     (if cMax c < length buf \<or> (eof \<and> buf \<noteq> [])
      then let n = nextCut c buf;
               (err, s') = fn \<lparr>Offset = off, Len = n, Hash = hashInto (take n buf)\<rparr> (take n buf) s
           in case err of
                Some e \<Rightarrow> Some (Some e, off, buf, s')
              | None \<Rightarrow> emit c eof fn (off + int n) (drop n buf) s'
      else Some (None, off, buf, s))"

partial_function (option) stream_loop ::
  "chunker \<Rightarrow> ('e, 's) callback \<Rightarrow> script \<Rightarrow> bytes \<Rightarrow> bool \<Rightarrow> nat \<Rightarrow> int \<Rightarrow> 's \<Rightarrow> ('e stream_error option \<times> 's) option" where
  "stream_loop c fn sc buf eof emp off s =
     (case refill c sc buf eof emp of
        Inl e \<Rightarrow> Some (Some (FromReader e), s)
      | Inr (sc, buf, eof, emp) \<Rightarrow>
          Option.bind (emit c eof fn off buf s) (\<lambda>(err, off, buf, s).
            case err of
              Some e \<Rightarrow> Some (Some (FromCallback e), s)
            | None \<Rightarrow> if eof \<and> buf = [] then Some (None, s) else stream_loop c fn sc buf eof emp off s))"

definition SplitStream ::
  "chunker \<Rightarrow> script option \<Rightarrow> ('e, 's) callback option \<Rightarrow> 's \<Rightarrow> ('e stream_error option \<times> 's) option" where
  "SplitStream c r fn s =
     (case r of
        None \<Rightarrow> Some (None, s)
      | Some sc \<Rightarrow>
          (case fn of
             None \<Rightarrow> Some (Some NilCallback, s)
           | Some fn \<Rightarrow> stream_loop c fn sc [] False 0 0 s))"

section \<open>The specification\<close>

text \<open>What a reader delivers in all, independent of buffer sizes: the bytes, and the error that
  ends the stream if it does not end cleanly.\<close>

fun delivered :: "nat \<Rightarrow> script \<Rightarrow> bytes \<times> read_stop option" where
  "delivered emp [] = ([], None)"
| "delivered emp ((bs, err) # rest) =
     (case after_read bs err emp of
        Inl e \<Rightarrow> (bs, Some e)
      | Inr (True, _) \<Rightarrow> (bs, None)
      | Inr (False, emp') \<Rightarrow> (let (d, r) = delivered emp' rest in (bs @ d, r)))"

text \<open>The callback run over chunks and their bytes until it fails.\<close>

fun feed :: "('e, 's) callback \<Rightarrow> 's \<Rightarrow> (Chunk \<times> bytes) list \<Rightarrow> 'e option \<times> 's" where
  "feed fn s [] = (None, s)"
| "feed fn s ((ch, b) # xs) = (case fn ch b s of (Some e, s') \<Rightarrow> (Some e, s') | (None, s') \<Rightarrow> feed fn s' xs)"

definition items :: "nat \<Rightarrow> bytes list \<Rightarrow> (Chunk \<times> bytes) list" where
  "items off bs = zip (stamp off bs) bs"

lemma items_simps [simp]:
  "items off [] = []"
  "items off (b # bs) = (\<lparr>Offset = int off, Len = length b, Hash = HashBytes DomainChunk b\<rparr>, b) # items (off + length b) bs"
  by (simp_all add: items_def)

lemma items_append: "items off (xs @ ys) = items off xs @ items (off + sum_list (map length xs)) ys"
  by (induction xs arbitrary: off) (simp_all add: add.assoc)

lemma feed_append:
  "feed fn s (xs @ ys) = (case feed fn s xs of (Some e, s') \<Rightarrow> (Some e, s') | (None, s') \<Rightarrow> feed fn s' ys)"
  by (induction fn s xs rule: feed.induct) (auto split: prod.split option.split)

lemma after_read_full: "bs \<noteq> [] \<Longrightarrow> bs' \<noteq> [] \<Longrightarrow> after_read bs err emp = after_read bs' err emp'"
  by (simp add: after_read_def Let_def split: option.split read_error.split)

lemma delivered_step:
  assumes "Read k sc = (bs, err, sc')" "0 < k"
  shows "delivered emp sc = (case after_read bs err emp of
      Inl e \<Rightarrow> (bs, Some e)
    | Inr (True, _) \<Rightarrow> (bs, None)
    | Inr (False, emp') \<Rightarrow> (let (d, r) = delivered emp' sc' in (bs @ d, r)))"
proof (cases sc)
  case Nil then show ?thesis using assms by (auto simp: after_read_def Let_def)
next
  case (Cons ev rest)
  obtain b er where ev: "ev = (b, er)" by (cases ev)
  show ?thesis
  proof (cases "length b \<le> k")
    case True then show ?thesis using assms Cons ev by simp
  next
    case False
    then have r: "bs = take k b" "err = None" "sc' = (drop k b, er) # rest" "bs \<noteq> []" "drop k b \<noteq> []" "b \<noteq> []"
      using assms Cons ev by auto
    have "after_read bs err emp = (Inr (False, 0) :: read_stop + bool \<times> nat)" using r by (simp add: after_read_def)
    moreover have "b = bs @ drop k b" using r(1) by simp
    ultimately show ?thesis
      using Cons ev r after_read_full [OF r(6) r(5), of er emp 0]
      by (simp add: Let_def split: sum.split prod.split bool.split)
  qed
qed

lemma Read_total: "Read k sc = (bs, err, sc') \<Longrightarrow> script_size sc' + length bs \<le> script_size sc"
  by (cases sc) (auto split: if_splits)

text \<open>What the refill loop has done, against what the reader delivers in all.\<close>

fun refilled :: "chunker \<Rightarrow> script \<Rightarrow> bytes \<Rightarrow> nat \<Rightarrow> read_stop + script \<times> bytes \<times> bool \<times> nat \<Rightarrow> bool" where
  "refilled c sc buf emp (Inl e) \<longleftrightarrow> (\<exists>d. delivered emp sc = (d, Some e))"
| "refilled c sc buf emp (Inr (sc', buf', eof', emp')) \<longleftrightarrow>
     script_size sc' + length buf' \<le> script_size sc + length buf
     \<and> (\<exists>x. buf' = buf @ x
          \<and> (if eof' then delivered emp sc = (x, None)
             else cMax c < length buf' \<and> delivered emp sc = (let (d, r) = delivered emp' sc' in (x @ d, r))))"

lemma refilled_read:
  assumes rd: "Read k sc = (bs, err, sc')" "0 < k" and ar: "after_read bs err emp = Inr (False, emp')"
    and r: "refilled c sc' (buf @ bs) emp' res"
  shows "refilled c sc buf emp res"
proof (cases res)
  case (Inl e)
  then show ?thesis using r ar delivered_step [OF rd, of emp] by auto
next
  case (Inr z)
  obtain sc2 buf2 eof2 emp2 where z: "z = (sc2, buf2, eof2, emp2)" by (cases z)
  obtain x where x: "buf2 = (buf @ bs) @ x" "script_size sc2 + length buf2 \<le> script_size sc' + length (buf @ bs)"
      "if eof2 then delivered emp' sc' = (x, None)
       else cMax c < length buf2 \<and> delivered emp' sc' = (let (d, r) = delivered emp2 sc2 in (x @ d, r))"
    using r unfolding Inr z by auto
  have "delivered emp sc = (let (d, r) = delivered emp' sc' in (bs @ d, r))"
    using delivered_step [OF rd, of emp] ar by simp
  then show ?thesis unfolding Inr z using x Read_total [OF rd(1)]
    by (cases eof2; cases "delivered emp2 sc2") (simp_all add: Let_def)
qed

lemma refill_spec:
  assumes "0 < cMax c"
  shows "refilled c sc buf emp (refill c sc buf False emp)"
proof -
  have "0 < cMax c \<Longrightarrow> \<not> eof \<Longrightarrow> refilled c sc buf emp (refill c sc buf eof emp)" for eof
  proof (induction c sc buf eof emp rule: refill.induct)
    case (1 c sc buf eof emp)
    show ?case
    proof (cases "cMax c < length buf")
      case True then show ?thesis using 1 by (simp add: refill.simps [of c sc buf False emp] split: prod.split)
    next
      case False
      let ?k = "2 * cMax c - length buf"
      obtain bs err sc' where rd: "Read ?k sc = (bs, err, sc')" by (cases "Read ?k sc")
      have k: "0 < ?k" using False 1 by auto
      have st: "refill c sc buf eof emp =
          (case after_read bs err emp of Inl e \<Rightarrow> Inl e | Inr (eof', emp') \<Rightarrow> refill c sc' (buf @ bs) eof' emp')"
        using False 1 rd by (subst refill.simps) simp
      note ds = delivered_step [OF rd k, of emp]
      consider e where "after_read bs err emp = Inl e" | emp' where "after_read bs err emp = Inr (True, emp')"
        | emp' where "after_read bs err emp = Inr (False, emp')"
        by (cases "after_read bs err emp") auto
      then show ?thesis
      proof cases
        case 1 then show ?thesis using st ds by simp
      next
        case 2
        have "refill c sc' (buf @ bs) True emp' = Inr (sc', buf @ bs, True, emp')"
          by (simp add: refill.simps)
        then show ?thesis using st ds 2 Read_total [OF rd] by simp
      next
        case 3
        have "refilled c sc' (buf @ bs) emp' (refill c sc' (buf @ bs) False emp')"
          using 1(1) [OF _ _ _ _ 3 refl] rd False 1(2,3) by simp
        then show ?thesis using st 3 refilled_read [OF rd k 3] by simp
      qed
    qed
  qed
  from this [of False] show ?thesis using assms by simp
qed

lemma emit_spec:
  assumes ok: "chunker_ok c" and d: "eof \<longrightarrow> d = []"
  shows "\<exists>bs buf'. payloads c (buf @ d) = bs @ payloads c (buf' @ d) \<and> length buf' \<le> length buf
    \<and> (cMax c < length buf \<longrightarrow> length buf' < length buf) \<and> \<not> (cMax c < length buf' \<or> (eof \<and> buf' \<noteq> []))
    \<and> (case feed fn s (items off bs) of
         (Some e, s') \<Rightarrow> \<exists>o' b. emit c eof fn (int off) buf s = Some (Some e, o', b, s')
       | (None, s') \<Rightarrow> emit c eof fn (int off) buf s = Some (None, int (off + sum_list (map length bs)), buf', s'))"
proof (induction "length buf" arbitrary: buf off s rule: less_induct)
  case less
  show ?case
  proof (cases "cMax c < length buf \<or> (eof \<and> buf \<noteq> [])")
    case False
    then show ?thesis by (intro exI [of _ "[]"] exI [of _ buf]) (subst emit.simps, auto)
  next
    case True
    then have ne: "buf \<noteq> []" by auto
    let ?n = "nextCut c buf"
    have n: "0 < ?n" "?n \<le> length buf" using nextCut_bounds [OF ok, of buf] ne by auto
    have "nextCut c (buf @ d) = ?n" using True d nextCut_lookahead [OF ok, of buf d] by auto
    then have pay: "payloads c (buf @ d) = take ?n buf # payloads c (drop ?n buf @ d)"
      using ne n payloads_step [OF ok, of "buf @ d"] by simp
    obtain err s1 where fn: "fn \<lparr>Offset = int off, Len = ?n, Hash = hashInto (take ?n buf)\<rparr> (take ?n buf) s = (err, s1)"
      by fastforce
    have lt: "length (drop ?n buf) < length buf" using n ne by simp
    obtain bs buf' where ih: "payloads c (drop ?n buf @ d) = bs @ payloads c (buf' @ d)"
      "length buf' \<le> length (drop ?n buf)" "\<not> (cMax c < length buf' \<or> (eof \<and> buf' \<noteq> []))"
      "case feed fn s1 (items (off + ?n) bs) of
         (Some e, s') \<Rightarrow> \<exists>o' b. emit c eof fn (int (off + ?n)) (drop ?n buf) s1 = Some (Some e, o', b, s')
       | (None, s') \<Rightarrow> emit c eof fn (int (off + ?n)) (drop ?n buf) s1 =
           Some (None, int (off + ?n + sum_list (map length bs)), buf', s')"
      using less [OF lt, of "off + ?n" s1] by (elim exE conjE) (rule that)
    have st: "emit c eof fn (int off) buf s = (case err of Some e \<Rightarrow> Some (Some e, int off, buf, s1)
        | None \<Rightarrow> emit c eof fn (int (off + ?n)) (drop ?n buf) s1)"
      using True fn by (subst emit.simps) (simp add: Let_def split: option.split)
    have fd: "feed fn s (items off (take ?n buf # bs)) =
        (case err of Some e \<Rightarrow> (Some e, s1) | None \<Rightarrow> feed fn s1 (items (off + ?n) bs))"
      using fn n by (simp add: hashInto_eq min_absorb2 split: option.split)
    show ?thesis
      apply (intro exI [of _ "take ?n buf # bs"] exI [of _ buf'])
      using pay ih lt n unfolding fd st
      apply (cases err)
      apply (auto simp: add.assoc min_absorb2 split: prod.splits option.splits)
      done
  qed
qed

lemma stream_loop_spec:
  assumes ok: "chunker_ok c"
  shows "delivered emp sc = (d, r) \<Longrightarrow>
    \<exists>bs rest. payloads c (buf @ d) = bs @ rest \<and> (r = None \<longrightarrow> rest = [])
     \<and> stream_loop c fn sc buf False emp (int off) s =
       Some (case feed fn s (items off bs) of
               (Some e, s') \<Rightarrow> (Some (FromCallback e), s') | (None, s') \<Rightarrow> (map_option FromReader r, s'))"
proof (induction "script_size sc + length buf" arbitrary: sc buf emp off s d rule: less_induct)
  case less
  have "0 < cMax c" using ok by (auto simp: chunker_ok_def)
  note rf = refill_spec [OF this, of sc buf emp]
  show ?case
  proof (cases "refill c sc buf False emp")
    case (Inl e)
    then have "r = Some e" using rf less.prems by auto
    then show ?thesis using Inl by (intro exI [of _ "[]"] exI [of _ "payloads c (buf @ d)"]) (simp add: stream_loop.simps)
  next
    case (Inr z)
    obtain sc' buf' eof' emp' where z: "z = (sc', buf', eof', emp')" by (cases z)
    obtain x where x: "buf' = buf @ x" "script_size sc' + length buf' \<le> script_size sc + length buf"
      "if eof' then delivered emp sc = (x, None)
       else cMax c < length buf' \<and> delivered emp sc = (let (d, r) = delivered emp' sc' in (x @ d, r))"
      using rf unfolding Inr z by auto
    define d' where "d' = (if eof' then [] else fst (delivered emp' sc'))"
    have d: "buf @ d = buf' @ d'" "eof' \<longrightarrow> r = None" "\<not> eof' \<longrightarrow> delivered emp' sc' = (d', r)"
      using less.prems x unfolding d'_def by (auto simp: Let_def split: if_splits prod.splits)
    have "eof' \<longrightarrow> d' = []" by (simp add: d'_def)
    from emit_spec [OF ok this, of buf' fn off s]
    obtain bs buf2 where em: "payloads c (buf' @ d') = bs @ payloads c (buf2 @ d')" "length buf2 \<le> length buf'"
      "cMax c < length buf' \<longrightarrow> length buf2 < length buf'" "\<not> (cMax c < length buf2 \<or> (eof' \<and> buf2 \<noteq> []))"
      "case feed fn s (items off bs) of
         (Some e, s') \<Rightarrow> \<exists>o' b. emit c eof' fn (int off) buf' s = Some (Some e, o', b, s')
       | (None, s') \<Rightarrow> emit c eof' fn (int off) buf' s = Some (None, int (off + sum_list (map length bs)), buf2, s')"
      by (elim exE conjE) (rule that)
    have st: "stream_loop c fn sc buf False emp (int off) s =
       Option.bind (emit c eof' fn (int off) buf' s) (\<lambda>(err, off, buf, s).
            case err of
              Some e \<Rightarrow> Some (Some (FromCallback e), s)
            | None \<Rightarrow> if eof' \<and> buf = [] then Some (None, s) else stream_loop c fn sc' buf eof' emp' off s)"
      by (subst stream_loop.simps) (simp add: Inr z)
    obtain fe s1 where fd: "feed fn s (items off bs) = (fe, s1)" by fastforce
    consider e where "fe = Some e" | "fe = None" eof' | "fe = None" "\<not> eof'" by (cases fe; cases eof') auto
    then show ?thesis
    proof cases
      case (1 e)
      have "feed fn s (items off (bs @ payloads c (buf2 @ d'))) = (Some e, s1)"
        using fd 1 by (simp add: items_append feed_append)
      then show ?thesis unfolding d(1) em(1) st
        using em(5) fd 1 by (intro exI [of _ "bs @ payloads c (buf2 @ d')"] exI [of _ "[]"]) auto
    next
      case 2
      then have "buf2 @ d' = []" using em(4) by (simp add: d'_def)
      then show ?thesis unfolding d(1) em(1) st
        using em(4,5) fd 2 d(2) by (intro exI [of _ bs] exI [of _ "[]"]) simp
    next
      case 3
      let ?o = "off + sum_list (map length bs)"
      have "script_size sc' + length buf2 < script_size sc + length buf" using x 3 em(3) by simp
      from less.hyps [OF this, of emp' d' ?o s1] d(3) 3
      obtain bs' rest where ih: "payloads c (buf2 @ d') = bs' @ rest" "r = None \<longrightarrow> rest = []"
        "stream_loop c fn sc' buf2 False emp' (int ?o) s1 =
         Some (case feed fn s1 (items ?o bs') of
               (Some e, s') \<Rightarrow> (Some (FromCallback e), s') | (None, s') \<Rightarrow> (map_option FromReader r, s'))"
        by auto
      have "feed fn s (items off (bs @ bs')) = feed fn s1 (items ?o bs')"
        using fd 3 by (simp add: items_append feed_append)
      then show ?thesis unfolding d(1) em(1) st ih(1)
        using em(5) fd 3 ih(2,3) by (intro exI [of _ "bs @ bs'"] exI [of _ rest]) simp
    qed
  qed
qed



end
