(* ===== verification/QuickSelect.thy ===== *)
theory QuickSelect
  imports Prelude "HOL-Library.Multiset"
begin

text \<open>
  The selection routine of \<^verbatim>\<open>internal/sketch/minhash.go\<close>: \<open>selectKth\<close>, Hoare's quickselect with a
  median-of-three pivot, over a slice updated in place.  An index outside the slice is \<open>None\<close> (the
  program would panic), and so is a loop that does not end; the correctness lemma shows that neither
  happens.  The order of the elements is all that matters, so the element type is any linear order;
  the program uses it at 64-bit words.
\<close>

section \<open>The loops\<close>

function scan_up :: "'a::linorder list \<Rightarrow> 'a \<Rightarrow> int \<Rightarrow> int option" where
  "scan_up a p l =
     (if l < 0 \<or> int (length a) \<le> l then None
      else if a ! nat l < p then scan_up a p (l + 1) else Some l)"
  by auto
termination by (relation "measure (\<lambda>(a, p, l). nat (int (length a) - l))") auto

function scan_down :: "'a::linorder list \<Rightarrow> 'a \<Rightarrow> int \<Rightarrow> int option" where
  "scan_down a p r =
     (if r < 0 \<or> int (length a) \<le> r then None
      else if p < a ! nat r then scan_down a p (r - 1) else Some r)"
  by auto
termination by (relation "measure (\<lambda>(a, p, r). nat (r + 1))") auto

declare scan_up.simps [simp del] scan_down.simps [simp del]

definition swap :: "'a list \<Rightarrow> int \<Rightarrow> int \<Rightarrow> 'a list" where
  "swap a i j = a[nat i := a ! nat j, nat j := a ! nat i]"

lemma scan_up_ge: "scan_up a p l = Some l' \<Longrightarrow> l \<le> l'"
  by (induction a p l rule: scan_up.induct) (subst (asm) (2) scan_up.simps, auto split: if_splits)

lemma scan_down_le: "scan_down a p r = Some r' \<Longrightarrow> r' \<le> r"
  by (induction a p r rule: scan_down.induct) (subst (asm) (2) scan_down.simps, auto split: if_splits)

function partition :: "'a::linorder list \<Rightarrow> 'a \<Rightarrow> int \<Rightarrow> int \<Rightarrow> ('a list \<times> int \<times> int) option" where
  "partition a p l r =
     (if l \<le> r then
        (case scan_up a p l of None \<Rightarrow> None | Some l' \<Rightarrow>
         (case scan_down a p r of None \<Rightarrow> None | Some r' \<Rightarrow>
           if l' \<le> r' then partition (swap a l' r') p (l' + 1) (r' - 1) else partition a p l' r'))
      else Some (a, l, r))"
  by auto
termination by (relation "measure (\<lambda>(a, p, l, r). nat (r + 1 - l))") (auto dest!: scan_up_ge scan_down_le)

declare partition.simps [simp del]

definition medianOfThree :: "'a::linorder list \<Rightarrow> int \<Rightarrow> int \<Rightarrow> 'a" where
  "medianOfThree a lo hi =
     (let x = a ! nat lo; y = a ! nat (lo + (hi - lo) div 2); z = a ! nat hi;
          (x, y) = (if x > y then (y, x) else (x, y));
          y = (if y > z then z else y)
      in if x > y then x else y)"

partial_function (option) select_loop :: "'a::linorder list \<Rightarrow> int \<Rightarrow> int \<Rightarrow> int \<Rightarrow> ('a list \<times> 'a) option" where
  "select_loop a k lo hi =
     (if lo < hi then
        Option.bind (partition a (medianOfThree a lo hi) lo hi) (\<lambda>(a, l, r).
          if k \<le> r then select_loop a k lo r
          else if l \<le> k then select_loop a k l hi
          else Some (a, a ! nat k))
      else Some (a, a ! nat k))"

definition selectKth :: "'a::linorder list \<Rightarrow> int \<Rightarrow> ('a list \<times> 'a) option" where
  "selectKth a k = select_loop a k 0 (int (length a) - 1)"

section \<open>Correctness\<close>

lemma scan_up_spec:
  assumes "0 \<le> l" "l \<le> m" "m < int (length a)" "p \<le> a ! nat m"
  shows "\<exists>l'. scan_up a p l = Some l' \<and> l \<le> l' \<and> l' \<le> m \<and> p \<le> a ! nat l' \<and> (\<forall>i. l \<le> i \<and> i < l' \<longrightarrow> a ! nat i < p)"
  using assms
proof (induction a p l rule: scan_up.induct)
  case (1 a p l)
  show ?case
  proof (cases "a ! nat l < p")
    case True
    then have "l \<noteq> m" using 1 by auto
    then obtain l' where "scan_up a p (l + 1) = Some l'" "l + 1 \<le> l'" "l' \<le> m" "p \<le> a ! nat l'"
      "\<forall>i. l + 1 \<le> i \<and> i < l' \<longrightarrow> a ! nat i < p" using 1 True by auto
    moreover have "\<forall>i. l \<le> i \<and> i < l' \<longrightarrow> a ! nat i < p" using calculation(5) True by (metis add1_zle_eq le_less)
    ultimately show ?thesis using True 1 by (subst scan_up.simps) auto
  next
    case False then show ?thesis using 1 by (subst scan_up.simps) auto
  qed
qed

lemma scan_down_spec:
  assumes "r < int (length a)" "m \<le> r" "0 \<le> m" "a ! nat m \<le> p"
  shows "\<exists>r'. scan_down a p r = Some r' \<and> r' \<le> r \<and> m \<le> r' \<and> a ! nat r' \<le> p \<and> (\<forall>i. r' < i \<and> i \<le> r \<longrightarrow> p < a ! nat i)"
  using assms
proof (induction a p r rule: scan_down.induct)
  case (1 a p r)
  show ?case
  proof (cases "p < a ! nat r")
    case True
    then have "r \<noteq> m" using 1 by auto
    then obtain r' where "scan_down a p (r - 1) = Some r'" "r' \<le> r - 1" "m \<le> r'" "a ! nat r' \<le> p"
      "\<forall>i. r' < i \<and> i \<le> r - 1 \<longrightarrow> p < a ! nat i" using 1 True by auto
    moreover have "\<forall>i. r' < i \<and> i \<le> r \<longrightarrow> p < a ! nat i" using calculation(5) True by (metis le_less zle_diff1_eq)
    ultimately show ?thesis using True 1 by (subst scan_down.simps) auto
  next
    case False then show ?thesis using 1 by (subst scan_down.simps) auto
  qed
qed

lemma length_swap [simp]: "length (swap a i j) = length a"
  by (simp add: swap_def)

lemma mset_swap_int: "0 \<le> i \<Longrightarrow> 0 \<le> j \<Longrightarrow> i < int (length a) \<Longrightarrow> j < int (length a) \<Longrightarrow> mset (swap a i j) = mset a"
  unfolding swap_def by (rule mset_swap) auto

lemma swap_nth:
  "0 \<le> i \<Longrightarrow> 0 \<le> j \<Longrightarrow> i < int (length a) \<Longrightarrow> j < int (length a) \<Longrightarrow> 0 \<le> m \<Longrightarrow> m < int (length a) \<Longrightarrow>
   swap a i j ! nat m = (if m = j then a ! nat i else if m = i then a ! nat j else a ! nat m)"
  by (auto simp: swap_def nth_list_update)

text \<open>The two sides of a slice against a pivot.\<close>

definition sides :: "'a::linorder list \<Rightarrow> 'a \<Rightarrow> int \<Rightarrow> int \<Rightarrow> int \<Rightarrow> int \<Rightarrow> bool" where
  "sides a p lo hi l r \<longleftrightarrow> (\<forall>i. lo \<le> i \<and> i < l \<longrightarrow> a ! nat i \<le> p) \<and> (\<forall>i. r < i \<and> i \<le> hi \<longrightarrow> p \<le> a ! nat i)"

text \<open>Only the window moves, and only within itself.\<close>

definition moved :: "int \<Rightarrow> int \<Rightarrow> 'a list \<Rightarrow> 'a list \<Rightarrow> bool" where
  "moved lo hi a a' \<longleftrightarrow> (\<forall>i. lo \<le> i \<and> i \<le> hi \<longrightarrow> (\<exists>j. lo \<le> j \<and> j \<le> hi \<and> a' ! nat i = a ! nat j))
     \<and> (\<forall>i. 0 \<le> i \<and> i < int (length a) \<and> (i < lo \<or> hi < i) \<longrightarrow> a' ! nat i = a ! nat i)"

lemma moved_in: "moved lo hi a a' \<Longrightarrow> lo \<le> i \<Longrightarrow> i \<le> hi \<Longrightarrow> \<exists>j. lo \<le> j \<and> j \<le> hi \<and> a' ! nat i = a ! nat j"
  and moved_out: "moved lo hi a a' \<Longrightarrow> 0 \<le> i \<Longrightarrow> i < int (length a) \<Longrightarrow> i < lo \<or> hi < i \<Longrightarrow> a' ! nat i = a ! nat i"
  by (simp_all add: moved_def)

lemma moved_refl: "moved lo hi a a"
  by (auto simp: moved_def)

lemma moved_trans:
  assumes "moved lo hi a b" "moved lo hi b c" "length b = length a"
  shows "moved lo hi a c"
  unfolding moved_def
proof (intro conjI allI impI)
  fix i assume "lo \<le> i \<and> i \<le> hi"
  then obtain j where j: "lo \<le> j" "j \<le> hi" "c ! nat i = b ! nat j" using moved_in [OF assms(2)] by blast
  then show "\<exists>j. lo \<le> j \<and> j \<le> hi \<and> c ! nat i = a ! nat j" using moved_in [OF assms(1), of j] by auto
next
  fix i assume "0 \<le> i \<and> i < int (length a) \<and> (i < lo \<or> hi < i)"
  then show "c ! nat i = a ! nat i" using moved_out [OF assms(1), of i] moved_out [OF assms(2), of i] assms(3) by simp
qed

lemma moved_swap:
  assumes "0 \<le> lo" "hi < int (length a)" "lo \<le> i" "i \<le> j" "j \<le> hi"
  shows "moved lo hi a (swap a i j)"
  unfolding moved_def
proof (intro conjI allI impI)
  fix m assume "lo \<le> m \<and> m \<le> hi"
  then have "swap a i j ! nat m = a ! nat (if m = j then i else if m = i then j else m)"
    using assms by (simp add: swap_nth)
  then show "\<exists>n. lo \<le> n \<and> n \<le> hi \<and> swap a i j ! nat m = a ! nat n"
    using assms \<open>lo \<le> m \<and> m \<le> hi\<close> by (intro exI [of _ "if m = j then i else if m = i then j else m"]) auto
qed (use assms in \<open>auto simp: swap_nth\<close>)

lemma partition_spec:
  assumes "0 \<le> lo" "hi < int (length a)" "lo \<le> l" "r \<le> hi" "l \<le> hi + 1" "lo \<le> r + 1"
    "sides a p lo hi l r"
    "l \<le> r \<longrightarrow> (\<exists>i. l \<le> i \<and> i \<le> hi \<and> p \<le> a ! nat i) \<and> (\<exists>i. lo \<le> i \<and> i \<le> r \<and> a ! nat i \<le> p)"
  shows "\<exists>a' l' r'. partition a p l r = Some (a', l', r') \<and> mset a' = mset a
    \<and> moved lo hi a a'
    \<and> sides a' p lo hi l' r' \<and> r' < l' \<and> l \<le> l' \<and> r' \<le> r \<and> l' \<le> hi + 1 \<and> lo \<le> r' + 1
    \<and> ((\<exists>m. l \<le> m \<and> m \<le> r \<and> a ! nat m = p) \<longrightarrow> l < l' \<and> r' < r)"
  using assms
proof (induction a p l r rule: partition.induct)
  case (1 a p l r)
  note b = "1.prems"
  show ?case
  proof (cases "l \<le> r")
    case False then show ?thesis using b moved_refl by (subst partition.simps) auto
  next
    case True
    obtain m where m: "l \<le> m" "m \<le> hi" "p \<le> a ! nat m" using b True by blast
    obtain n where n: "lo \<le> n" "n \<le> r" "a ! nat n \<le> p" using b True by blast
    obtain l1 where l1: "scan_up a p l = Some l1" "l \<le> l1" "l1 \<le> m" "p \<le> a ! nat l1"
      "\<forall>i. l \<le> i \<and> i < l1 \<longrightarrow> a ! nat i < p"
      using scan_up_spec [of l m a p] b m by auto
    obtain r1 where r1: "scan_down a p r = Some r1" "r1 \<le> r" "n \<le> r1" "a ! nat r1 \<le> p"
      "\<forall>i. r1 < i \<and> i \<le> r \<longrightarrow> p < a ! nat i"
      using scan_down_spec [of r a n p] b n by auto
    have sd: "sides a p lo hi l1 r1"
      unfolding sides_def
    proof (intro conjI allI impI)
      show "a ! nat i \<le> p" if "lo \<le> i \<and> i < l1" for i
        using that b(7) l1(5) by (cases "i < l") (auto simp: sides_def less_imp_le)
      show "p \<le> a ! nat i" if "r1 < i \<and> i \<le> hi" for i
        using that b(7) r1(5) by (cases "r < i") (auto simp: sides_def less_imp_le)
    qed
    show ?thesis
    proof (cases "l1 \<le> r1")
      case False
      have no: "\<not> (\<exists>m. l \<le> m \<and> m \<le> r \<and> a ! nat m = p)"
      proof
        assume "\<exists>m. l \<le> m \<and> m \<le> r \<and> a ! nat m = p"
        then obtain q where "l \<le> q" "q \<le> r" "a ! nat q = p" by blast
        then have "\<not> q < l1" "\<not> r1 < q" using l1(5) r1(5) by auto
        then show False using False by simp
      qed
      have "partition a p l r = Some (a, l1, r1)"
        using True l1(1) r1(1) False by (simp add: partition.simps)
      moreover have "r1 < l1" "l1 \<le> hi + 1" "lo \<le> r1 + 1" using False l1(3) r1(3) m n by linarith+
      ultimately show ?thesis using sd l1(2) r1(2) moved_refl [of lo hi a]
        by - (rule exI [of _ a], rule exI [of _ l1], rule exI [of _ r1], simp, use no in blast)
    next
      case lr: True
      let ?a = "swap a l1 r1"
      have idx: "0 \<le> l1" "0 \<le> r1" "l1 < int (length a)" "r1 < int (length a)" using l1 r1 m n b by auto
      note sw = swap_nth [OF idx(1) idx(2) idx(3) idx(4)]
      have st: "partition a p l r = partition ?a p (l1 + 1) (r1 - 1)"
        using True l1(1) r1(1) lr by (subst partition.simps) simp
      have sd': "sides ?a p lo hi (l1 + 1) (r1 - 1)" using sd l1(4) r1(4) idx b(1,2) lr unfolding sides_def
        by (auto simp: sw)
      have sent: "l1 + 1 \<le> r1 - 1 \<longrightarrow> (\<exists>i. l1 + 1 \<le> i \<and> i \<le> hi \<and> p \<le> ?a ! nat i)
          \<and> (\<exists>i. lo \<le> i \<and> i \<le> r1 - 1 \<and> ?a ! nat i \<le> p)"
      proof (intro impI conjI)
        assume "l1 + 1 \<le> r1 - 1"
        then show "\<exists>i. l1 + 1 \<le> i \<and> i \<le> hi \<and> p \<le> ?a ! nat i"
          using l1(4) r1(2) idx b(4) by (intro exI [of _ r1]) (auto simp: sw)
        show "\<exists>i. lo \<le> i \<and> i \<le> r1 - 1 \<and> ?a ! nat i \<le> p"
          using \<open>l1 + 1 \<le> r1 - 1\<close> l1(2) r1(4) idx b(3) by (intro exI [of _ l1]) (auto simp: sw)
      qed
      obtain a' l' r' where r: "partition ?a p (l1 + 1) (r1 - 1) = Some (a', l', r')" "mset a' = mset ?a"
        "moved lo hi ?a a'"
        "sides a' p lo hi l' r'" "r' < l'" "l1 + 1 \<le> l'" "r' \<le> r1 - 1" "l' \<le> hi + 1" "lo \<le> r' + 1"
        using "1.IH"(1) [OF True l1(1) r1(1) lr b(1) _ _ _ _ _ sd' sent] b l1 r1 m n lr by auto
      have "moved lo hi a ?a" using b(1-4) l1(2) r1(2) lr by (intro moved_swap) auto
      then have "moved lo hi a a'" using r(3) by (rule moved_trans) simp
      then show ?thesis
        using r l1(2) r1(2) mset_swap_int [OF idx(1) idx(2) idx(3) idx(4)] unfolding st by auto
    qed
  qed
qed

lemma medianOfThree_mem:
  assumes "lo \<le> hi"
  shows "\<exists>m. lo \<le> m \<and> m \<le> hi \<and> a ! nat m = medianOfThree a lo hi"
proof -
  have "medianOfThree a lo hi \<in> {a ! nat lo, a ! nat (lo + (hi - lo) div 2), a ! nat hi}"
    by (simp add: medianOfThree_def Let_def)
  moreover have "lo \<le> lo + (hi - lo) div 2" "lo + (hi - lo) div 2 \<le> hi" using assms by auto
  ultimately show ?thesis using assms
    by (elim insertE) (auto intro: exI [of _ lo] exI [of _ "lo + (hi - lo) div 2"] exI [of _ hi])
qed

text \<open>What a selection leaves: position \<open>k\<close> separates the smaller from the larger elements.\<close>

definition selected :: "'a::linorder list \<Rightarrow> int \<Rightarrow> bool" where
  "selected a k \<longleftrightarrow> (\<forall>i j. 0 \<le> i \<and> i \<le> k \<and> k \<le> j \<and> j < int (length a) \<longrightarrow> a ! nat i \<le> a ! nat j)"

text \<open>The invariant of the outer loop: the window holds position \<open>k\<close>, what is left of it is
  below, what is right of it above everything in it.\<close>

definition window :: "'a::linorder list \<Rightarrow> int \<Rightarrow> int \<Rightarrow> int \<Rightarrow> bool" where
  "window a k lo hi \<longleftrightarrow> 0 \<le> lo \<and> lo \<le> k \<and> k \<le> hi \<and> hi < int (length a)
     \<and> (\<forall>i j. 0 \<le> i \<and> i < lo \<and> lo \<le> j \<and> j < int (length a) \<longrightarrow> a ! nat i \<le> a ! nat j)
     \<and> (\<forall>i j. 0 \<le> i \<and> i \<le> hi \<and> hi < j \<and> j < int (length a) \<longrightarrow> a ! nat i \<le> a ! nat j)"

lemma window_done:
  assumes w: "window a k lo hi" and e: "\<not> lo < hi"
  shows "selected a k"
  unfolding selected_def
proof (intro allI impI)
  fix i j assume ij: "0 \<le> i \<and> i \<le> k \<and> k \<le> j \<and> j < int (length a)"
  have k: "lo = k" "hi = k" using w e by (auto simp: window_def)
  show "a ! nat i \<le> a ! nat j"
  proof (cases "i < k")
    case True then show ?thesis using w ij unfolding window_def k by auto
  next
    case False
    then have "i = k" using ij by simp
    then show ?thesis using w ij unfolding window_def k by (cases "j = k") auto
  qed
qed

text \<open>After a partition the parts of the window keep their place against the rest.\<close>

lemma window_moved:
  assumes w: "window a k lo hi" and mv: "moved lo hi a a'" "length a' = length a"
  shows "window a' k lo hi"
proof -
  have b: "0 \<le> lo" "hi < int (length a)" "lo \<le> k" "k \<le> hi" using w by (auto simp: window_def)
  have low: "a' ! nat i \<le> a' ! nat j" if ij: "0 \<le> i" "i < lo" "lo \<le> j" "j < int (length a)" for i j
  proof -
    obtain j' where "lo \<le> j'" "j' < int (length a)" "a' ! nat j = a ! nat j'"
    proof (cases "j \<le> hi")
      case True then show ?thesis using moved_in [OF mv(1), of j] ij b that by auto
    next
      case False then show ?thesis using moved_out [OF mv(1), of j] ij b that [of j] by auto
    qed
    moreover have "a' ! nat i = a ! nat i" using moved_out [OF mv(1), of i] ij b by auto
    ultimately show ?thesis using w ij by (auto simp: window_def)
  qed
  have high: "a' ! nat i \<le> a' ! nat j" if ij: "0 \<le> i" "i \<le> hi" "hi < j" "j < int (length a)" for i j
  proof -
    obtain i' where "0 \<le> i'" "i' \<le> hi" "a' ! nat i = a ! nat i'"
    proof (cases "lo \<le> i")
      case True
      then obtain m where "lo \<le> m" "m \<le> hi" "a' ! nat i = a ! nat m" using moved_in [OF mv(1), of i] ij by auto
      then show ?thesis using that [of m] b by auto
    next
      case False then show ?thesis using moved_out [OF mv(1), of i] ij b that [of i] by auto
    qed
    moreover have "a' ! nat j = a ! nat j" using moved_out [OF mv(1), of j] ij b by auto
    ultimately show ?thesis using w ij by (auto simp: window_def)
  qed
  show ?thesis using b low high mv(2) by (auto simp: window_def)
qed

lemma window_sides:
  assumes w: "window a k lo hi" and s: "sides a p lo hi l r" and lr: "r < l" "lo \<le> r + 1" "l \<le> hi + 1"
  shows "k \<le> r \<Longrightarrow> window a k lo r" and "l \<le> k \<Longrightarrow> window a k l hi" and "r < k \<Longrightarrow> k < l \<Longrightarrow> selected a k"
proof -
  have b: "0 \<le> lo" "hi < int (length a)" "lo \<le> k" "k \<le> hi" using w by (auto simp: window_def)
  have out: "a ! nat i \<le> a ! nat j" if "0 \<le> i" "i < j" "j < int (length a)" "i < lo \<and> lo \<le> j \<or> i \<le> hi \<and> hi < j" for i j
    using w that b unfolding window_def by auto
  have cross: "a ! nat i \<le> a ! nat j" if "0 \<le> i" "i < l" "r < j" "i < j" "j < int (length a)" for i j
  proof (cases "i < lo \<or> hi < j")
    case True then show ?thesis using out [of i j] that lr by auto
  next
    case False
    then have "a ! nat i \<le> p" "p \<le> a ! nat j" using s that unfolding sides_def by auto
    then show ?thesis by simp
  qed
  show "window a k lo r" if "k \<le> r"
    using b that lr cross w unfolding window_def by auto
  show "window a k l hi" if "l \<le> k"
    using b that lr cross w unfolding window_def by auto
  show "selected a k" if "r < k" "k < l"
    unfolding selected_def
  proof (intro allI impI)
    fix i j assume "0 \<le> i \<and> i \<le> k \<and> k \<le> j \<and> j < int (length a)"
    then show "a ! nat i \<le> a ! nat j" using cross [of i j] that by (cases "i = j") auto
  qed
qed

lemma select_loop_spec:
  assumes "window a k lo hi"
  shows "\<exists>a' v. select_loop a k lo hi = Some (a', v) \<and> mset a' = mset a \<and> v = a' ! nat k \<and> selected a' k"
  using assms
proof (induction "nat (hi - lo)" arbitrary: a lo hi rule: less_induct)
  case less
  show ?case
  proof (cases "lo < hi")
    case False
    then show ?thesis using window_done [OF less.prems] by (simp add: select_loop.simps)
  next
    case True
    let ?p = "medianOfThree a lo hi"
    have b: "0 \<le> lo" "hi < int (length a)" using less.prems by (auto simp: window_def)
    obtain m where m: "lo \<le> m" "m \<le> hi" "a ! nat m = ?p" using medianOfThree_mem [of lo hi a] True by auto
    have sent: "lo \<le> hi \<longrightarrow> (\<exists>i. lo \<le> i \<and> i \<le> hi \<and> ?p \<le> a ! nat i) \<and> (\<exists>i. lo \<le> i \<and> i \<le> hi \<and> a ! nat i \<le> ?p)"
      using m by (intro impI conjI exI [of _ m]) simp_all
    have "sides a ?p lo hi lo hi" unfolding sides_def by (intro conjI allI impI; elim conjE; linarith)
    from partition_spec [OF b _ _ _ _ this sent] True
    obtain a' l r where pt: "partition a ?p lo hi = Some (a', l, r)" "mset a' = mset a" "moved lo hi a a'"
      "sides a' ?p lo hi l r" "r < l" "l \<le> hi + 1" "lo \<le> r + 1"
      "(\<exists>m. lo \<le> m \<and> m \<le> hi \<and> a ! nat m = ?p) \<longrightarrow> lo < l \<and> r < hi" by auto
    have pr: "lo < l" "r < hi" using pt(8) m by blast+
    have "length a' = length a" using pt(2) by (rule mset_eq_length)
    then have w: "window a' k lo hi" using window_moved [OF less.prems pt(3)] by simp
    note ws = window_sides [OF w pt(4,5,7,6)]
    have st: "select_loop a k lo hi =
        (if k \<le> r then select_loop a' k lo r else if l \<le> k then select_loop a' k l hi else Some (a', a' ! nat k))"
      using True pt(1) by (subst select_loop.simps) simp
    consider "k \<le> r" | "\<not> k \<le> r" "l \<le> k" | "\<not> k \<le> r" "\<not> l \<le> k" by blast
    then show ?thesis
    proof cases
      case 1
      then show ?thesis using less.hyps [of r lo a'] ws(1) pr pt(2) True unfolding st by auto
    next
      case 2
      then show ?thesis using less.hyps [of hi l a'] ws(2) pr pt(2) True unfolding st by auto
    next
      case 3
      then show ?thesis using ws(3) pt(2) unfolding st by auto
    qed
  qed
qed

lemma selectKth_spec:
  assumes "0 \<le> k" "k < int (length a)"
  obtains a' v where "selectKth a k = Some (a', v)" "mset a' = mset a" "v = a' ! nat k" "selected a' k"
  using select_loop_spec [of a k 0 "int (length a) - 1"] assms by (auto simp: selectKth_def window_def)

section \<open>The k smallest elements\<close>

definition bottom :: "nat \<Rightarrow> 'a::linorder set \<Rightarrow> 'a set" where
  "bottom k S = set (take k (sorted_list_of_set S))"

lemma bottom_props:
  assumes "finite S"
  shows "bottom k S \<subseteq> S" "card (bottom k S) = min k (card S)" "x \<in> bottom k S \<Longrightarrow> y \<in> S - bottom k S \<Longrightarrow> x < y"
proof -
  let ?l = "sorted_list_of_set S"
  have l: "set ?l = S" "distinct ?l" "sorted ?l" "length ?l = card S" using assms by simp_all
  show "bottom k S \<subseteq> S" using set_take_subset [of k ?l] l by (simp add: bottom_def)
  show "card (bottom k S) = min k (card S)"
    using distinct_card [OF distinct_take [OF l(2)], of k] l(4) by (simp add: bottom_def)
  assume x: "x \<in> bottom k S" and y: "y \<in> S - bottom k S"
  have "set ?l = set (take k ?l) \<union> set (drop k ?l)" by (metis append_take_drop_id set_append)
  then have yd: "y \<in> set (drop k ?l)" using y l(1) by (auto simp: bottom_def)
  have "sorted (take k ?l @ drop k ?l)" using l(3) by simp
  then have "x \<le> y" using x yd unfolding sorted_append by (auto simp: bottom_def)
  moreover have "x \<noteq> y" using x y by blast
  ultimately show "x < y" by simp
qed

lemma bottom_unique:
  assumes S: "finite S" and T: "T \<subseteq> S" "card T = min k (card S)" and lt: "\<And>x y. x \<in> T \<Longrightarrow> y \<in> S - T \<Longrightarrow> x < y"
  shows "bottom k S = T"
proof (rule ccontr)
  let ?B = "bottom k S"
  note b = bottom_props [OF S, where k = k]
  assume ne: "?B \<noteq> T"
  have f: "finite T" "finite ?B" using S T b finite_subset by blast+
  have "card ?B = card T" using b T by simp
  then have "\<not> ?B \<subseteq> T" "\<not> T \<subseteq> ?B" using ne f card_subset_eq by (metis, metis)
  then obtain x y where "x \<in> ?B" "x \<notin> T" "y \<in> T" "y \<notin> ?B" by blast
  then have "x < y" "y < x" using b(3) lt T b(1) by blast+
  then show False by simp
qed

lemma bottom_all: "finite S \<Longrightarrow> card S \<le> k \<Longrightarrow> bottom k S = S"
  by (rule bottom_unique) auto

text \<open>A threshold that admits at least \<open>k\<close> elements does not change the \<open>k\<close> smallest.\<close>

lemma bottom_threshold:
  assumes S: "finite S" and k: "k \<le> card {x \<in> S. x \<le> t}"
  shows "bottom k {x \<in> S. x \<le> t} = bottom k S"
proof (rule bottom_unique [symmetric, OF S])
  let ?D = "{x \<in> S. x \<le> t}"
  have D: "finite ?D" "card ?D \<le> card S" using S by (auto intro: card_mono)
  note b = bottom_props [OF D(1), where k = k]
  show "bottom k ?D \<subseteq> S" using b(1) by blast
  show "card (bottom k ?D) = min k (card S)" using b(2) k D(2) by simp
  show "x < y" if "x \<in> bottom k ?D" "y \<in> S - bottom k ?D" for x y
    using that b(1,3) by (cases "y \<le> t") force+
qed

lemma bottom_selected:
  assumes d: "distinct a" and k: "k < length a" and a': "mset a' = mset a" "selected a' (int k)"
  shows "set (take (Suc k) a') = bottom (Suc k) (set a)" "set (take (Suc k) a') = {x \<in> set a. x \<le> a' ! k}"
    "distinct (take (Suc k) a')" "length (take (Suc k) a') = Suc k"
proof -
  have s: "set a' = set a" "length a' = length a" "distinct a'"
    using mset_eq_setD [OF a'(1)] mset_eq_length [OF a'(1)] mset_eq_imp_distinct_iff [OF a'(1)] d by auto
  have le: "a' ! i \<le> a' ! j" if "i \<le> k" "k \<le> j" "j < length a" for i j
    using a'(2) that s unfolding selected_def by (metis nat_int of_nat_le_iff of_nat_less_iff of_nat_0_le_iff)
  show dt: "distinct (take (Suc k) a')" using s by simp
  show lt: "length (take (Suc k) a') = Suc k" using k s by simp
  have tk: "x \<in> set (take (Suc k) a') \<longleftrightarrow> (\<exists>i \<le> k. x = a' ! i)" for x
    using k s by (auto simp: in_set_conv_nth less_Suc_eq_le) 
  have out: "\<exists>j > k. j < length a \<and> y = a' ! j" if "y \<in> set a" "y \<notin> set (take (Suc k) a')" for y
    using that s tk by (metis in_set_conv_nth linorder_not_less)
  have sep: "x < y" if "x \<in> set (take (Suc k) a')" "y \<in> set a - set (take (Suc k) a')" for x y
  proof -
    have "x \<le> y" using that out [of y] tk [of x] le by auto
    then show ?thesis using that by (cases "x = y") auto
  qed
  have c: "card (set (take (Suc k) a')) = min (Suc k) (card (set a))"
    using distinct_card [OF dt] lt distinct_card [OF d] k by simp
  have sub: "set (take (Suc k) a') \<subseteq> set a" using s set_take_subset by metis
  show "set (take (Suc k) a') = bottom (Suc k) (set a)"
    by (rule bottom_unique [symmetric]) (use sub c sep in auto)
  have "a' ! k \<in> set (take (Suc k) a')" using tk by blast
  then have "x \<in> set (take (Suc k) a')" if "x \<in> set a" "x \<le> a' ! k" for x
    using sep [of "a' ! k" x] that by (auto simp: not_less [symmetric])
  moreover have "x \<le> a' ! k" if "x \<in> set (take (Suc k) a')" for x
    using that le [of _ k] k unfolding tk by auto
  ultimately show "set (take (Suc k) a') = {x \<in> set a. x \<le> a' ! k}" using sub by blast
qed

end
