(* ===== verification/ShingleSet.thy ===== *)
theory ShingleSet
  imports Prelude
begin

unbundle bit_operations_syntax

text \<open>
  The open-addressed set of \<^verbatim>\<open>internal/sketch/minhash.go\<close>: a power-of-two table probed linearly
  from a multiplicatively mixed home slot, with 0 as the empty marker and a flag for the member 0.
  The probe loop would not end on a full table, and is a partial function; an index outside the
  table would panic, and is \<open>None\<close> too.  The abstraction is the set of members.
\<close>

record shingleSet =
  slots :: "u64 list"
  shift :: nat
  zero :: bool

definition shingleSetMix :: u64 where "shingleSetMix = 0x9E3779B97F4A7C15"

definition newShingleSet :: "nat \<Rightarrow> shingleSet" where
  "newShingleSet n =
     (let width = bits_Len (2 * n - 1)
      in \<lparr>slots = replicate (2 ^ width) 0, shift = 64 - width, zero = False\<rparr>)"

text \<open>The loop of \<open>add\<close>: \<open>Some None\<close> when \<open>h\<close> is met, else the first empty slot.\<close>

partial_function (option) probe :: "u64 list \<Rightarrow> u64 \<Rightarrow> nat \<Rightarrow> nat option option" where
  "probe sl h i =
     (if length sl \<le> i then None
      else if sl ! i = 0 then Some (Some i)
      else if sl ! i = h then Some None
      else probe sl h (if i + 1 = length sl then 0 else i + 1))"

definition home :: "nat \<Rightarrow> u64 \<Rightarrow> nat" where
  "home sh h = unat (drop_bit sh (h * shingleSetMix))"

definition add :: "shingleSet \<Rightarrow> u64 \<Rightarrow> (shingleSet \<times> bool) option" where
  "add s h =
     (if h = 0 then Some (if zero s then (s, False) else (s\<lparr>zero := True\<rparr>, True))
      else case probe (slots s) h (home (shift s) h) of
             None \<Rightarrow> None
           | Some None \<Rightarrow> Some (s, False)
           | Some (Some i) \<Rightarrow> Some (s\<lparr>slots := (slots s)[i := h]\<rparr>, True))"

definition reset :: "shingleSet \<Rightarrow> shingleSet" where
  "reset s = s\<lparr>slots := replicate (length (slots s)) 0, zero := False\<rparr>"

section \<open>The set it holds\<close>

definition members :: "shingleSet \<Rightarrow> u64 set" where
  "members s = (set (slots s) - {0}) \<union> (if zero s then {0} else {})"

definition filled :: "shingleSet \<Rightarrow> nat" where
  "filled s = length (filter (\<lambda>x. x \<noteq> 0) (slots s))"

text \<open>Every member is reached from its home slot over occupied slots.\<close>

definition chained :: "(u64 \<Rightarrow> nat) \<Rightarrow> u64 list \<Rightarrow> bool" where
  "chained hm sl \<longleftrightarrow> (\<forall>i < length sl. sl ! i \<noteq> 0 \<longrightarrow>
     (\<exists>d. (hm (sl ! i) + d) mod length sl = i \<and> (\<forall>j < d. sl ! ((hm (sl ! i) + j) mod length sl) \<noteq> 0)))"

definition set_ok :: "shingleSet \<Rightarrow> bool" where
  "set_ok s \<longleftrightarrow> (\<exists>w \<le> 64. length (slots s) = 2 ^ w \<and> shift s = 64 - w) \<and> chained (home (shift s)) (slots s)"

lemma home_less: "w \<le> 64 \<Longrightarrow> home (64 - w) h < 2 ^ w"
proof -
  assume w: "w \<le> 64"
  have "unat (h * shingleSetMix) < 2 ^ 64" using unsigned_less [of "h * shingleSetMix"] by simp
  also have "(2::nat) ^ 64 = 2 ^ w * 2 ^ (64 - w)" using w by (simp flip: power_add)
  finally show ?thesis
    by (simp only: home_def unat_drop_bit_eq drop_bit_nat_def less_mult_imp_div_less)
qed

lemma probe_find:
  "(\<forall>j < d. sl ! ((i + j) mod length sl) \<notin> {0, h}) \<Longrightarrow> sl ! ((i + d) mod length sl) \<in> {0, h} \<Longrightarrow> i < length sl \<Longrightarrow>
   probe sl h i = Some (if sl ! ((i + d) mod length sl) = 0 then Some ((i + d) mod length sl) else None)"
proof (induction d arbitrary: i)
  case 0 then show ?case by (subst probe.simps) auto
next
  case (Suc d)
  obtain k where k: "k = (if i + 1 = length sl then 0 else i + 1)" by blast
  have eq: "(k + j) mod length sl = (i + Suc j) mod length sl" for j
  proof (cases "i + 1 = length sl")
    case True
    then have e: "i + Suc j = length sl + j" by simp
    show ?thesis unfolding e using True k by simp
  qed (use k in simp)
  have "probe sl h k = Some (if sl ! ((k + d) mod length sl) = 0 then Some ((k + d) mod length sl) else None)"
  proof (rule Suc.IH)
    show "\<forall>j < d. sl ! ((k + j) mod length sl) \<notin> {0, h}" unfolding eq using Suc.prems(1) by auto
    show "sl ! ((k + d) mod length sl) \<in> {0, h}" unfolding eq by (rule Suc.prems(2))
    show "k < length sl" using Suc.prems(3) unfolding k by auto
  qed
  moreover have "sl ! i \<notin> {0, h}" using Suc.prems(1) [rule_format, of 0] Suc.prems(3) by simp
  moreover have "probe sl h i = probe sl h k" if "sl ! i \<notin> {0, h}"
    using that Suc.prems(3) unfolding k by (subst probe.simps) simp
  ultimately show ?case unfolding eq by simp
qed

lemma probe_member:
  assumes ch: "chained hm sl" and h: "h \<in> set sl" "h \<noteq> 0" and hm: "hm h < length sl"
  shows "probe sl h (hm h) = Some None"
proof -
  let ?at = "\<lambda>j. sl ! ((hm h + j) mod length sl)"
  obtain i where i: "i < length sl" "sl ! i = h" using h by (auto simp: in_set_conv_nth)
  obtain d where d: "(hm h + d) mod length sl = i" "\<forall>j < d. ?at j \<noteq> 0"
    using ch i h unfolding chained_def by (metis)
  define m where "m = (LEAST j. ?at j \<in> {0, h})"
  have P: "?at d \<in> {0, h}" using d i by simp
  have m: "?at m \<in> {0, h}" "\<forall>j < m. ?at j \<notin> {0, h}" "m \<le> d"
    unfolding m_def using LeastI [of "\<lambda>j. ?at j \<in> {0, h}", OF P] not_less_Least Least_le [of "\<lambda>j. ?at j \<in> {0, h}", OF P] by auto
  have "?at m \<noteq> 0"
  proof (cases "m = d")
    case True then show ?thesis using d i h by simp
  next
    case False then show ?thesis using d(2) m(3) by simp
  qed
  then show ?thesis using probe_find [OF m(2) m(1) hm] by simp
qed

lemma probe_new:
  assumes h: "h \<notin> set sl" "h \<noteq> 0" and hm: "hm h < length sl" and room: "0 \<in> set sl"
  obtains d where "probe sl h (hm h) = Some (Some ((hm h + d) mod length sl))" "sl ! ((hm h + d) mod length sl) = 0"
    "\<forall>j < d. sl ! ((hm h + j) mod length sl) \<noteq> 0"
proof -
  let ?n = "length sl"
  let ?at = "\<lambda>j. sl ! ((hm h + j) mod ?n)"
  obtain i where i: "i < ?n" "sl ! i = 0" using room by (auto simp: in_set_conv_nth)
  have "(hm h + (?n - hm h + i)) mod ?n = i" using hm i by simp
  then have P: "?at (?n - hm h + i) = 0" using i by simp
  define m where "m = (LEAST j. ?at j = 0)"
  have m: "?at m = 0" "\<forall>j < m. ?at j \<noteq> 0"
    unfolding m_def using LeastI [of "\<lambda>j. ?at j = 0", OF P] not_less_Least by auto
  have "?at j \<noteq> h" for j using h hm by (metis mod_less_divisor nth_mem less_nat_zero_code neq0_conv)
  then have "probe sl h (hm h) = Some (Some ((hm h + m) mod ?n))" using probe_find [of m sl "hm h" h] m hm by auto
  then show ?thesis using m by (rule that)
qed

lemma filter_update_zero:
  assumes "i < length sl" "sl ! i = 0" "h \<noteq> 0"
  shows "length (filter (\<lambda>x. x \<noteq> 0) (sl[i := h])) = Suc (length (filter (\<lambda>x. x \<noteq> (0::u64)) sl))"
proof -
  obtain xs ys where "sl = xs @ 0 # ys" "sl[i := h] = xs @ h # ys"
    using id_take_nth_drop [OF assms(1)] upd_conv_take_nth_drop [OF assms(1)] assms(2) by metis
  then show ?thesis using assms(3) by (simp only: filter_append filter.simps length_append) simp
qed

lemma set_update_zero:
  assumes "i < length sl" "sl ! i = 0"
  shows "set (sl[i := h]) - {0} = insert h (set sl) - {0}"
proof -
  obtain xs ys where "sl = xs @ 0 # ys" "sl[i := h] = xs @ h # ys"
    using id_take_nth_drop [OF assms(1)] upd_conv_take_nth_drop [OF assms(1)] assms(2) by metis
  then have "set sl = set xs \<union> {0} \<union> set ys" "set (sl[i := h]) = set xs \<union> {h} \<union> set ys" by simp_all
  then show ?thesis by auto
qed

lemma chained_insert:
  assumes ch: "chained hm sl" and i: "i = (hm h + d) mod length sl" "sl ! i = 0" "i < length sl"
    and d: "\<forall>j < d. sl ! ((hm h + j) mod length sl) \<noteq> 0" and h: "h \<noteq> 0"
  shows "chained hm (sl[i := h])"
  unfolding chained_def
proof (intro allI impI)
  fix m assume m: "m < length (sl[i := h])" "sl[i := h] ! m \<noteq> 0"
  have nz: "sl ! j \<noteq> 0 \<Longrightarrow> sl[i := h] ! j \<noteq> 0" for j using h i(3) by (cases "j = i") auto
  show "\<exists>d. (hm (sl[i := h] ! m) + d) mod length (sl[i := h]) = m \<and>
      (\<forall>j < d. sl[i := h] ! ((hm (sl[i := h] ! m) + j) mod length (sl[i := h])) \<noteq> 0)"
  proof (cases "m = i")
    case True
    then show ?thesis using i d nz m by (intro exI [of _ d]) simp
  next
    case False
    then have e: "sl[i := h] ! m = sl ! m" "sl ! m \<noteq> 0" "m < length sl" using m by auto
    then obtain d' where "(hm (sl ! m) + d') mod length sl = m" "\<forall>j < d'. sl ! ((hm (sl ! m) + j) mod length sl) \<noteq> 0"
      using ch unfolding chained_def by blast
    then show ?thesis unfolding e(1) using nz by (intro exI [of _ d']) simp
  qed
qed

lemma add_spec:
  assumes ok: "set_ok s" and room: "filled s < length (slots s)"
  shows "\<exists>s'. add s h = Some (s', h \<notin> members s) \<and> set_ok s' \<and> members s' = insert h (members s)
    \<and> length (slots s') = length (slots s) \<and> filled s' \<le> Suc (filled s) \<and> (h \<in> members s \<longrightarrow> s' = s)"
proof (cases "h = 0")
  case True
  then show ?thesis using ok by (auto simp: add_def members_def set_ok_def filled_def)
next
  case False
  obtain w where w: "w \<le> 64" "length (slots s) = 2 ^ w" "shift s = 64 - w" using ok by (auto simp: set_ok_def)
  have hm: "home (shift s) h < length (slots s)" using home_less [OF w(1)] w by simp
  have ch: "chained (home (shift s)) (slots s)" using ok by (simp add: set_ok_def)
  show ?thesis
  proof (cases "h \<in> set (slots s)")
    case True
    then show ?thesis using probe_member [OF ch True False hm] False ok
      by (auto simp: add_def members_def)
  next
    case new: False
    have "0 \<in> set (slots s)"
    proof (rule ccontr)
      assume "0 \<notin> set (slots s)"
      then have "filter (\<lambda>x. x \<noteq> 0) (slots s) = slots s" by (intro filter_True) auto
      then show False using room by (simp add: filled_def)
    qed
    then obtain d where d: "probe (slots s) h (home (shift s) h) = Some (Some ((home (shift s) h + d) mod length (slots s)))"
      "slots s ! ((home (shift s) h + d) mod length (slots s)) = 0"
      "\<forall>j < d. slots s ! ((home (shift s) h + j) mod length (slots s)) \<noteq> 0"
      using probe_new [where hm = "home (shift s)", OF new False hm] by blast
    let ?i = "(home (shift s) h + d) mod length (slots s)"
    have i: "?i < length (slots s)" using hm by (intro mod_less_divisor) auto
    have "chained (home (shift s)) ((slots s)[?i := h])" by (rule chained_insert [OF ch refl d(2) i d(3) False])
    moreover have "filled (s\<lparr>slots := (slots s)[?i := h]\<rparr>) = Suc (filled s)"
      using filter_update_zero [OF i d(2) False] by (simp add: filled_def)
    moreover have "members (s\<lparr>slots := (slots s)[?i := h]\<rparr>) = insert h (members s)"
      using set_update_zero [OF i d(2), of h] False by (auto simp: members_def)
    moreover have "h \<notin> members s" using new False by (auto simp: members_def)
    ultimately show ?thesis using d(1) False w by (auto simp: add_def set_ok_def)
  qed
qed

lemma reset_spec:
  "set_ok s \<Longrightarrow> set_ok (reset s) \<and> members (reset s) = {} \<and> filled (reset s) = 0 \<and> length (slots (reset s)) = length (slots s)"
  by (auto simp: set_ok_def reset_def members_def filled_def chained_def)

lemma newShingleSet_spec:
  assumes "bits_Len (2 * n - 1) \<le> 64"
  shows "set_ok (newShingleSet n)" "members (newShingleSet n) = {}" "filled (newShingleSet n) = 0"
    "length (slots (newShingleSet n)) = 2 ^ bits_Len (2 * n - 1)"
  using assms by (auto simp: newShingleSet_def Let_def set_ok_def members_def filled_def chained_def)

end
