(* ===== verification/MinHash.thy ===== *)
theory MinHash
  imports QuickSelect ShingleSet SketchCodec SketchHash
begin

unbundle bit_operations_syntax

text \<open>
  MinHash signatures, \<^verbatim>\<open>internal/sketch/minhash.go\<close>: shingle hashing, the bottom-k sampler with its
  threshold, its open-addressed set and its quickselect trims, the permutation minima, comparison
  and the codec.  The sampler is shown to keep exactly the \<open>k\<close> smallest distinct shingle hashes, so
  the signature is a function of the set of shingles of the document.
\<close>

abbreviation DefaultShingleSize :: int where "DefaultShingleSize \<equiv> 8"
abbreviation storeShingleSize :: nat where "storeShingleSize \<equiv> 5"
abbreviation minShingleSize :: int where "minShingleSize \<equiv> 2"
abbreviation maxShingleSize :: int where "maxShingleSize \<equiv> 64"
abbreviation MinPermutations :: int where "MinPermutations \<equiv> 16"
abbreviation MaxPermutations :: int where "MaxPermutations \<equiv> 512"
abbreviation shingleChunk :: nat where "shingleChunk \<equiv> 1024"

definition MinHashSampleTarget :: nat where "MinHashSampleTarget = 8192"

text \<open>\<^verbatim>\<open>sampleSeedSlack * MinHashSampleTarget\<close> and \<^verbatim>\<open>sampleBufferSlack * MinHashSampleTarget\<close>.\<close>

definition seedAdmit :: nat where "seedAdmit = 2 * MinHashSampleTarget"
definition sampleCapacity :: nat where "sampleCapacity = 2 * MinHashSampleTarget"

record MinHashOptions =
  Enabled :: bool
  Permutations :: int
  ShingleSize :: int
  NearDupThreshold :: f64

record Signature =
  Perms :: u16
  Mins :: "u64 list"

section \<open>Hashing shingles\<close>

definition hashShingles5 :: "nat \<Rightarrow> bytes \<Rightarrow> u64 list" where
  "hashShingles5 n d =
     map (\<lambda>i. let s = gslice d i (i + storeShingleSize);
                  h = (14695981039346656037 XOR ucast (s ! 0)) * 1099511628211;
                  h = (h XOR ucast (s ! 1)) * 1099511628211;
                  h = (h XOR ucast (s ! 2)) * 1099511628211;
                  h = (h XOR ucast (s ! 3)) * 1099511628211
              in (h XOR ucast (s ! 4)) * 1099511628211) [0..<n]"

text \<open>\<open>n\<close> is \<^verbatim>\<open>len(dst)\<close>; the result is the filled slice.\<close>

definition hashShingles :: "nat \<Rightarrow> bytes \<Rightarrow> nat \<Rightarrow> nat \<Rightarrow> u64 list" where
  "hashShingles n data off w =
     (if w = storeShingleSize then hashShingles5 n (gslice data off (off + n + storeShingleSize - 1))
      else if w = 8 then map (\<lambda>i. fnv1a64 (gslice data (off + i) (off + i + 8))) [0..<n]
      else map (\<lambda>i. fnv1a64 (gslice data (off + i) (off + i + w))) [0..<n])"

definition permuteInto :: "u64 list \<Rightarrow> u64 list \<Rightarrow> u64 list \<Rightarrow> u64 list \<Rightarrow> u64 list" where
  "permuteInto mins a b hashes =
     foldl (\<lambda>m h. map (\<lambda>j. let v = a ! j * h + b ! j in if v < m ! j then v else m ! j) [0..<length a]) mins hashes"

section \<open>The sampler\<close>

text \<open>A loop over a list whose body may panic.\<close>

fun fold_opt :: "('s \<Rightarrow> 'x \<Rightarrow> 's option) \<Rightarrow> 's \<Rightarrow> 'x list \<Rightarrow> 's option" where
  "fold_opt f s [] = Some s"
| "fold_opt f s (x # xs) = (case f s x of None \<Rightarrow> None | Some s' \<Rightarrow> fold_opt f s' xs)"

record sampler =
  keep :: u64
  seen :: shingleSet
  sample :: "u64 list"

definition add_seen :: "shingleSet \<Rightarrow> u64 \<Rightarrow> shingleSet option" where
  "add_seen s v = map_option fst (add s v)"

definition sample_step :: "sampler \<Rightarrow> u64 \<Rightarrow> sampler option" where
  "sample_step st h =
     (if h > keep st then Some st
      else case add (seen st) h of None \<Rightarrow> None | Some (sn, new) \<Rightarrow>
        if \<not> new then Some (st\<lparr>seen := sn\<rparr>)
        else let smp = sample st @ [h] in
          if length smp < sampleCapacity then Some (st\<lparr>seen := sn, sample := smp\<rparr>)
          else case selectKth smp (int MinHashSampleTarget - 1) of None \<Rightarrow> None | Some (smp, kp) \<Rightarrow>
            let smp = take MinHashSampleTarget smp in
            case fold_opt add_seen (reset sn) smp of None \<Rightarrow> None | Some sn \<Rightarrow>
              Some \<lparr>keep = kp, seen = sn, sample = smp\<rparr>)"

text \<open>The outer loop of \<open>distinctBelow\<close>, a batch of at most \<open>shingleChunk\<close> hashes at a time.\<close>

function sample_batches :: "bytes \<Rightarrow> nat \<Rightarrow> nat \<Rightarrow> nat \<Rightarrow> sampler \<Rightarrow> sampler option" where
  "sample_batches data w nsh off st =
     (if off < nsh then
        (case fold_opt sample_step st (hashShingles (min shingleChunk (nsh - off)) data off w) of
           None \<Rightarrow> None
         | Some st' \<Rightarrow> sample_batches data w nsh (off + shingleChunk) st')
      else Some st)"
  by auto
termination by (relation "measure (\<lambda>(data, w, nsh, off, st). nsh - off)") auto

declare sample_batches.simps [simp del]

definition distinctBelow :: "bytes \<Rightarrow> nat \<Rightarrow> nat \<Rightarrow> u64 \<Rightarrow> u64 list option" where
  "distinctBelow data w nsh kp =
     (case sample_batches data w nsh 0 \<lparr>keep = kp, seen = newShingleSet sampleCapacity, sample = []\<rparr> of
        None \<Rightarrow> None
      | Some st \<Rightarrow>
          if length (sample st) > MinHashSampleTarget
          then map_option (\<lambda>(smp, _). take MinHashSampleTarget smp) (selectKth (sample st) (int MinHashSampleTarget - 1))
          else Some (sample st))"

definition bottomKShingles :: "bytes \<Rightarrow> nat \<Rightarrow> nat \<Rightarrow> u64 list option" where
  "bottomKShingles data w nsh =
     (let kp = (if seedAdmit < nsh then (- 1) div of_nat nsh * of_nat seedAdmit else (- 1 :: u64))
      in case distinctBelow data w nsh kp of None \<Rightarrow> None | Some smp \<Rightarrow>
           if length smp < MinHashSampleTarget \<and> kp \<noteq> - 1 then distinctBelow data w nsh (- 1) else Some smp)"

section \<open>Signatures\<close>

definition coef_a :: "nat \<Rightarrow> u64 list" where
  "coef_a p = map (\<lambda>i. splitmix64 (of_nat (2 * i)) OR 1) [0..<p]"

definition coef_b :: "nat \<Rightarrow> u64 list" where
  "coef_b p = map (\<lambda>i. splitmix64 (of_nat (2 * i + 1))) [0..<p]"

text \<open>The loop over batches at or below the sample target.\<close>

function permute_batches :: "bytes \<Rightarrow> nat \<Rightarrow> nat \<Rightarrow> u64 list \<Rightarrow> u64 list \<Rightarrow> nat \<Rightarrow> u64 list \<Rightarrow> u64 list" where
  "permute_batches data w nsh a b off mins =
     (if off < nsh
      then permute_batches data w nsh a b (off + shingleChunk)
             (permuteInto mins a b (hashShingles (min shingleChunk (nsh - off)) data off w))
      else mins)"
  by auto
termination by (relation "measure (\<lambda>(data, w, nsh, a, b, off, mins). nsh - off)") auto

declare permute_batches.simps [simp del]

definition minHashWithStats :: "bytes \<Rightarrow> MinHashOptions \<Rightarrow> (Signature \<times> nat) option" where
  "minHashWithStats data opts =
     (if \<not> Enabled opts then Some (\<lparr>Perms = 0, Mins = []\<rparr>, 0)
      else let w = (if ShingleSize opts \<le> 0 then DefaultShingleSize else ShingleSize opts);
               w = nat (clampInt w minShingleSize maxShingleSize);
               p = nat (clampInt (Permutations opts) MinPermutations MaxPermutations);
               mins = replicate p (- 1);
               nsh = int (length data) - int w + 1
           in if nsh \<le> 0 then Some (\<lparr>Perms = of_nat p, Mins = mins\<rparr>, 0)
              else let nsh = nat nsh; a = coef_a p; b = coef_b p in
                if nsh > MinHashSampleTarget
                then map_option (\<lambda>smp. (\<lparr>Perms = of_nat p, Mins = permuteInto mins a b smp\<rparr>, length smp))
                       (bottomKShingles data w nsh)
                else Some (\<lparr>Perms = of_nat p, Mins = permute_batches data w nsh a b 0 mins\<rparr>, nsh))"

definition MinHash :: "bytes \<Rightarrow> MinHashOptions \<Rightarrow> Signature option" where
  "MinHash data opts = map_option fst (minHashWithStats data opts)"

text \<open>\<^verbatim>\<open>float64(eq) / float64(perms)\<close>: a quotient of two small naturals, with enough quotient bits for
  the last one to be a sticky bit.\<close>

definition f64_ratio :: "nat \<Rightarrow> nat \<Rightarrow> f64" where
  "f64_ratio n d = f64_round (2 * (n * 2 ^ 80 div d) + (if d dvd n * 2 ^ 80 then 0 else 1)) (- 81)"

definition Jaccard :: "Signature \<Rightarrow> Signature \<Rightarrow> f64" where
  "Jaccard s s' =
     (if Perms s = 0 \<or> Perms s \<noteq> Perms s' \<or> length (Mins s) \<noteq> unat (Perms s) \<or> length (Mins s') \<noteq> unat (Perms s') then 0
      else f64_ratio (length (filter (\<lambda>i. Mins s ! i = Mins s' ! i) [0..<length (Mins s)])) (unat (Perms s)))"

definition IsNearDup :: "Signature \<Rightarrow> Signature \<Rightarrow> f64 \<Rightarrow> bool" where
  "IsNearDup s s' threshold \<longleftrightarrow> Perms s \<noteq> 0 \<and> Perms s = Perms s' \<and> f64_le threshold (Jaccard s s')"

section \<open>The compact form and the framed form\<close>

definition Signature_MarshalBinary :: "Signature \<Rightarrow> (sketch_error, bytes) result" where
  "Signature_MarshalBinary s =
     (if length (Mins s) \<noteq> unat (Perms s) then Inl ErrMalformed
      else if MaxPermutations < int (unat (Perms s)) then Inl ErrMalformed
      else Inr (le_put 2 (unat (Perms s)) @ write_array 8 (map unat (Mins s))))"

definition Signature_UnmarshalBinary :: "bytes \<Rightarrow> (sketch_error, Signature) result" where
  "Signature_UnmarshalBinary data =
     (if length data < 2 then Inl ErrTruncated
      else let perms = le_get (gslice data 0 2) in
        if MaxPermutations < int perms then Inl ErrMalformed
        else if length data \<noteq> 2 + 8 * perms then Inl ErrTruncated
        else if perms = 0 then Inr \<lparr>Perms = 0, Mins = []\<rparr>
        else Inr \<lparr>Perms = of_nat perms, Mins = map of_nat (read_array 8 perms (drop 2 data))\<rparr>)"

record SigSketch =
  Sig :: Signature
  sCreated :: u64

definition SigSketch_Header :: "SigSketch \<Rightarrow> Header" where
  "SigSketch_Header s =
     \<lparr>h_Magic = HeaderMagic, h_Ver = FormatVersion, h_Kind = KindMinHash,
      h_Params = [(lit ''perms'', f64_of_nat (unat (Perms (Sig s))))],
      h_Count = ucast (Perms (Sig s)), h_Created = sCreated s, h_CRC32C = 0\<rparr>"

definition SigSketch_MarshalBinary :: "SigSketch \<Rightarrow> (sketch_error, bytes) result" where
  "SigSketch_MarshalBinary s =
     (case Signature_MarshalBinary (Sig s) of Inl e \<Rightarrow> Inl e | Inr body \<Rightarrow> EncodeHeader (SigSketch_Header s) body)"

definition SigSketch_decodeV1 :: "Header \<Rightarrow> bytes \<Rightarrow> (sketch_error, SigSketch) result" where
  "SigSketch_decodeV1 hdr body =
     (case MustParamInt hdr (lit ''perms'') 0 MaxPermutations of Inl e \<Rightarrow> Inl e | Inr perms \<Rightarrow>
      case Signature_UnmarshalBinary body of Inl e \<Rightarrow> Inl e | Inr sig \<Rightarrow>
        if int (unat (Perms sig)) \<noteq> perms then Inl ErrMalformed
        else Inr \<lparr>Sig = sig, sCreated = h_Created hdr\<rparr>)"

definition SigSketch_UnmarshalBinary :: "bytes \<Rightarrow> (sketch_error, SigSketch) result" where
  "SigSketch_UnmarshalBinary data = unmarshal_frame KindMinHash SigSketch_decodeV1 data"

section \<open>Batches\<close>

abbreviation shingle :: "bytes \<Rightarrow> nat \<Rightarrow> nat \<Rightarrow> u64" where
  "shingle data w i \<equiv> fnv1a64 (gslice data i (i + w))"

lemma hashShingles5_eq:
  assumes "n + 4 \<le> length d"
  shows "hashShingles5 n d = map (shingle d 5) [0..<n]"
  unfolding hashShingles5_def
proof (rule map_cong [OF refl])
  fix i assume "i \<in> set [0..<n]"
  then have l: "length (gslice d i (i + 5)) = 5" using assms by simp
  obtain v w x y z where e: "gslice d i (i + 5) = [v, w, x, y, z]"
    using l by (auto simp: numeral_eq_Suc length_Suc_conv)
  show "(let s = gslice d i (i + storeShingleSize);
             h = (14695981039346656037 XOR ucast (s ! 0)) * 1099511628211;
             h = (h XOR ucast (s ! 1)) * 1099511628211;
             h = (h XOR ucast (s ! 2)) * 1099511628211;
             h = (h XOR ucast (s ! 3)) * 1099511628211
         in (h XOR ucast (s ! 4)) * 1099511628211) = shingle d 5 i"
    unfolding e Let_def fnv1a64_def by simp
qed

lemma gslice_gslice: "i \<le> j \<Longrightarrow> j \<le> b - a \<Longrightarrow> gslice (gslice d a b) i j = gslice d (a + i) (a + j)"
  by (simp add: gslice_def take_drop min_def add.commute) 

lemma hashShingles_eq:
  assumes "0 < w" "off + n + w - 1 \<le> length data"
  shows "hashShingles n data off w = map (shingle data w) [off..<off + n]"
proof -
  have m: "map (shingle data w) [off..<off + n] = map (\<lambda>i. shingle data w (off + i)) [0..<n]"
    using map_add_upt [of off n, symmetric] by (simp add: add.commute)
  show ?thesis
  proof (cases "w = 5")
    case True
    let ?d = "gslice data off (off + n + 5 - 1)"
    have "hashShingles n data off w = map (shingle ?d 5) [0..<n]"
      using True assms hashShingles5_eq [of n ?d] by (simp add: hashShingles_def)
    also have "\<dots> = map (\<lambda>i. shingle data w (off + i)) [0..<n]"
      using True by (intro map_cong refl) (simp add: gslice_gslice add.assoc)
    finally show ?thesis using m by simp
  qed (simp add: hashShingles_def m)
qed

lemma batch_split:
  assumes "off < nsh"
  shows "[off..<nsh] = [off..<off + min shingleChunk (nsh - off)] @ [off + shingleChunk..<nsh]"
  using assms upt_add_eq_append [of off "off + shingleChunk" "nsh - off - shingleChunk"]
  by (cases "shingleChunk \<le> nsh - off") (auto simp: min_def)

lemma fold_opt_append: "fold_opt f s (xs @ ys) = (case fold_opt f s xs of None \<Rightarrow> None | Some s' \<Rightarrow> fold_opt f s' ys)"
  by (induction xs arbitrary: s) (auto split: option.split)

lemma sample_batches_eq:
  assumes "0 < w" "nsh + w - 1 \<le> length data"
  shows "sample_batches data w nsh off st = fold_opt sample_step st (map (shingle data w) [off..<nsh])"
  using assms
proof (induction data w nsh off st rule: sample_batches.induct)
  case (1 data w nsh off st)
  show ?case
  proof (cases "off < nsh")
    case True
    let ?n = "min shingleChunk (nsh - off)"
    have h: "hashShingles ?n data off w = map (shingle data w) [off..<off + ?n]"
      using "1.prems" True by (intro hashShingles_eq) auto
    have st: "sample_batches data w nsh off st =
        (case fold_opt sample_step st (map (shingle data w) [off..<off + ?n]) of
           None \<Rightarrow> None | Some st' \<Rightarrow> sample_batches data w nsh (off + shingleChunk) st')"
      using True by (subst sample_batches.simps) (simp add: h)
    show ?thesis unfolding st batch_split [OF True] map_append fold_opt_append
      using "1.IH" [OF True] "1.prems" h by (auto split: option.split)
  qed (simp add: sample_batches.simps)
qed

lemma permuteInto_append: "permuteInto mins a b (xs @ ys) = permuteInto (permuteInto mins a b xs) a b ys"
  by (simp add: permuteInto_def)

lemma permute_batches_eq:
  assumes "0 < w" "nsh + w - 1 \<le> length data"
  shows "permute_batches data w nsh a b off mins = permuteInto mins a b (map (shingle data w) [off..<nsh])"
  using assms
proof (induction data w nsh a b off mins rule: permute_batches.induct)
  case (1 data w nsh a b off mins)
  show ?case
  proof (cases "off < nsh")
    case True
    let ?n = "min shingleChunk (nsh - off)"
    have h: "hashShingles ?n data off w = map (shingle data w) [off..<off + ?n]"
      using "1.prems" True by (intro hashShingles_eq) auto
    show ?thesis unfolding batch_split [OF True] map_append permuteInto_append
      using "1.IH" [OF True] "1.prems" True h by (subst permute_batches.simps) simp
  next
    case False then show ?thesis by (simp add: permute_batches.simps permuteInto_def)
  qed
qed

section \<open>The sampler keeps the smallest\<close>

definition sampler_inv :: "u64 \<Rightarrow> u64 set \<Rightarrow> sampler \<Rightarrow> bool" where
  "sampler_inv kp H st \<longleftrightarrow> set_ok (seen st) \<and> length (slots (seen st)) = 2 * sampleCapacity
     \<and> filled (seen st) \<le> length (sample st) \<and> members (seen st) = set (sample st)
     \<and> distinct (sample st) \<and> length (sample st) < sampleCapacity
     \<and> keep st \<le> kp \<and> set (sample st) = {h \<in> H. h \<le> keep st}
     \<and> (keep st = kp \<or> MinHashSampleTarget \<le> length (sample st))"

lemma add_seen_all:
  "set_ok s \<Longrightarrow> filled s + length xs \<le> length (slots s) \<Longrightarrow>
   \<exists>s'. fold_opt add_seen s xs = Some s' \<and> set_ok s' \<and> members s' = members s \<union> set xs
     \<and> length (slots s') = length (slots s) \<and> filled s' \<le> filled s + length xs"
proof (induction xs arbitrary: s)
  case (Cons x xs)
  then have "filled s < length (slots s)" by simp
  from add_spec [OF Cons.prems(1) this, of x] obtain s1 where s1: "add s x = Some (s1, x \<notin> members s)" "set_ok s1"
    "members s1 = insert x (members s)" "length (slots s1) = length (slots s)" "filled s1 \<le> Suc (filled s)" by blast
  from Cons.IH [OF s1(2)] s1 Cons.prems obtain s2 where "fold_opt add_seen s1 xs = Some s2" "set_ok s2"
    "members s2 = members s1 \<union> set xs" "length (slots s2) = length (slots s1)" "filled s2 \<le> filled s1 + length xs" by auto
  moreover have "add_seen s x = Some s1" using s1(1) by (simp add: add_seen_def)
  ultimately show ?case using s1 by auto
qed simp

lemma target_pos: "0 < MinHashSampleTarget" "MinHashSampleTarget < sampleCapacity"
  by (simp_all add: MinHashSampleTarget_def sampleCapacity_def)

text \<open>A full buffer is trimmed to its smallest elements, and the threshold falls to the largest of them.\<close>

lemma trim_inv:
  assumes inv: "sampler_inv kp H st" and h: "h \<le> keep st" "h \<notin> set (sample st)"
    and sn: "set_ok sn" "length (slots sn) = 2 * sampleCapacity"
    and full: "sampleCapacity \<le> Suc (length (sample st))"
  shows "\<exists>smp v sn'. selectKth (sample st @ [h]) (int MinHashSampleTarget - 1) = Some (smp, v)
    \<and> fold_opt add_seen (reset sn) (take MinHashSampleTarget smp) = Some sn'
    \<and> sampler_inv kp (insert h H) \<lparr>keep = v, seen = sn', sample = take MinHashSampleTarget smp\<rparr>"
proof -
  let ?a = "sample st @ [h]" let ?K = "MinHashSampleTarget"
  have i: "distinct (sample st)" "length (sample st) < sampleCapacity" "keep st \<le> kp"
    "set (sample st) = {x \<in> H. x \<le> keep st}" using inv by (auto simp: sampler_inv_def)
  have d: "distinct ?a" using i(1) h(2) by simp
  have k: "?K - 1 < length ?a" using full target_pos by simp
  have ik: "int ?K - 1 = int (?K - 1)" "Suc (?K - 1) = ?K" using target_pos(1) by auto
  obtain smp v where sl: "selectKth ?a (int ?K - 1) = Some (smp, v)" "mset smp = mset ?a" "v = smp ! nat (int ?K - 1)"
    "selected smp (int ?K - 1)"
    by (rule selectKth_spec [of "int ?K - 1" ?a]) (use k target_pos(1) in auto)
  have nk: "nat (int ?K - 1) = ?K - 1" by simp
  note sel = sl(1,2) sl(3) [unfolded nk] sl(4) [unfolded ik(1)]
  note bs = bottom_selected [OF d k sel(2,4), unfolded ik sel(3) [symmetric]]
  have room: "filled (reset sn) + length (take ?K smp) \<le> length (slots (reset sn))"
    using reset_spec [OF sn(1)] sn(2) bs(4) target_pos(2) by simp
  obtain sn' where sn': "fold_opt add_seen (reset sn) (take ?K smp) = Some sn'" "set_ok sn'"
    "members sn' = set (take ?K smp)" "length (slots sn') = 2 * sampleCapacity" "filled sn' \<le> length (take ?K smp)"
    using add_seen_all [of "reset sn" "take ?K smp", OF _ room] reset_spec [OF sn(1)] sn(2) by auto
  have "?K - 1 < length smp" using mset_eq_length [OF sel(2)] k by simp
  then have "v \<in> set ?a" using mset_eq_setD [OF sel(2)] nth_mem unfolding sel(3) by blast
  then have v: "v \<le> keep st" using h(1) i(4) by auto
  have "x \<le> keep st" if "x \<le> v" for x using that v by (rule order.trans)
  then have "{x \<in> set ?a. x \<le> v} = {x \<in> insert h H. x \<le> v}" unfolding set_append i(4) by auto
  then have "sampler_inv kp (insert h H) \<lparr>keep = v, seen = sn', sample = take ?K smp\<rparr>"
    using sn' bs v i(3) target_pos(2) by (simp add: sampler_inv_def)
  then show ?thesis using sel(1) sn'(1) by blast
qed

lemma sample_step_inv:
  assumes inv: "sampler_inv kp H st"
  shows "\<exists>st'. sample_step st h = Some st' \<and> sampler_inv kp (insert h H) st'"
proof (cases "h > keep st")
  case True
  then have "{x \<in> insert h H. x \<le> keep st} = {x \<in> H. x \<le> keep st}" by auto
  then show ?thesis using True inv by (simp add: sample_step_def sampler_inv_def)
next
  case False
  have i: "set_ok (seen st)" "length (slots (seen st)) = 2 * sampleCapacity" "filled (seen st) \<le> length (sample st)"
    "members (seen st) = set (sample st)" "length (sample st) < sampleCapacity" "set (sample st) = {x \<in> H. x \<le> keep st}"
    using inv by (auto simp: sampler_inv_def)
  have "filled (seen st) < length (slots (seen st))" using i by simp
  from add_spec [OF i(1) this, of h] obtain sn where sn: "add (seen st) h = Some (sn, h \<notin> members (seen st))" "set_ok sn"
    "members sn = insert h (members (seen st))" "length (slots sn) = length (slots (seen st))"
    "filled sn \<le> Suc (filled (seen st))" "h \<in> members (seen st) \<longrightarrow> sn = seen st" by blast
  have eq: "{x \<in> insert h H. x \<le> keep st} = insert h {x \<in> H. x \<le> keep st}" using False by auto
  consider "h \<in> set (sample st)" | "h \<notin> set (sample st)" "Suc (length (sample st)) < sampleCapacity"
    | "h \<notin> set (sample st)" "sampleCapacity \<le> Suc (length (sample st))" by linarith
  then show ?thesis
  proof cases
    case 1
    then have "insert h H = H" using i(6) by auto
    then show ?thesis using 1 False sn i inv by (simp add: sample_step_def)
  next
    case 2
    then have "sampler_inv kp (insert h H) (st\<lparr>seen := sn, sample := sample st @ [h]\<rparr>)"
      using sn i inv eq unfolding sampler_inv_def by auto
    then show ?thesis using 2 False sn i by (simp add: sample_step_def Let_def)
  next
    case 3
    have "h \<le> keep st" "length (slots sn) = 2 * sampleCapacity" using False sn(4) i(2) by simp_all
    from trim_inv [OF inv this(1) 3(1) sn(2) this(2) 3(2)]
    obtain smp v sn' where "selectKth (sample st @ [h]) (int MinHashSampleTarget - 1) = Some (smp, v)"
      "fold_opt add_seen (reset sn) (take MinHashSampleTarget smp) = Some sn'"
      "sampler_inv kp (insert h H) \<lparr>keep = v, seen = sn', sample = take MinHashSampleTarget smp\<rparr>" by auto
    then show ?thesis using 3 False sn i by (simp add: sample_step_def Let_def)
  qed
qed

lemma sampler_run:
  "sampler_inv kp H st \<Longrightarrow> \<exists>st'. fold_opt sample_step st hs = Some st' \<and> sampler_inv kp (H \<union> set hs) st'"
proof (induction hs arbitrary: H st)
  case (Cons h hs)
  obtain st1 where st1: "sample_step st h = Some st1" "sampler_inv kp (insert h H) st1"
    using sample_step_inv [OF Cons.prems] by blast
  from Cons.IH [OF st1(2)] show ?case using st1(1) by auto
qed simp

lemma sampler_init: "sampler_inv kp {} \<lparr>keep = kp, seen = newShingleSet sampleCapacity, sample = []\<rparr>"
proof -
  have b: "bits_Len (2 * sampleCapacity - 1) = 15"
    using bits_Len_unique [of 14 "2 * sampleCapacity - 1"] by (simp add: sampleCapacity_def MinHashSampleTarget_def)
  have "(2::nat) ^ 15 = 2 * sampleCapacity" by (simp add: sampleCapacity_def MinHashSampleTarget_def)
  then show ?thesis
    using newShingleSet_spec [of sampleCapacity] target_pos unfolding b by (simp add: sampler_inv_def)
qed

text \<open>The hashes of the shingles of a document.\<close>

definition shingles :: "nat \<Rightarrow> bytes \<Rightarrow> u64 set" where
  "shingles w data = (\<lambda>i. fnv1a64 (gslice data i (i + w))) ` {i. i + w \<le> length data}"

lemma shingles_range:
  assumes "0 < w" "nsh + w - 1 = length data" "0 < nsh"
  shows "shingles w data = set (map (shingle data w) [0..<nsh])"
proof -
  have "{i. i + w \<le> length data} = {0..<nsh}" using assms by auto
  then show ?thesis by (simp add: shingles_def)
qed

lemma finite_shingles [simp]: "finite (shingles w data)"
proof -
  have "{i. i + w \<le> length data} \<subseteq> {..length data}" by auto
  then show ?thesis unfolding shingles_def by (intro finite_imageI) (rule finite_subset, auto)
qed

abbreviation below :: "u64 \<Rightarrow> u64 set \<Rightarrow> u64 set" where
  "below kp H \<equiv> {h \<in> H. h \<le> kp}"

lemma sampler_bottom:
  assumes inv: "sampler_inv kp H st" and fin: "finite H"
  shows "bottom MinHashSampleTarget (set (sample st)) = bottom MinHashSampleTarget (below kp H)"
proof -
  have i: "set (sample st) = below (keep st) H" "keep st \<le> kp" "distinct (sample st)"
    "keep st = kp \<or> MinHashSampleTarget \<le> length (sample st)" using inv by (auto simp: sampler_inv_def)
  show ?thesis
  proof (cases "keep st = kp")
    case False
    then have "MinHashSampleTarget \<le> card (set (sample st))" using i(3,4) distinct_card by metis
    moreover have "x \<le> kp" if "x \<le> keep st" for x using that i(2) by (rule order.trans)
    then have "set (sample st) = {x \<in> below kp H. x \<le> keep st}" unfolding i(1) by auto
    ultimately show ?thesis using bottom_threshold [of "below kp H" MinHashSampleTarget "keep st"] fin by simp
  qed (simp add: i(1))
qed

lemma distinctBelow_spec:
  assumes w: "0 < w" "nsh + w - 1 = length data" "0 < nsh"
  shows "\<exists>smp. distinctBelow data w nsh kp = Some smp \<and> distinct smp
    \<and> set smp = bottom MinHashSampleTarget (below kp (shingles w data))"
proof -
  let ?K = "MinHashSampleTarget"
  obtain st where st: "sample_batches data w nsh 0 \<lparr>keep = kp, seen = newShingleSet sampleCapacity, sample = []\<rparr> = Some st"
    "sampler_inv kp (shingles w data) st"
    using sampler_run [OF sampler_init, of kp "map (shingle data w) [0..<nsh]"] w sample_batches_eq [of w nsh data]
    unfolding shingles_range [OF w] by auto
  note sb = sampler_bottom [OF st(2) finite_shingles]
  have d: "distinct (sample st)" using st(2) by (simp add: sampler_inv_def)
  show ?thesis
  proof (cases "length (sample st) > ?K")
    case False
    then have "bottom ?K (set (sample st)) = set (sample st)" using distinct_card [OF d] by (intro bottom_all) auto
    then show ?thesis using False st(1) sb d by (simp add: distinctBelow_def)
  next
    case True
    have k: "?K - 1 < length (sample st)" "nat (int ?K - 1) = ?K - 1" "int ?K - 1 = int (?K - 1)" "Suc (?K - 1) = ?K"
      using True target_pos(1) by auto
    obtain smp v where sl: "selectKth (sample st) (int ?K - 1) = Some (smp, v)" "mset smp = mset (sample st)"
      "v = smp ! nat (int ?K - 1)" "selected smp (int ?K - 1)"
      by (rule selectKth_spec [of "int ?K - 1" "sample st"]) (use True target_pos(1) in auto)
    have "selected smp (int (?K - 1))" using sl(4) by (simp only: k(3))
    from bottom_selected [OF d k(1) sl(2) this, unfolded k(4)]
    show ?thesis using True st(1) sl(1) sb by (simp add: distinctBelow_def)
  qed
qed

lemma bottomKShingles_spec:
  assumes w: "0 < w" "nsh + w - 1 = length data" "0 < nsh"
  shows "\<exists>smp. bottomKShingles data w nsh = Some smp \<and> distinct smp
    \<and> set smp = bottom MinHashSampleTarget (shingles w data)"
proof -
  let ?K = "MinHashSampleTarget" and ?H = "shingles w data"
  define kp where "kp = (if seedAdmit < nsh then (- 1) div of_nat nsh * of_nat seedAdmit else (- 1 :: u64))"
  obtain smp where smp: "distinctBelow data w nsh kp = Some smp" "distinct smp" "set smp = bottom ?K (below kp ?H)"
    using distinctBelow_spec [OF w] by blast
  obtain all where all: "distinctBelow data w nsh (- 1) = Some all" "distinct all" "set all = bottom ?K (below (- 1) ?H)"
    using distinctBelow_spec [OF w] by blast
  have top: "below (- 1) ?H = ?H" by auto
  have eq: "bottomKShingles data w nsh = (if length smp < ?K \<and> kp \<noteq> - 1 then distinctBelow data w nsh (- 1) else Some smp)"
    by (simp add: bottomKShingles_def Let_def kp_def [symmetric] smp(1))
  show ?thesis
  proof (cases "length smp < ?K \<and> kp \<noteq> - 1")
    case True then show ?thesis using eq all top by simp
  next
    case False
    have "set smp = bottom ?K ?H"
    proof (cases "kp = - 1")
      case True then show ?thesis using smp(3) top by simp
    next
      case neq: False
      have "card (set smp) = min ?K (card (below kp ?H))" unfolding smp(3) by (rule bottom_props(2)) simp
      then have "?K \<le> card (below kp ?H)" using False neq distinct_card [OF smp(2)] by simp
      then show ?thesis using smp(3) bottom_threshold [of ?H ?K kp] by simp
    qed
    then show ?thesis using eq False smp(2) by auto
  qed
qed

section \<open>The minima\<close>

lemma permuteInto_spec:
  "length mins = length a \<Longrightarrow> permuteInto mins a b hs =
     map (\<lambda>j. Min (insert (mins ! j) ((\<lambda>h. a ! j * h + b ! j) ` set hs))) [0..<length a]"
proof (induction hs rule: rev_induct)
  case Nil then show ?case using map_nth [of mins] by (simp add: permuteInto_def)
next
  case (snoc h hs)
  have "Min (insert m (f ` set (hs @ [h]))) = (if f h < Min (insert m (f ` set hs)) then f h else Min (insert m (f ` set hs)))"
    for m :: u64 and f
  proof -
    have "insert m (f ` set (hs @ [h])) = insert (f h) (insert m (f ` set hs))" by auto
    then have "Min (insert m (f ` set (hs @ [h]))) = min (f h) (Min (insert m (f ` set hs)))" by simp
    moreover have "min x y = (if x < y then x else y)" for x y :: u64 by (auto simp: min_def)
    ultimately show ?thesis by (simp only:)
  qed
  then show ?case using snoc by (simp only: permuteInto_append) (simp add: permuteInto_def Let_def)
qed

text \<open>The signature by its definition: the minimum of every permutation over the smallest distinct
  shingle hashes.\<close>

definition MinHash_ref :: "bytes \<Rightarrow> MinHashOptions \<Rightarrow> Signature" where
  "MinHash_ref data opts =
     (if \<not> Enabled opts then \<lparr>Perms = 0, Mins = []\<rparr>
      else let w = nat (clampInt (if ShingleSize opts \<le> 0 then 8 else ShingleSize opts) 2 64);
               p = nat (clampInt (Permutations opts) 16 512)
           in \<lparr>Perms = of_nat p,
               Mins = map (\<lambda>j. Min (insert (- 1) ((\<lambda>h. (splitmix64 (of_nat (2 * j)) OR 1) * h + splitmix64 (of_nat (2 * j + 1)))
                                    ` bottom 8192 (shingles w data)))) [0..<p]\<rparr>)"

lemma permute_all:
  "permuteInto (replicate p (- 1)) (coef_a p) (coef_b p) hs =
     map (\<lambda>j. Min (insert (- 1) ((\<lambda>h. (splitmix64 (of_nat (2 * j)) OR 1) * h + splitmix64 (of_nat (2 * j + 1))) ` set hs))) [0..<p]"
  by (subst permuteInto_spec) (auto simp: coef_a_def coef_b_def)

lemma MinHash_eq_ref: "MinHash data opts = Some (MinHash_ref data opts)"
proof (cases "Enabled opts")
  case True
  define w where "w = nat (clampInt (if ShingleSize opts \<le> 0 then 8 else ShingleSize opts) 2 64)"
  define p where "p = nat (clampInt (Permutations opts) 16 512)"
  have w: "0 < w" by (simp add: w_def clampInt_def)
  let ?n = "int (length data) - int w + 1"
  let ?sig = "\<lambda>S. \<lparr>Perms = of_nat p, Mins = map (\<lambda>j. Min (insert (- 1)
      ((\<lambda>h. (splitmix64 (of_nat (2 * j)) OR 1) * h + splitmix64 (of_nat (2 * j + 1))) ` S))) [0..<p]\<rparr>"
  have ref: "MinHash_ref data opts = ?sig (bottom MinHashSampleTarget (shingles w data))"
    using True by (simp add: MinHash_ref_def Let_def w_def p_def MinHashSampleTarget_def)
  have run: "MinHash data opts =
      (if ?n \<le> 0 then Some \<lparr>Perms = of_nat p, Mins = replicate p (- 1)\<rparr>
       else if MinHashSampleTarget < nat ?n
       then map_option (\<lambda>smp. \<lparr>Perms = of_nat p, Mins = permuteInto (replicate p (- 1)) (coef_a p) (coef_b p) smp\<rparr>)
              (bottomKShingles data w (nat ?n))
       else Some \<lparr>Perms = of_nat p, Mins = permute_batches data w (nat ?n) (coef_a p) (coef_b p) 0 (replicate p (- 1))\<rparr>)"
    using True unfolding MinHash_def minHashWithStats_def Let_def w_def p_def
    by (simp add: option.map_comp comp_def)
  consider "?n \<le> 0" | "0 < ?n" "MinHashSampleTarget < nat ?n" | "0 < ?n" "nat ?n \<le> MinHashSampleTarget" by linarith
  then show ?thesis
  proof cases
    case 1
    then have "{i. i + w \<le> length data} = {}" by auto
    then have "shingles w data = {}" by (simp add: shingles_def)
    then show ?thesis using 1 unfolding run ref by (simp add: bottom_def map_replicate_const)
  next
    case 2
    then have "nat ?n + w - 1 = length data" "0 < nat ?n" using w by auto
    from bottomKShingles_spec [OF w this] 2 show ?thesis unfolding run ref by (auto simp: permute_all)
  next
    case 3
    then have n: "nat ?n + w - 1 = length data" "0 < nat ?n" using w by auto
    have "card (shingles w data) \<le> MinHashSampleTarget"
      unfolding shingles_range [OF w n] using 3 card_length [of "map (shingle data w) [0..<nat ?n]"] by simp
    then have "bottom MinHashSampleTarget (shingles w data) = shingles w data" by (intro bottom_all) simp_all
    then show ?thesis using 3 n w unfolding run ref
      by (simp add: permute_batches_eq permute_all shingles_range [OF w n])
  qed
qed (simp add: MinHash_def minHashWithStats_def MinHash_ref_def)

text \<open>C22. \<open>MinHash\<close> ends without a panic on every input and computes the signature by its definition: the
  batched hashing with its unrolled loop, the seeded threshold and its fallback, the open-addressed
  set, the trims by quickselect and the unsampled path for short documents all give, for every
  permutation, the minimum over the 8192 smallest distinct shingle hashes.\<close>

theorem MinHash_reference: "MinHash data opts = Some (MinHash_ref data opts)"
  by (rule MinHash_eq_ref)

section \<open>Comparison\<close>

lemma f64_ratio_one: "0 < n \<Longrightarrow> f64_ratio n n = f64_one"
proof -
  assume "0 < n"
  then have "n * 2 ^ 80 div n = 2 ^ 80" by simp
  moreover have "bits_Len (2 ^ 81) = 82" using bits_Len_pow2 [of 81] by simp
  ultimately show ?thesis
    by (simp add: f64_ratio_def f64_round_def Let_def rne_shift_def f64_one_def)
qed

lemma Jaccard_commute: "Jaccard s s' = Jaccard s' s"
proof -
  have "(\<lambda>i. Mins s ! i = Mins s' ! i) = (\<lambda>i. Mins s' ! i = Mins s ! i)" by auto
  then show ?thesis by (auto simp: Jaccard_def)
qed

text \<open>Comparison is symmetric; a signature that carries what it declares is at similarity 1 to
  itself; the signature of a disabled run is a near-duplicate of nothing, whatever the threshold.\<close>

theorem near_dup_laws:
  "IsNearDup s s' t = IsNearDup s' s t
   \<and> (Perms s = 0 \<longrightarrow> \<not> IsNearDup s s' t)
   \<and> (Perms s \<noteq> 0 \<and> length (Mins s) = unat (Perms s) \<longrightarrow> Jaccard s s = f64_one)"
proof -
  have "Jaccard s s = f64_one" if "Perms s \<noteq> 0" "length (Mins s) = unat (Perms s)"
    using that f64_ratio_one [of "unat (Perms s)"] by (simp add: Jaccard_def unat_gt_0)
  then show ?thesis using Jaccard_commute [of s s'] by (auto simp: IsNearDup_def)
qed

section \<open>Persistence\<close>

definition sig_ok :: "Signature \<Rightarrow> bool" where
  "sig_ok s \<longleftrightarrow> length (Mins s) = unat (Perms s) \<and> unat (Perms s) \<le> 512"

definition sig_body :: "SigSketch \<Rightarrow> bytes" where
  "sig_body s = le_put 2 (unat (Perms (Sig s))) @ write_array 8 (map unat (Mins (Sig s)))"

lemma Signature_Marshal_ok:
  "sig_ok (Sig s) \<Longrightarrow> Signature_MarshalBinary (Sig s) = Inr (sig_body s)"
  by (simp add: Signature_MarshalBinary_def sig_ok_def sig_body_def del: of_nat_unat)

lemma Signature_round_trip:
  assumes "sig_ok (Sig s)"
  shows "Signature_UnmarshalBinary (sig_body s) = Inr (Sig s)"
proof -
  let ?p = "unat (Perms (Sig s))"
  have p: "?p \<le> 512" "length (Mins (Sig s)) = ?p" using assms by (simp_all add: sig_ok_def)
  have g: "le_get (gslice (sig_body s) 0 2) = ?p"
    using p by (simp add: sig_body_def gslice_def le_get_put)
  have d: "drop 2 (sig_body s) = write_array 8 (map unat (Mins (Sig s)))" by (simp add: sig_body_def)
  have r: "map of_nat (read_array 8 ?p (drop 2 (sig_body s))) = Mins (Sig s)"
    using u64_array_round_trip [of "Mins (Sig s)"] p unfolding d by simp
  have l: "length (sig_body s) = 2 + 8 * ?p" using p by (simp add: sig_body_def)
  show ?thesis
  proof (cases "?p = 0")
    case True
    then have "Mins (Sig s) = []" "Perms (Sig s) = 0" using p by (simp_all add: unat_eq_0)
    then show ?thesis using True l g by (simp add: Signature_UnmarshalBinary_def Let_def)
  next
    case False
    then show ?thesis using l g r p by (simp add: Signature_UnmarshalBinary_def Let_def)
  qed
qed

interpretation sig_codec: sketch_codec SigSketch_Header sig_body SigSketch_decodeV1 KindMinHash "\<lambda>s :: SigSketch. sig_ok (Sig s)"
proof unfold_locales
  show "Kind_Valid KindMinHash" by (simp add: Kind_Valid_def KindBloom_def KindMinHash_def)
next
  fix s :: SigSketch assume ok: "sig_ok (Sig s)"
  show "h_Ver (SigSketch_Header s) = FormatVersion" "h_Kind (SigSketch_Header s) = KindMinHash"
    "length (h_Params (SigSketch_Header s)) \<le> 8" "distinct (map fst (h_Params (SigSketch_Header s)))"
    by (simp_all add: SigSketch_Header_def)
  show "list_all (\<lambda>p. paramNameOK (fst p)) (h_Params (SigSketch_Header s))"
    by (simp add: SigSketch_Header_def lit_def paramNameOK_def paramByteOK_def)
  have p: "length (Mins (Sig s)) = unat (Perms (Sig s))" "unat (Perms (Sig s)) \<le> 512" using ok by (simp_all add: sig_ok_def)
  then show "length (sig_body s) \<le> MaxFrameBytes - 512" by (simp add: sig_body_def)
  fix h assume "same_header (SigSketch_Header s) h"
  then have sh: "h_Created h = sCreated s" "map_of (h_Params h) (lit ''perms'') = Some (f64_of_nat (unat (Perms (Sig s))))"
    by (auto simp: same_header_def SigSketch_Header_def)
  have "MustParamInt h (lit ''perms'') 0 512 = Inr (int (unat (Perms (Sig s))))"
    using MustParamInt_of_nat [OF sh(2), of 0 512] p(2) by (simp del: of_nat_unat)
  then show "SigSketch_decodeV1 h (sig_body s) = Inr s"
    using Signature_round_trip [OF ok] sh(1) by (simp add: SigSketch_decodeV1_def del: of_nat_unat)
qed

text \<open>A consistent signature survives its compact form and its checksummed frame.\<close>

theorem SigSketch_marshal_round_trip:
  assumes "sig_ok (Sig s)"
  shows "\<exists>frame. SigSketch_MarshalBinary s = Inr frame \<and> SigSketch_UnmarshalBinary frame = Inr s"
  using sig_codec.marshal_round_trip [OF assms] Signature_Marshal_ok [OF assms]
  by (simp add: SigSketch_MarshalBinary_def SigSketch_UnmarshalBinary_def)

text \<open>What \<open>MinHash\<close> computes is always consistent, so it can always be stored.\<close>

theorem MinHash_storable:
  assumes "MinHash data opts = Some s"
  shows "sig_ok s"
proof -
  have "nat (clampInt (Permutations opts) 16 512) \<le> 512" by (simp add: clampInt_def nat_le_iff)
  then have "unat (of_nat (nat (clampInt (Permutations opts) 16 512)) :: u16) = nat (clampInt (Permutations opts) 16 512)"
    by (simp add: unat_of_nat)
  then show ?thesis using assms MinHash_eq_ref [of data opts] \<open>_ \<le> 512\<close>
    by (auto simp: MinHash_ref_def Let_def sig_ok_def split: if_splits)
qed

end
