(* ===== verification/GoStrconv.thy ===== *)
theory GoStrconv
  imports Prelude
begin

text \<open>
  The decimal conversions of the standard library: \<^verbatim>\<open>strconv.Itoa\<close> and \<^verbatim>\<open>strconv.Atoi\<close>, with the
  syntax and the range it accepts.
\<close>

function digits :: "nat \<Rightarrow> bytes" where
  "digits n = (if n < 10 then [of_nat (48 + n)] else digits (n div 10) @ [of_nat (48 + n mod 10)])"
  by auto
termination by (relation "measure id") auto

declare digits.simps [simp del]

definition Itoa :: "int \<Rightarrow> bytes" where
  "Itoa i = (if i < 0 then 0x2D # digits (nat (- i)) else digits (nat i))"

definition is_digit :: "byte \<Rightarrow> bool" where
  "is_digit c \<longleftrightarrow> 48 \<le> c \<and> c \<le> 57"

definition digits_value :: "bytes \<Rightarrow> nat" where
  "digits_value ds = foldl (\<lambda>v c. 10 * v + (unat c - 48)) 0 ds"

definition Atoi :: "bytes \<Rightarrow> int option" where
  "Atoi s =
     (let neg = (s \<noteq> [] \<and> hd s = 0x2D); ds = (if s \<noteq> [] \<and> (hd s = 0x2D \<or> hd s = 0x2B) then tl s else s)
      in if ds = [] \<or> \<not> list_all is_digit ds then None
         else if neg then (if int (digits_value ds) \<le> 2 ^ 63 then Some (- int (digits_value ds)) else None)
         else (if int (digits_value ds) < 2 ^ 63 then Some (int (digits_value ds)) else None))"

lemma digit_byte:
  assumes "n < 10"
  shows "is_digit (of_nat (48 + n))" "unat (of_nat (48 + n) :: byte) = 48 + n"
proof -
  show u: "unat (of_nat (48 + n) :: byte) = 48 + n" using assms by (subst unat_of_nat) simp
  show "is_digit (of_nat (48 + n))" unfolding is_digit_def word_le_nat_alt u using assms by simp
qed

lemma digits_ok: "list_all is_digit (digits n) \<and> digits_value (digits n) = n \<and> digits n \<noteq> []"
proof (induction n rule: digits.induct)
  case (1 n)
  show ?case
  proof (cases "n < 10")
    case True
    then show ?thesis using digit_byte [OF True] by (subst digits.simps, subst (2) digits.simps, subst (3) digits.simps) (simp add: digits_value_def)
  next
    case False
    have d: "digits n = digits (n div 10) @ [of_nat (48 + n mod 10)]" by (subst digits.simps) (simp add: False)
    have m: "n mod 10 < 10" by simp
    show ?thesis using 1 [OF False] digit_byte [OF m] unfolding d by (simp add: digits_value_def)
  qed
qed

lemma digits_hd: "is_digit (hd (digits n))"
  using digits_ok [of n] by (cases "digits n") auto

lemma Atoi_Itoa:
  assumes "0 \<le> i" "i < 2 ^ 63"
  shows "Atoi (Itoa i) = Some i"
proof -
  have "hd (digits (nat i)) \<noteq> 0x2D" "hd (digits (nat i)) \<noteq> 0x2B" using digits_hd [of "nat i"] by (auto simp: is_digit_def)
  then show ?thesis using assms digits_ok [of "nat i"] by (simp add: Atoi_def Itoa_def Let_def nat_less_iff)
qed

end
