(* ===== verification/DagIds.thy ===== *)
theory DagIds
  imports CoreHash GoStrconv
begin

unbundle bit_operations_syntax

text \<open>
  The identifiers of the dependence graph, \<^verbatim>\<open>internal/dag\<close>: the kind tables of \<^verbatim>\<open>kinds.go\<close> and the
  \<open>NodeID\<close> scheme of \<^verbatim>\<open>nodeid.go\<close>, a prefix naming the kind, a colon and a sanitized key.  A kind is the
  byte the log carries, so a number outside the table is a value of the type.  UTF-8 decoding and
  \<^verbatim>\<open>strings.ToValidUTF8\<close> are written out as the library defines them.
\<close>

type_synonym NodeID = bytes

abbreviation KindToolUse :: byte where "KindToolUse \<equiv> 0"
abbreviation KindToolResult :: byte where "KindToolResult \<equiv> 1"
abbreviation KindAssistant :: byte where "KindAssistant \<equiv> 2"
abbreviation KindUserPrompt :: byte where "KindUserPrompt \<equiv> 3"
abbreviation KindFile :: byte where "KindFile \<equiv> 4"
abbreviation KindSymbol :: byte where "KindSymbol \<equiv> 5"
abbreviation KindDecision :: byte where "KindDecision \<equiv> 6"
abbreviation KindElimination :: byte where "KindElimination \<equiv> 7"
abbreviation KindSegment :: byte where "KindSegment \<equiv> 8"
abbreviation KindInvalid :: byte where "KindInvalid \<equiv> 9"

abbreviation EdgeControlOnly :: byte where "EdgeControlOnly \<equiv> 7"
abbreviation EdgeInvalid :: byte where "EdgeInvalid \<equiv> 8"

section \<open>Kind names\<close>

definition invalidKindName :: bytes where "invalidKindName = lit ''invalid''"

definition nodeKindNames :: "bytes list" where
  "nodeKindNames = map lit [''tool_use'', ''tool_result'', ''assistant'', ''user_prompt'', ''file'',
     ''symbol'', ''decision'', ''elimination'', ''segment'', ''invalid'']"

definition edgeKindNames :: "bytes list" where
  "edgeKindNames = map lit [''seq'', ''produces'', ''consumes'', ''shared_file'', ''shared_symbol'',
     ''supersedes'', ''explains'', ''control'', ''invalid'']"

text \<open>The inverse table \<^verbatim>\<open>init\<close> builds: every index but the sentinel's, the last one to claim a name winning.\<close>

definition by_name :: "nat \<Rightarrow> bytes list \<Rightarrow> bytes \<rightharpoonup> byte" where
  "by_name inval names = map_of (rev (map (\<lambda>i. (names ! i, of_nat i)) (filter (\<lambda>i. i \<noteq> inval) [0..<length names])))"

definition NodeKind_String :: "byte \<Rightarrow> bytes" where
  "NodeKind_String k = (if length nodeKindNames \<le> unat k then invalidKindName else nodeKindNames ! unat k)"

definition ParseNodeKind :: "bytes \<Rightarrow> byte \<times> bool" where
  "ParseNodeKind s = (case by_name 9 nodeKindNames s of None \<Rightarrow> (KindInvalid, False) | Some k \<Rightarrow> (k, True))"

definition EdgeKind_String :: "byte \<Rightarrow> bytes" where
  "EdgeKind_String k = (if length edgeKindNames \<le> unat k then invalidKindName else edgeKindNames ! unat k)"

definition ParseEdgeKind :: "bytes \<Rightarrow> byte \<times> bool" where
  "ParseEdgeKind s = (case by_name 8 edgeKindNames s of None \<Rightarrow> (EdgeInvalid, False) | Some k \<Rightarrow> (k, True))"

section \<open>UTF-8\<close>

definition cont :: "byte \<Rightarrow> byte \<Rightarrow> byte \<Rightarrow> bool" where
  "cont lo hi b \<longleftrightarrow> lo \<le> b \<and> b \<le> hi"

text \<open>The tables of \<^verbatim>\<open>unicode/utf8\<close>: the length a first byte announces, 0 where it starts no rune, and
  the range it leaves its second byte.\<close>

definition rune_need :: "byte \<Rightarrow> nat" where
  "rune_need a =
     (if a < 0x80 then 1
      else if 0xC2 \<le> a \<and> a \<le> 0xDF then 2
      else if 0xE0 \<le> a \<and> a \<le> 0xEF then 3
      else if 0xF0 \<le> a \<and> a \<le> 0xF4 then 4 else 0)"

definition accept_lo :: "byte \<Rightarrow> byte" where
  "accept_lo a = (if a = 0xE0 then 0xA0 else if a = 0xF0 then 0x90 else 0x80)"

definition accept_hi :: "byte \<Rightarrow> byte" where
  "accept_hi a = (if a = 0xED then 0x9F else if a = 0xF4 then 0x8F else 0xBF)"

text \<open>The bytes of the encoded rune at the front, 0 where \<^verbatim>\<open>utf8.DecodeRune\<close> reports an error.\<close>

definition rune_len :: "bytes \<Rightarrow> nat" where
  "rune_len s =
     (case s of
        [] \<Rightarrow> 0
      | a # _ \<Rightarrow>
          (let n = rune_need a in
           if length s < n then 0
           else if 2 \<le> n \<and> \<not> cont (accept_lo a) (accept_hi a) (s ! 1) then 0
           else if \<not> list_all (cont 0x80 0xBF) (drop 2 (take n s)) then 0
           else n))"

text \<open>\<^verbatim>\<open>utf8.RuneStart\<close>: the top two bits are not those of a continuation byte.\<close>

definition RuneStart :: "byte \<Rightarrow> bool" where
  "RuneStart b \<longleftrightarrow> unat b div 64 \<noteq> 2"

text \<open>\<^verbatim>\<open>strings.ToValidUTF8\<close>: a run of invalid bytes becomes one replacement.\<close>

function to_valid :: "byte \<Rightarrow> bool \<Rightarrow> bytes \<Rightarrow> bytes" where
  "to_valid rep bad s =
     (if s = [] then []
      else if rune_len s = 0 then (if bad then [] else [rep]) @ to_valid rep True (drop 1 s)
      else take (rune_len s) s @ to_valid rep False (drop (rune_len s) s))"
  by auto
termination by (relation "measure (\<lambda>(rep, bad, s). length s)") auto

declare to_valid.simps [simp del]

section \<open>Keys and identifiers\<close>

definition nodeKindPrefixes :: "bytes list" where
  "nodeKindPrefixes = map lit [''tooluse'', ''toolresult'', ''assistant'', ''userprompt'', ''file'',
     ''symbol'', ''decision'', ''elimination'', ''segment'', '''']"

abbreviation nodeIDSep :: byte where "nodeIDSep \<equiv> 0x3A"
abbreviation symbolSep :: byte where "symbolSep \<equiv> 0x23"
abbreviation keyHashSep :: byte where "keyHashSep \<equiv> 0x7E"
abbreviation sanitizeReplacement :: byte where "sanitizeReplacement \<equiv> 0x5F"
abbreviation firstPrintableByte :: byte where "firstPrintableByte \<equiv> 0x20"
abbreviation delByte :: byte where "delByte \<equiv> 0x7F"
abbreviation maxKeyBytes :: nat where "maxKeyBytes \<equiv> 384"
abbreviation keyHeadBytes :: nat where "keyHeadBytes \<equiv> 360"

definition nodeIDHashDomain :: bytes where "nodeIDHashDomain = lit ''qompack.dag.nodeid''"

definition prefixOf :: "byte \<Rightarrow> bytes" where
  "prefixOf k = (if length nodeKindPrefixes \<le> unat k then [] else nodeKindPrefixes ! unat k)"

definition kindOfPrefix :: "bytes \<Rightarrow> byte option" where
  "kindOfPrefix p = by_name 9 nodeKindPrefixes p"

text \<open>The loop that backs the head off to a rune boundary, from a candidate length down.\<close>

fun back_off :: "bytes \<Rightarrow> nat \<Rightarrow> nat" where
  "back_off s 0 = 0"
| "back_off s (Suc n) = (if RuneStart (s ! Suc n) then Suc n else back_off s n)"

definition sanitizeKey :: "bytes \<Rightarrow> bytes" where
  "sanitizeKey k =
     (let b = map (\<lambda>c. if c < firstPrintableByte \<or> c = delByte then sanitizeReplacement else c) k;
          s = to_valid sanitizeReplacement False b
      in if length s \<le> maxKeyBytes then s
         else take (back_off s keyHeadBytes) s @ [keyHashSep] @ Hash_Short (HashBytes nodeIDHashDomain s))"

definition newNodeID :: "byte \<Rightarrow> bytes \<Rightarrow> NodeID" where
  "newNodeID k key = prefixOf k @ [nodeIDSep] @ sanitizeKey key"

definition ToolUseNode :: "bytes \<Rightarrow> NodeID" where "ToolUseNode i = newNodeID KindToolUse i"
definition ToolResultNode :: "bytes \<Rightarrow> NodeID" where "ToolResultNode i = newNodeID KindToolResult i"
definition AssistantNode :: "int \<Rightarrow> NodeID" where "AssistantNode t = newNodeID KindAssistant (Itoa t)"
definition UserPromptNode :: "int \<Rightarrow> NodeID" where "UserPromptNode t = newNodeID KindUserPrompt (Itoa t)"
definition FileNode :: "bytes \<Rightarrow> NodeID" where "FileNode pathKey = newNodeID KindFile pathKey"
definition SymbolNode :: "bytes \<Rightarrow> bytes \<Rightarrow> NodeID" where
  "SymbolNode pathKey name = newNodeID KindSymbol (pathKey @ [symbolSep] @ name)"
definition DecisionNode :: "bytes \<Rightarrow> NodeID" where "DecisionNode i = newNodeID KindDecision i"
definition EliminationNode :: "bytes \<Rightarrow> NodeID" where "EliminationNode recordID = newNodeID KindElimination recordID"
definition SegmentNode :: "int \<Rightarrow> NodeID" where "SegmentNode i = newNodeID KindSegment (Itoa i)"

text \<open>\<^verbatim>\<open>strings.Cut\<close> at the first separator; the result is the kind and the key.\<close>

definition ParseNodeID :: "NodeID \<Rightarrow> (byte \<times> bytes) option" where
  "ParseNodeID i =
     (let prefix = takeWhile (\<lambda>c. c \<noteq> nodeIDSep) i; rest = dropWhile (\<lambda>c. c \<noteq> nodeIDSep) i
      in if rest = [] \<or> tl rest = [] then None
         else case kindOfPrefix prefix of None \<Rightarrow> None | Some kind \<Rightarrow> Some (kind, tl rest))"

section \<open>Valid text\<close>

function valid_utf8 :: "bytes \<Rightarrow> bool" where
  "valid_utf8 s = (if s = [] then True else if rune_len s = 0 then False else valid_utf8 (drop (rune_len s) s))"
  by auto
termination by (relation "measure length") auto

declare valid_utf8.simps [simp del]

lemma valid_utf8_Nil [simp]: "valid_utf8 []"
  by (simp add: valid_utf8.simps)

lemma rune_len_le: "rune_len s \<le> length s"
  by (auto simp: rune_len_def Let_def split: list.split)

text \<open>What a rune at the front looks like.\<close>

lemma rune_lenD:
  assumes "rune_len (a # s) \<noteq> 0"
  shows "rune_len (a # s) = rune_need a" "rune_need a \<le> Suc (length s)"
    "2 \<le> rune_need a \<Longrightarrow> cont (accept_lo a) (accept_hi a) (s ! 0)"
    "list_all (cont 0x80 0xBF) (drop 2 (take (rune_need a) (a # s)))"
  using assms by (auto simp: rune_len_def Let_def split: if_splits)

lemma rune_len_append:
  assumes "rune_len s \<noteq> 0"
  shows "rune_len (take (rune_len s) s @ t) = rune_len s"
proof (cases s)
  case Nil then show ?thesis using assms by (simp add: rune_len_def)
next
  case (Cons a r)
  let ?n = "rune_need a"
  note d = rune_lenD [of a r]
  have n: "rune_len s = ?n" "?n \<noteq> 0" "?n \<le> length s" using assms d unfolding Cons by auto
  obtain m where m: "?n = Suc m" using n(2) by (cases ?n) auto
  have hd: "take ?n s @ t = a # (take m r @ t)" by (simp add: Cons m)
  have tk: "take ?n (a # (take m r @ t)) = take ?n s" using n(3) unfolding hd [symmetric] by simp
  have one: "(a # (take m r @ t)) ! 1 = r ! 0" if "2 \<le> ?n" using that n(3) m by (simp add: nth_append Cons)
  have "rune_len (a # (take m r @ t)) = ?n"
    using assms d n one tk m unfolding Cons by (auto simp: rune_len_def Let_def)
  then show ?thesis using n hd by simp
qed

lemma rune_len_ascii [simp]: "b < 0x80 \<Longrightarrow> rune_len (b # bs) = 1"
  by (simp add: rune_len_def rune_need_def)

lemma valid_utf8_rune: "rune_len s \<noteq> 0 \<Longrightarrow> valid_utf8 (take (rune_len s) s @ t) = valid_utf8 t"
  using rune_len_append [of s t] rune_len_le [of s]
  by (subst valid_utf8.simps) (auto simp: min_absorb2)

lemma valid_utf8_ascii [simp]: "b < 0x80 \<Longrightarrow> valid_utf8 (b # bs) = valid_utf8 bs"
  by (subst valid_utf8.simps) simp

lemma to_valid_valid: "rep < 0x80 \<Longrightarrow> valid_utf8 (to_valid rep bad s)"
proof (induction rep bad s rule: to_valid.induct)
  case (1 rep bad s)
  consider "s = []" | "s \<noteq> []" "rune_len s = 0" | "s \<noteq> []" "rune_len s \<noteq> 0" by blast
  then show ?case
  proof cases
    case 3 then show ?thesis using 1 by (subst to_valid.simps) (simp add: valid_utf8_rune)
  qed (use 1 in \<open>subst to_valid.simps; simp\<close>)+
qed

lemma to_valid_id: "valid_utf8 s \<Longrightarrow> to_valid rep bad s = s"
proof (induction s arbitrary: bad rule: valid_utf8.induct)
  case (1 s)
  then show ?case
    by (subst to_valid.simps) (use 1 in \<open>auto simp: valid_utf8.simps [of s]\<close>)
qed

lemma to_valid_bytes: "set (to_valid rep bad s) \<subseteq> insert rep (set s)"
proof (induction rep bad s rule: to_valid.induct)
  case (1 rep bad s)
  consider "s = []" | "s \<noteq> []" "rune_len s = 0" | "s \<noteq> []" "rune_len s \<noteq> 0" by blast
  then show ?case
  proof cases
    case 2
    then show ?thesis using 1(1) set_drop_subset [of 1 s] by (subst to_valid.simps) auto
  next
    case 3
    then show ?thesis using 1(2) set_drop_subset [of "rune_len s" s] set_take_subset [of "rune_len s" s]
      by (subst to_valid.simps) auto
  qed (simp add: to_valid.simps)
qed

lemma to_valid_empty: "to_valid rep False s = [] \<longleftrightarrow> s = []"
  by (subst to_valid.simps) auto

text \<open>A rune is one start byte followed by continuation bytes.\<close>

lemma cont_not_start:
  assumes "cont lo hi b" "0x80 \<le> lo" "hi \<le> 0xBF"
  shows "\<not> RuneStart b"
proof -
  have "0x80 \<le> b" "b \<le> 0xBF" using assms by (auto simp: cont_def)
  then have "128 \<le> unat b" "unat b \<le> 191" by (simp_all add: word_le_nat_alt)
  then have "unat b div 64 = 2" by simp
  then show ?thesis by (simp add: RuneStart_def)
qed

lemma accept_bounds: "0x80 \<le> accept_lo a" "accept_hi a \<le> 0xBF"
  by (simp_all add: accept_lo_def accept_hi_def)

lemma rune_tail:
  assumes "0 < i" "i < rune_len s"
  shows "\<not> RuneStart (s ! i)"
proof (cases s)
  case Nil then show ?thesis using assms by (simp add: rune_len_def)
next
  case (Cons a r)
  have nz: "rune_len (a # r) \<noteq> 0" using assms Cons by auto
  note d = rune_lenD [OF nz]
  show ?thesis
  proof (cases "i = 1")
    case True
    then have "cont (accept_lo a) (accept_hi a) (s ! i)" using d assms Cons by simp
    then show ?thesis using accept_bounds by (rule cont_not_start)
  next
    case False
    then obtain j where j: "i = Suc (Suc j)" using assms by (cases i; cases "i - 1") auto
    have "s ! i = drop 2 (take (rune_need a) (a # r)) ! j" "j < length (drop 2 (take (rune_need a) (a # r)))"
      using assms d j Cons by auto
    then have "cont 0x80 0xBF (s ! i)" using d(4) by (simp add: list_all_length)
    then show ?thesis by (rule cont_not_start) simp_all
  qed
qed

lemma valid_utf8_cut:
  "valid_utf8 s \<Longrightarrow> k < length s \<Longrightarrow> k = 0 \<or> RuneStart (s ! k) \<Longrightarrow> valid_utf8 (take k s)"
proof (induction s arbitrary: k rule: valid_utf8.induct)
  case (1 s)
  show ?case
  proof (cases "k = 0")
    case False
    let ?n = "rune_len s"
    have n: "?n \<noteq> 0" "valid_utf8 (drop ?n s)" using 1(2,3) by (auto simp: valid_utf8.simps [of s] split: if_splits)
    have "?n \<le> k" using rune_tail [of k s] 1(4) False by force
    then have e: "take k s = take ?n s @ take (k - ?n) (drop ?n s)"
      by (metis le_add_diff_inverse take_add)
    have "valid_utf8 (take (k - ?n) (drop ?n s))"
      using 1 n \<open>?n \<le> k\<close> by (intro "1.IH") auto
    then show ?thesis unfolding e using n by (simp add: valid_utf8_rune)
  qed simp
qed

section \<open>Sanitized keys\<close>

definition clean :: "bytes \<Rightarrow> bool" where
  "clean k \<longleftrightarrow> list_all (\<lambda>c. firstPrintableByte \<le> c \<and> c \<noteq> delByte) k \<and> valid_utf8 k \<and> length k \<le> maxKeyBytes"

lemma back_off_le: "back_off s n \<le> n"
  by (induction n) auto

lemma back_off_start: "back_off s n = 0 \<or> RuneStart (s ! back_off s n)"
  by (induction n) auto

lemma hex_encode_bytes: "list_all (\<lambda>c. 48 \<le> c \<and> c < 0x7F) (hex_encode bs)"
proof -
  have "48 \<le> hex_digit n \<and> hex_digit n < 0x7F" if "n < 16" for n
    using that by (auto simp: hex_digit_def word_le_nat_alt word_less_nat_alt unat_of_nat simp del: of_nat_add)
  moreover have "unat b div 16 < 16" "unat b mod 16 < 16" for b :: byte
    using unsigned_less [of b] by (simp_all add: less_mult_imp_div_less)
  ultimately show ?thesis by (simp add: hex_encode_def list_all_iff)
qed

lemma valid_utf8_append: "valid_utf8 s \<Longrightarrow> valid_utf8 t \<Longrightarrow> valid_utf8 (s @ t)"
proof (induction s rule: valid_utf8.induct)
  case (1 s)
  show ?case
  proof (cases "s = []")
    case False
    then have n: "rune_len s \<noteq> 0" "valid_utf8 (drop (rune_len s) s)" using 1(2) by (auto simp: valid_utf8.simps [of s] split: if_splits)
    have "s @ t = take (rune_len s) s @ (drop (rune_len s) s @ t)" by simp
    moreover have "valid_utf8 (drop (rune_len s) s @ t)" using 1(1) [OF False n(1) n(2) 1(3)] .
    ultimately show ?thesis using valid_utf8_rune [OF n(1)] by metis
  qed (use 1 in simp)
qed

lemma valid_utf8_ascii_list: "list_all (\<lambda>c. c < 0x80) s \<Longrightarrow> valid_utf8 s"
  by (induction s) auto

lemma sanitizeKey_clean: "clean (sanitizeKey k)"
proof -
  define b where "b = map (\<lambda>c. if c < firstPrintableByte \<or> c = delByte then sanitizeReplacement else c) k"
  define s where "s = to_valid sanitizeReplacement False b"
  have "list_all (\<lambda>c. firstPrintableByte \<le> c \<and> c \<noteq> delByte) b" by (auto simp: b_def list_all_iff not_less)
  then have p: "list_all (\<lambda>c. firstPrintableByte \<le> c \<and> c \<noteq> delByte) s"
    using to_valid_bytes [of sanitizeReplacement False b] unfolding s_def list_all_iff by auto
  have v: "valid_utf8 s" by (simp add: s_def to_valid_valid)
  have e: "sanitizeKey k = (if length s \<le> maxKeyBytes then s
      else take (back_off s keyHeadBytes) s @ [keyHashSep] @ Hash_Short (HashBytes nodeIDHashDomain s))"
    by (simp add: sanitizeKey_def Let_def b_def s_def)
  show ?thesis
  proof (cases "length s \<le> maxKeyBytes")
    case True then show ?thesis using e p v by (simp add: clean_def)
  next
    case False
    let ?n = "back_off s keyHeadBytes" and ?h = "Hash_Short (HashBytes nodeIDHashDomain s)"
    have n: "?n \<le> keyHeadBytes" by (rule back_off_le)
    have "valid_utf8 (take ?n s)" using back_off_start [of s keyHeadBytes] n False v by (intro valid_utf8_cut) auto
    moreover have h: "list_all (\<lambda>c. 48 \<le> c \<and> c < 0x7F) ?h"
      using hex_encode_bytes [of "HashBytes nodeIDHashDomain s"] set_take_subset [of 12 "hex_encode (HashBytes nodeIDHashDomain s)"]
      unfolding Hash_Short_def list_all_iff by blast
    moreover have "valid_utf8 ([keyHashSep] @ ?h)"
      using h by (intro valid_utf8_ascii_list) (auto simp: list_all_iff intro: less_trans)
    moreover have "list_all (\<lambda>c. firstPrintableByte \<le> c \<and> c \<noteq> delByte) (take ?n s)"
      using p set_take_subset [of ?n s] unfolding list_all_iff by blast
    moreover have "length ?h \<le> 12" by (simp add: Hash_Short_def)
    moreover have "list_all (\<lambda>c. firstPrintableByte \<le> c \<and> c \<noteq> delByte) ?h"
      using h unfolding list_all_iff by (auto intro: order_trans [of _ 48])
    ultimately show ?thesis using e False n by (simp add: clean_def valid_utf8_append)
  qed
qed

lemma sanitizeKey_id: "clean k \<Longrightarrow> sanitizeKey k = k"
proof -
  assume k: "clean k"
  then have "map (\<lambda>c. if c < firstPrintableByte \<or> c = delByte then sanitizeReplacement else c) k = k"
    by (intro map_idI) (auto simp: clean_def list_all_iff not_less)
  then show ?thesis using k by (simp add: sanitizeKey_def to_valid_id clean_def)
qed

lemma sanitizeKey_empty: "sanitizeKey k = [] \<longleftrightarrow> k = []"
  by (cases "k = []") (simp_all add: sanitizeKey_def Let_def to_valid_empty to_valid.simps [of _ _ "[]"])

section \<open>Identifiers\<close>

lemma by_name_nth:
  assumes "distinct names" "i < length names" "i \<noteq> sentinel"
  shows "by_name sentinel names (names ! i) = Some (of_nat i)"
  unfolding by_name_def
proof (rule map_of_is_SomeI)
  let ?is = "filter (\<lambda>i. i \<noteq> sentinel) [0..<length names]"
  have "inj_on ((!) names) (set ?is)" using assms(1) by (auto simp: inj_on_def nth_eq_iff_index_eq)
  then show "distinct (map fst (rev (map (\<lambda>i. (names ! i, of_nat i :: byte)) ?is)))"
    by (simp add: rev_map [symmetric] o_def distinct_map)
  show "(names ! i, of_nat i) \<in> set (rev (map (\<lambda>i. (names ! i, of_nat i)) ?is))" using assms(2,3) by auto
qed

lemma by_name_range:
  assumes "by_name sentinel names s = Some k"
  shows "\<exists>i. i < length names \<and> i \<noteq> sentinel \<and> s = names ! i \<and> k = of_nat i"
  using map_of_SomeD [OF assms [unfolded by_name_def]] by auto

lemma prefixes_distinct: "distinct nodeKindPrefixes" "length nodeKindPrefixes = 10"
  by (simp_all add: nodeKindPrefixes_def lit_def)

lemma prefixes_no_sep: "list_all (\<lambda>p. nodeIDSep \<notin> set p) nodeKindPrefixes"
  by (simp add: nodeKindPrefixes_def lit_def)

lemma prefix_facts:
  assumes "k < KindInvalid"
  shows "kindOfPrefix (prefixOf k) = Some k" "nodeIDSep \<notin> set (prefixOf k)"
proof -
  have k: "unat k < 9" using assms by (simp add: word_less_nat_alt)
  then have p: "prefixOf k = nodeKindPrefixes ! unat k" by (simp add: prefixOf_def prefixes_distinct)
  show "kindOfPrefix (prefixOf k) = Some k"
    unfolding kindOfPrefix_def p using by_name_nth [OF prefixes_distinct(1), of "unat k" 9] k by (simp add: prefixes_distinct)
  show "nodeIDSep \<notin> set (prefixOf k)"
    unfolding p using prefixes_no_sep k by (simp add: list_all_length prefixes_distinct)
qed

lemma kindOfPrefix_range: "kindOfPrefix p = Some k \<Longrightarrow> k < KindInvalid"
proof -
  assume "kindOfPrefix p = Some k"
  then obtain i where "i < 10" "i \<noteq> 9" "k = of_nat i"
    using by_name_range [of 9 nodeKindPrefixes p k] by (auto simp: kindOfPrefix_def prefixes_distinct)
  then have "i < 9" "k = of_nat i" by simp_all
  then show ?thesis by (simp add: word_less_nat_alt unat_of_nat)
qed

lemma ParseNodeID_new:
  assumes "k < KindInvalid" "key \<noteq> []"
  shows "ParseNodeID (newNodeID k key) = Some (k, sanitizeKey key)"
proof -
  let ?P = "\<lambda>c. c \<noteq> nodeIDSep"
  have "takeWhile ?P (newNodeID k key) = prefixOf k" "dropWhile ?P (newNodeID k key) = nodeIDSep # sanitizeKey key"
    using prefix_facts(2) [OF assms(1)] unfolding newNodeID_def
    by (auto simp: takeWhile_append dropWhile_append)
  then show ?thesis using prefix_facts(1) [OF assms(1)] assms(2) by (simp add: ParseNodeID_def sanitizeKey_empty)
qed

text \<open>Every constructor of a node identifier yields one that parses back to its kind and to the
  sanitized key; the key is free of control bytes, valid UTF-8 and at most 384 bytes long, so the
  identifier survives a newline-delimited JSON log unchanged, and sanitizing is idempotent.\<close>

theorem NodeID_round_trip:
  assumes "k < KindInvalid" and "key \<noteq> []"
  shows "ParseNodeID (newNodeID k key) = Some (k, sanitizeKey key)
    \<and> list_all (\<lambda>c. firstPrintableByte \<le> c \<and> c \<noteq> delByte) (sanitizeKey key)
    \<and> valid_utf8 (sanitizeKey key) \<and> length (sanitizeKey key) \<le> maxKeyBytes
    \<and> newNodeID k (sanitizeKey key) = newNodeID k key"
  using ParseNodeID_new [OF assms] sanitizeKey_clean [of key] sanitizeKey_id [OF sanitizeKey_clean]
  by (simp add: clean_def newNodeID_def)

theorem NodeID_round_trip_witness:
  "ParseNodeID (newNodeID KindFile (lit ''src/a.ts'')) = Some (KindFile, sanitizeKey (lit ''src/a.ts''))
    \<and> newNodeID KindFile (sanitizeKey (lit ''src/a.ts'')) = newNodeID KindFile (lit ''src/a.ts'')"
proof -
  have "KindFile < KindInvalid" "lit ''src/a.ts'' \<noteq> []" by (simp_all add: lit_def)
  from NodeID_round_trip [OF this] show ?thesis by simp
qed

end
