(* ===== verification/DagGraph.thy ===== *)
theory DagGraph
  imports DagIds GoMap "HOL-Library.Product_Lexorder"
begin

unbundle bit_operations_syntax

text \<open>
  The dependence graph in memory, \<^verbatim>\<open>internal/dag/graph.go\<close> and \<^verbatim>\<open>index.go\<close>: nodes, edges with their
  adjacency and deduplication indexes, tombstones, the lazily rebuilt position index and the queue of
  records not yet written.  The mutex serializes the operations, so each is one step on the state.
  This theory holds the data, validation, merging, the lookups and the index; the log is in theory
  \<open>DagLog\<close>, the operations that queue records in \<open>DagOps\<close>.  The log file is a field of the state: its
  complete lines, and the length of an unterminated last one.
\<close>

section \<open>Single precision weights\<close>

type_synonym f32 = u32

text \<open>The order of single precision patterns, as for doubles in theory \<open>GoFloat\<close>.\<close>

definition f32_nonfinite :: "f32 \<Rightarrow> bool" where
  "f32_nonfinite w \<longleftrightarrow> unat w div 2 ^ 23 mod 2 ^ 8 = 255"

definition f32_key :: "f32 \<Rightarrow> int" where
  "f32_key w = (if 2 ^ 31 \<le> unat w then - (int (unat w) - 2 ^ 31) else int (unat w))"

definition f32_one :: f32 where "f32_one = 0x3F800000"

section \<open>Data\<close>

record Node =
  nID :: NodeID
  nKind :: byte
  nTurn :: int
  nTS :: int
  nPos :: int
  nRef :: bytes
  nRoot :: hash
  nTokens :: int
  nEphemeral :: bool

record Edge =
  eFrom :: NodeID
  eTo :: NodeID
  eKind :: byte
  eWeight :: f32
  eTurn :: int

datatype dag_error = ErrInvalidNode | ErrInvalidEdge | ErrClosed | ErrIO | ErrContext

datatype rec = RecNode Node | RecEdge Edge | RecTomb NodeID int | RecGen int int

text \<open>A line of the log after JSON parsing: a record of one of the four types, a type this build does
  not know, a blank line, or bytes that are no JSON object, with their number.\<close>

datatype line = LNode Node | LEdge Edge | LTomb NodeID int | LGen int int int int int | LOther | LBlank | LMalformed nat

record logfile =
  f_lines :: "line list"
  f_frag :: nat

type_synonym edgeKey = "NodeID \<times> NodeID \<times> byte"

record graph =
  g_nodes :: "(NodeID, Node) gomap"
  g_edges :: "Edge list"
  g_out :: "(NodeID, nat list) gomap"
  g_in :: "(NodeID, nat list) gomap"
  g_edgeIdx :: "(edgeKey, nat) gomap"
  g_dead :: "(NodeID, bool) gomap"
  g_posIdx :: "NodeID list"
  g_posVals :: "int list"
  g_lo :: "int list"
  g_hi :: "int list"
  g_idxDirty :: bool
  g_pending :: "rec list"
  g_gen :: int
  g_logRecords :: int
  g_loadErrors :: int
  g_truncatedTail :: bool
  g_lastCompaction :: int
  g_closed :: bool
  g_file :: logfile

text \<open>An empty graph over a log file.\<close>

definition newGraph :: "logfile \<Rightarrow> graph" where
  "newGraph f = \<lparr>g_nodes = [], g_edges = [], g_out = [], g_in = [], g_edgeIdx = [], g_dead = [],
     g_posIdx = [], g_posVals = [], g_lo = [], g_hi = [], g_idxDirty = False, g_pending = [], g_gen = 0,
     g_logRecords = 0, g_loadErrors = 0, g_truncatedTail = False, g_lastCompaction = 0, g_closed = False, g_file = f\<rparr>"

abbreviation isDead :: "graph \<Rightarrow> NodeID \<Rightarrow> bool" where
  "isDead g i \<equiv> mget False (g_dead g) i"

section \<open>Nodes\<close>

definition validateNode :: "Node \<Rightarrow> dag_error option" where
  "validateNode n =
     (if nID n = [] then Some ErrInvalidNode
      else case ParseNodeID (nID n) of
             None \<Rightarrow> Some ErrInvalidNode
           | Some (kind, _) \<Rightarrow>
               if kind \<noteq> nKind n then Some ErrInvalidNode
               else if nPos n < 0 then Some ErrInvalidNode
               else if nTokens n < 0 then Some ErrInvalidNode
               else None)"

definition isAnchorKind :: "byte \<Rightarrow> bool" where
  "isAnchorKind k \<longleftrightarrow> k = KindFile \<or> k = KindSymbol \<or> k = KindSegment"

definition earliest :: "int \<Rightarrow> int \<Rightarrow> int" where
  "earliest prev incoming =
     (if incoming = 0 then prev else if prev = 0 then incoming else if incoming < prev then incoming else prev)"

definition mergeNode :: "Node \<Rightarrow> Node \<Rightarrow> Node" where
  "mergeNode prev inc =
     (let merged = prev\<lparr>nKind := nKind inc\<rparr>;
          merged = (if isAnchorKind (nKind inc)
                    then merged\<lparr>nPos := earliest (nPos prev) (nPos inc), nTurn := earliest (nTurn prev) (nTurn inc)\<rparr>
                    else merged\<lparr>nPos := (if nPos inc \<noteq> 0 then nPos inc else nPos merged),
                                nTurn := (if nTurn inc \<noteq> 0 then nTurn inc else nTurn merged)\<rparr>)
      in merged\<lparr>nTS := (if nTS inc \<noteq> 0 then nTS inc else nTS merged),
                nRef := (if nRef inc \<noteq> [] then nRef inc else nRef merged),
                nRoot := (if \<not> Hash_IsZero (nRoot inc) then nRoot inc else nRoot merged),
                nTokens := (if nTokens inc \<noteq> 0 then nTokens inc else nTokens merged),
                nEphemeral := (nEphemeral prev \<or> nEphemeral inc)\<rparr>)"

text \<open>The node stored for \<open>n\<close>: merged into what is there.\<close>

definition merged_with :: "graph \<Rightarrow> Node \<Rightarrow> Node" where
  "merged_with g n = (case map_of (g_nodes g) (nID n) of None \<Rightarrow> n | Some prev \<Rightarrow> mergeNode prev n)"

definition put_node :: "NodeID \<Rightarrow> Node \<Rightarrow> graph \<Rightarrow> graph" where
  "put_node i m g = g\<lparr>g_nodes := mput i m (g_nodes g), g_dead := mdel i (g_dead g), g_idxDirty := True\<rparr>"

section \<open>Edges\<close>

definition validateEdge :: "Edge \<Rightarrow> (dag_error, Edge) result" where
  "validateEdge e =
     (if ParseNodeID (eFrom e) = None then Inl ErrInvalidEdge
      else if ParseNodeID (eTo e) = None then Inl ErrInvalidEdge
      else if eFrom e = eTo e then Inl ErrInvalidEdge
      else if EdgeControlOnly < eKind e then Inl ErrInvalidEdge
      else if f32_nonfinite (eWeight e) then Inl ErrInvalidEdge
      else if f32_key (eWeight e) \<le> 0 \<or> f32_key f32_one < f32_key (eWeight e) then Inr (e\<lparr>eWeight := f32_one\<rparr>)
      else Inr e)"

definition edge_key :: "Edge \<Rightarrow> edgeKey" where
  "edge_key e = (eFrom e, eTo e, eKind e)"

text \<open>The fold of an edge already present: the strongest weight, the earliest turn.\<close>

definition fold_edge :: "Edge \<Rightarrow> Edge \<Rightarrow> Edge" where
  "fold_edge old new =
     (let e = (if f32_key (eWeight new) > f32_key (eWeight old) then old\<lparr>eWeight := eWeight new\<rparr> else old)
      in if eTurn new < eTurn e then e\<lparr>eTurn := eTurn new\<rparr> else e)"

definition append_edge :: "Edge \<Rightarrow> graph \<Rightarrow> graph" where
  "append_edge e g =
     (let idx = length (g_edges g)
      in g\<lparr>g_edges := g_edges g @ [e],
           g_edgeIdx := mput (edge_key e) idx (g_edgeIdx g),
           g_out := mput (eFrom e) (mget [] (g_out g) (eFrom e) @ [idx]) (g_out g),
           g_in := mput (eTo e) (mget [] (g_in g) (eTo e) @ [idx]) (g_in g),
           g_idxDirty := True\<rparr>)"

section \<open>Lookups\<close>

definition GNode :: "graph \<Rightarrow> NodeID \<Rightarrow> Node option" where
  "GNode g i = (if g_closed g \<or> isDead g i then None else map_of (g_nodes g) i)"

definition adjacent :: "graph \<Rightarrow> NodeID \<Rightarrow> bool \<Rightarrow> nat list" where
  "adjacent g i backward = (if backward then mget [] (g_in g) i else mget [] (g_out g) i)"

definition incident :: "graph \<Rightarrow> NodeID \<Rightarrow> bool \<Rightarrow> Edge list" where
  "incident g i backward =
     (if g_closed g \<or> isDead g i then []
      else filter (\<lambda>e. \<not> isDead g (eFrom e) \<and> \<not> isDead g (eTo e)) (map (\<lambda>j. g_edges g ! j) (adjacent g i backward)))"

definition Out :: "graph \<Rightarrow> NodeID \<Rightarrow> Edge list" where "Out g i = incident g i False"
definition In :: "graph \<Rightarrow> NodeID \<Rightarrow> Edge list" where "In g i = incident g i True"

definition live :: "graph \<Rightarrow> NodeID \<Rightarrow> bool" where
  "live g i \<longleftrightarrow> \<not> isDead g i \<and> map_of (g_nodes g) i \<noteq> None"

definition dangling :: "graph \<Rightarrow> nat" where
  "dangling g = length (filter (\<lambda>e. \<not> live g (eFrom e) \<or> \<not> live g (eTo e)) (g_edges g))"

abbreviation autoFlushRecords :: nat where "autoFlushRecords \<equiv> 2000"

definition needsCompaction :: "graph \<Rightarrow> bool" where
  "needsCompaction g =
     (if g_logRecords g < int autoFlushRecords then False
      else int (length (g_dead g) + dangling g) * 4 \<ge> g_logRecords g)"

section \<open>The position index\<close>

definition rebuildIndex :: "graph \<Rightarrow> graph" where
  "rebuildIndex g =
     (let ids = filter (\<lambda>i. \<not> isDead g i) (map fst (g_nodes g));
          node = (\<lambda>i. the (map_of (g_nodes g) i));
          posIdx = sort_key (\<lambda>i. (nPos (node i), nTurn (node i), i)) ids;
          ends = map (\<lambda>e. (nPos (node (eFrom e)), nPos (node (eTo e))))
                   (filter (\<lambda>e. live g (eFrom e) \<and> live g (eTo e)) (g_edges g))
      in g\<lparr>g_posIdx := posIdx, g_posVals := map (\<lambda>i. nPos (node i)) posIdx,
           g_lo := sort (map (\<lambda>(a, b). min a b) ends), g_hi := sort (map (\<lambda>(a, b). max a b) ends),
           g_idxDirty := False\<rparr>)"

definition withIndex :: "graph \<Rightarrow> graph" where
  "withIndex g = (if g_idxDirty g then rebuildIndex g else g)"

text \<open>\<^verbatim>\<open>sort.Search\<close>: the smallest index in \<open>[i, j)\<close> where a monotone test holds, by bisection.\<close>

function search_ints :: "int list \<Rightarrow> int \<Rightarrow> nat \<Rightarrow> nat \<Rightarrow> nat" where
  "search_ints xs x i j =
     (if i < j then let h = (i + j) div 2 in if xs ! h < x then search_ints xs x (h + 1) j else search_ints xs x i h
      else i)"
  by auto
termination by (relation "measure (\<lambda>(xs, x, i, j). j - i)") auto

declare search_ints.simps [simp del]

definition SearchInts :: "int list \<Rightarrow> int \<Rightarrow> nat" where
  "SearchInts xs x = search_ints xs x 0 (length xs)"

text \<open>Both queries leave the index clean: the result and the graph after it.\<close>

definition CrossingEdges :: "graph \<Rightarrow> int \<Rightarrow> int \<times> graph" where
  "CrossingEdges g pos =
     (if pos \<le> 0 then (0, g)
      else let g = withIndex g in
        (if g_closed g then 0 else int (SearchInts (g_lo g) pos) - int (SearchInts (g_hi g) pos), g))"

definition NodesAfter :: "graph \<Rightarrow> int \<Rightarrow> Node list \<times> graph" where
  "NodesAfter g pos =
     (let g = withIndex g in
      (if g_closed g then []
       else map (\<lambda>i. the (map_of (g_nodes g) i)) (drop (SearchInts (g_posVals g) pos) (g_posIdx g)), g))"

section \<open>Statistics\<close>

record GraphStats =
  sNodes :: nat
  sEdges :: nat
  sNodesByKind :: "(bytes, nat) gomap"
  sEdgesByKind :: "(bytes, nat) gomap"
  sTombstoned :: nat
  sDangling :: nat
  sPendingRecords :: nat
  sLogRecords :: int
  sGeneration :: int
  sMaxPos :: int
  sLastCompaction :: int
  sLoadErrors :: int
  sTruncatedTail :: bool
  sNeedsCompaction :: bool

definition tally :: "bytes list \<Rightarrow> (bytes, nat) gomap" where
  "tally ks = foldl (\<lambda>m k. mput k (mget 0 m k + 1) m) [] ks"

definition Stats :: "graph \<Rightarrow> GraphStats" where
  "Stats g =
     (let s = \<lparr>sNodes = 0, sEdges = 0, sNodesByKind = [], sEdgesByKind = [], sTombstoned = 0, sDangling = 0,
               sPendingRecords = 0, sLogRecords = g_logRecords g, sGeneration = 0, sMaxPos = 0,
               sLastCompaction = g_lastCompaction g, sLoadErrors = g_loadErrors g,
               sTruncatedTail = g_truncatedTail g, sNeedsCompaction = False\<rparr>
      in if g_closed g then s
         else let ns = filter (\<lambda>p. \<not> isDead g (fst p)) (g_nodes g)
              in s\<lparr>sNodes := length ns, sNodesByKind := tally (map (\<lambda>p. NodeKind_String (nKind (snd p))) ns),
                   sMaxPos := foldl (\<lambda>m p. if nPos (snd p) > m then nPos (snd p) else m) 0 ns,
                   sEdges := length (g_edges g), sEdgesByKind := tally (map (\<lambda>e. EdgeKind_String (eKind e)) (g_edges g)),
                   sTombstoned := length (g_dead g), sDangling := dangling g,
                   sPendingRecords := length (g_pending g), sGeneration := g_gen g,
                   sNeedsCompaction := needsCompaction g\<rparr>)"

section \<open>Bisection\<close>

lemma search_ints_spec:
  assumes "sorted xs" "i \<le> j" "j \<le> length xs" "\<forall>k < i. xs ! k < x" "\<forall>k. j \<le> k \<and> k < length xs \<longrightarrow> x \<le> xs ! k"
  shows "search_ints xs x i j \<le> length xs \<and> (\<forall>k < search_ints xs x i j. xs ! k < x)
    \<and> (\<forall>k. search_ints xs x i j \<le> k \<and> k < length xs \<longrightarrow> x \<le> xs ! k)"
  using assms
proof (induction xs x i j rule: search_ints.induct)
  case (1 xs x i j)
  show ?case
  proof (cases "i < j")
    case False
    then have "search_ints xs x i j = i" by (subst search_ints.simps) simp
    then show ?thesis using False "1.prems" by auto
  next
    case True
    let ?h = "(i + j) div 2"
    have h: "i \<le> ?h" "?h < j" using True by auto
    have mono: "k \<le> l \<Longrightarrow> l < length xs \<Longrightarrow> xs ! k \<le> xs ! l" for k l using "1.prems"(1) by (simp add: sorted_nth_mono)
    show ?thesis
    proof (cases "xs ! ?h < x")
      case less: True
      have "\<forall>k < ?h + 1. xs ! k < x"
      proof (intro allI impI)
        fix k assume "k < ?h + 1"
        then have "xs ! k \<le> xs ! ?h" using h "1.prems"(3) by (intro mono) auto
        then show "xs ! k < x" using less by simp
      qed
      then have "search_ints xs x (?h + 1) j \<le> length xs \<and> (\<forall>k < search_ints xs x (?h + 1) j. xs ! k < x)
          \<and> (\<forall>k. search_ints xs x (?h + 1) j \<le> k \<and> k < length xs \<longrightarrow> x \<le> xs ! k)"
        using "1.IH"(1) [OF True refl less] "1.prems" h by auto
      moreover have "search_ints xs x i j = search_ints xs x (?h + 1) j" using True less by (subst search_ints.simps) simp
      ultimately show ?thesis by simp
    next
      case ge: False
      have up: "\<forall>k. ?h \<le> k \<and> k < length xs \<longrightarrow> x \<le> xs ! k"
      proof (intro allI impI, elim conjE)
        fix k assume "?h \<le> k" "k < length xs"
        then have "xs ! ?h \<le> xs ! k" by (rule mono)
        then show "x \<le> xs ! k" using ge by simp
      qed
      have "?h \<le> length xs" using h "1.prems"(3) by simp
      note ih = "1.IH"(2) [OF True refl ge "1.prems"(1) h(1) this "1.prems"(4) up]
      have "search_ints xs x i j = search_ints xs x i ?h" using True ge by (subst search_ints.simps) simp
      with ih show ?thesis by metis
    qed
  qed
qed

lemma split_at_threshold:
  assumes "n \<le> length xs" "\<forall>k < n. P (xs ! k)" "\<forall>k. n \<le> k \<and> k < length xs \<longrightarrow> \<not> P (xs ! k)"
  shows "filter P xs = take n xs" "filter (\<lambda>x. \<not> P x) xs = drop n xs"
proof -
  have "\<forall>x \<in> set (take n xs). P x" "\<forall>x \<in> set (drop n xs). \<not> P x"
    using assms by (auto simp: in_set_conv_nth)
  then have "filter P (take n xs @ drop n xs) = take n xs" "filter (\<lambda>x. \<not> P x) (take n xs @ drop n xs) = drop n xs"
    unfolding filter_append by (simp_all add: filter_id_conv filter_empty_conv)
  then show "filter P xs = take n xs" "filter (\<lambda>x. \<not> P x) xs = drop n xs" by simp_all
qed

lemma SearchInts_spec:
  assumes "sorted xs"
  shows "SearchInts xs x \<le> length xs" "\<forall>k < SearchInts xs x. xs ! k < x"
    "\<forall>k. SearchInts xs x \<le> k \<and> k < length xs \<longrightarrow> \<not> xs ! k < x"
  using search_ints_spec [OF assms, of 0 "length xs" x] unfolding SearchInts_def by auto

lemma SearchInts_count: "sorted xs \<Longrightarrow> SearchInts xs x = length (filter (\<lambda>y. y < x) xs)"
  using split_at_threshold(1) [OF SearchInts_spec] SearchInts_spec(1) by (metis length_take min_absorb2)

section \<open>The index and the graph\<close>

text \<open>The index describes the graph, unless it is marked dirty.\<close>

definition index_ok :: "graph \<Rightarrow> bool" where
  "index_ok g \<longleftrightarrow> g_idxDirty g \<or> rebuildIndex g = g"

lemma withIndex_eq: "index_ok g \<Longrightarrow> withIndex g = rebuildIndex g"
  by (auto simp: index_ok_def withIndex_def)

lemma rebuildIndex_fields [simp]:
  "g_nodes (rebuildIndex g) = g_nodes g" "g_edges (rebuildIndex g) = g_edges g" "g_dead (rebuildIndex g) = g_dead g"
  "g_closed (rebuildIndex g) = g_closed g" "g_idxDirty (rebuildIndex g) = False" "g_out (rebuildIndex g) = g_out g"
  "g_in (rebuildIndex g) = g_in g" "g_edgeIdx (rebuildIndex g) = g_edgeIdx g" "g_pending (rebuildIndex g) = g_pending g"
  "g_gen (rebuildIndex g) = g_gen g" "g_file (rebuildIndex g) = g_file g" "g_logRecords (rebuildIndex g) = g_logRecords g"
  by (simp_all add: rebuildIndex_def Let_def)

lemma rebuildIndex_ok: "index_ok (rebuildIndex g)"
  by (simp add: index_ok_def rebuildIndex_def Let_def live_def)

text \<open>The node stored for an identifier, its position, and the edges between live nodes.\<close>

abbreviation node_at :: "graph \<Rightarrow> NodeID \<Rightarrow> Node" where
  "node_at g i \<equiv> the (map_of (g_nodes g) i)"

definition straddles :: "graph \<Rightarrow> int \<Rightarrow> Edge \<Rightarrow> bool" where
  "straddles g pos e \<longleftrightarrow> live g (eFrom e) \<and> live g (eTo e)
     \<and> min (nPos (node_at g (eFrom e))) (nPos (node_at g (eTo e))) < pos
     \<and> pos \<le> max (nPos (node_at g (eFrom e))) (nPos (node_at g (eTo e)))"

lemma count_straddling:
  fixes ps :: "(int \<times> int) list"
  shows "int (length (filter (\<lambda>y. y < x) (map (\<lambda>(a, b). min a b) ps))) - int (length (filter (\<lambda>y. y < x) (map (\<lambda>(a, b). max a b) ps)))
    = int (length (filter (\<lambda>(a, b). min a b < x \<and> x \<le> max a b) ps))"
  by (induction ps) auto

lemma length_filter_sort: "length (filter P (sort xs)) = length (filter P xs)"
  by (simp add: filter_sort)

lemma CrossingEdges_eq:
  assumes "index_ok g" "\<not> g_closed g" "0 < pos"
  shows "fst (CrossingEdges g pos) = int (length (filter (straddles g pos) (g_edges g)))"
proof -
  let ?ends = "map (\<lambda>e. (nPos (node_at g (eFrom e)), nPos (node_at g (eTo e))))
      (filter (\<lambda>e. live g (eFrom e) \<and> live g (eTo e)) (g_edges g))"
  have lh: "g_lo (rebuildIndex g) = sort (map (\<lambda>(a, b). min a b) ?ends)"
    "g_hi (rebuildIndex g) = sort (map (\<lambda>(a, b). max a b) ?ends)"
    by (simp_all add: rebuildIndex_def Let_def)
  have "fst (CrossingEdges g pos) = int (length (filter (\<lambda>(a, b). min a b < pos \<and> pos \<le> max a b) ?ends))"
    using assms unfolding count_straddling [symmetric]
    by (simp add: CrossingEdges_def withIndex_eq lh SearchInts_count length_filter_sort)
  also have "filter (\<lambda>(a, b). min a b < pos \<and> pos \<le> max a b) ?ends =
      map (\<lambda>e. (nPos (node_at g (eFrom e)), nPos (node_at g (eTo e)))) (filter (straddles g pos) (g_edges g))"
    by (simp add: filter_map o_def straddles_def [abs_def] conj_ac)
  finally show ?thesis by simp
qed

definition liveNodes :: "graph \<Rightarrow> Node list" where
  "liveNodes g = map (\<lambda>i. node_at g i)
     (sort_key (\<lambda>i. (nPos (node_at g i), nTurn (node_at g i), i)) (filter (\<lambda>i. \<not> isDead g i) (map fst (g_nodes g))))"

lemma NodesAfter_eq:
  assumes "index_ok g" "\<not> g_closed g"
  shows "fst (NodesAfter g pos) = filter (\<lambda>n. pos \<le> nPos n) (liveNodes g)"
proof -
  let ?key = "\<lambda>i. (nPos (node_at g i), nTurn (node_at g i), i)"
  let ?ids = "sort_key ?key (filter (\<lambda>i. \<not> isDead g i) (map fst (g_nodes g)))"
  let ?vals = "map (\<lambda>i. nPos (node_at g i)) ?ids"
  have "sorted (map ?key ?ids)" by (rule sorted_sort_key)
  then have "sorted (map fst (map ?key ?ids))"
    by (rule sorted_map_mono) (auto simp: monotone_on_def less_eq_prod_def)
  then have s: "sorted ?vals" by (simp add: o_def)
  have "filter (\<lambda>i. \<not> nPos (node_at g i) < pos) ?ids = drop (SearchInts ?vals pos) ?ids"
    using SearchInts_spec [OF s, of pos] by (intro split_at_threshold) auto
  moreover have "g_posVals (rebuildIndex g) = ?vals" "g_posIdx (rebuildIndex g) = ?ids"
    by (simp_all add: rebuildIndex_def Let_def)
  ultimately show ?thesis using assms
    by (simp add: NodesAfter_def withIndex_eq Let_def liveNodes_def filter_map o_def not_less)
qed

end
