(* ===== verification/DagLog.thy ===== *)
theory DagLog
  imports DagGraph
begin

text \<open>
  The log of the dependence graph, \<^verbatim>\<open>internal/dag/log.go\<close> and \<^verbatim>\<open>wire.go\<close>: encoding a record as a
  line, classifying a line read back, applying a record, loading a log with damaged lines and a
  torn tail, and flushing the queue.  The length of a line in bytes is the function argument
  \<open>len\<close> (it is \<^verbatim>\<open>encoding/json\<close>'s rendering); what the file system does with a write is the
  argument \<open>io\<close> of a flush.
\<close>

abbreviation maxLineBytes :: nat where "maxLineBytes \<equiv> 1048576"
abbreviation wireVersion :: int where "wireVersion \<equiv> 1"

section \<open>Records and lines\<close>

text \<open>A string through \<^verbatim>\<open>encoding/json\<close> and back: every invalid byte is replaced by U+FFFD.\<close>

function json_str :: "bytes \<Rightarrow> bytes" where
  "json_str s =
     (if s = [] then []
      else if rune_len s = 0 then [0xEF, 0xBF, 0xBD] @ json_str (drop 1 s)
      else take (rune_len s) s @ json_str (drop (rune_len s) s))"
  by auto
termination by (relation "measure length") auto

declare json_str.simps [simp del]

definition node_line :: "Node \<Rightarrow> Node" where
  "node_line n = n\<lparr>nID := json_str (nID n), nRef := json_str (nRef n)\<rparr>"

definition edge_line :: "Edge \<Rightarrow> Edge" where
  "edge_line e = e\<lparr>eFrom := json_str (eFrom e), eTo := json_str (eTo e)\<rparr>"

fun rec_line :: "rec \<Rightarrow> line" where
  "rec_line (RecNode n) = LNode (node_line n)"
| "rec_line (RecEdge e) = LEdge (edge_line e)"
| "rec_line (RecTomb i ts) = LTomb (json_str i) ts"
| "rec_line (RecGen gen ts) = LGen wireVersion gen ts 0 0"

definition encodeGeneration :: "int \<Rightarrow> int \<Rightarrow> nat \<Rightarrow> nat \<Rightarrow> line" where
  "encodeGeneration gen ts nodes edges = LGen wireVersion gen ts (int nodes) (int edges)"

definition encodeRecord :: "(line \<Rightarrow> nat) \<Rightarrow> rec \<Rightarrow> (dag_error, line) result" where
  "encodeRecord len r =
     (let overflow = (case r of RecEdge _ \<Rightarrow> ErrInvalidEdge | _ \<Rightarrow> ErrInvalidNode)
      in if len (rec_line r) > maxLineBytes then Inl overflow else Inr (rec_line r))"

text \<open>\<open>Inl ()\<close> for a damaged line, \<open>Inr None\<close> for one to skip, else the record.\<close>

fun decodeRecord :: "line \<Rightarrow> unit + rec option" where
  "decodeRecord LBlank = Inr None"
| "decodeRecord (LMalformed _) = Inl ()"
| "decodeRecord (LNode n) =
     (if KindInvalid \<le> nKind n then Inl ()
      else if ParseNodeID (nID n) = None then Inl ()
      else Inr (Some (RecNode n)))"
| "decodeRecord (LEdge e) =
     (if EdgeInvalid \<le> eKind e then Inl ()
      else if ParseNodeID (eFrom e) = None then Inl ()
      else if ParseNodeID (eTo e) = None then Inl ()
      else Inr (Some (RecEdge e)))"
| "decodeRecord (LTomb i ts) = (if i = [] then Inl () else Inr (Some (RecTomb i ts)))"
| "decodeRecord (LGen v gen ts _ _) =
     (if wireVersion < v then Inr None else if v < wireVersion then Inl () else Inr (Some (RecGen gen ts)))"
| "decodeRecord LOther = Inr None"

section \<open>Applying a record\<close>

fun applyRecord :: "rec \<Rightarrow> graph \<Rightarrow> (dag_error, graph) result" where
  "applyRecord (RecNode n) g =
     (case validateNode n of Some e \<Rightarrow> Inl e | None \<Rightarrow> Inr (put_node (nID n) (merged_with g n) g))"
| "applyRecord (RecEdge e) g =
     (case validateEdge e of
        Inl err \<Rightarrow> Inl err
      | Inr norm \<Rightarrow>
          (case map_of (g_edgeIdx g) (edge_key norm) of
             Some i \<Rightarrow> Inr (g\<lparr>g_edges := (g_edges g)[i := fold_edge (g_edges g ! i) norm], g_idxDirty := True\<rparr>)
           | None \<Rightarrow> Inr (append_edge norm g)))"
| "applyRecord (RecTomb i ts) g =
     (if i = [] then Inl ErrInvalidNode else Inr (g\<lparr>g_dead := mput i True (g_dead g), g_idxDirty := True\<rparr>))"
| "applyRecord (RecGen gen ts) g = Inr (g\<lparr>g_gen := gen, g_idxDirty := True\<rparr>)"

section \<open>Loading\<close>

text \<open>\<^verbatim>\<open>apply\<close> of \<^verbatim>\<open>load\<close>: one line, counted, applied or counted as an error.\<close>

definition load_line :: "graph \<Rightarrow> line \<Rightarrow> graph" where
  "load_line g l =
     (let g = g\<lparr>g_logRecords := g_logRecords g + 1\<rparr>; bad = g\<lparr>g_loadErrors := g_loadErrors g + 1\<rparr>
      in case decodeRecord l of
           Inl _ \<Rightarrow> bad
         | Inr None \<Rightarrow> g
         | Inr (Some r) \<Rightarrow> (case applyRecord r g of Inl _ \<Rightarrow> bad | Inr g' \<Rightarrow> g'))"

text \<open>The scan: it gives up at a line that does not fit the scanner's buffer with its newline.\<close>

fun load_lines :: "(line \<Rightarrow> nat) \<Rightarrow> line list \<Rightarrow> graph \<Rightarrow> bool \<times> graph" where
  "load_lines len [] g = (False, g)"
| "load_lines len (l # ls) g = (if maxLineBytes \<le> len l then (True, g) else load_lines len ls (load_line g l))"

definition Open :: "(line \<Rightarrow> nat) \<Rightarrow> logfile \<Rightarrow> graph" where
  "Open len f =
     (let (stopped, g) = load_lines len (f_lines f) (newGraph f);
          stopped = (stopped \<or> maxLineBytes \<le> f_frag f)
      in if stopped then g\<lparr>g_loadErrors := g_loadErrors g + 1\<rparr>
         else if 0 < f_frag f then g\<lparr>g_truncatedTail := True\<rparr>
         else g)"

section \<open>Flushing\<close>

text \<open>What the file system does: the write and the sync succeed; the directory or the file cannot be
  opened; or the call fails after \<open>k\<close> whole lines and \<open>m\<close> bytes of the next.\<close>

datatype io = IoOk | IoRefused | IoShort nat nat

text \<open>Appending to a file whose last line is unterminated continues that line.\<close>

definition append_lines :: "(line \<Rightarrow> nat) \<Rightarrow> line list \<Rightarrow> nat \<Rightarrow> logfile \<Rightarrow> logfile" where
  "append_lines len ls m f =
     (case ls of
        [] \<Rightarrow> f\<lparr>f_frag := f_frag f + m\<rparr>
      | l # ls' \<Rightarrow>
          \<lparr>f_lines = f_lines f @ (if 0 < f_frag f then LMalformed (f_frag f + len l) else l) # ls', f_frag = m\<rparr>)"

fun encode_all :: "(line \<Rightarrow> nat) \<Rightarrow> rec list \<Rightarrow> (dag_error, line list) result" where
  "encode_all len [] = Inr []"
| "encode_all len (r # rs) =
     (case encodeRecord len r of Inl e \<Rightarrow> Inl e | Inr l \<Rightarrow>
      (case encode_all len rs of Inl e \<Rightarrow> Inl e | Inr ls \<Rightarrow> Inr (l # ls)))"

definition flush :: "(line \<Rightarrow> nat) \<Rightarrow> bool \<Rightarrow> io \<Rightarrow> graph \<Rightarrow> dag_error option \<times> graph" where
  "flush len cancelled io g =
     (if g_closed g then (Some ErrClosed, g)
      else if g_pending g = [] then (None, g)
      else if cancelled then (Some ErrContext, g)
      else if io = IoRefused then (Some ErrIO, g)
      else case encode_all len (g_pending g) of
             Inl e \<Rightarrow> (Some e, g)
           | Inr ls \<Rightarrow>
               (case io of
                  IoShort k m \<Rightarrow> (Some ErrIO, g\<lparr>g_file := append_lines len (take k ls) m (g_file g)\<rparr>)
                | _ \<Rightarrow> (None, g\<lparr>g_file := append_lines len ls 0 (g_file g),
                               g_logRecords := g_logRecords g + int (length (g_pending g)), g_pending := []\<rparr>)))"

definition maybeAutoFlush :: "(line \<Rightarrow> nat) \<Rightarrow> io \<Rightarrow> graph \<Rightarrow> graph" where
  "maybeAutoFlush len io g = (if length (g_pending g) < autoFlushRecords then g else snd (flush len False io g))"


section \<open>Validated data\<close>

lemma json_str_id: "valid_utf8 s \<Longrightarrow> json_str s = s"
proof (induction s rule: valid_utf8.induct)
  case (1 s)
  then show ?case by (subst json_str.simps) (use 1 in \<open>auto simp: valid_utf8.simps [of s]\<close>)
qed

definition node_utf8 :: "Node \<Rightarrow> bool" where
  "node_utf8 n \<longleftrightarrow> valid_utf8 (nID n) \<and> valid_utf8 (nRef n)"

definition edge_utf8 :: "Edge \<Rightarrow> bool" where
  "edge_utf8 e \<longleftrightarrow> valid_utf8 (eFrom e) \<and> valid_utf8 (eTo e)"

lemma node_line_id [simp]: "node_utf8 n \<Longrightarrow> node_line n = n"
  by (simp add: node_line_def node_utf8_def json_str_id)

lemma edge_line_id [simp]: "edge_utf8 e \<Longrightarrow> edge_line e = e"
  by (simp add: edge_line_def edge_utf8_def json_str_id)

lemma earliest_idem [simp]: "earliest p (earliest p i) = earliest p i"
  by (auto simp: earliest_def)

lemma earliest_nonneg: "0 \<le> p \<Longrightarrow> 0 \<le> i \<Longrightarrow> 0 \<le> earliest p i"
  by (auto simp: earliest_def)

lemma mergeNode_fields [simp]:
  "nID (mergeNode p n) = nID p"
  "nKind (mergeNode p n) = nKind n"
  "nPos (mergeNode p n) = (if isAnchorKind (nKind n) then earliest (nPos p) (nPos n) else if nPos n \<noteq> 0 then nPos n else nPos p)"
  "nTurn (mergeNode p n) = (if isAnchorKind (nKind n) then earliest (nTurn p) (nTurn n) else if nTurn n \<noteq> 0 then nTurn n else nTurn p)"
  "nTS (mergeNode p n) = (if nTS n \<noteq> 0 then nTS n else nTS p)"
  "nRef (mergeNode p n) = (if nRef n \<noteq> [] then nRef n else nRef p)"
  "nRoot (mergeNode p n) = (if \<not> Hash_IsZero (nRoot n) then nRoot n else nRoot p)"
  "nTokens (mergeNode p n) = (if nTokens n \<noteq> 0 then nTokens n else nTokens p)"
  "nEphemeral (mergeNode p n) = (nEphemeral p \<or> nEphemeral n)"
  by (cases "isAnchorKind (nKind n)"; simp add: mergeNode_def Let_def)+

lemma mergeNode_idem: "mergeNode p (mergeNode p n) = mergeNode p n"
  by (rule Node.equality) simp_all

lemma validateNode_iff:
  "validateNode n = None \<longleftrightarrow> nID n \<noteq> [] \<and> (\<exists>key. ParseNodeID (nID n) = Some (nKind n, key)) \<and> 0 \<le> nPos n \<and> 0 \<le> nTokens n"
  by (auto simp: validateNode_def split: option.splits)

lemma mergeNode_valid:
  assumes "validateNode p = None" "validateNode n = None" "nID p = nID n"
  shows "validateNode (mergeNode p n) = None"
  using assms unfolding validateNode_iff by (auto intro: earliest_nonneg)

definition ends_ok :: "Edge \<Rightarrow> bool" where
  "ends_ok e \<longleftrightarrow> ParseNodeID (eFrom e) \<noteq> None \<and> ParseNodeID (eTo e) \<noteq> None \<and> eFrom e \<noteq> eTo e \<and> eKind e \<le> EdgeControlOnly"

definition weight_ok :: "f32 \<Rightarrow> bool" where
  "weight_ok w \<longleftrightarrow> \<not> f32_nonfinite w \<and> 0 < f32_key w \<and> f32_key w \<le> f32_key f32_one"

lemma weight_ok_one: "weight_ok f32_one"
  by (simp add: weight_ok_def f32_nonfinite_def f32_key_def f32_one_def)

lemma validateEdge_iff:
  "validateEdge e = Inr n \<longleftrightarrow> ends_ok e \<and> \<not> f32_nonfinite (eWeight e) \<and> n = (if weight_ok (eWeight e) then e else e\<lparr>eWeight := f32_one\<rparr>)"
  unfolding validateEdge_def ends_ok_def weight_ok_def by (simp add: not_le not_less) auto

lemma validateEdge_fixed: "validateEdge e = Inr e \<longleftrightarrow> ends_ok e \<and> weight_ok (eWeight e)"
proof -
  have "\<not> weight_ok (eWeight e) \<Longrightarrow> e \<noteq> e\<lparr>eWeight := f32_one\<rparr>" using weight_ok_one by (metis Edge.select_convs(4) Edge.surjective Edge.update_convs(4))
  then show ?thesis unfolding validateEdge_iff by (auto simp: weight_ok_def)
qed

lemma validateEdge_idem: "validateEdge e = Inr n \<Longrightarrow> validateEdge n = Inr n"
  unfolding validateEdge_fixed using weight_ok_one unfolding validateEdge_iff by (auto simp: ends_ok_def)

lemma validateEdge_ends: "validateEdge e = Inr n \<Longrightarrow> edge_key n = edge_key e \<and> eTurn n = eTurn e"
  by (auto simp: validateEdge_def edge_key_def split: if_splits)

lemma edge_key_fold [simp]: "edge_key (fold_edge a b) = edge_key a"
  by (simp add: fold_edge_def edge_key_def Let_def)

lemma eFrom_fold [simp]: "eFrom (fold_edge a b) = eFrom a" and eTo_fold [simp]: "eTo (fold_edge a b) = eTo a"
  by (simp_all add: fold_edge_def Let_def)

lemma fold_edge_absorb: "fold_edge old (fold_edge old new) = fold_edge old new"
  by (simp add: fold_edge_def Let_def)

lemma fold_edge_valid:
  "validateEdge old = Inr old \<Longrightarrow> validateEdge new = Inr new \<Longrightarrow> validateEdge (fold_edge old new) = Inr (fold_edge old new)"
  unfolding validateEdge_fixed by (simp add: fold_edge_def ends_ok_def Let_def)

section \<open>The outcomes of a flush\<close>

lemma flush_cases:
  obtains (idle) "flush len c io g = (None, g)" "g_pending g = []" "\<not> g_closed g"
  | (failed) e where "flush len c io g = (Some e, g)"
  | (short) e k m ls where "io = IoShort k m" "encode_all len (g_pending g) = Inr ls"
      "flush len c io g = (Some e, g\<lparr>g_file := append_lines len (take k ls) m (g_file g)\<rparr>)"
  | (written) ls where "g_pending g \<noteq> []" "encode_all len (g_pending g) = Inr ls"
      "flush len c io g = (None, g\<lparr>g_file := append_lines len ls 0 (g_file g),
         g_logRecords := g_logRecords g + int (length (g_pending g)), g_pending := []\<rparr>)"
proof (cases "g_closed g \<or> g_pending g \<noteq> [] \<and> (c \<or> io = IoRefused)")
  case True
  then have "flush len c io g = (Some (if g_closed g then ErrClosed else if c then ErrContext else ErrIO), g)" by (auto simp: flush_def)
  then show thesis by (rule failed)
next
  case go: False
  show thesis
  proof (cases "g_pending g = []")
    case True
    with go have "flush len c io g = (None, g)" "\<not> g_closed g" by (simp_all add: flush_def)
    then show thesis using True idle by blast
  next
    case False
    show thesis
    proof (cases "encode_all len (g_pending g)")
      case (Inl e)
      then show thesis using go False by (intro failed [of e]) (simp add: flush_def)
    next
      case (Inr ls)
      then show thesis using go False
        by (cases io) (auto intro: written [of ls] short [of _ _ ls] simp: flush_def)
    qed
  qed
qed

end
