(* ===== verification/DagOps.thy ===== *)
theory DagOps
  imports DagLog
begin

text \<open>
  The operations of the dependence graph that queue records, and compaction: \<^verbatim>\<open>AddNode\<close>, \<^verbatim>\<open>AddEdge\<close>,
  \<^verbatim>\<open>Tombstone\<close> of \<^verbatim>\<open>internal/dag/graph.go\<close> and \<^verbatim>\<open>internal/dag/compact.go\<close>.  Each takes the outcome \<open>io\<close> of
  the flush it may start and the time \<open>now\<close> it may read.
\<close>

section \<open>Mutation\<close>

definition queue :: "(line \<Rightarrow> nat) \<Rightarrow> io \<Rightarrow> rec \<Rightarrow> graph \<Rightarrow> graph" where
  "queue len io r g = maybeAutoFlush len io (g\<lparr>g_pending := g_pending g @ [r]\<rparr>)"

definition AddNode :: "(line \<Rightarrow> nat) \<Rightarrow> io \<Rightarrow> Node \<Rightarrow> graph \<Rightarrow> dag_error option \<times> graph" where
  "AddNode len io n g =
     (case validateNode n of
        Some e \<Rightarrow> (Some e, g)
      | None \<Rightarrow>
          if g_closed g then (Some ErrClosed, g)
          else let merged = merged_with g n
               in (None, queue len io (RecNode merged) (put_node (nID n) merged g)))"

definition AddEdge :: "(line \<Rightarrow> nat) \<Rightarrow> io \<Rightarrow> Edge \<Rightarrow> graph \<Rightarrow> dag_error option \<times> graph" where
  "AddEdge len io e g =
     (case validateEdge e of
        Inl err \<Rightarrow> (Some err, g)
      | Inr norm \<Rightarrow>
          if g_closed g then (Some ErrClosed, g)
          else case map_of (g_edgeIdx g) (edge_key norm) of
                 Some i \<Rightarrow>
                   (let old = g_edges g ! i; new = fold_edge old norm;
                        changed = (f32_key (eWeight norm) > f32_key (eWeight old) \<or> eTurn norm < eTurn old)
                    in if changed then (None, queue len io (RecEdge new) (g\<lparr>g_edges := (g_edges g)[i := new]\<rparr>))
                       else (None, g))
               | None \<Rightarrow> (None, queue len io (RecEdge norm) (append_edge norm g)))"

text \<open>The loop over the identifiers; it stops at an empty one with what it has marked so far.\<close>

fun tombstone_loop :: "int \<Rightarrow> NodeID list \<Rightarrow> graph \<Rightarrow> dag_error option \<times> graph" where
  "tombstone_loop now [] g = (None, g)"
| "tombstone_loop now (i # is) g =
     (if i = [] then (Some ErrInvalidNode, g)
      else tombstone_loop now is (g\<lparr>g_dead := mput i True (g_dead g), g_pending := g_pending g @ [RecTomb i now]\<rparr>))"

definition Tombstone :: "(line \<Rightarrow> nat) \<Rightarrow> io \<Rightarrow> int \<Rightarrow> NodeID list \<Rightarrow> graph \<Rightarrow> dag_error option \<times> graph" where
  "Tombstone len io now is g =
     (if g_closed g then (Some ErrClosed, g)
      else case tombstone_loop now is g of
             (Some e, g) \<Rightarrow> (Some e, g)
           | (None, g) \<Rightarrow> (None, if is \<noteq> [] then maybeAutoFlush len io (g\<lparr>g_idxDirty := True\<rparr>) else g))"

section \<open>Compaction\<close>

text \<open>The lines of one generation: the header, the nodes, the edges.\<close>

definition materialize :: "(line \<Rightarrow> nat) \<Rightarrow> int \<Rightarrow> int \<Rightarrow> Node list \<Rightarrow> Edge list \<Rightarrow> (dag_error, line list) result" where
  "materialize len gen ts nodes edges =
     (case encode_all len (map RecNode nodes @ map RecEdge edges) of
        Inl e \<Rightarrow> Inl e
      | Inr ls \<Rightarrow> Inr (encodeGeneration gen ts (length nodes) (length edges) # ls))"

text \<open>The adjacency of an edge list, built from the first edge on.\<close>

definition adopt_edges :: "Edge list \<Rightarrow> graph \<Rightarrow> graph" where
  "adopt_edges es g =
     foldl (\<lambda>g (i, e). g\<lparr>g_out := mput (eFrom e) (mget [] (g_out g) (eFrom e) @ [i]) (g_out g),
                         g_in := mput (eTo e) (mget [] (g_in g) (eTo e) @ [i]) (g_in g),
                         g_edgeIdx := mput (edge_key e) i (g_edgeIdx g)\<rparr>)
       (g\<lparr>g_edges := es, g_out := [], g_in := [], g_edgeIdx := []\<rparr>) (enumerate 0 es)"

definition adoptGeneration :: "Node list \<Rightarrow> Edge list \<Rightarrow> int \<Rightarrow> graph \<Rightarrow> graph" where
  "adoptGeneration nodes es now g =
     (adopt_edges es (g\<lparr>g_nodes := foldl (\<lambda>m n. mput (nID n) n m) [] nodes, g_dead := []\<rparr>))
       \<lparr>g_idxDirty := True, g_gen := g_gen g + 1, g_logRecords := 1 + int (length nodes) + int (length es),
        g_lastCompaction := now\<rparr>"

definition verifyAdjacency :: "graph \<Rightarrow> dag_error option \<times> graph" where
  "verifyAdjacency g =
     (let outDegree = sum_list (map (\<lambda>p. length (snd p)) (g_out g));
          inDegree = sum_list (map (\<lambda>p. length (snd p)) (g_in g))
      in if outDegree = length (g_edges g) \<and> inDegree = length (g_edges g) then (None, g)
         else (Some ErrClosed, g\<lparr>g_closed := True\<rparr>))"

text \<open>\<open>fio\<close> is the outcome of the flush, \<open>wio\<close> whether the atomic rewrite succeeds, \<open>late\<close> whether the
  context is cancelled before it.\<close>

definition Compact :: "(line \<Rightarrow> nat) \<Rightarrow> bool \<Rightarrow> io \<Rightarrow> bool \<Rightarrow> bool \<Rightarrow> int \<Rightarrow> graph \<Rightarrow> dag_error option \<times> graph" where
  "Compact len cancelled fio late wio now g =
     (if g_closed g then (Some ErrClosed, g)
      else case (if g_pending g \<noteq> [] then flush len cancelled fio g else (None, g)) of
             (Some e, g) \<Rightarrow> (Some e, g)
           | (None, g) \<Rightarrow>
               if \<not> needsCompaction g then (None, g)
               else let g = withIndex g;
                        liveNodes = map (\<lambda>i. the (map_of (g_nodes g) i)) (g_posIdx g);
                        keptEdges = filter (\<lambda>e. live g (eFrom e) \<and> live g (eTo e)) (g_edges g)
                    in case materialize len (g_gen g + 1) now liveNodes keptEdges of
                         Inl e \<Rightarrow> (Some e, g)
                       | Inr ls \<Rightarrow>
                           if late then (Some ErrContext, g)
                           else if \<not> wio then (Some ErrIO, g)
                           else verifyAdjacency (adoptGeneration liveNodes keptEdges now
                                  (g\<lparr>g_file := \<lparr>f_lines = ls, f_frag = 0\<rparr>\<rparr>)))"

end
