(* ===== verification/DagInv.thy ===== *)
theory DagInv
  imports DagOps
begin

text \<open>
  The invariant of the dependence graph: canonical maps, stored nodes that validate under the
  identifier they are filed under, normalized edges, an edge index that knows exactly the edges,
  and adjacency lists that hold exactly the positions of the edges at each node, in ascending
  order.  Every primitive update of theories \<open>DagGraph\<close> and \<open>DagLog\<close> keeps it.
\<close>

section \<open>The parts of the invariant\<close>

definition nodes_ok :: "(NodeID, Node) gomap \<Rightarrow> bool" where
  "nodes_ok ns \<longleftrightarrow> map_ok ns \<and> (\<forall>i n. map_of ns i = Some n \<longrightarrow> nID n = i \<and> validateNode n = None)"

definition edges_ok :: "Edge list \<Rightarrow> (edgeKey, nat) gomap \<Rightarrow> bool" where
  "edges_ok es idx \<longleftrightarrow> map_ok idx \<and> (\<forall>e \<in> set es. validateEdge e = Inr e)
     \<and> (\<forall>k i. map_of idx k = Some i \<longleftrightarrow> i < length es \<and> edge_key (es ! i) = k)"

definition at_end :: "(Edge \<Rightarrow> NodeID) \<Rightarrow> Edge list \<Rightarrow> NodeID \<Rightarrow> nat list" where
  "at_end end es i = filter (\<lambda>j. end (es ! j) = i) [0..<length es]"

definition adjacency_ok :: "(Edge \<Rightarrow> NodeID) \<Rightarrow> Edge list \<Rightarrow> (NodeID, nat list) gomap \<Rightarrow> bool" where
  "adjacency_ok end es m \<longleftrightarrow> map_ok m \<and> (\<forall>i. mget [] m i = at_end end es i)"

definition dead_ok :: "(NodeID, bool) gomap \<Rightarrow> bool" where
  "dead_ok d \<longleftrightarrow> map_ok d \<and> (\<forall>i b. map_of d i = Some b \<longrightarrow> b)"

definition listing_ok :: "graph \<Rightarrow> bool" where
  "listing_ok g \<longleftrightarrow> g_idxDirty g \<or> distinct (g_posIdx g) \<and> (\<forall>i \<in> set (g_posIdx g). map_of (g_nodes g) i \<noteq> None)"

definition dag_ok :: "graph \<Rightarrow> bool" where
  "dag_ok g \<longleftrightarrow> nodes_ok (g_nodes g) \<and> edges_ok (g_edges g) (g_edgeIdx g) \<and> adjacency_ok eFrom (g_edges g) (g_out g)
     \<and> adjacency_ok eTo (g_edges g) (g_in g) \<and> dead_ok (g_dead g) \<and> listing_ok g"

section \<open>Primitive updates\<close>

lemma nodes_ok_mput:
  assumes "nodes_ok ns" "nID n = i" "validateNode n = None"
  shows "nodes_ok (mput i n ns)"
  using assms by (auto simp: nodes_ok_def split: if_splits)

lemma dead_ok_updates [simp]: "dead_ok d \<Longrightarrow> dead_ok (mput i True d)" "dead_ok d \<Longrightarrow> dead_ok (mdel i d)"
  by (auto simp: dead_ok_def map_of_mdel split: if_splits)

lemma merged_with_ok:
  assumes "nodes_ok (g_nodes g)" "validateNode n = None"
  shows "nID (merged_with g n) = nID n" "validateNode (merged_with g n) = None"
  using assms mergeNode_valid by (auto simp: merged_with_def nodes_ok_def split: option.split)

lemma at_end_append: "at_end end (es @ [e]) i = at_end end es i @ (if end e = i then [length es] else [])"
proof -
  have "filter (\<lambda>j. end ((es @ [e]) ! j) = i) [0..<length es] = filter (\<lambda>j. end (es ! j) = i) [0..<length es]"
    by (rule filter_cong) (auto simp: nth_append)
  then show ?thesis by (simp add: at_end_def)
qed

lemma adjacency_ok_append:
  assumes "adjacency_ok end es m" "end e = k"
  shows "adjacency_ok end (es @ [e]) (mput k (mget [] m k @ [length es]) m)"
  using assms by (simp add: adjacency_ok_def at_end_append)

lemma adjacency_ok_update:
  assumes "adjacency_ok end es m" "end e = end (es ! j)"
  shows "adjacency_ok end (es[j := e]) m"
proof -
  have "at_end end (es[j := e]) i = at_end end es i" for i
    unfolding at_end_def length_list_update
  proof (rule filter_cong [OF refl])
    fix x assume "x \<in> set [0..<length es]"
    then show "(end (es[j := e] ! x) = i) = (end (es ! x) = i)" using assms(2) by (cases "x = j") auto
  qed
  then show ?thesis using assms(1) by (simp add: adjacency_ok_def)
qed

lemma edges_ok_append:
  assumes "edges_ok es idx" "validateEdge e = Inr e" "map_of idx (edge_key e) = None"
  shows "edges_ok (es @ [e]) (mput (edge_key e) (length es) idx)"
proof -
  have new: "\<not> (i < length es \<and> edge_key (es ! i) = edge_key e)" for i
    using assms(1,3) unfolding edges_ok_def by (metis option.distinct(1))
  then show ?thesis using assms by (auto simp: edges_ok_def nth_append less_Suc_eq split: if_splits)
qed

lemma edges_ok_update:
  assumes "edges_ok es idx" "j < length es" "edge_key e = edge_key (es ! j)" "validateEdge e = Inr e"
  shows "edges_ok (es[j := e]) idx"
proof -
  have "\<forall>e' \<in> set (es[j := e]). validateEdge e' = Inr e'"
    using assms(1,4) set_update_subset_insert [of es j e] by (auto simp: edges_ok_def)
  then show ?thesis using assms by (auto simp: edges_ok_def nth_list_update)
qed

lemma edges_ok_find:
  assumes "edges_ok es idx" "map_of idx k = Some j"
  shows "j < length es" "edge_key (es ! j) = k" "validateEdge (es ! j) = Inr (es ! j)"
proof -
  have "j < length es \<and> edge_key (es ! j) = k" using assms unfolding edges_ok_def by blast
  then show "j < length es" "edge_key (es ! j) = k" "validateEdge (es ! j) = Inr (es ! j)"
    using assms(1) by (simp_all add: edges_ok_def)
qed

lemma put_node_ok:
  assumes "dag_ok g" "validateNode n = None"
  shows "dag_ok (put_node (nID n) (merged_with g n) g)"
  using assms merged_with_ok [of g n] by (simp add: dag_ok_def put_node_def nodes_ok_mput listing_ok_def)

lemma append_edge_ok:
  assumes "dag_ok g" "validateEdge e = Inr e" "map_of (g_edgeIdx g) (edge_key e) = None"
  shows "dag_ok (append_edge e g)"
  using assms by (simp add: dag_ok_def append_edge_def Let_def edges_ok_append adjacency_ok_append listing_ok_def)

lemma update_edge_ok:
  assumes "dag_ok g" "validateEdge e = Inr e" "map_of (g_edgeIdx g) (edge_key e) = Some j"
  shows "dag_ok (g\<lparr>g_edges := (g_edges g)[j := fold_edge (g_edges g ! j) e]\<rparr>)"
proof -
  have e: "edges_ok (g_edges g) (g_edgeIdx g)" using assms(1) by (simp add: dag_ok_def)
  note j = edges_ok_find [OF this assms(3)]
  show ?thesis using assms(1) j fold_edge_valid [OF j(3) assms(2)]
    by (simp add: dag_ok_def adjacency_ok_update edges_ok_update listing_ok_def)
qed

lemma tomb_ok: "dag_ok g \<Longrightarrow> dag_ok (g\<lparr>g_dead := mput i True (g_dead g)\<rparr>)"
  by (simp add: dag_ok_def listing_ok_def)

lemma dirty_ok: "dag_ok g \<Longrightarrow> dag_ok (g\<lparr>g_idxDirty := True\<rparr>)"
  by (simp add: dag_ok_def listing_ok_def)

lemma dag_ok_frame [simp]:
  "dag_ok (g\<lparr>g_pending := p\<rparr>) = dag_ok g" "dag_ok (g\<lparr>g_file := f\<rparr>) = dag_ok g" "dag_ok (g\<lparr>g_gen := k\<rparr>) = dag_ok g"
  "dag_ok (g\<lparr>g_logRecords := k\<rparr>) = dag_ok g" "dag_ok (g\<lparr>g_loadErrors := k\<rparr>) = dag_ok g"
  "dag_ok (g\<lparr>g_truncatedTail := b\<rparr>) = dag_ok g" "dag_ok (g\<lparr>g_lastCompaction := k\<rparr>) = dag_ok g"
  by (simp_all add: dag_ok_def listing_ok_def)

lemma rebuildIndex_dag_ok:
  assumes "dag_ok g"
  shows "dag_ok (rebuildIndex g)"
proof -
  have "map_ok (g_nodes g)" using assms by (simp add: dag_ok_def nodes_ok_def)
  then have "distinct (map fst (g_nodes g))" by (rule map_ok_distinct)
  then have "listing_ok (rebuildIndex g)"
    by (auto simp: listing_ok_def rebuildIndex_def Let_def map_of_eq_None_iff)
  then show ?thesis using assms by (simp add: dag_ok_def)
qed

lemma withIndex_dag_ok: "dag_ok g \<Longrightarrow> dag_ok (withIndex g)"
  by (simp add: withIndex_def rebuildIndex_dag_ok)

lemma newGraph_ok: "dag_ok (newGraph f)"
  by (simp add: dag_ok_def newGraph_def nodes_ok_def edges_ok_def adjacency_ok_def dead_ok_def listing_ok_def at_end_def mget_def)

section \<open>Applying records and loading\<close>

lemma applyRecord_ok:
  assumes "dag_ok g" "applyRecord r g = Inr g'"
  shows "dag_ok g'"
proof (cases r)
  case (RecNode n)
  then show ?thesis using assms put_node_ok [OF assms(1)] by (auto split: option.splits)
next
  case (RecEdge e)
  then obtain norm where n: "validateEdge e = Inr norm" using assms(2) by (auto split: sum.splits)
  note v = validateEdge_idem [OF n]
  show ?thesis
  proof (cases "map_of (g_edgeIdx g) (edge_key norm)")
    case None
    then show ?thesis using RecEdge n assms append_edge_ok [OF assms(1) v None] by simp
  next
    case (Some j)
    then show ?thesis using RecEdge n assms dirty_ok [OF update_edge_ok [OF assms(1) v Some]] by auto
  qed
next
  case (RecTomb i ts)
  then show ?thesis using assms dirty_ok [OF tomb_ok [OF assms(1), of i]] by (auto split: if_splits)
next
  case (RecGen k ts)
  then show ?thesis using assms dirty_ok [OF assms(1)] by (auto simp: dag_ok_def listing_ok_def)
qed

lemma load_line_ok: "dag_ok g \<Longrightarrow> dag_ok (load_line g l)"
  by (auto simp: load_line_def Let_def split: sum.splits option.splits elim: applyRecord_ok [rotated])

lemma load_lines_ok: "dag_ok g \<Longrightarrow> dag_ok (snd (load_lines len ls g))"
  by (induction ls arbitrary: g) (auto simp: load_line_ok)

lemma Open_ok: "dag_ok (Open len f)"
  using load_lines_ok [OF newGraph_ok, of len "f_lines f" f] by (auto simp: Open_def split: prod.split)

lemma flush_ok: "dag_ok g \<Longrightarrow> dag_ok (snd (flush len c io g))"
  by (simp add: flush_def split: sum.split io.split)

lemma queue_ok: "dag_ok g \<Longrightarrow> dag_ok (queue len io r g)"
  by (simp add: queue_def maybeAutoFlush_def flush_ok)

section \<open>Adopting a generation\<close>

lemma append_edge_fields [simp]:
  "g_nodes (append_edge e g) = g_nodes g" "g_edges (append_edge e g) = g_edges g @ [e]" "g_dead (append_edge e g) = g_dead g"
  "g_gen (append_edge e g) = g_gen g" "g_closed (append_edge e g) = g_closed g" "g_pending (append_edge e g) = g_pending g"
  "g_file (append_edge e g) = g_file g" "g_edgeIdx (append_edge e g) = mput (edge_key e) (length (g_edges g)) (g_edgeIdx g)"
  by (simp_all add: append_edge_def Let_def)

definition append_edges :: "Edge list \<Rightarrow> graph \<Rightarrow> graph" where
  "append_edges es g = foldl (\<lambda>g e. append_edge e g) g es"

lemma append_edges_simps [simp]:
  "append_edges [] g = g" "append_edges (e # es) g = append_edges es (append_edge e g)"
  "append_edges (es @ [e]) g = append_edge e (append_edges es g)"
  by (simp_all add: append_edges_def)

lemma append_edges_fields [simp]:
  "g_nodes (append_edges es g) = g_nodes g" "g_edges (append_edges es g) = g_edges g @ es" "g_dead (append_edges es g) = g_dead g"
  "g_gen (append_edges es g) = g_gen g" "g_closed (append_edges es g) = g_closed g" "g_pending (append_edges es g) = g_pending g"
  "g_file (append_edges es g) = g_file g"
  by (induction es arbitrary: g) simp_all

abbreviation no_edges :: "graph \<Rightarrow> graph" where
  "no_edges g \<equiv> g\<lparr>g_edges := [], g_out := [], g_in := [], g_edgeIdx := []\<rparr>"

definition adopt_step :: "graph \<Rightarrow> nat \<times> Edge \<Rightarrow> graph" where
  "adopt_step g p = (case p of (i, e) \<Rightarrow> g\<lparr>g_out := mput (eFrom e) (mget [] (g_out g) (eFrom e) @ [i]) (g_out g),
     g_in := mput (eTo e) (mget [] (g_in g) (eTo e) @ [i]) (g_in g), g_edgeIdx := mput (edge_key e) i (g_edgeIdx g)\<rparr>)"

lemma adopt_steps_edges: "foldl adopt_step (g\<lparr>g_edges := x\<rparr>) ps = (foldl adopt_step g ps)\<lparr>g_edges := x\<rparr>"
proof (induction ps arbitrary: g)
  case (Cons p ps)
  have "adopt_step (g\<lparr>g_edges := x\<rparr>) p = (adopt_step g p)\<lparr>g_edges := x\<rparr>" by (cases p) (simp add: adopt_step_def)
  then show ?case using Cons by simp
qed simp

lemma adopt_edges_alt: "adopt_edges es g = (foldl adopt_step (no_edges g) (enumerate 0 es))\<lparr>g_edges := es\<rparr>"
proof -
  have "adopt_edges es g = foldl adopt_step ((no_edges g)\<lparr>g_edges := es\<rparr>) (enumerate 0 es)"
  proof -
    have "(no_edges g)\<lparr>g_edges := es\<rparr> = g\<lparr>g_edges := es, g_out := [], g_in := [], g_edgeIdx := []\<rparr>" by (cases g) simp
    moreover have "adopt_edges es g = foldl adopt_step (g\<lparr>g_edges := es, g_out := [], g_in := [], g_edgeIdx := []\<rparr>) (enumerate 0 es)"
      unfolding adopt_edges_def adopt_step_def [abs_def] by (simp add: split_def)
    ultimately show ?thesis by (simp only:)
  qed
  then show ?thesis by (simp only: adopt_steps_edges)
qed

lemma adopt_edges_append: "adopt_edges es g = (append_edges es (no_edges g))\<lparr>g_idxDirty := g_idxDirty g\<rparr>"
proof (induction es rule: rev_induct)
  case Nil
  then show ?case by (simp add: adopt_edges_alt)
next
  case (snoc e es)
  have "adopt_edges (es @ [e]) g = (adopt_step (adopt_edges es g) (length es, e))\<lparr>g_edges := es @ [e]\<rparr>"
    by (simp add: adopt_edges_alt enumerate_append_eq adopt_step_def)
  then show ?case unfolding snoc by (simp add: adopt_step_def append_edge_def Let_def)
qed

text \<open>Distinct keys, so that appending never finds an edge already present.\<close>

lemma edges_ok_distinct:
  assumes "edges_ok es idx"
  shows "distinct (map edge_key es)"
proof -
  have "i = j" if "i < length es" "j < length es" "edge_key (es ! i) = edge_key (es ! j)" for i j
  proof -
    have "map_of idx (edge_key (es ! j)) = Some i" "map_of idx (edge_key (es ! j)) = Some j"
      using assms that unfolding edges_ok_def by blast+
    then show ?thesis by simp
  qed
  then show ?thesis by (auto simp: distinct_conv_nth)
qed

lemma edges_ok_fresh: "edges_ok es idx \<Longrightarrow> k \<notin> edge_key ` set es \<Longrightarrow> map_of idx k = None"
proof (rule ccontr)
  assume ok: "edges_ok es idx" and new: "k \<notin> edge_key ` set es" and "map_of idx k \<noteq> None"
  then obtain j where "map_of idx k = Some j" by auto
  note j = edges_ok_find [OF ok this]
  then have "k \<in> edge_key ` set es" using nth_mem [of j es] by (metis image_eqI)
  with new show False by simp
qed

lemma append_edges_ok:
  assumes "dag_ok g" "distinct (map edge_key (g_edges g @ es))" "\<forall>e \<in> set es. validateEdge e = Inr e"
  shows "dag_ok (append_edges es g)"
  using assms
proof (induction es rule: rev_induct)
  case (snoc e es)
  have ok: "dag_ok (append_edges es g)" using snoc by simp
  then have "edges_ok (g_edges (append_edges es g)) (g_edgeIdx (append_edges es g))" by (simp add: dag_ok_def)
  then have "map_of (g_edgeIdx (append_edges es g)) (edge_key e) = None"
    by (rule edges_ok_fresh) (use snoc.prems(2) in auto)
  then show ?case using append_edge_ok [OF ok] snoc.prems(3) by simp
qed simp

lemma no_edges_ok: "dag_ok g \<Longrightarrow> dag_ok (no_edges g)"
  by (simp add: dag_ok_def edges_ok_def adjacency_ok_def at_end_def mget_def listing_ok_def)

text \<open>The nodes of a generation.\<close>

definition put_all :: "Node list \<Rightarrow> (NodeID, Node) gomap" where
  "put_all ns = foldl (\<lambda>m n. mput (nID n) n m) [] ns"

lemma put_all_snoc [simp]: "put_all [] = []" "put_all (ns @ [n]) = mput (nID n) n (put_all ns)"
  by (simp_all add: put_all_def)

lemma put_all_ok: "\<forall>n \<in> set ns. validateNode n = None \<Longrightarrow> nodes_ok (put_all ns)"
proof (induction ns rule: rev_induct)
  case Nil
  then show ?case by (simp add: nodes_ok_def)
qed (simp add: nodes_ok_mput)

lemma find_fresh: "nID n \<notin> nID ` set ns \<Longrightarrow> find (\<lambda>m. nID m = nID n) ns = None"
  unfolding find_None_iff by (metis image_eqI)

lemma map_of_put_all:
  assumes "distinct (map nID ns)"
  shows "map_ok (put_all ns) \<and> map_of (put_all ns) i = find (\<lambda>n. nID n = i) ns"
  using assms
proof (induction ns rule: rev_induct)
  case (snoc n ns)
  have "find (\<lambda>m. nID m = nID n) ns = None" using snoc.prems by (intro find_fresh) auto
  moreover have "find P (xs @ ys) = (case find P xs of None \<Rightarrow> find P ys | Some x \<Rightarrow> Some x)" for P and xs ys :: "Node list"
    by (induction xs) simp_all
  ultimately show ?case using snoc by (auto split: option.split)
qed simp

lemma adoptGeneration_alt:
  "adoptGeneration ns es now g =
     (append_edges es (no_edges (g\<lparr>g_nodes := put_all ns, g_dead := []\<rparr>)))\<lparr>g_idxDirty := True, g_gen := g_gen g + 1,
        g_logRecords := 1 + int (length ns) + int (length es), g_lastCompaction := now\<rparr>"
  by (simp add: adoptGeneration_def adopt_edges_append put_all_def)

lemma append_edges_dirty: "(append_edges es g)\<lparr>g_idxDirty := True\<rparr> = (append_edges es (g\<lparr>g_idxDirty := b\<rparr>))\<lparr>g_idxDirty := True\<rparr>"
proof (induction es rule: rev_induct)
  case (snoc e es)
  have a: "(append_edge e h)\<lparr>g_idxDirty := True\<rparr> = append_edge e (h\<lparr>g_idxDirty := True\<rparr>)" for h
    by (simp add: append_edge_def Let_def)
  show ?case using snoc by (simp add: a)
qed simp

lemma adoptGeneration_ok:
  assumes "\<forall>n \<in> set ns. validateNode n = None" "distinct (map edge_key es)" "\<forall>e \<in> set es. validateEdge e = Inr e"
  shows "dag_ok (adoptGeneration ns es now g)"
proof -
  let ?g = "(no_edges (g\<lparr>g_nodes := put_all ns, g_dead := []\<rparr>))\<lparr>g_idxDirty := True\<rparr>"
  have "dag_ok ?g" using put_all_ok [OF assms(1)]
    by (simp add: dag_ok_def edges_ok_def adjacency_ok_def at_end_def mget_def listing_ok_def dead_ok_def)
  then have "dag_ok (append_edges es ?g)" using assms by (intro append_edges_ok) simp_all
  then have "dag_ok ((append_edges es ?g)\<lparr>g_idxDirty := True\<rparr>)" by (rule dirty_ok)
  then have "dag_ok ((append_edges es (no_edges (g\<lparr>g_nodes := put_all ns, g_dead := []\<rparr>)))\<lparr>g_idxDirty := True\<rparr>)"
    unfolding append_edges_dirty [where b = True, symmetric] .
  then show ?thesis unfolding adoptGeneration_alt by (simp add: dag_ok_def listing_ok_def)
qed

section \<open>The adjacency check\<close>

lemma at_end_total:
  assumes "finite S" "end ` set es \<subseteq> S"
  shows "(\<Sum>i \<in> S. length (at_end end es i)) = length es"
  using assms(2)
proof (induction es rule: rev_induct)
  case Nil
  then show ?case by (simp add: at_end_def)
next
  case (snoc e es)
  have "(\<Sum>i \<in> S. length (at_end end (es @ [e]) i)) = (\<Sum>i \<in> S. length (at_end end es i)) + (\<Sum>i \<in> S. if end e = i then 1 else 0)"
    unfolding at_end_append sum.distrib [symmetric] by (rule sum.cong) simp_all
  then show ?case using snoc assms(1) by simp
qed

lemma adjacency_total:
  assumes "adjacency_ok end es m"
  shows "sum_list (map (\<lambda>p. length (snd p)) m) = length es"
proof -
  have m: "map_ok m" and g: "\<And>i. mget [] m i = at_end end es i" using assms by (simp_all add: adjacency_ok_def)
  have d: "distinct (map fst m)" using m by (rule map_ok_distinct)
  have sub: "end ` set es \<subseteq> fst ` set m"
  proof
    fix i assume "i \<in> end ` set es"
    then have "at_end end es i \<noteq> []" by (force simp: at_end_def filter_empty_conv in_set_conv_nth)
    then show "i \<in> fst ` set m" using g [of i] by (auto simp: mget_def split: option.splits dest: map_of_SomeD intro: rev_image_eqI)
  qed
  have "map (\<lambda>p. length (snd p)) m = map (\<lambda>i. length (at_end end es i)) (map fst m)"
    using d by (auto simp: g [symmetric] mget_def)
  then have "sum_list (map (\<lambda>p. length (snd p)) m) = (\<Sum>i \<in> set (map fst m). length (at_end end es i))"
    using sum_list_distinct_conv_sum_set [OF d, of "\<lambda>i. length (at_end end es i)"] by (simp only:)
  then show ?thesis using at_end_total [of "set (map fst m)" "end" es] sub by simp
qed

lemma verifyAdjacency_ok: "dag_ok g \<Longrightarrow> verifyAdjacency g = (None, g)"
  by (auto simp: verifyAdjacency_def dag_ok_def dest!: adjacency_total)

end
