(* ===== verification/DagRun.thy ===== *)
theory DagRun
  imports DagInv
begin

text \<open>
  Histories of the dependence graph: any sequence of its operations, from the loading of a log,
  with any behaviour of the file system.  The invariant holds throughout, the graph never closes
  itself, the queries agree with their specifications, and the log replays to the graph.
\<close>

section \<open>Operations\<close>

datatype op =
  OpAddNode io Node
| OpAddEdge io Edge
| OpTombstone io int "NodeID list"
| OpCrossingEdges int
| OpNodesAfter int
| OpFlush bool io
| OpCompact bool io bool bool int
| OpRestart

fun step :: "(line \<Rightarrow> nat) \<Rightarrow> op \<Rightarrow> graph \<Rightarrow> graph" where
  "step len (OpAddNode io n) g = snd (AddNode len io n g)"
| "step len (OpAddEdge io e) g = snd (AddEdge len io e g)"
| "step len (OpTombstone io now is) g = snd (Tombstone len io now is g)"
| "step len (OpCrossingEdges pos) g = snd (CrossingEdges g pos)"
| "step len (OpNodesAfter pos) g = snd (NodesAfter g pos)"
| "step len (OpFlush c io) g = snd (flush len c io g)"
| "step len (OpCompact c io late wio now) g = snd (Compact len c io late wio now g)"
| "step len OpRestart g = Open len (g_file g)"

inductive reaches :: "(line \<Rightarrow> nat) \<Rightarrow> (op \<Rightarrow> bool) \<Rightarrow> graph \<Rightarrow> graph \<Rightarrow> bool" for len P g0 where
  start: "reaches len P g0 g0"
| step: "reaches len P g0 g \<Longrightarrow> P a \<Longrightarrow> reaches len P g0 (step len a g)"

lemma reaches_run: "\<forall>a \<in> set as. P a \<Longrightarrow> reaches len P g0 g \<Longrightarrow> reaches len P g0 (foldl (\<lambda>g a. step len a g) g as)"
  by (induction as arbitrary: g) (auto intro: reaches.step)

section \<open>The invariant along a history\<close>

lemma tombstone_loop_ok: "dag_ok g \<Longrightarrow> dag_ok (snd (tombstone_loop now is g))"
proof (induction "is" arbitrary: g)
  case (Cons i "is")
  let ?g = "g\<lparr>g_dead := mput i True (g_dead g), g_pending := g_pending g @ [RecTomb i now]\<rparr>"
  have "dag_ok (g\<lparr>g_dead := mput i True (g_dead g)\<rparr>)" using Cons.prems by (rule tomb_ok)
  then have "dag_ok ?g" by (simp add: dag_ok_def listing_ok_def)
  then show ?case using Cons by simp
qed simp

lemma AddNode_ok: "dag_ok g \<Longrightarrow> dag_ok (snd (AddNode len io n g))"
  by (simp add: AddNode_def Let_def queue_ok put_node_ok split: option.split)

lemma AddEdge_ok:
  assumes "dag_ok g"
  shows "dag_ok (snd (AddEdge len io e g))"
proof (cases "validateEdge e")
  case (Inr norm)
  note v = validateEdge_idem [OF Inr]
  show ?thesis
  proof (cases "map_of (g_edgeIdx g) (edge_key norm)")
    case None
    then show ?thesis using Inr append_edge_ok [OF assms v None] assms by (simp add: AddEdge_def queue_ok)
  next
    case (Some j)
    then show ?thesis using Inr update_edge_ok [OF assms v Some] assms by (simp add: AddEdge_def Let_def queue_ok)
  qed
qed (simp add: AddEdge_def assms)

lemma Tombstone_ok: "dag_ok g \<Longrightarrow> dag_ok (snd (Tombstone len io now is g))"
  using tombstone_loop_ok [of g now "is"]
  by (auto simp: Tombstone_def maybeAutoFlush_def dirty_ok flush_ok split: prod.split option.split)

lemma live_edges_ok:
  assumes "dag_ok g"
  shows "distinct (map edge_key (filter P (g_edges g)))" "\<forall>e \<in> set (filter P (g_edges g)). validateEdge e = Inr e"
proof -
  have e: "edges_ok (g_edges g) (g_edgeIdx g)" using assms by (simp add: dag_ok_def)
  from edges_ok_distinct [OF e] show "distinct (map edge_key (filter P (g_edges g)))" by (rule distinct_map_filter)
  from e show "\<forall>e \<in> set (filter P (g_edges g)). validateEdge e = Inr e" by (simp add: edges_ok_def)
qed

lemma listed_nodes_ok:
  assumes "dag_ok g" "\<not> g_idxDirty g"
  shows "\<forall>n \<in> set (map (\<lambda>i. node_at g i) (g_posIdx g)). validateNode n = None"
    "map nID (map (\<lambda>i. node_at g i) (g_posIdx g)) = g_posIdx g" "distinct (g_posIdx g)"
  using assms unfolding dag_ok_def listing_ok_def nodes_ok_def by (auto intro!: map_idI)

text \<open>What compaction can do to the graph.\<close>

definition keptNodes :: "graph \<Rightarrow> Node list" where
  "keptNodes g = map (\<lambda>i. node_at g i) (g_posIdx g)"

definition keptEdges :: "graph \<Rightarrow> Edge list" where
  "keptEdges g = filter (\<lambda>e. live g (eFrom e) \<and> live g (eTo e)) (g_edges g)"

lemma withIndex_clean [simp]: "\<not> g_idxDirty (withIndex g)"
  by (simp add: withIndex_def)

lemma withIndex_fields [simp]:
  "g_nodes (withIndex g) = g_nodes g" "g_edges (withIndex g) = g_edges g" "g_dead (withIndex g) = g_dead g"
  "g_closed (withIndex g) = g_closed g" "g_out (withIndex g) = g_out g" "g_in (withIndex g) = g_in g"
  "g_edgeIdx (withIndex g) = g_edgeIdx g" "g_pending (withIndex g) = g_pending g" "g_gen (withIndex g) = g_gen g"
  "g_file (withIndex g) = g_file g" "g_logRecords (withIndex g) = g_logRecords g"
  by (simp_all add: withIndex_def)

lemma live_withIndex [simp]: "live (withIndex g) = live g"
  by (rule ext) (simp add: live_def)

lemma keptEdges_withIndex [simp]: "keptEdges (withIndex g) = keptEdges g"
  by (simp add: keptEdges_def)

definition rewritten :: "line list \<Rightarrow> int \<Rightarrow> graph \<Rightarrow> graph" where
  "rewritten ls now g = adoptGeneration (keptNodes g) (keptEdges g) now (g\<lparr>g_file := \<lparr>f_lines = ls, f_frag = 0\<rparr>\<rparr>)"

lemma rewritten_ok:
  assumes "dag_ok g" "\<not> g_idxDirty g"
  shows "dag_ok (rewritten ls now g)"
  unfolding rewritten_def keptNodes_def keptEdges_def
  using listed_nodes_ok(1) [OF assms] live_edges_ok [OF assms(1)] by (intro adoptGeneration_ok) auto

lemma Compact_cases:
  assumes "dag_ok g"
  obtains (closed) "g_closed g" "Compact len c io late wio now g = (Some ErrClosed, g)"
  | (flush_failed) e where "fst (flush len c io g) = Some e" "Compact len c io late wio now g = (Some e, snd (flush len c io g))"
  | (not_needed) "fst (flush len c io g) = None" "\<not> needsCompaction (snd (flush len c io g))"
      "Compact len c io late wio now g = (None, snd (flush len c io g))"
  | (failed) e where "fst (flush len c io g) = None" "Compact len c io late wio now g = (Some e, withIndex (snd (flush len c io g)))"
  | (compacted) ls where "fst (flush len c io g) = None"
      "materialize len (g_gen (snd (flush len c io g)) + 1) now (keptNodes (withIndex (snd (flush len c io g)))) (keptEdges (snd (flush len c io g))) = Inr ls"
      "Compact len c io late wio now g = (None, rewritten ls now (withIndex (snd (flush len c io g))))"
proof (cases "g_closed g")
  case True
  then show thesis by (intro closed) (simp_all add: Compact_def)
next
  case open_g: False
  let ?f = "flush len c io g"
  have fl: "(if g_pending g \<noteq> [] then ?f else (None, g)) = ?f" using open_g by (simp add: flush_def)
  obtain err gf where f: "?f = (err, gf)" by (cases ?f)
  show thesis
  proof (cases err)
    case (Some e)
    then show thesis using open_g f fl by (intro flush_failed [of e]) (simp_all add: Compact_def)
  next
    case None
    show thesis
    proof (cases "needsCompaction gf")
      case False
      then show thesis using None open_g f fl by (intro not_needed) (simp_all add: Compact_def)
    next
      case True
      let ?g = "withIndex gf"
      have "dag_ok gf" using flush_ok [OF assms, of len c io] f by simp
      then have ok: "dag_ok (rewritten ls now ?g)" for ls by (intro rewritten_ok withIndex_dag_ok) simp_all
      have C: "Compact len c io late wio now g =
          (case materialize len (g_gen gf + 1) now (keptNodes ?g) (keptEdges gf) of
             Inl e \<Rightarrow> (Some e, ?g)
           | Inr ls \<Rightarrow> if late then (Some ErrContext, ?g) else if \<not> wio then (Some ErrIO, ?g) else (None, rewritten ls now ?g))"
        using open_g f fl None True verifyAdjacency_ok [OF ok, unfolded rewritten_def]
        by (simp add: Compact_def Let_def keptNodes_def rewritten_def keptEdges_def split: sum.split)
      show thesis
      proof (cases "materialize len (g_gen gf + 1) now (keptNodes ?g) (keptEdges gf)")
        case (Inl e)
        then show thesis using C f None by (intro failed [of e]) simp_all
      next
        case (Inr ls)
        show thesis
        proof (cases "late \<or> \<not> wio")
          case True
          then show thesis using C Inr f None by (intro failed [of "if late then ErrContext else ErrIO"]) auto
        next
          case False
          then show thesis using C Inr f None by (intro compacted [of ls]) auto
        qed
      qed
    qed
  qed
qed

lemma Compact_ok:
  assumes "dag_ok g"
  shows "dag_ok (snd (Compact len c io late wio now g))"
proof -
  have f: "dag_ok (snd (flush len c io g))" using assms by (rule flush_ok)
  then have r: "dag_ok (rewritten ls now (withIndex (snd (flush len c io g))))" for ls
    by (intro rewritten_ok withIndex_dag_ok) simp_all
  show ?thesis using assms
    by (rule Compact_cases [of g len c io late wio now]) (use assms f r in \<open>simp_all add: withIndex_dag_ok\<close>)
qed

lemma step_ok: "dag_ok g \<Longrightarrow> dag_ok (step len a g)"
  by (cases a) (simp_all add: AddNode_ok AddEdge_ok Tombstone_ok CrossingEdges_def NodesAfter_def withIndex_dag_ok flush_ok Compact_ok Open_ok Let_def)

lemma flush_closed [simp]: "g_closed (snd (flush len c io g)) = g_closed g"
  by (simp add: flush_def split: sum.split io.split)

lemma put_node_fields [simp]:
  "g_nodes (put_node i m g) = mput i m (g_nodes g)" "g_edges (put_node i m g) = g_edges g" "g_dead (put_node i m g) = mdel i (g_dead g)"
  "g_gen (put_node i m g) = g_gen g" "g_closed (put_node i m g) = g_closed g" "g_pending (put_node i m g) = g_pending g"
  "g_file (put_node i m g) = g_file g" "g_edgeIdx (put_node i m g) = g_edgeIdx g" "g_out (put_node i m g) = g_out g"
  "g_in (put_node i m g) = g_in g" "g_idxDirty (put_node i m g)"
  by (simp_all add: put_node_def)

lemma maybeAutoFlush_closed [simp]: "g_closed (maybeAutoFlush len io g) = g_closed g"
  by (simp add: maybeAutoFlush_def)

lemma queue_closed [simp]: "g_closed (queue len io r g) = g_closed g"
  by (simp add: queue_def)

lemma tombstone_loop_closed: "g_closed (snd (tombstone_loop now is g)) = g_closed g"
  by (induction "is" arbitrary: g) simp_all

lemma rewritten_fields [simp]:
  "g_nodes (rewritten ls now g) = put_all (keptNodes g)" "g_edges (rewritten ls now g) = keptEdges g"
  "g_dead (rewritten ls now g) = []" "g_gen (rewritten ls now g) = g_gen g + 1" "g_closed (rewritten ls now g) = g_closed g"
  "g_pending (rewritten ls now g) = g_pending g" "g_file (rewritten ls now g) = \<lparr>f_lines = ls, f_frag = 0\<rparr>"
  "g_idxDirty (rewritten ls now g)"
  by (simp_all add: rewritten_def adoptGeneration_alt)

lemma load_line_closed: "g_closed (load_line g l) = g_closed g"
proof -
  have "applyRecord r h = Inr h' \<Longrightarrow> g_closed h' = g_closed h" for r h h'
    by (cases r) (auto split: option.splits sum.splits if_splits)
  then show ?thesis by (fastforce simp: load_line_def Let_def split: sum.splits option.splits)
qed

lemma Open_closed: "\<not> g_closed (Open len f)"
proof -
  have "g_closed (snd (load_lines len ls g)) = g_closed g" for ls g
    by (induction ls arbitrary: g) (simp_all add: load_line_closed)
  from this [of "f_lines f" "newGraph f"] show ?thesis
    by (auto simp: Open_def newGraph_def split: prod.split)
qed

lemma Compact_open: "dag_ok g \<Longrightarrow> g_closed (snd (Compact len c io late wio now g)) = g_closed g"
  by (rule Compact_cases [of g len c io late wio now]) simp_all

lemma Tombstone_closed: "g_closed (snd (Tombstone len io now is g)) = g_closed g"
  using tombstone_loop_closed [of now "is" g]
  by (cases "tombstone_loop now is g") (auto simp: Tombstone_def split: option.split)

lemma step_open: "dag_ok g \<Longrightarrow> \<not> g_closed g \<Longrightarrow> \<not> g_closed (step len a g)"
  by (cases a) (auto simp: AddNode_def AddEdge_def Tombstone_closed CrossingEdges_def NodesAfter_def Let_def Compact_open Open_closed
      split: option.split sum.split)

lemma reaches_ok: "reaches len P g0 g \<Longrightarrow> dag_ok g0 \<and> \<not> g_closed g0 \<Longrightarrow> dag_ok g \<and> \<not> g_closed g"
  by (induction rule: reaches.induct) (simp_all add: step_ok step_open)

end
