(* ===== verification/DagReplay.thy ===== *)
theory DagReplay
  imports DagRun
begin

text \<open>
  Durability of the dependence graph.  The records in the log followed by the records still queued
  are the history of the graph: replayed on an empty graph they give the live one.
\<close>

section \<open>Replay\<close>

text \<open>What a restart must preserve.\<close>

definition core :: "graph \<Rightarrow> (NodeID, Node) gomap \<times> Edge list \<times> (NodeID, nat list) gomap \<times> (NodeID, nat list) gomap
    \<times> (edgeKey, nat) gomap \<times> (NodeID, bool) gomap \<times> int" where
  "core g = (g_nodes g, g_edges g, g_out g, g_in g, g_edgeIdx g, g_dead g, g_gen g)"

definition apply1 :: "graph \<Rightarrow> rec \<Rightarrow> graph" where
  "apply1 g r = (case applyRecord r g of Inl _ \<Rightarrow> g | Inr g' \<Rightarrow> g')"

definition replay :: "rec list \<Rightarrow> graph \<Rightarrow> graph" where
  "replay rs g = foldl apply1 g rs"

lemma replay_simps [simp]: "replay [] g = g" "replay (r # rs) g = replay rs (apply1 g r)"
  "replay (rs @ ts) g = replay ts (replay rs g)"
  by (simp_all add: replay_def)

lemma apply1_core:
  assumes "core g = core h"
  shows "core (apply1 g r) = core (apply1 h r)"
proof -
  have eqs: "g_nodes g = g_nodes h" "g_edges g = g_edges h" "g_out g = g_out h" "g_in g = g_in h" "g_edgeIdx g = g_edgeIdx h"
    "g_dead g = g_dead h" "g_gen g = g_gen h" using assms by (simp_all add: core_def)
  then show ?thesis
    by (cases r) (simp_all add: core_def apply1_def put_node_def merged_with_def append_edge_def Let_def split: option.split sum.split)
qed

lemma replay_core: "core g = core h \<Longrightarrow> core (replay rs g) = core (replay rs h)"
proof (induction rs arbitrary: g h)
  case (Cons r rs)
  from Cons.IH [OF apply1_core [OF Cons.prems, of r]] show ?case by (simp only: replay_simps)
qed simp

lemma core_frame [simp]:
  "core (g\<lparr>g_pending := p\<rparr>) = core g" "core (g\<lparr>g_file := f\<rparr>) = core g" "core (g\<lparr>g_idxDirty := b\<rparr>) = core g"
  "core (g\<lparr>g_logRecords := k\<rparr>) = core g" "core (g\<lparr>g_loadErrors := k\<rparr>) = core g" "core (g\<lparr>g_truncatedTail := b\<rparr>) = core g"
  "core (g\<lparr>g_lastCompaction := k\<rparr>) = core g"
  by (simp_all add: core_def)

lemma core_newGraph: "core (newGraph f) = core (newGraph f')"
  by (simp add: core_def newGraph_def)

section \<open>Good records and lines\<close>

fun valid_rec :: "rec \<Rightarrow> bool" where
  "valid_rec (RecNode n) = (validateNode n = None \<and> node_utf8 n)"
| "valid_rec (RecEdge e) = (validateEdge e = Inr e \<and> edge_utf8 e)"
| "valid_rec (RecTomb i ts) = (i \<noteq> [] \<and> valid_utf8 i)"
| "valid_rec (RecGen k ts) = True"

definition line_rec :: "line \<Rightarrow> rec" where
  "line_rec l = (case decodeRecord l of Inr (Some r) \<Rightarrow> r | _ \<Rightarrow> RecGen 0 0)"

definition good_line :: "(line \<Rightarrow> nat) \<Rightarrow> line \<Rightarrow> bool" where
  "good_line len l \<longleftrightarrow> len l < maxLineBytes \<and> decodeRecord l = Inr (Some (line_rec l)) \<and> valid_rec (line_rec l)"

lemma valid_rec_apply: "valid_rec r \<Longrightarrow> applyRecord r g = Inr (apply1 g r)"
  by (cases r) (auto simp: apply1_def split: option.split)

lemma ParseNodeID_kind: "ParseNodeID i = Some (k, key) \<Longrightarrow> k < KindInvalid"
  by (auto simp: ParseNodeID_def Let_def dest: kindOfPrefix_range split: option.splits if_splits)

lemma valid_rec_decode: "valid_rec r \<Longrightarrow> decodeRecord (rec_line r) = Inr (Some r)"
proof (cases r)
  case (RecNode n)
  moreover assume "valid_rec r"
  ultimately show ?thesis using ParseNodeID_kind [of "nID n"] by (auto simp: validateNode_iff not_le)
next
  case (RecEdge e)
  moreover assume "valid_rec r"
  moreover have "k \<le> EdgeControlOnly \<Longrightarrow> \<not> EdgeInvalid \<le> k" for k :: byte by (simp add: word_le_nat_alt)
  ultimately show ?thesis by (auto simp: validateEdge_fixed ends_ok_def)
qed (simp_all add: json_str_id)

lemma good_rec_line: "valid_rec r \<Longrightarrow> len (rec_line r) < maxLineBytes \<Longrightarrow> good_line len (rec_line r) \<and> line_rec (rec_line r) = r"
  by (simp add: good_line_def line_rec_def valid_rec_decode)

lemma apply1_fields: "g_loadErrors (apply1 g r) = g_loadErrors g \<and> g_truncatedTail (apply1 g r) = g_truncatedTail g
    \<and> g_file (apply1 g r) = g_file g \<and> g_pending (apply1 g r) = g_pending g"
  by (cases r) (auto simp: apply1_def put_node_def append_edge_def Let_def split: option.split sum.split)

lemma load_good_line:
  assumes "good_line len l"
  shows "core (load_line g l) = core (apply1 g (line_rec l))" "g_loadErrors (load_line g l) = g_loadErrors g"
    "g_truncatedTail (load_line g l) = g_truncatedTail g" "g_file (load_line g l) = g_file g" "g_pending (load_line g l) = g_pending g"
proof -
  have e: "load_line g l = apply1 (g\<lparr>g_logRecords := g_logRecords g + 1\<rparr>) (line_rec l)"
    using assms by (simp add: good_line_def load_line_def Let_def valid_rec_apply)
  show "core (load_line g l) = core (apply1 g (line_rec l))" unfolding e by (rule apply1_core) simp
  show "g_loadErrors (load_line g l) = g_loadErrors g" "g_truncatedTail (load_line g l) = g_truncatedTail g"
    "g_file (load_line g l) = g_file g" "g_pending (load_line g l) = g_pending g"
    unfolding e by (simp_all add: apply1_fields)
qed

lemma load_good_lines:
  assumes "\<forall>l \<in> set ls. good_line len l"
  obtains g' where "load_lines len ls g = (False, g')" "core g' = core (replay (map line_rec ls) g)"
    "g_loadErrors g' = g_loadErrors g" "g_truncatedTail g' = g_truncatedTail g" "g_file g' = g_file g" "g_pending g' = g_pending g"
proof -
  have "\<exists>g'. load_lines len ls g = (False, g') \<and> core g' = core (replay (map line_rec ls) g)
      \<and> g_loadErrors g' = g_loadErrors g \<and> g_truncatedTail g' = g_truncatedTail g \<and> g_file g' = g_file g \<and> g_pending g' = g_pending g"
    using assms
  proof (induction ls arbitrary: g)
    case (Cons l ls)
    have l: "good_line len l" "\<not> maxLineBytes \<le> len l" using Cons.prems by (simp_all add: good_line_def)
    note s = load_good_line [OF l(1), of g]
    show ?case using Cons.IH [of "load_line g l"] Cons.prems l(2) replay_core [OF s(1), of "map line_rec ls"]
      by (auto simp: s(2-))
  qed simp
  then show thesis using that by blast
qed

lemma Open_good:
  assumes "\<forall>l \<in> set (f_lines f). good_line len l" "f_frag f = 0"
  shows "core (Open len f) = core (replay (map line_rec (f_lines f)) (newGraph f))"
    "g_loadErrors (Open len f) = 0" "\<not> g_truncatedTail (Open len f)" "g_file (Open len f) = f" "g_pending (Open len f) = []"
proof -
  obtain g' where "load_lines len (f_lines f) (newGraph f) = (False, g')" "core g' = core (replay (map line_rec (f_lines f)) (newGraph f))"
    "g_loadErrors g' = 0" "\<not> g_truncatedTail g'" "g_file g' = f" "g_pending g' = []"
    using load_good_lines [OF assms(1), of "newGraph f"] by (auto simp: newGraph_def)
  then show "core (Open len f) = core (replay (map line_rec (f_lines f)) (newGraph f))"
    "g_loadErrors (Open len f) = 0" "\<not> g_truncatedTail (Open len f)" "g_file (Open len f) = f" "g_pending (Open len f) = []"
    using assms(2) by (simp_all add: Open_def)
qed

section \<open>The log and the queue are the history of the graph\<close>

definition history :: "graph \<Rightarrow> rec list" where
  "history g = map line_rec (f_lines (g_file g)) @ g_pending g"

definition synced :: "(line \<Rightarrow> nat) \<Rightarrow> graph \<Rightarrow> bool" where
  "synced len g \<longleftrightarrow> f_frag (g_file g) = 0 \<and> (\<forall>l \<in> set (f_lines (g_file g)). good_line len l) \<and> (\<forall>r \<in> set (g_pending g). valid_rec r)
     \<and> core (replay (history g) (newGraph (g_file g))) = core g"

text \<open>No record is rendered to exactly the scanner's limit, and a generation header is short.\<close>

definition len_ok :: "(line \<Rightarrow> nat) \<Rightarrow> bool" where
  "len_ok len \<longleftrightarrow> (\<forall>l. len l \<noteq> maxLineBytes) \<and> (\<forall>v k ts n e. len (LGen v k ts n e) < maxLineBytes)"

definition clean_io :: "io \<Rightarrow> bool" where
  "clean_io io \<longleftrightarrow> (case io of IoShort _ _ \<Rightarrow> False | _ \<Rightarrow> True)"

fun clean_op :: "op \<Rightarrow> bool" where
  "clean_op (OpAddNode io n) = (clean_io io \<and> node_utf8 n)"
| "clean_op (OpAddEdge io e) = (clean_io io \<and> edge_utf8 e)"
| "clean_op (OpTombstone io now is) = (clean_io io \<and> list_all valid_utf8 is)"
| "clean_op (OpFlush c io) = clean_io io"
| "clean_op (OpCompact c io late wio now) = clean_io io"
| "clean_op _ = True"

lemma encode_all_lines: "encode_all len rs = Inr ls \<Longrightarrow> ls = map rec_line rs \<and> (\<forall>r \<in> set rs. len (rec_line r) \<le> maxLineBytes)"
proof (induction rs arbitrary: ls)
  case (Cons r rs)
  then show ?case by (auto simp: encodeRecord_def Let_def split: if_splits sum.splits)
qed simp

lemma good_lines_of:
  assumes "len_ok len" "encode_all len rs = Inr ls" "\<forall>r \<in> set rs. valid_rec r"
  shows "ls = map rec_line rs" "\<forall>l \<in> set ls. good_line len l" "map line_rec ls = rs"
proof -
  note e = encode_all_lines [OF assms(2)]
  have "len (rec_line r) < maxLineBytes" if "r \<in> set rs" for r
    using e that assms(1) unfolding len_ok_def by (metis le_neq_implies_less)
  then have "\<forall>r \<in> set rs. good_line len (rec_line r) \<and> line_rec (rec_line r) = r" using assms(3) good_rec_line by blast
  then show "ls = map rec_line rs" "\<forall>l \<in> set ls. good_line len l" "map line_rec ls = rs"
    using e by (auto intro!: map_idI)
qed

lemma append_lines_clean: "f_frag f = 0 \<Longrightarrow> ls \<noteq> [] \<Longrightarrow> append_lines len ls 0 f = \<lparr>f_lines = f_lines f @ ls, f_frag = 0\<rparr>"
  by (auto simp: append_lines_def split: list.split)

lemma encode_all_Nil: "encode_all len rs = Inr [] \<Longrightarrow> rs = []"
  using encode_all_lines by fastforce

lemma flush_synced:
  assumes "len_ok len" "clean_io io" "synced len g"
  shows "synced len (snd (flush len c io g))"
proof (cases rule: flush_cases [of len c io g])
  case (written ls)
  have p: "g_pending g \<noteq> []" and e: "encode_all len (g_pending g) = Inr ls"
    and f: "snd (flush len c io g) = g\<lparr>g_file := append_lines len ls 0 (g_file g), g_logRecords := g_logRecords g + int (length (g_pending g)), g_pending := []\<rparr>"
    using written by simp_all
  note l = good_lines_of [OF assms(1) e]
  have v: "\<forall>r \<in> set (g_pending g). valid_rec r" using assms(3) by (simp add: synced_def)
  have "ls \<noteq> []" using e p encode_all_Nil by blast
  then have a: "append_lines len ls 0 (g_file g) = \<lparr>f_lines = f_lines (g_file g) @ ls, f_frag = 0\<rparr>"
    using assms(3) by (intro append_lines_clean) (simp_all add: synced_def)
  have "core (replay (history g) (newGraph f)) = core g" for f
  proof -
    have "core (replay (history g) (newGraph f)) = core (replay (history g) (newGraph (g_file g)))" by (rule replay_core [OF core_newGraph])
    then show ?thesis using assms(3) unfolding synced_def by metis
  qed
  then show ?thesis using assms(3) l [OF v] unfolding f a synced_def by (auto simp: history_def)
qed (use assms in \<open>simp_all add: clean_io_def\<close>)

lemma queue_synced:
  assumes "len_ok len" "clean_io io" "synced len g" "valid_rec r" "core (apply1 g r) = core g'" "g_pending g' = g_pending g" "g_file g' = g_file g"
  shows "synced len (queue len io r g')"
proof -
  have "core (replay (history g) (newGraph (g_file g))) = core g" using assms(3) by (simp add: synced_def)
  from apply1_core [OF this, of r] have "synced len (g'\<lparr>g_pending := g_pending g' @ [r]\<rparr>)"
    using assms(3-) by (auto simp: synced_def history_def)
  then show ?thesis using assms(1,2) by (simp add: queue_def maybeAutoFlush_def flush_synced)
qed

text \<open>All text in the graph is valid, since every record is.\<close>

definition text_ok :: "graph \<Rightarrow> bool" where
  "text_ok g \<longleftrightarrow> (\<forall>i n. map_of (g_nodes g) i = Some n \<longrightarrow> node_utf8 n) \<and> (\<forall>e \<in> set (g_edges g). edge_utf8 e)"

lemma node_utf8_merged: "text_ok g \<Longrightarrow> node_utf8 n \<Longrightarrow> node_utf8 (merged_with g n)"
  by (auto simp: text_ok_def merged_with_def node_utf8_def split: option.split)

lemma edge_utf8_fold: "edge_utf8 a \<Longrightarrow> edge_utf8 (fold_edge a b)"
  by (simp add: edge_utf8_def)

lemma validateEdge_utf8: "validateEdge e = Inr n \<Longrightarrow> edge_utf8 e \<Longrightarrow> edge_utf8 n"
  by (auto simp: validateEdge_iff edge_utf8_def)

lemma text_ok_put: "dag_ok g \<Longrightarrow> text_ok g \<Longrightarrow> node_utf8 m \<Longrightarrow> text_ok (put_node i m g)"
  by (auto simp: text_ok_def dag_ok_def nodes_ok_def split: if_splits)

lemma text_ok_apply1:
  assumes "dag_ok g" "text_ok g" "valid_rec r"
  shows "text_ok (apply1 g r)"
proof (cases r)
  case (RecNode n)
  then show ?thesis using assms text_ok_put node_utf8_merged by (auto simp: apply1_def split: option.split)
next
  case (RecEdge e)
  have ok: "edges_ok (g_edges g) (g_edgeIdx g)" using assms(1) by (simp add: dag_ok_def)
  have e: "validateEdge e = Inr e" "edge_utf8 e" using RecEdge assms(3) by simp_all
  show ?thesis
  proof (cases "map_of (g_edgeIdx g) (edge_key e)")
    case None
    then show ?thesis using e RecEdge assms(2) by (auto simp: apply1_def text_ok_def)
  next
    case (Some j)
    have "edge_utf8 (g_edges g ! j)" using edges_ok_find(1) [OF ok Some] assms(2) by (simp add: text_ok_def)
    then show ?thesis using e RecEdge Some assms(2) set_update_subset_insert [of "g_edges g" j "fold_edge (g_edges g ! j) e"]
      by (auto simp: apply1_def text_ok_def edge_utf8_fold)
  qed
qed (use assms in \<open>auto simp: apply1_def text_ok_def\<close>)

lemma apply1_ok: "dag_ok g \<Longrightarrow> dag_ok (apply1 g r)"
  by (auto simp: apply1_def split: sum.split elim: applyRecord_ok [rotated])

lemma replay_text: "dag_ok g \<Longrightarrow> text_ok g \<Longrightarrow> \<forall>r \<in> set rs. valid_rec r \<Longrightarrow> text_ok (replay rs g)"
  by (induction rs arbitrary: g) (simp_all add: text_ok_apply1 apply1_ok)

lemma text_ok_core: "core g = core h \<Longrightarrow> text_ok g = text_ok h"
  by (simp add: core_def text_ok_def)

lemma synced_text:
  assumes "synced len g"
  shows "text_ok g"
proof -
  have v: "\<forall>r \<in> set (history g). valid_rec r" and c: "core (replay (history g) (newGraph (g_file g))) = core g"
    using assms by (auto simp: synced_def history_def good_line_def)
  have "text_ok (newGraph (g_file g))" by (simp add: text_ok_def newGraph_def)
  from replay_text [OF newGraph_ok this v] show ?thesis using text_ok_core [OF c] by simp
qed

lemma AddNode_synced:
  assumes "len_ok len" "clean_io io" "dag_ok g" "synced len g" "node_utf8 n"
  shows "synced len (snd (AddNode len io n g))"
proof (cases "validateNode n = None \<and> \<not> g_closed g")
  case True
  have ok: "nodes_ok (g_nodes g)" using assms(3) by (simp add: dag_ok_def)
  note m = merged_with_ok [OF ok, of n]
  have "merged_with g (merged_with g n) = merged_with g n"
    using m True by (auto simp: merged_with_def mergeNode_idem split: option.splits)
  then have "apply1 g (RecNode (merged_with g n)) = put_node (nID n) (merged_with g n) g"
    using m True by (simp add: apply1_def)
  moreover have "node_utf8 (merged_with g n)" using synced_text [OF assms(4)] assms(5) by (rule node_utf8_merged)
  ultimately show ?thesis using True m assms by (simp add: AddNode_def Let_def queue_synced)
qed (use assms(4) in \<open>auto simp: AddNode_def split: option.split\<close>)

lemma AddEdge_synced:
  assumes "len_ok len" "clean_io io" "dag_ok g" "synced len g" "edge_utf8 e"
  shows "synced len (snd (AddEdge len io e g))"
proof (cases "validateEdge e")
  case (Inr norm)
  note v = validateEdge_idem [OF Inr]
  have u: "edge_utf8 norm" using Inr assms(5) by (rule validateEdge_utf8)
  have ok: "edges_ok (g_edges g) (g_edgeIdx g)" using assms(3) by (simp add: dag_ok_def)
  show ?thesis
  proof (cases "map_of (g_edgeIdx g) (edge_key norm)")
    case None
    then have "apply1 g (RecEdge norm) = append_edge norm g" using v by (simp add: apply1_def)
    then show ?thesis using Inr None v u assms by (simp add: AddEdge_def queue_synced)
  next
    case (Some j)
    note j = edges_ok_find [OF ok Some]
    let ?new = "fold_edge (g_edges g ! j) norm"
    have "validateEdge ?new = Inr ?new" using j(3) v by (rule fold_edge_valid)
    moreover from this have "apply1 g (RecEdge ?new) = g\<lparr>g_edges := (g_edges g)[j := ?new], g_idxDirty := True\<rparr>"
      using j Some by (simp add: apply1_def fold_edge_absorb)
    moreover have "edge_utf8 ?new" using synced_text [OF assms(4)] j(1) by (simp add: text_ok_def edge_utf8_fold)
    ultimately show ?thesis using Inr Some assms by (simp add: AddEdge_def Let_def queue_synced)
  qed
qed (simp add: AddEdge_def assms(4))

lemma tombstone_loop_synced: "synced len g \<Longrightarrow> list_all valid_utf8 is \<Longrightarrow> synced len (snd (tombstone_loop now is g))"
proof (induction "is" arbitrary: g)
  case (Cons i "is")
  show ?case
  proof (cases "i = []")
    case False
    let ?g = "g\<lparr>g_dead := mput i True (g_dead g), g_pending := g_pending g @ [RecTomb i now]\<rparr>"
    have "core (replay (history g) (newGraph (g_file g))) = core g" using Cons.prems(1) by (simp add: synced_def)
    from apply1_core [OF this, of "RecTomb i now"] have "synced len ?g"
      using False Cons.prems by (auto simp: synced_def history_def apply1_def core_def)
    then show ?thesis using Cons.IH Cons.prems(2) False by simp
  qed (simp add: Cons.prems)
qed simp

lemma synced_dirty [simp]: "synced len (g\<lparr>g_idxDirty := b\<rparr>) = synced len g"
  by (simp add: synced_def history_def)

lemma Tombstone_synced:
  assumes "len_ok len" "clean_io io" "synced len g" "list_all valid_utf8 is"
  shows "synced len (snd (Tombstone len io now is g))"
  using tombstone_loop_synced [OF assms(3,4), of now] assms
  by (cases "tombstone_loop now is g") (auto simp: Tombstone_def maybeAutoFlush_def flush_synced split: option.split)

lemma withIndex_synced [simp]: "synced len (withIndex g) = synced len g"
  by (simp add: synced_def history_def core_def)

section \<open>A rewritten log\<close>

lemma replay_nodes:
  assumes "\<forall>n \<in> set ns. validateNode n = None" "distinct (map nID ns)" "g_nodes g = []" "g_dead g = []"
  shows "core (replay (map RecNode ns) g) = core (g\<lparr>g_nodes := put_all ns\<rparr>)"
  using assms(1,2)
proof (induction ns rule: rev_induct)
  case Nil
  then show ?case using assms(3) by (simp add: core_def)
next
  case (snoc n ns)
  let ?h = "g\<lparr>g_nodes := put_all ns\<rparr>"
  have "map_of (put_all ns) (nID n) = None"
    using map_of_put_all [of ns "nID n"] snoc.prems(2) find_fresh [of n ns] by simp
  then have "apply1 ?h (RecNode n) = put_node (nID n) n ?h" using snoc.prems(1) by (simp add: apply1_def merged_with_def)
  moreover have "core (replay (map RecNode ns) g) = core ?h" using snoc by simp
  ultimately have "core (apply1 (replay (map RecNode ns) g) (RecNode n)) = core (put_node (nID n) n ?h)"
    using apply1_core by metis
  then show ?case using assms(4) by (simp add: core_def mdel_def)
qed

lemma replay_edges:
  assumes "dag_ok g" "\<forall>e \<in> set es. validateEdge e = Inr e" "distinct (map edge_key (g_edges g @ es))"
  shows "core (replay (map RecEdge es) g) = core (append_edges es g)"
  using assms(2,3)
proof (induction es rule: rev_induct)
  case (snoc e es)
  let ?h = "append_edges es g"
  have "dag_ok ?h" using assms(1) snoc.prems by (intro append_edges_ok) simp_all
  then have "edges_ok (g_edges ?h) (g_edgeIdx ?h)" by (simp add: dag_ok_def)
  then have "map_of (g_edgeIdx ?h) (edge_key e) = None" by (rule edges_ok_fresh) (use snoc.prems(2) in auto)
  then have "apply1 ?h (RecEdge e) = append_edge e ?h" using snoc.prems(1) by (simp add: apply1_def)
  moreover have "core (replay (map RecEdge es) g) = core ?h" using snoc by simp
  ultimately have "core (apply1 (replay (map RecEdge es) g) (RecEdge e)) = core (append_edge e ?h)"
    using apply1_core by metis
  then show ?case by simp
qed simp

lemma materialize_good:
  assumes "len_ok len" "materialize len gen ts ns es = Inr ls" "\<forall>n \<in> set ns. validateNode n = None \<and> node_utf8 n"
    "\<forall>e \<in> set es. validateEdge e = Inr e \<and> edge_utf8 e"
  shows "\<forall>l \<in> set ls. good_line len l" "map line_rec ls = RecGen gen ts # map RecNode ns @ map RecEdge es"
proof -
  obtain ls' where e: "encode_all len (map RecNode ns @ map RecEdge es) = Inr ls'"
    and ls: "ls = LGen wireVersion gen ts (int (length ns)) (int (length es)) # ls'"
    using assms(2) by (auto simp: materialize_def encodeGeneration_def split: sum.splits)
  have "\<forall>r \<in> set (map RecNode ns @ map RecEdge es). valid_rec r" using assms(3,4) by auto
  note g = good_lines_of [OF assms(1) e this]
  show "\<forall>l \<in> set ls. good_line len l" "map line_rec ls = RecGen gen ts # map RecNode ns @ map RecEdge es"
    using g assms(1) by (simp_all add: ls good_line_def line_rec_def len_ok_def)
qed

lemma append_edges_core:
  assumes "core h = core h'"
  shows "core (append_edges es h) = core (append_edges es h')"
proof (induction es rule: rev_induct)
  case (snoc e es)
  then show ?case by (simp add: append_edge_def Let_def core_def)
qed (simp add: assms)

lemma append_edges_gen: "append_edges es (h\<lparr>g_gen := k\<rparr>) = (append_edges es h)\<lparr>g_gen := k\<rparr>"
  by (induction es rule: rev_induct) (simp_all add: append_edge_def Let_def)

lemma core_gen: "core h = core h' \<Longrightarrow> core (h\<lparr>g_gen := k\<rparr>) = core (h'\<lparr>g_gen := k\<rparr>)"
  by (simp add: core_def)

lemma core_rewritten:
  "core (rewritten ls now g) = core (append_edges (keptEdges g) ((newGraph f)\<lparr>g_gen := g_gen g + 1, g_nodes := put_all (keptNodes g)\<rparr>))"
proof -
  let ?h = "no_edges (g\<lparr>g_file := \<lparr>f_lines = ls, f_frag = 0\<rparr>, g_nodes := put_all (keptNodes g), g_dead := []\<rparr>)"
  have "core (rewritten ls now g) = core ((append_edges (keptEdges g) ?h)\<lparr>g_gen := g_gen g + 1\<rparr>)"
    unfolding rewritten_def adoptGeneration_alt by (simp add: core_def)
  also have "\<dots> = core (append_edges (keptEdges g) (?h\<lparr>g_gen := g_gen g + 1\<rparr>))" by (simp only: append_edges_gen)
  also have "\<dots> = core (append_edges (keptEdges g) ((newGraph f)\<lparr>g_gen := g_gen g + 1, g_nodes := put_all (keptNodes g)\<rparr>))"
    by (rule append_edges_core) (simp add: core_def newGraph_def)
  finally show ?thesis .
qed

lemma rewritten_replay:
  assumes "dag_ok g" "\<not> g_idxDirty g"
  shows "core (replay (RecGen (g_gen g + 1) now # map RecNode (keptNodes g) @ map RecEdge (keptEdges g)) (newGraph f)) = core (rewritten ls now g)"
proof -
  note n = listed_nodes_ok [OF assms, folded keptNodes_def]
  note e = live_edges_ok [OF assms(1), of "\<lambda>e. live g (eFrom e) \<and> live g (eTo e)", folded keptEdges_def]
  let ?g0 = "(newGraph f)\<lparr>g_gen := g_gen g + 1, g_idxDirty := True\<rparr>"
  let ?g1 = "?g0\<lparr>g_nodes := put_all (keptNodes g)\<rparr>"
  have r0: "apply1 (newGraph f) (RecGen (g_gen g + 1) now) = ?g0" by (simp add: apply1_def)
  have r1: "core (replay (map RecNode (keptNodes g)) ?g0) = core ?g1"
    using n by (intro replay_nodes) (simp_all add: newGraph_def)
  have "dag_ok ?g1" using put_all_ok [OF n(1)]
    by (simp add: newGraph_def dag_ok_def edges_ok_def adjacency_ok_def at_end_def mget_def listing_ok_def dead_ok_def)
  then have r2: "core (replay (map RecEdge (keptEdges g)) ?g1) = core (append_edges (keptEdges g) ?g1)"
    using e by (intro replay_edges) (simp_all add: newGraph_def)
  have "core (append_edges (keptEdges g) ?g1) = core (rewritten ls now g)"
    unfolding core_rewritten [where f = f] by (rule append_edges_core) (simp add: core_def)
  then show ?thesis unfolding replay_simps r0 replay_core [OF r1] r2 .
qed

lemma Compact_synced:
  assumes "len_ok len" "clean_io io" "dag_ok g" "synced len g"
  shows "synced len (snd (Compact len c io late wio now g))"
proof -
  let ?f = "snd (flush len c io g)"
  have s: "synced len ?f" using assms by (intro flush_synced)
  have ok: "dag_ok (withIndex ?f)" using assms(3) by (intro withIndex_dag_ok flush_ok)
  show ?thesis
  proof (cases rule: Compact_cases [OF assms(3), of len c io late wio now])
    case (5 ls)
    let ?g = "withIndex ?f"
    note n = listed_nodes_ok [OF ok withIndex_clean, folded keptNodes_def]
    note e = live_edges_ok [OF ok, of "\<lambda>e. live ?g (eFrom e) \<and> live ?g (eTo e)", folded keptEdges_def]
    have m: "materialize len (g_gen ?g + 1) now (keptNodes ?g) (keptEdges ?g) = Inr ls" using 5 by simp
    have t: "text_ok ?g" using synced_text [OF s] by (simp add: text_ok_def)
    have "\<forall>i \<in> set (g_posIdx ?g). map_of (g_nodes ?g) i \<noteq> None" using ok by (simp add: dag_ok_def listing_ok_def)
    then have n': "\<forall>n \<in> set (keptNodes ?g). validateNode n = None \<and> node_utf8 n" using n(1) t by (auto simp: keptNodes_def text_ok_def)
    have e': "\<forall>e \<in> set (keptEdges ?g). validateEdge e = Inr e \<and> edge_utf8 e" using e(2) t by (auto simp: keptEdges_def text_ok_def)
    note l = materialize_good [OF assms(1) m n' e']
    have "g_pending ?f = []" using 5(1) by (cases rule: flush_cases [of len c io g]) simp_all
    then show ?thesis using l rewritten_replay [OF ok withIndex_clean] 5
      by (simp add: synced_def history_def del: replay_simps)
  qed (use assms s in simp_all)
qed

lemma Open_synced: "synced len g \<Longrightarrow> synced len (Open len (g_file g))"
  using Open_good [of "g_file g" len] by (simp add: synced_def history_def)

lemma step_synced: "len_ok len \<Longrightarrow> clean_op a \<Longrightarrow> dag_ok g \<Longrightarrow> synced len g \<Longrightarrow> synced len (step len a g)"
  by (cases a) (simp_all add: AddNode_synced AddEdge_synced Tombstone_synced flush_synced Compact_synced Open_synced CrossingEdges_def NodesAfter_def Let_def)

end
