(* ===== verification/DagProps.thy ===== *)
theory DagProps
  imports DagReplay
begin

text \<open>
  The promises of the dependence graph to its clients: the invariant, the specification of the
  queries, durability, what compaction keeps, and three behaviours of the log and the index that
  the code's comments rule out.
\<close>

section \<open>The position index along a history\<close>

fun safe_op :: "op \<Rightarrow> bool" where
  "safe_op (OpTombstone io now is) = ([] \<notin> set is)"
| "safe_op _ = True"

definition index_fields :: "graph \<Rightarrow> NodeID list \<times> int list \<times> int list \<times> int list" where
  "index_fields g = (g_posIdx g, g_posVals g, g_lo g, g_hi g)"

lemma index_ok_iff: "index_ok g \<longleftrightarrow> g_idxDirty g \<or> index_fields (rebuildIndex g) = index_fields g"
proof -
  have r: "rebuildIndex g = g\<lparr>g_posIdx := g_posIdx (rebuildIndex g), g_posVals := g_posVals (rebuildIndex g),
      g_lo := g_lo (rebuildIndex g), g_hi := g_hi (rebuildIndex g), g_idxDirty := False\<rparr>"
    unfolding rebuildIndex_def by (simp add: Let_def)
  have "rebuildIndex g = g" if "\<not> g_idxDirty g" "index_fields (rebuildIndex g) = index_fields g"
    using that by (subst r) (auto simp: index_fields_def intro: graph.equality)
  then show ?thesis by (auto simp: index_ok_def)
qed

lemma rebuildIndex_cong:
  assumes "g_nodes g = g_nodes h" "g_dead g = g_dead h" "map (\<lambda>e. (eFrom e, eTo e)) (g_edges g) = map (\<lambda>e. (eFrom e, eTo e)) (g_edges h)"
  shows "index_fields (rebuildIndex g) = index_fields (rebuildIndex h)"
proof -
  have l: "live g = live h" using assms(1,2) by (auto simp: live_def fun_eq_iff)
  have e: "map (\<lambda>e. F (eFrom e) (eTo e)) (filter (\<lambda>e. P (eFrom e) (eTo e)) es) =
      map (\<lambda>p. F (fst p) (snd p)) (filter (\<lambda>p. P (fst p) (snd p)) (map (\<lambda>e. (eFrom e, eTo e)) es))" for F :: "NodeID \<Rightarrow> NodeID \<Rightarrow> int \<times> int" and P es
    by (simp add: filter_map o_def)
  let ?pos = "\<lambda>a b. (nPos (node_at h a), nPos (node_at h b))"
  have "map (\<lambda>e. ?pos (eFrom e) (eTo e)) (filter (\<lambda>e. live h (eFrom e) \<and> live h (eTo e)) (g_edges g)) =
      map (\<lambda>e. ?pos (eFrom e) (eTo e)) (filter (\<lambda>e. live h (eFrom e) \<and> live h (eTo e)) (g_edges h))"
    unfolding e [of ?pos "\<lambda>a b. live h a \<and> live h b"] assms(3) ..
  then show ?thesis using assms(1,2) l by (simp add: index_fields_def rebuildIndex_def Let_def del: map_map)
qed

lemma index_ok_cong:
  assumes "index_ok g" "g_nodes g = g_nodes h" "g_dead g = g_dead h" "map (\<lambda>e. (eFrom e, eTo e)) (g_edges g) = map (\<lambda>e. (eFrom e, eTo e)) (g_edges h)"
    "g_idxDirty h = g_idxDirty g" "index_fields h = index_fields g"
  shows "index_ok h"
  using assms(1,5,6) rebuildIndex_cong [OF assms(2-4)] unfolding index_ok_iff by simp

lemma index_ok_dirty: "g_idxDirty g \<Longrightarrow> index_ok g"
  by (simp add: index_ok_def)

lemma flush_index:
  assumes "index_ok g"
  shows "index_ok (snd (flush len c io g))"
  by (cases rule: flush_cases [of len c io g]) (use assms in \<open>auto simp: index_fields_def elim!: index_ok_cong\<close>)

lemma queue_index: "index_ok g \<Longrightarrow> index_ok (queue len io r g)"
  unfolding queue_def maybeAutoFlush_def by (auto intro!: flush_index simp: index_fields_def elim!: index_ok_cong)

lemma AddEdge_index:
  assumes "index_ok g"
  shows "index_ok (snd (AddEdge len io e g))"
proof -
  have "index_ok (g\<lparr>g_edges := (g_edges g)[j := fold_edge (g_edges g ! j) n]\<rparr>)" for j n
  proof -
    have "map (\<lambda>e. (eFrom e, eTo e)) (g_edges g) = map (\<lambda>e. (eFrom e, eTo e)) ((g_edges g)[j := fold_edge (g_edges g ! j) n])"
    proof (rule nth_equalityI)
      fix i assume "i < length (map (\<lambda>e. (eFrom e, eTo e)) (g_edges g))"
      then show "map (\<lambda>e. (eFrom e, eTo e)) (g_edges g) ! i = map (\<lambda>e. (eFrom e, eTo e)) ((g_edges g)[j := fold_edge (g_edges g ! j) n]) ! i"
        by (cases "i = j") simp_all
    qed simp
    then show ?thesis using assms by (intro index_ok_cong [OF assms]) (simp_all add: index_fields_def)
  qed
  then show ?thesis using assms
    by (auto simp: AddEdge_def Let_def append_edge_def index_ok_dirty intro!: queue_index split: sum.split option.split)
qed

lemma tombstone_loop_fst: "[] \<notin> set is \<Longrightarrow> fst (tombstone_loop now is g) = None"
  by (induction "is" arbitrary: g) auto

lemma Tombstone_index:
  assumes "index_ok g" "[] \<notin> set is"
  shows "index_ok (snd (Tombstone len io now is g))"
proof (cases "is = []")
  case False
  obtain g' where "tombstone_loop now is g = (None, g')"
    using tombstone_loop_fst [OF assms(2), of now g] by (cases "tombstone_loop now is g") auto
  then show ?thesis using False assms(1)
    by (auto simp: Tombstone_def maybeAutoFlush_def index_ok_dirty intro: flush_index)
qed (simp add: Tombstone_def assms(1))

lemma withIndex_index: "index_ok g \<Longrightarrow> index_ok (withIndex g)"
  by (simp add: withIndex_def rebuildIndex_ok)

lemma Open_index: "index_ok (Open len f)"
proof -
  have a: "index_ok h'" if "index_ok h" "applyRecord r h = Inr h'" for h h' r
    using that by (cases r) (auto simp: append_edge_def Let_def index_ok_dirty split: option.splits sum.splits if_splits)
  have l: "index_ok (load_line h x)" if "index_ok h" for h x
  proof -
    have "index_ok (h\<lparr>g_logRecords := k\<rparr>)" "index_ok (h\<lparr>g_logRecords := k, g_loadErrors := e\<rparr>)" for k e
      using that by (auto simp: index_fields_def elim!: index_ok_cong)
    then show ?thesis using a by (fastforce simp: load_line_def Let_def split: sum.splits option.splits)
  qed
  have "index_ok (snd (load_lines len ls h))" if "index_ok h" for ls h
    using that by (induction ls arbitrary: h) (simp_all add: l)
  from this [of "newGraph f" "f_lines f"] have "index_ok (snd (load_lines len (f_lines f) (newGraph f)))"
    by (simp add: index_ok_iff index_fields_def rebuildIndex_def newGraph_def Let_def)
  then show ?thesis unfolding Open_def
    by (cases "load_lines len (f_lines f) (newGraph f)") (auto simp: index_fields_def Let_def elim!: index_ok_cong)
qed

lemma step_index:
  assumes "dag_ok g" "index_ok g" "safe_op a"
  shows "index_ok (step len a g)"
proof (cases a)
  case (OpCompact c io late wio now)
  have "index_ok (snd (Compact len c io late wio now g))"
    using assms(1) by (rule Compact_cases [of g len c io late wio now]) (use assms(2) in \<open>auto intro: flush_index withIndex_index index_ok_dirty\<close>)
  then show ?thesis using OpCompact by simp
qed (use assms in \<open>auto simp: AddNode_def Let_def CrossingEdges_def NodesAfter_def AddEdge_index Tombstone_index flush_index
    Open_index withIndex_index index_ok_dirty intro!: queue_index split: option.split\<close>)

lemma reaches_index: "reaches len safe_op (Open len f) g \<Longrightarrow> dag_ok g \<and> \<not> g_closed g \<and> index_ok g"
  by (induction rule: reaches.induct) (simp_all add: Open_ok Open_closed Open_index step_ok step_open step_index)

section \<open>What the lookups return\<close>

lemma map_at_end: "map (\<lambda>j. es ! j) (at_end end es i) = filter (\<lambda>e. end e = i) es"
proof (induction es rule: rev_induct)
  case Nil
  then show ?case by (simp add: at_end_def)
next
  case (snoc e es)
  have "map (\<lambda>j. (es @ [e]) ! j) (at_end end es i) = map (\<lambda>j. es ! j) (at_end end es i)"
    by (auto simp: at_end_def nth_append)
  then show ?case using snoc by (simp add: at_end_append)
qed

lemma incident_spec:
  assumes "dag_ok g" "\<not> g_closed g"
  shows "incident g i b = filter (\<lambda>e. (if b then eTo e else eFrom e) = i \<and> \<not> isDead g (eFrom e) \<and> \<not> isDead g (eTo e)) (g_edges g)"
proof -
  have o: "mget [] (g_out g) i = at_end eFrom (g_edges g) i" and n: "mget [] (g_in g) i = at_end eTo (g_edges g) i"
    using assms(1) by (simp_all add: dag_ok_def adjacency_ok_def)
  show ?thesis
  proof (cases "isDead g i")
    case True
    then show ?thesis using assms(2) by (auto simp: incident_def filter_empty_conv)
  next
    case False
    then show ?thesis using assms(2) by (simp add: incident_def adjacent_def o n map_at_end conj_commute)
  qed
qed

lemma liveNodes_set:
  assumes "dag_ok g" "\<not> g_closed g"
  shows "n \<in> set (liveNodes g) \<longleftrightarrow> GNode g (nID n) = Some n"
proof -
  have ok: "\<And>i m. map_of (g_nodes g) i = Some m \<Longrightarrow> nID m = i" and m: "map_ok (g_nodes g)"
    using assms(1) by (simp_all add: dag_ok_def nodes_ok_def)
  have k: "i \<in> fst ` set (g_nodes g) \<longleftrightarrow> map_of (g_nodes g) i \<noteq> None" for i by (simp add: map_of_eq_None_iff)
  show ?thesis
  proof
    assume "n \<in> set (liveNodes g)"
    then obtain i where i: "i \<in> fst ` set (g_nodes g)" "\<not> isDead g i" "n = node_at g i" by (auto simp: liveNodes_def)
    have "map_of (g_nodes g) i \<noteq> None" using i(1) k by blast
    then have "map_of (g_nodes g) i = Some n" using i(3) by auto
    moreover from this have "nID n = i" by (rule ok)
    ultimately show "GNode g (nID n) = Some n" using assms(2) i(2) by (simp add: GNode_def)
  next
    assume "GNode g (nID n) = Some n"
    then have "map_of (g_nodes g) (nID n) = Some n" "\<not> isDead g (nID n)" by (simp_all add: GNode_def split: if_splits)
    moreover from this have "nID n \<in> fst ` set (g_nodes g)" by (simp add: k)
    moreover from calculation have "n = node_at g (nID n)" by simp
    ultimately show "n \<in> set (liveNodes g)" by (auto simp: liveNodes_def intro!: image_eqI [of n _ "nID n"])
  qed
qed

lemma liveNodes_order:
  assumes "dag_ok g"
  shows "sorted (map (\<lambda>n. (nPos n, nTurn n, nID n)) (liveNodes g))" "distinct (map nID (liveNodes g))"
proof -
  let ?ids = "filter (\<lambda>i. \<not> isDead g i) (map fst (g_nodes g))"
  let ?key = "\<lambda>i. (nPos (node_at g i), nTurn (node_at g i), i)"
  have ok: "\<And>i m. map_of (g_nodes g) i = Some m \<Longrightarrow> nID m = i" and m: "map_ok (g_nodes g)"
    using assms(1) by (simp_all add: dag_ok_def nodes_ok_def)
  have k: "i \<in> fst ` set (g_nodes g) \<Longrightarrow> nID (node_at g i) = i" for i
    using ok by (metis domIff dom_map_of_conv_image_fst option.collapse)
  have i: "\<forall>i \<in> set (sort_key ?key ?ids). nID (node_at g i) = i" using k by auto
  have "map (\<lambda>n. (nPos n, nTurn n, nID n)) (liveNodes g) = map ?key (sort_key ?key ?ids)"
    using i by (simp add: liveNodes_def)
  then show "sorted (map (\<lambda>n. (nPos n, nTurn n, nID n)) (liveNodes g))" using sorted_sort_key [of ?key ?ids] by simp
  have "map nID (liveNodes g) = sort_key ?key ?ids" unfolding liveNodes_def map_map by (rule map_idI) (use i in simp)
  then show "distinct (map nID (liveNodes g))" using map_ok_distinct [OF m] by simp
qed

lemma sorted_map_filter: "sorted (map f xs) \<Longrightarrow> sorted (map f (filter P xs))"
  by (induction xs) auto

section \<open>The effect of a flush and of a compaction on the views\<close>

lemma flush_pending: "fst (flush len c io g) = None \<Longrightarrow> core (snd (flush len c io g)) = core g \<and> g_pending (snd (flush len c io g)) = []"
  by (cases rule: flush_cases [of len c io g]) simp_all

text \<open>The views depend on the live nodes and the live edges only.\<close>

definition live_view :: "graph \<Rightarrow> (NodeID \<Rightarrow> Node option) \<times> Edge list" where
  "live_view g = ((\<lambda>i. if isDead g i then None else map_of (g_nodes g) i), keptEdges g)"

lemma live_view_live: "live_view g = live_view h \<Longrightarrow> live g = live h"
  by (rule ext) (auto simp: live_view_def live_def fun_eq_iff split: if_splits)

lemma live_view_node: "live_view g = live_view h \<Longrightarrow> live g i \<Longrightarrow> node_at g i = node_at h i"
  by (auto simp: live_view_def live_def fun_eq_iff split: if_splits)

lemma live_view_straddles:
  assumes "live_view g = live_view h"
  shows "filter (straddles g pos) (g_edges g) = filter (straddles h pos) (g_edges h)"
proof -
  have l: "live g = live h" using assms by (rule live_view_live)
  have s: "filter (straddles k pos) (g_edges k) = filter (straddles k pos) (keptEdges k)" for k
    unfolding keptEdges_def filter_filter by (rule filter_cong) (auto simp: straddles_def)
  have "straddles g pos = straddles h pos"
  proof
    fix e show "straddles g pos e = straddles h pos e"
      using live_view_node [OF assms, of "eFrom e"] live_view_node [OF assms, of "eTo e"] unfolding straddles_def l by auto
  qed
  then show ?thesis unfolding s using assms by (simp add: live_view_def)
qed

lemma sorted_distinct_key_unique:
  assumes "sorted (map f xs)" "sorted (map f ys)" "distinct (map f xs)" "distinct (map f ys)" "set xs = set ys" "inj_on f (set xs)"
  shows "xs = ys"
proof -
  have "map f xs = map f ys" using assms by (intro sorted_distinct_set_unique) simp_all
  then show ?thesis using assms(5,6) by (metis Un_absorb map_inj_on)
qed

lemma live_view_nodes:
  assumes "dag_ok g" "dag_ok h" "\<not> g_closed g" "\<not> g_closed h" "live_view g = live_view h"
  shows "liveNodes g = liveNodes h"
proof -
  let ?key = "\<lambda>n. (nPos n, nTurn n, nID n)"
  have G: "GNode g i = GNode h i" for i using assms(3-5) by (auto simp: live_view_def GNode_def fun_eq_iff)
  have set_eq: "set (liveNodes g) = set (liveNodes h)"
    using liveNodes_set [OF assms(1,3)] liveNodes_set [OF assms(2,4)] G by auto
  have d: "distinct (map ?key (liveNodes k))" if "dag_ok k" for k
    using liveNodes_order(2) [OF that] by (auto simp: distinct_map inj_on_def)
  have "inj_on ?key (set (liveNodes g))" using d [OF assms(1)] by (simp add: distinct_map)
  then show ?thesis using liveNodes_order(1) assms(1,2) d set_eq by (intro sorted_distinct_key_unique) simp_all
qed

lemma rewritten_view:
  assumes "dag_ok g" "index_ok g" "\<not> g_idxDirty g"
  shows "live_view (rewritten ls now g) = live_view g"
proof -
  note n = listed_nodes_ok [OF assms(1,3), folded keptNodes_def]
  have "rebuildIndex g = g" using assms(2,3) by (simp add: index_ok_def)
  then have "g_posIdx g = g_posIdx (rebuildIndex g)" by simp
  then have p: "set (g_posIdx g) = {i. live g i}" by (auto simp: rebuildIndex_def Let_def live_def map_of_eq_None_iff)
  have nid: "nID (node_at g i) = i" if "i \<in> set (g_posIdx g)" for i
    using assms(1) that p by (auto simp: dag_ok_def nodes_ok_def live_def)
  have f: "find (\<lambda>n. nID n = i) (keptNodes g) = (if live g i then Some (node_at g i) else None)" for i
  proof (cases "live g i")
    case True
    have "nID m = i \<Longrightarrow> m \<in> set (keptNodes g) \<Longrightarrow> m = node_at g i" for m
      using nid by (auto simp: keptNodes_def)
    moreover have "node_at g i \<in> set (keptNodes g)" "nID (node_at g i) = i" using True p nid by (auto simp: keptNodes_def)
    ultimately show ?thesis using True by (metis (mono_tags, lifting) find_Some_iff find_None_iff nth_mem option.exhaust)
  next
    case False
    then show ?thesis using p nid by (auto simp: find_None_iff keptNodes_def)
  qed
  have m: "map_of (put_all (keptNodes g)) i = (if live g i then Some (node_at g i) else None)" for i
    using map_of_put_all [of "keptNodes g" i] n(2,3) f by simp
  then have "live (rewritten ls now g) = live g" by (auto simp: live_def mget_def fun_eq_iff)
  then have "keptEdges (rewritten ls now g) = keptEdges g" by (auto simp: keptEdges_def)
  moreover have "map_of (put_all (keptNodes g)) i = (if isDead g i then None else map_of (g_nodes g) i)" for i
    unfolding m by (auto simp: live_def)
  ultimately show ?thesis by (simp add: live_view_def mget_def)
qed

lemma core_view:
  assumes "core g = core h"
  shows "live_view g = live_view h"
  using assms by (simp add: core_def live_view_def keptEdges_def live_def cong: if_cong)

lemma Compact_live:
  assumes "dag_ok g" "\<not> g_closed g" "index_ok g" "Compact len c io late wio now g = (None, g')"
  shows "GNode g' i = GNode g i
    \<and> filter (\<lambda>e. live g (eFrom e) \<and> live g (eTo e)) (Out g' i) = filter (\<lambda>e. live g (eFrom e) \<and> live g (eTo e)) (Out g i)
    \<and> fst (NodesAfter g' pos) = fst (NodesAfter g pos) \<and> fst (CrossingEdges g' pos) = fst (CrossingEdges g pos)
    \<and> g_pending g' = []"
proof -
  let ?f = "snd (flush len c io g)"
  have f: "dag_ok ?f" "index_ok ?f" using assms(1,3) flush_ok flush_index by auto
  have r: "live_view (rewritten ls now (withIndex ?f)) = live_view (withIndex ?f)" for ls
    using f by (intro rewritten_view withIndex_dag_ok withIndex_index) simp_all
  have w: "live_view (withIndex k) = live_view k" for k by (simp add: live_view_def cong: if_cong)
  have "fst (flush len c io g) = None \<and> (g' = ?f \<or> (\<exists>ls. g' = rewritten ls now (withIndex ?f)))"
    using assms(1) by (rule Compact_cases [of g len c io late wio now]) (use assms(2,4) in auto)
  then have v: "live_view g' = live_view g" and p: "g_pending g' = []"
    using flush_pending [of len c io g] core_view [of ?f g] r w by auto
  have ok': "dag_ok g'" "\<not> g_closed g'" "index_ok g'"
    using Compact_ok [OF assms(1), of len c io late wio now] Compact_open [OF assms(1), of len c io late wio now] assms(2,4)
      step_index [OF assms(1,3), of "OpCompact c io late wio now" len] by auto
  have "GNode g' i = GNode g i" using v ok'(2) assms(2) by (auto simp: live_view_def GNode_def fun_eq_iff)
  moreover have o: "filter (\<lambda>e. live k (eFrom e) \<and> live k (eTo e)) (Out k i) = filter (\<lambda>e. eFrom e = i) (keptEdges k)"
    if "dag_ok k" "\<not> g_closed k" for k
    unfolding Out_def incident_spec [OF that] keptEdges_def filter_filter by (rule filter_cong) (auto simp: live_def)
  have "filter (\<lambda>e. live g (eFrom e) \<and> live g (eTo e)) (Out g' i) = filter (\<lambda>e. live g (eFrom e) \<and> live g (eTo e)) (Out g i)"
    using o [OF ok'(1,2)] o [OF assms(1,2)] v live_view_live [OF v] by (simp add: live_view_def)
  moreover have "fst (NodesAfter g' pos) = fst (NodesAfter g pos)"
    using live_view_nodes [OF ok'(1) assms(1) ok'(2) assms(2) v] NodesAfter_eq ok' assms by simp
  moreover have "fst (CrossingEdges g' pos) = fst (CrossingEdges g pos)"
    using live_view_straddles [OF v, of pos] CrossingEdges_eq ok' assms by (cases "0 < pos") (simp_all add: CrossingEdges_def)
  ultimately show ?thesis using p by simp
qed

section \<open>Properties\<close>

lemma load_lines_append: "load_lines len (ls @ ms) g = (case load_lines len ls g of (True, h) \<Rightarrow> (True, h) | (False, h) \<Rightarrow> load_lines len ms h)"
  by (induction ls arbitrary: g) simp_all

text \<open>A graph on which the witnesses run: two prompts and a file read by the second.\<close>

definition sample_node :: "NodeID \<Rightarrow> byte \<Rightarrow> int \<Rightarrow> Node" where
  "sample_node i k pos = \<lparr>nID = i, nKind = k, nTurn = 1, nTS = 0, nPos = pos, nRef = [], nRoot = replicate 32 0, nTokens = 0, nEphemeral = False\<rparr>"

definition sample_len :: "line \<Rightarrow> nat" where "sample_len l = 100"

definition no_log :: logfile where "no_log = \<lparr>f_lines = [], f_frag = 0\<rparr>"

definition id_a :: NodeID where "id_a = lit ''file:a''"
definition id_b :: NodeID where "id_b = lit ''file:b''"

definition sample_ops :: "op list" where
  "sample_ops = [OpAddNode IoOk (sample_node id_a KindFile 3), OpAddNode IoRefused (sample_node id_b KindFile 9),
     OpAddEdge IoOk \<lparr>eFrom = id_a, eTo = id_b, eKind = 0, eWeight = f32_one, eTurn = 1\<rparr>]"

definition sample_graph :: graph where
  "sample_graph = foldl (\<lambda>g a. step sample_len a g) (Open sample_len no_log) sample_ops"

lemma sample_reaches: "reaches sample_len safe_op (Open sample_len no_log) sample_graph"
  unfolding sample_graph_def by (rule reaches_run) (auto simp: sample_ops_def intro: reaches.start)

text \<open>C3. Whatever log it was loaded from and whatever the disk does, after any sequence of operations,
  restarts included, the graph is well formed: stored nodes validate under the identifier they are
  filed under, edges are normalized, the edge index knows exactly the edges, the adjacency lists
  are exactly the positions of the edges at each node; the adjacency check after a compaction
  passes, so the graph never closes itself.\<close>

theorem dag_invariant:
  assumes "reaches len (\<lambda>_. True) (Open len f) g"
  shows "dag_ok g \<and> \<not> g_closed g \<and> verifyAdjacency g = (None, g)"
  using reaches_ok [OF assms] Open_ok Open_closed verifyAdjacency_ok by blast

theorem dag_invariant_witness: "dag_ok (step sample_len (OpCompact False (IoShort 0 5) False True 7) (Open sample_len no_log))"
proof -
  have "reaches sample_len (\<lambda>_. True) (Open sample_len no_log) (step sample_len (OpCompact False (IoShort 0 5) False True 7) (Open sample_len no_log))"
    by (intro reaches.step reaches.start) simp
  from dag_invariant [OF this] show ?thesis by (rule conjunct1)
qed




lemma sample_clean: "reaches sample_len clean_op (newGraph no_log) (step sample_len (OpAddNode IoOk (sample_node id_a KindFile 3)) (newGraph no_log))"
proof (intro reaches.step reaches.start)
  have "node_utf8 (sample_node id_a KindFile 3)" by code_simp
  then show "clean_op (OpAddNode IoOk (sample_node id_a KindFile 3))" by (simp add: clean_io_def)
qed



lemma sample_compact: "Compact sample_len False IoOk False True 7 (Open sample_len no_log) = (None, Open sample_len no_log)"
  by (simp add: Compact_def Open_def newGraph_def no_log_def needsCompaction_def)


text \<open>C33. A tombstone call that fails at an empty identifier has already marked the identifiers before it,
  without marking the index dirty: the node is gone for \<^verbatim>\<open>Node\<close> and still listed by \<^verbatim>\<open>NodesAfter\<close>.\<close>

theorem dag_tombstone_partial_stale:
  assumes "reaches len safe_op (Open len f) g" "\<not> g_idxDirty g" "GNode g i = Some n" "Tombstone len io now [i, []] g = (r, g')"
  shows "r = Some ErrInvalidNode \<and> GNode g' i = None \<and> n \<in> set (fst (NodesAfter g' (nPos n)))"
proof -
  have ok: "dag_ok g" "\<not> g_closed g" "index_ok g" using reaches_index [OF assms(1)] by simp_all
  have nid: "nID n = i" "i \<noteq> []"
    using ok(1) assms(3) by (auto simp: GNode_def dag_ok_def nodes_ok_def validateNode_iff split: if_splits)
  let ?g = "g\<lparr>g_dead := mput i True (g_dead g), g_pending := g_pending g @ [RecTomb i now]\<rparr>"
  have g': "r = Some ErrInvalidNode" "g' = ?g" using assms(4) nid ok(2) by (simp_all add: Tombstone_def)
  have "fst (NodesAfter ?g (nPos n)) = fst (NodesAfter g (nPos n))" using assms(2) by (simp add: NodesAfter_def withIndex_def)
  also have "\<dots> = filter (\<lambda>m. nPos n \<le> nPos m) (liveNodes g)" by (rule NodesAfter_eq [OF ok(3,2)])
  finally have "n \<in> set (fst (NodesAfter ?g (nPos n)))" using liveNodes_set [OF ok(1,2), of n] assms(3) nid by simp
  moreover have "map_ok (g_dead g)" using ok(1) by (simp add: dag_ok_def dead_ok_def)
  then have "GNode ?g i = None" by (simp add: GNode_def)
  ultimately show ?thesis unfolding g' by simp
qed

definition queried_graph :: graph where
  "queried_graph = foldl (\<lambda>g a. step sample_len a g) (Open sample_len no_log) [OpAddNode IoOk (sample_node id_a KindFile 3), OpNodesAfter 0]"

lemma queried_graph_facts:
  "reaches sample_len safe_op (Open sample_len no_log) queried_graph" "\<not> g_idxDirty queried_graph" "GNode queried_graph id_a = Some (sample_node id_a KindFile 3)"
proof -
  show "reaches sample_len safe_op (Open sample_len no_log) queried_graph"
    unfolding queried_graph_def by (rule reaches_run) (auto intro: reaches.start)
  have v: "validateNode (sample_node id_a KindFile 3) = None" by code_simp
  have e: "queried_graph = withIndex (queue sample_len IoOk (RecNode (sample_node id_a KindFile 3)) (put_node id_a (sample_node id_a KindFile 3) (newGraph no_log)))"
    using v by (simp add: queried_graph_def AddNode_def NodesAfter_def Open_def no_log_def merged_with_def sample_node_def newGraph_def Let_def)
  show "\<not> g_idxDirty queried_graph" unfolding e by simp
  show "GNode queried_graph id_a = Some (sample_node id_a KindFile 3)"
    unfolding e by (simp add: GNode_def queue_def maybeAutoFlush_def newGraph_def mdel_def mget_def)
qed

theorem dag_tombstone_partial_stale_witness:
  "\<exists>g'. Tombstone sample_len IoOk 5 [id_a, []] queried_graph = (Some ErrInvalidNode, g') \<and> GNode g' id_a = None
     \<and> sample_node id_a KindFile 3 \<in> set (fst (NodesAfter g' 3))"
proof -
  obtain r g' where t: "Tombstone sample_len IoOk 5 [id_a, []] queried_graph = (r, g')"
    by (cases "Tombstone sample_len IoOk 5 [id_a, []] queried_graph")
  have "nPos (sample_node id_a KindFile 3) = 3" by (simp add: sample_node_def)
  with dag_tombstone_partial_stale [OF queried_graph_facts t] t show ?thesis by auto
qed

text \<open>C34. A flush to a log that ends in a torn line reports success and empties the queue, but its first
  record is glued to the fragment: the reopened graph is the one without that record, and counts
  one damaged line.\<close>

theorem dag_flush_after_torn_tail:
  assumes "\<not> g_closed g" "g_pending g = r # rs" "0 < f_frag (g_file g)" "f_frag (g_file g) + len (rec_line r) < maxLineBytes"
    "\<forall>l \<in> set (f_lines (g_file g)). good_line len l" "\<forall>q \<in> set (r # rs). valid_rec q \<and> len (rec_line q) < maxLineBytes"
    "\<And>k. len (LMalformed k) = k" "flush len False IoOk g = (e, g')"
  shows "e = None \<and> g_pending g' = []
    \<and> core (Open len (g_file g')) = core (replay (map line_rec (f_lines (g_file g)) @ rs) (newGraph no_log))
    \<and> g_loadErrors (Open len (g_file g')) = 1"
proof -
  let ?bad = "LMalformed (f_frag (g_file g) + len (rec_line r))"
  let ?ls = "f_lines (g_file g)"
  have "\<forall>q \<in> set qs. len (rec_line q) < maxLineBytes \<Longrightarrow> encode_all len qs = Inr (map rec_line qs)" for qs
    by (induction qs) (auto simp: encodeRecord_def Let_def)
  from this [of "r # rs"] have enc: "encode_all len (r # rs) = Inr (rec_line r # map rec_line rs)" using assms(6) by simp
  have e: "e = None" "g_pending g' = []" and fl: "g_file g' = \<lparr>f_lines = ?ls @ ?bad # map rec_line rs, f_frag = 0\<rparr>"
    using assms(1,2,3,8) enc by (auto simp: flush_def append_lines_def)
  let ?f = "g_file g'"
  obtain h where h: "load_lines len ?ls (newGraph ?f) = (False, h)" "core h = core (replay (map line_rec ?ls) (newGraph ?f))" "g_loadErrors h = 0"
    using load_good_lines [OF assms(5), of "newGraph ?f"] by (auto simp: newGraph_def)
  let ?h = "load_line h ?bad"
  have b: "core ?h = core h" "g_loadErrors ?h = 1" using h(3) by (simp_all add: load_line_def)
  have good: "\<forall>l \<in> set (map rec_line rs). good_line len l" "map line_rec (map rec_line rs) = rs"
    using assms(6) good_rec_line by (auto intro!: map_idI)
  obtain k where k: "load_lines len (map rec_line rs) ?h = (False, k)" "core k = core (replay rs ?h)" "g_loadErrors k = 1"
    using load_good_lines [OF good(1), of ?h] good(2) b(2) by auto
  have "load_lines len (f_lines ?f) (newGraph ?f) = (False, k)" using h(1) k(1) assms(4,7) by (simp add: fl load_lines_append)
  then have o: "Open len ?f = k" using fl by (simp add: Open_def)
  have "core (replay rs ?h) = core (replay rs (replay (map line_rec ?ls) (newGraph no_log)))"
    using replay_core [OF b(1), of rs] replay_core [OF h(2), of rs] replay_core [OF replay_core [OF core_newGraph], of rs "map line_rec ?ls" ?f no_log] by simp
  then show ?thesis using e k(2,3) o by simp
qed

definition torn_len :: "line \<Rightarrow> nat" where
  "torn_len l = (case l of LMalformed k \<Rightarrow> k | _ \<Rightarrow> 100)"

definition torn_graph :: graph where
  "torn_graph = snd (Tombstone torn_len IoRefused 5 [id_a, id_b] (Open torn_len \<lparr>f_lines = [], f_frag = 7\<rparr>))"

theorem dag_flush_after_torn_tail_witness:
  "\<exists>g'. flush torn_len False IoOk torn_graph = (None, g') \<and> g_dead torn_graph = [(id_a, True), (id_b, True)]
     \<and> g_dead (Open torn_len (g_file g')) = [(id_b, True)]"
proof -
  obtain e g' where f: "flush torn_len False IoOk torn_graph = (e, g')" by (cases "flush torn_len False IoOk torn_graph")
  have ids: "id_a \<noteq> []" "id_b \<noteq> []" "id_a < id_b" "valid_utf8 id_a" "valid_utf8 id_b" by code_simp+
  have g: "\<not> g_closed torn_graph" "g_pending torn_graph = [RecTomb id_a 5, RecTomb id_b 5]" "g_file torn_graph = \<lparr>f_lines = [], f_frag = 7\<rparr>"
    "g_dead torn_graph = [(id_a, True), (id_b, True)]"
    using ids by (auto simp: torn_graph_def Tombstone_def Open_def newGraph_def maybeAutoFlush_def)
  have "e = None \<and> g_pending g' = []
    \<and> core (Open torn_len (g_file g')) = core (replay (map line_rec (f_lines (g_file torn_graph)) @ [RecTomb id_b 5]) (newGraph no_log))
    \<and> g_loadErrors (Open torn_len (g_file g')) = 1"
    by (rule dag_flush_after_torn_tail [OF g(1,2) _ _ _ _ _ f]) (use g ids in \<open>auto simp: torn_len_def\<close>)
  then show ?thesis using f g(3,4) ids by (auto simp: core_def apply1_def newGraph_def)
qed

text \<open>A record whose line is exactly as long as the limit is accepted by the encoder and cannot be read
  back: loading stops at it, whatever records follow.\<close>

theorem dag_longest_record_unreadable:
  assumes "len (rec_line r) = maxLineBytes" "\<forall>l \<in> set ls. good_line len l"
  shows "encodeRecord len r = Inr (rec_line r)
    \<and> core (Open len \<lparr>f_lines = ls @ rec_line r # ms, f_frag = 0\<rparr>) = core (replay (map line_rec ls) (newGraph no_log))
    \<and> g_loadErrors (Open len \<lparr>f_lines = ls @ rec_line r # ms, f_frag = 0\<rparr>) = 1"
proof -
  let ?f = "\<lparr>f_lines = ls @ rec_line r # ms, f_frag = 0\<rparr>"
  obtain h where h: "load_lines len ls (newGraph ?f) = (False, h)" "core h = core (replay (map line_rec ls) (newGraph ?f))" "g_loadErrors h = 0"
    using load_good_lines [OF assms(2), of "newGraph ?f"] by (auto simp: newGraph_def)
  have "load_lines len (f_lines ?f) (newGraph ?f) = (True, h)" using h(1) assms(1) by (simp add: load_lines_append)
  then have "Open len ?f = h\<lparr>g_loadErrors := g_loadErrors h + 1\<rparr>" by (simp add: Open_def)
  moreover have "core h = core (replay (map line_rec ls) (newGraph no_log))"
    unfolding h(2) by (rule replay_core [OF core_newGraph])
  ultimately show ?thesis using h(3) assms(1) by (simp add: encodeRecord_def)
qed

theorem dag_longest_record_unreadable_witness:
  "encodeRecord (\<lambda>_. maxLineBytes) (RecTomb id_a 1) = Inr (LTomb (json_str id_a) 1)
   \<and> g_loadErrors (Open (\<lambda>_. maxLineBytes) \<lparr>f_lines = [LTomb (json_str id_a) 1, LTomb id_b 2], f_frag = 0\<rparr>) = 1"
  using dag_longest_record_unreadable [of "\<lambda>_. maxLineBytes" "RecTomb id_a 1" "[]" "[LTomb id_b 2]"] by simp

end
