(* ===== verification/DagBuild.thy ===== *)
theory DagBuild
  imports DagReplay
begin

text \<open>
  The builders of \<^verbatim>\<open>internal/dag/builders.go\<close>: each turns one observation into calls of the \<^verbatim>\<open>Graph\<close>
  interface, collecting the errors of the calls with \<^verbatim>\<open>errors.Join\<close>.  They are written against a record of
  the interface's methods, as the code is against the interface.  The contract they rely on is the
  locale \<open>graph_contract\<close>, which the graph of this package satisfies with any behaviour of the disk.
\<close>

abbreviation EdgeSequence :: byte where "EdgeSequence \<equiv> 0"
abbreviation EdgeProduces :: byte where "EdgeProduces \<equiv> 1"
abbreviation EdgeConsumes :: byte where "EdgeConsumes \<equiv> 2"
abbreviation EdgeSharedFile :: byte where "EdgeSharedFile \<equiv> 3"
abbreviation EdgeSharedSymbol :: byte where "EdgeSharedSymbol \<equiv> 4"
abbreviation EdgeSupersedes :: byte where "EdgeSupersedes \<equiv> 5"
abbreviation EdgeExplains :: byte where "EdgeExplains \<equiv> 6"

section \<open>The interface and the observations\<close>

record 's graph_api =
  api_AddNode :: "Node \<Rightarrow> 's \<Rightarrow> dag_error option \<times> 's"
  api_AddEdge :: "Edge \<Rightarrow> 's \<Rightarrow> dag_error option \<times> 's"
  api_Out :: "'s \<Rightarrow> NodeID \<Rightarrow> Edge list"
  api_In :: "'s \<Rightarrow> NodeID \<Rightarrow> Edge list"

record ObservedTool =
  oToolUseID :: bytes
  oPrevToolUseID :: bytes
  oPrevTurn :: int
  oSupersedes :: bytes
  oTurn :: int
  oTS :: int
  oPos :: int
  oResultPos :: int
  oTool :: bytes
  oPathKey :: bytes
  oWrites :: bool
  oSymbols :: "bytes list"
  oRoot :: hash
  oTokens :: int
  oEphemeral :: bool

record ObservedPrompt =
  pTurn :: int
  pTS :: int
  pPos :: int
  pTokens :: int
  pRef :: bytes

record DecisionSpec =
  dID :: bytes
  dTurn :: int
  dTS :: int
  dPos :: int
  dTokens :: int
  dEvidence :: "NodeID list"
  dSummary :: bytes

record EliminationSpec =
  elRecordID :: bytes
  elTurn :: int
  elTS :: int
  elPos :: int
  elPathKey :: bytes
  elSymbol :: bytes
  elEvidence :: "NodeID list"

record SegmentSpec =
  sgID :: int
  sgPrevID :: int
  sgStartTurn :: int
  sgEndTurn :: int
  sgTS :: int
  sgStartPos :: int
  sgTokens :: int
  sgMembers :: "NodeID list"

text \<open>A composite literal with the fields it leaves out at their zero values.\<close>

definition zeroHash :: hash where "zeroHash = replicate 32 0"

definition node0 :: Node where
  "node0 = \<lparr>nID = [], nKind = 0, nTurn = 0, nTS = 0, nPos = 0, nRef = [], nRoot = zeroHash, nTokens = 0, nEphemeral = False\<rparr>"

definition full_edge :: "NodeID \<Rightarrow> NodeID \<Rightarrow> byte \<Rightarrow> int \<Rightarrow> Edge" where
  "full_edge from to kind turn = \<lparr>eFrom = from, eTo = to, eKind = kind, eWeight = f32_one, eTurn = turn\<rparr>"

text \<open>A sequence of calls and the errors it collects, as \<^verbatim>\<open>errors.Join\<close> keeps them: none is success.\<close>

fun calls :: "('s \<Rightarrow> dag_error option \<times> 's) list \<Rightarrow> 's \<Rightarrow> dag_error list \<times> 's" where
  "calls [] s = ([], s)"
| "calls (c # cs) s =
     (case c s of (e, s') \<Rightarrow> case calls cs s' of (es, s'') \<Rightarrow> ((case e of None \<Rightarrow> es | Some x \<Rightarrow> x # es), s''))"

section \<open>The builders\<close>

definition sortedUniqueSymbols :: "bytes list \<Rightarrow> bytes list" where
  "sortedUniqueSymbols names = sort (remdups (filter (\<lambda>n. n \<noteq> []) names))"

definition sharedStateEdge :: "NodeID \<Rightarrow> NodeID \<Rightarrow> byte \<Rightarrow> ObservedTool \<Rightarrow> Edge" where
  "sharedStateEdge anchor use kind t =
     (if oWrites t then full_edge use anchor kind (oTurn t) else full_edge anchor use kind (oTurn t))"

definition sharesState :: "'s graph_api \<Rightarrow> 's \<Rightarrow> bytes \<Rightarrow> bytes \<Rightarrow> bytes list \<Rightarrow> bool" where
  "sharesState api s prev pathKey symbols =
     (if pathKey = [] \<and> symbols = [] then False
      else let prevUse = ToolUseNode prev;
               shared = filter (\<lambda>e. eKind e = EdgeSharedFile \<or> eKind e = EdgeSharedSymbol);
               anchors = map eTo (shared (api_Out api s prevUse)) @ map eFrom (shared (api_In api s prevUse))
           in pathKey \<noteq> [] \<and> List.member anchors (FileNode pathKey)
              \<or> list_ex (\<lambda>name. name \<noteq> [] \<and> List.member anchors (SymbolNode pathKey name)) symbols)"

definition turnLinkKind :: "'s graph_api \<Rightarrow> 's \<Rightarrow> ObservedTool \<Rightarrow> byte" where
  "turnLinkKind api s t =
     (if oPrevToolUseID t = [] then EdgeSequence
      else if sharesState api s (oPrevToolUseID t) (oPathKey t) (oSymbols t) then EdgeSequence
      else EdgeControlOnly)"

definition symbol_calls :: "'s graph_api \<Rightarrow> NodeID \<Rightarrow> ObservedTool \<Rightarrow> bytes \<Rightarrow> ('s \<Rightarrow> dag_error option \<times> 's) list" where
  "symbol_calls api use t name =
     (let symbol = SymbolNode (oPathKey t) name
      in [api_AddNode api (node0\<lparr>nID := symbol, nKind := KindSymbol, nTurn := oTurn t, nTS := oTS t, nPos := oPos t, nRef := name\<rparr>),
          api_AddEdge api (sharedStateEdge symbol use EdgeSharedSymbol t)])"

definition BuildToolUse :: "'s graph_api \<Rightarrow> ObservedTool \<Rightarrow> 's \<Rightarrow> dag_error list \<times> 's" where
  "BuildToolUse api t s =
     (if oToolUseID t = [] then ([ErrInvalidNode], s)
      else if oPrevToolUseID t \<noteq> [] \<and> oPrevTurn t > oTurn t then ([ErrInvalidEdge], s)
      else let use = ToolUseNode (oToolUseID t); result = ToolResultNode (oToolUseID t); assistant = AssistantNode (oTurn t);
               resultPos = (if oResultPos t = 0 then oPos t else oResultPos t)
           in calls
             ([api_AddNode api (node0\<lparr>nID := use, nKind := KindToolUse, nTurn := oTurn t, nTS := oTS t, nPos := oPos t,
                  nRef := oTool t, nEphemeral := oEphemeral t\<rparr>),
               api_AddNode api (node0\<lparr>nID := result, nKind := KindToolResult, nTurn := oTurn t, nTS := oTS t, nPos := resultPos,
                  nRef := oToolUseID t, nRoot := oRoot t, nTokens := oTokens t, nEphemeral := oEphemeral t\<rparr>),
               api_AddEdge api (full_edge use result EdgeProduces (oTurn t)),
               api_AddNode api (node0\<lparr>nID := assistant, nKind := KindAssistant, nTurn := oTurn t, nTS := oTS t, nPos := oPos t\<rparr>)]
              @ (if oPrevToolUseID t \<noteq> [] \<and> oPrevTurn t < oTurn t
                 then [api_AddEdge api (full_edge (ToolResultNode (oPrevToolUseID t)) assistant EdgeConsumes (oTurn t))] else [])
              @ [\<lambda>s. api_AddEdge api (full_edge assistant use (turnLinkKind api s t) (oTurn t)) s]
              @ (if oPathKey t \<noteq> []
                 then [api_AddNode api (node0\<lparr>nID := FileNode (oPathKey t), nKind := KindFile, nTurn := oTurn t, nTS := oTS t,
                         nPos := oPos t, nRef := oPathKey t\<rparr>),
                       api_AddEdge api (sharedStateEdge (FileNode (oPathKey t)) use EdgeSharedFile t)] else [])
              @ concat (map (symbol_calls api use t) (sortedUniqueSymbols (oSymbols t)))
              @ (if oSupersedes t \<noteq> []
                 then [api_AddEdge api (full_edge (ToolUseNode (oSupersedes t)) use EdgeSupersedes (oTurn t))] else [])) s)"

definition BuildUserPrompt :: "'s graph_api \<Rightarrow> ObservedPrompt \<Rightarrow> 's \<Rightarrow> dag_error list \<times> 's" where
  "BuildUserPrompt api p s =
     (let prompt = UserPromptNode (pTurn p)
      in calls [api_AddNode api (node0\<lparr>nID := prompt, nKind := KindUserPrompt, nTurn := pTurn p, nTS := pTS p, nPos := pPos p,
                   nTokens := pTokens p, nRef := pRef p\<rparr>),
                api_AddEdge api (full_edge prompt (AssistantNode (pTurn p)) EdgeConsumes (pTurn p))] s)"

text \<open>The cut backs off to a rune boundary, as the head of a long key does.\<close>

definition truncateOnRuneBoundary :: "bytes \<Rightarrow> nat \<Rightarrow> bytes" where
  "truncateOnRuneBoundary s limit = (if length s \<le> limit then s else take (back_off s limit) s)"

abbreviation decisionSummaryMaxBytes :: nat where "decisionSummaryMaxBytes \<equiv> 128"

definition BuildDecision :: "'s graph_api \<Rightarrow> DecisionSpec \<Rightarrow> 's \<Rightarrow> dag_error list \<times> 's" where
  "BuildDecision api d s =
     (if dID d = [] then ([ErrInvalidNode], s)
      else let decision = DecisionNode (dID d)
           in calls (api_AddNode api (node0\<lparr>nID := decision, nKind := KindDecision, nTurn := dTurn d, nTS := dTS d, nPos := dPos d,
                       nTokens := dTokens d, nRef := truncateOnRuneBoundary (dSummary d) decisionSummaryMaxBytes\<rparr>)
                # map (\<lambda>evidence. api_AddEdge api (full_edge evidence decision EdgeExplains (dTurn d))) (dEvidence d)) s)"

definition BuildElimination :: "'s graph_api \<Rightarrow> EliminationSpec \<Rightarrow> 's \<Rightarrow> dag_error list \<times> 's" where
  "BuildElimination api e s =
     (if elRecordID e = [] then ([ErrInvalidNode], s)
      else let elimination = EliminationNode (elRecordID e);
               ref = (if elPathKey e = [] then elSymbol e else elPathKey e)
           in calls
             ([api_AddNode api (node0\<lparr>nID := elimination, nKind := KindElimination, nTurn := elTurn e, nTS := elTS e, nPos := elPos e, nRef := ref\<rparr>)]
              @ map (\<lambda>evidence. api_AddEdge api (full_edge evidence elimination EdgeExplains (elTurn e))) (elEvidence e)
              @ (if elPathKey e \<noteq> [] then [api_AddEdge api (full_edge (FileNode (elPathKey e)) elimination EdgeSharedFile (elTurn e))] else [])
              @ (if elSymbol e \<noteq> []
                 then [api_AddEdge api (full_edge (SymbolNode (elPathKey e) (elSymbol e)) elimination EdgeSharedSymbol (elTurn e))] else [])) s)"

definition BuildSegment :: "'s graph_api \<Rightarrow> SegmentSpec \<Rightarrow> 's \<Rightarrow> dag_error list \<times> 's" where
  "BuildSegment api g s =
     (if sgID g = 0 then ([ErrInvalidNode], s)
      else let segment = SegmentNode (sgID g);
               ref = Itoa (sgStartTurn g) @ [0x2D] @ Itoa (sgEndTurn g)
           in calls
             ([api_AddNode api (node0\<lparr>nID := segment, nKind := KindSegment, nTurn := sgStartTurn g, nTS := sgTS g, nPos := sgStartPos g,
                 nTokens := sgTokens g, nRef := ref\<rparr>)]
              @ map (\<lambda>member. api_AddEdge api (full_edge member segment EdgeSequence (sgStartTurn g))) (sgMembers g)
              @ (if sgPrevID g \<noteq> 0 then [api_AddEdge api (full_edge (SegmentNode (sgPrevID g)) segment EdgeSequence (sgStartTurn g))] else [])) s)"

section \<open>Identifiers and records that validate\<close>

lemma Itoa_nonempty [simp]: "Itoa i \<noteq> []"
proof -
  have "digits n \<noteq> []" for n by (subst digits.simps) simp
  then show ?thesis by (simp add: Itoa_def)
qed

lemmas id_defs = ToolUseNode_def ToolResultNode_def AssistantNode_def UserPromptNode_def FileNode_def SymbolNode_def
  DecisionNode_def EliminationNode_def SegmentNode_def

lemma newNodeID_inj:
  assumes "newNodeID k a = newNodeID k' b" "k < KindInvalid" "k' < KindInvalid" "a \<noteq> []" "b \<noteq> []"
  shows "k = k' \<and> sanitizeKey a = sanitizeKey b"
  using ParseNodeID_new [OF assms(2,4)] ParseNodeID_new [OF assms(3,5)] assms(1) by simp

lemma validateNode_new:
  assumes "nID n = newNodeID (nKind n) key" "nKind n < KindInvalid" "key \<noteq> []" "0 \<le> nPos n" "0 \<le> nTokens n"
  shows "validateNode n = None"
proof -
  have "newNodeID (nKind n) key \<noteq> []" by (simp add: newNodeID_def)
  then show ?thesis using assms ParseNodeID_new [OF assms(2,3)] by (simp add: validateNode_iff)
qed

lemma ends_ok_new:
  assumes "a = newNodeID k x" "b = newNodeID k' y" "k < KindInvalid" "k' < KindInvalid" "x \<noteq> []" "y \<noteq> []"
    "k \<noteq> k' \<or> sanitizeKey x \<noteq> sanitizeKey y" "kind \<le> EdgeControlOnly"
  shows "ends_ok (full_edge a b kind t)"
proof -
  have "a \<noteq> b" using newNodeID_inj [of k x k' y] assms by auto
  then show ?thesis using ParseNodeID_new [OF assms(3,5)] ParseNodeID_new [OF assms(4,6)] assms(1,2,8) by (simp add: ends_ok_def full_edge_def)
qed

lemma turnLinkKind_range: "turnLinkKind api s t \<le> EdgeControlOnly"
  by (simp add: turnLinkKind_def)

lemma node0_fields [simp]: "nPos node0 = 0" "nTokens node0 = 0"
  by (simp_all add: node0_def)

lemma set_sortedUniqueSymbols [simp]: "set (sortedUniqueSymbols names) = {n \<in> set names. n \<noteq> []}"
  by (auto simp: sortedUniqueSymbols_def)

section \<open>The contract of the interface\<close>

definition shared_key :: "bool \<Rightarrow> NodeID \<Rightarrow> NodeID \<Rightarrow> byte \<Rightarrow> edgeKey" where
  "shared_key writes anchor use kind = (if writes then (use, anchor, kind) else (anchor, use, kind))"

datatype graph_fact = HasNode NodeID | HasEdge edgeKey | HasLink NodeID NodeID

text \<open>What each builder puts into the graph, one fact per call, with the earlier end of an edge first.\<close>

definition symbol_facts :: "ObservedTool \<Rightarrow> bytes \<Rightarrow> graph_fact list" where
  "symbol_facts t name =
     [HasNode (SymbolNode (oPathKey t) name), HasEdge (shared_key (oWrites t) (SymbolNode (oPathKey t) name) (ToolUseNode (oToolUseID t)) EdgeSharedSymbol)]"

definition tool_facts :: "ObservedTool \<Rightarrow> graph_fact list" where
  "tool_facts t =
     (let use = ToolUseNode (oToolUseID t); result = ToolResultNode (oToolUseID t); assistant = AssistantNode (oTurn t)
      in [HasNode use, HasNode result, HasEdge (use, result, EdgeProduces), HasNode assistant]
         @ (if oPrevToolUseID t \<noteq> [] \<and> oPrevTurn t < oTurn t then [HasEdge (ToolResultNode (oPrevToolUseID t), assistant, EdgeConsumes)] else [])
         @ [HasLink assistant use]
         @ (if oPathKey t \<noteq> [] then [HasNode (FileNode (oPathKey t)), HasEdge (shared_key (oWrites t) (FileNode (oPathKey t)) use EdgeSharedFile)] else [])
         @ concat (map (symbol_facts t) (sortedUniqueSymbols (oSymbols t)))
         @ (if oSupersedes t \<noteq> [] then [HasEdge (ToolUseNode (oSupersedes t), use, EdgeSupersedes)] else []))"

definition decision_facts :: "DecisionSpec \<Rightarrow> graph_fact list" where
  "decision_facts d = HasNode (DecisionNode (dID d)) # map (\<lambda>e. HasEdge (e, DecisionNode (dID d), EdgeExplains)) (dEvidence d)"

definition elimination_facts :: "EliminationSpec \<Rightarrow> graph_fact list" where
  "elimination_facts e =
     (let el = EliminationNode (elRecordID e)
      in [HasNode el] @ map (\<lambda>v. HasEdge (v, el, EdgeExplains)) (elEvidence e)
         @ (if elPathKey e \<noteq> [] then [HasEdge (FileNode (elPathKey e), el, EdgeSharedFile)] else [])
         @ (if elSymbol e \<noteq> [] then [HasEdge (SymbolNode (elPathKey e) (elSymbol e), el, EdgeSharedSymbol)] else []))"

definition segment_facts :: "SegmentSpec \<Rightarrow> graph_fact list" where
  "segment_facts g =
     (let sg = SegmentNode (sgID g)
      in [HasNode sg] @ map (\<lambda>m. HasEdge (m, sg, EdgeSequence)) (sgMembers g)
         @ (if sgPrevID g \<noteq> 0 then [HasEdge (SegmentNode (sgPrevID g), sg, EdgeSequence)] else []))"

definition prompt_facts :: "ObservedPrompt \<Rightarrow> graph_fact list" where
  "prompt_facts p = [HasNode (UserPromptNode (pTurn p)), HasEdge (UserPromptNode (pTurn p), AssistantNode (pTurn p), EdgeConsumes)]"

locale graph_contract =
  fixes api :: "'s graph_api"
    and ok :: "'s \<Rightarrow> bool"
    and holds :: "'s \<Rightarrow> graph_fact \<Rightarrow> bool"
  assumes add_node: "ok s \<Longrightarrow> validateNode n = None \<Longrightarrow>
      \<exists>s'. api_AddNode api n s = (None, s') \<and> ok s' \<and> (\<forall>f. holds s f \<longrightarrow> holds s' f) \<and> holds s' (HasNode (nID n))"
    and add_edge: "ok s \<Longrightarrow> ends_ok e \<Longrightarrow> \<not> f32_nonfinite (eWeight e) \<Longrightarrow>
      \<exists>s'. api_AddEdge api e s = (None, s') \<and> ok s' \<and> (\<forall>f. holds s f \<longrightarrow> holds s' f)
        \<and> holds s' (HasEdge (edge_key e)) \<and> holds s' (HasLink (eFrom e) (eTo e))"
begin

text \<open>A call that succeeds, keeps every fact and adds the fact \<open>f\<close>.\<close>

definition establishes :: "('s \<Rightarrow> dag_error option \<times> 's) \<Rightarrow> graph_fact \<Rightarrow> bool" where
  "establishes c f \<longleftrightarrow> (\<forall>s. ok s \<longrightarrow> (\<exists>s'. c s = (None, s') \<and> ok s' \<and> (\<forall>x. holds s x \<longrightarrow> holds s' x) \<and> holds s' f))"

lemma calls_establish:
  assumes "list_all2 establishes cs fs" "ok s"
  shows "\<exists>s'. calls cs s = ([], s') \<and> ok s' \<and> (\<forall>x. holds s x \<longrightarrow> holds s' x) \<and> list_all (holds s') fs"
  using assms
proof (induction cs fs arbitrary: s rule: list_all2_induct)
  case (Cons c cs f fs)
  from Cons(1) Cons.prems obtain s1 where s1: "c s = (None, s1)" "ok s1" "\<forall>x. holds s x \<longrightarrow> holds s1 x" "holds s1 f"
    unfolding establishes_def by blast
  from Cons.IH [OF s1(2)] obtain s2 where s2: "calls cs s1 = ([], s2)" "ok s2" "\<forall>x. holds s1 x \<longrightarrow> holds s2 x" "list_all (holds s2) fs"
    by blast
  have "calls (c # cs) s = ([], s2)" using s1(1) s2(1) by simp
  then show ?case using s1 s2 by auto
qed simp

lemma establishes_node:
  assumes "nID n = newNodeID (nKind n) key" "nKind n < KindInvalid" "key \<noteq> []" "0 \<le> nPos n" "0 \<le> nTokens n"
  shows "establishes (api_AddNode api n) (HasNode (nID n))"
  unfolding establishes_def using add_node [OF _ validateNode_new [OF assms]] by blast

lemma establishes_nodeI:
  assumes "nID n = newNodeID k key" "nKind n = k" "k < KindInvalid" "key \<noteq> []" "0 \<le> nPos n" "0 \<le> nTokens n"
  shows "establishes (api_AddNode api n) (HasNode (newNodeID k key))"
  using establishes_node [of n key] assms by simp

lemma add_full_edge:
  assumes "ok s" "ends_ok (full_edge a b k t)"
  shows "\<exists>s'. api_AddEdge api (full_edge a b k t) s = (None, s') \<and> ok s' \<and> (\<forall>x. holds s x \<longrightarrow> holds s' x) \<and> holds s' (HasEdge (a, b, k)) \<and> holds s' (HasLink a b)"
proof -
  have "\<not> f32_nonfinite (eWeight (full_edge a b k t))" using weight_ok_one by (simp add: full_edge_def weight_ok_def)
  from add_edge [OF assms this] show ?thesis by (simp add: full_edge_def edge_key_def)
qed

lemma establishes_edge: "ends_ok (full_edge a b k t) \<Longrightarrow> establishes (api_AddEdge api (full_edge a b k t)) (HasEdge (a, b, k))"
  unfolding establishes_def using add_full_edge by blast

lemma establishes_link: "(\<And>s. ends_ok (full_edge a b (k s) t)) \<Longrightarrow> establishes (\<lambda>s. api_AddEdge api (full_edge a b (k s) t) s) (HasLink a b)"
  unfolding establishes_def using add_full_edge by blast

lemma establishes_new_edge:
  assumes "k < KindInvalid" "k' < KindInvalid" "x \<noteq> []" "y \<noteq> []" "k \<noteq> k' \<or> sanitizeKey x \<noteq> sanitizeKey y" "kind \<le> EdgeControlOnly"
  shows "establishes (api_AddEdge api (full_edge (newNodeID k x) (newNodeID k' y) kind t)) (HasEdge (newNodeID k x, newNodeID k' y, kind))"
  using ends_ok_new [OF refl refl assms] by (rule establishes_edge)

lemma establishes_shared:
  assumes "k < KindInvalid" "0 < k" "x \<noteq> []" "i \<noteq> []" "kind \<le> EdgeControlOnly"
  shows "establishes (api_AddEdge api (sharedStateEdge (newNodeID k x) (newNodeID KindToolUse i) kind t))
    (HasEdge (shared_key (oWrites t) (newNodeID k x) (newNodeID KindToolUse i) kind))"
  using assms by (auto simp: sharedStateEdge_def shared_key_def intro!: establishes_new_edge)

lemma symbol_calls_establish:
  assumes "oToolUseID t \<noteq> []" "0 \<le> oPos t"
  shows "list_all2 establishes (symbol_calls api (ToolUseNode (oToolUseID t)) t name) (symbol_facts t name)"
  using assms unfolding symbol_calls_def symbol_facts_def Let_def id_defs
  by (auto intro!: establishes_nodeI establishes_shared)

lemma concat_establish: "(\<And>x. x \<in> set xs \<Longrightarrow> list_all2 establishes (f x) (F x)) \<Longrightarrow> list_all2 establishes (concat (map f xs)) (concat (map F xs))"
  by (induction xs) (auto intro: list_all2_appendI)

lemma if_establish: "(b \<Longrightarrow> list_all2 establishes cs fs) \<Longrightarrow> list_all2 establishes (if b then cs else []) (if b then fs else [])"
  by simp

lemma BuildToolUse_contract:
  assumes "ok s" "oToolUseID t \<noteq> []" "oPrevToolUseID t = [] \<or> oPrevTurn t \<le> oTurn t" "0 \<le> oPos t" "0 \<le> oResultPos t" "0 \<le> oTokens t"
    "sanitizeKey (oSupersedes t) \<noteq> sanitizeKey (oToolUseID t)"
  shows "\<exists>s'. BuildToolUse api t s = ([], s') \<and> ok s' \<and> (\<forall>x. holds s x \<longrightarrow> holds s' x) \<and> list_all (holds s') (tool_facts t)"
proof -
  have c: "\<not> (oPrevToolUseID t \<noteq> [] \<and> oPrevTurn t > oTurn t)" using assms(3) by auto
  have l: "establishes (\<lambda>s. api_AddEdge api (full_edge (AssistantNode (oTurn t)) (ToolUseNode (oToolUseID t)) (turnLinkKind api s t) (oTurn t)) s)
      (HasLink (AssistantNode (oTurn t)) (ToolUseNode (oToolUseID t)))"
    by (intro establishes_link ends_ok_new [of _ KindAssistant "Itoa (oTurn t)" _ KindToolUse "oToolUseID t"] turnLinkKind_range)
      (simp_all add: AssistantNode_def ToolUseNode_def assms(2))
  show ?thesis
    unfolding BuildToolUse_def tool_facts_def Let_def if_not_P [OF assms(2)] if_not_P [OF c]
  proof (intro calls_establish [OF _ assms(1)] list_all2_appendI concat_establish if_establish symbol_calls_establish)
  qed (use assms(2-) l in \<open>auto simp: id_defs intro!: establishes_nodeI establishes_new_edge establishes_shared\<close>)
qed

lemma establishes_into:
  assumes "ParseNodeID v \<noteq> None" "v \<noteq> newNodeID k key" "k < KindInvalid" "key \<noteq> []" "kind \<le> EdgeControlOnly"
  shows "establishes (api_AddEdge api (full_edge v (newNodeID k key) kind t)) (HasEdge (v, newNodeID k key, kind))"
  using assms ParseNodeID_new [OF assms(3,4)] by (intro establishes_edge) (auto simp: ends_ok_def full_edge_def)

lemma map_establish: "(\<And>x. x \<in> set xs \<Longrightarrow> establishes (f x) (F x)) \<Longrightarrow> list_all2 establishes (map f xs) (map F xs)"
  by (simp add: list_all2_conv_all_nth)

lemma BuildUserPrompt_contract:
  assumes "ok s" "0 \<le> pPos p" "0 \<le> pTokens p"
  shows "\<exists>s'. BuildUserPrompt api p s = ([], s') \<and> ok s' \<and> (\<forall>x. holds s x \<longrightarrow> holds s' x) \<and> list_all (holds s') (prompt_facts p)"
  unfolding BuildUserPrompt_def prompt_facts_def Let_def
  by (intro calls_establish [OF _ assms(1)]) (use assms(2,3) in \<open>auto simp: id_defs intro!: establishes_nodeI establishes_new_edge\<close>)

lemma BuildDecision_contract:
  assumes "ok s" "dID d \<noteq> []" "0 \<le> dPos d" "0 \<le> dTokens d" "\<forall>v \<in> set (dEvidence d). ParseNodeID v \<noteq> None \<and> v \<noteq> DecisionNode (dID d)"
  shows "\<exists>s'. BuildDecision api d s = ([], s') \<and> ok s' \<and> (\<forall>x. holds s x \<longrightarrow> holds s' x) \<and> list_all (holds s') (decision_facts d)"
  unfolding BuildDecision_def decision_facts_def Let_def if_not_P [OF assms(2)]
  by (intro calls_establish [OF _ assms(1)] list_all2_Cons [THEN iffD2] conjI map_establish)
    (use assms(2-) in \<open>auto simp: id_defs intro!: establishes_nodeI establishes_into\<close>)

lemma BuildElimination_contract:
  assumes "ok s" "elRecordID e \<noteq> []" "0 \<le> elPos e" "\<forall>v \<in> set (elEvidence e). ParseNodeID v \<noteq> None \<and> v \<noteq> EliminationNode (elRecordID e)"
  shows "\<exists>s'. BuildElimination api e s = ([], s') \<and> ok s' \<and> (\<forall>x. holds s x \<longrightarrow> holds s' x) \<and> list_all (holds s') (elimination_facts e)"
proof -
  have ev: "establishes (api_AddEdge api (full_edge v (newNodeID KindElimination (elRecordID e)) EdgeExplains (elTurn e)))
      (HasEdge (v, newNodeID KindElimination (elRecordID e), EdgeExplains))" if "v \<in> set (elEvidence e)" for v
    using assms(2,4) that by (intro establishes_into) (auto simp: EliminationNode_def)
  show ?thesis
    unfolding BuildElimination_def elimination_facts_def Let_def if_not_P [OF assms(2)]
    by (intro calls_establish [OF _ assms(1)] list_all2_appendI map_establish if_establish)
      (use assms(2,3) ev in \<open>auto simp: id_defs intro!: establishes_nodeI establishes_new_edge\<close>)
qed

lemma BuildSegment_contract:
  assumes "ok s" "sgID g \<noteq> 0" "0 \<le> sgStartPos g" "0 \<le> sgTokens g" "\<forall>v \<in> set (sgMembers g). ParseNodeID v \<noteq> None \<and> v \<noteq> SegmentNode (sgID g)"
    "SegmentNode (sgPrevID g) \<noteq> SegmentNode (sgID g)"
  shows "\<exists>s'. BuildSegment api g s = ([], s') \<and> ok s' \<and> (\<forall>x. holds s x \<longrightarrow> holds s' x) \<and> list_all (holds s') (segment_facts g)"
proof -
  have "ParseNodeID (SegmentNode i) \<noteq> None" for i using ParseNodeID_new [of KindSegment "Itoa i"] by (simp add: SegmentNode_def)
  then show ?thesis
    unfolding BuildSegment_def segment_facts_def Let_def if_not_P [OF assms(2)]
    by (intro calls_establish [OF _ assms(1)] list_all2_appendI map_establish if_establish)
      (use assms(2-) in \<open>auto simp: id_defs intro!: establishes_nodeI establishes_into\<close>)
qed

end

section \<open>The graph satisfies the contract\<close>

text \<open>The methods of the graph, each consuming the outcome of the flush it may start.\<close>

definition dag_api :: "(line \<Rightarrow> nat) \<Rightarrow> (graph \<times> io list) graph_api" where
  "dag_api len =
     (let next_io = (\<lambda>ios. case ios of [] \<Rightarrow> IoOk | io # _ \<Rightarrow> io)
      in \<lparr>api_AddNode = (\<lambda>n (g, ios). case AddNode len (next_io ios) n g of (e, g') \<Rightarrow> (e, g', tl ios)),
          api_AddEdge = (\<lambda>e (g, ios). case AddEdge len (next_io ios) e g of (err, g') \<Rightarrow> (err, g', tl ios)),
          api_Out = (\<lambda>(g, ios) i. Out g i), api_In = (\<lambda>(g, ios) i. In g i)\<rparr>)"

fun graph_holds :: "graph \<Rightarrow> graph_fact \<Rightarrow> bool" where
  "graph_holds g (HasNode i) = (GNode g i \<noteq> None)"
| "graph_holds g (HasEdge k) = list_ex (\<lambda>e. edge_key e = k) (g_edges g)"
| "graph_holds g (HasLink a b) = list_ex (\<lambda>e. eFrom e = a \<and> eTo e = b) (g_edges g)"

lemma core_queue [simp]: "core (queue len io r g) = core g"
proof -
  have "core (snd (flush len c io h)) = core h" for c h by (cases rule: flush_cases [of len c io h]) simp_all
  then show ?thesis by (simp add: queue_def maybeAutoFlush_def)
qed

lemma graph_holds_core: "core g = core h \<Longrightarrow> g_closed g = g_closed h \<Longrightarrow> graph_holds g = graph_holds h"
proof
  fix f assume "core g = core h" "g_closed g = g_closed h"
  then show "graph_holds g f = graph_holds h f" by (cases f) (simp_all add: core_def GNode_def)
qed

lemma graph_holds_queue [simp]: "graph_holds (queue len io r g) = graph_holds g"
  by (rule graph_holds_core) simp_all

lemma AddNode_contract:
  assumes "dag_ok g" "\<not> g_closed g" "validateNode n = None"
  obtains g' where "AddNode len io n g = (None, g')" "dag_ok g'" "\<not> g_closed g'"
    "\<forall>x. graph_holds g x \<longrightarrow> graph_holds g' x" "graph_holds g' (HasNode (nID n))"
proof -
  let ?g = "put_node (nID n) (merged_with g n) g"
  have m: "map_ok (g_nodes g)" "map_ok (g_dead g)" using assms(1) by (simp_all add: dag_ok_def nodes_ok_def dead_ok_def)
  have "graph_holds ?g x" if "graph_holds g x" for x
    using that m by (cases x) (auto simp: GNode_def mget_def map_of_mdel split: if_splits option.splits)
  moreover have "graph_holds ?g (HasNode (nID n))" using m assms(2) by (simp add: GNode_def mget_def map_of_mdel)
  ultimately show thesis using assms that [of "queue len io (RecNode (merged_with g n)) ?g"]
    by (auto simp: AddNode_def Let_def queue_ok put_node_ok)
qed

lemma AddEdge_contract:
  assumes "dag_ok g" "\<not> g_closed g" "ends_ok e" "\<not> f32_nonfinite (eWeight e)"
  obtains g' where "AddEdge len io e g = (None, g')" "dag_ok g'" "\<not> g_closed g'"
    "\<forall>x. graph_holds g x \<longrightarrow> graph_holds g' x" "graph_holds g' (HasEdge (edge_key e))" "graph_holds g' (HasLink (eFrom e) (eTo e))"
proof -
  obtain n where n: "validateEdge e = Inr n" using assms(3,4) by (simp add: validateEdge_iff)
  note k = validateEdge_ends [OF n]
  have ok: "edges_ok (g_edges g) (g_edgeIdx g)" using assms(1) by (simp add: dag_ok_def)
  define h where "h = snd (AddEdge len io e g)"
  have err: "AddEdge len io e g = (None, h)" using n assms(2) by (auto simp: AddEdge_def Let_def h_def split: option.split)
  have "map edge_key (g_edges h) = map edge_key (g_edges g) @ (if map_of (g_edgeIdx g) (edge_key n) = None then [edge_key n] else [])
      \<and> g_nodes h = g_nodes g \<and> g_dead h = g_dead g \<and> g_closed h = g_closed g"
  proof (cases "map_of (g_edgeIdx g) (edge_key n)")
    case None
    have "core h = core (append_edge n g)" using n None assms(2) by (simp add: h_def AddEdge_def)
    moreover have "g_closed h = g_closed g" using n None assms(2) by (simp add: h_def AddEdge_def)
    ultimately show ?thesis using None by (simp add: core_def)
  next
    case (Some j)
    let ?g = "g\<lparr>g_edges := (g_edges g)[j := fold_edge (g_edges g ! j) n]\<rparr>"
    have "core h = core g \<or> core h = core ?g" "g_closed h = g_closed g" using n Some assms(2) by (auto simp: h_def AddEdge_def Let_def)
    moreover have "map edge_key ((g_edges g)[j := fold_edge (g_edges g ! j) n]) = map edge_key (g_edges g)"
      using edges_ok_find(1) [OF ok Some] by (simp add: map_update list_update_same_conv)
    ultimately show ?thesis using Some by (auto simp: core_def)
  qed
  note f = this
  have key: "edge_key n \<in> set (map edge_key (g_edges h))"
  proof (cases "map_of (g_edgeIdx g) (edge_key n)")
    case (Some j)
    note j = edges_ok_find(1,2) [OF ok Some]
    then have "edge_key n \<in> set (map edge_key (g_edges g))" by (metis image_eqI list.set_map nth_mem)
    then show ?thesis using f by auto
  qed (use f in simp)
  have sub: "set (map edge_key (g_edges g)) \<subseteq> set (map edge_key (g_edges h))" using f by auto
  have edge: "graph_holds u (HasEdge x) \<longleftrightarrow> x \<in> set (map edge_key (g_edges u))" for u x by (auto simp: list_ex_iff)
  have link: "graph_holds u (HasLink a b) \<longleftrightarrow> (\<exists>c. (a, b, c) \<in> set (map edge_key (g_edges u)))" for u a b
    by (auto simp: list_ex_iff edge_key_def image_iff)
  have "graph_holds h x" if "graph_holds g x" for x
  proof (cases x)
    case (HasNode i)
    then show ?thesis using that f by (auto simp: GNode_def split: if_splits)
  qed (use that sub in \<open>simp_all only: edge link, blast+\<close>)
  moreover have "graph_holds h (HasEdge (edge_key e))" using key k by (simp only: edge)
  moreover have "graph_holds h (HasLink (eFrom e) (eTo e))" unfolding link using key k by (auto simp: edge_key_def)
  ultimately show thesis using that [OF err] AddEdge_ok [OF assms(1), of len io e] assms(2) f by (simp add: h_def)
qed

interpretation dag: graph_contract "dag_api len" "\<lambda>s. dag_ok (fst s) \<and> \<not> g_closed (fst s)" "\<lambda>s. graph_holds (fst s)" for len
proof
  fix s :: "graph \<times> io list" and n
  assume "dag_ok (fst s) \<and> \<not> g_closed (fst s)" "validateNode n = None"
  then obtain g' where "AddNode len (case snd s of [] \<Rightarrow> IoOk | io # _ \<Rightarrow> io) n (fst s) = (None, g')" "dag_ok g'" "\<not> g_closed g'"
    "\<forall>x. graph_holds (fst s) x \<longrightarrow> graph_holds g' x" "graph_holds g' (HasNode (nID n))"
    by (elim conjE) (rule AddNode_contract)
  then show "\<exists>s'. api_AddNode (dag_api len) n s = (None, s') \<and> (dag_ok (fst s') \<and> \<not> g_closed (fst s'))
      \<and> (\<forall>f. graph_holds (fst s) f \<longrightarrow> graph_holds (fst s') f) \<and> graph_holds (fst s') (HasNode (nID n))"
    by (intro exI [of _ "(g', tl (snd s))"]) (simp add: dag_api_def Let_def split_def del: graph_holds.simps)
next
  fix s :: "graph \<times> io list" and e
  assume "dag_ok (fst s) \<and> \<not> g_closed (fst s)" "ends_ok e" "\<not> f32_nonfinite (eWeight e)"
  then obtain g' where "AddEdge len (case snd s of [] \<Rightarrow> IoOk | io # _ \<Rightarrow> io) e (fst s) = (None, g')" "dag_ok g'" "\<not> g_closed g'"
    "\<forall>x. graph_holds (fst s) x \<longrightarrow> graph_holds g' x" "graph_holds g' (HasEdge (edge_key e))" "graph_holds g' (HasLink (eFrom e) (eTo e))"
    by (elim conjE) (rule AddEdge_contract)
  then show "\<exists>s'. api_AddEdge (dag_api len) e s = (None, s') \<and> (dag_ok (fst s') \<and> \<not> g_closed (fst s'))
      \<and> (\<forall>f. graph_holds (fst s) f \<longrightarrow> graph_holds (fst s') f) \<and> graph_holds (fst s') (HasEdge (edge_key e)) \<and> graph_holds (fst s') (HasLink (eFrom e) (eTo e))"
    by (intro exI [of _ "(g', tl (snd s))"]) (simp add: dag_api_def Let_def split_def del: graph_holds.simps)
qed

section \<open>Properties\<close>


definition sample_tool :: ObservedTool where
  "sample_tool = \<lparr>oToolUseID = lit ''t2'', oPrevToolUseID = lit ''t1'', oPrevTurn = 1, oSupersedes = [], oTurn = 2, oTS = 9, oPos = 40,
     oResultPos = 0, oTool = lit ''Edit'', oPathKey = lit ''a.go'', oWrites = True, oSymbols = [lit ''F'', [], lit ''F''],
     oRoot = zeroHash, oTokens = 7, oEphemeral = False\<rparr>"


text \<open>A decision, an elimination and a segment whose evidence or members are other well-formed nodes are
  recorded completely: no error, the invariant and all earlier facts kept, the node live and one edge
  from every piece of evidence, anchor, member or previous segment into it.\<close>

theorem conclusions_complete:
  assumes "dag_ok g" "\<not> g_closed g"
  shows "(dID d \<noteq> [] \<and> 0 \<le> dPos d \<and> 0 \<le> dTokens d \<and> (\<forall>v \<in> set (dEvidence d). ParseNodeID v \<noteq> None \<and> v \<noteq> DecisionNode (dID d))
       \<longrightarrow> (\<exists>g' ios'. BuildDecision (dag_api len) d (g, ios) = ([], g', ios') \<and> dag_ok g'
              \<and> (\<forall>x. graph_holds g x \<longrightarrow> graph_holds g' x) \<and> list_all (graph_holds g') (decision_facts d)))
    \<and> (elRecordID e \<noteq> [] \<and> 0 \<le> elPos e \<and> (\<forall>v \<in> set (elEvidence e). ParseNodeID v \<noteq> None \<and> v \<noteq> EliminationNode (elRecordID e))
       \<longrightarrow> (\<exists>g' ios'. BuildElimination (dag_api len) e (g, ios) = ([], g', ios') \<and> dag_ok g'
              \<and> (\<forall>x. graph_holds g x \<longrightarrow> graph_holds g' x) \<and> list_all (graph_holds g') (elimination_facts e)))
    \<and> (sgID s \<noteq> 0 \<and> 0 \<le> sgStartPos s \<and> 0 \<le> sgTokens s \<and> SegmentNode (sgPrevID s) \<noteq> SegmentNode (sgID s)
         \<and> (\<forall>v \<in> set (sgMembers s). ParseNodeID v \<noteq> None \<and> v \<noteq> SegmentNode (sgID s))
       \<longrightarrow> (\<exists>g' ios'. BuildSegment (dag_api len) s (g, ios) = ([], g', ios') \<and> dag_ok g'
              \<and> (\<forall>x. graph_holds g x \<longrightarrow> graph_holds g' x) \<and> list_all (graph_holds g') (segment_facts s)))
    \<and> (0 \<le> pPos p \<and> 0 \<le> pTokens p
       \<longrightarrow> (\<exists>g' ios'. BuildUserPrompt (dag_api len) p (g, ios) = ([], g', ios') \<and> dag_ok g'
              \<and> (\<forall>x. graph_holds g x \<longrightarrow> graph_holds g' x) \<and> list_all (graph_holds g') (prompt_facts p)))"
proof (intro conjI impI, goal_cases)
  case 1 then show ?case using dag.BuildDecision_contract [of "(g, ios)" d len] assms by auto
next
  case 2 then show ?case using dag.BuildElimination_contract [of "(g, ios)" e len] assms by auto
next
  case 3 then show ?case using dag.BuildSegment_contract [of "(g, ios)" s len] assms by auto
next
  case 4 then show ?case using dag.BuildUserPrompt_contract [of "(g, ios)" p len] assms by auto
qed

theorem conclusions_complete_witness:
  "\<exists>g' ios'. BuildDecision (dag_api (\<lambda>_. 100)) \<lparr>dID = lit ''d'', dTurn = 1, dTS = 0, dPos = 3, dTokens = 0, dEvidence = [lit ''file:a''], dSummary = []\<rparr>
     (newGraph \<lparr>f_lines = [], f_frag = 0\<rparr>, []) = ([], g', ios')
   \<and> list_ex (\<lambda>e. edge_key e = (lit ''file:a'', DecisionNode (lit ''d''), EdgeExplains)) (g_edges g')"
proof -
  let ?d = "\<lparr>dID = lit ''d'', dTurn = 1, dTS = 0, dPos = 3, dTokens = 0, dEvidence = [lit ''file:a''], dSummary = []\<rparr>"
  have "ParseNodeID (lit ''file:a'') \<noteq> None \<and> lit ''file:a'' \<noteq> DecisionNode (lit ''d'')" by code_simp
  moreover have "\<not> g_closed (newGraph \<lparr>f_lines = [], f_frag = 0\<rparr>)" by (simp add: newGraph_def)
  note conclusions_complete [OF newGraph_ok this, THEN conjunct1, rule_format, of ?d "\<lambda>_. 100" "[]"]
  ultimately obtain g' ios' where b: "BuildDecision (dag_api (\<lambda>_. 100)) ?d (newGraph \<lparr>f_lines = [], f_frag = 0\<rparr>, []) = ([], g', ios')"
    and "list_all (graph_holds g') (decision_facts ?d)" by (auto simp: lit_def)
  then have "list_ex (\<lambda>e. edge_key e = (lit ''file:a'', DecisionNode (lit ''d''), EdgeExplains)) (g_edges g')" by (simp add: decision_facts_def)
  with b show ?thesis by blast
qed

end
