(* ===== verification/GrammarTypes.thy ===== *)
theory GrammarTypes
  imports GoStrconv
begin

text \<open>
  The shared types of \<^verbatim>\<open>internal/grammar/types.go\<close>: rules and snapshots, and the reserved spelling of a
  rule reference.  A slice that may be nil is an option.
\<close>

type_synonym Symbol = bytes
type_synonym 'a slice = "'a list option"

text \<open>The elements of a slice, and the slice that appending to a nil slice gives.\<close>

definition elems :: "'a slice \<Rightarrow> 'a list" where
  "elems s = (case s of None \<Rightarrow> [] | Some xs \<Rightarrow> xs)"

definition slice_of :: "'a list \<Rightarrow> 'a slice" where
  "slice_of xs = (if xs = [] then None else Some xs)"

lemma elems_slice_of [simp]: "elems (slice_of xs) = xs"
  by (simp add: elems_def slice_of_def)

text \<open>Every error wraps \<^verbatim>\<open>core.ErrDegraded\<close>; the constructor says which message it carries.\<close>

datatype gram_error =
    TruncatedFrame | BadMagic | UnsupportedVersion nat | BadVarint | BadLength | BadCount | BadSymbol | TrailingBytes
  | BelowFirst int | NotAscending int int | EmptyBody int | NextCollides int int | UnknownRule int int | Unreferenced int | ReferenceCycle int

fun andThen :: "('e, 'a) result \<Rightarrow> ('a \<Rightarrow> ('e, 'b) result) \<Rightarrow> ('e, 'b) result" where
  "andThen (Inl e) f = Inl e"
| "andThen (Inr a) f = f a"

lemma andThen_Inr: "andThen m f = Inr b \<longleftrightarrow> (\<exists>a. m = Inr a \<and> f a = Inr b)"
  by (cases m) auto

lemma andThen_assoc: "andThen (andThen m f) g = andThen m (\<lambda>a. andThen (f a) g)"
  by (cases m) simp_all

record Rule =
  ru_ID :: int
  ru_Body :: "Symbol slice"
  ru_Uses :: int
  ru_Expansion :: "Symbol slice"
  ru_Span :: int

record Snapshot =
  sn_Rules :: "Rule slice"
  sn_Sequence :: "Symbol slice"
  sn_NextID :: int

definition ruleRefPrefix :: bytes where "ruleRefPrefix = [0, 0x52]"

definition RuleRef :: "int \<Rightarrow> Symbol" where
  "RuleRef i = ruleRefPrefix @ Itoa i"

definition ParseRuleRef :: "Symbol \<Rightarrow> int option" where
  "ParseRuleRef s =
     (if take (length ruleRefPrefix) s \<noteq> ruleRefPrefix then None
      else let rest = drop (length ruleRefPrefix) s
           in case Atoi rest of None \<Rightarrow> None
              | Some n \<Rightarrow> if n < 0 \<or> Itoa n \<noteq> rest then None else Some n)"

lemma ParseRuleRef_RuleRef:
  assumes "0 \<le> i" "i < 2 ^ 63"
  shows "ParseRuleRef (RuleRef i) = Some i"
  using Atoi_Itoa [OF assms] assms by (simp add: ParseRuleRef_def RuleRef_def Let_def)

lemma ParseRuleRef_SomeD:
  assumes "ParseRuleRef s = Some i"
  shows "s = RuleRef i" "0 \<le> i"
proof -
  from assms have a: "take (length ruleRefPrefix) s = ruleRefPrefix" "0 \<le> i" "Itoa i = drop (length ruleRefPrefix) s"
    by (auto simp: ParseRuleRef_def Let_def split: if_splits option.splits)
  then show "0 \<le> i" by simp
  show "s = RuleRef i" using append_take_drop_id [of "length ruleRefPrefix" s] a by (simp add: RuleRef_def)
qed

end
