(* ===== verification/Sequitur.thy ===== *)
theory Sequitur
  imports GrammarTypes "HOL-Library.Monad_Syntax"
begin

text \<open>
  The incremental grammar induction of \<^verbatim>\<open>internal/grammar/rules.go\<close> and \<^verbatim>\<open>sequitur.go\<close>.  A rule body is a
  circular doubly linked list of nodes closed by a guard node; the digram index maps an adjacent pair
  to the node that begins its recorded occurrence.  The heap is explicit: a node is an address, 0 is
  nil, and every field of the node struct is a map from addresses.  A rule pointer is the rule's
  identifier.  \<open>None\<close> is a panic (a nil dereference) or a recursion deeper than the fuel;
  theories \<open>SequiturHeap\<close> to \<open>SequiturAppend\<close> show that neither happens.
\<close>

type_synonym symKey = "int option \<times> Symbol"
type_synonym digramKey = "symKey \<times> symKey"

record seq =
  q_val :: "nat \<Rightarrow> Symbol"
  q_ref :: "nat \<Rightarrow> int option"
  q_guard :: "nat \<Rightarrow> int option"
  q_prev :: "nat \<Rightarrow> nat"
  q_next :: "nat \<Rightarrow> nat"
  q_top :: nat
  q_rguard :: "int \<Rightarrow> nat"
  q_uses :: "int \<Rightarrow> int"
  q_byID :: "int list"
  q_index :: "digramKey \<Rightarrow> nat option"
  q_nextID :: int
  q_sweeps :: int

abbreviation (input) startRuleID :: int where "startRuleID \<equiv> 0"
abbreviation (input) firstInducedRuleID :: int where "firstInducedRuleID \<equiv> 1"

section \<open>Allocation and links\<close>

definition newNode :: "int option \<Rightarrow> Symbol \<Rightarrow> int option \<Rightarrow> seq \<Rightarrow> nat \<times> seq" where
  "newNode ref v grd g =
     (let n = q_top g
      in (n, g\<lparr>q_val := (q_val g)(n := v), q_ref := (q_ref g)(n := ref), q_guard := (q_guard g)(n := grd),
              q_prev := (q_prev g)(n := 0), q_next := (q_next g)(n := 0), q_top := Suc n\<rparr>))"

definition newGuard :: "int \<Rightarrow> seq \<Rightarrow> nat \<times> seq" where
  "newGuard r g =
     (let (n, g) = newNode None [] (Some r) g
      in (n, g\<lparr>q_prev := (q_prev g)(n := n), q_next := (q_next g)(n := n)\<rparr>))"

text \<open>The empty grammar: \<^verbatim>\<open>clear\<close>, shared by the constructor and \<^verbatim>\<open>Reset\<close>.\<close>

definition clear :: seq where
  "clear =
     (let g = \<lparr>q_val = (\<lambda>_. []), q_ref = (\<lambda>_. None), q_guard = (\<lambda>_. None), q_prev = (\<lambda>_. 0), q_next = (\<lambda>_. 0), q_top = 1,
               q_rguard = (\<lambda>_. 0), q_uses = (\<lambda>_. 0), q_byID = [], q_index = (\<lambda>_. None), q_nextID = firstInducedRuleID, q_sweeps = 0\<rparr>;
          (n, g) = newGuard startRuleID g
      in g\<lparr>q_rguard := (q_rguard g)(startRuleID := n)\<rparr>)"

definition newRule :: "seq \<Rightarrow> int \<times> seq" where
  "newRule g =
     (let r = q_nextID g; (n, g) = newGuard r (g\<lparr>q_nextID := r + 1\<rparr>)
      in (r, g\<lparr>q_rguard := (q_rguard g)(r := n), q_uses := (q_uses g)(r := 0), q_byID := insort r (q_byID g)\<rparr>))"

definition link :: "nat \<Rightarrow> nat \<Rightarrow> seq \<Rightarrow> seq option" where
  "link a b g = (if a = 0 \<or> b = 0 then None else Some (g\<lparr>q_next := (q_next g)(a := b), q_prev := (q_prev g)(b := a)\<rparr>))"

definition insertAfter :: "nat \<Rightarrow> nat \<Rightarrow> seq \<Rightarrow> seq option" where
  "insertAfter at n g =
     (if at = 0 then None
      else let nxt = q_next g at in do { g \<leftarrow> link at n g; link n nxt g })"

section \<open>The digram index\<close>

definition node_key :: "seq \<Rightarrow> nat \<Rightarrow> symKey" where
  "node_key g n = (q_ref g n, q_val g n)"

text \<open>\<open>None\<close> is a nil dereference, \<open>Some None\<close> no digram.\<close>

definition digramAt :: "nat \<Rightarrow> seq \<Rightarrow> digramKey option option" where
  "digramAt n g =
     (if n = 0 then None
      else if q_guard g n \<noteq> None then Some None
      else if q_next g n = 0 then None
      else if q_guard g (q_next g n) \<noteq> None then Some None
      else Some (Some (node_key g n, node_key g (q_next g n))))"

definition setDigram :: "nat \<Rightarrow> seq \<Rightarrow> seq option" where
  "setDigram n g =
     do { d \<leftarrow> digramAt n g;
          Some (case d of None \<Rightarrow> g | Some k \<Rightarrow> g\<lparr>q_index := (q_index g)(k := Some n)\<rparr>) }"

definition dropDigram :: "nat \<Rightarrow> seq \<Rightarrow> seq option" where
  "dropDigram n g =
     do { d \<leftarrow> digramAt n g;
          Some (case d of None \<Rightarrow> g
                | Some k \<Rightarrow> if q_index g k = Some n then g\<lparr>q_index := (q_index g)(k := None)\<rparr> else g) }"

section \<open>The structural operations\<close>

text \<open>Each takes the recursive call of \<^verbatim>\<open>check\<close> as an argument.\<close>

definition add_uses :: "int \<Rightarrow> int \<Rightarrow> seq \<Rightarrow> seq" where
  "add_uses r d g = g\<lparr>q_uses := (q_uses g)(r := q_uses g r + d)\<rparr>"

definition copyOf :: "nat \<Rightarrow> seq \<Rightarrow> (nat \<times> seq) option" where
  "copyOf n g =
     (if n = 0 then None
      else case q_ref g n of
             Some r \<Rightarrow> Some (newNode (Some r) [] None (add_uses r 1 g))
           | None \<Rightarrow> Some (newNode None (q_val g n) None g))"

text \<open>Giving back the reference a node holds, the last step of \<open>unlinkNode\<close> and a step of \<open>discardRule\<close>.\<close>

definition drop_ref :: "nat \<Rightarrow> seq \<Rightarrow> seq" where
  "drop_ref n g = (case q_ref g n of Some r \<Rightarrow> (add_uses r (- 1) g)\<lparr>q_ref := (q_ref g)(n := None)\<rparr> | None \<Rightarrow> g)"

definition unlinkNode :: "nat \<Rightarrow> seq \<Rightarrow> seq option" where
  "unlinkNode n g =
     (if n = 0 then None
      else do { g \<leftarrow> link (q_prev g n) (q_next g n) g;
                Some (drop_ref n (g\<lparr>q_prev := (q_prev g)(n := 0), q_next := (q_next g)(n := 0)\<rparr>)) })"

definition substitute :: "(nat \<Rightarrow> seq \<Rightarrow> (bool \<times> seq) option) \<Rightarrow> nat \<Rightarrow> int \<Rightarrow> seq \<Rightarrow> seq option" where
  "substitute chk n r g =
     (if n = 0 then None
      else let left = q_prev g n; second = q_next g n
           in do { g \<leftarrow> dropDigram left g; g \<leftarrow> dropDigram n g; g \<leftarrow> dropDigram second g;
                   g \<leftarrow> unlinkNode n g; g \<leftarrow> unlinkNode second g;
                   let (ref, g) = newNode (Some r) [] None g;
                   g \<leftarrow> insertAfter left ref (add_uses r 1 g);
                   (consumed, g) \<leftarrow> chk left g;
                   if consumed then Some g else map_option snd (chk ref g) })"

definition expandRef :: "(nat \<Rightarrow> seq \<Rightarrow> (bool \<times> seq) option) \<Rightarrow> nat \<Rightarrow> seq \<Rightarrow> seq option" where
  "expandRef chk n g =
     (if n = 0 then None
      else case q_ref g n of
             None \<Rightarrow> None
           | Some r \<Rightarrow>
               (let left = q_prev g n; right = q_next g n;
                    first = q_next g (q_rguard g r); last = q_prev g (q_rguard g r)
                in do { g \<leftarrow> dropDigram left g; g \<leftarrow> dropDigram n g;
                        g \<leftarrow> link (q_rguard g r) (q_rguard g r) g;
                        let g = g\<lparr>q_byID := removeAll r (q_byID g), q_uses := (q_uses g)(r := 0), q_ref := (q_ref g)(n := None),
                                  q_prev := (q_prev g)(n := 0), q_next := (q_next g)(n := 0)\<rparr>;
                        g \<leftarrow> link left first g; g \<leftarrow> link last right g;
                        (consumed, g) \<leftarrow> chk left g;
                        if consumed then Some g else map_option snd (chk last g) }))"

text \<open>The rule whose whole body is the digram at \<open>m\<close>, if there is one.\<close>

definition whole_rule :: "nat \<Rightarrow> seq \<Rightarrow> int option option" where
  "whole_rule m g =
     (if m = 0 \<or> q_prev g m = 0 then None
      else if q_guard g (q_prev g m) = None then Some None
      else if q_next g m = 0 \<or> q_next g (q_next g m) = 0 then None
      else if q_guard g (q_next g (q_next g m)) = None then Some None
      else Some (q_guard g (q_prev g m)))"

definition match_digram :: "(nat \<Rightarrow> seq \<Rightarrow> (bool \<times> seq) option) \<Rightarrow> nat \<Rightarrow> nat \<Rightarrow> seq \<Rightarrow> seq option" where
  "match_digram chk n m g =
     do { whole \<leftarrow> whole_rule m g;
          (r, g) \<leftarrow> (case whole of
             Some r \<Rightarrow> do { g \<leftarrow> substitute chk n r g; Some (r, g) }
           | None \<Rightarrow>
               (let (r, g) = newRule g
                in do { (a, g) \<leftarrow> copyOf n g; g \<leftarrow> insertAfter (q_rguard g r) a g;
                        (b, g) \<leftarrow> copyOf (q_next g n) g; g \<leftarrow> insertAfter (q_next g (q_rguard g r)) b g;
                        g \<leftarrow> substitute chk m r g; g \<leftarrow> substitute chk n r g;
                        g \<leftarrow> setDigram (q_next g (q_rguard g r)) g;
                        Some (r, g) }));
          let first = q_next g (q_rguard g r);
          (case q_ref g first of
             Some q \<Rightarrow> if q_uses g q = 1 then expandRef chk first g else Some g
           | None \<Rightarrow> Some g) }"

definition check_with :: "(nat \<Rightarrow> nat \<Rightarrow> seq \<Rightarrow> seq option) \<Rightarrow> nat \<Rightarrow> seq \<Rightarrow> (bool \<times> seq) option" where
  "check_with mtch n g =
     do { d \<leftarrow> digramAt n g;
          case d of
            None \<Rightarrow> Some (False, g)
          | Some k \<Rightarrow>
              (case q_index g k of
                 None \<Rightarrow> Some (False, g\<lparr>q_index := (q_index g)(k := Some n)\<rparr>)
               | Some m \<Rightarrow>
                   if m = n \<or> q_next g m = n \<or> q_next g n = m then Some (False, g)
                   else do { g \<leftarrow> mtch n m g; Some (True, g) }) }"

primrec check :: "nat \<Rightarrow> nat \<Rightarrow> seq \<Rightarrow> (bool \<times> seq) option" where
  "check 0 = check_with (\<lambda>_ _ _. None)"
| "check (Suc fuel) = check_with (match_digram (check fuel))"

section \<open>Rule utility\<close>

text \<open>The nodes of a body, from one of them to the guard; a body never has more nodes than there are.\<close>

fun nodes_from :: "nat \<Rightarrow> nat \<Rightarrow> seq \<Rightarrow> nat list option" where
  "nodes_from 0 n g = None"
| "nodes_from (Suc f) n g =
     (if n = 0 then None
      else if q_guard g n \<noteq> None then Some []
      else map_option ((#) n) (nodes_from f (q_next g n) g))"

definition body_nodes :: "int \<Rightarrow> seq \<Rightarrow> nat list option" where
  "body_nodes r g = nodes_from (q_top g) (q_next g (q_rguard g r)) g"

definition refIn :: "int \<Rightarrow> int \<Rightarrow> seq \<Rightarrow> nat option option" where
  "refIn owner r g = map_option (find (\<lambda>n. q_ref g n = Some r)) (body_nodes owner g)"

fun first_ref :: "int list \<Rightarrow> int \<Rightarrow> seq \<Rightarrow> nat option option" where
  "first_ref [] r g = Some None"
| "first_ref (owner # ids) r g =
     do { n \<leftarrow> refIn owner r g; case n of Some n \<Rightarrow> Some (Some n) | None \<Rightarrow> first_ref ids r g }"

definition soleRef :: "int \<Rightarrow> seq \<Rightarrow> nat option option" where
  "soleRef r g = first_ref (startRuleID # filter (\<lambda>i. i \<noteq> r) (q_byID g)) r g"

fun drop_all :: "nat list \<Rightarrow> seq \<Rightarrow> seq option" where
  "drop_all [] g = Some g"
| "drop_all (n # ns) g = do { g \<leftarrow> dropDigram n g; drop_all ns g }"

definition release :: "seq \<Rightarrow> nat \<Rightarrow> seq" where
  "release g n =
     (let g = drop_ref n g in g\<lparr>q_prev := (q_prev g)(n := 0), q_next := (q_next g)(n := 0)\<rparr>)"

definition discardRule :: "int \<Rightarrow> seq \<Rightarrow> seq option" where
  "discardRule r g =
     do { ns \<leftarrow> body_nodes r g;
          g \<leftarrow> drop_all ns g;
          g \<leftarrow> link (q_rguard g r) (q_rguard g r) (foldl release g ns);
          Some (g\<lparr>q_byID := removeAll r (q_byID g), q_uses := (q_uses g)(r := 0)\<rparr>) }"

definition repair :: "(nat \<Rightarrow> seq \<Rightarrow> (bool \<times> seq) option) \<Rightarrow> int \<Rightarrow> seq \<Rightarrow> seq option" where
  "repair chk r g =
     (if r \<notin> set (q_byID g) then Some g
      else if q_uses g r = 0 then discardRule r g
      else if q_uses g r = 1 then
        do { n \<leftarrow> soleRef r g; case n of None \<Rightarrow> discardRule r g | Some n \<Rightarrow> expandRef chk n g }
      else Some g)"

fun repair_all :: "(nat \<Rightarrow> seq \<Rightarrow> (bool \<times> seq) option) \<Rightarrow> int list \<Rightarrow> seq \<Rightarrow> seq option" where
  "repair_all chk [] g = Some g"
| "repair_all chk (r # rs) g = do { g \<leftarrow> repair chk r g; repair_all chk rs g }"

primrec enforceRuleUtility :: "nat \<Rightarrow> seq \<Rightarrow> seq option" where
  "enforceRuleUtility 0 g = (if filter (\<lambda>r. q_uses g r \<le> 1) (q_byID g) = [] then Some g else None)"
| "enforceRuleUtility (Suc fuel) g =
     (let under = filter (\<lambda>r. q_uses g r \<le> 1) (q_byID g)
      in if under = [] then Some g
         else do { g \<leftarrow> repair_all (check fuel) under (g\<lparr>q_sweeps := q_sweeps g + 1\<rparr>);
                   enforceRuleUtility fuel g })"

section \<open>The public operations\<close>

text \<open>A call makes fewer structural steps than twice the nodes there are, which the fuel is.\<close>

definition Append :: "Symbol \<Rightarrow> seq \<Rightarrow> seq option" where
  "Append s g =
     (let fuel = 2 * q_top g + 2; (n, g) = newNode None s None g
      in do { g \<leftarrow> insertAfter (q_prev g (q_rguard g startRuleID)) n g;
              (_, g) \<leftarrow> check fuel (q_prev g n) g;
              enforceRuleUtility fuel g })"

fun append_all :: "Symbol list \<Rightarrow> seq \<Rightarrow> seq option" where
  "append_all [] g = Some g"
| "append_all (s # ss) g = do { g \<leftarrow> Append s g; append_all ss g }"

end
