(* ===== verification/SequiturHeap.thy ===== *)
theory SequiturHeap
  imports Sequitur
begin

text \<open>
  The heap of the grammar as lists: a ghost map \<open>B\<close> gives every rule the list of its body nodes.  The
  links realize it, bodies are disjoint, and cutting a segment out of a body and linking another in
  changes \<open>B\<close> at that rule only.
\<close>

section \<open>Doubly linked chains\<close>

definition chain :: "(nat \<Rightarrow> nat) \<Rightarrow> (nat \<Rightarrow> nat) \<Rightarrow> nat list \<Rightarrow> bool" where
  "chain nx pv xs \<longleftrightarrow> successively (\<lambda>a b. nx a = b \<and> pv b = a) xs"

lemma chain_simps [simp]:
  "chain nx pv []" "chain nx pv [a]" "chain nx pv (a # b # xs) \<longleftrightarrow> nx a = b \<and> pv b = a \<and> chain nx pv (b # xs)"
  by (simp_all add: chain_def)

lemma chain_join: "chain nx pv (xs @ y # ys) \<longleftrightarrow> chain nx pv (xs @ [y]) \<and> chain nx pv (y # ys)"
  by (auto simp: chain_def successively_append_iff successively_Cons)

lemma chain_snoc: "chain nx pv (xs @ [a, b]) \<longleftrightarrow> chain nx pv (xs @ [a]) \<and> nx a = b \<and> pv b = a"
  using chain_join [of nx pv xs a "[b]"] by simp

lemma chain_inner: "chain nx pv (a # zs @ [b]) \<Longrightarrow> chain nx pv zs"
  by (auto simp: chain_def successively_append_iff successively_Cons)

lemma chain_cong:
  assumes "\<And>x. x \<in> set (butlast xs) \<Longrightarrow> nx' x = nx x" "\<And>y. y \<in> set (tl xs) \<Longrightarrow> pv' y = pv y"
  shows "chain nx' pv' xs = chain nx pv xs"
  using assms
proof (induction xs)
  case (Cons a xs)
  then show ?case by (cases xs) auto
qed simp

lemma chain_splice_inner:
  assumes "chain nx pv (P @ l # mid @ r # Q)"
    and "\<And>x. x \<in> set P \<union> set (butlast (r # Q)) \<Longrightarrow> nx' x = nx x" "\<And>x. x \<in> set (tl (P @ [l])) \<union> set Q \<Longrightarrow> pv' x = pv x"
    and "chain nx' pv' (l # mid' @ [r])"
  shows "chain nx' pv' (P @ l # mid' @ r # Q)"
proof -
  have c: "chain nx pv (P @ [l])" "chain nx pv (r # Q)"
    using assms(1) chain_join [of nx pv P l "mid @ r # Q"] chain_join [of nx pv "l # mid" r Q] by simp_all
  have "chain nx' pv' (P @ [l]) = chain nx pv (P @ [l])" "chain nx' pv' (r # Q) = chain nx pv (r # Q)"
    by (intro chain_cong assms(2,3); simp)+
  with c assms(4) show ?thesis
    using chain_join [of nx' pv' P l "mid' @ r # Q"] chain_join [of nx' pv' "l # mid'" r Q] by simp
qed

lemma chain_splice:
  assumes c: "chain nx pv (a # xs @ mid @ ys @ [a])" and d: "distinct (a # xs @ ys)"
    and nx: "\<And>x. x \<in> set (a # xs @ ys) \<Longrightarrow> x \<noteq> last (a # xs) \<Longrightarrow> nx' x = nx x"
    and pv: "\<And>x. x \<in> set (a # xs @ ys) \<Longrightarrow> x \<noteq> hd (ys @ [a]) \<Longrightarrow> pv' x = pv x"
    and new: "chain nx' pv' (last (a # xs) # mid' @ [hd (ys @ [a])])"
  shows "chain nx' pv' (a # xs @ mid' @ ys @ [a])"
proof (cases xs rule: rev_cases)
  case Nil
  show ?thesis
  proof (cases ys)
    case Nil with \<open>xs = []\<close> new show ?thesis by simp
  next
    case (Cons y ys')
    with c d \<open>xs = []\<close> show ?thesis
      using chain_splice_inner [of nx pv "[]" a mid y "ys' @ [a]" nx' pv' mid'] nx pv new by auto
  qed
next
  case (snoc xs' x)
  show ?thesis
  proof (cases ys)
    case Nil
    with c d snoc show ?thesis
      using chain_splice_inner [of nx pv "a # xs'" x mid a "[]" nx' pv' mid'] nx pv new by auto
  next
    case (Cons y ys')
    with c d snoc show ?thesis
      using chain_splice_inner [of nx pv "a # xs'" x mid y "ys' @ [a]" nx' pv' mid'] nx pv new by auto
  qed
qed

section \<open>Bodies\<close>

definition body_ok :: "seq \<Rightarrow> int \<Rightarrow> nat list \<Rightarrow> bool" where
  "body_ok g r as \<longleftrightarrow> q_rguard g r \<noteq> 0 \<and> q_rguard g r < q_top g \<and> q_guard g (q_rguard g r) = Some r
     \<and> chain (q_next g) (q_prev g) (q_rguard g r # as @ [q_rguard g r])
     \<and> distinct as \<and> (\<forall>n \<in> set as. q_guard g n = None \<and> 0 < n \<and> n < q_top g)"

definition heap_ok :: "seq \<Rightarrow> (int \<Rightarrow> nat list) \<Rightarrow> bool" where
  "heap_ok g B \<longleftrightarrow> (\<forall>r. if q_rguard g r = 0 then B r = [] else body_ok g r (B r))
     \<and> (\<forall>r r'. r \<noteq> r' \<longrightarrow> set (B r) \<inter> set (B r') = {})"

lemma heap_okD:
  assumes "heap_ok g B"
  shows "q_rguard g r \<noteq> 0 \<Longrightarrow> body_ok g r (B r)" "n \<in> set (B r) \<Longrightarrow> q_rguard g r \<noteq> 0" "n \<in> set (B r) \<Longrightarrow> n \<in> set (B r') \<Longrightarrow> r = r'"
  using assms unfolding heap_ok_def by (auto split: if_splits)

lemma heap_ok_body: "heap_ok g B \<Longrightarrow> B r \<noteq> [] \<Longrightarrow> body_ok g r (B r)"
  unfolding heap_ok_def by (meson)

lemma heap_okI:
  assumes "\<And>r. q_rguard g r = 0 \<Longrightarrow> B r = []" "\<And>r. q_rguard g r \<noteq> 0 \<Longrightarrow> body_ok g r (B r)"
    "\<And>r r' n. n \<in> set (B r) \<Longrightarrow> n \<in> set (B r') \<Longrightarrow> r = r'"
  shows "heap_ok g B"
  unfolding heap_ok_def using assms by auto

text \<open>The neighbours of a node.\<close>

lemma node_links:
  assumes "heap_ok g B" "B r = xs @ n # ys"
  shows "q_next g n = hd (ys @ [q_rguard g r])" "q_prev g n = last (q_rguard g r # xs)" "q_guard g n = None" "n \<noteq> 0" "n < q_top g"
    "q_rguard g r \<noteq> 0" "q_guard g (q_rguard g r) = Some r"
proof -
  have b: "body_ok g r (B r)" by (rule heap_ok_body [OF assms(1)]) (simp add: assms(2))
  then have "chain (q_next g) (q_prev g) ((q_rguard g r # xs) @ n # ys @ [q_rguard g r])" by (simp add: body_ok_def assms(2))
  then have c: "chain (q_next g) (q_prev g) ((q_rguard g r # xs) @ [n])" "chain (q_next g) (q_prev g) (n # ys @ [q_rguard g r])"
    using chain_join [of _ _ "q_rguard g r # xs" n "ys @ [q_rguard g r]"] by simp_all
  show "q_next g n = hd (ys @ [q_rguard g r])" using c(2) by (cases ys) auto
  show "q_prev g n = last (q_rguard g r # xs)"
    using c(1) chain_snoc [of _ _ "q_rguard g r # butlast xs" "last xs" n] by (cases xs rule: rev_cases) simp_all
  show "q_guard g n = None" "n \<noteq> 0" "n < q_top g" "q_rguard g r \<noteq> 0" "q_guard g (q_rguard g r) = Some r"
    using b by (auto simp: body_ok_def assms(2))
qed

lemma guard_links:
  assumes "heap_ok g B" "q_rguard g r \<noteq> 0"
  shows "q_next g (q_rguard g r) = hd (B r @ [q_rguard g r])" "q_prev g (q_rguard g r) = last (q_rguard g r # B r)"
    "q_guard g (q_rguard g r) = Some r" "q_rguard g r < q_top g"
proof -
  have b: "body_ok g r (B r)" using assms by (rule heap_okD)
  then have c: "chain (q_next g) (q_prev g) (q_rguard g r # B r @ [q_rguard g r])" by (simp add: body_ok_def)
  show "q_next g (q_rguard g r) = hd (B r @ [q_rguard g r])" using c by (cases "B r") auto
  show "q_prev g (q_rguard g r) = last (q_rguard g r # B r)"
    using c chain_snoc [of _ _ "q_rguard g r # butlast (B r)" "last (B r)" "q_rguard g r"] by (cases "B r" rule: rev_cases) simp_all
  show "q_guard g (q_rguard g r) = Some r" "q_rguard g r < q_top g" using b by (simp_all add: body_ok_def)
qed

lemma guard_not_node:
  assumes "heap_ok g B" "q_guard g x \<noteq> None"
  shows "x \<notin> set (B r)"
proof
  assume "x \<in> set (B r)"
  then obtain xs ys where "B r = xs @ x # ys" by (auto dest: split_list)
  from node_links(3) [OF assms(1) this] assms(2) show False by simp
qed

lemma rguard_inj:
  assumes "heap_ok g B" "q_rguard g r = q_rguard g r'" "q_rguard g r \<noteq> 0"
  shows "r = r'"
proof -
  have "q_guard g (q_rguard g r) = Some r" by (rule guard_links(3) [OF assms(1,3)])
  moreover have "q_guard g (q_rguard g r) = Some r'" unfolding assms(2) by (rule guard_links(3) [OF assms(1)]) (use assms(2,3) in simp)
  ultimately show ?thesis by simp
qed

lemma body_frame:
  assumes "body_ok g r as" "q_rguard g' r = q_rguard g r" "q_top g \<le> q_top g'"
    "\<And>x. x \<in> set (q_rguard g r # as) \<Longrightarrow> q_next g' x = q_next g x \<and> q_prev g' x = q_prev g x \<and> q_guard g' x = q_guard g x"
  shows "body_ok g' r as"
proof -
  have "chain (q_next g') (q_prev g') (q_rguard g r # as @ [q_rguard g r]) = chain (q_next g) (q_prev g) (q_rguard g r # as @ [q_rguard g r])"
    using assms(4) by (intro chain_cong) auto
  then show ?thesis using assms by (auto simp: body_ok_def)
qed

text \<open>Replacing a segment of the body of \<open>p\<close> by nodes that are new, or cut from elsewhere.\<close>

lemma body_splice:
  assumes b: "body_ok g p (xs @ mid @ ys)" and d: "distinct (xs @ mid' @ ys)" and r: "q_rguard g' p = q_rguard g p" "q_top g \<le> q_top g'"
    and n: "\<And>x. x \<in> set mid' \<Longrightarrow> q_guard g' x = None \<and> 0 < x \<and> x < q_top g'"
    and gd: "\<And>x. x \<in> set (q_rguard g p # xs @ ys) \<Longrightarrow> q_guard g' x = q_guard g x"
    and nx: "\<And>x. x \<in> set (q_rguard g p # xs @ ys) \<Longrightarrow> x \<noteq> last (q_rguard g p # xs) \<Longrightarrow> q_next g' x = q_next g x"
    and pv: "\<And>x. x \<in> set (q_rguard g p # xs @ ys) \<Longrightarrow> x \<noteq> hd (ys @ [q_rguard g p]) \<Longrightarrow> q_prev g' x = q_prev g x"
    and new: "chain (q_next g') (q_prev g') (last (q_rguard g p # xs) # mid' @ [hd (ys @ [q_rguard g p])])"
  shows "body_ok g' p (xs @ mid' @ ys)"
proof -
  have "q_rguard g p \<notin> set (xs @ ys)" using b by (auto simp: body_ok_def)
  then have d': "distinct (q_rguard g p # xs @ ys)" using b by (auto simp: body_ok_def)
  have c: "chain (q_next g) (q_prev g) (q_rguard g p # xs @ mid @ ys @ [q_rguard g p])" using b by (simp add: body_ok_def)
  have "chain (q_next g') (q_prev g') (q_rguard g p # xs @ mid' @ ys @ [q_rguard g p])"
    by (rule chain_splice [OF c d' nx pv new])
  moreover have "q_guard g' x = None \<and> 0 < x \<and> x < q_top g'" if "x \<in> set (xs @ mid' @ ys)" for x
  proof (cases "x \<in> set mid'")
    case True
    then show ?thesis by (rule n)
  next
    case False
    then have "q_guard g x = None \<and> 0 < x \<and> x < q_top g" "x \<in> set (xs @ ys)" using that b by (auto simp: body_ok_def)
    then show ?thesis using r(2) gd [of x] by simp
  qed
  moreover have "q_guard g' (q_rguard g p) = q_guard g (q_rguard g p)" by (rule gd) simp
  ultimately show ?thesis unfolding body_ok_def r(1) using b d r(2) by (simp add: body_ok_def)
qed

lemma heap_splice:
  assumes h: "heap_ok g B" and B: "B p = xs @ mid @ ys" and p: "q_rguard g p \<noteq> 0"
    and d: "distinct mid'" "\<And>x r. x \<in> set mid' \<Longrightarrow> x \<notin> set (B r)"
    and m: "\<And>x. x \<in> set mid' \<Longrightarrow> q_guard g' x = None \<and> 0 < x \<and> x < q_top g'"
    and s: "q_rguard g' = q_rguard g" "q_top g \<le> q_top g'" "\<And>x. x < q_top g \<Longrightarrow> q_guard g' x = q_guard g x"
    and nx: "\<And>x. x \<noteq> last (q_rguard g p # xs) \<Longrightarrow> x \<notin> set (mid @ mid') \<Longrightarrow> q_next g' x = q_next g x"
    and pv: "\<And>x. x \<noteq> hd (ys @ [q_rguard g p]) \<Longrightarrow> x \<notin> set (mid @ mid') \<Longrightarrow> q_prev g' x = q_prev g x"
    and new: "chain (q_next g') (q_prev g') (last (q_rguard g p # xs) # mid' @ [hd (ys @ [q_rguard g p])])"
  shows "heap_ok g' (B(p := xs @ mid' @ ys))"
proof (rule heap_okI)
  have low: "x < q_top g \<and> q_guard g' x = q_guard g x" if "x = q_rguard g r \<or> x \<in> set (B r)" "q_rguard g r \<noteq> 0" for x r
  proof -
    have "x < q_top g" using that heap_okD(1) [OF h that(2)] by (auto simp: body_ok_def)
    then show ?thesis using s(3) by simp
  qed
  have fresh: "q_rguard g r \<notin> set mid'" if "q_rguard g r \<noteq> 0" for r
    using low [OF disjI1 that] guard_links(3) [OF h that] m by fastforce
  have bp: "body_ok g p (xs @ mid @ ys)" using heap_okD(1) [OF h p] by (simp add: B)
  then have pm: "q_rguard g p \<notin> set (xs @ mid @ ys)" by (auto simp: body_ok_def)
  fix r
  show "(B(p := xs @ mid' @ ys)) r = []" if "q_rguard g' r = 0"
    using that p h by (auto simp: s heap_ok_def split: if_splits)
  show "body_ok g' r ((B(p := xs @ mid' @ ys)) r)" if "q_rguard g' r \<noteq> 0"
  proof (cases "r = p")
    case True
    have "body_ok g' p (xs @ mid' @ ys)"
    proof (rule body_splice [OF bp])
      show "distinct (xs @ mid' @ ys)" using bp d d(2) [of _ p] B by (auto simp: body_ok_def)
      fix x assume x: "x \<in> set (q_rguard g p # xs @ ys)"
      have xm: "x \<notin> set mid" using x pm bp by (auto simp: body_ok_def)
      have xm': "x \<notin> set mid'" using x fresh [OF p] d(2) [of x p] B by auto
      show "q_guard g' x = q_guard g x" using low [of x p] x p B by auto
      show "q_next g' x = q_next g x" if "x \<noteq> last (q_rguard g p # xs)" using nx that xm xm' by simp
      show "q_prev g' x = q_prev g x" if "x \<noteq> hd (ys @ [q_rguard g p])" using pv that xm xm' by simp
    qed (use s m new in simp_all)
    then show ?thesis using True by simp
  next
    case False
    have r: "q_rguard g r \<noteq> 0" using that s by simp
    have "body_ok g' r (B r)"
    proof (rule body_frame [OF heap_okD(1) [OF h r]])
      fix x assume x: "x \<in> set (q_rguard g r # B r)"
      have notp: "x \<notin> set (B p)"
        using x False heap_okD(3) [OF h, of x p r] guard_not_node [OF h] guard_links(3) [OF h r] by auto
      have notg: "x \<noteq> q_rguard g p"
        using x False rguard_inj [OF h, of p r] p guard_not_node [OF h, of "q_rguard g p" r] guard_links(3) [OF h p] by auto
      have "x \<noteq> last (q_rguard g p # xs)" "x \<noteq> hd (ys @ [q_rguard g p])"
        using notp notg B last_in_set [of xs] hd_in_set [of ys] by (auto simp: hd_append split: if_splits)
      moreover have "x \<notin> set (mid @ mid')" using notp B x fresh [OF r] d(2) [of x r] by auto
      ultimately show "q_next g' x = q_next g x \<and> q_prev g' x = q_prev g x \<and> q_guard g' x = q_guard g x"
        using nx pv low [of x r] x r by auto
    qed (use s in simp_all)
    then show ?thesis using False by simp
  qed
next
  fix r r' n assume "n \<in> set ((B(p := xs @ mid' @ ys)) r)" "n \<in> set ((B(p := xs @ mid' @ ys)) r')"
  then show "r = r'" using d(2) heap_okD(3) [OF h, of n] B by (auto split: if_splits)
qed

section \<open>The primitive operations on bodies\<close>

lemma heap_frame:
  assumes "heap_ok g B" "q_rguard g' = q_rguard g" "q_top g \<le> q_top g'"
    "\<And>x. x < q_top g \<Longrightarrow> q_next g' x = q_next g x \<and> q_prev g' x = q_prev g x \<and> q_guard g' x = q_guard g x"
  shows "heap_ok g' B"
proof (rule heap_okI)
  fix r
  show "B r = []" if "q_rguard g' r = 0" using that assms(1,2) by (simp add: heap_ok_def split: if_splits)
  show "body_ok g' r (B r)" if "q_rguard g' r \<noteq> 0"
  proof (rule body_frame)
    show b: "body_ok g r (B r)" using that assms(2) heap_okD(1) [OF assms(1)] by simp
    fix x assume "x \<in> set (q_rguard g r # B r)"
    then have "x < q_top g" using b by (auto simp: body_ok_def)
    then show "q_next g' x = q_next g x \<and> q_prev g' x = q_prev g x \<and> q_guard g' x = q_guard g x" by (rule assms(4))
  qed (use assms in simp_all)
qed (rule heap_okD(3) [OF assms(1)])

lemma insertAfter_ok:
  assumes "heap_ok g B" "B p = xs @ ys" "q_rguard g p \<noteq> 0" "at = last (q_rguard g p # xs)"
    "q_guard g n = None" "0 < n" "n < q_top g" "\<And>r. n \<notin> set (B r)"
  obtains nx pv where "insertAfter at n g = Some (g\<lparr>q_next := nx, q_prev := pv\<rparr>)"
    "heap_ok (g\<lparr>q_next := nx, q_prev := pv\<rparr>) (B(p := xs @ n # ys))"
proof -
  define rt where "rt = hd (ys @ [q_rguard g p])"
  have at0: "at \<noteq> 0" "rt \<noteq> 0" "q_next g at = rt"
  proof -
    have "body_ok g p (xs @ ys)" using heap_okD(1) [OF assms(1,3)] by (simp add: assms(2))
    then have "0 < x" if "x \<in> set (q_rguard g p # xs @ ys)" for x using that by (auto simp: body_ok_def)
    moreover have "at \<in> set (q_rguard g p # xs @ ys)" "rt \<in> set (q_rguard g p # xs @ ys)"
      using assms(4) by (auto simp: rt_def hd_append)
    ultimately show "at \<noteq> 0" "rt \<noteq> 0" by blast+
    show "q_next g at = rt"
    proof (cases xs rule: rev_cases)
      case Nil then show ?thesis using guard_links(1) [OF assms(1,3)] assms(2,4) by (simp add: rt_def)
    next
      case (snoc xs' x)
      then show ?thesis using node_links(1) [OF assms(1), of p xs' x ys] assms(2,4) by (simp add: rt_def)
    qed
  qed
  define nx pv where "nx = (q_next g)(at := n, n := rt)" and "pv = (q_prev g)(n := at, rt := n)"
  have ne: "n \<noteq> at" "n \<noteq> rt"
  proof -
    have "n \<notin> set (q_rguard g p # xs @ ys)"
      using assms(8) [of p] assms(5) guard_links(3) [OF assms(1,3)] assms(2) by auto
    then show "n \<noteq> at" "n \<noteq> rt" using assms(4) last_in_set [of xs] hd_in_set [of ys] by (auto simp: rt_def hd_append split: if_splits)
  qed
  have "insertAfter at n g = Some (g\<lparr>q_next := nx, q_prev := pv\<rparr>)"
    using at0 assms(6) by (simp add: insertAfter_def link_def nx_def pv_def Let_def)
  moreover have "heap_ok (g\<lparr>q_next := nx, q_prev := pv\<rparr>) (B(p := xs @ [n] @ ys))"
  proof (rule heap_splice [OF assms(1)])
    show "B p = xs @ [] @ ys" using assms(2) by simp
    show "chain (q_next (g\<lparr>q_next := nx, q_prev := pv\<rparr>)) (q_prev (g\<lparr>q_next := nx, q_prev := pv\<rparr>)) (last (q_rguard g p # xs) # [n] @ [hd (ys @ [q_rguard g p])])"
      unfolding assms(4) [symmetric] rt_def [symmetric] using ne by (simp add: nx_def pv_def)
  qed (use assms rt_def in \<open>auto simp: nx_def pv_def\<close>)
  ultimately show ?thesis using that by simp
qed

lemma links_order [simp]: "q_next_update f (q_prev_update h g) = q_prev_update h (q_next_update f g)"
  by (cases g) simp

lemma link_neighbours:
  assumes "heap_ok g B" "q_rguard g p \<noteq> 0" "B p = xs @ ys"
  shows "last (q_rguard g p # xs) \<noteq> 0" "hd (ys @ [q_rguard g p]) \<noteq> 0"
    "last (q_rguard g p # xs) < q_top g" "hd (ys @ [q_rguard g p]) < q_top g"
proof -
  have b: "body_ok g p (xs @ ys)" using heap_okD(1) [OF assms(1,2)] assms(3) by simp
  have *: "x \<noteq> 0 \<and> x < q_top g" if "x \<in> set (q_rguard g p # xs @ ys)" for x using that b by (auto simp: body_ok_def)
  show "last (q_rguard g p # xs) \<noteq> 0" "last (q_rguard g p # xs) < q_top g" using * [of "last (q_rguard g p # xs)"] by auto
  show "hd (ys @ [q_rguard g p]) \<noteq> 0" "hd (ys @ [q_rguard g p]) < q_top g"
    using * [of "hd (ys @ [q_rguard g p])"] by (auto simp: hd_append)
qed

lemma unlinkNode_ok:
  assumes h: "heap_ok g B" and B: "B p = xs @ n # ys"
  obtains nx pv where "unlinkNode n g = Some (drop_ref n (g\<lparr>q_next := nx, q_prev := pv\<rparr>))"
    "heap_ok (g\<lparr>q_next := nx, q_prev := pv\<rparr>) (B(p := xs @ ys))"
proof -
  note l = node_links [OF h B]
  define lt rt where "lt = last (q_rguard g p # xs)" and "rt = hd (ys @ [q_rguard g p])"
  define nx pv where "nx = (q_next g)(lt := rt, n := 0)" and "pv = (q_prev g)(rt := lt, n := 0)"
  have nz: "lt \<noteq> 0" "rt \<noteq> 0"
    using link_neighbours(1) [OF h l(6) B] link_neighbours(2) [OF h l(6), of "xs @ [n]" ys] B by (simp_all add: lt_def rt_def)
  have ln: "q_prev g n = lt" "q_next g n = rt" using l by (simp_all add: lt_def rt_def)
  have "body_ok g p (xs @ n # ys)" using heap_okD(1) [OF h l(6)] B by simp
  then have ne: "n \<notin> set (q_rguard g p # xs @ ys)" by (auto simp: body_ok_def)
  then have ne': "n \<noteq> lt" "n \<noteq> rt" by (auto simp: lt_def rt_def hd_append split: if_splits)
  have "unlinkNode n g = Some (drop_ref n (g\<lparr>q_next := nx, q_prev := pv\<rparr>))"
    using l(4) nz by (simp add: unlinkNode_def link_def nx_def pv_def ln)
  moreover have "heap_ok (g\<lparr>q_next := nx, q_prev := pv\<rparr>) (B(p := xs @ [] @ ys))"
  proof (rule heap_splice [OF h])
    show "B p = xs @ [n] @ ys" using B by simp
    show "chain (q_next (g\<lparr>q_next := nx, q_prev := pv\<rparr>)) (q_prev (g\<lparr>q_next := nx, q_prev := pv\<rparr>)) (last (q_rguard g p # xs) # [] @ [hd (ys @ [q_rguard g p])])"
      unfolding lt_def [symmetric] rt_def [symmetric] using ne' by (simp add: nx_def pv_def)
  qed (use l(6) lt_def rt_def in \<open>auto simp: nx_def pv_def\<close>)
  ultimately show ?thesis using that by simp
qed

lemma chain_ends:
  assumes "chain nx pv zs" "zs \<noteq> []" "nx a = hd zs" "pv (hd zs) = a" "nx (last zs) = b" "pv b = last zs"
  shows "chain nx pv (a # zs @ [b])"
proof -
  obtain zs' z where z: "zs = zs' @ [z]" using assms(2) by (cases zs rule: rev_cases) auto
  have "chain nx pv (zs @ [b])" using assms(1,5,6) by (simp add: z chain_snoc)
  with assms(2-4) show ?thesis by (cases zs) auto
qed

lemma expand_links_ok:
  assumes h: "heap_ok g B" and B: "B p = xs @ n # ys" and R: "B r = zs" "zs \<noteq> []" "r \<noteq> p"
    and e: "lt = last (q_rguard g p # xs)" "rt = hd (ys @ [q_rguard g p])" "gr = q_rguard g r"
    and f: "nx = (q_next g)(gr := gr, n := 0, lt := hd zs, last zs := rt)" "pv = (q_prev g)(gr := gr, n := 0, hd zs := lt, rt := last zs)"
  shows "heap_ok (g\<lparr>q_next := nx, q_prev := pv\<rparr>) (B(r := [], p := xs @ zs @ ys))"
proof -
  note l = node_links [OF h B]
  have r0: "gr \<noteq> 0" and br: "body_ok g r zs" using heap_ok_body [OF h, of r] R by (auto simp: body_ok_def e(3))
  have bp: "body_ok g p (xs @ n # ys)" using heap_okD(1) [OF h l(6)] B by simp
  let ?g1 = "g\<lparr>q_next := (q_next g)(gr := gr), q_prev := (q_prev g)(gr := gr)\<rparr>"
  have h1: "heap_ok ?g1 (B(r := [] @ [] @ []))"
    by (rule heap_splice [OF h, of r "[]" zs "[]" "[]"]) (use R r0 e(3) in auto)
  have dis: "z \<notin> set (q_rguard g p # xs @ n # ys)" "z \<noteq> gr" if "z \<in> set zs" for z
  proof -
    have "z \<notin> set (B p)" using heap_okD(3) [OF h, of z r p] that R by auto
    moreover have "q_guard g z = None" "q_guard g (q_rguard g p) = Some p" "q_guard g gr = Some r"
      using br that l(7) by (auto simp: body_ok_def e(3))
    ultimately show "z \<notin> set (q_rguard g p # xs @ n # ys)" "z \<noteq> gr" using B by auto
  qed
  have inr: "lt \<in> set (q_rguard g p # xs)" "rt \<in> set (ys @ [q_rguard g p])" by (auto simp: e hd_append)
  have ends: "hd zs \<in> set zs" "last zs \<in> set zs" using R(2) by simp_all
  have gp: "gr \<noteq> x" if "x \<in> set (q_rguard g p # xs @ n # ys)" for x
    using that rguard_inj [OF h, of r p] R(3) r0 guard_not_node [OF h, of gr p] guard_links(3) [OF h, of r] B by (auto simp: e(3))
  have nl: "n \<noteq> lt" "n \<noteq> rt" using inr bp l(3,7) by (auto simp: body_ok_def)
  have dz: "distinct zs" "chain (q_next g) (q_prev g) zs"
    using br chain_inner [of "q_next g" "q_prev g" gr zs gr] by (auto simp: body_ok_def e(3))
  have "heap_ok (g\<lparr>q_next := nx, q_prev := pv\<rparr>) ((B(r := []))(p := xs @ zs @ ys))"
  proof (rule heap_splice [OF h1 [simplified]])
    show "(B(r := [])) p = xs @ [n] @ ys" using R B by simp
    show "chain (q_next (g\<lparr>q_next := nx, q_prev := pv\<rparr>)) (q_prev (g\<lparr>q_next := nx, q_prev := pv\<rparr>))
      (last (q_rguard ?g1 p # xs) # zs @ [hd (ys @ [q_rguard ?g1 p])])"
    proof -
      have "chain nx pv zs = chain (q_next g) (q_prev g) zs"
      proof (rule chain_cong)
        fix x assume x: "x \<in> set (butlast zs)"
        then have "x \<in> set zs" by (rule in_set_butlastD)
        moreover have "x \<noteq> last zs" using x dz(1) append_butlast_last_id [OF R(2)] by (metis distinct_append not_distinct_conv_prefix distinct.simps(2) disjoint_iff list.set_intros(1))
        ultimately show "nx x = q_next g x" using dis [of x] inr unfolding f by auto
      next
        fix x assume x: "x \<in> set (tl zs)"
        then have "x \<in> set zs" using R(2) by (meson list.set_sel(2))
        moreover have "x \<noteq> hd zs" using x dz(1) R(2) by (cases zs) auto
        ultimately show "pv x = q_prev g x" using dis [of x] inr unfolding f by auto
      qed
      moreover have "nx lt = hd zs" "pv (hd zs) = lt" "nx (last zs) = rt" "pv rt = last zs"
        using dis ends inr unfolding f by auto
      ultimately show ?thesis using chain_ends [of nx pv zs lt rt] dz(2) R(2) by (simp add: e)
    qed
  next
    fix x assume "x \<in> set zs"
    then show "x \<notin> set ((B(r := [])) r')" for r' using heap_okD(3) [OF h, of x r r'] R(1) by auto
    from \<open>x \<in> set zs\<close> br show "q_guard (g\<lparr>q_next := nx, q_prev := pv\<rparr>) x = None \<and> 0 < x \<and> x < q_top (g\<lparr>q_next := nx, q_prev := pv\<rparr>)"
      by (auto simp: body_ok_def)
  next
    fix x assume "x \<noteq> last (q_rguard ?g1 p # xs)" "x \<notin> set ([n] @ zs)"
    then show "q_next (g\<lparr>q_next := nx, q_prev := pv\<rparr>) x = q_next ?g1 x" using ends(2) by (auto simp: f e(1))
  next
    fix x assume "x \<noteq> hd (ys @ [q_rguard ?g1 p])" "x \<notin> set ([n] @ zs)"
    then show "q_prev (g\<lparr>q_next := nx, q_prev := pv\<rparr>) x = q_prev ?g1 x" using ends(1) by (auto simp: f e(2))
  qed (use l(6) dz(1) in simp_all)
  then show ?thesis .
qed

end
