(* ===== verification/SequiturInv.thy ===== *)
theory SequiturInv
  imports SequiturHeap
begin

text \<open>
  The invariant of the grammar.  \<open>B\<close> gives every rule its body nodes and \<open>W\<close> the word of
  terminals it stands for; \<open>\<rho>\<close> ranks the rules so that a body only refers to smaller ones.  Each
  structural change is described once on the heap and then shown to keep every part.
\<close>

section \<open>The parts of the invariant\<close>

definition word :: "seq \<Rightarrow> (int \<Rightarrow> Symbol list) \<Rightarrow> nat \<Rightarrow> Symbol list" where
  "word g W n = (case q_ref g n of Some r \<Rightarrow> W r | None \<Rightarrow> [q_val g n])"

definition nodes :: "(int \<Rightarrow> nat list) \<Rightarrow> nat set" where
  "nodes B = (\<Union>r. set (B r))"

definition refs :: "seq \<Rightarrow> (int \<Rightarrow> nat list) \<Rightarrow> int \<Rightarrow> nat set" where
  "refs g B q = {n \<in> nodes B. q_ref g n = Some q}"

abbreviation live :: "seq \<Rightarrow> int set" where "live g \<equiv> set (q_byID g)"

definition gram_ok :: "seq \<Rightarrow> (int \<Rightarrow> nat list) \<Rightarrow> (int \<Rightarrow> Symbol list) \<Rightarrow> bool" where
  "gram_ok g B W \<longleftrightarrow> heap_ok g B \<and> q_rguard g 0 \<noteq> 0 \<and> 0 < q_nextID g \<and> sorted (q_byID g) \<and> distinct (q_byID g)
     \<and> (\<forall>r \<in> live g. 0 < r \<and> r < q_nextID g \<and> q_rguard g r \<noteq> 0 \<and> B r \<noteq> [] \<and> W r \<noteq> [])
     \<and> (\<forall>r. r \<notin> insert 0 (live g) \<longrightarrow> B r = [])
     \<and> (\<forall>n \<in> nodes B. \<forall>q. q_ref g n = Some q \<longrightarrow> q \<in> live g)
     \<and> (\<forall>r. q_rguard g r \<noteq> 0 \<longrightarrow> q_ref g (q_rguard g r) = None)
     \<and> (\<forall>r \<in> insert 0 (live g). W r = concat (map (word g W) (B r)))
     \<and> (\<forall>q \<in> live g. q_uses g q = int (card (refs g B q)))"

definition ranks :: "seq \<Rightarrow> (int \<Rightarrow> nat list) \<Rightarrow> (int \<Rightarrow> nat) \<Rightarrow> bool" where
  "ranks g B \<rho> \<longleftrightarrow> (\<forall>r. \<forall>n \<in> set (B r). \<forall>q. q_ref g n = Some q \<longrightarrow> \<rho> q < \<rho> r)"

definition used :: "seq \<Rightarrow> (int \<Rightarrow> nat list) \<Rightarrow> bool" where
  "used g B \<longleftrightarrow> (\<forall>q \<in> live g. refs g B q \<noteq> {})"

definition adj :: "(int \<Rightarrow> nat list) \<Rightarrow> nat \<Rightarrow> nat \<Rightarrow> bool" where
  "adj B m s \<longleftrightarrow> (\<exists>r xs ys. B r = xs @ m # s # ys)"

definition index_ok :: "seq \<Rightarrow> (int \<Rightarrow> nat list) \<Rightarrow> bool" where
  "index_ok g B \<longleftrightarrow> (\<forall>k m. q_index g k = Some m \<longrightarrow> (\<exists>s. adj B m s \<and> k = (node_key g m, node_key g s)))"

definition grammar_inv :: "seq \<Rightarrow> (int \<Rightarrow> nat list) \<Rightarrow> (int \<Rightarrow> Symbol list) \<Rightarrow> bool" where
  "grammar_inv g B W \<longleftrightarrow> gram_ok g B W \<and> (\<exists>\<rho>. ranks g B \<rho>) \<and> used g B \<and> index_ok g B"

text \<open>Every structural change makes this smaller.\<close>

definition mu :: "seq \<Rightarrow> (int \<Rightarrow> nat list) \<Rightarrow> int" where
  "mu g B = 2 * int (card (nodes B)) - int (length (q_byID g))"

lemma gram_okD:
  assumes "gram_ok g B W"
  shows "heap_ok g B" "q_rguard g 0 \<noteq> 0" "sorted (q_byID g)" "distinct (q_byID g)" "0 < q_nextID g"
    "r \<in> live g \<Longrightarrow> 0 < r" "r \<in> live g \<Longrightarrow> r < q_nextID g" "r \<in> live g \<Longrightarrow> q_rguard g r \<noteq> 0" "r \<in> live g \<Longrightarrow> B r \<noteq> []" "r \<in> live g \<Longrightarrow> W r \<noteq> []"
    "r \<notin> insert 0 (live g) \<Longrightarrow> B r = []"
    "n \<in> nodes B \<Longrightarrow> q_ref g n = Some q \<Longrightarrow> q \<in> live g"
    "q_rguard g r \<noteq> 0 \<Longrightarrow> q_ref g (q_rguard g r) = None"
    "r \<in> insert 0 (live g) \<Longrightarrow> W r = concat (map (word g W) (B r))"
    "q \<in> live g \<Longrightarrow> q_uses g q = int (card (refs g B q))"
  using assms unfolding gram_ok_def by blast+

lemma gram_okI:
  assumes "heap_ok g B" "q_rguard g 0 \<noteq> 0" "0 < q_nextID g" "sorted (q_byID g)" "distinct (q_byID g)"
    "\<And>r. r \<in> live g \<Longrightarrow> 0 < r \<and> r < q_nextID g \<and> q_rguard g r \<noteq> 0 \<and> B r \<noteq> [] \<and> W r \<noteq> []"
    "\<And>r. r \<notin> insert 0 (live g) \<Longrightarrow> B r = []"
    "\<And>n q. n \<in> nodes B \<Longrightarrow> q_ref g n = Some q \<Longrightarrow> q \<in> live g"
    "\<And>r. q_rguard g r \<noteq> 0 \<Longrightarrow> q_ref g (q_rguard g r) = None"
    "\<And>r. r \<in> insert 0 (live g) \<Longrightarrow> W r = concat (map (word g W) (B r))"
    "\<And>q. q \<in> live g \<Longrightarrow> q_uses g q = int (card (refs g B q))"
  shows "gram_ok g B W"
  unfolding gram_ok_def using assms by blast

lemma in_nodes: "n \<in> set (B r) \<Longrightarrow> n \<in> nodes B"
  by (auto simp: nodes_def)

lemma nodes_bound: "heap_ok g B \<Longrightarrow> n \<in> nodes B \<Longrightarrow> 0 < n \<and> n < q_top g \<and> q_guard g n = None"
  using heap_okD(1,2) unfolding nodes_def body_ok_def by (metis (no_types, lifting) UN_E)

lemma nodes_finite: "heap_ok g B \<Longrightarrow> finite (nodes B)"
  by (rule finite_subset [of _ "{..<q_top g}"]) (auto dest: nodes_bound)

lemma refs_finite: "heap_ok g B \<Longrightarrow> finite (refs g B q)"
  by (rule finite_subset [OF _ nodes_finite]) (auto simp: refs_def)

lemma nodes_upd:
  assumes "heap_ok g B"
  shows "nodes (B(p := as)) = (nodes B - set (B p)) \<union> set as"
  using heap_okD(3) [OF assms] unfolding nodes_def by (auto split: if_splits)

lemma owner:
  assumes "gram_ok g B W" "n \<in> set (B r)"
  shows "r \<in> insert 0 (live g)"
  using gram_okD(11) [OF assms(1), of r] assms(2) by (cases "r \<in> insert 0 (live g)") auto

lemma word_nonempty:
  assumes "gram_ok g B W" "n \<in> nodes B"
  shows "word g W n \<noteq> []"
  using gram_okD(10,12) [OF assms(1)] assms(2) by (auto simp: word_def split: option.splits)

lemma live_le_nodes:
  assumes "gram_ok g B W"
  shows "length (q_byID g) \<le> card (nodes B)"
proof -
  have "length (q_byID g) = card (live g)" using gram_okD(4) [OF assms] by (simp add: distinct_card)
  also have "\<dots> = (\<Sum>r \<in> live g. 1)" by simp
  also have "\<dots> \<le> (\<Sum>r \<in> live g. card (set (B r)))"
    using gram_okD(9) [OF assms] by (intro sum_mono) (simp add: Suc_leI card_gt_0_iff)
  also have "\<dots> = card (\<Union>r \<in> live g. set (B r))"
    using heap_okD(3) [OF gram_okD(1) [OF assms]] by (intro card_UN_disjoint [symmetric]) auto
  also have "\<dots> \<le> card (nodes B)"
    by (intro card_mono nodes_finite [OF gram_okD(1) [OF assms]]) (auto simp: nodes_def)
  finally show ?thesis .
qed

lemma mu_bounds:
  assumes "gram_ok g B W"
  shows "int (card (nodes B)) \<le> mu g B" "mu g B \<le> 2 * int (q_top g)"
proof -
  show "int (card (nodes B)) \<le> mu g B" using live_le_nodes [OF assms] by (simp add: mu_def)
  have "card (nodes B) \<le> card {..<q_top g}"
    using nodes_bound [OF gram_okD(1) [OF assms]] by (intro card_mono) auto
  then show "mu g B \<le> 2 * int (q_top g)" by (simp add: mu_def)
qed

section \<open>Adjacent nodes and the index\<close>

lemma split_unique:
  assumes "us @ m # vs = as @ m # bs" "distinct (us @ m # vs)"
  shows "us = as \<and> vs = bs"
  using assms
proof (induction us arbitrary: as)
  case Nil
  then show ?case by (cases as) auto
next
  case (Cons u us)
  then show ?case by (cases as) auto
qed

lemma adj_splice:
  assumes h: "heap_ok g B" and "adj B m s" "B p = xs @ mid @ ys" "m \<notin> set mid" "xs = [] \<or> m \<noteq> last xs"
  shows "adj (B(p := xs @ mid' @ ys)) m s \<and> s \<notin> set mid"
proof -
  obtain r us vs where r: "B r = us @ m # s # vs" using assms(2) by (auto simp: adj_def)
  show ?thesis
  proof (cases "r = p")
    case False
    then have "s \<notin> set mid" using heap_okD(3) [OF h, of s r p] r assms(3) by auto
    moreover have "(B(p := xs @ mid' @ ys)) r = us @ m # s # vs" using False r by simp
    ultimately show ?thesis unfolding adj_def by blast
  next
    case True
    have d: "distinct (B p)" using heap_ok_body [OF h, of p] r True by (auto simp: body_ok_def)
    have e: "us @ m # s # vs = xs @ mid @ ys" using r True assms(3) by simp
    have "m \<in> set xs \<or> m \<in> set ys" using arg_cong [OF e, of set] assms(4) by auto
    then show ?thesis
    proof
      assume "m \<in> set xs"
      then obtain as bs where x: "xs = as @ m # bs" by (auto dest: split_list)
      then have "us = as" "s # vs = bs @ mid @ ys"
        using split_unique [of us m "s # vs" as "bs @ mid @ ys"] e d r True by simp_all
      moreover have "bs \<noteq> []" using assms(5) x by auto
      ultimately obtain bs' where "bs = s # bs'" by (cases bs) auto
      then have "(B(p := xs @ mid' @ ys)) p = as @ m # s # bs' @ mid' @ ys" "s \<in> set xs" using x by simp_all
      then show ?thesis unfolding adj_def using d assms(3) by (metis Un_iff disjoint_iff distinct_append set_append)
    next
      assume "m \<in> set ys"
      then obtain as bs where y: "ys = as @ m # bs" by (auto dest: split_list)
      then have "us = xs @ mid @ as" "bs = s # vs"
        using split_unique [of us m "s # vs" "xs @ mid @ as" bs] e d r True by simp_all
      then have "(B(p := xs @ mid' @ ys)) p = (xs @ mid' @ as) @ m # s # vs" "s \<in> set ys" using y by simp_all
      then show ?thesis unfolding adj_def using d assms(3) by (metis Un_iff disjoint_iff distinct_append set_append)
    qed
  qed
qed

text \<open>Under the invariant, dropping a node's digram removes exactly the entries that point at it.\<close>

definition forget :: "nat \<Rightarrow> seq \<Rightarrow> seq" where
  "forget n g = g\<lparr>q_index := (\<lambda>k. if q_index g k = Some n then None else q_index g k)\<rparr>"

text \<open>A place an operation may look at: a body node, or a guard.\<close>

definition place :: "seq \<Rightarrow> (int \<Rightarrow> nat list) \<Rightarrow> nat \<Rightarrow> bool" where
  "place g B n \<longleftrightarrow> n \<in> nodes B \<or> (\<exists>r. n = q_rguard g r \<and> q_rguard g r \<noteq> 0)"

lemma adj_next:
  assumes "heap_ok g B" "adj B m s"
  shows "q_next g m = s" "q_prev g s = m" "q_guard g m = None" "q_guard g s = None" "m \<noteq> 0" "s \<noteq> 0" "m \<in> nodes B" "s \<in> nodes B"
proof -
  obtain r xs ys where r: "B r = xs @ m # s # ys" using assms(2) by (auto simp: adj_def)
  show "q_next g m = s" "q_guard g m = None" "m \<noteq> 0" using node_links [OF assms(1) r] by simp_all
  show "q_prev g s = m" "q_guard g s = None" "s \<noteq> 0" using node_links [OF assms(1), of r "xs @ [m]" s ys] r by simp_all
  show "m \<in> nodes B" "s \<in> nodes B" using in_nodes [of _ B r] r by simp_all
qed

text \<open>What a digram lookup sees at a place.\<close>

lemma digramAt_cases:
  assumes h: "heap_ok g B" and p: "place g B n"
  obtains (pair) s where "adj B n s" "digramAt n g = Some (Some (node_key g n, node_key g s))"
    | (lone) "digramAt n g = Some None" "\<And>s. \<not> adj B n s"
proof (cases "n \<in> nodes B")
  case False
  then obtain r where r: "n = q_rguard g r" "q_rguard g r \<noteq> 0" using p by (auto simp: place_def)
  then have "digramAt n g = Some None" using guard_links(3) [OF h r(2)] by (simp add: digramAt_def)
  moreover have "\<not> adj B n s" for s using adj_next(7) [OF h] False by blast
  ultimately show ?thesis by (rule lone)
next
  case True
  then obtain r xs ys where r: "B r = xs @ n # ys" unfolding nodes_def by (auto dest: split_list)
  note l = node_links [OF h r]
  show ?thesis
  proof (cases ys)
    case Nil
    then have "digramAt n g = Some None" using l by (simp add: digramAt_def)
    moreover have "\<not> adj B n s" for s
    proof
      assume "adj B n s"
      from adj_next(1,4) [OF h this] l Nil show False by simp
    qed
    ultimately show ?thesis by (rule lone)
  next
    case (Cons s ys')
    then have a: "adj B n s" using r unfolding adj_def by blast
    then have "digramAt n g = Some (Some (node_key g n, node_key g s))"
      using l adj_next [OF h a] by (simp add: digramAt_def)
    with a show ?thesis by (rule pair)
  qed
qed

lemma dropDigram_forget:
  assumes "heap_ok g B" "index_ok g B" "place g B n"
  shows "dropDigram n g = Some (forget n g)"
proof -
  have own: "\<exists>s. adj B n s \<and> k = (node_key g n, node_key g s)" if "q_index g k = Some n" for k
    using assms(2) that unfolding index_ok_def by blast
  from assms(1,3) show ?thesis
  proof (cases rule: digramAt_cases)
    case (pair s)
    obtain k0 where k0: "k0 = (node_key g n, node_key g s)" by simp
    have *: "q_index g k \<noteq> Some n" if "k \<noteq> k0" for k
      using own [of k] adj_next(1) [OF assms(1)] pair(1) k0 that by metis
    have "(if q_index g k = Some n then None else q_index g k)
      = (if q_index g k0 = Some n then (q_index g)(k0 := None) else q_index g) k" for k
      using * [of k] by (cases "k = k0") simp_all
    then show ?thesis using pair(2) unfolding k0 [symmetric] by (simp add: dropDigram_def forget_def)
  next
    case lone
    then have "(\<lambda>k. if q_index g k = Some n then None else q_index g k) = q_index g" using own by (intro ext) auto
    then show ?thesis using lone(1) by (simp add: dropDigram_def forget_def)
  qed
qed

end
