(* ===== verification/SequiturSubst.thy ===== *)
theory SequiturSubst
  imports SequiturInv
begin

text \<open>
  Replacing a digram by a reference: what \<open>substitute\<close> does to the heap before it looks at the new
  digrams, and that every part of the invariant survives it.
\<close>

section \<open>Frames\<close>

lemma heap_ok_cong:
  assumes "q_next g' = q_next g" "q_prev g' = q_prev g" "q_guard g' = q_guard g" "q_top g' = q_top g" "q_rguard g' = q_rguard g"
  shows "heap_ok g' B = heap_ok g B"
  unfolding heap_ok_def body_ok_def by (simp add: assms)

lemma heap_ok_upd [simp]:
  "heap_ok (g\<lparr>q_index := ix\<rparr>) B = heap_ok g B" "heap_ok (g\<lparr>q_uses := u\<rparr>) B = heap_ok g B" "heap_ok (g\<lparr>q_ref := f\<rparr>) B = heap_ok g B"
  "heap_ok (g\<lparr>q_byID := l\<rparr>) B = heap_ok g B" "heap_ok (g\<lparr>q_nextID := i\<rparr>) B = heap_ok g B" "heap_ok (g\<lparr>q_sweeps := i\<rparr>) B = heap_ok g B"
  by (rule heap_ok_cong; simp)+

definition dec :: "int option \<Rightarrow> (int \<Rightarrow> int) \<Rightarrow> int \<Rightarrow> int" where
  "dec q u = (case q of Some r \<Rightarrow> u(r := u r - 1) | None \<Rightarrow> u)"

lemma drop_ref_sel [simp]:
  "q_ref (drop_ref n g) = (q_ref g)(n := None)" "q_uses (drop_ref n g) = dec (q_ref g n) (q_uses g)"
  "q_val (drop_ref n g) = q_val g" "q_guard (drop_ref n g) = q_guard g" "q_top (drop_ref n g) = q_top g" "q_rguard (drop_ref n g) = q_rguard g"
  "q_next (drop_ref n g) = q_next g" "q_prev (drop_ref n g) = q_prev g" "q_index (drop_ref n g) = q_index g"
  "q_byID (drop_ref n g) = q_byID g" "q_nextID (drop_ref n g) = q_nextID g" "q_sweeps (drop_ref n g) = q_sweeps g"
  by (auto simp: drop_ref_def add_uses_def dec_def fun_upd_idem split: option.splits)

lemma heap_ok_drop_ref [simp]: "heap_ok (drop_ref n g) B = heap_ok g B"
  by (rule heap_ok_cong) simp_all

lemma heap_ok_add_uses [simp]: "heap_ok (add_uses r d g) B = heap_ok g B"
  by (simp add: add_uses_def)

lemma heap_ok_forget [simp]: "heap_ok (forget n g) B = heap_ok g B"
  by (simp add: forget_def)

lemma forget_sel [simp]:
  "q_ref (forget n g) = q_ref g" "q_uses (forget n g) = q_uses g" "q_val (forget n g) = q_val g" "q_guard (forget n g) = q_guard g"
  "q_top (forget n g) = q_top g" "q_rguard (forget n g) = q_rguard g" "q_next (forget n g) = q_next g" "q_prev (forget n g) = q_prev g"
  "q_byID (forget n g) = q_byID g" "q_nextID (forget n g) = q_nextID g" "q_sweeps (forget n g) = q_sweeps g"
  "q_index (forget n g) k = (if q_index g k = Some n then None else q_index g k)"
  by (simp_all add: forget_def)

lemma node_key_forget [simp]: "node_key (forget n g) = node_key g"
  by (simp add: node_key_def fun_eq_iff)

lemma place_forget [simp]: "place (forget n g) B x = place g B x"
  by (simp add: place_def)

lemma index_ok_forget: "index_ok g B \<Longrightarrow> index_ok (forget n g) B"
  unfolding index_ok_def by (simp split: if_splits)

lemma newNode_ok:
  assumes "heap_ok g B"
  shows "heap_ok (snd (newNode ref v None g)) B"
  by (rule heap_frame [OF assms]) (simp_all add: newNode_def Let_def)

lemma place_left:
  assumes "heap_ok g B" "B p = xs @ ys" "q_rguard g p \<noteq> 0"
  shows "place g B (last (q_rguard g p # xs))"
proof (cases "xs = []")
  case True
  then show ?thesis using assms(3) by (auto simp: place_def)
next
  case False
  then have "last xs \<in> set (B p)" using assms(2) by simp
  then show ?thesis using False by (simp add: place_def in_nodes)
qed

lemma place_node: "n \<in> set (B r) \<Longrightarrow> place g B n"
  by (simp add: place_def in_nodes)

section \<open>The structural part of a substitution\<close>

definition substituted :: "seq \<Rightarrow> (int \<Rightarrow> nat list) \<Rightarrow> int \<Rightarrow> nat list \<Rightarrow> nat \<Rightarrow> nat \<Rightarrow> nat list \<Rightarrow> int \<Rightarrow> seq \<Rightarrow> bool" where
  "substituted g B p xs n s ys r g' \<longleftrightarrow> heap_ok g' (B(p := xs @ q_top g # ys))
     \<and> q_ref g' = (q_ref g)(n := None, s := None, q_top g := Some r) \<and> q_val g' = (q_val g)(q_top g := [])
     \<and> q_uses g' = (let u = dec (q_ref g s) (dec (q_ref g n) (q_uses g)) in u(r := u r + 1))
     \<and> q_rguard g' = q_rguard g \<and> q_top g' = Suc (q_top g) \<and> q_byID g' = q_byID g \<and> q_nextID g' = q_nextID g
     \<and> (\<forall>k. q_index g' k = (if q_index g k \<in> {Some (last (q_rguard g p # xs)), Some n, Some s} then None else q_index g k))"

lemma substitutedD:
  assumes "substituted g B p xs n s ys r g'"
  shows "heap_ok g' (B(p := xs @ q_top g # ys))"
    "q_ref g' = (q_ref g)(n := None, s := None, q_top g := Some r)" "q_val g' = (q_val g)(q_top g := [])"
    "q_uses g' = (let u = dec (q_ref g s) (dec (q_ref g n) (q_uses g)) in u(r := u r + 1))"
    "q_rguard g' = q_rguard g" "q_top g' = Suc (q_top g)" "q_byID g' = q_byID g" "q_nextID g' = q_nextID g"
    "q_index g' k = (if q_index g k \<in> {Some (last (q_rguard g p # xs)), Some n, Some s} then None else q_index g k)"
  using assms unfolding substituted_def by blast+

lemma substitute_step:
  assumes h: "heap_ok g B" and ix: "index_ok g B" and B: "B p = xs @ n # s # ys"
  obtains g' where "substituted g B p xs n s ys r g'"
    "\<And>chk. substitute chk n r g =
       do { (consumed, h) \<leftarrow> chk (last (q_rguard g p # xs)) g'; if consumed then Some h else map_option snd (chk (q_top g) h) }"
proof -
  define lt where "lt = last (q_rguard g p # xs)"
  note l = node_links [OF h B]
  have rg: "q_rguard g p \<noteq> 0" by (rule l(6))
  have pl: "place g B lt" "place g B n" "place g B s"
    using place_left [OF h B rg] place_node [of _ B p] B by (simp_all add: lt_def)
  let ?g3 = "forget s (forget n (forget lt g))"
  have drops: "dropDigram lt g = Some (forget lt g)" "dropDigram n (forget lt g) = Some (forget n (forget lt g))"
    "dropDigram s (forget n (forget lt g)) = Some ?g3"
    by (intro dropDigram_forget [of _ B]; simp add: h ix pl index_ok_forget)+
  have h3: "heap_ok ?g3 B" using h by simp
  obtain nx1 pv1 where u1: "unlinkNode n ?g3 = Some (drop_ref n (?g3\<lparr>q_next := nx1, q_prev := pv1\<rparr>))"
    "heap_ok (?g3\<lparr>q_next := nx1, q_prev := pv1\<rparr>) (B(p := xs @ s # ys))"
    by (rule unlinkNode_ok [OF h3 B])
  let ?g4 = "drop_ref n (?g3\<lparr>q_next := nx1, q_prev := pv1\<rparr>)"
  have h4: "heap_ok ?g4 (B(p := xs @ s # ys))" using u1(2) by simp
  obtain nx2 pv2 where u2: "unlinkNode s ?g4 = Some (drop_ref s (?g4\<lparr>q_next := nx2, q_prev := pv2\<rparr>))"
    "heap_ok (?g4\<lparr>q_next := nx2, q_prev := pv2\<rparr>) (B(p := xs @ s # ys, p := xs @ ys))"
    by (rule unlinkNode_ok [OF h4, of p xs s ys]) simp_all
  let ?g5 = "drop_ref s (?g4\<lparr>q_next := nx2, q_prev := pv2\<rparr>)"
  define N where "N = snd (newNode (Some r) [] None ?g5)"
  have nn: "newNode (Some r) [] None ?g5 = (q_top g, N)" by (simp add: N_def newNode_def Let_def)
  let ?g6 = "add_uses r 1 N"
  have h6: "heap_ok ?g6 (B(p := xs @ ys))" using newNode_ok [of ?g5] u2(2) by (simp add: N_def)
  have "q_top g \<notin> set (B r')" for r' using nodes_bound [OF h in_nodes, of "q_top g" r'] by auto
  from this [of p] this have top: "q_top g \<notin> set ((B(p := xs @ ys)) r')" for r' using B by (auto split: if_splits)
  have sel6: "q_rguard ?g6 = q_rguard g" "q_top ?g6 = Suc (q_top g)" "q_guard ?g6 (q_top g) = None"
    by (simp_all add: N_def add_uses_def newNode_def Let_def)
  obtain nx pv where i: "insertAfter lt (q_top g) ?g6 = Some (?g6\<lparr>q_next := nx, q_prev := pv\<rparr>)"
    "heap_ok (?g6\<lparr>q_next := nx, q_prev := pv\<rparr>) (B(p := xs @ ys, p := xs @ q_top g # ys))"
    by (rule insertAfter_ok [OF h6, of p xs ys lt "q_top g"]) (use top sel6 rg l(5) lt_def in auto)
  let ?g' = "?g6\<lparr>q_next := nx, q_prev := pv\<rparr>"
  have "n \<noteq> s" using heap_ok_body [OF h, of p] B by (auto simp: body_ok_def)
  then have "substituted g B p xs n s ys r ?g'"
    unfolding substituted_def using i(2) by (simp add: N_def add_uses_def newNode_def Let_def lt_def fun_upd_twist)
  moreover have "substitute chk n r g =
       do { (consumed, h) \<leftarrow> chk (last (q_rguard g p # xs)) ?g'; if consumed then Some h else map_option snd (chk (q_top g) h) }" for chk
  proof -
    have ln: "q_prev g n = lt" "q_next g n = s" using l by (simp_all add: lt_def)
    show ?thesis using l(4) drops u1(1) u2(1) i(1) nn
      by (simp add: substitute_def ln lt_def [symmetric] Let_def del: last.simps)
  qed
  ultimately show ?thesis by (rule that)
qed

lemma substituted_nodes:
  assumes h: "heap_ok g B" and B: "B p = xs @ n # s # ys"
  shows "nodes (B(p := xs @ q_top g # ys)) = (nodes B - {n, s}) \<union> {q_top g}" "n \<noteq> s" "q_top g \<notin> nodes B"
    "n \<in> nodes B" "s \<in> nodes B" "distinct (xs @ n # s # ys)"
proof -
  have d: "distinct (xs @ n # s # ys)" using heap_ok_body [OF h, of p] B by (auto simp: body_ok_def)
  then show "distinct (xs @ n # s # ys)" "n \<noteq> s" by auto
  show "q_top g \<notin> nodes B" using nodes_bound [OF h] by blast
  have sub: "set (xs @ n # s # ys) \<subseteq> nodes B" using in_nodes [of _ B p] B by auto
  then show "n \<in> nodes B" "s \<in> nodes B" by auto
  show "nodes (B(p := xs @ q_top g # ys)) = (nodes B - {n, s}) \<union> {q_top g}"
    unfolding nodes_upd [OF h] B using d sub by auto
qed

lemma substituted_refs:
  assumes "heap_ok g B" "B p = xs @ n # s # ys" "substituted g B p xs n s ys r g'"
  shows "refs g' (B(p := xs @ q_top g # ys)) q = (refs g B q - {n, s}) \<union> (if q = r then {q_top g} else {})"
  using substituted_nodes(3) [OF assms(1,2)] unfolding refs_def substituted_nodes(1) [OF assms(1,2)] substitutedD(2) [OF assms(3)] by auto

lemma card_refs_drop:
  assumes "heap_ok g B" "n \<noteq> s" "n \<in> nodes B" "s \<in> nodes B"
  shows "dec (q_ref g s) (dec (q_ref g n) u) q = u q - int (card (refs g B q)) + int (card (refs g B q - {n, s}))"
proof -
  note f = refs_finite [OF assms(1)]
  have 1: "int (card (refs g B q - {n})) = int (card (refs g B q)) - (if q_ref g n = Some q then 1 else 0)"
    using assms(3) f [of q] card_gt_0_iff [of "refs g B q"] by (auto simp: refs_def card_Diff_singleton_if of_nat_diff)
  have 2: "int (card (refs g B q - {n} - {s})) = int (card (refs g B q - {n})) - (if q_ref g s = Some q then 1 else 0)"
    using assms(2,4) f [of q] card_gt_0_iff [of "refs g B q - {n}"] by (auto simp: refs_def card_Diff_singleton_if of_nat_diff)
  have e: "refs g B q - {n, s} = refs g B q - {n} - {s}" by auto
  show ?thesis unfolding e 2 1 by (auto simp: dec_def split: option.splits)
qed

lemma substituted_word:
  assumes "substituted g B p xs n s ys r g'" "x \<notin> {n, s, q_top g}"
  shows "word g' W x = word g W x"
  using assms(2) by (simp add: word_def substitutedD(2,3) [OF assms(1)] split: option.split)

lemma substituted_gram:
  assumes G: "gram_ok g B W" and B: "B p = xs @ n # s # ys" and S: "substituted g B p xs n s ys r g'"
    and r: "r \<in> live g" "W r = word g W n @ word g W s"
  shows "gram_ok g' (B(p := xs @ q_top g # ys)) W"
proof -
  let ?t = "q_top g" let ?B = "B(p := xs @ q_top g # ys)"
  note h = gram_okD(1) [OF G] and N = substituted_nodes [OF gram_okD(1) [OF G] B]
  have h': "heap_ok g' ?B" and byID: "q_byID g' = q_byID g" and rg: "q_rguard g' = q_rguard g" and nid: "q_nextID g' = q_nextID g"
    and ref: "q_ref g' = (q_ref g)(n := None, s := None, ?t := Some r)"
    and us: "q_uses g' = (let u = dec (q_ref g s) (dec (q_ref g n) (q_uses g)) in u(r := u r + 1))"
    using substitutedD [OF S] by blast+
  have pl: "p \<in> insert 0 (live g)" by (rule owner [OF G, of n]) (simp add: B)
  have same: "map (word g' W) as = map (word g W) as" if "set as \<inter> {n, s, ?t} = {}" for as
    using that by (intro map_cong refl substituted_word [OF S]) auto
  have W: "W q = concat (map (word g' W) (?B q))" if "q \<in> insert 0 (live g)" for q
  proof (cases "q = p")
    case True
    have "?t \<notin> set (B p)" using N(3) in_nodes [of ?t B p] by blast
    then have "set xs \<inter> {n, s, ?t} = {}" "set ys \<inter> {n, s, ?t} = {}" using N(6) B by auto
    then have m: "map (word g' W) xs = map (word g W) xs" "map (word g' W) ys = map (word g W) ys" using same by blast+
    have "word g' W ?t = W r" by (simp add: word_def ref)
    moreover have "W p = concat (map (word g W) (B p))" by (rule gram_okD(14) [OF G pl])
    ultimately show ?thesis using True r(2) by (simp add: B m del: map_eq_conv)
  next
    case False
    then have "set (B q) \<inter> {n, s, ?t} = {}"
      using heap_okD(3) [OF h, of _ q p] B N(3) in_nodes [of _ B q] by fastforce
    then have "map (word g' W) (B q) = map (word g W) (B q)" by (rule same)
    then show ?thesis using False gram_okD(14) [OF G that] by (simp del: map_eq_conv)
  qed
  have U: "q_uses g' q = int (card (refs g' ?B q))" if "q \<in> live g" for q
  proof -
    have "card (refs g' ?B q) = card (refs g B q - {n, s}) + (if q = r then 1 else 0)"
      using refs_finite [OF h, of q] N(3) unfolding substituted_refs [OF h B S] by (auto simp: refs_def)
    then show ?thesis using card_refs_drop [OF h N(2,4,5), of "q_uses g"] gram_okD(15) [OF G that] by (auto simp: us Let_def)
  qed
  have R: "q \<in> live g" if "x \<in> nodes ?B" "q_ref g' x = Some q" for x q
    using that r(1) gram_okD(12) [OF G, of x q] unfolding N(1) ref by (auto split: if_splits)
  have Z: "q_ref g' (q_rguard g q) = None" if "q_rguard g q \<noteq> 0" for q
    using gram_okD(13) [OF G that] guard_links(4) [OF h that] by (simp add: ref)
  show ?thesis unfolding gram_ok_def byID rg nid
    using h' W U R Z gram_okD [OF G] pl B by simp
qed

lemma substituted_ranks:
  assumes "ranks g B \<rho>" "heap_ok g B" "B p = xs @ n # s # ys" "substituted g B p xs n s ys r g'" "\<rho> r < \<rho> p"
  shows "ranks g' (B(p := xs @ q_top g # ys)) \<rho>"
proof -
  have "\<rho> q < \<rho> r'" if x: "x \<in> set ((B(p := xs @ q_top g # ys)) r')" and q: "q_ref g' x = Some q" for r' x q
  proof (cases "x = q_top g")
    case True
    then have "x \<notin> set (B r')" using substituted_nodes(3) [OF assms(2,3)] in_nodes [of x B r'] by blast
    then have "r' = p" using x by (auto split: if_splits)
    then show ?thesis using True q assms(5) by (simp add: substitutedD(2) [OF assms(4)])
  next
    case False
    then have "x \<in> set (B r')" "q_ref g x = Some q" using x q assms(3) by (auto simp: substitutedD(2) [OF assms(4)] split: if_splits)
    then show ?thesis using assms(1) by (simp add: ranks_def)
  qed
  then show ?thesis unfolding ranks_def by blast
qed

lemma substituted_index:
  assumes ix: "index_ok g B" and h: "heap_ok g B" and B: "B p = xs @ n # s # ys" and S: "substituted g B p xs n s ys r g'"
  shows "index_ok g' (B(p := xs @ q_top g # ys))"
  unfolding index_ok_def
proof (intro allI impI)
  fix k m assume k: "q_index g' k = Some m"
  have q: "q_index g' k = (if q_index g k \<in> {Some (last (q_rguard g p # xs)), Some n, Some s} then None else q_index g k)"
    by (rule substitutedD(9) [OF S])
  then have k': "q_index g k = Some m" "m \<notin> {last (q_rguard g p # xs), n, s}" using k by (auto split: if_splits)
  then obtain s' where a: "adj B m s'" "k = (node_key g m, node_key g s')" using ix unfolding index_ok_def by blast
  have "adj (B(p := xs @ [q_top g] @ ys)) m s' \<and> s' \<notin> set [n, s]"
    by (rule adj_splice [OF h a(1)]) (use B k'(2) in auto)
  moreover have "node_key g' x = node_key g x" if "x \<in> nodes B" "x \<notin> {n, s}" for x
    using that substituted_nodes(3) [OF h B] by (auto simp: node_key_def substitutedD(2,3) [OF S])
  ultimately show "\<exists>s. adj (B(p := xs @ q_top g # ys)) m s \<and> k = (node_key g' m, node_key g' s)"
    using a k'(2) adj_next(7,8) [OF h a(1)] by auto
qed

lemma substituted_mu:
  assumes "heap_ok g B" "B p = xs @ n # s # ys" "substituted g B p xs n s ys r g'"
  shows "mu g' (B(p := xs @ q_top g # ys)) = mu g B - 2"
proof -
  note N = substituted_nodes [OF assms(1,2)] and f = nodes_finite [OF assms(1)]
  have "card (nodes B - {n, s}) = card (nodes B) - 2" using N(2,4,5) f by (simp add: card_Diff_subset)
  moreover have "card {n, s} \<le> card (nodes B)" using N(4,5) f by (intro card_mono) auto
  ultimately have "int (card (nodes (B(p := xs @ q_top g # ys)))) = int (card (nodes B)) - 1"
    unfolding N(1) using f N(2,3) by simp
  then show ?thesis by (simp add: mu_def substitutedD(7) [OF assms(3)])
qed

end
