(* ===== verification/SequiturExpand.thy ===== *)
theory SequiturExpand
  imports SequiturSubst
begin

text \<open>
  Inlining a rule at its only reference: what \<open>expandRef\<close> does to the heap before it looks at the new
  digrams, and that every part of the invariant survives it.
\<close>

definition expanded :: "seq \<Rightarrow> (int \<Rightarrow> nat list) \<Rightarrow> int \<Rightarrow> nat list \<Rightarrow> nat \<Rightarrow> nat list \<Rightarrow> int \<Rightarrow> seq \<Rightarrow> bool" where
  "expanded g B p xs n ys r g' \<longleftrightarrow> heap_ok g' (B(r := [], p := xs @ B r @ ys))
     \<and> q_ref g' = (q_ref g)(n := None) \<and> q_val g' = q_val g \<and> q_uses g' = (q_uses g)(r := 0)
     \<and> q_rguard g' = q_rguard g \<and> q_top g' = q_top g \<and> q_byID g' = removeAll r (q_byID g) \<and> q_nextID g' = q_nextID g
     \<and> (\<forall>k. q_index g' k = (if q_index g k \<in> {Some (last (q_rguard g p # xs)), Some n} then None else q_index g k))"

lemma expandedD:
  assumes "expanded g B p xs n ys r g'"
  shows "heap_ok g' (B(r := [], p := xs @ B r @ ys))"
    "q_ref g' = (q_ref g)(n := None)" "q_val g' = q_val g" "q_uses g' = (q_uses g)(r := 0)"
    "q_rguard g' = q_rguard g" "q_top g' = q_top g" "q_byID g' = removeAll r (q_byID g)" "q_nextID g' = q_nextID g"
    "q_index g' k = (if q_index g k \<in> {Some (last (q_rguard g p # xs)), Some n} then None else q_index g k)"
  using assms unfolding expanded_def by blast+

lemma expandRef_step:
  assumes h: "heap_ok g B" and ix: "index_ok g B" and B: "B p = xs @ n # ys" and r: "q_ref g n = Some r" "r \<noteq> p" "B r \<noteq> []"
  obtains g' where "expanded g B p xs n ys r g'"
    "\<And>chk. expandRef chk n g =
       do { (consumed, h) \<leftarrow> chk (last (q_rguard g p # xs)) g'; if consumed then Some h else map_option snd (chk (last (B r)) h) }"
proof -
  define lt rt gr where "lt = last (q_rguard g p # xs)" and "rt = hd (ys @ [q_rguard g p])" and "gr = q_rguard g r"
  note l = node_links [OF h B]
  have br: "body_ok g r (B r)" by (rule heap_ok_body [OF h r(3)])
  then have gr0: "gr \<noteq> 0" by (simp add: body_ok_def gr_def)
  have pl: "place g B lt" "place g B n"
    using place_left [OF h B l(6)] place_node [of _ B p] B by (simp_all add: lt_def)
  have drops: "dropDigram lt g = Some (forget lt g)" "dropDigram n (forget lt g) = Some (forget n (forget lt g))"
    by (intro dropDigram_forget [of _ B]; simp add: h ix pl index_ok_forget)+
  have gl: "q_next g gr = hd (B r)" "q_prev g gr = last (B r)"
    using guard_links [OF h, of r] gr0 r(3) by (simp_all add: gr_def)
  have nz: "lt \<noteq> 0" "rt \<noteq> 0" "hd (B r) \<noteq> 0" "last (B r) \<noteq> 0"
    using link_neighbours(1) [OF h l(6) B] link_neighbours(2) [OF h l(6), of "xs @ [n]" ys] B
      br hd_in_set [OF r(3)] last_in_set [OF r(3)] by (auto simp: lt_def rt_def body_ok_def)
  let ?nx = "(q_next g)(gr := gr, n := 0, lt := hd (B r), last (B r) := rt)"
  let ?pv = "(q_prev g)(gr := gr, n := 0, hd (B r) := lt, rt := last (B r))"
  let ?g2 = "forget n (forget lt g)"
  let ?g' = "?g2\<lparr>q_byID := removeAll r (q_byID g), q_uses := (q_uses g)(r := 0), q_ref := (q_ref g)(n := None), q_next := ?nx, q_prev := ?pv\<rparr>"
  have "heap_ok (g\<lparr>q_next := ?nx, q_prev := ?pv\<rparr>) (B(r := [], p := xs @ B r @ ys))"
    by (rule expand_links_ok [OF h B]) (use r lt_def rt_def gr_def in simp_all)
  then have "heap_ok ?g' (B(r := [], p := xs @ B r @ ys))"
    by (subst heap_ok_cong [of _ "g\<lparr>q_next := ?nx, q_prev := ?pv\<rparr>"]) simp_all
  then have "expanded g B p xs n ys r ?g'" unfolding expanded_def by (simp add: lt_def)
  moreover have "expandRef chk n g =
       do { (consumed, h) \<leftarrow> chk (last (q_rguard g p # xs)) ?g'; if consumed then Some h else map_option snd (chk (last (B r)) h) }" for chk
  proof -
    have ln: "q_prev g n = lt" "q_next g n = rt" using l by (simp_all add: lt_def rt_def)
    show ?thesis using l(4) r(1) drops nz gr0 gl
      by (simp add: expandRef_def link_def ln lt_def [symmetric] gr_def [symmetric] Let_def del: last.simps)
  qed
  ultimately show ?thesis by (rule that)
qed

lemma expanded_nodes:
  assumes h: "heap_ok g B" and B: "B p = xs @ n # ys" and r: "r \<noteq> p"
  shows "nodes (B(r := [], p := xs @ B r @ ys)) = nodes B - {n}" "n \<in> nodes B" "distinct (xs @ n # ys)"
proof -
  show d: "distinct (xs @ n # ys)" using heap_ok_body [OF h, of p] B by (auto simp: body_ok_def)
  show "n \<in> nodes B" using in_nodes [of n B p] B by simp
  have n: "n \<notin> set (B q)" if "q \<noteq> p" for q using heap_okD(3) [OF h, of n p q] B that by auto
  have "x \<in> nodes (B(r := [], p := xs @ B r @ ys)) \<longleftrightarrow> (\<exists>q. x \<in> set (B q)) \<and> x \<noteq> n" for x
  proof
    assume "x \<in> nodes (B(r := [], p := xs @ B r @ ys))"
    then obtain q where q: "x \<in> set ((B(r := [], p := xs @ B r @ ys)) q)" by (auto simp: nodes_def)
    then have "x \<in> set (B p) \<and> x \<noteq> n \<or> x \<in> set (B r) \<or> x \<in> set (B q) \<and> q \<noteq> p" using B d by (auto split: if_splits)
    then show "(\<exists>q. x \<in> set (B q)) \<and> x \<noteq> n" using n r by auto
  next
    assume "(\<exists>q. x \<in> set (B q)) \<and> x \<noteq> n"
    then obtain q where q: "x \<in> set (B q)" "x \<noteq> n" by blast
    have "x \<in> set ((B(r := [], p := xs @ B r @ ys)) (if q = r then p else q))" using q r B by auto
    then show "x \<in> nodes (B(r := [], p := xs @ B r @ ys))" by (rule in_nodes)
  qed
  then show "nodes (B(r := [], p := xs @ B r @ ys)) = nodes B - {n}" by (auto simp: nodes_def)
qed

lemma expanded_refs:
  assumes "heap_ok g B" "B p = xs @ n # ys" "r \<noteq> p" "expanded g B p xs n ys r g'"
  shows "refs g' (B(r := [], p := xs @ B r @ ys)) q = refs g B q - {n}"
  unfolding refs_def expanded_nodes(1) [OF assms(1-3)] expandedD(2) [OF assms(4)] by auto

lemma expanded_gram:
  assumes G: "gram_ok g B W" and B: "B p = xs @ n # ys" and S: "expanded g B p xs n ys r g'"
    and r: "q_ref g n = Some r" "r \<noteq> p" "q_uses g r = 1"
  shows "gram_ok g' (B(r := [], p := xs @ B r @ ys)) W" "refs g B r = {n}"
proof -
  let ?B = "B(r := [], p := xs @ B r @ ys)"
  note h = gram_okD(1) [OF G] and N = expanded_nodes [OF gram_okD(1) [OF G] B r(2)]
  have rl: "r \<in> live g" by (rule gram_okD(12) [OF G N(2) r(1)])
  have pl: "p \<in> insert 0 (live g)" by (rule owner [OF G, of n]) (simp add: B)
  have "card (refs g B r) = 1" using gram_okD(15) [OF G rl] r(3) by simp
  moreover have "n \<in> refs g B r" using N(2) r(1) by (simp add: refs_def)
  ultimately show R1: "refs g B r = {n}" by (metis card_1_singletonE singletonD)
  have lv: "live g' = live g - {r}" and rg: "q_rguard g' = q_rguard g" and nid: "q_nextID g' = q_nextID g"
    using expandedD [OF S] by simp_all
  have same: "map (word g' W) as = map (word g W) as" if "n \<notin> set as" for as
    using that by (auto simp: word_def expandedD(2,3) [OF S] split: option.split)
  have notn: "n \<notin> set (B q)" if "q \<noteq> p" for q using heap_okD(3) [OF h, of n p q] B that by auto
  have W: "W q = concat (map (word g' W) (?B q))" if "q \<in> insert 0 (live g - {r})" for q
  proof (cases "q = p")
    case True
    have m: "map (word g' W) xs = map (word g W) xs" "map (word g' W) ys = map (word g W) ys" "map (word g' W) (B r) = map (word g W) (B r)"
      using same [of xs] same [of ys] same [of "B r"] N(3) notn [OF r(2)] by auto
    have "W p = concat (map (word g W) (B p))" "W r = concat (map (word g W) (B r))"
      using gram_okD(14) [OF G pl] gram_okD(14) [OF G, of r] rl by simp_all
    moreover have "word g W n = W r" by (simp add: word_def r(1))
    ultimately show ?thesis using True by (simp add: B m del: map_eq_conv)
  next
    case False
    have "q \<noteq> r" using that gram_okD(6) [OF G rl] by auto
    then show ?thesis using False gram_okD(14) [OF G, of q] that same [OF notn [OF False]] by (simp del: map_eq_conv)
  qed
  have U: "q_uses g' q = int (card (refs g' ?B q))" if "q \<in> live g - {r}" for q
  proof -
    have "refs g B q - {n} = refs g B q" using that r(1) by (auto simp: refs_def)
    then show ?thesis using that gram_okD(15) [OF G, of q] by (simp add: expanded_refs [OF h B r(2) S] expandedD(4) [OF S])
  qed
  have R: "q \<in> live g - {r}" if "x \<in> nodes ?B" "q_ref g' x = Some q" for x q
  proof -
    have x: "x \<in> nodes B" "x \<noteq> n" "q_ref g x = Some q" using that unfolding N(1) expandedD(2) [OF S] by auto
    then have "x \<notin> refs g B r" using R1 by auto
    then show ?thesis using x gram_okD(12) [OF G x(1,3)] by (auto simp: refs_def)
  qed
  have D: "sorted (q_byID g')" "distinct (q_byID g')"
    using gram_okD(3,4) [OF G] by (simp_all add: expandedD(7) [OF S] removeAll_filter_not_eq sorted_wrt_filter)
  have E: "?B q = []" if "q \<notin> insert 0 (live g - {r})" for q
    using that gram_okD(11) [OF G, of q] pl r(2) by auto
  have L: "?B q \<noteq> []" if "q \<in> live g - {r}" for q
    using that gram_okD(9) [OF G, of q] gram_okD(9) [OF G rl] by auto
  have Z: "q_ref g' (q_rguard g q) = None" if "q_rguard g q \<noteq> 0" for q
    using gram_okD(13) [OF G that] by (simp add: expandedD(2) [OF S])
  show "gram_ok g' ?B W"
  proof (rule gram_okI, unfold rg nid lv)
    show "0 < q \<and> q < q_nextID g \<and> q_rguard g q \<noteq> 0 \<and> ?B q \<noteq> [] \<and> W q \<noteq> []" if "q \<in> live g - {r}" for q
      using that L [OF that] gram_okD(6,7,8,10) [OF G, of q] by blast
  qed (fact gram_okD(2,5) [OF G] D expandedD(1) [OF S] | rule E R Z W U, assumption+)+
qed

lemma expanded_ranks:
  assumes "ranks g B \<rho>" "heap_ok g B" "B p = xs @ n # ys" "expanded g B p xs n ys r g'" "q_ref g n = Some r" "r \<noteq> p"
  shows "ranks g' (B(r := [], p := xs @ B r @ ys)) \<rho>"
proof -
  have "n \<in> set (B p)" by (simp add: assms(3))
  then have rp: "\<rho> r < \<rho> p" using assms(1,5) unfolding ranks_def by blast
  have "\<rho> q < \<rho> r'" if x: "x \<in> set ((B(r := [], p := xs @ B r @ ys)) r')" and q: "q_ref g' x = Some q" for r' x q
  proof -
    have q': "q_ref g x = Some q" using q by (auto simp: expandedD(2) [OF assms(4)] split: if_splits)
    have "x \<in> set (B r') \<or> r' = p \<and> x \<in> set (B r)" using x assms(3) by (auto split: if_splits)
    then show ?thesis using assms(1) q' rp unfolding ranks_def by (meson order_less_trans)
  qed
  then show ?thesis unfolding ranks_def by blast
qed

lemma expanded_index:
  assumes ix: "index_ok g B" and h: "heap_ok g B" and B: "B p = xs @ n # ys" and S: "expanded g B p xs n ys r g'" and r: "r \<noteq> p"
  shows "index_ok g' (B(r := [], p := xs @ B r @ ys))"
  unfolding index_ok_def
proof (intro allI impI)
  fix k m assume k: "q_index g' k = Some m"
  have q: "q_index g' k = (if q_index g k \<in> {Some (last (q_rguard g p # xs)), Some n} then None else q_index g k)"
    by (rule expandedD(9) [OF S])
  then have k': "q_index g k = Some m" "m \<notin> {last (q_rguard g p # xs), n}" using k by (auto split: if_splits)
  then obtain s' where a: "adj B m s'" "k = (node_key g m, node_key g s')" using ix unfolding index_ok_def by blast
  have a': "adj (B(p := xs @ B r @ ys)) m s' \<and> s' \<notin> set [n]"
    by (rule adj_splice [OF h a(1)]) (use B k'(2) in auto)
  then obtain q us vs where u: "(B(p := xs @ B r @ ys)) q = us @ m # s' # vs" unfolding adj_def by blast
  have "adj (B(r := [], p := xs @ B r @ ys)) m s'"
  proof (cases "q = r")
    case True
    then have "(B(r := [], p := xs @ B r @ ys)) p = (xs @ us) @ m # s' # vs @ ys" using u r by simp
    then show ?thesis unfolding adj_def by blast
  next
    case False
    then have "(B(r := [], p := xs @ B r @ ys)) q = us @ m # s' # vs" using u by (simp split: if_splits)
    then show ?thesis unfolding adj_def by blast
  qed
  moreover have "node_key g' x = node_key g x" if "x \<noteq> n" for x
    using that by (auto simp: expandedD(2,3) [OF S] node_key_def)
  ultimately show "\<exists>s. adj (B(r := [], p := xs @ B r @ ys)) m s \<and> k = (node_key g' m, node_key g' s)"
    using a k'(2) a' by auto
qed

lemma expanded_mu:
  assumes G: "gram_ok g B W" and "B p = xs @ n # ys" "expanded g B p xs n ys r g'" "q_ref g n = Some r" "r \<noteq> p"
  shows "mu g' (B(r := [], p := xs @ B r @ ys)) = mu g B - 1"
proof -
  note N = expanded_nodes [OF gram_okD(1) [OF G] assms(2,5)] and f = nodes_finite [OF gram_okD(1) [OF G]]
  have "int (card (nodes B - {n})) = int (card (nodes B)) - 1"
    using N(2) f card_gt_0_iff [of "nodes B"] by (auto simp: of_nat_diff)
  moreover have "r \<in> live g" by (rule gram_okD(12) [OF G N(2) assms(4)])
  then have "int (length (removeAll r (q_byID g))) = int (length (q_byID g)) - 1"
    using gram_okD(4) [OF G] length_pos_if_in_set [of r "q_byID g"] by (simp add: distinct_remove1_removeAll [symmetric] length_remove1 int_ops)
  ultimately show ?thesis unfolding mu_def N(1) expandedD(7) [OF assms(3)] by simp
qed

end
