(* ===== verification/SequiturMint.thy ===== *)
theory SequiturMint
  imports SequiturExpand
begin

text \<open>
  A new rule: \<open>newRule\<close> and the two copies that become its body, and that every part of the invariant
  survives it.
\<close>

definition inc :: "int option \<Rightarrow> (int \<Rightarrow> int) \<Rightarrow> int \<Rightarrow> int" where
  "inc q u = (case q of Some r \<Rightarrow> u(r := u r + 1) | None \<Rightarrow> u)"

definition minted :: "seq \<Rightarrow> (int \<Rightarrow> nat list) \<Rightarrow> nat \<Rightarrow> nat \<Rightarrow> seq \<Rightarrow> bool" where
  "minted g B n s g' \<longleftrightarrow> heap_ok g' (B(q_nextID g := [q_top g + 1, q_top g + 2]))
     \<and> q_ref g' = (q_ref g)(q_top g := None, q_top g + 1 := q_ref g n, q_top g + 2 := q_ref g s)
     \<and> q_val g' = (q_val g)(q_top g := [], q_top g + 1 := (if q_ref g n = None then q_val g n else []), q_top g + 2 := (if q_ref g s = None then q_val g s else []))
     \<and> q_uses g' = inc (q_ref g s) (inc (q_ref g n) ((q_uses g)(q_nextID g := 0)))
     \<and> q_rguard g' = (q_rguard g)(q_nextID g := q_top g) \<and> q_top g' = q_top g + 3
     \<and> q_byID g' = insort (q_nextID g) (q_byID g) \<and> q_nextID g' = q_nextID g + 1 \<and> q_index g' = q_index g"

lemma mintedD:
  assumes "minted g B n s g'"
  shows "heap_ok g' (B(q_nextID g := [q_top g + 1, q_top g + 2]))"
    "q_ref g' = (q_ref g)(q_top g := None, q_top g + 1 := q_ref g n, q_top g + 2 := q_ref g s)"
    "q_val g' = (q_val g)(q_top g := [], q_top g + 1 := (if q_ref g n = None then q_val g n else []), q_top g + 2 := (if q_ref g s = None then q_val g s else []))"
    "q_uses g' = inc (q_ref g s) (inc (q_ref g n) ((q_uses g)(q_nextID g := 0)))"
    "q_rguard g' = (q_rguard g)(q_nextID g := q_top g)" "q_top g' = q_top g + 3"
    "q_byID g' = insort (q_nextID g) (q_byID g)" "q_nextID g' = q_nextID g + 1" "q_index g' = q_index g"
  using assms unfolding minted_def by blast+

text \<open>The fields after \<open>newRule\<close> and after a copy.\<close>

lemma new_guard_heap:
  assumes h: "heap_ok g B" and B: "B r = []" and top: "0 < q_top g"
    and e: "q_rguard g' = (q_rguard g)(r := q_top g)" "q_top g' = Suc (q_top g)" "q_guard g' = (q_guard g)(q_top g := Some r)"
      "q_next g' = (q_next g)(q_top g := q_top g)" "q_prev g' = (q_prev g)(q_top g := q_top g)"
  shows "heap_ok g' B"
proof (rule heap_okI)
  fix r'
  show "B r' = []" if "q_rguard g' r' = 0"
    using that B top h by (auto simp: e heap_ok_def split: if_splits)
  show "body_ok g' r' (B r')" if "q_rguard g' r' \<noteq> 0"
  proof (cases "r' = r")
    case True
    then show ?thesis using B top by (simp add: body_ok_def e)
  next
    case False
    then have b: "body_ok g r' (B r')" using that heap_okD(1) [OF h] by (simp add: e)
    show ?thesis
    proof (rule body_frame [OF b])
      fix x assume "x \<in> set (q_rguard g r' # B r')"
      then have "x < q_top g" using b by (auto simp: body_ok_def)
      then show "q_next g' x = q_next g x \<and> q_prev g' x = q_prev g x \<and> q_guard g' x = q_guard g x" by (simp add: e)
    qed (use False in \<open>simp_all add: e\<close>)
  qed
qed (rule heap_okD(3) [OF h])

lemma newRule_ok:
  assumes h: "heap_ok g B" and B: "B (q_nextID g) = []" and top: "0 < q_top g"
  obtains g' where "newRule g = (q_nextID g, g')" "heap_ok g' B"
    "q_ref g' = (q_ref g)(q_top g := None)" "q_val g' = (q_val g)(q_top g := [])" "q_uses g' = (q_uses g)(q_nextID g := 0)"
    "q_rguard g' = (q_rguard g)(q_nextID g := q_top g)" "q_top g' = q_top g + 1"
    "q_byID g' = insort (q_nextID g) (q_byID g)" "q_nextID g' = q_nextID g + 1" "q_index g' = q_index g"
proof -
  let ?g' = "snd (newRule g)"
  have "heap_ok ?g' B"
    by (rule new_guard_heap [OF assms]) (simp_all add: newRule_def newGuard_def newNode_def Let_def)
  then show ?thesis by (intro that [of ?g']) (simp_all add: newRule_def newGuard_def newNode_def Let_def)
qed

lemma copy_insert_ok:
  assumes h: "heap_ok g B" and n: "n \<noteq> 0" and p: "q_rguard g p \<noteq> 0" "at = last (q_rguard g p # B p)"
  obtains h1 g' where "copyOf n g = Some (q_top g, h1)" "insertAfter at (q_top g) h1 = Some g'" "heap_ok h1 B" "q_rguard h1 = q_rguard g"
    "heap_ok g' (B(p := B p @ [q_top g]))"
    "q_ref g' = (q_ref g)(q_top g := q_ref g n)" "q_val g' = (q_val g)(q_top g := (if q_ref g n = None then q_val g n else []))"
    "q_uses g' = inc (q_ref g n) (q_uses g)" "q_rguard g' = q_rguard g" "q_top g' = q_top g + 1"
    "q_byID g' = q_byID g" "q_nextID g' = q_nextID g" "q_index g' = q_index g"
proof -
  define v u where "v = (if q_ref g n = None then q_val g n else [])" and "u = inc (q_ref g n) (q_uses g)"
  define h1 where "h1 = snd (newNode (q_ref g n) v None (g\<lparr>q_uses := u\<rparr>))"
  have c: "copyOf n g = Some (q_top g, h1)"
    using n by (cases "q_ref g n") (simp_all add: copyOf_def h1_def v_def u_def inc_def newNode_def Let_def add_uses_def)
  have H: "heap_ok h1 B" unfolding h1_def by (rule newNode_ok) (simp add: h)
  have s1: "q_rguard h1 = q_rguard g" "q_top h1 = Suc (q_top g)" "q_guard h1 (q_top g) = None"
    by (simp_all add: h1_def newNode_def Let_def)
  have fr: "q_top g \<notin> set (B r)" for r using nodes_bound [OF h in_nodes, of "q_top g" r] by auto
  obtain nx pv where i: "insertAfter at (q_top g) h1 = Some (h1\<lparr>q_next := nx, q_prev := pv\<rparr>)"
    "heap_ok (h1\<lparr>q_next := nx, q_prev := pv\<rparr>) (B(p := B p @ q_top g # []))"
    by (rule insertAfter_ok [OF H, of p "B p" "[]" at "q_top g"]) (use s1 p fr guard_links(4) [OF h p(1)] in auto)
  show ?thesis
    by (rule that [of h1 "h1\<lparr>q_next := nx, q_prev := pv\<rparr>"]) (use c i H in \<open>simp_all add: h1_def newNode_def Let_def v_def u_def\<close>)
qed

lemma mint_step:
  assumes h: "heap_ok g B" and B: "B (q_nextID g) = []" and top: "0 < q_top g" and a: "adj B n s"
  obtains g' where "minted g B n s g'"
    "\<forall>F :: int \<Rightarrow> seq \<Rightarrow> (int \<times> seq) option. (let (r, g) = newRule g in
       do { (a, g) \<leftarrow> copyOf n g; g \<leftarrow> insertAfter (q_rguard g r) a g;
            (b, g) \<leftarrow> copyOf (q_next g n) g; g \<leftarrow> insertAfter (q_next g (q_rguard g r)) b g; F r g }) = F (q_nextID g) g'"
proof -
  let ?r = "q_nextID g" and ?t = "q_top g"
  note an = adj_next [OF h a]
  have lt: "n < ?t" "s < ?t" using nodes_bound [OF h] an(7,8) by blast+
  from h B top obtain g1 where g1: "newRule g = (?r, g1)" "heap_ok g1 B" "q_ref g1 = (q_ref g)(?t := None)" "q_val g1 = (q_val g)(?t := [])"
    "q_uses g1 = (q_uses g)(?r := 0)" "q_rguard g1 = (q_rguard g)(?r := ?t)" "q_top g1 = ?t + 1"
    "q_byID g1 = insort ?r (q_byID g)" "q_nextID g1 = ?r + 1" "q_index g1 = q_index g" by (rule newRule_ok)
  have rg: "q_rguard g1 ?r \<noteq> 0" "?t = last (q_rguard g1 ?r # B ?r)" using top B by (simp_all add: g1(6))
  obtain h1 g2 where g2: "copyOf n g1 = Some (q_top g1, h1)" "insertAfter ?t (q_top g1) h1 = Some g2" "heap_ok h1 B" "q_rguard h1 = q_rguard g1"
    "heap_ok g2 (B(?r := B ?r @ [q_top g1]))"
    "q_ref g2 = (q_ref g1)(q_top g1 := q_ref g1 n)" "q_val g2 = (q_val g1)(q_top g1 := (if q_ref g1 n = None then q_val g1 n else []))"
    "q_uses g2 = inc (q_ref g1 n) (q_uses g1)" "q_rguard g2 = q_rguard g1" "q_top g2 = q_top g1 + 1"
    "q_byID g2 = q_byID g1" "q_nextID g2 = q_nextID g1" "q_index g2 = q_index g1"
    by (rule copy_insert_ok [OF g1(2) an(5) rg])
  let ?B = "B(?r := B ?r @ [q_top g1])"
  have "adj ?B n s" using a B unfolding adj_def by (metis fun_upd_other append_is_Nil_conv list.distinct(1))
  then have nx: "q_next g2 n = s" by (rule adj_next [OF g2(5)])
  have rg2: "q_rguard g2 ?r \<noteq> 0" "?t + 1 = last (q_rguard g2 ?r # ?B ?r)" using top B by (simp_all add: g2(9) g1(6,7))
  obtain h2 g3 where g3: "copyOf s g2 = Some (q_top g2, h2)" "insertAfter (?t + 1) (q_top g2) h2 = Some g3" "heap_ok h2 ?B" "q_rguard h2 = q_rguard g2"
    "heap_ok g3 (?B(?r := ?B ?r @ [q_top g2]))"
    "q_ref g3 = (q_ref g2)(q_top g2 := q_ref g2 s)" "q_val g3 = (q_val g2)(q_top g2 := (if q_ref g2 s = None then q_val g2 s else []))"
    "q_uses g3 = inc (q_ref g2 s) (q_uses g2)" "q_rguard g3 = q_rguard g2" "q_top g3 = q_top g2 + 1"
    "q_byID g3 = q_byID g2" "q_nextID g3 = q_nextID g2" "q_index g3 = q_index g2"
    by (rule copy_insert_ok [OF g2(5) an(6) rg2])
  have nx2: "q_next h2 (q_rguard h2 ?r) = ?t + 1"
    using guard_links(1) [OF g3(3), of ?r] rg2(1) B by (simp add: g3(4) g1(7))
  have "minted g B n s g3"
    unfolding minted_def using g3(5) B lt by (simp add: g3 g2 g1)
  moreover have "(let (r, g) = newRule g in
       do { (a, g) \<leftarrow> copyOf n g; g \<leftarrow> insertAfter (q_rguard g r) a g;
            (b, g) \<leftarrow> copyOf (q_next g n) g; g \<leftarrow> insertAfter (q_next g (q_rguard g r)) b g; F r g }) = F ?r g3" for F :: "int \<Rightarrow> seq \<Rightarrow> (int \<times> seq) option"
    using g1(1) g2(1,2) g3(1,2) nx nx2 by (simp add: g2(4) g1(6))
  ultimately show ?thesis by (intro that allI)
qed

section \<open>The invariant after minting\<close>

lemma minted_nodes:
  assumes "heap_ok g B" "B (q_nextID g) = []"
  shows "nodes (B(q_nextID g := [q_top g + 1, q_top g + 2])) = nodes B \<union> {q_top g + 1, q_top g + 2}"
    "q_top g + 1 \<notin> nodes B" "q_top g + 2 \<notin> nodes B" "q_top g \<notin> nodes B"
  using nodes_upd [OF assms(1), of "q_nextID g"] assms(2) nodes_bound [OF assms(1)] by fastforce+

lemma minted_refs:
  assumes "heap_ok g B" "B (q_nextID g) = []" "minted g B n s g'"
  shows "refs g' (B(q_nextID g := [q_top g + 1, q_top g + 2])) q
    = refs g B q \<union> (if q_ref g n = Some q then {q_top g + 1} else {}) \<union> (if q_ref g s = Some q then {q_top g + 2} else {})"
  using minted_nodes(2-4) [OF assms(1,2)] unfolding refs_def minted_nodes(1) [OF assms(1,2)] mintedD(2) [OF assms(3)] by auto

lemma minted_gram:
  assumes G: "gram_ok g B W" and a: "adj B n s" and M: "minted g B n s g'"
  shows "gram_ok g' (B(q_nextID g := [q_top g + 1, q_top g + 2])) (W(q_nextID g := word g W n @ word g W s))"
    "refs g' (B(q_nextID g := [q_top g + 1, q_top g + 2])) (q_nextID g) = {}"
proof -
  let ?r = "q_nextID g" and ?t = "q_top g" let ?B = "B(?r := [?t + 1, ?t + 2])" and ?W = "W(?r := word g W n @ word g W s)"
  note h = gram_okD(1) [OF G] and an = adj_next [OF gram_okD(1) [OF G] a]
  have fresh: "?r \<notin> insert 0 (live g)" using gram_okD(5) [OF G] gram_okD(7) [OF G, of ?r] by auto
  have Br: "B ?r = []" by (rule gram_okD(11) [OF G fresh])
  note N = minted_nodes [OF h Br]
  have lv: "live g' = insert ?r (live g)" using mintedD(7) [OF M] by (simp add: set_insort_key)
  have nr: "q_ref g x \<noteq> Some ?r" if "x \<in> nodes B" for x using gram_okD(12) [OF G that, of ?r] fresh by auto
  then have none: "refs g B ?r = {}" by (auto simp: refs_def)
  then show "refs g' ?B ?r = {}" unfolding minted_refs [OF h Br M] using nr an(7,8) by auto
  have word: "word g' ?W x = word g W x" if "x \<in> nodes B" for x
  proof -
    have "x \<noteq> ?t" "x \<noteq> ?t + 1" "x \<noteq> ?t + 2" using N that by auto
    then show ?thesis using nr [OF that] by (auto simp: word_def mintedD(2,3) [OF M] split: option.splits)
  qed
  have new: "word g' ?W (?t + 1) = word g W n" "word g' ?W (?t + 2) = word g W s"
    using nr [OF an(7)] nr [OF an(8)] by (auto simp: word_def mintedD(2,3) [OF M] split: option.splits)
  show "gram_ok g' ?B ?W"
  proof (rule gram_okI)
    show "heap_ok g' ?B" by (rule mintedD(1) [OF M])
    show "q_rguard g' 0 \<noteq> 0" "0 < q_nextID g'" using gram_okD(2,5) [OF G] by (auto simp: mintedD(5,8) [OF M])
    show "sorted (q_byID g')" "distinct (q_byID g')"
      using gram_okD(3,4) [OF G] fresh by (simp_all add: mintedD(7) [OF M] sorted_insort distinct_insort)
    show "0 < q \<and> q < q_nextID g' \<and> q_rguard g' q \<noteq> 0 \<and> ?B q \<noteq> [] \<and> ?W q \<noteq> []" if "q \<in> live g'" for q
      using that gram_okD(5) [OF G] gram_okD(6-10) [OF G, of q] word_nonempty [OF G an(7)] guard_links(4) [OF h gram_okD(2) [OF G]]
      by (auto simp: lv mintedD(5,8) [OF M])
    show "?B q = []" if "q \<notin> insert 0 (live g')" for q using that gram_okD(11) [OF G, of q] by (auto simp: lv)
    show "q \<in> live g'" if "x \<in> nodes ?B" "q_ref g' x = Some q" for x q
      using that gram_okD(12) [OF G, of x q] gram_okD(12) [OF G an(7), of q] gram_okD(12) [OF G an(8), of q]
      unfolding N(1) mintedD(2) [OF M] lv by (auto split: if_splits)
    show "q_ref g' (q_rguard g' q) = None" if "q_rguard g' q \<noteq> 0" for q
      using that gram_okD(13) [OF G, of q] guard_links(4) [OF h, of q] by (auto simp: mintedD(2,5) [OF M])
    show "?W q = concat (map (word g' ?W) (?B q))" if "q \<in> insert 0 (live g')" for q
    proof (cases "q = ?r")
      case True then show ?thesis using new by simp
    next
      case False
      then have "map (word g' ?W) (B q) = map (word g W) (B q)" using word in_nodes [of _ B q] by (simp del: fun_upd_apply)
      then show ?thesis using False gram_okD(14) [OF G, of q] that by (simp add: lv del: map_eq_conv)
    qed
    show "q_uses g' q = int (card (refs g' ?B q))" if "q \<in> live g'" for q
    proof -
      have "int (card (refs g' ?B q)) = int (card (refs g B q)) + (if q_ref g n = Some q then 1 else 0) + (if q_ref g s = Some q then 1 else 0)"
        unfolding minted_refs [OF h Br M] using refs_finite [OF h, of q] N(2,3) by (auto simp: refs_def)
      moreover have "((q_uses g)(?r := 0)) q = int (card (refs g B q))"
        using that none gram_okD(15) [OF G, of q] by (cases "q = ?r") (simp_all add: lv)
      ultimately show ?thesis by (auto simp: mintedD(4) [OF M] inc_def split: option.splits)
    qed
  qed
qed

lemma minted_ranks:
  assumes R: "ranks g B \<rho>" and G: "gram_ok g B W" and M: "minted g B n s g'"
    and L: "\<And>q. q_ref g n = Some q \<or> q_ref g s = Some q \<Longrightarrow> \<rho> q < L" and a: "adj B n s"
  shows "ranks g' (B(q_nextID g := [q_top g + 1, q_top g + 2])) ((\<lambda>x. 2 * \<rho> x + 1)(q_nextID g := 2 * L))"
proof -
  let ?r = "q_nextID g" and ?t = "q_top g" let ?\<rho> = "(\<lambda>x. 2 * \<rho> x + 1)(?r := 2 * L)"
  note h = gram_okD(1) [OF G] and an = adj_next [OF gram_okD(1) [OF G] a]
  have fresh: "?r \<notin> insert 0 (live g)" using gram_okD(5) [OF G] gram_okD(7) [OF G, of ?r] by auto
  have Br: "B ?r = []" by (rule gram_okD(11) [OF G fresh])
  have q: "q \<noteq> ?r" if "q_ref g x = Some q" "x \<in> nodes B" for q x using gram_okD(12) [OF G that(2,1)] fresh by auto
  have "?\<rho> q < ?\<rho> r'" if x: "x \<in> set ((B(?r := [?t + 1, ?t + 2])) r')" and q': "q_ref g' x = Some q" for r' x q
  proof (cases "r' = ?r")
    case True
    then have e: "q_ref g n = Some q \<or> q_ref g s = Some q" using x q' by (auto simp: mintedD(2) [OF M] split: if_splits)
    then have "q \<noteq> ?r" using q an(7,8) by blast
    then show ?thesis using True L [OF e] by simp
  next
    case False
    then have x': "x \<in> set (B r')" using x by simp
    then have "x \<in> nodes B" by (rule in_nodes)
    then have xr: "q_ref g x = Some q" using q' minted_nodes(2-4) [OF h Br] by (auto simp: mintedD(2) [OF M] split: if_splits)
    then have "q \<noteq> ?r" using q \<open>x \<in> nodes B\<close> by blast
    moreover have "\<rho> q < \<rho> r'" using R x' xr unfolding ranks_def by blast
    ultimately show ?thesis using False by simp
  qed
  then show ?thesis unfolding ranks_def by blast
qed

lemma minted_index:
  assumes ix: "index_ok g B" and h: "heap_ok g B" and Br: "B (q_nextID g) = []" and M: "minted g B n s g'"
  shows "index_ok g' (B(q_nextID g := [q_top g + 1, q_top g + 2]))"
  unfolding index_ok_def
proof (intro allI impI)
  fix k m assume "q_index g' k = Some m"
  then have "q_index g k = Some m" by (simp add: mintedD(9) [OF M])
  then obtain s' where a: "adj B m s'" "k = (node_key g m, node_key g s')" using ix unfolding index_ok_def by blast
  obtain r xs ys where r: "B r = xs @ m # s' # ys" using a(1) unfolding adj_def by blast
  then have "r \<noteq> q_nextID g" using Br by auto
  then have "(B(q_nextID g := [q_top g + 1, q_top g + 2])) r = xs @ m # s' # ys" using r by simp
  then have "adj (B(q_nextID g := [q_top g + 1, q_top g + 2])) m s'" unfolding adj_def by blast
  moreover have "node_key g' x = node_key g x" if "x \<in> nodes B" for x
    using that minted_nodes(2-4) [OF h Br] by (auto simp: node_key_def mintedD(2,3) [OF M])
  ultimately show "\<exists>s. adj (B(q_nextID g := [q_top g + 1, q_top g + 2])) m s \<and> k = (node_key g' m, node_key g' s)"
    using a adj_next(7,8) [OF h a(1)] by auto
qed

lemma minted_mu:
  assumes "heap_ok g B" "B (q_nextID g) = []" "minted g B n s g'"
  shows "mu g' (B(q_nextID g := [q_top g + 1, q_top g + 2])) = mu g B + 3"
proof -
  have "card (nodes B \<union> {q_top g + 1, q_top g + 2}) = card (nodes B) + 2"
    using minted_nodes(2,3) [OF assms(1,2)] nodes_finite [OF assms(1)] by simp
  then show ?thesis unfolding mu_def minted_nodes(1) [OF assms(1,2)] mintedD(7) [OF assms(3)] by (simp add: length_insort)
qed

text \<open>Reusing a rule: the rank of the reused rule \<open>r\<close> can be lowered below that of the new owner.\<close>

lemma reuse_ranks:
  assumes R: "ranks g B \<rho>" and r: "\<And>x q. x \<in> set (B r) \<Longrightarrow> q_ref g x = Some q \<Longrightarrow> \<rho> q < \<rho> p" and "r \<noteq> p"
  shows "\<exists>\<rho>'. ranks g B \<rho>' \<and> \<rho>' r < \<rho>' p"
proof -
  let ?\<rho> = "(\<lambda>x. 2 * \<rho> x + 1)(r := min (2 * \<rho> r + 1) (2 * \<rho> p))"
  have "?\<rho> q < ?\<rho> o'" if "x \<in> set (B o')" "q_ref g x = Some q" for o' x q
  proof -
    have *: "\<rho> q < \<rho> o'" using R that unfolding ranks_def by blast
    then have "?\<rho> q \<le> 2 * \<rho> q + 1" "q \<noteq> o'" by auto
    moreover have "\<rho> q < \<rho> p" if "o' = r" using r [of x q] \<open>x \<in> set (B o')\<close> \<open>q_ref g x = Some q\<close> that by simp
    ultimately show ?thesis using * by (cases "o' = r") auto
  qed
  then have "ranks g B ?\<rho>" unfolding ranks_def by blast
  moreover have "?\<rho> r < ?\<rho> p" using assms(3) by simp
  ultimately show ?thesis by blast
qed

lemma minted_word:
  assumes G: "gram_ok g B W" and M: "minted g B n s g'" and x: "x \<in> nodes B"
  shows "word g' (W(q_nextID g := w)) x = word g W x"
proof -
  have fresh: "q_nextID g \<notin> insert 0 (live g)" using gram_okD(5) [OF G] gram_okD(7) [OF G, of "q_nextID g"] by auto
  then have "q_ref g x \<noteq> Some (q_nextID g)" using gram_okD(12) [OF G x, of "q_nextID g"] by auto
  moreover have "x \<noteq> q_top g" "x \<noteq> q_top g + 1" "x \<noteq> q_top g + 2"
    using minted_nodes [OF gram_okD(1) [OF G] gram_okD(11) [OF G fresh]] x by auto
  ultimately show ?thesis by (auto simp: word_def mintedD(2,3) [OF M] split: option.splits)
qed

text \<open>The copies keep every rule used, whatever happens to the two occurrences.\<close>

lemma minted_used:
  assumes G: "gram_ok g B W" and U: "used g B" and a: "adj B n s" "adj B m s'" and M: "minted g B n s g'"
    and k: "q_ref g m = q_ref g n" "q_ref g s' = q_ref g s" and q: "q \<in> live g"
  shows "refs g' (B(q_nextID g := [q_top g + 1, q_top g + 2])) q - {n, s, m, s'} \<noteq> {}"
proof -
  note h = gram_okD(1) [OF G]
  have fresh: "q_nextID g \<notin> insert 0 (live g)" using gram_okD(5) [OF G] gram_okD(7) [OF G, of "q_nextID g"] by auto
  note r = minted_refs [OF h gram_okD(11) [OF G fresh] M, of q] and N = minted_nodes(2,3) [OF h gram_okD(11) [OF G fresh]]
  have ne: "q_top g + 1 \<notin> {n, s, m, s'}" "q_top g + 2 \<notin> {n, s, m, s'}"
    using N adj_next(7,8) [OF h a(1)] adj_next(7,8) [OF h a(2)] by auto
  show ?thesis
  proof (cases "q_ref g n = Some q \<or> q_ref g s = Some q")
    case True
    then show ?thesis using ne unfolding r by auto
  next
    case False
    obtain x where "x \<in> refs g B q" using U q unfolding used_def by blast
    then have "x \<in> refs g B q - {n, s, m, s'}" using False k by (auto simp: refs_def)
    then show ?thesis unfolding r by auto
  qed
qed

end
