(* ===== verification/SequiturCheck.thy ===== *)
theory SequiturCheck
  imports SequiturMint
begin

text \<open>
  The cascade: \<open>check\<close>, \<open>substitute\<close>, \<open>expandRef\<close> and \<open>match\<close> call each other; with fuel for the
  measure \<open>mu\<close> they return, keep the invariant and keep the word of every rule.
\<close>

section \<open>Index-only changes\<close>

lemma inv_index_upd [simp]:
  "gram_ok (g\<lparr>q_index := ix\<rparr>) B W = gram_ok g B W" "ranks (g\<lparr>q_index := ix\<rparr>) B \<rho> = ranks g B \<rho>" "used (g\<lparr>q_index := ix\<rparr>) B = used g B"
  "mu (g\<lparr>q_index := ix\<rparr>) B = mu g B" "place (g\<lparr>q_index := ix\<rparr>) B n = place g B n" "node_key (g\<lparr>q_index := ix\<rparr>) = node_key g"
  "refs (g\<lparr>q_index := ix\<rparr>) B q = refs g B q" "word (g\<lparr>q_index := ix\<rparr>) W = word g W"
proof -
  show 1: "refs (g\<lparr>q_index := ix\<rparr>) B q = refs g B q" for q by (simp add: refs_def)
  show 2: "word (g\<lparr>q_index := ix\<rparr>) W = word g W" by (simp add: word_def fun_eq_iff split: option.split)
  show "gram_ok (g\<lparr>q_index := ix\<rparr>) B W = gram_ok g B W" by (simp add: gram_ok_def 1 2)
qed (simp_all add: ranks_def used_def mu_def place_def node_key_def fun_eq_iff refs_def)

lemma grammar_inv_index:
  "grammar_inv g B W \<Longrightarrow> index_ok (g\<lparr>q_index := ix\<rparr>) B \<Longrightarrow> grammar_inv (g\<lparr>q_index := ix\<rparr>) B W"
  by (simp add: grammar_inv_def)

lemma check_cases:
  assumes h: "heap_ok g B" and ix: "index_ok g B" and p: "place g B n"
  obtains (quiet) ix' where "\<And>mtch. check_with mtch n g = Some (False, g\<lparr>q_index := ix'\<rparr>)" "index_ok (g\<lparr>q_index := ix'\<rparr>) B"
    | (hit) m s s' where "\<And>mtch. check_with mtch n g = map_option (Pair True) (mtch n m g)" "adj B n s" "adj B m s'"
      "node_key g m = node_key g n" "node_key g s' = node_key g s" "m \<noteq> n" "s' \<noteq> n" "s \<noteq> m"
  using h p
proof (cases rule: digramAt_cases)
  case (pair s)
  let ?k = "(node_key g n, node_key g s)"
  show ?thesis
  proof (cases "q_index g ?k")
    case None
    show ?thesis
    proof (rule quiet)
      show "check_with mtch n g = Some (False, g\<lparr>q_index := (q_index g)(?k := Some n)\<rparr>)" for mtch
        using pair(2) None by (simp add: check_with_def)
      show "index_ok (g\<lparr>q_index := (q_index g)(?k := Some n)\<rparr>) B"
        using ix pair(1) unfolding index_ok_def by (auto split: if_splits)
    qed
  next
    case (Some m)
    then obtain s' where a: "adj B m s'" "?k = (node_key g m, node_key g s')" using ix unfolding index_ok_def by blast
    show ?thesis
    proof (cases "m = n \<or> q_next g m = n \<or> q_next g n = m")
      case True
      show ?thesis
      proof (rule quiet)
        show "check_with mtch n g = Some (False, g\<lparr>q_index := q_index g\<rparr>)" for mtch
          using pair(2) Some True by (simp add: check_with_def)
      qed (use ix in simp)
    next
      case False
      show ?thesis
      proof (rule hit [OF _ pair(1) a(1)])
        show "check_with mtch n g = map_option (Pair True) (mtch n m g)" for mtch
          using pair(2) Some False by (simp add: check_with_def map_conv_bind_option comp_def)
      qed (use False a adj_next(1) [OF h a(1)] adj_next(1) [OF h pair(1)] in auto)
    qed
  qed
next
  case lone
  show ?thesis
  proof (rule quiet)
    show "check_with mtch n g = Some (False, g\<lparr>q_index := q_index g\<rparr>)" for mtch
      using lone by (simp add: check_with_def)
  qed (use ix in simp)
qed

lemma check_check_with: "\<exists>mtch. check f = check_with mtch"
  by (cases f) (auto simp: check.simps)

section \<open>Words below the start rule\<close>

lemma word_le:
  assumes "gram_ok g B W" "x \<in> set (B p)"
  shows "length (word g W x) \<le> length (W p)"
proof -
  have "W p = concat (map (word g W) (B p))" by (rule gram_okD(14) [OF assms(1) owner [OF assms]])
  then have "length (W p) = sum_list (map length (map (word g W) (B p)))" by (simp add: length_concat)
  moreover have "length (word g W x) \<in> set (map length (map (word g W) (B p)))" using assms(2) by simp
  ultimately show ?thesis by (simp add: member_le_sum_list)
qed

lemma below_start:
  assumes G: "gram_ok g B W" and R: "ranks g B \<rho>" and U: "used g B" and "q \<in> live g"
  shows "\<exists>x \<in> set (B 0). length (W q) \<le> length (word g W x)"
  using assms(4)
proof (induction "Max (\<rho> ` live g) - \<rho> q" arbitrary: q rule: less_induct)
  case less
  obtain x where x: "x \<in> nodes B" "q_ref g x = Some q" using U less.prems by (auto simp: used_def refs_def)
  then obtain p where p: "x \<in> set (B p)" by (auto simp: nodes_def)
  have w: "word g W x = W q" using x(2) by (simp add: word_def)
  show ?case
  proof (cases "p = 0")
    case True
    then show ?thesis using p w by force
  next
    case False
    then have pl: "p \<in> live g" using owner [OF G p] by simp
    have "\<rho> q < \<rho> p" using R p x(2) unfolding ranks_def by blast
    moreover have "\<rho> p \<le> Max (\<rho> ` live g)" using pl by simp
    ultimately have "Max (\<rho> ` live g) - \<rho> p < Max (\<rho> ` live g) - \<rho> q" by linarith
    then obtain y where "y \<in> set (B 0)" "length (W p) \<le> length (word g W y)" using less.hyps pl by blast
    moreover have "length (W q) \<le> length (W p)" using word_le [OF G p] w by simp
    ultimately show ?thesis by force
  qed
qed

lemma key_word: "node_key g m = node_key g n \<Longrightarrow> word g W m = word g W n"
  by (simp add: node_key_def word_def split: option.split)

lemma key_ref: "node_key g m = node_key g n \<Longrightarrow> q_ref g m = q_ref g n"
  by (simp add: node_key_def)

lemma start_not_whole:
  assumes G: "gram_ok g B W" and R: "ranks g B \<rho>" and U: "used g B" and B: "B 0 = [m, s']" "B q = xs @ n # s # ys"
    and k: "node_key g m = node_key g n" "node_key g s' = node_key g s" and ne: "n \<notin> {m, s'}"
  shows False
proof -
  have n: "n \<in> set (B q)" by (simp add: B)
  then have q: "q \<noteq> 0" using B(1) ne by (metis empty_set list.simps(15))
  have ql: "q \<in> live g" using owner [OF G n] q by simp
  obtain x where x: "x \<in> {m, s'}" "length (W q) \<le> length (word g W x)" using below_start [OF G R U ql] B(1) by auto
  have "W q = concat (map (word g W) (B q))" by (rule gram_okD(14) [OF G]) (simp add: ql)
  then have "length (word g W n) + length (word g W s) \<le> length (W q)" by (simp add: B(2))
  moreover have "word g W m \<noteq> []" "word g W s' \<noteq> []" by (rule word_nonempty [OF G in_nodes [of _ B 0]]; simp add: B(1))+
  ultimately show False using x key_word [OF k(1), of W] key_word [OF k(2), of W] by (auto simp flip: length_greater_0_conv)
qed

lemma whole_rule_eq:
  assumes h: "heap_ok g B" and B: "B p = us @ m # s # vs"
  shows "whole_rule m g = Some (if us = [] \<and> vs = [] then Some p else None)"
proof -
  note l = node_links [OF h B] and l2 = node_links [OF h, of p "us @ [m]" s vs]
  have g: "q_guard g x = None" if "x \<in> set (B p)" for x using nodes_bound [OF h in_nodes [of x B p]] that by simp
  have "q_prev g m \<noteq> 0" using link_neighbours(1) [OF h l(6) B] l(2) by simp
  moreover have "q_guard g (q_prev g m) = (if us = [] then Some p else None)"
    using l(2,7) g [of "last us"] B by (cases us rule: rev_cases) simp_all
  moreover have "q_next g m = s" "s \<noteq> 0" "q_next g s = hd (vs @ [q_rguard g p])" using l(1) l2 B by simp_all
  moreover have "q_next g s \<noteq> 0" using link_neighbours(2) [OF h l(6), of "us @ [m, s]" vs] B l2 by simp
  moreover have "q_guard g (hd (vs @ [q_rguard g p])) = (if vs = [] then Some p else None)"
    using l(7) g [of "hd vs"] B by (cases vs) simp_all
  ultimately show ?thesis using l(4) by (simp add: whole_rule_def)
qed

section \<open>The contract of the cascade\<close>

text \<open>What a step keeps.  A new rule costs one unit of the measure, which bounds the identifiers.\<close>

definition later :: "seq \<Rightarrow> (int \<Rightarrow> nat list) \<Rightarrow> (int \<Rightarrow> Symbol list) \<Rightarrow> seq \<Rightarrow> (int \<Rightarrow> nat list) \<Rightarrow> (int \<Rightarrow> Symbol list) \<Rightarrow> bool" where
  "later g B W g' B' W' \<longleftrightarrow> q_nextID g \<le> q_nextID g' \<and> q_nextID g' + mu g' B' \<le> q_nextID g + mu g B
     \<and> (\<forall>r < q_nextID g. q_rguard g' r = q_rguard g r \<and> W' r = W r)"

lemma later_refl: "later g B W (g\<lparr>q_index := ix\<rparr>) B W"
  by (simp add: later_def)

lemma later_trans: "later g B W g' B' W' \<Longrightarrow> later g' B' W' g'' B'' W'' \<Longrightarrow> later g B W g'' B'' W''"
  unfolding later_def by (metis order_less_le_trans order_trans)

definition checks :: "nat \<Rightarrow> bool" where
  "checks f \<longleftrightarrow> (\<forall>g B W n. grammar_inv g B W \<longrightarrow> place g B n \<longrightarrow> mu g B \<le> int f \<longrightarrow>
     (\<exists>b g' B' W'. check f n g = Some (b, g') \<and> grammar_inv g' B' W' \<and> later g B W g' B' W'
        \<and> (if b then mu g' B' < mu g B else B' = B \<and> W' = W \<and> (\<exists>ix. g' = g\<lparr>q_index := ix\<rparr>))))"

lemma checksE:
  assumes "checks f" "grammar_inv g B W" "place g B n" "mu g B \<le> int f"
  obtains (consumed) g' B' W' where "check f n g = Some (True, g')" "grammar_inv g' B' W'" "later g B W g' B' W'" "mu g' B' < mu g B"
    | (quiet) ix where "check f n g = Some (False, g\<lparr>q_index := ix\<rparr>)" "grammar_inv (g\<lparr>q_index := ix\<rparr>) B W"
  using assms unfolding checks_def by (metis (full_types))

text \<open>Two offers in a row, as \<open>substitute\<close> and \<open>expandRef\<close> make them.\<close>

lemma two_checks:
  assumes C: "checks f" and I: "grammar_inv g B W" and p: "place g B a" "place g B b" and m: "mu g B \<le> int f"
  obtains g' B' W' where "do { (consumed, h) \<leftarrow> check f a g; if consumed then Some h else map_option snd (check f b h) } = Some g'"
    "grammar_inv g' B' W'" "later g B W g' B' W'" "mu g' B' \<le> mu g B"
  using C I p(1) m
proof (cases rule: checksE)
  case (consumed g' B' W')
  then show ?thesis by (intro that [of g' B' W']) simp_all
next
  case (quiet ix)
  let ?g = "g\<lparr>q_index := ix\<rparr>"
  have "place ?g B b" "mu ?g B \<le> int f" using p(2) m by simp_all
  with C quiet(2) show ?thesis
  proof (cases rule: checksE)
    case (consumed g' B' W')
    then show ?thesis using quiet(1) later_trans [OF later_refl consumed(3)] by (intro that [of g' B' W']) simp_all
  next
    case (quiet ix')
    then show ?thesis using \<open>check f a g = _\<close> by (intro that [of "g\<lparr>q_index := ix'\<rparr>" B W]) (simp_all add: later_def)
  qed
qed

lemma substitute_ok:
  assumes C: "checks f" and G: "gram_ok g B W" and R: "ranks g B \<rho>" "\<rho> r < \<rho> p" and ix: "index_ok g B"
    and B: "B p = xs @ n # s # ys" and r: "r \<in> live g" "W r = word g W n @ word g W s"
    and U: "\<And>q. q \<in> live g \<Longrightarrow> q \<noteq> r \<Longrightarrow> refs g B q - {n, s} \<noteq> {}" and m: "mu g B \<le> int f + 2"
  obtains g' B' W' where "substitute (check f) n r g = Some g'" "grammar_inv g' B' W'" "later g B W g' B' W'" "mu g' B' \<le> mu g B - 2"
    "q_nextID g' + mu g' B' \<le> q_nextID g + mu g B - 2"
proof -
  note h = gram_okD(1) [OF G]
  obtain g1 where S: "substituted g B p xs n s ys r g1" and
    e: "\<And>chk. substitute chk n r g = do { (consumed, h) \<leftarrow> chk (last (q_rguard g p # xs)) g1; if consumed then Some h else map_option snd (chk (q_top g) h) }"
    using substitute_step [OF h ix B, of r] by blast
  let ?B = "B(p := xs @ q_top g # ys)"
  note S' = substitutedD [OF S]
  have G1: "gram_ok g1 ?B W" by (rule substituted_gram [OF G B S r])
  have "used g1 ?B" unfolding used_def substituted_refs [OF h B S] S'(7) using U by auto
  then have I: "grammar_inv g1 ?B W"
    using G1 substituted_ranks [OF R(1) h B S R(2)] substituted_index [OF ix h B S] by (auto simp: grammar_inv_def)
  have rg: "q_rguard g1 p \<noteq> 0" using node_links(6) [OF h B] by (simp add: S'(5))
  have pl: "place g1 ?B (last (q_rguard g p # xs))" "place g1 ?B (q_top g)"
    using place_left [OF S'(1), of p xs "q_top g # ys"] rg place_node [of "q_top g" ?B p] by (simp_all add: S'(5))
  have mu1: "mu g1 ?B = mu g B - 2" by (rule substituted_mu [OF h B S])
  then have "mu g1 ?B \<le> int f" using m by simp
  with C I pl obtain g' B' W' where g': "do { (consumed, h) \<leftarrow> check f (last (q_rguard g p # xs)) g1; if consumed then Some h else map_option snd (check f (q_top g) h) } = Some g'"
    "grammar_inv g' B' W'" "later g1 ?B W g' B' W'" "mu g' B' \<le> mu g1 ?B" by (rule two_checks)
  moreover have "later g B W g1 ?B W" by (simp add: later_def S'(5,8) mu1)
  moreover have "q_nextID g' + mu g' B' \<le> q_nextID g + mu g B - 2" using g'(3) by (simp add: later_def S'(8) mu1)
  ultimately show ?thesis
    using e [of "check f"] mu1 later_trans [of g B W g1 ?B W g' B' W'] by (intro that [of g' B' W']) simp_all
qed

lemma expandRef_ok:
  assumes C: "checks f" and I: "grammar_inv g B W" and B: "B p = xs @ n # ys" and r: "q_ref g n = Some r" "q_uses g r = 1"
    and m: "mu g B \<le> int f + 1"
  obtains g' B' W' where "expandRef (check f) n g = Some g'" "grammar_inv g' B' W'" "later g B W g' B' W'" "mu g' B' \<le> mu g B - 1"
proof -
  obtain \<rho> where G: "gram_ok g B W" and R: "ranks g B \<rho>" and U: "used g B" and ix: "index_ok g B" using I by (auto simp: grammar_inv_def)
  note h = gram_okD(1) [OF G]
  have n: "n \<in> set (B p)" by (simp add: B)
  have "\<rho> r < \<rho> p" using R n r(1) unfolding ranks_def by blast
  then have rp: "r \<noteq> p" by auto
  have rl: "r \<in> live g" by (rule gram_okD(12) [OF G in_nodes r(1)]) (rule n)
  have zs: "B r \<noteq> []" by (rule gram_okD(9) [OF G rl])
  obtain g1 where S: "expanded g B p xs n ys r g1" and
    e: "\<And>chk. expandRef chk n g = do { (consumed, h) \<leftarrow> chk (last (q_rguard g p # xs)) g1; if consumed then Some h else map_option snd (chk (last (B r)) h) }"
    using expandRef_step [OF h ix B r(1) rp zs] by blast
  let ?B = "B(r := [], p := xs @ B r @ ys)"
  note S' = expandedD [OF S]
  note X = expanded_gram [OF G B S r(1) rp r(2)]
  have "refs g B q - {n} = refs g B q" if "q \<noteq> r" for q using that r(1) by (auto simp: refs_def)
  then have "used g1 ?B" using U unfolding used_def expanded_refs [OF h B rp S] S'(7) by auto
  then have I1: "grammar_inv g1 ?B W"
    using X(1) expanded_ranks [OF R h B S r(1) rp] expanded_index [OF ix h B S rp] by (auto simp: grammar_inv_def)
  have rg: "q_rguard g1 p \<noteq> 0" using node_links(6) [OF h B] by (simp add: S'(5))
  have pl: "place g1 ?B (last (q_rguard g p # xs))" "place g1 ?B (last (B r))"
    using place_left [OF S'(1), of p xs "B r @ ys"] rg place_node [of "last (B r)" ?B p] zs by (simp_all add: S'(5))
  have mu1: "mu g1 ?B = mu g B - 1" by (rule expanded_mu [OF G B S r(1) rp])
  then have "mu g1 ?B \<le> int f" using m by simp
  with C I1 pl obtain g' B' W' where g': "do { (consumed, h) \<leftarrow> check f (last (q_rguard g p # xs)) g1; if consumed then Some h else map_option snd (check f (last (B r)) h) } = Some g'"
    "grammar_inv g' B' W'" "later g1 ?B W g' B' W'" "mu g' B' \<le> mu g1 ?B" by (rule two_checks)
  moreover have "later g B W g1 ?B W" by (simp add: later_def S'(5,8) mu1)
  ultimately show ?thesis
    using e [of "check f"] mu1 later_trans [of g B W g1 ?B W g' B' W'] by (intro that [of g' B' W']) simp_all
qed

text \<open>The first substitution by a fresh rule starts no cascade.\<close>

lemma substitute_quiet:
  assumes G: "gram_ok g B W" and ix: "index_ok g B" and B: "B p = xs @ n # s # ys"
    and r: "r \<in> live g" "W r = word g W n @ word g W s" "refs g B r = {}"
  obtains g1 ix' where "substitute (check f) n r g = Some (g1\<lparr>q_index := ix'\<rparr>)" "substituted g B p xs n s ys r g1"
    "index_ok (g1\<lparr>q_index := ix'\<rparr>) (B(p := xs @ q_top g # ys))"
proof -
  let ?t = "q_top g" and ?l = "last (q_rguard g p # xs)" let ?B = "B(p := xs @ ?t # ys)"
  note h = gram_okD(1) [OF G]
  obtain g1 where S: "substituted g B p xs n s ys r g1" and
    e: "\<And>chk. substitute chk n r g = do { (consumed, h) \<leftarrow> chk ?l g1; if consumed then Some h else map_option snd (chk ?t h) }"
    using substitute_step [OF h ix B, of r] by blast
  note S' = substitutedD [OF S]
  have one: "refs g1 ?B r = {?t}" unfolding substituted_refs [OF h B S] r(3) by simp
  have tr: "q_ref g1 ?t = Some r" by (simp add: S'(2))
  have uniq: "x = ?t" if "x \<in> nodes ?B" "node_key g1 x = node_key g1 ?t" for x
    using that one tr key_ref [of g1 x ?t] by (auto simp: refs_def)
  have rg: "q_rguard g1 p \<noteq> 0" using node_links(6) [OF h B] by (simp add: S'(5))
  have pl: "place g1 ?B ?l" "place g1 ?B ?t"
    using place_left [OF S'(1), of p xs "?t # ys"] rg place_node [of ?t ?B p] by (simp_all add: S'(5))
  have lt: "s0 = ?t" if "adj ?B ?l s0" for s0
  proof -
    have "xs \<noteq> []" using adj_next(3) [OF S'(1) that] guard_links(3) [OF S'(1) rg] by (auto simp: S'(5))
    then obtain xs' x where x: "xs = xs' @ [x]" by (cases xs rule: rev_cases) auto
    then show ?thesis using node_links(1) [OF S'(1), of p xs' x "?t # ys"] adj_next(1) [OF S'(1) that] by simp
  qed
  obtain mt where mt: "check f = check_with mt" using check_check_with by blast
  have ix1: "index_ok g1 ?B" by (rule substituted_index [OF ix h B S])
  from S'(1) ix1 pl(1) show ?thesis
  proof (cases rule: check_cases)
    case (hit m s0 s')
    have "s0 = ?t" by (rule lt [OF hit(2)])
    then have "s' = ?t" using uniq [of s'] hit(5) adj_next(8) [OF S'(1) hit(3)] by simp
    then have "m = ?l" using adj_next(2) [OF S'(1) hit(3)] adj_next(2) [OF S'(1) hit(2)] \<open>s0 = ?t\<close> by simp
    with hit(6) show ?thesis by simp
  next
    case (quiet ix1)
    let ?g = "g1\<lparr>q_index := ix1\<rparr>"
    have h2: "heap_ok ?g ?B" "place ?g ?B ?t" using S'(1) pl(2) by simp_all
    from h2(1) quiet(2) h2(2) show ?thesis
    proof (cases rule: check_cases)
      case (hit m s0 s')
      have "m = ?t" using uniq [of m] hit(4) adj_next(7) [OF h2(1) hit(3)] by simp
      with hit(6) show ?thesis by simp
    next
      case (quiet ix2)
      then show ?thesis using S \<open>\<And>mtch. check_with mtch ?l g1 = _\<close>
        by (intro that [of ix2 g1]) (simp_all add: e mt)
    qed
  qed
qed

lemma setDigram_ok:
  assumes "heap_ok g B" "index_ok g B" "place g B n"
  obtains ix where "setDigram n g = Some (g\<lparr>q_index := ix\<rparr>)" "index_ok (g\<lparr>q_index := ix\<rparr>) B"
  using assms(1,3)
proof (cases rule: digramAt_cases)
  case (pair s)
  show ?thesis
    by (rule that [of "(q_index g)((node_key g n, node_key g s) := Some n)"])
      (use pair assms(2) in \<open>auto simp: setDigram_def index_ok_def split: if_splits\<close>)
next
  case lone
  then show ?thesis using assms(2) by (intro that [of "q_index g"]) (simp_all add: setDigram_def)
qed

text \<open>The repair at the end of \<open>match\<close>.\<close>

lemma match_repair:
  assumes C: "checks f" and I: "grammar_inv g B W" and rg: "q_rguard g r \<noteq> 0" and m: "mu g B \<le> int f + 1"
  obtains g' B' W' where
    "(case q_ref g (q_next g (q_rguard g r)) of Some q \<Rightarrow> if q_uses g q = 1 then expandRef (check f) (q_next g (q_rguard g r)) g else Some g | None \<Rightarrow> Some g) = Some g'"
    "grammar_inv g' B' W'" "later g B W g' B' W'" "mu g' B' \<le> mu g B"
proof -
  have G: "gram_ok g B W" using I by (simp add: grammar_inv_def)
  note l = guard_links(1) [OF gram_okD(1) [OF G] rg]
  have *: "later g B W g B W" by (simp add: later_def)
  show ?thesis
  proof (cases "q_ref g (q_next g (q_rguard g r))")
    case None
    then show ?thesis using I * by (intro that [of g B W]) simp_all
  next
    case (Some q)
    show ?thesis
    proof (cases "q_uses g q = 1")
      case False
      then show ?thesis using I * Some by (intro that [of g B W]) simp_all
    next
      case True
      have "B r \<noteq> []" using Some l gram_okD(13) [OF G rg] by auto
      then have B: "B r = [] @ q_next g (q_rguard g r) # tl (B r)" using l by (cases "B r") simp_all
      obtain g' B' W' where "expandRef (check f) (q_next g (q_rguard g r)) g = Some g'" "grammar_inv g' B' W'" "later g B W g' B' W'" "mu g' B' \<le> mu g B - 1"
        by (rule expandRef_ok [OF C I B Some True m])
      then show ?thesis using Some True by (intro that [of g' B' W']) simp_all
    qed
  qed
qed

end
