(* ===== verification/SequiturMatch.thy ===== *)
theory SequiturMatch
  imports SequiturCheck
begin

text \<open>Both branches of \<open>match\<close>, and the cascade by induction on the fuel.\<close>

lemma reuse_ok:
  assumes C: "checks f" and I: "grammar_inv g B W" and n: "B q = xs @ n # s # ys" and m: "B p = [m, s']"
    and k: "node_key g m = node_key g n" "node_key g s' = node_key g s" and ne: "m \<noteq> n" "s' \<noteq> n" and mu: "mu g B \<le> int f + 1"
  obtains g' B' W' where "substitute (check f) n p g = Some g'" "grammar_inv g' B' W'" "later g B W g' B' W'" "mu g' B' \<le> mu g B - 2"
    "p < q_nextID g" "q_rguard g p \<noteq> 0"
proof -
  obtain \<rho> where G: "gram_ok g B W" and R: "ranks g B \<rho>" and U: "used g B" and ix: "index_ok g B" using I by (auto simp: grammar_inv_def)
  note h = gram_okD(1) [OF G]
  have p0: "p \<noteq> 0" using start_not_whole [OF G R U _ n k] m ne by auto
  have mp: "m \<in> set (B p)" "s' \<in> set (B p)" and nq: "n \<in> set (B q)" "s \<in> set (B q)" using m n by simp_all
  have pl: "p \<in> live g" using owner [OF G mp(1)] p0 by simp
  have pq: "p \<noteq> q" using nq(1) m ne by auto
  have "\<rho> x < \<rho> q" if "z \<in> set (B p)" "q_ref g z = Some x" for z x
  proof -
    have "q_ref g n = Some x \<or> q_ref g s = Some x" using that m key_ref [OF k(1)] key_ref [OF k(2)] by auto
    then show ?thesis using R nq unfolding ranks_def by blast
  qed
  then obtain \<rho>' where R': "ranks g B \<rho>'" "\<rho>' p < \<rho>' q" using reuse_ranks [OF R _ pq] by blast
  have "W p = concat (map (word g W) (B p))" by (rule gram_okD(14) [OF G]) (simp add: pl)
  then have Wp: "W p = word g W n @ word g W s" using m key_word [OF k(1), of W] key_word [OF k(2), of W] by simp
  have dj: "m \<notin> {n, s}" "s' \<notin> {n, s}" using heap_okD(3) [OF h, of _ p q] mp nq pq by auto
  have U': "refs g B x - {n, s} \<noteq> {}" if x: "x \<in> live g" "x \<noteq> p" for x
  proof -
    obtain y where y: "y \<in> refs g B x" using U x(1) unfolding used_def by blast
    show ?thesis
    proof (cases "y \<in> {n, s}")
      case False then show ?thesis using y by blast
    next
      case True
      then have "(if y = n then m else s') \<in> refs g B x"
        using y in_nodes [of _ B p] mp key_ref [OF k(1)] key_ref [OF k(2)] by (auto simp: refs_def)
      then show ?thesis using dj by (auto split: if_splits)
    qed
  qed
  have mu2: "mu g B \<le> int f + 2" using mu by simp
  obtain g' B' W' where "substitute (check f) n p g = Some g'" "grammar_inv g' B' W'" "later g B W g' B' W'" "mu g' B' \<le> mu g B - 2"
    by (rule substitute_ok [OF C G R' ix n pl Wp U' mu2])
  then show ?thesis using gram_okD(7,8) [OF G pl] by (intro that [of g' B' W']) simp_all
qed

lemma mint_ok:
  assumes C: "checks f" and I: "grammar_inv g B W" and a: "adj B n s" "adj B m s'"
    and k: "node_key g m = node_key g n" "node_key g s' = node_key g s" and ne: "m \<noteq> n" "s' \<noteq> n" "s \<noteq> m" and mu: "mu g B \<le> int f + 1"
  obtains g0 g' B' W' where "minted g B n s g0"
    "\<forall>F :: int \<Rightarrow> seq \<Rightarrow> (int \<times> seq) option. (let (r, g) = newRule g in
       do { (a, g) \<leftarrow> copyOf n g; g \<leftarrow> insertAfter (q_rguard g r) a g;
            (b, g) \<leftarrow> copyOf (q_next g n) g; g \<leftarrow> insertAfter (q_next g (q_rguard g r)) b g; F r g }) = F (q_nextID g) g0"
    "do { h \<leftarrow> substitute (check f) m (q_nextID g) g0; substitute (check f) n (q_nextID g) h } = Some g'"
    "grammar_inv g' B' W'" "later g B W g' B' W'" "mu g' B' \<le> mu g B - 1" "q_rguard g' (q_nextID g) \<noteq> 0"
proof -
  let ?r = "q_nextID g"
  obtain \<rho> where G: "gram_ok g B W" and R: "ranks g B \<rho>" and U: "used g B" and ix: "index_ok g B" using I by (auto simp: grammar_inv_def)
  note h = gram_okD(1) [OF G] and an = adj_next [OF gram_okD(1) [OF G] a(1)] and am = adj_next [OF gram_okD(1) [OF G] a(2)]
  have fresh: "?r \<notin> insert 0 (live g)" using gram_okD(5) [OF G] gram_okD(7) [OF G, of ?r] by auto
  have Br: "B ?r = []" by (rule gram_okD(11) [OF G fresh])
  have top: "0 < q_top g" using guard_links(4) [OF h gram_okD(2) [OF G]] by simp
  obtain g0 where M: "minted g B n s g0" and e: "\<forall>F :: int \<Rightarrow> seq \<Rightarrow> (int \<times> seq) option. (let (r, g) = newRule g in
       do { (a, g) \<leftarrow> copyOf n g; g \<leftarrow> insertAfter (q_rguard g r) a g;
            (b, g) \<leftarrow> copyOf (q_next g n) g; g \<leftarrow> insertAfter (q_next g (q_rguard g r)) b g; F r g }) = F ?r g0"
    by (rule mint_step [OF h Br top a(1)])
  note M' = mintedD [OF M]
  let ?B = "B(?r := [q_top g + 1, q_top g + 2])" and ?W = "W(?r := word g W n @ word g W s)"
  note G0 = minted_gram [OF G a(1) M] and ix0 = minted_index [OF ix h Br M]
  note w0 = minted_word [OF G M] and U0 = minted_used [OF G U a M key_ref [OF k(1)] key_ref [OF k(2)]]
  have rl: "?r \<in> live g0" and lv: "live g0 = insert ?r (live g)" by (simp_all add: M'(7) set_insort_key)
  obtain pn xn yn where pn: "B pn = xn @ n # s # yn" using a(1) unfolding adj_def by blast
  obtain pm us vs where pm: "B pm = us @ m # s' # vs" using a(2) unfolding adj_def by blast
  have nr: "pn \<noteq> ?r" "pm \<noteq> ?r" using pn pm Br by auto
  \<comment> \<open>ranks\<close>
  define L where "L = min (\<rho> pn) (\<rho> pm)"
  define \<rho>0 where "\<rho>0 = (\<lambda>x. 2 * \<rho> x + 1)(?r := 2 * L)"
  have "\<rho> q < L" if "q_ref g n = Some q \<or> q_ref g s = Some q" for q
  proof -
    have mem: "n \<in> set (B pn)" "s \<in> set (B pn)" "m \<in> set (B pm)" "s' \<in> set (B pm)" by (simp_all add: pn pm)
    have "\<rho> q < \<rho> pn" using R that mem(1,2) unfolding ranks_def by blast
    moreover have "q_ref g m = Some q \<or> q_ref g s' = Some q" using that key_ref [OF k(1)] key_ref [OF k(2)] by simp
    then have "\<rho> q < \<rho> pm" using R mem(3,4) unfolding ranks_def by blast
    ultimately show ?thesis by (simp add: L_def)
  qed
  then have R0: "ranks g0 ?B \<rho>0" unfolding \<rho>0_def by (rule minted_ranks [OF R G M _ a(1)])
  have Lp: "\<rho>0 ?r < \<rho>0 p" if "p = pn \<or> p = pm" for p
    using that nr by (auto simp: L_def \<rho>0_def)
  \<comment> \<open>the first occurrence\<close>
  have W0: "?W ?r = word g0 ?W m @ word g0 ?W s'"
    using w0 [OF am(7)] w0 [OF am(8)] key_word [OF k(1), of W] key_word [OF k(2), of W] by simp
  have Bm: "?B pm = us @ m # s' # vs" using pm nr by simp
  from G0(1) ix0 Bm rl W0 G0(2) obtain g1 ix' where q1: "substitute (check f) m ?r g0 = Some (g1\<lparr>q_index := ix'\<rparr>)"
    "substituted g0 ?B pm us m s' vs ?r g1" "index_ok (g1\<lparr>q_index := ix'\<rparr>) (?B(pm := us @ q_top g0 # vs))" by (rule substitute_quiet)
  let ?t = "q_top g0" let ?B1 = "?B(pm := us @ ?t # vs)" and ?g1 = "g1\<lparr>q_index := ix'\<rparr>"
  note S' = substitutedD [OF q1(2)] and h0 = gram_okD(1) [OF G0(1)]
  have G1: "gram_ok ?g1 ?B1 ?W" unfolding inv_index_upd by (rule substituted_gram [OF G0(1) Bm q1(2) rl W0])
  have R1: "ranks ?g1 ?B1 \<rho>0" unfolding inv_index_upd by (rule substituted_ranks [OF R0 h0 Bm q1(2) Lp]) simp
  \<comment> \<open>the second occurrence is still there\<close>
  have Bn: "?B pn = xn @ n # s # yn" using pn nr by simp
  then have a0: "adj ?B n s" unfolding adj_def by blast
  have nm: "n \<noteq> m" "n \<noteq> s'" "s \<noteq> m" using ne by auto
  have nl: "us = [] \<or> n \<noteq> last us"
  proof (rule ccontr)
    assume "\<not> ?thesis"
    then obtain us' where "us = us' @ [n]" by (cases us rule: rev_cases) auto
    then have "q_next g0 n = m" using node_links(1) [OF h0, of pm us' n "m # s' # vs"] Bm by simp
    then show False using adj_next(1) [OF h0 a0] nm by simp
  qed
  have "adj (?B(pm := us @ [?t] @ vs)) n s \<and> s \<notin> set [m, s']"
    by (rule adj_splice [OF h0 a0]) (use Bm nm nl in auto)
  then obtain p2 x2 y2 where p2: "?B1 p2 = x2 @ n # s # y2" and s2: "s \<noteq> s'" unfolding adj_def by auto
  have nt: "n \<noteq> ?t" "s \<noteq> ?t" using nodes_bound [OF h0 adj_next(7) [OF h0 a0]] nodes_bound [OF h0 adj_next(8) [OF h0 a0]] by auto
  have "n \<in> set (?B1 p2)" unfolding p2 by simp
  then have "n \<in> set (?B p2)" using nt Bm by (cases "p2 = pm") auto
  then have p2n: "p2 = pn" using heap_okD(3) [OF h0, of n p2 pn] Bn by simp
  have W1: "?W ?r = word ?g1 ?W n @ word ?g1 ?W s"
    using substituted_word [OF q1(2), of n ?W] substituted_word [OF q1(2), of s ?W] nm nt s2 w0 [OF an(7)] w0 [OF an(8)] by simp
  have U1: "refs ?g1 ?B1 q - {n, s} \<noteq> {}" if "q \<in> live ?g1" "q \<noteq> ?r" for q
  proof -
    have "q \<in> live g" using that by (simp add: S'(7) lv)
    from U0 [OF this] show ?thesis using substituted_refs [OF h0 Bm q1(2), of q] that(2) by auto
  qed
  have mu1: "mu ?g1 ?B1 = mu g B + 1" using substituted_mu [OF h0 Bm q1(2)] minted_mu [OF h Br M] by simp
  have p2r: "\<rho>0 ?r < \<rho>0 p2" using Lp p2n by blast
  have r1: "?r \<in> live ?g1" using rl by (simp add: S'(7))
  have mu2: "mu ?g1 ?B1 \<le> int f + 2" using mu1 mu by simp
  obtain g' B' W' where g': "substitute (check f) n ?r ?g1 = Some g'" "grammar_inv g' B' W'" "later ?g1 ?B1 ?W g' B' W'" "mu g' B' \<le> mu ?g1 ?B1 - 2"
    "q_nextID g' + mu g' B' \<le> q_nextID ?g1 + mu ?g1 ?B1 - 2"
    by (rule substitute_ok [OF C G1 R1 p2r q1(3) p2 r1 W1 U1 mu2])
  have L2: "later g B W g' B' W'"
    using g'(3,5) mu1 by (auto simp: later_def S'(5,8) M'(5,8))
  have "q_rguard g' ?r = q_rguard ?g1 ?r" using g'(3) by (simp add: later_def S'(8) M'(8))
  also have "\<dots> = q_top g" by (simp add: S'(5) M'(5))
  finally have "q_rguard g' ?r \<noteq> 0" using top by simp
  with M e q1(1) g' L2 mu1 show ?thesis by (intro that [of g0 g' B' W']) simp_all
qed

lemma match_ok:
  assumes C: "checks f" and I: "grammar_inv g B W" and a: "adj B n s" "adj B m s'"
    and k: "node_key g m = node_key g n" "node_key g s' = node_key g s" and ne: "m \<noteq> n" "s' \<noteq> n" "s \<noteq> m" and mu: "mu g B \<le> int f + 1"
  obtains g' B' W' where "match_digram (check f) n m g = Some g'" "grammar_inv g' B' W'" "later g B W g' B' W'" "mu g' B' < mu g B"
proof -
  have h: "heap_ok g B" using I by (simp add: grammar_inv_def gram_ok_def)
  obtain p us vs where p: "B p = us @ m # s' # vs" using a(2) unfolding adj_def by blast
  note w = whole_rule_eq [OF h p]
  show ?thesis
  proof (cases "us = [] \<and> vs = []")
    case True
    obtain q xs ys where q: "B q = xs @ n # s # ys" using a(1) unfolding adj_def by blast
    have "B p = [m, s']" using p True by simp
    from C I q this k ne(1,2) mu obtain g1 B1 W1 where g1: "substitute (check f) n p g = Some g1" "grammar_inv g1 B1 W1" "later g B W g1 B1 W1" "mu g1 B1 \<le> mu g B - 2"
      "p < q_nextID g" "q_rguard g p \<noteq> 0" by (rule reuse_ok)
    have rg: "q_rguard g1 p \<noteq> 0" using g1(3,5,6) by (simp add: later_def)
    have "mu g1 B1 \<le> int f + 1" using g1(4) mu by simp
    from C g1(2) rg this obtain g' B' W' where g':
      "(case q_ref g1 (q_next g1 (q_rguard g1 p)) of Some q \<Rightarrow> if q_uses g1 q = 1 then expandRef (check f) (q_next g1 (q_rguard g1 p)) g1 else Some g1 | None \<Rightarrow> Some g1) = Some g'"
      "grammar_inv g' B' W'" "later g1 B1 W1 g' B' W'" "mu g' B' \<le> mu g1 B1" by (rule match_repair)
    have "match_digram (check f) n m g = Some g'" using w True g1(1) g'(1) by (simp add: match_digram_def Let_def)
    then show ?thesis using g' g1 later_trans [OF g1(3) g'(3)] by (intro that [of g' B' W']) simp_all
  next
    case False
    let ?r = "q_nextID g"
    obtain g0 g1 B1 W1 where g1: "minted g B n s g0"
      "\<forall>F :: int \<Rightarrow> seq \<Rightarrow> (int \<times> seq) option. (let (r, g) = newRule g in
       do { (a, g) \<leftarrow> copyOf n g; g \<leftarrow> insertAfter (q_rguard g r) a g;
            (b, g) \<leftarrow> copyOf (q_next g n) g; g \<leftarrow> insertAfter (q_next g (q_rguard g r)) b g; F r g }) = F ?r g0"
      "do { h \<leftarrow> substitute (check f) m ?r g0; substitute (check f) n ?r h } = Some g1"
      "grammar_inv g1 B1 W1" "later g B W g1 B1 W1" "mu g1 B1 \<le> mu g B - 1" "q_rguard g1 ?r \<noteq> 0"
      by (rule mint_ok [OF C I a k ne mu])
    have G1: "heap_ok g1 B1" "index_ok g1 B1" using g1(4) by (simp_all add: grammar_inv_def gram_ok_def)
    have pl: "place g1 B1 (q_next g1 (q_rguard g1 ?r))"
      using guard_links(1) [OF G1(1) g1(7)] g1(7) in_nodes [of "hd (B1 ?r)" B1 ?r] by (cases "B1 ?r") (auto simp: place_def)
    obtain ix where ix: "setDigram (q_next g1 (q_rguard g1 ?r)) g1 = Some (g1\<lparr>q_index := ix\<rparr>)" "index_ok (g1\<lparr>q_index := ix\<rparr>) B1"
      by (rule setDigram_ok [OF G1 pl])
    let ?g = "g1\<lparr>q_index := ix\<rparr>"
    have I2: "grammar_inv ?g B1 W1" by (rule grammar_inv_index [OF g1(4) ix(2)])
    have "q_rguard ?g ?r \<noteq> 0" "mu ?g B1 \<le> int f + 1" using g1(6,7) mu by simp_all
    with C I2 obtain g' B' W' where g':
      "(case q_ref ?g (q_next ?g (q_rguard ?g ?r)) of Some q \<Rightarrow> if q_uses ?g q = 1 then expandRef (check f) (q_next ?g (q_rguard ?g ?r)) ?g else Some ?g | None \<Rightarrow> Some ?g) = Some g'"
      "grammar_inv g' B' W'" "later ?g B1 W1 g' B' W'" "mu g' B' \<le> mu ?g B1" by (rule match_repair)
    obtain g2 where g2: "substitute (check f) m ?r g0 = Some g2" "substitute (check f) n ?r g2 = Some g1"
      using g1(3) by (cases "substitute (check f) m ?r g0") simp_all
    have "(let (r, g) = newRule g in
       do { (a, g) \<leftarrow> copyOf n g; g \<leftarrow> insertAfter (q_rguard g r) a g;
            (b, g) \<leftarrow> copyOf (q_next g n) g; g \<leftarrow> insertAfter (q_next g (q_rguard g r)) b g;
            g \<leftarrow> substitute (check f) m r g; g \<leftarrow> substitute (check f) n r g; g \<leftarrow> setDigram (q_next g (q_rguard g r)) g; Some (r, g) })
      = do { g \<leftarrow> substitute (check f) m ?r g0; g \<leftarrow> substitute (check f) n ?r g; g \<leftarrow> setDigram (q_next g (q_rguard g ?r)) g; Some (?r, g) }"
      by (rule g1(2) [THEN spec])
    also have "\<dots> = Some (?r, ?g)" using g2 ix(1) by simp
    finally have e: "(let (r, g) = newRule g in
       do { (a, g) \<leftarrow> copyOf n g; g \<leftarrow> insertAfter (q_rguard g r) a g;
            (b, g) \<leftarrow> copyOf (q_next g n) g; g \<leftarrow> insertAfter (q_next g (q_rguard g r)) b g;
            g \<leftarrow> substitute (check f) m r g; g \<leftarrow> substitute (check f) n r g; g \<leftarrow> setDigram (q_next g (q_rguard g r)) g; Some (r, g) }) = Some (?r, ?g)" .
    have w': "whole_rule m g = Some None" using w False by auto
    have "match_digram (check f) n m g = Some g'"
      unfolding match_digram_def w' Option.bind.simps option.case e using g'(1) by (simp add: Let_def)
    moreover have "later g B W ?g B1 W1" using g1(5) by (simp add: later_def)
    ultimately show ?thesis using g' g1(6) later_trans [OF _ g'(3)] by (intro that [of g' B' W']) simp_all
  qed
qed

theorem checks_all: "checks f"
proof (induction f)
  case 0
  show ?case unfolding checks_def
  proof (intro allI impI)
    fix g B W n assume I: "grammar_inv g B W" and p: "place g B n" and m: "mu g B \<le> int 0"
    have G: "gram_ok g B W" and ix: "index_ok g B" using I by (simp_all add: grammar_inv_def)
    have none: "nodes B = {}" using mu_bounds(1) [OF G] m nodes_finite [OF gram_okD(1) [OF G]] by (simp flip: card_0_eq)
    from gram_okD(1) [OF G] ix p show "\<exists>b g' B' W'. check 0 n g = Some (b, g') \<and> grammar_inv g' B' W' \<and> later g B W g' B' W'
        \<and> (if b then mu g' B' < mu g B else B' = B \<and> W' = W \<and> (\<exists>ix. g' = g\<lparr>q_index := ix\<rparr>))"
    proof (cases rule: check_cases)
      case (quiet ix')
      then show ?thesis using grammar_inv_index [OF I quiet(2)] later_refl [of g B W ix'] by auto
    next
      case (hit m s s')
      then show ?thesis using adj_next(7) [OF gram_okD(1) [OF G] hit(2)] none by simp
    qed
  qed
next
  case (Suc f)
  show ?case unfolding checks_def
  proof (intro allI impI)
    fix g B W n assume I: "grammar_inv g B W" and p: "place g B n" and m: "mu g B \<le> int (Suc f)"
    have G: "gram_ok g B W" and ix: "index_ok g B" using I by (simp_all add: grammar_inv_def)
    from gram_okD(1) [OF G] ix p show "\<exists>b g' B' W'. check (Suc f) n g = Some (b, g') \<and> grammar_inv g' B' W' \<and> later g B W g' B' W'
        \<and> (if b then mu g' B' < mu g B else B' = B \<and> W' = W \<and> (\<exists>ix. g' = g\<lparr>q_index := ix\<rparr>))"
    proof (cases rule: check_cases)
      case (quiet ix')
      then show ?thesis using grammar_inv_index [OF I quiet(2)] later_refl [of g B W ix'] by auto
    next
      case (hit k s s')
      have "mu g B \<le> int f + 1" using m by simp
      from Suc.IH I hit(2-8) this obtain g' B' W' where "match_digram (check f) n k g = Some g'" "grammar_inv g' B' W'" "later g B W g' B' W'" "mu g' B' < mu g B"
        by (rule match_ok)
      then show ?thesis using hit(1) by (intro exI [of _ True] exI [of _ g'] exI [of _ B'] exI [of _ W']) simp
    qed
  qed
qed

end
