(* ===== verification/SequiturAppend.thy ===== *)
theory SequiturAppend
  imports SequiturMatch
begin

text \<open>
  The utility sweep and \<open>Append\<close>: both return, keep the invariant, and leave every rule with at
  least two references.
\<close>

section \<open>Walking a body\<close>

lemma nodes_from_ok:
  assumes h: "heap_ok g B" and r: "q_rguard g r \<noteq> 0" and B: "B r = xs @ ys" and f: "length ys < f"
  shows "nodes_from f (hd (ys @ [q_rguard g r])) g = Some ys"
  using B f
proof (induction ys arbitrary: xs f)
  case Nil
  then show ?case using guard_links(3) [OF h r] r by (cases f) simp_all
next
  case (Cons n ys)
  obtain f' where f': "f = Suc f'" using Cons.prems(2) by (cases f) simp_all
  note l = node_links [OF h Cons.prems(1)]
  have "nodes_from f' (hd (ys @ [q_rguard g r])) g = Some ys" using Cons.IH [of "xs @ [n]" f'] Cons.prems f' by simp
  then show ?case using l(1,3,4) by (simp add: f')
qed

lemma body_nodes_ok:
  assumes h: "heap_ok g B" and r: "q_rguard g r \<noteq> 0"
  shows "body_nodes r g = Some (B r)"
proof -
  have b: "body_ok g r (B r)" by (rule heap_okD(1) [OF h r])
  then have "set (B r) \<subseteq> {0<..<q_top g}" "distinct (B r)" "0 < q_top g" by (auto simp: body_ok_def)
  then have "length (B r) \<le> card {0<..<q_top g}" using card_mono [of "{0<..<q_top g}" "set (B r)"] by (simp add: distinct_card)
  then have "length (B r) < q_top g" using \<open>0 < q_top g\<close> by simp
  then show ?thesis using nodes_from_ok [OF h r, of "[]" "B r" "q_top g"] guard_links(1) [OF h r] by (simp add: body_nodes_def)
qed

lemma find_only:
  assumes "\<And>x. x \<in> set xs \<Longrightarrow> P x \<longleftrightarrow> x = n"
  shows "find P xs = (if n \<in> set xs then Some n else None)"
  using assms by (induction xs) auto

lemma soleRef_ok:
  assumes G: "gram_ok g B W" and R: "ranks g B \<rho>" and n: "refs g B r = {n}"
  shows "soleRef r g = Some (Some n)"
proof -
  note h = gram_okD(1) [OF G]
  have nn: "n \<in> nodes B" "q_ref g n = Some r" using n by (auto simp: refs_def)
  then obtain p where p: "n \<in> set (B p)" by (auto simp: nodes_def)
  have "p \<noteq> r" using R p nn(2) unfolding ranks_def by blast
  then have "p \<in> set (0 # filter (\<lambda>i. i \<noteq> r) (q_byID g))" using owner [OF G p] by auto
  moreover have "first_ref ids r g = Some (Some n)" if "p \<in> set ids" "set ids \<subseteq> insert 0 (live g)" for ids
    using that
  proof (induction ids)
    case (Cons i ids)
    have "q_rguard g i \<noteq> 0" using Cons.prems(2) gram_okD(2,8) [OF G] by auto
    then have "body_nodes i g = Some (B i)" by (rule body_nodes_ok [OF h])
    moreover have "(q_ref g x = Some r) = (x = n)" if "x \<in> set (B i)" for x
      using n in_nodes [of x B i] that unfolding refs_def by auto
    then have "find (\<lambda>x. q_ref g x = Some r) (B i) = (if n \<in> set (B i) then Some n else None)" by (rule find_only)
    ultimately have "refIn i r g = Some (if n \<in> set (B i) then Some n else None)" by (simp add: refIn_def)
    then show ?case using Cons p by (auto split: if_splits)
  qed simp
  ultimately show ?thesis unfolding soleRef_def by (metis (no_types, lifting) filter_is_subset insert_mono list.simps(15))
qed

section \<open>The sweep\<close>

lemma inv_sweeps_upd [simp]: "grammar_inv (g\<lparr>q_sweeps := x\<rparr>) B W = grammar_inv g B W" "mu (g\<lparr>q_sweeps := x\<rparr>) B = mu g B"
  "later (g\<lparr>q_sweeps := x\<rparr>) B W g' B' W' = later g B W g' B' W'"
proof -
  have 1: "refs (g\<lparr>q_sweeps := x\<rparr>) B = refs g B" by (simp add: refs_def fun_eq_iff)
  have 2: "word (g\<lparr>q_sweeps := x\<rparr>) W = word g W" by (simp add: word_def fun_eq_iff split: option.split)
  have 3: "node_key (g\<lparr>q_sweeps := x\<rparr>) = node_key g" by (simp add: node_key_def fun_eq_iff)
  show "grammar_inv (g\<lparr>q_sweeps := x\<rparr>) B W = grammar_inv g B W"
    by (simp add: grammar_inv_def gram_ok_def ranks_def used_def index_ok_def 1 2 3)
qed (simp_all add: mu_def later_def)

lemma repair_ok:
  assumes I: "grammar_inv g B W" and m: "mu g B \<le> int f + 1"
  obtains g' B' W' where "repair (check f) r g = Some g'" "grammar_inv g' B' W'" "later g B W g' B' W'" "mu g' B' \<le> mu g B"
    "r \<in> live g \<Longrightarrow> q_uses g r \<le> 1 \<Longrightarrow> mu g' B' < mu g B"
proof -
  obtain \<rho> where G: "gram_ok g B W" and R: "ranks g B \<rho>" and U: "used g B" using I by (auto simp: grammar_inv_def)
  have *: "later g B W g B W" by (simp add: later_def)
  show ?thesis
  proof (cases "r \<in> live g \<and> q_uses g r \<le> 1")
    case False
    then have "repair (check f) r g = Some g"
      by (auto simp: repair_def)
    then show ?thesis using I * False by (intro that [of g B W]) simp_all
  next
    case True
    note h = gram_okD(1) [OF G]
    have c: "q_uses g r = int (card (refs g B r))" using gram_okD(15) [OF G] True by blast
    moreover have "refs g B r \<noteq> {}" using U True unfolding used_def by blast
    then have "0 < card (refs g B r)" using refs_finite [OF h, of r] by (simp add: card_gt_0_iff)
    ultimately have one: "q_uses g r = 1" "card (refs g B r) = 1" using True by simp_all
    then obtain n where n: "refs g B r = {n}" by (auto simp: card_1_singleton_iff)
    then have nn: "n \<in> nodes B" "q_ref g n = Some r" by (auto simp: refs_def)
    then obtain p xs ys where p: "B p = xs @ n # ys" unfolding nodes_def by (auto dest: split_list)
    obtain g' B' W' where e: "expandRef (check f) n g = Some g'" "grammar_inv g' B' W'" "later g B W g' B' W'" "mu g' B' \<le> mu g B - 1"
      by (rule expandRef_ok [OF checks_all I p nn(2) one(1) m])
    have "repair (check f) r g = Some g'"
      using True one(1) e(1) soleRef_ok [OF G R n] by (simp add: repair_def)
    then show ?thesis using e by (intro that [of g' B' W']) simp_all
  qed
qed

lemma repair_all_ok:
  assumes "grammar_inv g B W" "mu g B \<le> int f + 1"
  shows "\<exists>g' B' W'. repair_all (check f) rs g = Some g' \<and> grammar_inv g' B' W' \<and> later g B W g' B' W' \<and> mu g' B' \<le> mu g B
    \<and> (rs \<noteq> [] \<and> hd rs \<in> live g \<and> q_uses g (hd rs) \<le> 1 \<longrightarrow> mu g' B' < mu g B)"
  using assms
proof (induction rs arbitrary: g B W)
  case Nil
  then show ?case by (auto simp: later_def)
next
  case (Cons r rs)
  obtain g1 B1 W1 where 1: "repair (check f) r g = Some g1" "grammar_inv g1 B1 W1" "later g B W g1 B1 W1" "mu g1 B1 \<le> mu g B"
    "r \<in> live g \<Longrightarrow> q_uses g r \<le> 1 \<Longrightarrow> mu g1 B1 < mu g B"
    using repair_ok [OF Cons.prems, of r] by blast
  have "mu g1 B1 \<le> int f + 1" using 1(4) Cons.prems(2) by simp
  from Cons.IH [OF 1(2) this] obtain g2 B2 W2 where
    2: "repair_all (check f) rs g1 = Some g2" "grammar_inv g2 B2 W2" "later g1 B1 W1 g2 B2 W2" "mu g2 B2 \<le> mu g1 B1" by blast
  show ?case
    using 1 2 later_trans [OF 1(3) 2(3)] by (intro exI [of _ g2] exI [of _ B2] exI [of _ W2]) auto
qed

lemma enforce_ok:
  assumes "grammar_inv g B W" "mu g B \<le> int f"
  shows "\<exists>g' B' W'. enforceRuleUtility f g = Some g' \<and> grammar_inv g' B' W' \<and> later g B W g' B' W' \<and> (\<forall>r \<in> live g'. 2 \<le> q_uses g' r)"
  using assms
proof (induction f arbitrary: g B W)
  case 0
  have G: "gram_ok g B W" using 0 by (simp add: grammar_inv_def)
  have "q_byID g = []" using mu_bounds(1) [OF G] live_le_nodes [OF G] 0(2) by (simp flip: length_0_conv)
  then show ?case using 0(1) by (auto simp: later_def)
next
  case (Suc f)
  let ?under = "filter (\<lambda>r. q_uses g r \<le> 1) (q_byID g)" and ?g = "g\<lparr>q_sweeps := q_sweeps g + 1\<rparr>"
  show ?case
  proof (cases "?under = []")
    case True
    then have "\<forall>r \<in> live g. 2 \<le> q_uses g r" by (auto simp: filter_empty_conv)
    then show ?thesis using True Suc.prems(1) by (intro exI [of _ g] exI [of _ B] exI [of _ W]) (simp add: later_def)
  next
    case False
    then have hd: "hd ?under \<in> live g" "q_uses g (hd ?under) \<le> 1" using hd_in_set [OF False] by auto
    have "grammar_inv ?g B W" "mu ?g B \<le> int f + 1" using Suc.prems by simp_all
    from repair_all_ok [OF this, of ?under] obtain g1 B1 W1 where
      1: "repair_all (check f) ?under ?g = Some g1" "grammar_inv g1 B1 W1" "later ?g B W g1 B1 W1" "mu g1 B1 < mu ?g B"
      using hd False by auto
    have "mu g1 B1 \<le> int f" using 1(4) Suc.prems(2) by simp
    from Suc.IH [OF 1(2) this] obtain g2 B2 W2 where
      2: "enforceRuleUtility f g1 = Some g2" "grammar_inv g2 B2 W2" "later g1 B1 W1 g2 B2 W2" "\<forall>r \<in> live g2. 2 \<le> q_uses g2 r" by blast
    have "later g B W g2 B2 W2" using later_trans [OF 1(3) 2(3)] by simp
    then show ?thesis using False 1(1) 2 by (intro exI [of _ g2] exI [of _ B2] exI [of _ W2]) (simp add: Let_def)
  qed
qed

section \<open>Append\<close>

lemma append_node_ok:
  assumes I: "grammar_inv g B W"
  obtains g' where "insertAfter (q_prev (snd (newNode None v None g)) (q_rguard g 0)) (q_top g) (snd (newNode None v None g)) = Some g'"
    "grammar_inv g' (B(0 := B 0 @ [q_top g])) (W(0 := W 0 @ [v]))" "q_prev g' (q_top g) = last (q_rguard g 0 # B 0)"
    "q_rguard g' = q_rguard g" "q_top g' = q_top g + 1" "q_nextID g' = q_nextID g" "mu g' (B(0 := B 0 @ [q_top g])) = mu g B + 2"
proof -
  obtain \<rho> where G: "gram_ok g B W" and R: "ranks g B \<rho>" and U: "used g B" and ix: "index_ok g B" using I by (auto simp: grammar_inv_def)
  note h = gram_okD(1) [OF G] and rg = gram_okD(2) [OF G]
  let ?t = "q_top g" let ?B = "B(0 := B 0 @ [?t])" and ?W = "W(0 := W 0 @ [v])"
  define g1 where "g1 = snd (newNode None v None g)"
  have h1: "heap_ok g1 B" unfolding g1_def by (rule newNode_ok [OF h])
  have s1: "q_rguard g1 = q_rguard g" "q_top g1 = Suc ?t" "q_guard g1 ?t = None" "q_ref g1 = (q_ref g)(?t := None)" "q_val g1 = (q_val g)(?t := v)"
    "q_uses g1 = q_uses g" "q_byID g1 = q_byID g" "q_nextID g1 = q_nextID g" "q_index g1 = q_index g"
    by (simp_all add: g1_def newNode_def Let_def)
  have fr: "?t \<notin> set (B r)" for r using nodes_bound [OF h in_nodes, of ?t r] by auto
  then have tn: "?t \<notin> nodes B" by (simp add: nodes_def)
  have at: "q_prev g1 (q_rguard g 0) = last (q_rguard g 0 # B 0)" using guard_links(2) [OF h1, of 0] rg by (simp add: s1)
  obtain nx pv where i: "insertAfter (last (q_rguard g 0 # B 0)) ?t g1 = Some (g1\<lparr>q_next := nx, q_prev := pv\<rparr>)"
    "heap_ok (g1\<lparr>q_next := nx, q_prev := pv\<rparr>) (B(0 := B 0 @ ?t # []))"
    by (rule insertAfter_ok [OF h1, of 0 "B 0" "[]" _ ?t]) (use s1 rg fr guard_links(4) [OF h rg] in auto)
  let ?g = "g1\<lparr>q_next := nx, q_prev := pv\<rparr>"
  have N: "nodes ?B = nodes B \<union> {?t}" unfolding nodes_upd [OF h] by (auto simp: nodes_def)
  have "mu ?g ?B = mu g B + 2" unfolding mu_def N using tn nodes_finite [OF h] by (simp add: s1)
  have refs: "refs ?g ?B q = refs g B q" for q using tn unfolding refs_def N by (auto simp: s1)
  have word: "word ?g ?W x = word g W x" if "x \<in> nodes B" for x
    using gram_okD(12) [OF G that] gram_okD(6) [OF G] tn that by (auto simp: word_def s1 split: option.split)
  have key: "node_key ?g x = node_key g x" if "x \<in> nodes B" for x using that tn by (auto simp: node_key_def s1)
  have "gram_ok ?g ?B ?W"
  proof (rule gram_okI)
    show "heap_ok ?g ?B" using i(2) by simp
    show "q_rguard ?g 0 \<noteq> 0" "0 < q_nextID ?g" "sorted (q_byID ?g)" "distinct (q_byID ?g)" using gram_okD(2-5) [OF G] by (simp_all add: s1)
    show "0 < r \<and> r < q_nextID ?g \<and> q_rguard ?g r \<noteq> 0 \<and> ?B r \<noteq> [] \<and> ?W r \<noteq> []" if "r \<in> live ?g" for r
      using that gram_okD(6-10) [OF G, of r] by (simp add: s1)
    show "?B r = []" if "r \<notin> insert 0 (live ?g)" for r using that gram_okD(11) [OF G, of r] by (simp add: s1)
    show "q \<in> live ?g" if "x \<in> nodes ?B" "q_ref ?g x = Some q" for x q
      using that gram_okD(12) [OF G, of x q] unfolding N by (auto simp: s1 split: if_splits)
    show "q_ref ?g (q_rguard ?g r) = None" if "q_rguard ?g r \<noteq> 0" for r
      using that gram_okD(13) [OF G, of r] by (simp add: s1)
    show "?W r = concat (map (word ?g ?W) (?B r))" if "r \<in> insert 0 (live ?g)" for r
    proof -
      have m: "map (word ?g ?W) (B r) = map (word g W) (B r)" using word in_nodes [of _ B r] by (simp del: fun_upd_apply)
      have "W r = concat (map (word g W) (B r))" by (rule gram_okD(14) [OF G]) (use that in \<open>simp add: s1\<close>)
      moreover have "word ?g ?W ?t = [v]" by (simp add: word_def s1)
      ultimately show ?thesis using m by (cases "r = 0") (simp_all del: map_eq_conv)
    qed
    show "q_uses ?g q = int (card (refs ?g ?B q))" if "q \<in> live ?g" for q
      using that gram_okD(15) [OF G, of q] by (simp add: refs s1)
  qed
  moreover have "ranks ?g ?B \<rho>" using R unfolding ranks_def by (auto simp: s1)
  moreover have "used ?g ?B" using U unfolding used_def by (simp add: refs s1)
  moreover have "index_ok ?g ?B" unfolding index_ok_def
  proof (intro allI impI)
    fix k m assume "q_index ?g k = Some m"
    then have "q_index g k = Some m" by (simp add: s1)
    then obtain s' where a: "adj B m s'" "k = (node_key g m, node_key g s')" using ix unfolding index_ok_def by blast
    obtain r xs ys where r: "B r = xs @ m # s' # ys" using a(1) unfolding adj_def by blast
    then have "?B r = xs @ m # s' # (if r = 0 then ys @ [?t] else ys)" by (cases "r = 0") simp_all
    then have "adj ?B m s'" unfolding adj_def by blast
    then show "\<exists>s. adj ?B m s \<and> k = (node_key ?g m, node_key ?g s)"
      using a(2) key [OF adj_next(7) [OF h a(1)]] key [OF adj_next(8) [OF h a(1)]] by metis
  qed
  moreover have "q_prev ?g ?t = last (q_rguard g 0 # B 0)" using node_links(2) [OF i(2), of 0 "B 0" ?t "[]"] by (simp add: s1)
  moreover note \<open>mu ?g ?B = mu g B + 2\<close>
  moreover have "insertAfter (q_prev g1 (q_rguard g 0)) ?t g1 = Some ?g" unfolding at by (rule i(1))
  ultimately show ?thesis by (intro that [of ?g]) (auto simp: grammar_inv_def s1 simp flip: g1_def)
qed

theorem Append_ok:
  assumes I: "grammar_inv g B W"
  shows "\<exists>g' B' W'. Append v g = Some g' \<and> grammar_inv g' B' W' \<and> W' 0 = W 0 @ [v] \<and> (\<forall>r \<in> live g'. 2 \<le> q_uses g' r)
    \<and> q_nextID g' + mu g' B' \<le> q_nextID g + mu g B + 2"
proof -
  have G: "gram_ok g B W" using I by (simp add: grammar_inv_def)
  let ?f = "2 * q_top g + 2"
  obtain g1 where 1: "insertAfter (q_prev (snd (newNode None v None g)) (q_rguard g 0)) (q_top g) (snd (newNode None v None g)) = Some g1"
    "grammar_inv g1 (B(0 := B 0 @ [q_top g])) (W(0 := W 0 @ [v]))" "q_prev g1 (q_top g) = last (q_rguard g 0 # B 0)"
    "q_rguard g1 = q_rguard g" "q_top g1 = q_top g + 1" "q_nextID g1 = q_nextID g" "mu g1 (B(0 := B 0 @ [q_top g])) = mu g B + 2"
    by (rule append_node_ok [OF I])
  let ?B = "B(0 := B 0 @ [q_top g])" and ?W = "W(0 := W 0 @ [v])"
  have G1: "gram_ok g1 ?B ?W" using 1(2) by (simp add: grammar_inv_def)
  have m: "mu g1 ?B \<le> int ?f" using mu_bounds(2) [OF G1] 1(5) by simp
  have "place g1 ?B (last (q_rguard g1 0 # B 0))"
    by (rule place_left [OF gram_okD(1) [OF G1], of 0 "B 0" "[q_top g]"]) (use gram_okD(2) [OF G1] in simp_all)
  then have pl: "place g1 ?B (q_prev g1 (q_top g))" by (simp add: 1(3,4))
  from checks_all [unfolded checks_def, rule_format, OF 1(2) pl m] obtain b g2 B2 W2 where
    2: "check ?f (q_prev g1 (q_top g)) g1 = Some (b, g2)" "grammar_inv g2 B2 W2" "later g1 ?B ?W g2 B2 W2"
    "if b then mu g2 B2 < mu g1 ?B else B2 = ?B \<and> W2 = ?W \<and> (\<exists>ix. g2 = g1\<lparr>q_index := ix\<rparr>)" by blast
  have "mu g2 B2 \<le> mu g1 ?B" using 2(4) by (auto split: if_splits)
  then have "mu g2 B2 \<le> int ?f" using m by simp
  from enforce_ok [OF 2(2) this] obtain g3 B3 W3 where
    3: "enforceRuleUtility ?f g2 = Some g3" "grammar_inv g3 B3 W3" "later g2 B2 W2 g3 B3 W3" "\<forall>r \<in> live g3. 2 \<le> q_uses g3 r" by blast
  have "W3 0 = ?W 0" "q_nextID g3 + mu g3 B3 \<le> q_nextID g + mu g B + 2"
    using later_trans [OF 2(3) 3(3)] gram_okD(5) [OF G1] 1(6,7) by (simp_all add: later_def)
  moreover have "Append v g = Some g3"
  proof -
    define h where "h = snd (newNode None v None g)"
    have nn: "newNode None v None g = (q_top g, h)" by (simp add: h_def newNode_def Let_def)
    have "q_rguard h = q_rguard g" by (simp add: h_def newNode_def Let_def)
    then have "insertAfter (q_prev h (q_rguard h 0)) (q_top g) h = Some g1" using 1(1) by (simp add: h_def)
    then show ?thesis unfolding Append_def nn using 2(1) 3(1) by (simp add: Let_def)
  qed
  ultimately show ?thesis using 3 by (intro exI [of _ g3] exI [of _ B3] exI [of _ W3]) simp
qed

lemma clear_ok: "grammar_inv clear (\<lambda>_. []) (\<lambda>_. [])"
proof -
  have s: "q_rguard clear = (\<lambda>_. 0)(0 := 1)" "q_byID clear = []" "q_nextID clear = 1" "q_index clear = (\<lambda>_. None)" "q_ref clear = (\<lambda>_. None)"
    "q_next clear (Suc 0) = 1" "q_prev clear (Suc 0) = 1" "q_guard clear (Suc 0) = Some 0" "q_top clear = 2"
    by (simp_all add: clear_def newGuard_def newNode_def Let_def fun_eq_iff)
  have "heap_ok clear (\<lambda>_. [])" unfolding heap_ok_def body_ok_def by (simp add: s)
  then show ?thesis by (simp add: grammar_inv_def gram_ok_def ranks_def used_def index_ok_def nodes_def s)
qed

theorem append_all_ok:
  assumes "grammar_inv g B W"
  shows "\<exists>g' B' W'. append_all vs g = Some g' \<and> grammar_inv g' B' W' \<and> W' 0 = W 0 @ vs
    \<and> q_nextID g' + mu g' B' \<le> q_nextID g + mu g B + 2 * int (length vs)
    \<and> ((\<forall>r \<in> live g. 2 \<le> q_uses g r) \<or> vs \<noteq> [] \<longrightarrow> (\<forall>r \<in> live g'. 2 \<le> q_uses g' r))"
  using assms
proof (induction vs arbitrary: g B W)
  case Nil
  then show ?case by auto
next
  case (Cons v vs)
  from Append_ok [OF Cons.prems, of v] obtain g1 B1 W1 where 1: "Append v g = Some g1" "grammar_inv g1 B1 W1" "W1 0 = W 0 @ [v]"
    "q_nextID g1 + mu g1 B1 \<le> q_nextID g + mu g B + 2" "\<forall>r \<in> live g1. 2 \<le> q_uses g1 r" by blast
  from Cons.IH [OF 1(2)] obtain g2 B2 W2 where "append_all vs g1 = Some g2" "grammar_inv g2 B2 W2" "W2 0 = W1 0 @ vs"
    "q_nextID g2 + mu g2 B2 \<le> q_nextID g1 + mu g1 B1 + 2 * int (length vs)" "\<forall>r \<in> live g2. 2 \<le> q_uses g2 r" using 1(5) by blast
  then show ?case using 1 by (intro exI [of _ g2] exI [of _ B2] exI [of _ W2]) simp
qed

end
