(* ===== verification/SequiturViews.thy ===== *)
theory SequiturViews
  imports SequiturAppend
begin

text \<open>
  The read-only projections of \<^verbatim>\<open>rules.go\<close> and \<^verbatim>\<open>sequitur.go\<close>: bodies and expansions of the live
  rules, \<open>Rules\<close>, \<open>Thrash\<close>, \<open>Compressed\<close> and \<open>Snapshot\<close>.  \<open>None\<close> is again a panic or a walk that does
  not end.
\<close>

section \<open>The projections\<close>

definition encoded :: "seq \<Rightarrow> nat \<Rightarrow> Symbol" where
  "encoded g n = (case q_ref g n of Some r \<Rightarrow> RuleRef r | None \<Rightarrow> q_val g n)"

text \<open>\<open>q_byID\<close> is the sorted list of the map's keys.\<close>

definition sortedIDs :: "seq \<Rightarrow> int list" where
  "sortedIDs g = sort (q_byID g)"

definition bodyOf :: "int \<Rightarrow> seq \<Rightarrow> Symbol slice option" where
  "bodyOf r g = map_option (\<lambda>ns. slice_of (map (encoded g) ns)) (body_nodes r g)"

type_synonym memo = "int \<Rightarrow> Symbol list option"
type_synonym busy = "int \<Rightarrow> bool"

fun expand_nodes :: "(int \<Rightarrow> memo \<Rightarrow> busy \<Rightarrow> (Symbol list \<times> memo \<times> busy) option) \<Rightarrow> seq \<Rightarrow> nat list \<Rightarrow> Symbol list \<Rightarrow> memo \<Rightarrow> busy
    \<Rightarrow> (Symbol list \<times> memo \<times> busy) option" where
  "expand_nodes rec g [] out memo busy = Some (out, memo, busy)"
| "expand_nodes rec g (n # ns) out memo busy =
     (case q_ref g n of
        Some q \<Rightarrow> do { (e, memo, busy) \<leftarrow> rec q memo busy; expand_nodes rec g ns (out @ e) memo busy }
      | None \<Rightarrow> expand_nodes rec g ns (out @ [q_val g n]) memo busy)"

primrec expansionOf :: "nat \<Rightarrow> seq \<Rightarrow> int \<Rightarrow> memo \<Rightarrow> busy \<Rightarrow> (Symbol list \<times> memo \<times> busy) option" where
  "expansionOf 0 g = (\<lambda>r memo busy. None)"
| "expansionOf (Suc fuel) g = (\<lambda>r memo busy.
     case memo r of
       Some e \<Rightarrow> Some (e, memo, busy)
     | None \<Rightarrow>
         if busy r then Some ([], memo, busy)
         else do { ns \<leftarrow> body_nodes r g;
                   (out, memo, busy) \<leftarrow> expand_nodes (expansionOf fuel g) g ns [] memo (busy(r := True));
                   Some (out, memo(r := Some out), busy(r := False)) })"

fun expand_ids :: "nat \<Rightarrow> seq \<Rightarrow> int list \<Rightarrow> memo \<Rightarrow> busy \<Rightarrow> memo option" where
  "expand_ids fuel g [] memo busy = Some memo"
| "expand_ids fuel g (r # rs) memo busy = do { (_, memo, busy) \<leftarrow> expansionOf fuel g r memo busy; expand_ids fuel g rs memo busy }"

text \<open>The rules being expanded are distinct, so the recursion is no deeper than the number of rules.\<close>

definition expansions :: "seq \<Rightarrow> memo option" where
  "expansions g = expand_ids (length (q_byID g)) g (sortedIDs g) (\<lambda>_. None) (\<lambda>_. False)"

definition rule_view :: "seq \<Rightarrow> memo \<Rightarrow> int \<Rightarrow> Rule option" where
  "rule_view g ex r =
     do { body \<leftarrow> bodyOf r g;
          let e = (case ex r of None \<Rightarrow> [] | Some e \<Rightarrow> e);
          Some \<lparr>ru_ID = r, ru_Body = body, ru_Uses = q_uses g r, ru_Expansion = slice_of e, ru_Span = int (length e)\<rparr> }"

fun rule_views :: "seq \<Rightarrow> memo \<Rightarrow> int list \<Rightarrow> Rule list option" where
  "rule_views g ex [] = Some []"
| "rule_views g ex (r # rs) = do { v \<leftarrow> rule_view g ex r; vs \<leftarrow> rule_views g ex rs; Some (v # vs) }"

definition snapshotRules :: "seq \<Rightarrow> Rule slice option" where
  "snapshotRules g =
     (if sortedIDs g = [] then Some None
      else do { ex \<leftarrow> expansions g; vs \<leftarrow> rule_views g ex (sortedIDs g); Some (Some vs) })"

definition Rules :: "seq \<Rightarrow> Rule slice option" where
  "Rules g = snapshotRules g"

definition Thrash :: "int \<Rightarrow> seq \<Rightarrow> Rule slice option" where
  "Thrash minUses g =
     map_option (\<lambda>rs. slice_of (filter (\<lambda>r. minUses < ru_Uses r \<and> 2 \<le> length (elems (ru_Expansion r))) (elems rs))) (snapshotRules g)"

definition Compressed :: "seq \<Rightarrow> Symbol slice option" where
  "Compressed g = bodyOf startRuleID g"

definition Snapshot_of :: "seq \<Rightarrow> Snapshot option" where
  "Snapshot_of g =
     do { rs \<leftarrow> snapshotRules g; c \<leftarrow> Compressed g;
          Some \<lparr>sn_Rules = rs, sn_Sequence = c, sn_NextID = q_nextID g\<rparr> }"

section \<open>Their values under the invariant\<close>

lemma sortedIDs_eq: "gram_ok g B W \<Longrightarrow> sortedIDs g = q_byID g"
  using gram_okD(3) by (simp add: sortedIDs_def sorted_sort_id)

lemma bodyOf_eq: "heap_ok g B \<Longrightarrow> q_rguard g r \<noteq> 0 \<Longrightarrow> bodyOf r g = Some (slice_of (map (encoded g) (B r)))"
  by (simp add: bodyOf_def body_nodes_ok)

text \<open>The rules below \<open>r\<close>: the depth left for expanding it.\<close>

definition depth :: "seq \<Rightarrow> (int \<Rightarrow> nat) \<Rightarrow> int \<Rightarrow> nat" where
  "depth g \<rho> r = card {q \<in> live g. \<rho> q < \<rho> r}"

lemma depth_less:
  assumes "q \<in> live g" "\<rho> q < \<rho> r"
  shows "depth g \<rho> q < depth g \<rho> r"
  unfolding depth_def by (rule psubset_card_mono) (use assms in auto)

definition memo_ok :: "seq \<Rightarrow> (int \<Rightarrow> Symbol list) \<Rightarrow> memo \<Rightarrow> bool" where
  "memo_ok g W memo \<longleftrightarrow> (\<forall>r e. memo r = Some e \<longrightarrow> e = W r)"

lemma expand_nodes_ok:
  assumes "\<And>n q memo. n \<in> set ns \<Longrightarrow> q_ref g n = Some q \<Longrightarrow> memo_ok g W memo \<Longrightarrow>
      \<exists>memo'. rec q memo busy = Some (W q, memo', busy) \<and> memo_ok g W memo' \<and> dom memo \<subseteq> dom memo'"
    and "memo_ok g W memo"
  shows "\<exists>memo'. expand_nodes rec g ns out memo busy = Some (out @ concat (map (word g W) ns), memo', busy) \<and> memo_ok g W memo' \<and> dom memo \<subseteq> dom memo'"
  using assms
proof (induction ns arbitrary: out memo)
  case Nil
  then show ?case by auto
next
  case (Cons n ns)
  show ?case
  proof (cases "q_ref g n")
    case None
    have "\<exists>memo'. expand_nodes rec g ns (out @ [q_val g n]) memo busy = Some ((out @ [q_val g n]) @ concat (map (word g W) ns), memo', busy)
        \<and> memo_ok g W memo' \<and> dom memo \<subseteq> dom memo'"
      by (rule Cons.IH) (use Cons.prems in auto)
    moreover have "word g W n = [q_val g n]" using None by (simp add: word_def)
    ultimately show ?thesis using None by simp
  next
    case (Some q)
    have w: "word g W n = W q" using Some by (simp add: word_def)
    obtain m1 where m1: "rec q memo busy = Some (W q, m1, busy)" "memo_ok g W m1" "dom memo \<subseteq> dom m1"
      using Cons.prems(1) [of n q memo] Cons.prems(2) Some by auto
    have "\<exists>memo'. expand_nodes rec g ns (out @ W q) m1 busy = Some ((out @ W q) @ concat (map (word g W) ns), memo', busy)
        \<and> memo_ok g W memo' \<and> dom m1 \<subseteq> dom memo'"
      by (rule Cons.IH) (use Cons.prems m1 in auto)
    then show ?thesis using Some m1 w by auto
  qed
qed

lemma expansionOf_ok:
  assumes G: "gram_ok g B W" and R: "ranks g B \<rho>" and "r \<in> live g" "depth g \<rho> r < fuel" "memo_ok g W memo" "\<And>q. busy q \<Longrightarrow> \<rho> r < \<rho> q"
  shows "\<exists>memo'. expansionOf fuel g r memo busy = Some (W r, memo', busy) \<and> memo_ok g W memo' \<and> dom memo \<subseteq> dom memo' \<and> r \<in> dom memo'"
  using assms(3-)
proof (induction fuel arbitrary: r memo busy)
  case 0
  then show ?case by simp
next
  case (Suc fuel)
  note h = gram_okD(1) [OF G]
  show ?case
  proof (cases "memo r")
    case (Some e)
    then show ?thesis using Suc.prems(3) by (auto simp: memo_ok_def)
  next
    case None
    have nb: "\<not> busy r" using Suc.prems(4) [of r] by auto
    have body: "body_nodes r g = Some (B r)" by (rule body_nodes_ok [OF h gram_okD(8) [OF G Suc.prems(1)]])
    have "\<exists>memo'. expand_nodes (expansionOf fuel g) g (B r) [] memo (busy(r := True))
        = Some ([] @ concat (map (word g W) (B r)), memo', busy(r := True)) \<and> memo_ok g W memo' \<and> dom memo \<subseteq> dom memo'"
    proof (rule expand_nodes_ok [OF _ Suc.prems(3)])
      fix n q m assume n: "n \<in> set (B r)" "q_ref g n = Some q" and m: "memo_ok g W m"
      have ql: "q \<in> live g" by (rule gram_okD(12) [OF G in_nodes n(2)]) (rule n(1))
      have qr: "\<rho> q < \<rho> r" using R n unfolding ranks_def by blast
      have "depth g \<rho> q < fuel" using depth_less [where g = g and q = q and r = r and \<rho> = \<rho>, OF ql qr] Suc.prems(2) by simp
      moreover have "\<rho> q < \<rho> x" if "(busy(r := True)) x" for x using that qr Suc.prems(4) [of x] by (cases "x = r") auto
      ultimately show "\<exists>memo'. expansionOf fuel g q m (busy(r := True)) = Some (W q, memo', busy(r := True)) \<and> memo_ok g W memo' \<and> dom m \<subseteq> dom memo'"
        using Suc.IH [OF ql _ m] by blast
    qed
    then obtain m1 where m1: "expand_nodes (expansionOf fuel g) g (B r) [] memo (busy(r := True)) = Some (concat (map (word g W) (B r)), m1, busy(r := True))"
      "memo_ok g W m1" "dom memo \<subseteq> dom m1" by auto
    have W: "concat (map (word g W) (B r)) = W r" using gram_okD(14) [OF G, of r] Suc.prems(1) by simp
    have "busy(r := True, r := False) = busy" using nb by (simp add: fun_upd_idem)
    then have "expansionOf (Suc fuel) g r memo busy = Some (W r, m1(r := Some (W r)), busy)" using None nb body m1(1) by (simp add: W)
    moreover have "memo_ok g W (m1(r := Some (W r)))" using m1(2) by (simp add: memo_ok_def)
    moreover have "dom memo \<subseteq> dom (m1(r := Some (W r)))" "r \<in> dom (m1(r := Some (W r)))" using m1(3) by auto
    ultimately show ?thesis by blast
  qed
qed

lemma expand_ids_ok:
  assumes G: "gram_ok g B W" and R: "ranks g B \<rho>" and "set rs \<subseteq> live g" "memo_ok g W memo"
  shows "\<exists>memo'. expand_ids (length (q_byID g)) g rs memo (\<lambda>_. False) = Some memo' \<and> memo_ok g W memo' \<and> dom memo \<union> set rs \<subseteq> dom memo'"
  using assms(3-)
proof (induction rs arbitrary: memo)
  case (Cons r rs)
  have rl: "r \<in> live g" using Cons.prems(1) by simp
  have "depth g \<rho> r < card (live g)" unfolding depth_def by (rule psubset_card_mono) (use rl in auto)
  also have "card (live g) = length (q_byID g)" using gram_okD(4) [OF G] by (simp add: distinct_card)
  finally have "\<exists>m1. expansionOf (length (q_byID g)) g r memo (\<lambda>_. False) = Some (W r, m1, \<lambda>_. False) \<and> memo_ok g W m1 \<and> dom memo \<subseteq> dom m1 \<and> r \<in> dom m1"
    by (rule expansionOf_ok [OF G R rl _ Cons.prems(2)]) simp
  then obtain m1 where m1: "expansionOf (length (q_byID g)) g r memo (\<lambda>_. False) = Some (W r, m1, \<lambda>_. False)" "memo_ok g W m1" "dom memo \<subseteq> dom m1" "r \<in> dom m1"
    by (elim exE conjE)
  have "\<exists>memo'. expand_ids (length (q_byID g)) g rs m1 (\<lambda>_. False) = Some memo' \<and> memo_ok g W memo' \<and> dom m1 \<union> set rs \<subseteq> dom memo'"
    by (rule Cons.IH) (use Cons.prems m1(2) in auto)
  then obtain m2 where "expand_ids (length (q_byID g)) g rs m1 (\<lambda>_. False) = Some m2" "memo_ok g W m2" "dom m1 \<union> set rs \<subseteq> dom m2" by (elim exE conjE)
  then show ?case using m1 by (intro exI [of _ m2]) auto
qed auto

definition view_of :: "seq \<Rightarrow> (int \<Rightarrow> nat list) \<Rightarrow> (int \<Rightarrow> Symbol list) \<Rightarrow> int \<Rightarrow> Rule" where
  "view_of g B W r = \<lparr>ru_ID = r, ru_Body = slice_of (map (encoded g) (B r)), ru_Uses = int (card (refs g B r)),
     ru_Expansion = slice_of (W r), ru_Span = int (length (W r))\<rparr>"

lemma snapshotRules_eq:
  assumes G: "gram_ok g B W" and R: "ranks g B \<rho>"
  shows "snapshotRules g = Some (slice_of (map (view_of g B W) (q_byID g)))"
proof -
  note s = sortedIDs_eq [OF G]
  obtain m where m: "expansions g = Some m" "memo_ok g W m" "live g \<subseteq> dom m"
    using expand_ids_ok [OF G R, of "q_byID g" "\<lambda>_. None"] by (auto simp: expansions_def s memo_ok_def)
  have v: "rule_view g m r = Some (view_of g B W r)" if "r \<in> live g" for r
  proof -
    have "m r = Some (W r)" using that m(2,3) by (auto simp: memo_ok_def)
    then show ?thesis using bodyOf_eq [OF gram_okD(1) [OF G] gram_okD(8) [OF G that]] gram_okD(15) [OF G that]
      by (simp add: rule_view_def view_of_def Let_def)
  qed
  have "rule_views g m rs = Some (map (view_of g B W) rs)" if "set rs \<subseteq> live g" for rs
    using that by (induction rs) (simp_all add: v)
  then show ?thesis using m(1) by (simp add: snapshotRules_def s slice_of_def)
qed

lemma Compressed_eq: "gram_ok g B W \<Longrightarrow> Compressed g = Some (slice_of (map (encoded g) (B 0)))"
  unfolding Compressed_def using bodyOf_eq gram_okD(1,2) by blast

end
