(* ===== verification/GoVarint.thy ===== *)
theory GoVarint
  imports Prelude
begin

text \<open>
  The variable-length integers of \<^verbatim>\<open>encoding/binary\<close>: \<^verbatim>\<open>AppendUvarint\<close>, \<^verbatim>\<open>Uvarint\<close> with its two overflow
  checks, and the zig-zag forms \<^verbatim>\<open>AppendVarint\<close> and \<^verbatim>\<open>Varint\<close>.  A reader returns the value and the
  number of bytes it took, which is not positive when it failed.
\<close>

function uvarint_bytes :: "u64 \<Rightarrow> bytes" where
  "uvarint_bytes x = (if x < 0x80 then [ucast x] else (ucast x OR 0x80) # uvarint_bytes (drop_bit 7 x))"
  by auto
termination
proof (relation "measure unat")
  fix x :: u64 assume "\<not> x < 0x80"
  then have "128 \<le> unat x" by (simp add: word_less_nat_alt)
  then have "unat x div 2 ^ 7 < unat x" by (intro div_less_dividend) auto
  moreover have "unat (drop_bit 7 x) = unat x div 2 ^ 7" unfolding unat_drop_bit_eq by (simp add: drop_bit_eq_div)
  ultimately show "(drop_bit 7 x, x) \<in> measure unat" unfolding in_measure by simp
qed simp

declare uvarint_bytes.simps [simp del]

definition AppendUvarint :: "bytes \<Rightarrow> u64 \<Rightarrow> bytes" where
  "AppendUvarint buf x = buf @ uvarint_bytes x"

fun Uvarint_loop :: "nat \<Rightarrow> u64 \<Rightarrow> bytes \<Rightarrow> u64 \<times> int" where
  "Uvarint_loop i x [] = (0, 0)"
| "Uvarint_loop i x (b # bs) =
     (if i = 10 then (0, - int (i + 1))
      else if b < 0x80 then
        (if i = 9 \<and> b > 1 then (0, - int (i + 1)) else (x OR push_bit (7 * i) (ucast b), int (i + 1)))
      else Uvarint_loop (i + 1) (x OR push_bit (7 * i) (ucast (b AND 0x7F))) bs)"

definition Uvarint :: "bytes \<Rightarrow> u64 \<times> int" where
  "Uvarint buf = Uvarint_loop 0 0 buf"

definition zigzag :: "int \<Rightarrow> u64" where
  "zigzag x = (let ux = push_bit 1 (word_of_int x) in if x < 0 then NOT ux else ux)"

definition unzigzag :: "u64 \<Rightarrow> int" where
  "unzigzag ux = (let x = drop_bit 1 ux in if ux AND 1 \<noteq> 0 then sint (NOT x) else sint x)"

definition AppendVarint :: "bytes \<Rightarrow> int \<Rightarrow> bytes" where
  "AppendVarint buf x = AppendUvarint buf (zigzag x)"

definition Varint :: "bytes \<Rightarrow> int \<times> int" where
  "Varint buf = (let (ux, n) = Uvarint buf in (unzigzag ux, n))"

section \<open>Round trips\<close>

lemma uvarint_bytes_nonempty [simp]: "uvarint_bytes x \<noteq> []"
  by (subst uvarint_bytes.simps) simp

text \<open>An accumulator holds the low bits of the value; a byte adds seven more.\<close>

lemma or_push_last:
  fixes v :: u64
  shows "take_bit n v OR push_bit n (drop_bit n v) = v"
proof (rule bit_eqI)
  fix k show "bit (take_bit n v OR push_bit n (drop_bit n v)) k = bit v k" if "possible_bit TYPE(64 word) k"
    using that by (cases "k < n") (simp_all add: bit_simps)
qed

lemma or_push_seven:
  fixes v :: u64
  shows "take_bit n v OR push_bit n (take_bit 7 (drop_bit n v)) = take_bit (n + 7) v"
proof (rule bit_eqI)
  fix k show "bit (take_bit n v OR push_bit n (take_bit 7 (drop_bit n v))) k = bit (take_bit (n + 7) v) k" if "possible_bit TYPE(64 word) k"
    using that by (cases "k < n") (auto simp: bit_simps)
qed

lemma unat_ucast_byte: "unat (ucast (y :: u64) :: byte) = unat y mod 256"
  by (simp add: unsigned_ucast_eq take_bit_eq_mod)

lemma byte_last:
  fixes y :: u64
  assumes "y < 0x80"
  shows "(ucast y :: byte) < 0x80" "ucast (ucast y :: byte) = y" "unat (ucast y :: byte) = unat y"
proof -
  have u: "unat y < 128" using assms by (simp add: word_less_nat_alt)
  then show e: "unat (ucast y :: byte) = unat y" by (simp add: unat_ucast_byte)
  show "(ucast y :: byte) < 0x80" unfolding word_less_nat_alt e using u by simp
  have "ucast (ucast y :: byte) = (word_of_nat (unat (ucast y :: byte)) :: u64)" by simp
  then show "ucast (ucast y :: byte) = y" by (simp only: e) simp
qed

lemma high_bit_byte: "bit (w :: byte) 7 \<Longrightarrow> \<not> w < 0x80"
proof
  assume b: "bit w 7" and "w < 0x80"
  then have "unat w div 2 ^ 7 = 0" by (simp add: word_less_nat_alt)
  moreover have "bit (unat w) 7" using b by (simp add: bit_unsigned_iff)
  ultimately show False by (simp add: bit_iff_odd)
qed

lemma byte_more:
  fixes y :: u64
  shows "\<not> (ucast y OR 0x80 :: byte) < 0x80" "ucast ((ucast y OR 0x80 :: byte) AND 0x7F) = take_bit 7 y"
proof -
  let ?c = "ucast y :: byte"
  show "\<not> (?c OR 0x80) < 0x80" by (rule high_bit_byte) (simp add: bit_simps)
  have "(?c OR 0x80) AND 0x7F = (?c AND 0x7F) OR (0x80 AND 0x7F)" by (rule bit.conj_disj_distrib2)
  also have "\<dots> = take_bit 7 ?c" by (simp add: take_bit_eq_mask mask_eq_exp_minus_1)
  finally have e: "(?c OR 0x80) AND 0x7F = take_bit 7 ?c" .
  show "ucast ((?c OR 0x80) AND 0x7F) = take_bit 7 y" unfolding e by (rule bit_eqI) (auto simp: bit_simps)
qed

lemma Uvarint_loop_bytes:
  assumes "i \<le> 9"
  shows "Uvarint_loop i (take_bit (7 * i) v) (uvarint_bytes (drop_bit (7 * i) v) @ rest)
    = (v, int (i + length (uvarint_bytes (drop_bit (7 * i) v))))"
  using assms
proof (induction "9 - i" arbitrary: i)
  case 0
  then have i: "i = 9" by simp
  have "unat (drop_bit 63 v) = unat v div 2 ^ 63" unfolding unat_drop_bit_eq by (simp add: drop_bit_eq_div)
  also have "\<dots> \<le> 1" using unsigned_less [of v, where ?'a = nat] by simp
  finally have y: "unat (drop_bit 63 v) \<le> 1" .
  then have l: "drop_bit 63 v < (0x80 :: u64)" by (simp add: word_less_nat_alt)
  have "\<not> (ucast (drop_bit 63 v) :: byte) > 1" using y byte_last(3) [OF l] by (simp add: word_less_nat_alt)
  then show ?case using i l byte_last [OF l] or_push_last [of 63 v] by (simp add: uvarint_bytes.simps [of "drop_bit 63 v"])
next
  case (Suc d)
  let ?y = "drop_bit (7 * i) v"
  have i: "i \<noteq> 9" "i \<noteq> 10" "i + 1 \<le> 9" "d = 9 - (i + 1)" using Suc.hyps(2) Suc.prems by auto
  show ?case
  proof (cases "?y < 0x80")
    case True
    then show ?thesis using i byte_last [OF True] or_push_last [of "7 * i" v] by (simp add: uvarint_bytes.simps [of ?y])
  next
    case False
    have "drop_bit 7 ?y = drop_bit (7 * (i + 1)) v" by (simp add: add.commute)
    moreover have "take_bit (7 * i) v OR push_bit (7 * i) (take_bit 7 ?y) = take_bit (7 * (i + 1)) v"
      using or_push_seven [of "7 * i" v] by (simp add: add.commute)
    ultimately show ?thesis
      using False i byte_more [of ?y] Suc.hyps(1) [OF i(4,3)] by (simp add: uvarint_bytes.simps [of ?y] del: drop_bit_drop_bit)
  qed
qed

lemma Uvarint_bytes: "Uvarint (uvarint_bytes v @ rest) = (v, int (length (uvarint_bytes v)))"
  using Uvarint_loop_bytes [of 0 v rest] by (simp add: Uvarint_def)

text \<open>Shifting out and back keeps a word whose high bits are its fill.\<close>

lemma shift_back:
  fixes w :: u64
  shows "(\<And>k. 64 \<le> k + n \<Longrightarrow> k < 64 \<Longrightarrow> \<not> bit w k) \<Longrightarrow> drop_bit n (push_bit n w) = w"
    "(\<And>k. 64 \<le> k + n \<Longrightarrow> k < 64 \<Longrightarrow> bit w k) \<Longrightarrow> NOT (drop_bit n (NOT (push_bit n w))) = w"
proof -
  have b: "bit (drop_bit n (push_bit n w)) k \<longleftrightarrow> k + n < 64 \<and> bit w k"
    "bit (NOT (drop_bit n (NOT (push_bit n w)))) k \<longleftrightarrow> (64 \<le> k + n \<or> bit w k)" if "k < 64" for k
    using that by (simp add: bit_simps add.commute [of n k] not_less, simp add: bit_simps add.commute [of n k] not_less, blast)
  show "drop_bit n (push_bit n w) = w" if "\<And>k. 64 \<le> k + n \<Longrightarrow> k < 64 \<Longrightarrow> \<not> bit w k"
    by (rule bit_eqI) (use that b(1) not_less in \<open>auto; blast\<close>)
  show "NOT (drop_bit n (NOT (push_bit n w))) = w" if "\<And>k. 64 \<le> k + n \<Longrightarrow> k < 64 \<Longrightarrow> bit w k"
    by (rule bit_eqI) (use that b(2) in auto)
qed

lemma unzigzag_zigzag:
  assumes "- (2 ^ 63) \<le> x" "x < 2 ^ 63"
  shows "unzigzag (zigzag x) = x"
proof -
  define w where "w = (word_of_int x :: u64)"
  have "sint w = signed_take_bit 63 x" unfolding w_def by transfer simp
  then have sint: "sint w = x" using assms by (simp add: signed_take_bit_int_eq_self)
  have "x div 2 ^ 63 = (if x < 0 then - 1 else 0)" using assms by (auto intro: div_eq_minus1)
  then have "bit x 63 = (x < 0)" by (simp add: bit_iff_odd)
  then have b: "bit w 63 = (x < 0)" by (simp add: w_def bit_simps)
  show ?thesis
  proof (cases "x < 0")
    case True
    have "NOT (drop_bit 1 (NOT (push_bit 1 w))) = w"
    proof (rule shift_back)
      fix k :: nat assume "64 \<le> k + 1" "k < 64"
      then have "k = 63" by simp
      then show "bit w k" using b True by simp
    qed
    moreover have "NOT (push_bit 1 w) AND 1 \<noteq> 0" unfolding and_one_eq even_iff_mod_2_eq_zero [symmetric] by simp
    ultimately show ?thesis using True sint unfolding unzigzag_def zigzag_def w_def [symmetric] Let_def by simp
  next
    case False
    have "drop_bit 1 (push_bit 1 w) = w"
    proof (rule shift_back)
      fix k :: nat assume "64 \<le> k + 1" "k < 64"
      then have "k = 63" by simp
      then show "\<not> bit w k" using b False by simp
    qed
    moreover have "push_bit 1 w AND 1 = 0" unfolding and_one_eq even_iff_mod_2_eq_zero [symmetric] by simp
    ultimately show ?thesis using False sint unfolding unzigzag_def zigzag_def w_def [symmetric] Let_def by simp
  qed
qed

lemma Varint_bytes:
  assumes "- (2 ^ 63) \<le> x" "x < 2 ^ 63"
  shows "Varint (uvarint_bytes (zigzag x) @ rest) = (x, int (length (uvarint_bytes (zigzag x))))"
  by (simp add: Varint_def Uvarint_bytes unzigzag_zigzag [OF assms])

end
