(* ===== verification/GrammarCodec.thy ===== *)
theory GrammarCodec
  imports GrammarTypes GoVarint
begin

text \<open>
  The snapshot frame of \<^verbatim>\<open>internal/grammar/codec.go\<close>: magic, version, and the payload with its
  nil-preserving counts.  A reader takes the remaining bytes and returns the value with the bytes after
  it.
\<close>

section \<open>Encoding\<close>

definition codecMagic :: bytes where "codecMagic = lit ''qompack-grammar'' @ [0]"
abbreviation (input) codecMagicLen :: nat where "codecMagicLen \<equiv> 16"
abbreviation (input) codecHeaderLen :: nat where "codecHeaderLen \<equiv> 18"
abbreviation (input) CodecVersion :: nat where "CodecVersion \<equiv> 1"

definition appendCodecCount :: "bytes \<Rightarrow> 'a slice \<Rightarrow> bytes" where
  "appendCodecCount buf s = (case s of None \<Rightarrow> buf @ [0] | Some xs \<Rightarrow> AppendUvarint buf (of_nat (length xs) + 1))"

definition appendCodecSymbols :: "bytes \<Rightarrow> Symbol slice \<Rightarrow> bytes" where
  "appendCodecSymbols buf syms =
     foldl (\<lambda>buf s. AppendUvarint buf (of_nat (length s)) @ s) (appendCodecCount buf syms) (elems syms)"

definition append_rule :: "bytes \<Rightarrow> Rule \<Rightarrow> bytes" where
  "append_rule buf r =
     (let buf = AppendVarint buf (ru_ID r); buf = AppendVarint buf (ru_Uses r); buf = AppendVarint buf (ru_Span r);
          buf = appendCodecSymbols buf (ru_Body r)
      in appendCodecSymbols buf (ru_Expansion r))"

definition EncodeSnapshot :: "Snapshot \<Rightarrow> bytes" where
  "EncodeSnapshot s =
     (let buf = codecMagic @ le_put 2 CodecVersion;
          buf = appendCodecCount buf (sn_Rules s);
          buf = foldl append_rule buf (elems (sn_Rules s));
          buf = appendCodecSymbols buf (sn_Sequence s)
      in AppendVarint buf (sn_NextID s))"

section \<open>Decoding\<close>

definition read_varint :: "bytes \<Rightarrow> (gram_error, int \<times> bytes) result" where
  "read_varint b = (let (v, n) = Varint b in if n \<le> 0 then Inl BadVarint else Inr (v, drop (nat n) b))"

definition read_uvarint :: "bytes \<Rightarrow> (gram_error, u64 \<times> bytes) result" where
  "read_uvarint b = (let (v, n) = Uvarint b in if n \<le> 0 then Inl BadLength else Inr (v, drop (nat n) b))"

text \<open>The count, with whether the slice is present.\<close>

definition read_count :: "bytes \<Rightarrow> (gram_error, (nat \<times> bool) \<times> bytes) result" where
  "read_count b =
     andThen (read_uvarint b) (\<lambda>(raw, b).
       if raw = 0 then Inr ((0, False), b)
       else let n = raw - 1
            in if n > of_nat (length b) then Inl BadCount else Inr ((unat n, True), b))"

fun read_symbol_list :: "nat \<Rightarrow> bytes \<Rightarrow> (gram_error, Symbol list \<times> bytes) result" where
  "read_symbol_list 0 b = Inr ([], b)"
| "read_symbol_list (Suc n) b =
     andThen (read_uvarint b) (\<lambda>(len, b).
       if len > of_nat (length b) then Inl BadSymbol
       else andThen (read_symbol_list n (drop (unat len) b)) (\<lambda>(ss, b'). Inr (take (unat len) b # ss, b')))"

definition read_symbols :: "bytes \<Rightarrow> (gram_error, Symbol slice \<times> bytes) result" where
  "read_symbols b =
     andThen (read_count b) (\<lambda>((n, present), b).
       if \<not> present then Inr (None, b)
       else andThen (read_symbol_list n b) (\<lambda>(ss, b). Inr (Some ss, b)))"

definition read_rule :: "bytes \<Rightarrow> (gram_error, Rule \<times> bytes) result" where
  "read_rule b =
     andThen (read_varint b) (\<lambda>(i, b). andThen (read_varint b) (\<lambda>(uses, b). andThen (read_varint b) (\<lambda>(span, b).
     andThen (read_symbols b) (\<lambda>(body, b). andThen (read_symbols b) (\<lambda>(expansion, b).
       Inr (\<lparr>ru_ID = i, ru_Body = body, ru_Uses = uses, ru_Expansion = expansion, ru_Span = span\<rparr>, b))))))"

fun read_rules :: "nat \<Rightarrow> bytes \<Rightarrow> (gram_error, Rule list \<times> bytes) result" where
  "read_rules 0 b = Inr ([], b)"
| "read_rules (Suc n) b = andThen (read_rule b) (\<lambda>(r, b). andThen (read_rules n b) (\<lambda>(rs, b). Inr (r # rs, b)))"

definition decodeSnapshotV1 :: "bytes \<Rightarrow> (gram_error, Snapshot) result" where
  "decodeSnapshotV1 payload =
     andThen (read_count payload) (\<lambda>((n, present), b).
     andThen (if present then andThen (read_rules n b) (\<lambda>(rs, b). Inr (Some rs, b)) else Inr (None, b)) (\<lambda>(rules, b).
     andThen (read_symbols b) (\<lambda>(sq, b).
     andThen (read_varint b) (\<lambda>(nextID, b).
       if b \<noteq> [] then Inl TrailingBytes
       else Inr \<lparr>sn_Rules = rules, sn_Sequence = sq, sn_NextID = nextID\<rparr>))))"

definition DecodeSnapshot :: "bytes \<Rightarrow> (gram_error, Snapshot) result" where
  "DecodeSnapshot b =
     (if length b < codecHeaderLen then Inl TruncatedFrame
      else if take codecMagicLen b \<noteq> codecMagic then Inl BadMagic
      else let ver = le_get (gslice b codecMagicLen codecHeaderLen)
           in if ver = CodecVersion then decodeSnapshotV1 (drop codecHeaderLen b) else Inl (UnsupportedVersion ver))"

section \<open>A reader undoes its writer\<close>

lemma append_uvarint_acc: "AppendUvarint buf x = buf @ AppendUvarint [] x"
  by (simp add: AppendUvarint_def)

lemma append_varint_acc: "AppendVarint buf x = buf @ AppendVarint [] x"
  by (simp add: AppendVarint_def AppendUvarint_def)

lemma append_count_acc: "appendCodecCount buf s = buf @ appendCodecCount [] s"
  by (simp add: appendCodecCount_def AppendUvarint_def split: option.splits)

lemma append_symbols_acc:
  "appendCodecSymbols buf s = buf @ appendCodecCount [] s @ concat (map (\<lambda>s. uvarint_bytes (of_nat (length s)) @ s) (elems s))"
proof -
  have "foldl (\<lambda>buf s. AppendUvarint buf (of_nat (length s)) @ s) b ss = b @ concat (map (\<lambda>s. uvarint_bytes (of_nat (length s)) @ s) ss)" for b and ss :: "Symbol list"
    by (induction ss arbitrary: b) (simp_all add: AppendUvarint_def)
  then show ?thesis by (simp add: appendCodecSymbols_def append_count_acc [of buf])
qed

lemma append_rule_acc:
  "append_rule buf r = buf @ AppendVarint [] (ru_ID r) @ AppendVarint [] (ru_Uses r) @ AppendVarint [] (ru_Span r)
     @ appendCodecSymbols [] (ru_Body r) @ appendCodecSymbols [] (ru_Expansion r)"
  by (simp add: append_rule_def Let_def append_varint_acc [of "_ @ _"] append_varint_acc [of buf] append_symbols_acc)

abbreviation is_int64 :: "int \<Rightarrow> bool" where "is_int64 x \<equiv> - (2 ^ 63) \<le> x \<and> x < 2 ^ 63"

lemma read_varint_append: "is_int64 x \<Longrightarrow> read_varint (AppendVarint [] x @ rest) = Inr (x, rest)"
  by (simp add: read_varint_def AppendVarint_def AppendUvarint_def Varint_bytes)

lemma read_uvarint_append: "read_uvarint (uvarint_bytes v @ rest) = Inr (v, rest)"
  by (simp add: read_uvarint_def Uvarint_bytes)

lemma of_nat_u64:
  assumes "n < 2 ^ 63" "m < 2 ^ 63"
  shows "unat (of_nat n :: u64) = n" "(of_nat n :: u64) + 1 \<noteq> 0" "(of_nat n :: u64) \<le> of_nat m \<longleftrightarrow> n \<le> m"
proof -
  have u: "unat (of_nat k :: u64) = k" if "k < 2 ^ 64" for k using that by (simp add: unat_of_nat)
  show "unat (of_nat n :: u64) = n" using u [of n] assms by simp
  show "(of_nat n :: u64) \<le> of_nat m \<longleftrightarrow> n \<le> m" unfolding word_le_nat_alt using u [of n] u [of m] assms by simp
  have "unat (of_nat (Suc n) :: u64) = Suc n" using assms by (intro u) simp
  then show "(of_nat n :: u64) + 1 \<noteq> 0" by (metis add.commute nat.simps(3) of_nat_Suc unat_eq_zero)
qed

lemma read_count_append:
  assumes "length (elems s) \<le> length rest" "length rest < 2 ^ 63"
  shows "read_count (appendCodecCount [] s @ rest) = Inr (case s of None \<Rightarrow> (0, False) | Some xs \<Rightarrow> (length xs, True), rest)"
proof (cases s)
  case None
  have "uvarint_bytes 0 = [0]" by (subst uvarint_bytes.simps) simp
  then have "appendCodecCount [] s @ rest = uvarint_bytes 0 @ rest" using None by (simp add: appendCodecCount_def)
  then show ?thesis using None by (simp add: read_count_def read_uvarint_append)
next
  case (Some xs)
  have "length xs \<le> length rest" using Some assms(1) by (simp add: elems_def)
  then show ?thesis using of_nat_u64 [of "length xs" "length rest"] assms(2) Some
    by (simp add: appendCodecCount_def AppendUvarint_def read_count_def read_uvarint_append Let_def not_less)
qed

lemma read_symbol_list_append:
  assumes "length (concat (map (\<lambda>s. uvarint_bytes (of_nat (length s)) @ s) ss) @ rest) < 2 ^ 63"
  shows "read_symbol_list (length ss) (concat (map (\<lambda>s. uvarint_bytes (of_nat (length s)) @ s) ss) @ rest) = Inr (ss, rest)"
  using assms
proof (induction ss)
  case (Cons s ss)
  let ?t = "concat (map (\<lambda>s. uvarint_bytes (of_nat (length s)) @ s) ss) @ rest"
  have "length (s @ ?t) < 2 ^ 63" using Cons.prems by simp
  then show ?case using of_nat_u64 [of "length s" "length (s @ ?t)"] Cons by (simp add: read_uvarint_append not_less)
qed simp

lemma symbols_cost: "length ss \<le> length (concat (map (\<lambda>s. uvarint_bytes (of_nat (length s)) @ s) ss))"
proof (induction ss)
  case (Cons s ss)
  have "0 < length (uvarint_bytes (of_nat (length s)))" by simp
  then show ?case using Cons by (simp del: length_greater_0_conv)
qed simp

lemma read_symbols_append:
  assumes "length (appendCodecSymbols [] s @ rest) < 2 ^ 63"
  shows "read_symbols (appendCodecSymbols [] s @ rest) = Inr (s, rest)"
proof -
  let ?c = "concat (map (\<lambda>s. uvarint_bytes (of_nat (length s)) @ s) (elems s))"
  have l: "length (?c @ rest) < 2 ^ 63" "length (elems s) \<le> length (?c @ rest)"
    using assms symbols_cost [of "elems s"] by (simp_all add: append_symbols_acc)
  show ?thesis using read_count_append [OF l(2,1)] read_symbol_list_append [OF l(1)]
    by (cases s) (simp_all add: append_symbols_acc read_symbols_def elems_def)
qed

definition rule_ints :: "Rule \<Rightarrow> bool" where
  "rule_ints r \<longleftrightarrow> is_int64 (ru_ID r) \<and> is_int64 (ru_Uses r) \<and> is_int64 (ru_Span r)"

lemma read_rule_append:
  assumes "rule_ints r" "length (append_rule [] r @ rest) < 2 ^ 63"
  shows "read_rule (append_rule [] r @ rest) = Inr (r, rest)"
  using assms
  by (simp add: append_rule_acc read_rule_def read_varint_append read_symbols_append rule_ints_def)

lemma append_rules_acc: "foldl append_rule buf rs = buf @ concat (map (append_rule []) rs)"
  by (induction rs arbitrary: buf) (simp_all add: append_rule_acc [of "_ @ _"] append_rule_acc [of buf for buf])

lemma append_varint_nonempty: "AppendVarint [] x \<noteq> []"
  by (simp add: AppendVarint_def AppendUvarint_def)

lemma rules_cost: "length rs \<le> length (concat (map (append_rule []) rs))"
proof (induction rs)
  case (Cons r rs)
  have "0 < length (append_rule [] r)" using append_varint_nonempty by (simp add: append_rule_acc)
  then show ?case using Cons by (simp del: length_greater_0_conv)
qed simp

lemma read_rules_append:
  assumes "list_all rule_ints rs" "length (concat (map (append_rule []) rs) @ rest) < 2 ^ 63"
  shows "read_rules (length rs) (concat (map (append_rule []) rs) @ rest) = Inr (rs, rest)"
  using assms
proof (induction rs)
  case (Cons r rs)
  then show ?case using read_rule_append [of r "concat (map (append_rule []) rs) @ rest"] by simp
qed simp

lemma EncodeSnapshot_eq:
  "EncodeSnapshot s = codecMagic @ le_put 2 CodecVersion @ appendCodecCount [] (sn_Rules s) @ concat (map (append_rule []) (elems (sn_Rules s)))
     @ appendCodecSymbols [] (sn_Sequence s) @ AppendVarint [] (sn_NextID s)"
proof -
  let ?b = "appendCodecCount (codecMagic @ le_put 2 CodecVersion) (sn_Rules s) @ concat (map (append_rule []) (elems (sn_Rules s)))"
  have "appendCodecSymbols ?b (sn_Sequence s) = ?b @ appendCodecSymbols [] (sn_Sequence s)"
    unfolding append_symbols_acc [of ?b] append_symbols_acc [of "[]"] by simp
  then show ?thesis
    unfolding EncodeSnapshot_def Let_def append_rules_acc append_varint_acc [of "appendCodecSymbols _ _"]
    by (simp add: append_count_acc [of "codecMagic @ _"])
qed

lemma length_codecMagic: "length codecMagic = 16"
  by (simp add: codecMagic_def)

lemma decode_frame:
  "DecodeSnapshot (codecMagic @ le_put 2 CodecVersion @ payload) = decodeSnapshotV1 payload"
proof -
  have "gslice (codecMagic @ le_put 2 CodecVersion @ payload) 16 18 = le_put 2 CodecVersion"
    using length_codecMagic by (simp add: gslice_def)
  then show ?thesis unfolding DecodeSnapshot_def using length_codecMagic by (simp only: Let_def le_get_put) simp
qed

theorem decode_encode:
  assumes "list_all rule_ints (elems (sn_Rules s))" "is_int64 (sn_NextID s)" "length (EncodeSnapshot s) < 2 ^ 63"
  shows "DecodeSnapshot (EncodeSnapshot s) = Inr s"
proof -
  let ?n = "AppendVarint [] (sn_NextID s)" let ?q = "appendCodecSymbols [] (sn_Sequence s)"
  let ?rs = "elems (sn_Rules s)" let ?r = "concat (map (append_rule []) ?rs)"
  have l: "length (?r @ ?q @ ?n) < 2 ^ 63" "length (?q @ ?n) < 2 ^ 63" using assms(3) by (simp_all add: EncodeSnapshot_eq)
  have c: "length ?rs \<le> length (?r @ ?q @ ?n)" using rules_cost [of ?rs] by simp
  have "decodeSnapshotV1 (appendCodecCount [] (sn_Rules s) @ ?r @ ?q @ ?n) = Inr s"
  proof (cases "sn_Rules s")
    case None
    then show ?thesis unfolding decodeSnapshotV1_def read_count_append [OF c l(1)]
      using read_symbols_append [OF l(2)] read_varint_append [OF assms(2), of "[]"] by (simp add: elems_def)
  next
    case (Some rs)
    then show ?thesis unfolding decodeSnapshotV1_def read_count_append [OF c l(1)]
      using read_rules_append [OF assms(1) l(1)] read_symbols_append [OF l(2)] read_varint_append [OF assms(2), of "[]"] by (simp add: elems_def)
  qed
  then show ?thesis unfolding EncodeSnapshot_eq decode_frame .
qed

section \<open>Every reader is stable under extension\<close>

lemma Uvarint_extend: "Uvarint_loop i x b = (v, n) \<Longrightarrow> 0 < n \<Longrightarrow> Uvarint_loop i x (b @ r) = (v, n) \<and> int i < n \<and> n \<le> int i + int (length b)"
proof (induction b arbitrary: i x)
  case (Cons c b)
  show ?case
  proof (cases "c < 0x80 \<or> i = 10")
    case True
    then show ?thesis using Cons.prems by (auto split: if_splits)
  next
    case False
    then show ?thesis using Cons.prems Cons.IH [of "i + 1" "x OR push_bit (7 * i) (ucast (c AND 0x7F))"] by auto
  qed
qed simp

lemma read_uvarint_extend: "read_uvarint b = Inr (v, b') \<Longrightarrow> read_uvarint (b @ r) = Inr (v, b' @ r)"
  using Uvarint_extend [of 0 0 b v "snd (Uvarint b)" r]
  by (cases "Uvarint b") (auto simp: read_uvarint_def Uvarint_def split: if_splits)

lemma read_varint_extend: "read_varint b = Inr (v, b') \<Longrightarrow> read_varint (b @ r) = Inr (v, b' @ r)"
  using Uvarint_extend [of 0 0 b "fst (Uvarint b)" "snd (Uvarint b)" r]
  by (cases "Uvarint b") (auto simp: read_varint_def Varint_def Uvarint_def split: if_splits)

text \<open>A reader that succeeds on a frame succeeds on every extension of it, with the same value.\<close>

definition extends :: "(bytes \<Rightarrow> (gram_error, 'a \<times> bytes) result) \<Rightarrow> bool" where
  "extends R \<longleftrightarrow> (\<forall>b v b' r. length (b @ r) < 2 ^ 63 \<longrightarrow> R b = Inr (v, b') \<longrightarrow> R (b @ r) = Inr (v, b' @ r) \<and> length b' \<le> length b)"

lemma extends_andThen:
  assumes "extends R" "\<And>v. extends (F v)"
  shows "extends (\<lambda>b. andThen (R b) (\<lambda>(v, b). F v b))"
  unfolding extends_def
proof (intro allI impI)
  fix b w b' r assume l: "length (b @ r) < 2 ^ 63" and e: "andThen (R b) (\<lambda>(v, b). F v b) = Inr (w, b')"
  then obtain v b1 where 1: "R b = Inr (v, b1)" "F v b1 = Inr (w, b')" by (auto simp: andThen_Inr)
  then have 2: "R (b @ r) = Inr (v, b1 @ r)" "length b1 \<le> length b" using assms(1) l unfolding extends_def by blast+
  then have "length (b1 @ r) < 2 ^ 63" using l by simp
  then have "F v (b1 @ r) = Inr (w, b' @ r) \<and> length b' \<le> length b1" using 1(2) assms(2) [of v] unfolding extends_def by blast
  then show "andThen (R (b @ r)) (\<lambda>(v, b). F v b) = Inr (w, b' @ r) \<and> length b' \<le> length b" using 2 by simp
qed

lemma extends_return: "extends (\<lambda>b. Inr (v, b))" "extends (\<lambda>b. Inl e)"
  by (simp_all add: extends_def)

lemma extends_uvarint: "extends read_uvarint" and extends_varint: "extends read_varint"
proof -
  show "extends read_uvarint" unfolding extends_def
    using read_uvarint_extend by (auto simp: read_uvarint_def split: if_splits prod.splits)
  show "extends read_varint" unfolding extends_def
    using read_varint_extend by (auto simp: read_varint_def split: if_splits prod.splits)
qed

text \<open>A bound by the bytes that remain only gets weaker.\<close>

lemma extends_bound:
  assumes "extends F"
  shows "extends (\<lambda>b. if of_nat (length b) < (n :: u64) then Inl e else F b)"
  unfolding extends_def
proof (intro allI impI)
  fix b v b' r assume l: "length (b @ r) < 2 ^ 63" and "(if of_nat (length b) < n then Inl e else F b) = Inr (v, b')"
  then have n: "n \<le> of_nat (length b)" "F b = Inr (v, b')" by (auto split: if_splits)
  have "(of_nat (length b) :: u64) \<le> of_nat (length (b @ r))" using of_nat_u64(3) [of "length b" "length (b @ r)"] l by simp
  then have "n \<le> of_nat (length (b @ r))" using n(1) by simp
  then show "(if of_nat (length (b @ r)) < n then Inl e else F (b @ r)) = Inr (v, b' @ r) \<and> length b' \<le> length b"
    using assms l n(2) unfolding extends_def by auto
qed

lemma extends_count: "extends read_count"
proof -
  have "extends (\<lambda>b. if raw = 0 then Inr ((0, False), b) else if of_nat (length b) < raw - 1 then Inl BadCount else Inr ((unat (raw - 1), True), b))" for raw :: u64
    using extends_bound [OF extends_return(1), of "raw - 1" BadCount "(unat (raw - 1), True)"] extends_return(1) [of "(0, False)"]
    by (cases "raw = 0") simp_all
  from extends_andThen [OF extends_uvarint this] show ?thesis unfolding read_count_def Let_def by simp
qed

lemma extends_take:
  fixes len :: u64
  assumes "extends R"
  shows "extends (\<lambda>b. if of_nat (length b) < len then Inl e
    else andThen (R (drop (unat len) b)) (\<lambda>(ss, b'). Inr (take (unat len) b # ss, b')))" (is "extends ?F")
  unfolding extends_def
proof (intro allI impI)
  fix b v b' r assume l: "length (b @ r) < 2 ^ 63" and e: "?F b = Inr (v, b')"
  let ?n = "unat len"
  have le: "len \<le> of_nat (length b)" using e by (auto split: if_splits)
  then have n: "?n \<le> length b" using of_nat_u64(1) [of "length b" 0] l by (simp add: word_le_nat_alt)
  have "(of_nat (length b) :: u64) \<le> of_nat (length (b @ r))" using of_nat_u64(3) [of "length b" "length (b @ r)"] l by simp
  then have le': "len \<le> of_nat (length (b @ r))" using le by simp
  have "andThen (R (drop ?n b)) (\<lambda>(ss, b'). Inr (take ?n b # ss, b')) = Inr (v, b')" using e le by (simp add: not_less split: if_splits)
  then obtain ss where ss: "R (drop ?n b) = Inr (ss, b')" "v = take ?n b # ss" by (auto simp: andThen_Inr)
  have "length (drop ?n b @ r) < 2 ^ 63" using l by simp
  then have "R (drop ?n b @ r) = Inr (ss, b' @ r) \<and> length b' \<le> length (drop ?n b)" using assms ss(1) unfolding extends_def by blast
  then show "?F (b @ r) = Inr (v, b' @ r) \<and> length b' \<le> length b" using le' ss(2) n by (auto simp: not_less)
qed

lemma extends_symbol_list: "extends (read_symbol_list n)"
proof (induction n)
  case 0
  show ?case using extends_return(1) [of "[]"] by simp
next
  case (Suc n)
  from extends_andThen [OF extends_uvarint extends_take [OF Suc]] show ?case by simp
qed

lemma extends_symbols: "extends read_symbols"
proof -
  have "extends (\<lambda>b. if \<not> snd c then Inr (None, b) else andThen (read_symbol_list (fst c) b) (\<lambda>(ss, b). Inr (Some ss, b)))" for c
    using extends_return(1) [of "None"] extends_andThen [OF extends_symbol_list [of "fst c"] extends_return(1) [of "Some _"]]
    by (cases "snd c") simp_all
  from extends_andThen [OF extends_count this] show ?thesis unfolding read_symbols_def by (simp add: case_prod_unfold)
qed

lemma extends_rule: "extends read_rule"
  unfolding read_rule_def
  by (intro extends_andThen extends_varint extends_symbols extends_return)

lemma extends_rules: "extends (read_rules n)"
proof (induction n)
  case 0
  show ?case using extends_return(1) [of "[]"] by simp
next
  case (Suc n)
  from extends_andThen [OF extends_rule extends_andThen [OF Suc extends_return(1) [of "_ # _"]]] show ?case by simp
qed

text \<open>The payload without the check that nothing follows.\<close>

definition read_payload :: "bytes \<Rightarrow> (gram_error, Snapshot \<times> bytes) result" where
  "read_payload b =
     andThen (read_count b) (\<lambda>(c, b).
     andThen (if snd c then andThen (read_rules (fst c) b) (\<lambda>(rs, b). Inr (Some rs, b)) else Inr (None, b)) (\<lambda>(rules, b).
     andThen (read_symbols b) (\<lambda>(sq, b).
     andThen (read_varint b) (\<lambda>(nextID, b). Inr (\<lparr>sn_Rules = rules, sn_Sequence = sq, sn_NextID = nextID\<rparr>, b)))))"

lemma decodeV1_payload: "decodeSnapshotV1 b = andThen (read_payload b) (\<lambda>(s, b). if b \<noteq> [] then Inl TrailingBytes else Inr s)"
  unfolding decodeSnapshotV1_def read_payload_def by (simp add: andThen_assoc case_prod_unfold cong: if_cong)

lemma extends_payload: "extends read_payload"
proof -
  have "extends (\<lambda>b. if snd c then andThen (read_rules (fst c) b) (\<lambda>(rs, b). Inr (Some rs, b)) else Inr (None, b))" for c
    using extends_return(1) [of "None"] extends_andThen [OF extends_rules [of "fst c"] extends_return(1) [of "Some _"]]
    by (cases "snd c") simp_all
  then show ?thesis unfolding read_payload_def by (intro extends_andThen extends_count extends_symbols extends_varint extends_return)
qed

theorem truncated_refused:
  assumes full: "DecodeSnapshot b = Inr s" and l: "length b < 2 ^ 63" and k: "k < length b"
  shows "\<exists>e. DecodeSnapshot (take k b) = Inl e"
proof (cases "k < codecHeaderLen")
  case True
  then show ?thesis using k by (simp add: DecodeSnapshot_def)
next
  case False
  let ?pl = "drop codecHeaderLen b" let ?p = "take (k - codecHeaderLen) ?pl" let ?r = "drop (k - codecHeaderLen) ?pl"
  have d: "decodeSnapshotV1 ?pl = Inr s" using full by (auto simp: DecodeSnapshot_def Let_def split: if_splits)
  have t: "DecodeSnapshot (take k b) = decodeSnapshotV1 ?p"
    using full False k by (auto simp: DecodeSnapshot_def Let_def gslice_take take_take drop_take split: if_splits)
  have pr: "?p @ ?r = ?pl" by (rule append_take_drop_id)
  have ne: "?r \<noteq> []" using k False by simp
  show ?thesis
  proof (cases "decodeSnapshotV1 ?p")
    case (Inr s')
    then have "read_payload ?p = Inr (s', [])" by (auto simp: decodeV1_payload andThen_Inr split: if_splits)
    then have "read_payload (?p @ ?r) = Inr (s', [] @ ?r)" using extends_payload l pr unfolding extends_def by (metis length_drop less_imp_diff_less)
    then show ?thesis using d ne unfolding pr by (simp add: decodeV1_payload)
  qed (simp add: t)
qed

end
