(* ===== verification/SequiturRestore.thy ===== *)
theory SequiturRestore
  imports SequiturViews GrammarCodec
begin

text \<open>
  Reading a grammar back: \<open>buildFromSnapshot\<close> with its three passes, \<open>Restore\<close>, \<open>MarshalBinary\<close> and
  \<open>UnmarshalBinary\<close>.  \<open>None\<close> is a panic or a walk that does not end, \<open>Inl\<close> an error.
\<close>

section \<open>The passes\<close>

fun mint_rules :: "nat \<Rightarrow> int \<Rightarrow> Rule list \<Rightarrow> seq \<Rightarrow> (gram_error, int \<times> seq) result" where
  "mint_rules i prev [] g = Inr (prev, g)"
| "mint_rules i prev (r # rs) g =
     (if ru_ID r < firstInducedRuleID then Inl (BelowFirst (ru_ID r))
      else if 0 < i \<and> ru_ID r \<le> prev then Inl (NotAscending (ru_ID r) prev)
      else if elems (ru_Body r) = [] then Inl (EmptyBody (ru_ID r))
      else let (n, g) = newGuard (ru_ID r) g
           in mint_rules (i + 1) (ru_ID r) rs
                (g\<lparr>q_rguard := (q_rguard g)(ru_ID r := n), q_uses := (q_uses g)(ru_ID r := 0), q_byID := insort (ru_ID r) (q_byID g)\<rparr>))"

fun fill :: "int \<Rightarrow> Symbol list \<Rightarrow> seq \<Rightarrow> (gram_error, seq) result option" where
  "fill owner [] g = Some (Inr g)"
| "fill owner (s # syms) g =
     (case ParseRuleRef s of
        None \<Rightarrow>
          let (n, g) = newNode None s None g
          in do { g \<leftarrow> insertAfter (q_prev g (q_rguard g owner)) n g; fill owner syms g }
      | Some i \<Rightarrow>
          if i \<notin> set (q_byID g) then Some (Inl (UnknownRule owner i))
          else let (n, g) = newNode (Some i) [] None (add_uses i 1 g)
               in do { g \<leftarrow> insertAfter (q_prev g (q_rguard g owner)) n g; fill owner syms g })"

fun fill_rules :: "(int \<times> Symbol list) list \<Rightarrow> seq \<Rightarrow> (gram_error, seq) result option" where
  "fill_rules [] g = Some (Inr g)"
| "fill_rules ((owner, body) # rs) g =
     do { res \<leftarrow> fill owner body g; case res of Inl e \<Rightarrow> Some (Inl e) | Inr g \<Rightarrow> fill_rules rs g }"

type_synonym marks = "int \<Rightarrow> nat"

fun walk_nodes :: "(int \<Rightarrow> marks \<Rightarrow> (bool \<times> marks) option) \<Rightarrow> seq \<Rightarrow> nat list \<Rightarrow> marks \<Rightarrow> (bool \<times> marks) option" where
  "walk_nodes rec g [] st = Some (False, st)"
| "walk_nodes rec g (n # ns) st =
     (case q_ref g n of
        None \<Rightarrow> walk_nodes rec g ns st
      | Some q \<Rightarrow>
          if st q = 1 then Some (True, st)
          else if st q = 0 then
            do { (found, st) \<leftarrow> rec q st; if found then Some (True, st) else walk_nodes rec g ns st }
          else walk_nodes rec g ns st)"

primrec walk :: "nat \<Rightarrow> seq \<Rightarrow> int \<Rightarrow> marks \<Rightarrow> (bool \<times> marks) option" where
  "walk 0 g = (\<lambda>r st. None)"
| "walk (Suc fuel) g = (\<lambda>r st.
     do { ns \<leftarrow> body_nodes r g;
          (found, st) \<leftarrow> walk_nodes (walk fuel g) g ns (st(r := 1));
          Some (if found then (True, st) else (False, st(r := 2))) })"

fun first_cycle :: "nat \<Rightarrow> seq \<Rightarrow> int list \<Rightarrow> marks \<Rightarrow> int option option" where
  "first_cycle fuel g [] st = Some None"
| "first_cycle fuel g (r # rs) st =
     (if st r \<noteq> 0 then first_cycle fuel g rs st
      else do { (found, st) \<leftarrow> walk fuel g r st; if found then Some (Some r) else first_cycle fuel g rs st })"

text \<open>A rule is entered once, so the recursion is no deeper than the number of rules.\<close>

definition findCycle :: "seq \<Rightarrow> int option option" where
  "findCycle g = first_cycle (length (q_byID g)) g (sortedIDs g) (\<lambda>_. 0)"

fun record_nodes :: "nat list \<Rightarrow> seq \<Rightarrow> seq option" where
  "record_nodes [] g = Some g"
| "record_nodes (n # ns) g =
     do { d \<leftarrow> digramAt n g;
          record_nodes ns
            (case d of None \<Rightarrow> g
             | Some k \<Rightarrow> (case q_index g k of Some m \<Rightarrow> g | None \<Rightarrow> g\<lparr>q_index := (q_index g)(k := Some n)\<rparr>)) }"

fun record_rules :: "int list \<Rightarrow> seq \<Rightarrow> seq option" where
  "record_rules [] g = Some g"
| "record_rules (r # rs) g = do { ns \<leftarrow> body_nodes r g; g \<leftarrow> record_nodes ns g; record_rules rs g }"

definition reindex :: "seq \<Rightarrow> seq option" where
  "reindex g = record_rules (startRuleID # sortedIDs g) g"

section \<open>Restore and the binary form\<close>

definition buildFromSnapshot :: "Snapshot \<Rightarrow> (gram_error, seq) result option" where
  "buildFromSnapshot s =
     (let rules = elems (sn_Rules s)
      in case mint_rules 0 startRuleID rules clear of
           Inl e \<Rightarrow> Some (Inl e)
         | Inr (prev, g) \<Rightarrow>
             if \<not> (rules = [] \<and> sn_NextID s < firstInducedRuleID) \<and> sn_NextID s \<le> prev then Some (Inl (NextCollides (sn_NextID s) prev))
             else do { res \<leftarrow> fill_rules (map (\<lambda>r. (ru_ID r, elems (ru_Body r))) rules @ [(startRuleID, elems (sn_Sequence s))])
                               (g\<lparr>q_nextID := (if rules = [] \<and> sn_NextID s < firstInducedRuleID then firstInducedRuleID else sn_NextID s)\<rparr>);
                       case res of
                         Inl e \<Rightarrow> Some (Inl e)
                       | Inr g \<Rightarrow>
                           (case find (\<lambda>i. q_uses g i = 0) (sortedIDs g) of
                              Some i \<Rightarrow> Some (Inl (Unreferenced i))
                            | None \<Rightarrow>
                                do { c \<leftarrow> findCycle g;
                                     case c of Some i \<Rightarrow> Some (Inl (ReferenceCycle i))
                                     | None \<Rightarrow> map_option Inr (reindex g) }) })"

text \<open>The error, if any, and the receiver afterwards.\<close>

definition Restore :: "Snapshot \<Rightarrow> seq \<Rightarrow> (gram_error option \<times> seq) option" where
  "Restore s g = map_option (\<lambda>res. case res of Inl e \<Rightarrow> (Some e, g) | Inr fresh \<Rightarrow> (None, fresh)) (buildFromSnapshot s)"

definition MarshalBinary :: "seq \<Rightarrow> bytes option" where
  "MarshalBinary g = map_option EncodeSnapshot (Snapshot_of g)"

definition UnmarshalBinary :: "bytes \<Rightarrow> seq \<Rightarrow> (gram_error option \<times> seq) option" where
  "UnmarshalBinary b g = (case DecodeSnapshot b of Inl e \<Rightarrow> Some (Some e, g) | Inr s \<Rightarrow> Restore s g)"

section \<open>The heap while it is being built\<close>

definition build_inv :: "seq \<Rightarrow> (int \<Rightarrow> nat list) \<Rightarrow> bool" where
  "build_inv g B \<longleftrightarrow> heap_ok g B \<and> q_rguard g 0 \<noteq> 0 \<and> sorted (q_byID g) \<and> distinct (q_byID g) \<and> (\<forall>r \<in> live g. 0 < r \<and> q_rguard g r \<noteq> 0)
     \<and> (\<forall>r. r \<notin> insert 0 (live g) \<longrightarrow> B r = []) \<and> (\<forall>n \<in> nodes B. \<forall>q. q_ref g n = Some q \<longrightarrow> q \<in> live g)
     \<and> (\<forall>r. q_rguard g r \<noteq> 0 \<longrightarrow> q_ref g (q_rguard g r) = None)
     \<and> (\<forall>q \<in> live g. q_uses g q = int (card (refs g B q))) \<and> q_index g = (\<lambda>_. None)
     \<and> (\<forall>n \<in> nodes B. ParseRuleRef (encoded g n) = q_ref g n)"

lemma build_invD:
  assumes "build_inv g B"
  shows "heap_ok g B" "q_rguard g 0 \<noteq> 0" "sorted (q_byID g)" "distinct (q_byID g)" "r \<in> live g \<Longrightarrow> 0 < r" "r \<in> live g \<Longrightarrow> q_rguard g r \<noteq> 0"
    "r \<notin> insert 0 (live g) \<Longrightarrow> B r = []" "n \<in> nodes B \<Longrightarrow> q_ref g n = Some q \<Longrightarrow> q \<in> live g"
    "q_rguard g r \<noteq> 0 \<Longrightarrow> q_ref g (q_rguard g r) = None" "q \<in> live g \<Longrightarrow> q_uses g q = int (card (refs g B q))" "q_index g = (\<lambda>_. None)"
    "n \<in> nodes B \<Longrightarrow> ParseRuleRef (encoded g n) = q_ref g n"
  using assms unfolding build_inv_def by blast+

lemma build_invI:
  assumes "heap_ok g B" "q_rguard g 0 \<noteq> 0" "sorted (q_byID g)" "distinct (q_byID g)" "\<And>r. r \<in> live g \<Longrightarrow> 0 < r \<and> q_rguard g r \<noteq> 0"
    "\<And>r. r \<notin> insert 0 (live g) \<Longrightarrow> B r = []" "\<And>n q. n \<in> nodes B \<Longrightarrow> q_ref g n = Some q \<Longrightarrow> q \<in> live g"
    "\<And>r. q_rguard g r \<noteq> 0 \<Longrightarrow> q_ref g (q_rguard g r) = None" "\<And>q. q \<in> live g \<Longrightarrow> q_uses g q = int (card (refs g B q))" "q_index g = (\<lambda>_. None)"
    "\<And>n. n \<in> nodes B \<Longrightarrow> ParseRuleRef (encoded g n) = q_ref g n"
  shows "build_inv g B"
  unfolding build_inv_def using assms by blast

lemma clear_build: "build_inv clear (\<lambda>_. [])"
  using clear_ok unfolding grammar_inv_def gram_ok_def build_inv_def index_ok_def
  by (simp add: nodes_def clear_def newGuard_def newNode_def Let_def)

text \<open>Appending a node to a body.\<close>

lemma fill_node_ok:
  assumes I: "build_inv g B" and p: "p \<in> insert 0 (live g)" and r: "\<And>q. ref = Some q \<Longrightarrow> q \<in> live g"
    and enc: "ParseRuleRef (case ref of Some q \<Rightarrow> RuleRef q | None \<Rightarrow> v) = ref"
    and g0: "g0 = (case ref of Some q \<Rightarrow> add_uses q 1 g | None \<Rightarrow> g)" and g1: "newNode ref v None g0 = (n, g1)"
  obtains g' where "insertAfter (q_prev g1 (q_rguard g1 p)) n g1 = Some g'" "build_inv g' (B(p := B p @ [n]))" "n \<notin> nodes B"
    "q_ref g' = (q_ref g)(n := ref)" "q_val g' = (q_val g)(n := v)" "q_byID g' = q_byID g" "q_rguard g' = q_rguard g" "q_nextID g' = q_nextID g"
proof -
  let ?t = "q_top g" let ?B = "B(p := B p @ [?t])"
  note h = build_invD(1) [OF I]
  have rg: "q_rguard g p \<noteq> 0" using p build_invD(2,6) [OF I] by auto
  have g0s: "q_top g0 = ?t" "q_rguard g0 = q_rguard g" "q_guard g0 = q_guard g" "q_ref g0 = q_ref g" "q_val g0 = q_val g" "q_byID g0 = q_byID g"
    "q_nextID g0 = q_nextID g" "q_index g0 = q_index g" "q_uses g0 = inc ref (q_uses g)" "heap_ok g0 B"
    using h by (auto simp: g0 add_uses_def inc_def split: option.splits)
  have n: "n = ?t" and g1e: "g1 = snd (newNode ref v None g0)" using g1 by (auto simp: newNode_def Let_def g0s)
  have h1: "heap_ok g1 B" unfolding g1e by (rule newNode_ok [OF g0s(10)])
  have s1: "q_rguard g1 = q_rguard g" "q_top g1 = Suc ?t" "q_guard g1 ?t = None" "q_ref g1 = (q_ref g)(?t := ref)" "q_val g1 = (q_val g)(?t := v)"
    "q_uses g1 = inc ref (q_uses g)" "q_byID g1 = q_byID g" "q_nextID g1 = q_nextID g" "q_index g1 = q_index g"
    by (simp_all add: g1e newNode_def Let_def g0s)
  have fr: "?t \<notin> set (B r)" for r using nodes_bound [OF h in_nodes, of ?t r] by auto
  then have tn: "?t \<notin> nodes B" by (simp add: nodes_def)
  have at: "q_prev g1 (q_rguard g p) = last (q_rguard g p # B p)" using guard_links(2) [OF h1, of p] rg by (simp add: s1)
  obtain nx pv where i: "insertAfter (last (q_rguard g p # B p)) ?t g1 = Some (g1\<lparr>q_next := nx, q_prev := pv\<rparr>)"
    "heap_ok (g1\<lparr>q_next := nx, q_prev := pv\<rparr>) (B(p := B p @ ?t # []))"
    by (rule insertAfter_ok [OF h1, of p "B p" "[]" _ ?t]) (use s1 rg fr guard_links(4) [OF h rg] in auto)
  let ?g = "g1\<lparr>q_next := nx, q_prev := pv\<rparr>"
  have N: "nodes ?B = nodes B \<union> {?t}" unfolding nodes_upd [OF h] by (auto simp: nodes_def)
  have refs: "refs ?g ?B q = refs g B q \<union> (if ref = Some q then {?t} else {})" for q using tn unfolding refs_def N by (auto simp: s1)
  have "build_inv ?g ?B"
  proof (rule build_invI)
    show "heap_ok ?g ?B" using i(2) by simp
    show "q_rguard ?g 0 \<noteq> 0" "sorted (q_byID ?g)" "distinct (q_byID ?g)" "q_index ?g = (\<lambda>_. None)" using build_invD(2,3,4,11) [OF I] by (simp_all add: s1)
    show "0 < r \<and> q_rguard ?g r \<noteq> 0" if "r \<in> live ?g" for r using that build_invD(5,6) [OF I, of r] by (simp add: s1)
    show "?B r = []" if "r \<notin> insert 0 (live ?g)" for r using that p build_invD(7) [OF I, of r] by (auto simp: s1)
    show "q \<in> live ?g" if "x \<in> nodes ?B" "q_ref ?g x = Some q" for x q
      using that r build_invD(8) [OF I, of x q] unfolding N by (auto simp: s1 split: if_splits)
    show "q_ref ?g (q_rguard ?g q) = None" if "q_rguard ?g q \<noteq> 0" for q
      using that build_invD(9) [OF I, of q] guard_links(4) [OF h, of q] by (simp add: s1)
    show "q_uses ?g q = int (card (refs ?g ?B q))" if "q \<in> live ?g" for q
    proof -
      have "int (card (refs ?g ?B q)) = int (card (refs g B q)) + (if ref = Some q then 1 else 0)"
        unfolding refs using tn refs_finite [OF h, of q] by (auto simp: refs_def)
      then show ?thesis using that build_invD(10) [OF I, of q] by (auto simp: s1 inc_def split: option.splits)
    qed
    show "ParseRuleRef (encoded ?g x) = q_ref ?g x" if "x \<in> nodes ?B" for x
    proof (cases "x = ?t")
      case True
      then show ?thesis using enc by (cases ref) (simp_all add: encoded_def s1)
    next
      case False
      then have "encoded ?g x = encoded g x" by (simp add: encoded_def s1 split: option.split)
      then show ?thesis using that False build_invD(12) [OF I, of x] unfolding N by (simp add: s1)
    qed
  qed
  moreover have "insertAfter (q_prev g1 (q_rguard g1 p)) ?t g1 = Some ?g" unfolding s1(1) at by (rule i(1))
  ultimately show ?thesis using tn by (intro that [of ?g]) (auto simp: n s1)
qed

end
