(* ===== verification/SequiturBuild.thy ===== *)
theory SequiturBuild
  imports SequiturRestore
begin

text \<open>
  Every snapshot is either refused or built into a grammar with the invariant, whose bodies are those
  of the snapshot.
\<close>

section \<open>Minting and filling\<close>

lemma insort_last: "\<forall>y \<in> set xs. y < x \<Longrightarrow> insort x xs = xs @ [x :: int]"
  by (induction xs) (simp_all add: not_le)

lemma mint_rules_ok:
  assumes "build_inv g (\<lambda>_. [])" "\<forall>r \<in> live g. r \<le> prev" "0 \<le> prev" "i = 0 \<longrightarrow> prev = 0"
  shows "case mint_rules i prev rs g of
      Inl e \<Rightarrow> \<not> (sorted_wrt (<) (prev # map ru_ID rs) \<and> (\<forall>r \<in> set rs. elems (ru_Body r) \<noteq> []))
    | Inr (prev', g') \<Rightarrow> sorted_wrt (<) (prev # map ru_ID rs) \<and> (\<forall>r \<in> set rs. elems (ru_Body r) \<noteq> [])
        \<and> prev' = last (prev # map ru_ID rs) \<and> build_inv g' (\<lambda>_. []) \<and> q_byID g' = q_byID g @ map ru_ID rs \<and> q_nextID g' = q_nextID g"
  using assms
proof (induction rs arbitrary: i prev g)
  case Nil
  then show ?case by simp
next
  case (Cons r rs)
  let ?i = "ru_ID r" let ?t = "q_top g"
  show ?case
  proof (cases "?i < 1 \<or> (0 < i \<and> ?i \<le> prev) \<or> elems (ru_Body r) = []")
    case True
    then show ?thesis using Cons.prems(3) by auto
  next
    case False
    then have new: "prev < ?i" using Cons.prems(4) by (cases "i = 0") auto
    define g' where "g' = (let (n, g) = newGuard ?i g in g\<lparr>q_rguard := (q_rguard g)(?i := n), q_uses := (q_uses g)(?i := 0), q_byID := insort ?i (q_byID g)\<rparr>)"
    have s: "q_rguard g' = (q_rguard g)(?i := ?t)" "q_top g' = Suc ?t" "q_guard g' = (q_guard g)(?t := Some ?i)"
      "q_next g' = (q_next g)(?t := ?t)" "q_prev g' = (q_prev g)(?t := ?t)" "q_byID g' = insort ?i (q_byID g)" "q_nextID g' = q_nextID g"
      "q_ref g' = (q_ref g)(?t := None)" "q_index g' = q_index g" "q_uses g' = (q_uses g)(?i := 0)"
      by (simp_all add: g'_def newGuard_def newNode_def Let_def)
    note I = Cons.prems(1) and h = build_invD(1) [OF Cons.prems(1)]
    have ids: "q_byID g' = q_byID g @ [?i]" unfolding s(6) by (rule insort_last) (use Cons.prems(2) new in auto)
    have top: "0 < ?t" using guard_links(4) [OF h build_invD(2) [OF I]] by simp
    have nil: "nodes (\<lambda>_. []) = {}" by (simp add: nodes_def)
    have "heap_ok g' (\<lambda>_. [])" by (rule new_guard_heap [OF h _ top]) (simp_all add: s)
    moreover have "sorted (q_byID g')" "distinct (q_byID g')"
      using build_invD(3,4) [OF I] Cons.prems(2) new unfolding ids by (auto simp: sorted_append)
    moreover have "0 < q \<and> q_rguard g' q \<noteq> 0" if "q \<in> live g'" for q
      using that build_invD(5,6) [OF I, of q] new Cons.prems(3) top unfolding ids by (auto simp: s(1))
    moreover have "q_ref g' (q_rguard g' q) = None" if "q_rguard g' q \<noteq> 0" for q
      using that build_invD(9) [OF I, of q] by (auto simp: s)
    moreover have "q_uses g' q = int (card (refs g' (\<lambda>_. []) q))" if "q \<in> live g'" for q
      using that build_invD(10) [OF I, of q] unfolding ids by (auto simp: s(10) refs_def nil)
    moreover have "q_rguard g' 0 \<noteq> 0" "q_index g' = (\<lambda>_. None)" using build_invD(2,11) [OF I] top by (auto simp: s)
    ultimately have I': "build_inv g' (\<lambda>_. [])" by (intro build_invI) (simp_all add: nil)
    have pr: "\<forall>r \<in> live g'. r \<le> ?i" using Cons.prems(2) new unfolding ids by auto
    have e: "mint_rules i prev (r # rs) g = mint_rules (i + 1) ?i rs g'" using False by (auto simp: g'_def Let_def case_prod_unfold)
    have so: "sorted_wrt (<) (prev # map ru_ID (r # rs)) = sorted_wrt (<) (?i # map ru_ID rs)" using new by auto
    show ?thesis unfolding e so using Cons.IH [OF I' pr, of "i + 1"] new Cons.prems(3) False
      by (auto simp: ids s(7) split: sum.splits)
  qed
qed

definition kept :: "seq \<Rightarrow> (int \<Rightarrow> nat list) \<Rightarrow> seq \<Rightarrow> bool" where
  "kept g B g' \<longleftrightarrow> q_byID g' = q_byID g \<and> q_rguard g' = q_rguard g \<and> q_nextID g' = q_nextID g \<and> (\<forall>x \<in> nodes B. encoded g' x = encoded g x)"

lemma kept_trans:
  assumes "kept g B g'" "kept g' B' g''" "nodes B \<subseteq> nodes B'"
  shows "kept g B g''"
  using assms unfolding kept_def by auto

lemma nodes_snoc: "heap_ok g B \<Longrightarrow> nodes (B(p := B p @ ns)) = nodes B \<union> set ns"
  using nodes_upd [of g B p] by (auto simp: nodes_def)

lemma fill_ok:
  assumes "build_inv g B" "p \<in> insert 0 (live g)"
  shows "\<exists>res. fill p ss g = Some res \<and> (case res of
      Inl e \<Rightarrow> \<exists>s \<in> set ss. \<exists>i. ParseRuleRef s = Some i \<and> i \<notin> live g
    | Inr g' \<Rightarrow> \<exists>ns. build_inv g' (B(p := B p @ ns)) \<and> map (encoded g') ns = ss \<and> kept g B g')"
  using assms
proof (induction ss arbitrary: g B)
  case Nil
  then show ?case by (auto simp: kept_def)
next
  case (Cons s ss)
  show ?case
  proof (cases "\<exists>i. ParseRuleRef s = Some i \<and> i \<notin> live g")
    case True
    then show ?thesis by auto
  next
    case False
    define ref where "ref = ParseRuleRef s"
    define v where "v = (if ref = None then s else [])"
    define g0 where "g0 = (case ref of Some q \<Rightarrow> add_uses q 1 g | None \<Rightarrow> g)"
    obtain n g1 where g1: "newNode ref v None g0 = (n, g1)" by fastforce
    have r: "q \<in> live g" if "ref = Some q" for q using that False by (auto simp: ref_def)
    have v: "ParseRuleRef (case ref of Some q \<Rightarrow> RuleRef q | None \<Rightarrow> v) = ref"
      using ParseRuleRef_SomeD(1) [of s] by (simp add: v_def ref_def split: option.split)
    obtain g2 where g2: "insertAfter (q_prev g1 (q_rguard g1 p)) n g1 = Some g2" "build_inv g2 (B(p := B p @ [n]))" "n \<notin> nodes B"
      "q_ref g2 = (q_ref g)(n := ref)" "q_val g2 = (q_val g)(n := v)" "q_byID g2 = q_byID g" "q_rguard g2 = q_rguard g" "q_nextID g2 = q_nextID g"
      by (rule fill_node_ok [OF Cons.prems r v g0_def g1])
    let ?B = "B(p := B p @ [n])"
    have e: "fill p (s # ss) g = fill p ss g2"
    proof (cases ref)
      case None
      then show ?thesis using g1 g2(1) by (simp add: ref_def v_def g0_def)
    next
      case (Some i)
      then show ?thesis using g1 g2(1) r [OF Some] by (simp add: ref_def v_def g0_def)
    qed
    have k: "kept g B g2" using g2(3) by (auto simp: kept_def g2(4-8) encoded_def split: option.split)
    have en: "encoded g2 n = s" using ParseRuleRef_SomeD(1) [of s] by (simp add: encoded_def g2(4,5) v_def ref_def split: option.split)
    have "p \<in> insert 0 (live g2)" using Cons.prems(2) by (simp add: g2(6))
    from Cons.IH [OF g2(2) this] obtain res where res: "fill p ss g2 = Some res" "case res of
        Inl e \<Rightarrow> \<exists>s \<in> set ss. \<exists>i. ParseRuleRef s = Some i \<and> i \<notin> live g2
      | Inr g' \<Rightarrow> \<exists>ns. build_inv g' (?B(p := ?B p @ ns)) \<and> map (encoded g') ns = ss \<and> kept g2 ?B g'" by blast
    show ?thesis
    proof (cases res)
      case (Inl e')
      then show ?thesis using res e by (auto simp: g2(6))
    next
      case (Inr g')
      then obtain ns where ns: "build_inv g' (?B(p := ?B p @ ns))" "map (encoded g') ns = ss" "kept g2 ?B g'" using res(2) by auto
      have N: "nodes ?B = nodes B \<union> {n}" using nodes_snoc [OF build_invD(1) [OF Cons.prems(1)], of p "[n]"] by simp
      have "kept g B g'" by (rule kept_trans [OF k ns(3)]) (auto simp: N)
      moreover have "encoded g' n = s" using ns(3) en by (simp add: kept_def N)
      ultimately show ?thesis using e res(1) Inr ns(1,2) by (intro exI [of _ "Inr g'"]) (auto intro!: exI [of _ "n # ns"])
    qed
  qed
qed

lemma fill_rules_ok:
  assumes "build_inv g B" "fst ` set rs \<subseteq> insert 0 (live g)" "distinct (map fst rs)" "\<forall>p \<in> fst ` set rs. B p = []"
  shows "\<exists>res. fill_rules rs g = Some res \<and> (case res of
      Inl e \<Rightarrow> \<exists>(p, ss) \<in> set rs. \<exists>s \<in> set ss. \<exists>i. ParseRuleRef s = Some i \<and> i \<notin> live g
    | Inr g' \<Rightarrow> \<exists>B'. build_inv g' B' \<and> kept g B g' \<and> (\<forall>(p, ss) \<in> set rs. map (encoded g') (B' p) = ss)
        \<and> (\<forall>p. p \<notin> fst ` set rs \<longrightarrow> B' p = B p) \<and> nodes B \<subseteq> nodes B')"
  using assms
proof (induction rs arbitrary: g B)
  case Nil
  then show ?case by (auto simp: kept_def)
next
  case (Cons a rs)
  obtain p ss where a: "a = (p, ss)" by fastforce
  have p: "p \<in> insert 0 (live g)" "B p = []" "p \<notin> fst ` set rs" using Cons.prems(2-4) a by auto
  from fill_ok [OF Cons.prems(1) p(1), of ss] obtain res where res: "fill p ss g = Some res" "case res of
      Inl e \<Rightarrow> \<exists>s \<in> set ss. \<exists>i. ParseRuleRef s = Some i \<and> i \<notin> live g
    | Inr g' \<Rightarrow> \<exists>ns. build_inv g' (B(p := B p @ ns)) \<and> map (encoded g') ns = ss \<and> kept g B g'" by blast
  show ?case
  proof (cases res)
    case (Inl e)
    then show ?thesis using res a by auto
  next
    case (Inr g1)
    then obtain ns where ns: "build_inv g1 (B(p := ns))" "map (encoded g1) ns = ss" "kept g B g1" using res(2) p(2) by auto
    let ?B = "B(p := ns)"
    have lv: "q_byID g1 = q_byID g" using ns(3) by (simp add: kept_def)
    have N: "nodes ?B = nodes B \<union> set ns" using nodes_snoc [OF build_invD(1) [OF Cons.prems(1)], of p ns] p(2) by simp
    have "fst ` set rs \<subseteq> insert 0 (live g1)" "distinct (map fst rs)" "\<forall>q \<in> fst ` set rs. ?B q = []"
      using Cons.prems(2-4) a p(3) by (auto simp: lv)
    from Cons.IH [OF ns(1) this] obtain res2 where res2: "fill_rules rs g1 = Some res2" "case res2 of
        Inl e \<Rightarrow> \<exists>(p, ss) \<in> set rs. \<exists>s \<in> set ss. \<exists>i. ParseRuleRef s = Some i \<and> i \<notin> live g1
      | Inr g' \<Rightarrow> \<exists>B'. build_inv g' B' \<and> kept g1 ?B g' \<and> (\<forall>(p, ss) \<in> set rs. map (encoded g') (B' p) = ss)
          \<and> (\<forall>p. p \<notin> fst ` set rs \<longrightarrow> B' p = ?B p) \<and> nodes ?B \<subseteq> nodes B'" by blast
    show ?thesis
    proof (cases res2)
      case (Inl e)
      then show ?thesis using res2 res(1) Inr a by (auto simp: lv)
    next
      case (Inr g')
      then obtain B' where B': "build_inv g' B'" "kept g1 ?B g'" "\<forall>(p, ss) \<in> set rs. map (encoded g') (B' p) = ss"
        "\<forall>p. p \<notin> fst ` set rs \<longrightarrow> B' p = ?B p" "nodes ?B \<subseteq> nodes B'" using res2(2) by auto
      have "kept g B g'" by (rule kept_trans [OF ns(3) B'(2)]) (auto simp: N)
      moreover have "map (encoded g') (B' p) = ss" using B'(2,4) p(3) ns(2) by (auto simp: kept_def N)
      moreover have "\<forall>q. q \<notin> fst ` set (a # rs) \<longrightarrow> B' q = B q" using B'(4) a by auto
      moreover have "nodes B \<subseteq> nodes B'" using B'(5) N by auto
      ultimately show ?thesis using res(1) \<open>res = Inr g1\<close> res2(1) Inr B'(1,3) a
        by (intro exI [of _ "Inr g'"]) (auto intro!: exI [of _ B'])
    qed
  qed
qed

end
