(* ===== verification/SequiturCycle.thy ===== *)
theory SequiturCycle
  imports SequiturBuild
begin

text \<open>
  The cycle check of \<^verbatim>\<open>findCycle\<close>: the walk ends, and it reports no cycle exactly when the rules can be
  ranked, so that every body refers only to smaller rules.
\<close>

text \<open>The finished rules only refer to finished rules of smaller rank.\<close>

definition finished :: "seq \<Rightarrow> (int \<Rightarrow> nat list) \<Rightarrow> marks \<Rightarrow> bool" where
  "finished g B st \<longleftrightarrow> (\<exists>\<rho> :: int \<Rightarrow> nat. \<forall>r. st r = 2 \<longrightarrow> r \<in> live g \<and> (\<forall>n \<in> set (B r). \<forall>q. q_ref g n = Some q \<longrightarrow> st q = 2 \<and> \<rho> q < \<rho> r))"

definition unvisited :: "seq \<Rightarrow> marks \<Rightarrow> nat" where
  "unvisited g st = card {q \<in> live g. st q = 0}"

lemma finished_add:
  assumes F: "finished g B st" and r: "r \<in> live g" "st r = 1" and all: "\<And>n q. n \<in> set (B r) \<Longrightarrow> q_ref g n = Some q \<Longrightarrow> st q = 2"
  shows "finished g B (st(r := 2))"
proof -
  obtain \<rho> :: "int \<Rightarrow> nat" where \<rho>: "\<And>x. st x = 2 \<Longrightarrow> x \<in> live g" "\<And>x n q. st x = 2 \<Longrightarrow> n \<in> set (B x) \<Longrightarrow> q_ref g n = Some q \<Longrightarrow> st q = 2 \<and> \<rho> q < \<rho> x"
    using F unfolding finished_def by blast
  let ?m = "Max (\<rho> ` live g)" let ?\<rho> = "\<rho>(r := Suc ?m)"
  have m: "\<rho> q < Suc ?m" if "q \<in> live g" for q using that by (simp add: le_imp_less_Suc)
  have "x \<in> live g \<and> (\<forall>n \<in> set (B x). \<forall>q. q_ref g n = Some q \<longrightarrow> (st(r := 2)) q = 2 \<and> ?\<rho> q < ?\<rho> x)" if "(st(r := 2)) x = 2" for x
  proof (cases "x = r")
    case True
    have "q \<noteq> r \<and> st q = 2 \<and> \<rho> q < Suc ?m" if "n \<in> set (B r)" "q_ref g n = Some q" for n q
      using all [OF that] r(2) \<rho>(1) [of q] m [of q] by auto
    then show ?thesis using True r(1) by auto
  next
    case False
    then have x: "st x = 2" using that by simp
    have "q \<noteq> r \<and> st q = 2 \<and> \<rho> q < \<rho> x" if "n \<in> set (B x)" "q_ref g n = Some q" for n q
      using \<rho>(2) [OF x that] r(2) by auto
    then show ?thesis using False \<rho>(1) [OF x] by auto
  qed
  then show ?thesis unfolding finished_def by blast
qed

definition walked :: "seq \<Rightarrow> (int \<Rightarrow> nat list) \<Rightarrow> marks \<Rightarrow> marks \<Rightarrow> bool" where
  "walked g B st st' \<longleftrightarrow> finished g B st' \<and> (\<forall>q. st q \<noteq> 0 \<longrightarrow> st' q = st q) \<and> (\<forall>q. st' q = 1 \<longleftrightarrow> st q = 1) \<and> (\<forall>q. st' q \<le> 2)"

lemma walked_unvisited:
  assumes "walked g B st st'"
  shows "unvisited g st' \<le> unvisited g st"
  unfolding unvisited_def by (rule card_mono) (use assms in \<open>auto simp: walked_def\<close>)

lemma walked_trans: "walked g B st st' \<Longrightarrow> walked g B st' st'' \<Longrightarrow> walked g B st st''"
  unfolding walked_def by metis

lemma walk_nodes_ok:
  assumes rec: "\<And>q st. q \<in> live g \<Longrightarrow> st q = 0 \<Longrightarrow> unvisited g st \<le> k \<Longrightarrow> walked g B st st \<Longrightarrow>
      \<exists>b st'. rec q st = Some (b, st') \<and> (\<not> b \<longrightarrow> walked g B st st' \<and> st' q = 2)
        \<and> (\<forall>\<rho>. ranks g B \<rho> \<longrightarrow> (\<forall>x. st x = 1 \<longrightarrow> \<rho> q < \<rho> x) \<longrightarrow> \<not> b)"
    and "\<And>n q. n \<in> set ns \<Longrightarrow> q_ref g n = Some q \<Longrightarrow> q \<in> live g" "set ns \<subseteq> set (B r)" "unvisited g st \<le> k" "walked g B st st"
  shows "\<exists>b st'. walk_nodes rec g ns st = Some (b, st')
    \<and> (\<not> b \<longrightarrow> walked g B st st' \<and> (\<forall>n \<in> set ns. \<forall>q. q_ref g n = Some q \<longrightarrow> st' q = 2))
    \<and> (\<forall>\<rho>. ranks g B \<rho> \<longrightarrow> (\<forall>x. st x = 1 \<longrightarrow> \<rho> r \<le> \<rho> x) \<longrightarrow> \<not> b)"
  using assms(2-)
proof (induction ns arbitrary: st)
  case Nil
  then show ?case by (intro exI [of _ False] exI [of _ st]) simp
next
  case (Cons n ns)
  have IH: "\<exists>b st'. walk_nodes rec g ns st1 = Some (b, st')
    \<and> (\<not> b \<longrightarrow> walked g B st1 st' \<and> (\<forall>n \<in> set ns. \<forall>q. q_ref g n = Some q \<longrightarrow> st' q = 2))
    \<and> (\<forall>\<rho>. ranks g B \<rho> \<longrightarrow> (\<forall>x. st1 x = 1 \<longrightarrow> \<rho> r \<le> \<rho> x) \<longrightarrow> \<not> b)" if "unvisited g st1 \<le> k" "walked g B st1 st1" for st1
    by (rule Cons.IH) (use Cons.prems that in auto)
  show ?case
  proof (cases "q_ref g n")
    case None
    then show ?thesis using IH [OF Cons.prems(3,4)] by auto
  next
    case (Some q)
    have q: "q \<in> live g" using Cons.prems(1) [of n q] Some by simp
    have n: "n \<in> set (B r)" using Cons.prems(2) by simp
    have rank: "\<rho> q < \<rho> r" if "ranks g B \<rho>" for \<rho> using that n Some unfolding ranks_def by blast
    consider "st q = 1" | "st q = 0" | "st q = 2" using Cons.prems(4) unfolding walked_def by (metis One_nat_def Suc_1 le_SucE le_zero_eq)
    then show ?thesis
    proof cases
      case 1
      then show ?thesis using Some rank by (auto simp: not_le [symmetric])
    next
      case 2
      from rec [where q = q and st = st, OF q 2 Cons.prems(3,4)] obtain b st1 where 1: "rec q st = Some (b, st1)" "\<not> b \<Longrightarrow> walked g B st st1 \<and> st1 q = 2"
        "\<And>\<rho>. ranks g B \<rho> \<Longrightarrow> \<forall>x. st x = 1 \<longrightarrow> \<rho> q < \<rho> x \<Longrightarrow> \<not> b" by blast
      have nb: "\<not> b" if "ranks g B \<rho>" "\<forall>x. st x = 1 \<longrightarrow> \<rho> r \<le> \<rho> x" for \<rho>
        using 1(3) [OF that(1)] that(2) rank [OF that(1)] by (meson order_less_le_trans)
      show ?thesis
      proof (cases b)
        case True
        then show ?thesis using Some 2 1(1) nb by auto
      next
        case False
        then have w: "walked g B st st1" "st1 q = 2" using 1(2) by auto
        have "unvisited g st1 \<le> k" using walked_unvisited [OF w(1)] Cons.prems(3) by simp
        moreover have "walked g B st1 st1" using w(1) by (simp add: walked_def)
        ultimately obtain b' st2 where 3: "walk_nodes rec g ns st1 = Some (b', st2)"
          "\<not> b' \<Longrightarrow> walked g B st1 st2 \<and> (\<forall>n \<in> set ns. \<forall>q. q_ref g n = Some q \<longrightarrow> st2 q = 2)"
          "\<And>\<rho>. ranks g B \<rho> \<Longrightarrow> \<forall>x. st1 x = 1 \<longrightarrow> \<rho> r \<le> \<rho> x \<Longrightarrow> \<not> b'" using IH by blast
        have "st2 q = 2" if "\<not> b'" using 3(2) [OF that] w(2) by (simp add: walked_def)
        moreover have "walked g B st st2" if "\<not> b'" using walked_trans [OF w(1)] 3(2) [OF that] by blast
        moreover have "\<forall>x. st1 x = 1 \<longrightarrow> \<rho> r \<le> \<rho> x" if "\<forall>x. st x = 1 \<longrightarrow> \<rho> r \<le> \<rho> x" for \<rho> :: "int \<Rightarrow> nat"
          using w(1) that by (simp add: walked_def)
        ultimately show ?thesis using Some 2 1(1) False 3 by (intro exI [of _ b'] exI [of _ st2]) auto
      qed
    next
      case 3
      obtain b st1 where 1: "walk_nodes rec g ns st = Some (b, st1)"
        "\<not> b \<Longrightarrow> walked g B st st1 \<and> (\<forall>n \<in> set ns. \<forall>q. q_ref g n = Some q \<longrightarrow> st1 q = 2)"
        "\<And>\<rho>. ranks g B \<rho> \<Longrightarrow> \<forall>x. st x = 1 \<longrightarrow> \<rho> r \<le> \<rho> x \<Longrightarrow> \<not> b" using IH [OF Cons.prems(3,4)] by blast
      have "st1 q = 2" if "\<not> b" using 1(2) [OF that] 3 by (simp add: walked_def)
      then show ?thesis using Some 3 1 by (intro exI [of _ b] exI [of _ st1]) auto
    qed
  qed
qed

lemma walk_ok:
  assumes I: "build_inv g B" and "r \<in> live g" "st r = 0" "unvisited g st \<le> k" "walked g B st st"
  shows "\<exists>b st'. walk k g r st = Some (b, st') \<and> (\<not> b \<longrightarrow> walked g B st st' \<and> st' r = 2)
    \<and> (\<forall>\<rho>. ranks g B \<rho> \<longrightarrow> (\<forall>x. st x = 1 \<longrightarrow> \<rho> r < \<rho> x) \<longrightarrow> \<not> b)"
  using assms(2-)
proof (induction k arbitrary: r st)
  case 0
  then have "r \<in> {q \<in> live g. st q = 0}" by simp
  then have "0 < unvisited g st" unfolding unvisited_def by (subst card_gt_0_iff) auto
  then show ?case using 0 by simp
next
  case (Suc k)
  let ?st = "st(r := 1)"
  have body: "body_nodes r g = Some (B r)" by (rule body_nodes_ok [OF build_invD(1,6) [OF I]]) (rule Suc.prems(1))
  have "{q \<in> live g. st q = 0} = insert r {q \<in> live g. ?st q = 0}" using Suc.prems(1,2) by auto
  then have u: "unvisited g ?st \<le> k" using Suc.prems(3) unfolding unvisited_def by simp
  have w: "walked g B ?st ?st"
  proof -
    obtain \<rho> :: "int \<Rightarrow> nat" where "\<forall>x. st x = 2 \<longrightarrow> x \<in> live g \<and> (\<forall>n \<in> set (B x). \<forall>q. q_ref g n = Some q \<longrightarrow> st q = 2 \<and> \<rho> q < \<rho> x)"
      using Suc.prems(4) unfolding walked_def finished_def by blast
    then have "\<forall>x. ?st x = 2 \<longrightarrow> x \<in> live g \<and> (\<forall>n \<in> set (B x). \<forall>q. q_ref g n = Some q \<longrightarrow> ?st q = 2 \<and> \<rho> q < \<rho> x)"
      using Suc.prems(2) by (auto split: if_splits)
    then have "finished g B ?st" unfolding finished_def by blast
    then show ?thesis using Suc.prems(4) by (simp add: walked_def)
  qed
  have live: "q \<in> live g" if "n \<in> set (B r)" "q_ref g n = Some q" for n q using build_invD(8) [OF I in_nodes that(2)] that(1) by blast
  have "\<exists>b st1. walk_nodes (walk k g) g (B r) ?st = Some (b, st1)
    \<and> (\<not> b \<longrightarrow> walked g B ?st st1 \<and> (\<forall>n \<in> set (B r). \<forall>q. q_ref g n = Some q \<longrightarrow> st1 q = 2))
    \<and> (\<forall>\<rho>. ranks g B \<rho> \<longrightarrow> (\<forall>x. ?st x = 1 \<longrightarrow> \<rho> r \<le> \<rho> x) \<longrightarrow> \<not> b)"
    by (rule walk_nodes_ok [OF _ _ subset_refl u w]) (rule Suc.IH live; assumption)+
  then obtain b st1 where 1: "walk_nodes (walk k g) g (B r) ?st = Some (b, st1)"
    "\<not> b \<Longrightarrow> walked g B ?st st1 \<and> (\<forall>n \<in> set (B r). \<forall>q. q_ref g n = Some q \<longrightarrow> st1 q = 2)"
    "\<And>\<rho>. ranks g B \<rho> \<Longrightarrow> \<forall>x. ?st x = 1 \<longrightarrow> \<rho> r \<le> \<rho> x \<Longrightarrow> \<not> b" by blast
  have "\<not> b" if "ranks g B \<rho>" "\<forall>x. st x = 1 \<longrightarrow> \<rho> r < \<rho> x" for \<rho>
    using 1(3) [OF that(1)] that(2) by (simp add: less_imp_le)
  moreover have "walked g B st (st1(r := 2))" if "\<not> b"
  proof -
    have s: "finished g B st1" "\<forall>q. ?st q \<noteq> 0 \<longrightarrow> st1 q = ?st q" "\<forall>q. st1 q = 1 \<longleftrightarrow> ?st q = 1" "\<forall>q. st1 q \<le> 2" using 1(2) [OF that] by (simp_all add: walked_def)
    have "finished g B (st1(r := 2))"
      by (rule finished_add [OF s(1) Suc.prems(1)]) (use s(3) 1(2) [OF that] in auto)
    then show ?thesis using s Suc.prems(2) unfolding walked_def by (auto split: if_splits)
  qed
  moreover have "walk (Suc k) g r st = Some (if b then (True, st1) else (False, st1(r := 2)))" using body 1(1) by simp
  ultimately show ?case by (cases b) auto
qed

lemma first_cycle_ok:
  assumes I: "build_inv g B" and "set rs \<subseteq> live g" "walked g B st st" "\<forall>q. st q \<noteq> 1" "unvisited g st \<le> k"
  shows "\<exists>c. first_cycle k g rs st = Some c
    \<and> (c = None \<longrightarrow> (\<exists>st'. finished g B st' \<and> (\<forall>q. st q = 2 \<longrightarrow> st' q = 2) \<and> (\<forall>r \<in> set rs. st' r = 2)))
    \<and> ((\<exists>\<rho>. ranks g B \<rho>) \<longrightarrow> c = None)"
  using assms(2-)
proof (induction rs arbitrary: st)
  case Nil
  then show ?case by (auto simp: walked_def)
next
  case (Cons r rs)
  show ?case
  proof (cases "st r = 0")
    case False
    then have "st r = 2" using Cons.prems(2,3) unfolding walked_def by (metis One_nat_def Suc_1 le_SucE le_zero_eq)
    moreover obtain c where "first_cycle k g rs st = Some c"
      "c = None \<Longrightarrow> \<exists>st'. finished g B st' \<and> (\<forall>q. st q = 2 \<longrightarrow> st' q = 2) \<and> (\<forall>r \<in> set rs. st' r = 2)" "(\<exists>\<rho>. ranks g B \<rho>) \<Longrightarrow> c = None"
      using Cons.IH [of st] Cons.prems by auto
    ultimately show ?thesis using False by auto
  next
    case True
    have r: "r \<in> live g" using Cons.prems(1) by simp
    obtain b st1 where 1: "walk k g r st = Some (b, st1)" "\<not> b \<Longrightarrow> walked g B st st1 \<and> st1 r = 2"
      "\<And>\<rho>. ranks g B \<rho> \<Longrightarrow> \<forall>x. st x = 1 \<longrightarrow> \<rho> r < \<rho> x \<Longrightarrow> \<not> b"
      using walk_ok [OF I r True Cons.prems(4,2)] by blast
    show ?thesis
    proof (cases b)
      case True
      then show ?thesis using 1(1) \<open>st r = 0\<close> 1(3) Cons.prems(3) by auto
    next
      case False
      then have w: "walked g B st st1" "st1 r = 2" using 1(2) by auto
      have "walked g B st1 st1" "\<forall>q. st1 q \<noteq> 1" "unvisited g st1 \<le> k"
        using w(1) walked_unvisited [OF w(1)] Cons.prems(3,4) by (auto simp: walked_def)
      then obtain c where c: "first_cycle k g rs st1 = Some c"
        "c = None \<Longrightarrow> \<exists>st'. finished g B st' \<and> (\<forall>q. st1 q = 2 \<longrightarrow> st' q = 2) \<and> (\<forall>r \<in> set rs. st' r = 2)" "(\<exists>\<rho>. ranks g B \<rho>) \<Longrightarrow> c = None"
        using Cons.IH [of st1] Cons.prems(1) by auto
      have "st1 q = 2" if "st q = 2" for q using that w(1) by (simp add: walked_def)
      then have "\<exists>st'. finished g B st' \<and> (\<forall>q. st q = 2 \<longrightarrow> st' q = 2) \<and> (\<forall>x \<in> set (r # rs). st' x = 2)" if "c = None"
        using c(2) [OF that] w(2) by (metis set_ConsD)
      then show ?thesis using True False 1(1) c(1,3) by (intro exI [of _ c]) auto
    qed
  qed
qed

lemma findCycle_ok:
  assumes I: "build_inv g B"
  shows "\<exists>c. findCycle g = Some c \<and> (c = None \<longleftrightarrow> (\<exists>\<rho>. ranks g B \<rho>))"
proof -
  have s: "sortedIDs g = q_byID g" using build_invD(3) [OF I] by (simp add: sortedIDs_def sorted_sort_id)
  have "walked g B (\<lambda>_. 0) (\<lambda>_. 0)" by (simp add: walked_def finished_def)
  moreover have "unvisited g (\<lambda>_. 0) \<le> length (q_byID g)" using build_invD(4) [OF I] by (simp add: unvisited_def distinct_card)
  ultimately obtain c where c: "findCycle g = Some c"
    "c = None \<Longrightarrow> \<exists>st'. finished g B st' \<and> (\<forall>r \<in> live g. st' r = 2)" "(\<exists>\<rho>. ranks g B \<rho>) \<Longrightarrow> c = None"
    using first_cycle_ok [OF I subset_refl, of "\<lambda>_. 0" "length (q_byID g)"] unfolding findCycle_def s by auto
  have "\<exists>\<rho>. ranks g B \<rho>" if none: "c = None"
  proof -
    obtain st where st: "finished g B st" "\<forall>r \<in> live g. st r = 2" using c(2) [OF none] by blast
    then obtain \<rho> :: "int \<Rightarrow> nat" where \<rho>: "\<And>r n q. r \<in> live g \<Longrightarrow> n \<in> set (B r) \<Longrightarrow> q_ref g n = Some q \<Longrightarrow> \<rho> q < \<rho> r" unfolding finished_def by blast
    let ?\<rho> = "\<rho>(0 := Suc (Max (\<rho> ` live g)))"
    have "?\<rho> q < ?\<rho> r" if n: "n \<in> set (B r)" "q_ref g n = Some q" for r n q
    proof -
      have q: "q \<in> live g" by (rule build_invD(8) [OF I in_nodes n(2)]) (rule n(1))
      then have "q \<noteq> 0" "\<rho> q \<le> Max (\<rho> ` live g)" using build_invD(5) [OF I q] by auto
      moreover have "r \<in> insert 0 (live g)" using build_invD(7) [OF I, of r] n(1) by (cases "r \<in> insert 0 (live g)") auto
      ultimately show ?thesis using \<rho> [OF _ n] by (cases "r = 0") (auto simp: le_imp_less_Suc)
    qed
    then show ?thesis unfolding ranks_def by blast
  qed
  then show ?thesis using c by blast
qed

end
