(* ===== verification/SequiturReload.thy ===== *)
theory SequiturReload
  imports SequiturCycle
begin

text \<open>
  What \<open>buildFromSnapshot\<close> accepts and what it builds: exactly the well-formed snapshots, into grammars
  with the invariant whose snapshot is the one read.
\<close>

section \<open>Words and the index of a built heap\<close>

primrec unfold_rule :: "seq \<Rightarrow> (int \<Rightarrow> nat list) \<Rightarrow> nat \<Rightarrow> int \<Rightarrow> Symbol list" where
  "unfold_rule g B 0 = (\<lambda>r. [])"
| "unfold_rule g B (Suc k) = (\<lambda>r. concat (map (word g (unfold_rule g B k)) (B r)))"

lemma word_cong: "(\<And>q. q_ref g n = Some q \<Longrightarrow> W q = W' q) \<Longrightarrow> word g W n = word g W' n"
  by (simp add: word_def split: option.split)

lemma unfold_rule_stable:
  assumes R: "ranks g B \<rho>"
  shows "\<rho> r < k \<Longrightarrow> \<rho> r < k' \<Longrightarrow> unfold_rule g B k r = unfold_rule g B k' r"
proof (induction k arbitrary: r k')
  case (Suc k)
  obtain j where j: "k' = Suc j" using Suc.prems by (cases k') auto
  have "word g (unfold_rule g B k) n = word g (unfold_rule g B j) n" if "n \<in> set (B r)" for n
  proof (rule word_cong)
    fix q assume "q_ref g n = Some q"
    then have "\<rho> q < \<rho> r" using R that unfolding ranks_def by blast
    then show "unfold_rule g B k q = unfold_rule g B j q" using Suc.prems j by (intro Suc.IH) auto
  qed
  then show ?case by (simp add: j cong: map_cong)
qed simp

lemma words_exist:
  assumes I: "build_inv g B" and R: "ranks g B \<rho>" and ne: "\<And>r. r \<in> live g \<Longrightarrow> B r \<noteq> []"
  obtains W where "\<And>r. W r = concat (map (word g W) (B r))" "\<And>r. r \<in> live g \<Longrightarrow> W r \<noteq> []"
proof -
  define W where "W r = unfold_rule g B (Suc (\<rho> r)) r" for r
  have W: "W r = concat (map (word g W) (B r))" for r
  proof -
    have "word g (unfold_rule g B (\<rho> r)) n = word g W n" if "n \<in> set (B r)" for n
    proof (rule word_cong)
      fix q assume "q_ref g n = Some q"
      then have "\<rho> q < \<rho> r" using R that unfolding ranks_def by blast
      then show "unfold_rule g B (\<rho> r) q = W q" unfolding W_def by (intro unfold_rule_stable [OF R]) auto
    qed
    then show ?thesis by (subst W_def) (simp cong: map_cong)
  qed
  have "r \<in> live g \<longrightarrow> W r \<noteq> []" for r
  proof (induction "\<rho> r" arbitrary: r rule: less_induct)
    case less
    show ?case
    proof
      assume r: "r \<in> live g"
      obtain n ns where n: "B r = n # ns" using ne [OF r] by (cases "B r") auto
      then have nr: "n \<in> set (B r)" by simp
      have "word g W n \<noteq> []"
      proof (cases "q_ref g n")
        case (Some q)
        have "q \<in> live g" by (rule build_invD(8) [OF I in_nodes Some]) (rule nr)
        moreover have "\<rho> q < \<rho> r" using R nr Some unfolding ranks_def by blast
        ultimately show ?thesis using less Some by (simp add: word_def)
      qed (simp add: word_def)
      then show "W r \<noteq> []" by (subst W) (simp add: n)
    qed
  qed
  then show ?thesis using W that by blast
qed

lemma record_nodes_ok:
  assumes "heap_ok g B" "index_ok g B" "\<And>n. n \<in> set ns \<Longrightarrow> n \<in> nodes B"
  shows "\<exists>ix. record_nodes ns g = Some (g\<lparr>q_index := ix\<rparr>) \<and> index_ok (g\<lparr>q_index := ix\<rparr>) B"
  using assms
proof (induction ns arbitrary: g)
  case Nil
  then show ?case by (intro exI [of _ "q_index g"]) simp
next
  case (Cons n ns)
  define d where "d = digramAt n g"
  have pl: "place g B n" using Cons.prems(3) by (simp add: place_def)
  have "\<exists>ix. record_nodes (n # ns) g = record_nodes ns (g\<lparr>q_index := ix\<rparr>) \<and> index_ok (g\<lparr>q_index := ix\<rparr>) B"
    using Cons.prems(1) pl
  proof (cases rule: digramAt_cases)
    case (pair s)
    show ?thesis
    proof (cases "q_index g (node_key g n, node_key g s)")
      case None
      then show ?thesis using pair Cons.prems(2)
        by (intro exI [of _ "(q_index g)((node_key g n, node_key g s) := Some n)"]) (auto simp: index_ok_def split: if_splits)
    next
      case (Some m)
      then show ?thesis using pair Cons.prems(2) by (intro exI [of _ "q_index g"]) simp
    qed
  next
    case lone
    then show ?thesis using Cons.prems(2) by (intro exI [of _ "q_index g"]) simp
  qed
  then obtain ix where ix: "record_nodes (n # ns) g = record_nodes ns (g\<lparr>q_index := ix\<rparr>)" "index_ok (g\<lparr>q_index := ix\<rparr>) B" by blast
  have "\<exists>ix'. record_nodes ns (g\<lparr>q_index := ix\<rparr>) = Some (g\<lparr>q_index := ix, q_index := ix'\<rparr>) \<and> index_ok (g\<lparr>q_index := ix, q_index := ix'\<rparr>) B"
    by (rule Cons.IH) (use Cons.prems ix(2) in auto)
  then show ?case unfolding ix(1) by simp
qed

lemma reindex_ok:
  assumes h: "heap_ok g B" and ix: "index_ok g B" and r: "\<And>r. r \<in> insert 0 (live g) \<Longrightarrow> q_rguard g r \<noteq> 0"
  shows "\<exists>ix. reindex g = Some (g\<lparr>q_index := ix\<rparr>) \<and> index_ok (g\<lparr>q_index := ix\<rparr>) B"
proof -
  have "\<exists>ix'. record_rules rs (g\<lparr>q_index := ix0\<rparr>) = Some (g\<lparr>q_index := ix'\<rparr>) \<and> index_ok (g\<lparr>q_index := ix'\<rparr>) B"
    if "index_ok (g\<lparr>q_index := ix0\<rparr>) B" "set rs \<subseteq> insert 0 (live g)" for rs ix0
    using that
  proof (induction rs arbitrary: ix0)
    case (Cons p rs)
    let ?g = "g\<lparr>q_index := ix0\<rparr>"
    have b: "body_nodes p ?g = Some (B p)" by (rule body_nodes_ok) (use h r Cons.prems(2) in auto)
    obtain ix1 where 1: "record_nodes (B p) ?g = Some (?g\<lparr>q_index := ix1\<rparr>)" "index_ok (?g\<lparr>q_index := ix1\<rparr>) B"
      using record_nodes_ok [of ?g B "B p"] h Cons.prems(1) in_nodes [of _ B p] by auto
    then show ?case using b Cons.IH [of ix1] Cons.prems(2) by simp
  qed auto
  from this [of "q_index g" "0 # sortedIDs g"] show ?thesis using ix by (auto simp: reindex_def sortedIDs_def)
qed

section \<open>The snapshots that are accepted\<close>

definition mentions :: "Symbol list \<Rightarrow> int set" where
  "mentions ss = {q. Some q \<in> ParseRuleRef ` set ss}"

definition bodies :: "Snapshot \<Rightarrow> (int \<times> Symbol list) list" where
  "bodies s = map (\<lambda>r. (ru_ID r, elems (ru_Body r))) (elems (sn_Rules s)) @ [(startRuleID, elems (sn_Sequence s))]"

definition rule_ids :: "Snapshot \<Rightarrow> int list" where
  "rule_ids s = map ru_ID (elems (sn_Rules s))"

text \<open>
  The identifiers ascend from 1, no body is empty, the next identifier is free, every reference resolves, every
  rule is referenced, and the references are well founded.
\<close>

definition valid_snapshot :: "Snapshot \<Rightarrow> bool" where
  "valid_snapshot s \<longleftrightarrow> sorted_wrt (<) (startRuleID # rule_ids s) \<and> (\<forall>r \<in> set (elems (sn_Rules s)). elems (ru_Body r) \<noteq> [])
     \<and> (rule_ids s = [] \<or> last (rule_ids s) < sn_NextID s)
     \<and> (\<forall>(p, ss) \<in> set (bodies s). mentions ss \<subseteq> set (rule_ids s))
     \<and> (\<forall>q \<in> set (rule_ids s). \<exists>(p, ss) \<in> set (bodies s). q \<in> mentions ss)
     \<and> (\<exists>\<rho> :: int \<Rightarrow> nat. \<forall>(p, ss) \<in> set (bodies s). \<forall>q \<in> mentions ss. \<rho> q < \<rho> p)"

definition holds :: "seq \<Rightarrow> (int \<Rightarrow> nat list) \<Rightarrow> Snapshot \<Rightarrow> bool" where
  "holds g B s \<longleftrightarrow> q_byID g = rule_ids s \<and> (\<forall>(p, ss) \<in> set (bodies s). map (encoded g) (B p) = ss)"

definition next_id :: "Snapshot \<Rightarrow> int" where
  "next_id s = (if rule_ids s = [] \<and> sn_NextID s < firstInducedRuleID then firstInducedRuleID else sn_NextID s)"

lemma owners: "fst ` set (bodies s) = insert 0 (set (rule_ids s))"
  by (force simp: bodies_def rule_ids_def)

lemma mentions_encoded:
  assumes "build_inv g B"
  shows "mentions (map (encoded g) (B p)) = {q. \<exists>n \<in> set (B p). q_ref g n = Some q}"
proof -
  have "ParseRuleRef (encoded g n) = q_ref g n" if "n \<in> set (B p)" for n by (rule build_invD(12) [OF assms in_nodes]) (rule that)
  then show ?thesis by (force simp: mentions_def)
qed

lemma holds_mentions:
  assumes "build_inv g B" "holds g B s" "(p, ss) \<in> set (bodies s)"
  shows "q \<in> mentions ss \<longleftrightarrow> (\<exists>n \<in> set (B p). q_ref g n = Some q)"
  using mentions_encoded [OF assms(1), of p] assms(2,3) by (auto simp: holds_def)

lemma holds_owner:
  assumes "build_inv g B" "holds g B s" "n \<in> set (B p)"
  obtains ss where "(p, ss) \<in> set (bodies s)"
proof -
  have "p \<in> insert 0 (live g)" using build_invD(7) [OF assms(1), of p] assms(3) by (cases "p \<in> insert 0 (live g)") auto
  then have "p \<in> fst ` set (bodies s)" using assms(2) by (simp add: owners holds_def)
  then show ?thesis using that by auto
qed

lemma holds_ranks:
  assumes "build_inv g B" "holds g B s"
  shows "(\<forall>(p, ss) \<in> set (bodies s). \<forall>q \<in> mentions ss. \<rho> q < \<rho> p) \<longleftrightarrow> ranks g B \<rho>"
proof
  assume L: "\<forall>(p, ss) \<in> set (bodies s). \<forall>q \<in> mentions ss. \<rho> q < \<rho> p"
  have "\<rho> q < \<rho> p" if n: "n \<in> set (B p)" "q_ref g n = Some q" for p n q
  proof -
    obtain ss where ss: "(p, ss) \<in> set (bodies s)" using holds_owner [OF assms n(1)] .
    then have "q \<in> mentions ss" using holds_mentions [OF assms ss] n by blast
    then show ?thesis using L ss by blast
  qed
  then show "ranks g B \<rho>" by (simp add: ranks_def)
next
  assume "ranks g B \<rho>"
  then show "\<forall>(p, ss) \<in> set (bodies s). \<forall>q \<in> mentions ss. \<rho> q < \<rho> p"
    using holds_mentions [OF assms] by (auto simp: ranks_def)
qed

lemma holds_used:
  assumes "build_inv g B" "holds g B s"
  shows "(\<exists>(p, ss) \<in> set (bodies s). q \<in> mentions ss) \<longleftrightarrow> refs g B q \<noteq> {}"
proof
  assume "\<exists>(p, ss) \<in> set (bodies s). q \<in> mentions ss"
  then obtain p ss where ss: "(p, ss) \<in> set (bodies s)" "q \<in> mentions ss" by blast
  then obtain n where "n \<in> set (B p)" "q_ref g n = Some q" using holds_mentions [OF assms ss(1)] by blast
  then show "refs g B q \<noteq> {}" using in_nodes [of n B p] by (auto simp: refs_def)
next
  assume "refs g B q \<noteq> {}"
  then obtain n p where n: "n \<in> set (B p)" "q_ref g n = Some q" by (auto simp: refs_def nodes_def)
  obtain ss where ss: "(p, ss) \<in> set (bodies s)" using holds_owner [OF assms n(1)] .
  then have "q \<in> mentions ss" using holds_mentions [OF assms ss] n by blast
  then show "\<exists>(p, ss) \<in> set (bodies s). q \<in> mentions ss" using ss by blast
qed

section \<open>The last checks\<close>

lemma uses_check:
  assumes "build_inv g B"
  shows "find (\<lambda>i. q_uses g i = 0) (sortedIDs g) = None \<longleftrightarrow> used g B"
proof -
  have "q_uses g q = 0 \<longleftrightarrow> refs g B q = {}" if "q \<in> live g" for q
    using build_invD(10) [OF assms that] refs_finite [OF build_invD(1) [OF assms], of q] by simp
  then show ?thesis by (auto simp: find_None_iff used_def sortedIDs_def)
qed

lemma built_inv:
  assumes I: "build_inv g B" and R: "ranks g B \<rho>" and U: "used g B" and ne: "\<And>r. r \<in> live g \<Longrightarrow> B r \<noteq> []"
    and nx: "0 < q_nextID g" "\<And>r. r \<in> live g \<Longrightarrow> r < q_nextID g"
  obtains ix W where "reindex g = Some (g\<lparr>q_index := ix\<rparr>)" "grammar_inv (g\<lparr>q_index := ix\<rparr>) B W"
proof -
  obtain W where W: "\<And>r. W r = concat (map (word g W) (B r))" "\<And>r. r \<in> live g \<Longrightarrow> W r \<noteq> []" using words_exist [OF I R ne] by blast
  have "index_ok g B" using build_invD(11) [OF I] by (simp add: index_ok_def)
  then obtain ix where ix: "reindex g = Some (g\<lparr>q_index := ix\<rparr>)" "index_ok (g\<lparr>q_index := ix\<rparr>) B"
    using reindex_ok [OF build_invD(1) [OF I]] build_invD(2,6) [OF I] by auto
  have "gram_ok g B W"
  proof (rule gram_okI)
    show "W r = concat (map (word g W) (B r))" for r by (rule W(1))
    show "q_uses g q = int (card (refs g B q))" if "q \<in> live g" for q by (rule build_invD(10) [OF I that])
  qed (use build_invD(1-9) [OF I] ne nx W(2) in \<open>(simp; fail) | (blast; fail)\<close>)+
  then have "grammar_inv g B W" using R U \<open>index_ok g B\<close> unfolding grammar_inv_def by blast
  from this ix(2) have "grammar_inv (g\<lparr>q_index := ix\<rparr>) B W" by (rule grammar_inv_index)
  with ix(1) show ?thesis by (rule that)
qed

section \<open>Building from a snapshot\<close>

lemma encoded_upd: "encoded (g\<lparr>q_nextID := x\<rparr>) = encoded g" "encoded (g\<lparr>q_index := ix\<rparr>) = encoded g"
  by (simp_all add: encoded_def fun_eq_iff split: option.split)

lemma build_nextID: "build_inv (g\<lparr>q_nextID := x\<rparr>) B = build_inv g B"
  unfolding build_inv_def by (simp add: refs_def encoded_upd)

lemma mint_rules_clear:
  "case mint_rules 0 startRuleID (elems (sn_Rules s)) clear of
      Inl e \<Rightarrow> \<not> (sorted_wrt (<) (startRuleID # rule_ids s) \<and> (\<forall>r \<in> set (elems (sn_Rules s)). elems (ru_Body r) \<noteq> []))
    | Inr (prev, g) \<Rightarrow> sorted_wrt (<) (startRuleID # rule_ids s) \<and> (\<forall>r \<in> set (elems (sn_Rules s)). elems (ru_Body r) \<noteq> [])
        \<and> prev = last (startRuleID # rule_ids s) \<and> build_inv g (\<lambda>_. []) \<and> q_byID g = rule_ids s"
proof -
  have "q_byID clear = []" by (simp add: clear_def newGuard_def newNode_def Let_def)
  then show ?thesis using mint_rules_ok [OF clear_build, of 0 0 "elems (sn_Rules s)"]
    unfolding rule_ids_def by (cases "mint_rules 0 0 (elems (sn_Rules s)) clear") auto
qed

lemma fill_bodies_ok:
  assumes "build_inv g (\<lambda>_. [])" "sorted_wrt (<) (0 # rule_ids s)" "q_byID g = rule_ids s"
  obtains (error) e where "fill_rules (bodies s) g = Some (Inl e)" "\<not> (\<forall>(p, ss) \<in> set (bodies s). mentions ss \<subseteq> set (rule_ids s))"
    | (filled) g' B where "fill_rules (bodies s) g = Some (Inr g')" "build_inv g' B" "holds g' B s" "q_nextID g' = q_nextID g"
        "\<forall>(p, ss) \<in> set (bodies s). mentions ss \<subseteq> set (rule_ids s)"
proof -
  have "distinct (0 # rule_ids s)" using assms(2) unfolding strict_sorted_iff by simp
  moreover have "map fst (bodies s) = rule_ids s @ [0]" by (simp add: bodies_def rule_ids_def)
  ultimately have d: "distinct (map fst (bodies s))" by simp
  have o: "fst ` set (bodies s) \<subseteq> insert 0 (live g)" using assms(3) by (simp add: owners)
  have "\<exists>res. fill_rules (bodies s) g = Some res \<and> (case res of
      Inl e \<Rightarrow> \<exists>(p, ss) \<in> set (bodies s). \<exists>s \<in> set ss. \<exists>i. ParseRuleRef s = Some i \<and> i \<notin> live g
    | Inr g' \<Rightarrow> \<exists>B'. build_inv g' B' \<and> kept g (\<lambda>_. []) g' \<and> (\<forall>(p, ss) \<in> set (bodies s). map (encoded g') (B' p) = ss)
        \<and> (\<forall>p. p \<notin> fst ` set (bodies s) \<longrightarrow> B' p = []) \<and> nodes (\<lambda>_. []) \<subseteq> nodes B')"
    using fill_rules_ok [OF assms(1) o d] by simp
  then obtain res where res: "fill_rules (bodies s) g = Some res" "case res of
      Inl e \<Rightarrow> \<exists>(p, ss) \<in> set (bodies s). \<exists>s \<in> set ss. \<exists>i. ParseRuleRef s = Some i \<and> i \<notin> live g
    | Inr g' \<Rightarrow> \<exists>B'. build_inv g' B' \<and> kept g (\<lambda>_. []) g' \<and> (\<forall>(p, ss) \<in> set (bodies s). map (encoded g') (B' p) = ss)
        \<and> (\<forall>p. p \<notin> fst ` set (bodies s) \<longrightarrow> B' p = []) \<and> nodes (\<lambda>_. []) \<subseteq> nodes B'" by blast
  show ?thesis
  proof (cases res)
    case (Inl e)
    then obtain p ss x i where "(p, ss) \<in> set (bodies s)" "x \<in> set ss" "ParseRuleRef x = Some i" "i \<notin> live g" using res(2) by auto
    moreover from this have "i \<in> mentions ss" by (force simp: mentions_def)
    ultimately have "\<not> (\<forall>(p, ss) \<in> set (bodies s). mentions ss \<subseteq> set (rule_ids s))" using assms(3) by auto
    then show ?thesis using error res(1) Inl by blast
  next
    case (Inr g')
    then obtain B where B: "build_inv g' B" "kept g (\<lambda>_. []) g'" "\<forall>(p, ss) \<in> set (bodies s). map (encoded g') (B p) = ss" using res(2) by auto
    then have H: "holds g' B s" and n: "q_nextID g' = q_nextID g" and lv: "live g' = set (rule_ids s)" using assms(3) by (simp_all add: holds_def kept_def)
    have "mentions ss \<subseteq> set (rule_ids s)" if "(p, ss) \<in> set (bodies s)" for p ss
      using holds_mentions [OF B(1) H that] build_invD(8) [OF B(1) in_nodes] unfolding lv by blast
    then show ?thesis using filled res(1) Inr B(1) H n by blast
  qed
qed

text \<open>It always returns: an error exactly on the snapshots that are not valid, and otherwise a grammar with the invariant.\<close>

lemma ascending_last: "sorted_wrt (<) xs \<Longrightarrow> x \<in> set xs \<Longrightarrow> x \<le> (last xs :: int)"
  by (induction xs) (auto simp: less_imp_le)

lemma checks_ok:
  assumes I: "build_inv g B" and H: "holds g B s" and n: "q_nextID g = next_id s" and s: "sorted_wrt (<) (0 # rule_ids s)"
    and ne: "\<forall>r \<in> set (elems (sn_Rules s)). elems (ru_Body r) \<noteq> []" and nx: "rule_ids s = [] \<or> last (rule_ids s) < sn_NextID s"
    and m: "\<forall>(p, ss) \<in> set (bodies s). mentions ss \<subseteq> set (rule_ids s)"
  obtains (unused) i where "find (\<lambda>i. q_uses g i = 0) (sortedIDs g) = Some i" "\<not> valid_snapshot s"
    | (cyclic) i where "find (\<lambda>i. q_uses g i = 0) (sortedIDs g) = None" "findCycle g = Some (Some i)" "\<not> valid_snapshot s"
    | (good) ix W where "find (\<lambda>i. q_uses g i = 0) (sortedIDs g) = None" "findCycle g = Some None" "reindex g = Some (g\<lparr>q_index := ix\<rparr>)"
        "valid_snapshot s" "grammar_inv (g\<lparr>q_index := ix\<rparr>) B W"
proof -
  have V: "valid_snapshot s \<longleftrightarrow> used g B \<and> (\<exists>\<rho>. ranks g B \<rho>)"
    using s ne nx m H unfolding valid_snapshot_def used_def holds_used [OF I H] holds_ranks [OF I H] by (simp add: holds_def)
  obtain c where c: "findCycle g = Some c" "c = None \<longleftrightarrow> (\<exists>\<rho>. ranks g B \<rho>)" using findCycle_ok [OF I] by blast
  show ?thesis
  proof (cases "used g B \<and> c = None")
    case False
    then have "\<not> valid_snapshot s" using V c(2) by blast
    then show ?thesis using False uses_check [OF I] unused cyclic c(1) by (cases "used g B"; cases c; fastforce)
  next
    case True
    then obtain \<rho> where \<rho>: "ranks g B \<rho>" using c(2) by blast
    have lv: "live g = set (rule_ids s)" using H by (simp add: holds_def)
    have B: "B r \<noteq> []" if r: "r \<in> live g" for r
    proof -
      have "r \<in> ru_ID ` set (elems (sn_Rules s))" using r by (simp add: lv rule_ids_def)
      then obtain v where v: "v \<in> set (elems (sn_Rules s))" "ru_ID v = r" by blast
      then have "(r, elems (ru_Body v)) \<in> set (bodies s)" by (auto simp: bodies_def)
      then have "map (encoded g) (B r) = elems (ru_Body v)" using H by (auto simp: holds_def)
      then show ?thesis using ne v(1) by force
    qed
    have "r \<le> last (rule_ids s)" if "r \<in> set (rule_ids s)" for r
      using that s by (simp add: ascending_last)
    then have N: "r < q_nextID g" if "r \<in> live g" for r
      using that n nx unfolding next_id_def lv by fastforce
    have "0 < last (rule_ids s)" if "rule_ids s \<noteq> []" using that s by simp
    then have "0 < q_nextID g" using n nx by (auto simp: next_id_def)
    from this N have N: "0 < q_nextID g" "\<And>r. r \<in> live g \<Longrightarrow> r < q_nextID g" .
    have U: "used g B" using True by simp
    obtain ix W where ix: "reindex g = Some (g\<lparr>q_index := ix\<rparr>)" "grammar_inv (g\<lparr>q_index := ix\<rparr>) B W"
      by (rule built_inv [OF I \<rho> U B N])
    have "valid_snapshot s" using V U \<rho> by blast
    moreover have "find (\<lambda>i. q_uses g i = 0) (sortedIDs g) = None" using uses_check [OF I] U by simp
    ultimately show ?thesis using good True c(1) ix by blast
  qed
qed

theorem build_ok:
  "case buildFromSnapshot s of
     None \<Rightarrow> False
   | Some (Inl e) \<Rightarrow> \<not> valid_snapshot s
   | Some (Inr g) \<Rightarrow> valid_snapshot s \<and> q_nextID g = next_id s
       \<and> (\<exists>B W. grammar_inv g B W \<and> holds g B s \<and> (\<forall>n \<in> nodes B. ParseRuleRef (encoded g n) = q_ref g n))"
proof -
  let ?rules = "elems (sn_Rules s)"
  have e: "?rules = [] \<longleftrightarrow> rule_ids s = []" by (simp add: rule_ids_def)
  have b: "map (\<lambda>r. (ru_ID r, elems (ru_Body r))) ?rules @ [(0, elems (sn_Sequence s))] = bodies s" by (simp add: bodies_def)
  show ?thesis
  proof (cases "mint_rules 0 0 ?rules clear")
    case (Inl e)
    then show ?thesis using mint_rules_clear [of s] by (auto simp: buildFromSnapshot_def valid_snapshot_def Let_def)
  next
    case (Inr pg)
    obtain prev g where pg: "pg = (prev, g)" by fastforce
    have m: "sorted_wrt (<) (0 # rule_ids s)" "\<forall>r \<in> set ?rules. elems (ru_Body r) \<noteq> []" "prev = last (0 # rule_ids s)"
      "build_inv g (\<lambda>_. [])" "q_byID g = rule_ids s"
      using mint_rules_clear [of s] Inr by (simp_all add: pg)
    show ?thesis
    proof (cases "rule_ids s = [] \<or> last (rule_ids s) < sn_NextID s")
      case False
      then show ?thesis using Inr m(3) by (auto simp: buildFromSnapshot_def valid_snapshot_def Let_def pg e)
    next
      case True
      let ?g = "g\<lparr>q_nextID := next_id s\<rparr>"
      have build: "buildFromSnapshot s = do { res \<leftarrow> fill_rules (bodies s) ?g;
          case res of Inl e \<Rightarrow> Some (Inl e)
          | Inr g \<Rightarrow> (case find (\<lambda>i. q_uses g i = 0) (sortedIDs g) of
              Some i \<Rightarrow> Some (Inl (Unreferenced i))
            | None \<Rightarrow> do { c \<leftarrow> findCycle g; case c of Some i \<Rightarrow> Some (Inl (ReferenceCycle i)) | None \<Rightarrow> map_option Inr (reindex g) }) }"
        using Inr True m(3) unfolding buildFromSnapshot_def Let_def pg b e next_id_def by auto
      have I: "build_inv ?g (\<lambda>_. [])" "q_byID ?g = rule_ids s" using m(4,5) by (simp_all add: build_nextID)
      from I(1) m(1) I(2) show ?thesis
      proof (cases rule: fill_bodies_ok)
        case (error e)
        then show ?thesis by (auto simp: build valid_snapshot_def)
      next
        case (filled g' B)
        have "q_nextID g' = next_id s" using filled(4) by simp
        from filled(2,3) this m(1,2) True filled(5) show ?thesis
        proof (cases rule: checks_ok)
          case (good ix W)
          have "ParseRuleRef (encoded g' n) = q_ref g' n" if "n \<in> nodes B" for n by (rule build_invD(12) [OF filled(2) that])
          moreover have "holds (g'\<lparr>q_index := ix\<rparr>) B s" using filled(3) by (simp add: holds_def encoded_upd)
          ultimately show ?thesis using good filled(1,4) by (auto simp: build encoded_upd)
        qed (use filled(1) in \<open>simp_all add: build\<close>)
      qed
    qed
  qed
qed

end
