(* ===== verification/SequiturRoundtrip.thy ===== *)
theory SequiturRoundtrip
  imports SequiturReload
begin

text \<open>
  What a reader sees.  A grammar whose terminals do not look like references is determined, to its
  readers, by its encoded bodies: words, use counts and therefore the snapshot.  Hence the rules expand to
  the stream they were induced from, and a grammar read back from its own bytes has the same snapshot.
\<close>

section \<open>Words are parts of the stream\<close>

definition readable :: "seq \<Rightarrow> (int \<Rightarrow> nat list) \<Rightarrow> bool" where
  "readable g B \<longleftrightarrow> (\<forall>n \<in> nodes B. ParseRuleRef (encoded g n) = q_ref g n)"

lemma word_part:
  assumes "n \<in> set ns"
  obtains us vs where "concat (map (word g W) ns) = us @ word g W n @ vs"
proof -
  obtain xs ys where "ns = xs @ n # ys" using assms by (auto dest: split_list)
  then show ?thesis using that [of "concat (map (word g W) xs)" "concat (map (word g W) ys)"] by simp
qed

lemma word_within:
  assumes I: "grammar_inv g B W" and "r \<in> insert 0 (live g)"
  shows "\<exists>us vs. W 0 = us @ W r @ vs"
proof -
  obtain \<rho> where G: "gram_ok g B W" and R: "ranks g B \<rho>" and U: "used g B" using I by (auto simp: grammar_inv_def)
  let ?m = "Max (\<rho> ` insert 0 (live g))"
  have m: "\<rho> q \<le> ?m" if "q \<in> insert 0 (live g)" for q by (rule Max_ge) (use that in auto)
  show ?thesis using assms(2)
  proof (induction "?m - \<rho> r" arbitrary: r rule: less_induct)
    case less
    show ?case
    proof (cases "r = 0")
      case True
      then show ?thesis by (intro exI [of _ "[]"]) simp
    next
      case False
      then obtain n p where n: "n \<in> set (B p)" "q_ref g n = Some r" using U less.prems unfolding used_def refs_def nodes_def by blast
      have p: "p \<in> insert 0 (live g)" by (rule owner [OF G n(1)])
      have "\<rho> r < \<rho> p" using R n unfolding ranks_def by blast
      then have "?m - \<rho> p < ?m - \<rho> r" using m [OF p] by simp
      from less.hyps [OF this p] obtain us vs where 0: "W 0 = us @ W p @ vs" by blast
      obtain us' vs' where "concat (map (word g W) (B p)) = us' @ word g W n @ vs'" using word_part [OF n(1)] .
      then have "W p = us' @ W r @ vs'" using gram_okD(14) [OF G p] n(2) by (simp add: word_def)
      then have "W 0 = (us @ us') @ W r @ (vs' @ vs)" using 0 by simp
      then show ?thesis by blast
    qed
  qed
qed

lemma terminal_within:
  assumes I: "grammar_inv g B W" and n: "n \<in> nodes B" "q_ref g n = None"
  shows "q_val g n \<in> set (W 0)"
proof -
  have G: "gram_ok g B W" using I by (simp add: grammar_inv_def)
  obtain p where p: "n \<in> set (B p)" using n(1) by (auto simp: nodes_def)
  obtain us vs where 1: "concat (map (word g W) (B p)) = us @ word g W n @ vs" using word_part [OF p] .
  obtain us' vs' where 0: "W 0 = us' @ W p @ vs'" using word_within [OF I owner [OF G p]] by blast
  have "W p = us @ [q_val g n] @ vs" using 1 gram_okD(14) [OF G owner [OF G p]] n(2) by (simp add: word_def)
  then show ?thesis using 0 by simp
qed

lemma stream_readable:
  assumes I: "grammar_inv g B W" and s: "\<forall>s \<in> set (W 0). ParseRuleRef s = None" and n: "q_nextID g \<le> 2 ^ 63"
  shows "readable g B"
  unfolding readable_def
proof
  fix x assume x: "x \<in> nodes B"
  have G: "gram_ok g B W" using I by (simp add: grammar_inv_def)
  show "ParseRuleRef (encoded g x) = q_ref g x"
  proof (cases "q_ref g x")
    case None
    then show ?thesis using terminal_within [OF I x] s by (simp add: encoded_def)
  next
    case (Some q)
    then have "0 < q" "q < 2 ^ 63" using gram_okD(6,7) [OF G, of q] gram_okD(12) [OF G x, of q] n by auto
    then show ?thesis using ParseRuleRef_RuleRef [of q] Some by (simp add: encoded_def)
  qed
qed

section \<open>Reading words and counts off the encoded bodies\<close>

definition read_word :: "(int \<Rightarrow> Symbol list) \<Rightarrow> Symbol \<Rightarrow> Symbol list" where
  "read_word W s = (case ParseRuleRef s of Some q \<Rightarrow> W q | None \<Rightarrow> [s])"

lemma word_read:
  assumes "readable g B" "n \<in> nodes B"
  shows "word g W n = read_word W (encoded g n)"
proof -
  have "ParseRuleRef (encoded g n) = q_ref g n" using assms by (simp add: readable_def)
  then show ?thesis by (simp add: read_word_def word_def encoded_def split: option.split)
qed

lemma body_read:
  assumes G: "gram_ok g B W" and r: "readable g B" and p: "p \<in> insert 0 (live g)"
  shows "W p = concat (map (read_word W) (map (encoded g) (B p)))"
proof -
  have "map (word g W) (B p) = map (read_word W) (map (encoded g) (B p))" using word_read [OF r in_nodes] by simp
  then show ?thesis using gram_okD(14) [OF G p] by (simp only:)
qed

definition mention_count :: "int \<Rightarrow> Symbol list \<Rightarrow> nat" where
  "mention_count q ss = length (filter (\<lambda>s. ParseRuleRef s = Some q) ss)"

lemma count_nodes:
  assumes G: "gram_ok g B W"
  shows "card {n \<in> nodes B. P n} = (\<Sum>p \<leftarrow> 0 # q_byID g. length (filter P (B p)))"
proof -
  note h = gram_okD(1) [OF G]
  have m: "card {n \<in> set (B p). P n} = length (filter P (B p))" for p
  proof -
    have "distinct (B p)" using heap_ok_body [OF h, of p] by (cases "B p = []") (auto simp: body_ok_def)
    then have "card (set (filter P (B p))) = length (filter P (B p))" by (intro distinct_card) simp
    then show ?thesis by simp
  qed
  have "{n \<in> nodes B. P n} = (\<Union>p \<in> insert 0 (live g). {n \<in> set (B p). P n})"
    using owner [OF G] by (auto simp: nodes_def)
  then have "card {n \<in> nodes B. P n} = (\<Sum>p \<in> insert 0 (live g). card {n \<in> set (B p). P n})"
    using heap_okD(3) [OF h] by (simp only:) (rule card_UN_disjoint; auto)
  also have "\<dots> = (\<Sum>p \<in> set (0 # q_byID g). length (filter P (B p)))" by (simp add: m)
  also have "\<dots> = (\<Sum>p \<leftarrow> 0 # q_byID g. length (filter P (B p)))"
    using gram_okD(4,6) [OF G] by (intro sum.distinct_set_conv_list) auto
  finally show ?thesis .
qed

lemma refs_read:
  assumes G: "gram_ok g B W" and r: "readable g B"
  shows "card (refs g B q) = (\<Sum>p \<leftarrow> 0 # q_byID g. mention_count q (map (encoded g) (B p)))"
proof -
  have "length (filter (\<lambda>n. q_ref g n = Some q) (B p)) = mention_count q (map (encoded g) (B p))" for p
  proof -
    have "filter (\<lambda>n. ParseRuleRef (encoded g n) = Some q) (B p) = filter (\<lambda>n. q_ref g n = Some q) (B p)"
      using r in_nodes [of _ B p] by (intro filter_cong) (auto simp: readable_def)
    then show ?thesis by (simp add: mention_count_def filter_map o_def)
  qed
  then show ?thesis by (simp add: refs_def count_nodes [OF G])
qed

section \<open>The snapshot is determined by the encoded bodies\<close>

lemma words_determined:
  assumes I: "grammar_inv g B W" and r: "readable g B" and I': "grammar_inv g' B' W'" and r': "readable g' B'"
    and ids: "q_byID g' = q_byID g" and bd: "\<And>p. p \<in> insert 0 (live g) \<Longrightarrow> map (encoded g') (B' p) = map (encoded g) (B p)"
  shows "p \<in> insert 0 (live g) \<Longrightarrow> W' p = W p"
proof -
  obtain \<rho> where G: "gram_ok g B W" and R: "ranks g B \<rho>" using I by (auto simp: grammar_inv_def)
  have G': "gram_ok g' B' W'" using I' by (simp add: grammar_inv_def)
  show "p \<in> insert 0 (live g) \<Longrightarrow> W' p = W p"
  proof (induction "\<rho> p" arbitrary: p rule: less_induct)
    case less
    have "read_word W' (encoded g n) = read_word W (encoded g n)" if n: "n \<in> set (B p)" for n
    proof -
      have nB: "n \<in> nodes B" using n by (rule in_nodes)
      have e: "ParseRuleRef (encoded g n) = q_ref g n" using r nB by (simp add: readable_def)
      show ?thesis
      proof (cases "q_ref g n")
        case (Some q)
        have "q \<in> live g" by (rule gram_okD(12) [OF G nB Some])
        moreover have "\<rho> q < \<rho> p" using R n Some unfolding ranks_def by blast
        ultimately show ?thesis using less.hyps [of q] Some by (simp add: read_word_def e)
      qed (simp add: read_word_def e)
    qed
    then have "map (read_word W') (map (encoded g) (B p)) = map (read_word W) (map (encoded g) (B p))" by simp
    moreover have "W' p = concat (map (read_word W') (map (encoded g) (B p)))"
      using body_read [OF G' r', of p] ids bd [OF less.prems] less.prems by simp
    ultimately show ?case using body_read [OF G r less.prems] by (simp only:)
  qed
qed

lemma snapshot_eq:
  assumes I: "grammar_inv g B W"
  shows "Snapshot_of g = Some \<lparr>sn_Rules = slice_of (map (view_of g B W) (q_byID g)), sn_Sequence = slice_of (map (encoded g) (B 0)), sn_NextID = q_nextID g\<rparr>"
proof -
  obtain \<rho> where G: "gram_ok g B W" and R: "ranks g B \<rho>" using I by (auto simp: grammar_inv_def)
  show ?thesis by (simp add: Snapshot_of_def snapshotRules_eq [OF G R] Compressed_eq [OF G])
qed

lemma snapshot_determined:
  assumes I: "grammar_inv g B W" and r: "readable g B" and I': "grammar_inv g' B' W'" and r': "readable g' B'"
    and ids: "q_byID g' = q_byID g" and bd: "\<And>p. p \<in> insert 0 (live g) \<Longrightarrow> map (encoded g') (B' p) = map (encoded g) (B p)"
    and nx: "q_nextID g' = q_nextID g"
  shows "Snapshot_of g' = Snapshot_of g"
proof -
  have G: "gram_ok g B W" "gram_ok g' B' W'" using I I' by (simp_all add: grammar_inv_def)
  have "map (\<lambda>p. mention_count q (map (encoded g') (B' p))) (0 # q_byID g) = map (\<lambda>p. mention_count q (map (encoded g) (B p))) (0 # q_byID g)" for q
    by (rule map_cong [OF refl]) (use bd in auto)
  then have c: "card (refs g' B' q) = card (refs g B q)" for q
    unfolding refs_read [OF G(1) r] refs_read [OF G(2) r'] ids by (simp only:)
  have "view_of g' B' W' p = view_of g B W p" if "p \<in> live g" for p
    using words_determined [OF I r I' r' ids bd, of p] bd [of p] c that by (simp add: view_of_def)
  then have "map (view_of g' B' W') (q_byID g) = map (view_of g B W) (q_byID g)" by simp
  then show ?thesis using bd [of 0] by (simp add: snapshot_eq [OF I] snapshot_eq [OF I'] ids nx del: map_eq_conv)
qed

lemma size_determined:
  assumes G: "gram_ok g B W" "gram_ok g' B' W'"
    and ids: "q_byID g' = q_byID g" and bd: "\<And>p. p \<in> insert 0 (live g) \<Longrightarrow> map (encoded g') (B' p) = map (encoded g) (B p)"
  shows "mu g' B' = mu g B"
proof -
  have "map (\<lambda>p. length (B' p)) (0 # q_byID g) = map (\<lambda>p. length (B p)) (0 # q_byID g)"
    by (rule map_cong [OF refl]) (use bd map_eq_imp_length_eq in \<open>metis list.simps(15)\<close>)
  then have "card (nodes B') = card (nodes B)"
    using count_nodes [OF G(1), of "\<lambda>_. True"] count_nodes [OF G(2), of "\<lambda>_. True"] unfolding ids by (simp del: map_eq_conv)
  then show ?thesis by (simp add: mu_def ids)
qed

section \<open>Restoring a snapshot\<close>

lemma inv_build:
  assumes I: "grammar_inv g B W" and r: "readable g B"
  shows "build_inv (g\<lparr>q_index := \<lambda>_. None\<rparr>) B"
proof -
  have G: "gram_ok g B W" using I by (simp add: grammar_inv_def)
  show ?thesis
    by (rule build_invI) (use gram_okD(1-8,11-13,15) [OF G] r in \<open>auto simp: readable_def encoded_upd\<close>)
qed

lemma snapshot_holds:
  assumes I: "grammar_inv g B W" and s: "Snapshot_of g = Some s"
  shows "rule_ids s = q_byID g" "holds g B s" "sn_NextID s = q_nextID g" "p \<in> insert 0 (live g) \<Longrightarrow> (p, map (encoded g) (B p)) \<in> set (bodies s)"
proof -
  have s: "s = \<lparr>sn_Rules = slice_of (map (view_of g B W) (q_byID g)), sn_Sequence = slice_of (map (encoded g) (B 0)), sn_NextID = q_nextID g\<rparr>"
    using snapshot_eq [OF I] s by simp
  show i: "rule_ids s = q_byID g" by (simp add: s rule_ids_def view_of_def o_def)
  show "holds g B s" unfolding holds_def i by (auto simp: s bodies_def view_of_def)
  show "sn_NextID s = q_nextID g" by (simp add: s)
  show "p \<in> insert 0 (live g) \<Longrightarrow> (p, map (encoded g) (B p)) \<in> set (bodies s)" by (auto simp: s bodies_def view_of_def)
qed

lemma snapshot_valid:
  assumes I: "grammar_inv g B W" and r: "readable g B" and s: "Snapshot_of g = Some s"
  shows "valid_snapshot s"
proof -
  obtain \<rho> where G: "gram_ok g B W" and R: "ranks g B \<rho>" and U: "used g B" using I by (auto simp: grammar_inv_def)
  let ?g = "g\<lparr>q_index := \<lambda>_. None\<rparr>"
  note b = inv_build [OF I r] and h = snapshot_holds [OF I s]
  have H: "holds ?g B s" using h(2) by (simp add: holds_def encoded_upd)
  have "elems (ru_Body v) \<noteq> []" if v: "v \<in> set (elems (sn_Rules s))" for v
  proof -
    have "(ru_ID v, elems (ru_Body v)) \<in> set (bodies s)" using v by (auto simp: bodies_def)
    then have "elems (ru_Body v) = map (encoded g) (B (ru_ID v))" using h(2) by (auto simp: holds_def)
    moreover have "ru_ID v \<in> live g" using v unfolding h(1) [symmetric] by (simp add: rule_ids_def)
    ultimately show ?thesis using gram_okD(9) [OF G] by simp
  qed
  moreover have "sorted_wrt (<) (0 # rule_ids s)" using gram_okD(3,4,6) [OF G] by (simp add: h(1) strict_sorted_iff)
  moreover have "rule_ids s = [] \<or> last (rule_ids s) < sn_NextID s" using gram_okD(7) [OF G, of "last (q_byID g)"] by (cases "q_byID g = []") (simp_all add: h(1,3))
  moreover have "mentions ss \<subseteq> set (rule_ids s)" if "(p, ss) \<in> set (bodies s)" for p ss
    using holds_mentions [OF b H that] build_invD(8) [OF b in_nodes] by (auto simp: h(1))
  moreover have "\<exists>(p, ss) \<in> set (bodies s). q \<in> mentions ss" if "q \<in> set (rule_ids s)" for q
    using holds_used [OF b H] U that by (simp add: used_def h(1))
  moreover have "\<forall>(p, ss) \<in> set (bodies s). \<forall>q \<in> mentions ss. \<rho> q < \<rho> p" using holds_ranks [OF b H, of \<rho>] R by simp
  ultimately show ?thesis unfolding valid_snapshot_def by blast
qed

lemma restore_snapshot:
  assumes I: "grammar_inv g B W" and r: "readable g B" and s: "Snapshot_of g = Some s"
  obtains g' B' W' where "buildFromSnapshot s = Some (Inr g')" "grammar_inv g' B' W'" "readable g' B'" "Snapshot_of g' = Some s" "W' 0 = W 0"
    "q_nextID g' = q_nextID g" "mu g' B' = mu g B"
proof -
  note v = snapshot_valid [OF assms] and h = snapshot_holds [OF I s]
  obtain g' B' W' where g': "buildFromSnapshot s = Some (Inr g')" "q_nextID g' = next_id s" "grammar_inv g' B' W'" "holds g' B' s" "readable g' B'"
    using build_ok [of s] v by (auto simp: readable_def split: option.splits sum.splits)
  have ids: "q_byID g' = q_byID g" using g'(4) h(1) by (simp add: holds_def)
  have bd: "map (encoded g') (B' p) = map (encoded g) (B p)" if "p \<in> insert 0 (live g)" for p
    using h(4) [OF that] g'(4) by (auto simp: holds_def)
  have "0 < q_nextID g" using I gram_okD(5) by (auto simp: grammar_inv_def)
  then have nx: "q_nextID g' = q_nextID g" using g'(2) h(3) by (simp add: next_id_def)
  have "Snapshot_of g' = Some s" using snapshot_determined [OF I r g'(3,5) ids bd nx] s by simp
  moreover have "W' 0 = W 0" by (rule words_determined [OF I r g'(3,5) ids bd]) simp_all
  moreover have "mu g' B' = mu g B" by (rule size_determined [OF _ _ ids bd]) (use I g'(3) in \<open>auto simp: grammar_inv_def\<close>)
  ultimately show ?thesis using g'(1,3,5) nx that by blast
qed

end
