(* ===== verification/GrammarProps.thy ===== *)
theory GrammarProps
  imports SequiturRoundtrip
begin

text \<open>The properties of the grammar analyzer.\<close>

section \<open>Reading a stream off the rules\<close>

definition unfold_symbol :: "Rule list \<Rightarrow> Symbol \<Rightarrow> Symbol list" where
  "unfold_symbol rs s =
     (case ParseRuleRef s of
        None \<Rightarrow> [s]
      | Some i \<Rightarrow> (case find (\<lambda>r. ru_ID r = i) rs of None \<Rightarrow> [] | Some r \<Rightarrow> elems (ru_Expansion r)))"

definition unfold_body :: "Rule list \<Rightarrow> Symbol slice \<Rightarrow> Symbol list" where
  "unfold_body rs body = concat (map (unfold_symbol rs) (elems body))"

text \<open>A stream with no symbol in the spelling reserved for references, short enough for the identifiers.\<close>

definition stream_ok :: "Symbol list \<Rightarrow> bool" where
  "stream_ok ss \<longleftrightarrow> (\<forall>s \<in> set ss. ParseRuleRef s = None) \<and> length ss < 2 ^ 61"

lemma find_view: "i \<in> set ids \<Longrightarrow> find (\<lambda>r. ru_ID r = i) (map (view_of g B W) ids) = Some (view_of g B W i)"
  by (induction ids) (auto simp: view_of_def)

lemma unfold_symbol_read:
  assumes G: "gram_ok g B W" and r: "readable g B" and n: "n \<in> nodes B"
  shows "unfold_symbol (map (view_of g B W) (q_byID g)) (encoded g n) = read_word W (encoded g n)"
proof -
  have "ParseRuleRef (encoded g n) = q_ref g n" using r n by (simp add: readable_def)
  then show ?thesis using gram_okD(12) [OF G n] find_view [where ids = "q_byID g"]
    by (auto simp: unfold_symbol_def read_word_def view_of_def split: option.split)
qed

lemma unfold_body_read:
  assumes G: "gram_ok g B W" and r: "readable g B" and p: "p \<in> insert 0 (live g)"
  shows "unfold_body (map (view_of g B W) (q_byID g)) (slice_of (map (encoded g) (B p))) = W p"
proof -
  have "map (unfold_symbol (map (view_of g B W) (q_byID g))) (map (encoded g) (B p)) = map (read_word W) (map (encoded g) (B p))"
    using unfold_symbol_read [OF G r in_nodes] by simp
  then show ?thesis using body_read [OF G r p] by (simp only: unfold_body_def elems_slice_of)
qed

text \<open>A grammar that stands for a stream: from the empty one by appending, or restored from such a grammar.\<close>

definition stands_for :: "seq \<Rightarrow> (int \<Rightarrow> nat list) \<Rightarrow> (int \<Rightarrow> Symbol list) \<Rightarrow> bool" where
  "stands_for g B W \<longleftrightarrow> grammar_inv g B W \<and> readable g B \<and> q_nextID g + mu g B \<le> 1 + 2 * int (length (W 0))"

lemma append_stands_for:
  assumes S: "stands_for g B W" and ok: "stream_ok (W 0 @ ss)"
  obtains g' B' W' where "append_all ss g = Some g'" "stands_for g' B' W'" "W' 0 = W 0 @ ss"
    "(\<forall>r \<in> live g. 2 \<le> q_uses g r) \<longrightarrow> (\<forall>r \<in> live g'. 2 \<le> q_uses g' r)"
proof -
  have I: "grammar_inv g B W" and l: "q_nextID g + mu g B \<le> 1 + 2 * int (length (W 0))" using S by (simp_all add: stands_for_def)
  obtain g' B' W' where g: "append_all ss g = Some g'" "grammar_inv g' B' W'" "W' 0 = W 0 @ ss" "q_nextID g' + mu g' B' \<le> q_nextID g + mu g B + 2 * int (length ss)"
    "(\<forall>r \<in> live g. 2 \<le> q_uses g r) \<or> ss \<noteq> [] \<longrightarrow> (\<forall>r \<in> live g'. 2 \<le> q_uses g' r)"
    using append_all_ok [OF I, of ss] by blast
  have n: "q_nextID g' + mu g' B' \<le> 1 + 2 * int (length (W' 0))" using l g(3,4) by simp
  have "0 \<le> mu g' B'" using g(2) mu_bounds(1) [of g' B' W'] by (auto simp: grammar_inv_def)
  then have "q_nextID g' \<le> 2 ^ 63" using n ok g(3) by (simp add: stream_ok_def)
  then have "readable g' B'" using stream_readable [OF g(2)] ok g(3) by (simp add: stream_ok_def)
  then show ?thesis using g n that by (simp add: stands_for_def)
qed

lemma clear_stands_for: "stands_for clear (\<lambda>_. []) (\<lambda>_. [])"
proof -
  have "q_nextID clear = 1" "mu clear (\<lambda>_. []) = 0" by (simp_all add: clear_def newGuard_def newNode_def Let_def mu_def nodes_def)
  then show ?thesis using clear_ok by (simp add: stands_for_def readable_def nodes_def)
qed

lemma stream_inv:
  assumes "stream_ok ss"
  obtains g B W where "append_all ss clear = Some g" "stands_for g B W" "W 0 = ss" "\<forall>r \<in> live g. 2 \<le> q_uses g r"
proof -
  have "q_byID clear = []" by (simp add: clear_def newGuard_def newNode_def Let_def)
  then show ?thesis using append_stands_for [OF clear_stands_for, of ss] assms that by auto
qed

lemma stands_for_views:
  assumes "stands_for g B W"
  obtains rs c where "Rules g = Some rs" "Compressed g = Some c" "unfold_body (elems rs) c = W 0"
    "list_all (\<lambda>r. unfold_body (elems rs) (ru_Body r) = elems (ru_Expansion r)) (elems rs)"
proof -
  obtain \<rho> where G: "gram_ok g B W" and R: "ranks g B \<rho>" and r: "readable g B" using assms by (auto simp: stands_for_def grammar_inv_def)
  have "unfold_body (map (view_of g B W) (q_byID g)) (ru_Body (view_of g B W q)) = elems (ru_Expansion (view_of g B W q))" if "q \<in> live g" for q
    using unfold_body_read [OF G r, of q] that by (simp add: view_of_def)
  then show ?thesis using unfold_body_read [OF G r, of 0]
    by (intro that [of "slice_of (map (view_of g B W) (q_byID g))" "slice_of (map (encoded g) (B 0))"])
      (simp_all add: Rules_def snapshotRules_eq [OF G R] Compressed_eq [OF G] list_all_iff)
qed

section \<open>Two streams run through the model\<close>

lemmas run_simps = append_all.simps Append_def newNode_def newGuard_def clear_def insertAfter_def link_def Let_def check_with_def digramAt_def
  node_key_def check.simps enforceRuleUtility.simps match_digram_def whole_rule_def substitute_def dropDigram_def unlinkNode_def drop_ref_def
  add_uses_def expandRef_def newRule_def copyOf_def setDigram_def lit_def body_nodes_def bodyOf_def encoded_def slice_of_def

definition abab :: "Symbol list" where "abab = [lit ''a'', lit ''b'', lit ''a'', lit ''b'']"

definition abab_snapshot :: Snapshot where
  "abab_snapshot = \<lparr>sn_Rules = Some [\<lparr>ru_ID = 1, ru_Body = Some [lit ''a'', lit ''b''], ru_Uses = 2, ru_Expansion = Some [lit ''a'', lit ''b''], ru_Span = 2\<rparr>],
     sn_Sequence = Some [RuleRef 1, RuleRef 1], sn_NextID = 2\<rparr>"

lemma abab_ok: "stream_ok abab" "stream_ok (abab @ abab)"
  by (simp_all add: stream_ok_def abab_def lit_def ParseRuleRef_def ruleRefPrefix_def)

lemma abab_run: "Option.bind (append_all abab clear) Snapshot_of = Some abab_snapshot"
  by (simp add: run_simps numeral_eq_Suc abab_def abab_snapshot_def Compressed_def Snapshot_of_def snapshotRules_def sortedIDs_def expansions_def rule_view_def)

lemma abab_frame: "length (EncodeSnapshot abab_snapshot) = 42"
  by (simp add: abab_snapshot_def EncodeSnapshot_def Let_def appendCodecCount_def append_rule_def appendCodecSymbols_def elems_def AppendVarint_def
    AppendUvarint_def RuleRef_def ruleRefPrefix_def Itoa_def digits.simps uvarint_bytes.simps zigzag_def lit_def codecMagic_def)

text \<open>
  Digram uniqueness fails: the pair \<open>b b\<close> stands twice in the compressed sequence, without overlap.
\<close>

lemma digram_repeated:
  "Option.bind (append_all [lit ''a'', lit ''b'', lit ''b'', lit ''b'', lit ''a'', lit ''b'', lit ''c'', lit ''b'', lit ''b''] clear) Compressed
    = Some (Some [RuleRef 1, lit ''b'', lit ''b'', RuleRef 1, lit ''c'', lit ''b'', lit ''b''])"
  by (simp add: run_simps numeral_eq_Suc Compressed_def)

text \<open>The rule reported for a cycle need not be on it: rule 1 only leads to the cycle of 2 and 3.\<close>

lemma cycle_report:
  "buildFromSnapshot \<lparr>sn_Rules = Some [\<lparr>ru_ID = 1, ru_Body = Some [RuleRef 2], ru_Uses = 0, ru_Expansion = None, ru_Span = 0\<rparr>,
      \<lparr>ru_ID = 2, ru_Body = Some [RuleRef 3], ru_Uses = 0, ru_Expansion = None, ru_Span = 0\<rparr>,
      \<lparr>ru_ID = 3, ru_Body = Some [RuleRef 2], ru_Uses = 0, ru_Expansion = None, ru_Span = 0\<rparr>], sn_Sequence = Some [RuleRef 1], sn_NextID = 4\<rparr>
    = Some (Inl (ReferenceCycle 1))"
  by (simp add: buildFromSnapshot_def elems_def clear_def newGuard_def newNode_def Let_def insertAfter_def link_def add_uses_def ParseRuleRef_RuleRef
    sortedIDs_def findCycle_def body_nodes_def numeral_eq_Suc)

section \<open>The grammar of a stream\<close>

text \<open>C2. Lossless induction: from the empty grammar, \<open>Append\<close> never panics and its cascades end, and afterwards the
  compressed sequence, read through the rules, is the stream; every rule's expansion is its body read
  the same way.
\<close>

theorem grammar_lossless:
  assumes "stream_ok ss"
  shows "\<exists>g rs c. append_all ss clear = Some g \<and> Rules g = Some rs \<and> Compressed g = Some c
    \<and> unfold_body (elems rs) c = ss \<and> list_all (\<lambda>r. unfold_body (elems rs) (ru_Body r) = elems (ru_Expansion r)) (elems rs)"
proof -
  from assms obtain g B W where g: "append_all ss clear = Some g" "stands_for g B W" "W 0 = ss" by (rule stream_inv)
  from g(2) obtain rs c where "Rules g = Some rs" "Compressed g = Some c" "unfold_body (elems rs) c = W 0"
    "list_all (\<lambda>r. unfold_body (elems rs) (ru_Body r) = elems (ru_Expansion r)) (elems rs)" by (rule stands_for_views)
  with g show ?thesis by blast
qed

text \<open>Witness.\<close>

theorem grammar_lossless_witness:
  "\<exists>g rs c. append_all abab clear = Some g \<and> Rules g = Some rs \<and> Compressed g = Some c
    \<and> unfold_body (elems rs) c = abab \<and> list_all (\<lambda>r. unfold_body (elems rs) (ru_Body r) = elems (ru_Expansion r)) (elems rs)"
  by (rule grammar_lossless [OF abab_ok(1)])



section \<open>Reading a grammar back\<close>

lemma built_snapshot:
  assumes I: "grammar_inv g B W" and h: "holds g B s" and n: "q_nextID g = next_id s"
  obtains s' where "Snapshot_of g = Some s'" "bodies s' = bodies s" "sn_NextID s' = next_id s"
proof -
  obtain s' where s': "Snapshot_of g = Some s'" "s' = \<lparr>sn_Rules = slice_of (map (view_of g B W) (q_byID g)), sn_Sequence = slice_of (map (encoded g) (B 0)), sn_NextID = q_nextID g\<rparr>"
    using snapshot_eq [OF I] by simp
  have h: "q_byID g = rule_ids s" "\<And>p ss. (p, ss) \<in> set (bodies s) \<Longrightarrow> map (encoded g) (B p) = ss" using h by (auto simp: holds_def)
  have "map (\<lambda>p. (p, map (encoded g) (B p))) (map fst (bodies s)) = map (\<lambda>x. x) (bodies s)"
    unfolding map_map by (rule map_cong [OF refl]) (use h(2) in auto)
  moreover have "map fst (bodies s) = rule_ids s @ [0]" by (simp add: bodies_def rule_ids_def)
  moreover have "bodies s' = map (\<lambda>p. (p, map (encoded g) (B p))) (rule_ids s @ [0])" by (simp add: s'(2) bodies_def view_of_def h(1))
  ultimately show ?thesis using s' n that by simp
qed

text \<open>C5. \<open>Restore\<close> always returns; it accepts exactly the well-formed snapshots, leaves the receiver as it was
  otherwise, and the grammar it installs has the bodies, the sequence and the next identifier of the snapshot.
\<close>

theorem restore_exact:
  "\<exists>e g' s'. Restore s g = Some (e, g') \<and> (e = None \<longleftrightarrow> valid_snapshot s)
    \<and> (if e \<noteq> None then g' = g else Snapshot_of g' = Some s' \<and> bodies s' = bodies s \<and> sn_NextID s' = next_id s)"
proof -
  obtain res where res: "buildFromSnapshot s = Some res" using build_ok [of s] by (auto split: option.splits)
  show ?thesis
  proof (cases res)
    case (Inl e)
    then show ?thesis using build_ok [of s] by (simp add: Restore_def res)
  next
    case (Inr g')
    then obtain B W where "valid_snapshot s" "q_nextID g' = next_id s" "grammar_inv g' B W" "holds g' B s"
      using build_ok [of s] by (auto simp: res)
    moreover from this(3,4,2) obtain s' where "Snapshot_of g' = Some s'" "bodies s' = bodies s" "sn_NextID s' = next_id s" by (rule built_snapshot)
    ultimately show ?thesis by (intro exI [of _ None] exI [of _ g'] exI [of _ s']) (simp add: Restore_def res Inr)
  qed
qed

text \<open>C7. \<open>UnmarshalBinary\<close> on arbitrary bytes: it returns, an error leaves the receiver as it was, and on the grammar
  it installs no stream of \<open>Append\<close> calls panics or runs forever, nor do the readers afterwards.
\<close>

theorem unmarshal_safe:
  "\<exists>e g'. UnmarshalBinary b g = Some (e, g') \<and>
     (if e \<noteq> None then g' = g
      else \<exists>g'' rs c b'. append_all ss g' = Some g'' \<and> Rules g'' = Some rs \<and> Compressed g'' = Some c \<and> MarshalBinary g'' = Some b')"
proof (cases "DecodeSnapshot b")
  case (Inl e)
  then show ?thesis by (simp add: UnmarshalBinary_def)
next
  case (Inr s)
  obtain res where res: "buildFromSnapshot s = Some res" using build_ok [of s] by (auto split: option.splits)
  show ?thesis
  proof (cases res)
    case (Inl e)
    then show ?thesis by (simp add: UnmarshalBinary_def Inr Restore_def res)
  next
    case r: (Inr g')
    then obtain B W where "grammar_inv g' B W" using build_ok [of s] by (auto simp: res)
    then obtain g'' B' W' where g'': "append_all ss g' = Some g''" "grammar_inv g'' B' W'" using append_all_ok by blast
    then obtain \<rho> where G: "gram_ok g'' B' W'" and R: "ranks g'' B' \<rho>" by (auto simp: grammar_inv_def)
    show ?thesis using g''(1)
      by (intro exI [of _ None] exI [of _ g']) (simp add: UnmarshalBinary_def Inr Restore_def res r Rules_def snapshotRules_eq [OF G R]
        Compressed_eq [OF G] MarshalBinary_def snapshot_eq [OF g''(2)])
  qed
qed

text \<open>The numbers in a grammar that stands for a stream fit the varints.\<close>

lemma stands_for_ints:
  assumes S: "stands_for g B W" and l: "length (W 0) < 2 ^ 61" and s: "Snapshot_of g = Some s"
  shows "list_all rule_ints (elems (sn_Rules s))" "is_int64 (sn_NextID s)"
proof -
  have I: "grammar_inv g B W" and G: "gram_ok g B W" and n: "q_nextID g + mu g B \<le> 1 + 2 * int (length (W 0))"
    using S by (auto simp: stands_for_def grammar_inv_def)
  have s: "elems (sn_Rules s) = map (view_of g B W) (q_byID g)" "sn_NextID s = q_nextID g" using snapshot_eq [OF I] s by auto
  have m: "int (card (nodes B)) \<le> mu g B" and p: "0 < q_nextID g" using mu_bounds(1) [OF G] gram_okD(5) [OF G] by auto
  show "is_int64 (sn_NextID s)" using n m l p by (simp add: s)
  have "rule_ints (view_of g B W q)" if q: "q \<in> live g" for q
  proof -
    have "0 < q" "q < q_nextID g" using gram_okD(6,7) [OF G q] by auto
    moreover have "card (refs g B q) \<le> card (nodes B)"
      using nodes_finite [OF gram_okD(1) [OF G]] by (intro card_mono) (auto simp: refs_def)
    moreover obtain us vs where "W 0 = us @ W q @ vs" using word_within [OF I, of q] q by blast
    then have "length (W q) \<le> length (W 0)" by simp
    ultimately show ?thesis using n m l p by (simp add: rule_ints_def view_of_def)
  qed
  then show "list_all rule_ints (elems (sn_Rules s))" by (simp add: s list_all_iff)
qed

text \<open>C4. Round trip: the bytes of a grammar decode to a grammar with the same snapshot, appending to it goes on
  losslessly from the stream so far, and no proper prefix of the bytes is accepted.
\<close>

theorem marshal_roundtrip:
  assumes "append_all ss clear = Some g" "MarshalBinary g = Some b" "length b < 2 ^ 63" "stream_ok (ss @ ts)" "k < length b"
  shows "(\<exists>g' g'' rs c. UnmarshalBinary b h = Some (None, g') \<and> Snapshot_of g' = Snapshot_of g \<and> append_all ts g' = Some g''
      \<and> Rules g'' = Some rs \<and> Compressed g'' = Some c \<and> unfold_body (elems rs) c = ss @ ts)
    \<and> (\<exists>e. UnmarshalBinary (take k b) h = Some (Some e, h))"
proof
  have ok: "stream_ok ss" using assms(4) by (simp add: stream_ok_def)
  then obtain B W where g: "stands_for g B W" "W 0 = ss" using assms(1) by (auto elim: stream_inv)
  obtain s where s: "Snapshot_of g = Some s" and b: "b = EncodeSnapshot s" using assms(2) by (auto simp: MarshalBinary_def)
  have d: "DecodeSnapshot b = Inr s" unfolding b
    by (rule decode_encode) (use stands_for_ints [OF g(1) _ s] g(2) ok assms(3) b in \<open>auto simp: stream_ok_def\<close>)
  then show "\<exists>e. UnmarshalBinary (take k b) h = Some (Some e, h)"
    using truncated_refused [OF d assms(3,5)] by (auto simp: UnmarshalBinary_def)
  have I: "grammar_inv g B W" "readable g B" using g(1) by (simp_all add: stands_for_def)
  from I s obtain g' B' W' where g': "buildFromSnapshot s = Some (Inr g')" "grammar_inv g' B' W'" "readable g' B'" "Snapshot_of g' = Some s" "W' 0 = W 0"
    "q_nextID g' = q_nextID g" "mu g' B' = mu g B" by (rule restore_snapshot)
  then have S: "stands_for g' B' W'" using g(1) by (simp add: stands_for_def)
  have "stream_ok (W' 0 @ ts)" using assms(4) g'(5) g(2) by simp
  from S this obtain g'' B'' W'' where g'': "append_all ts g' = Some g''" "stands_for g'' B'' W''" "W'' 0 = W' 0 @ ts" by (rule append_stands_for)
  from g''(2) obtain rs c where "Rules g'' = Some rs" "Compressed g'' = Some c" "unfold_body (elems rs) c = W'' 0" by (rule stands_for_views)
  then show "\<exists>g' g'' rs c. UnmarshalBinary b h = Some (None, g') \<and> Snapshot_of g' = Snapshot_of g \<and> append_all ts g' = Some g''
      \<and> Rules g'' = Some rs \<and> Compressed g'' = Some c \<and> unfold_body (elems rs) c = ss @ ts"
    using g'(1,4,5) g''(1,3) g(2) s by (intro exI [of _ g'] exI [of _ g''] exI [of _ rs] exI [of _ c]) (simp add: UnmarshalBinary_def d Restore_def)
qed

text \<open>Witness.\<close>

theorem marshal_roundtrip_witness:
  "\<exists>g b. append_all abab clear = Some g \<and> MarshalBinary g = Some b \<and> length b = 42
    \<and> (\<exists>g' g'' rs c. UnmarshalBinary b clear = Some (None, g') \<and> Snapshot_of g' = Snapshot_of g \<and> append_all abab g' = Some g''
      \<and> Rules g'' = Some rs \<and> Compressed g'' = Some c \<and> unfold_body (elems rs) c = abab @ abab)
    \<and> (\<exists>e. UnmarshalBinary (take 41 b) clear = Some (Some e, clear))"
proof -
  obtain g where g: "append_all abab clear = Some g" "Snapshot_of g = Some abab_snapshot" using abab_run by (auto simp: bind_eq_Some_conv)
  then have b: "MarshalBinary g = Some (EncodeSnapshot abab_snapshot)" by (simp add: MarshalBinary_def)
  have l: "length (EncodeSnapshot abab_snapshot) < 2 ^ 63" "41 < length (EncodeSnapshot abab_snapshot)" by (simp_all add: abab_frame)
  show ?thesis using g b abab_frame marshal_roundtrip [OF g(1) b l(1) abab_ok(2) l(2), of clear] by blast
qed

end
