(* ===== verification/GoStrings.thy ===== *)
theory GoStrings
  imports Prelude "HOL-Library.Sublist"
begin

text \<open>
  The functions of Go's \<^verbatim>\<open>strings\<close> package the program uses, on byte strings.  An index of -1 is \<open>None\<close>.
\<close>

definition HasPrefix :: "bytes \<Rightarrow> bytes \<Rightarrow> bool" where
  "HasPrefix s p \<longleftrightarrow> prefix p s"

definition Contains :: "bytes \<Rightarrow> bytes \<Rightarrow> bool" where
  "Contains s t \<longleftrightarrow> sublist t s"

fun Index :: "bytes \<Rightarrow> bytes \<Rightarrow> nat option" where
  "Index [] t = (if t = [] then Some 0 else None)"
| "Index (c # s) t = (if prefix t (c # s) then Some 0 else map_option Suc (Index s t))"

fun LastIndex :: "bytes \<Rightarrow> bytes \<Rightarrow> nat option" where
  "LastIndex [] t = (if t = [] then Some 0 else None)"
| "LastIndex (c # s) t =
     (case LastIndex s t of Some i \<Rightarrow> Some (Suc i) | None \<Rightarrow> if prefix t (c # s) then Some 0 else None)"

definition CutPrefix :: "bytes \<Rightarrow> bytes \<Rightarrow> bytes option" where
  "CutPrefix s p = (if prefix p s then Some (drop (length p) s) else None)"

definition CutSuffix :: "bytes \<Rightarrow> bytes \<Rightarrow> bytes option" where
  "CutSuffix s p = (if suffix p s then Some (take (length s - length p) s) else None)"

fun Join :: "bytes list \<Rightarrow> bytes \<Rightarrow> bytes" where
  "Join [] sep = []"
| "Join [s] sep = s"
| "Join (s # ss) sep = s @ sep @ Join ss sep"

section \<open>Facts\<close>

lemma Index_SomeD:
  assumes "Index s t = Some i"
  shows "prefix t (drop i s)" "i \<le> length s" "j < i \<Longrightarrow> \<not> prefix t (drop j s)"
proof -
  have "prefix t (drop i s) \<and> i \<le> length s \<and> (\<forall>j < i. \<not> prefix t (drop j s))" using assms
  proof (induction s arbitrary: i)
    case (Cons c s)
    show ?case
    proof (cases "prefix t (c # s)")
      case False
      then obtain k where k: "i = Suc k" "Index s t = Some k" using Cons.prems by auto
      have "\<not> prefix t (drop j (c # s))" if "j < Suc k" for j using that Cons.IH [OF k(2)] False by (cases j) auto
      then show ?thesis using Cons.IH [OF k(2)] k by simp
    qed (use Cons.prems in auto)
  qed (auto split: if_splits)
  then show "prefix t (drop i s)" "i \<le> length s" "j < i \<Longrightarrow> \<not> prefix t (drop j s)" by blast+
qed

lemma Index_None: "Index s t = None \<longleftrightarrow> \<not> sublist t s"
  by (induction s t rule: Index.induct) (auto simp: sublist_Cons_right)

lemma Index_drop_less:
  assumes "Index s t = Some i" "t \<noteq> []"
  shows "length (drop (i + length t) s) < length s"
  using Index_SomeD(1,2) [OF assms(1)] assms(2) by (cases s) (auto dest: prefix_length_le)

end
