(* ===== verification/StateWarn.thy ===== *)
theory StateWarn
  imports CoreHash GrammarTypes GoStrings
begin

text \<open>
  The state-aware loop detector of \<^verbatim>\<open>internal/grammar/statewarn.go\<close> with the warning text of
  \<^verbatim>\<open>formatwarning.go\<close>, and the tool-name predicate of \<^verbatim>\<open>core/toolnames.go\<close> it shares.  The two maps of the
  detector are HOL maps: the only loop over one of them, the pruning, treats every entry alone.  Where
  the code returns a warning and a flag, the model returns an option.
\<close>

section \<open>Signatures\<close>

record StateSignature =
  sg_Goal :: bytes
  sg_Target :: bytes
  sg_Action :: bytes
  sg_Failure :: bytes

definition stateSignatureDomain :: bytes where "stateSignatureDomain = lit ''qompack.grammar.state.v1''"
definition stateKeyPrefix :: bytes where "stateKeyPrefix = lit ''gstate_''"
abbreviation (input) stateFieldSep :: byte where "stateFieldSep \<equiv> 0x1F"

definition Key :: "StateSignature \<Rightarrow> bytes" where
  "Key s =
     (let b = sg_Goal s @ [stateFieldSep] @ sg_Target s @ [stateFieldSep] @ sg_Action s @ [stateFieldSep] @ sg_Failure s
      in stateKeyPrefix @ Hash_Short (HashBytes stateSignatureDomain b))"

section \<open>Records of the program's own making\<close>

definition hostPluginToolPrefix :: bytes where "hostPluginToolPrefix = lit ''mcp__plugin_''"
definition hostServerToolSeparator :: bytes where "hostServerToolSeparator = lit ''__''"

definition CutHostPluginTool :: "bytes \<Rightarrow> bytes \<Rightarrow> bytes option" where
  "CutHostPluginTool name server =
     (case CutPrefix name hostPluginToolPrefix of
        None \<Rightarrow> None
      | Some rest \<Rightarrow>
          (case LastIndex rest hostServerToolSeparator of
             None \<Rightarrow> None
           | Some i \<Rightarrow>
               if i + length hostServerToolSeparator = length rest then None
               else (case CutSuffix (take i rest) (lit ''_'' @ server) of
                       None \<Rightarrow> None
                     | Some entry \<Rightarrow>
                         if entry = [] \<or> Contains entry hostServerToolSeparator then None
                         else Some (drop (i + length hostServerToolSeparator) rest))))"

definition selfMarkerMCPTool :: bytes where "selfMarkerMCPTool = lit ''mcp__qompack__''"
definition selfMarkerMCPServer :: bytes where "selfMarkerMCPServer = lit ''qompack''"
definition selfMarkerSlashCommand :: bytes where "selfMarkerSlashCommand = lit ''/qompack:''"
definition selfMarkerWarning :: bytes where "selfMarkerWarning = lit ''[qompack]''"
definition selfMarkerStateDir :: bytes where "selfMarkerStateDir = lit ''.qompack''"

definition isHostSelfTool :: "bytes \<Rightarrow> bool" where
  "isHostSelfTool f \<longleftrightarrow> CutHostPluginTool f selfMarkerMCPServer \<noteq> None"

definition isEntryByte :: "byte \<Rightarrow> bool" where
  "isEntryByte c \<longleftrightarrow> 0x61 \<le> c \<and> c \<le> 0x7A \<or> 0x41 \<le> c \<and> c \<le> 0x5A \<or> 0x30 \<le> c \<and> c \<le> 0x39 \<or> c = 0x2D \<or> c = 0x5F \<or> c = 0x2E"

text \<open>What may follow the namespace: a colon, or an entry segment and a colon.\<close>

definition command_follows :: "bytes \<Rightarrow> bool" where
  "command_follows rest \<longleftrightarrow>
     HasPrefix rest (lit '':'')
     \<or> rest \<noteq> [] \<and> (hd rest = 0x2D \<or> hd rest = 0x5F)
       \<and> (let j = 1 + length (takeWhile isEntryByte (tl rest)) in 1 < j \<and> j < length rest \<and> rest ! j = 0x3A)"

definition slash_ns :: bytes where
  "slash_ns = take (length selfMarkerSlashCommand - 1) selfMarkerSlashCommand"

function hasSlashCommandMarker :: "bytes \<Rightarrow> bool" where
  "hasSlashCommandMarker f =
     (case Index f slash_ns of
        None \<Rightarrow> False
      | Some i \<Rightarrow>
          let rest = drop (i + length slash_ns) f
          in command_follows rest \<or> hasSlashCommandMarker rest)"
  by auto
termination
proof (relation "measure length")
  fix f i rest assume i: "Index f slash_ns = Some i" and r: "rest = drop (i + length slash_ns) f"
  have "slash_ns \<noteq> []" by (simp add: slash_ns_def selfMarkerSlashCommand_def lit_def)
  then show "(rest, f) \<in> measure length" unfolding r using Index_drop_less [OF i] by simp
qed simp

declare hasSlashCommandMarker.simps [simp del]

definition self_field :: "bytes \<Rightarrow> bool" where
  "self_field f \<longleftrightarrow>
     HasPrefix f selfMarkerMCPTool \<or> isHostSelfTool f \<or> hasSlashCommandMarker f \<or> Contains f selfMarkerWarning
     \<or> f = selfMarkerStateDir \<or> HasPrefix f (selfMarkerStateDir @ lit ''/'')"

definition IsSelfOriginated :: "StateSignature \<Rightarrow> bool" where
  "IsSelfOriginated s \<longleftrightarrow> list_ex self_field [sg_Goal s, sg_Target s, sg_Action s, sg_Failure s]"

section \<open>Configuration\<close>

record DetectorConfig =
  dc_MinRepeats :: int
  dc_WindowTurns :: int
  dc_MaxPerSession :: int
  dc_ExpiryTurns :: int

abbreviation (input) defaultMinRepeats :: int where "defaultMinRepeats \<equiv> 3"
abbreviation (input) defaultWindowTurns :: int where "defaultWindowTurns \<equiv> 20"
abbreviation (input) defaultMaxPerSession :: int where "defaultMaxPerSession \<equiv> 3"
abbreviation (input) defaultExpiryTurns :: int where "defaultExpiryTurns \<equiv> 5"
abbreviation (input) retainedWindows :: int where "retainedWindows \<equiv> 1"

definition DefaultDetectorConfig :: DetectorConfig where
  "DefaultDetectorConfig = \<lparr>dc_MinRepeats = defaultMinRepeats, dc_WindowTurns = defaultWindowTurns,
     dc_MaxPerSession = defaultMaxPerSession, dc_ExpiryTurns = defaultExpiryTurns\<rparr>"

definition normalized_config :: "DetectorConfig \<Rightarrow> DetectorConfig" where
  "normalized_config c =
     \<lparr>dc_MinRepeats = (if dc_MinRepeats c < 2 then defaultMinRepeats else dc_MinRepeats c),
      dc_WindowTurns = (if dc_WindowTurns c \<le> 0 then defaultWindowTurns else dc_WindowTurns c),
      dc_MaxPerSession = (if dc_MaxPerSession c = 0 then defaultMaxPerSession else dc_MaxPerSession c),
      dc_ExpiryTurns = (if dc_ExpiryTurns c \<le> 0 then defaultExpiryTurns else dc_ExpiryTurns c)\<rparr>"

section \<open>Warnings\<close>

type_synonym Progress = byte
abbreviation ProgressNone :: Progress where "ProgressNone \<equiv> 0"
abbreviation ProgressObserved :: Progress where "ProgressObserved \<equiv> 1"
abbreviation ProgressUnknown :: Progress where "ProgressUnknown \<equiv> 2"

record Warning =
  wa_Rule :: Rule
  wa_Repeats :: int
  wa_Message :: bytes
  wa_Turns :: "int list"

record StateWarning =
  sw_Signature :: StateSignature
  sw_Repeats :: int
  sw_Turns :: "int list"
  sw_Progress :: Progress
  sw_Uncertain :: bool
  sw_DedupKey :: bytes
  sw_ExpiresAt :: int
  sw_Warning :: Warning

definition messageRepeatedState :: bytes where "messageRepeatedState = lit ''consider a different approach''"
definition messageRepeatedStateUncertain :: bytes where
  "messageRepeatedStateUncertain = lit ''observation coverage is incomplete, so this may not be a loop''"

text \<open>The arrow, the multiplication sign and the two dashes are UTF-8.\<close>

definition turnRange :: "int list \<Rightarrow> bytes" where
  "turnRange turns =
     (case turns of
        [] \<Rightarrow> []
      | t # ts \<Rightarrow>
          let (lo, hi) = foldl (\<lambda>(lo, hi) t. (if t < lo then t else lo, if hi < t then t else hi)) (t, t) ts
          in if lo = hi then Itoa lo else Itoa lo @ [0xE2, 0x80, 0x93] @ Itoa hi)"

definition FormatWarning :: "Warning \<Rightarrow> bytes" where
  "FormatWarning w =
     lit ''[qompack] possible loop: '' @ Join (elems (ru_Expansion (wa_Rule w))) [0xE2, 0x86, 0x92] @ lit '' repeated '' @ Itoa (wa_Repeats w)
     @ [0xC3, 0x97] @ lit '' (turns '' @ turnRange (wa_Turns w) @ lit '') '' @ [0xE2, 0x80, 0x94] @ lit '' '' @ wa_Message w"

section \<open>The detector\<close>

record Observation =
  ob_Signature :: StateSignature
  ob_Turn :: int
  ob_Progress :: Progress
  ob_SelfOriginated :: bool
  ob_PartialCoverage :: bool
  ob_Symbols :: "Symbol list"

type_synonym Outcome = byte
abbreviation OutcomeUnknown :: Outcome where "OutcomeUnknown \<equiv> 0"
abbreviation OutcomeUseful :: Outcome where "OutcomeUseful \<equiv> 1"
abbreviation OutcomeFalseAlarm :: Outcome where "OutcomeFalseAlarm \<equiv> 2"

record DetectorStats =
  st_Observations :: int
  st_RepeatedStates :: int
  st_Ignored :: int
  st_SelfSuppressed :: int
  st_ProgressSuppressed :: int
  st_Deduplicated :: int
  st_CapSuppressed :: int
  st_Expired :: int
  st_Delivered :: int
  st_Useful :: int
  st_FalseAlarms :: int

record stateWindow =
  w_ordinal :: int
  w_occurrences :: int
  w_turns :: "int list"
  w_symbols :: "Symbol list"
  w_progressObserved :: bool
  w_unknownSeen :: bool
  w_partialCoverage :: bool

record Detector =
  d_cfg :: DetectorConfig
  d_windows :: "bytes \<rightharpoonup> stateWindow"
  d_warned :: "bytes \<rightharpoonup> Outcome"
  d_maxOrdinal :: int
  d_seenOrdinal :: bool
  d_delivered :: int
  d_stats :: DetectorStats

definition NewDetector :: "DetectorConfig \<Rightarrow> Detector" where
  "NewDetector cfg =
     \<lparr>d_cfg = normalized_config cfg, d_windows = Map.empty, d_warned = Map.empty, d_maxOrdinal = 0, d_seenOrdinal = False, d_delivered = 0,
      d_stats = \<lparr>st_Observations = 0, st_RepeatedStates = 0, st_Ignored = 0, st_SelfSuppressed = 0, st_ProgressSuppressed = 0,
        st_Deduplicated = 0, st_CapSuppressed = 0, st_Expired = 0, st_Delivered = 0, st_Useful = 0, st_FalseAlarms = 0\<rparr>\<rparr>"

text \<open>Go's division truncates; the correction makes it the floor.\<close>

definition windowOrdinal :: "int \<Rightarrow> int \<Rightarrow> int" where
  "windowOrdinal t width =
     (let q = sgn t * (\<bar>t\<bar> div width); r = sgn t * (\<bar>t\<bar> mod width) in if t < 0 \<and> r \<noteq> 0 then q - 1 else q)"

definition dedupKeyFor :: "bytes \<Rightarrow> int \<Rightarrow> bytes" where
  "dedupKeyFor key ordinal = key @ lit ''#'' @ Itoa ordinal"

definition advanceTo :: "int \<Rightarrow> Detector \<Rightarrow> Detector" where
  "advanceTo ordinal d =
     (if d_seenOrdinal d \<and> ordinal \<le> d_maxOrdinal d then d
      else let horizon = ordinal - retainedWindows
           in d\<lparr>d_maxOrdinal := ordinal, d_seenOrdinal := True,
                d_windows := (\<lambda>k. case d_windows d k of None \<Rightarrow> None | Some w \<Rightarrow> if w_ordinal w < horizon then None else Some w)\<rparr>)"

definition stateExpansion :: "StateSignature \<Rightarrow> Symbol list \<Rightarrow> Symbol slice" where
  "stateExpansion sig symbols =
     (if symbols \<noteq> [] then Some symbols
      else case find (\<lambda>f. f \<noteq> []) [sg_Action sig, sg_Target sig, sg_Goal sig, sg_Failure sig] of
             Some f \<Rightarrow> Some [f]
           | None \<Rightarrow> None)"

definition render :: "StateSignature \<Rightarrow> stateWindow \<Rightarrow> bytes \<Rightarrow> int \<Rightarrow> Detector \<Rightarrow> StateWarning" where
  "render sig w dedupKey at d =
     (let progress = (if w_unknownSeen w then ProgressUnknown else ProgressNone);
          uncertain = (w_unknownSeen w \<or> w_partialCoverage w);
          message = (if uncertain then messageRepeatedStateUncertain else messageRepeatedState);
          turns = sort (w_turns w)
      in \<lparr>sw_Signature = sig, sw_Repeats = w_occurrences w, sw_Turns = turns, sw_Progress = progress, sw_Uncertain = uncertain,
          sw_DedupKey = dedupKey, sw_ExpiresAt = at + dc_ExpiryTurns (d_cfg d),
          sw_Warning = \<lparr>wa_Rule = \<lparr>ru_ID = 0, ru_Body = None, ru_Uses = 0, ru_Expansion = stateExpansion sig (w_symbols w), ru_Span = 0\<rparr>,
            wa_Repeats = w_occurrences w, wa_Message = message, wa_Turns = turns\<rparr>\<rparr>)"

text \<open>One observation folded into its window.\<close>

definition note_in_window :: "Observation \<Rightarrow> stateWindow \<Rightarrow> stateWindow" where
  "note_in_window ob w =
     (let w = w\<lparr>w_occurrences := w_occurrences w + 1\<rparr>;
          w = (if ob_Turn ob \<in> set (w_turns w) then w else w\<lparr>w_turns := w_turns w @ [ob_Turn ob]\<rparr>);
          w = (if ob_Symbols ob \<noteq> [] then w\<lparr>w_symbols := ob_Symbols ob\<rparr> else w);
          w = (if ob_Progress ob = ProgressObserved then w\<lparr>w_progressObserved := True\<rparr>
               else if ob_Progress ob = ProgressNone then w
               else w\<lparr>w_unknownSeen := True\<rparr>)
      in if ob_PartialCoverage ob then w\<lparr>w_partialCoverage := True\<rparr> else w)"

definition count :: "(DetectorStats \<Rightarrow> DetectorStats) \<Rightarrow> Detector \<Rightarrow> Detector" where
  "count f d = d\<lparr>d_stats := f (d_stats d)\<rparr>"

definition emptySignature :: StateSignature where
  "emptySignature = \<lparr>sg_Goal = [], sg_Target = [], sg_Action = [], sg_Failure = []\<rparr>"

definition new_window :: "int \<Rightarrow> stateWindow" where
  "new_window ordinal = \<lparr>w_ordinal = ordinal, w_occurrences = 0, w_turns = [], w_symbols = [], w_progressObserved = False,
     w_unknownSeen = False, w_partialCoverage = False\<rparr>"

definition Observe :: "Observation \<Rightarrow> Detector \<Rightarrow> StateWarning option \<times> Detector" where
  "Observe ob d =
     (let d = count (st_Observations_update (\<lambda>x. x + 1)) d
      in if ob_SelfOriginated ob \<or> IsSelfOriginated (ob_Signature ob) then (None, count (st_SelfSuppressed_update (\<lambda>x. x + 1)) d)
         else if ob_Signature ob = emptySignature then (None, count (st_Ignored_update (\<lambda>x. x + 1)) d)
         else
           let key = Key (ob_Signature ob);
               ordinal = windowOrdinal (ob_Turn ob) (dc_WindowTurns (d_cfg d));
               dedupKey = dedupKeyFor key ordinal;
               d = advanceTo ordinal d;
               (w, d) = (case d_windows d dedupKey of
                  None \<Rightarrow> (new_window ordinal, d)
                | Some w \<Rightarrow> (w, count (st_RepeatedStates_update (\<lambda>x. x + 1)) d));
               w = note_in_window ob w;
               d = d\<lparr>d_windows := (d_windows d)(dedupKey \<mapsto> w)\<rparr>
           in if w_progressObserved w then (None, count (st_ProgressSuppressed_update (\<lambda>x. x + 1)) d)
              else if w_occurrences w < dc_MinRepeats (d_cfg d) then (None, d)
              else if d_warned d dedupKey \<noteq> None then (None, count (st_Deduplicated_update (\<lambda>x. x + 1)) d)
              else if dc_MaxPerSession (d_cfg d) \<le> d_delivered d then (None, count (st_CapSuppressed_update (\<lambda>x. x + 1)) d)
              else (Some (render (ob_Signature ob) w dedupKey (ob_Turn ob) d),
                    count (st_Delivered_update (\<lambda>x. x + 1))
                      (d\<lparr>d_warned := (d_warned d)(dedupKey \<mapsto> OutcomeUnknown), d_delivered := d_delivered d + 1\<rparr>)))"

definition Deliverable :: "StateWarning \<Rightarrow> int \<Rightarrow> Detector \<Rightarrow> bool \<times> Detector" where
  "Deliverable w at d =
     (if sw_ExpiresAt w < at then (False, count (st_Expired_update (\<lambda>x. x + 1)) d) else (True, d))"

definition RecordOutcome :: "bytes \<Rightarrow> Outcome \<Rightarrow> Detector \<Rightarrow> bool \<times> Detector" where
  "RecordOutcome dedupKey oc d =
     (case d_warned d dedupKey of
        None \<Rightarrow> (False, d)
      | Some prev \<Rightarrow>
          if prev \<noteq> OutcomeUnknown \<or> oc = OutcomeUnknown then (False, d)
          else let d = d\<lparr>d_warned := (d_warned d)(dedupKey \<mapsto> oc)\<rparr>
               in (True, if oc = OutcomeUseful then count (st_Useful_update (\<lambda>x. x + 1)) d
                         else if oc = OutcomeFalseAlarm then count (st_FalseAlarms_update (\<lambda>x. x + 1)) d
                         else d))"

section \<open>Sessions\<close>

datatype det_op = OpObserve Observation | OpDeliverable StateWarning int | OpOutcome bytes Outcome

fun det_step :: "det_op \<Rightarrow> Detector \<Rightarrow> StateWarning list \<times> Detector" where
  "det_step (OpObserve ob) d = (case Observe ob d of (None, d) \<Rightarrow> ([], d) | (Some w, d) \<Rightarrow> ([w], d))"
| "det_step (OpDeliverable w at) d = ([], snd (Deliverable w at d))"
| "det_step (OpOutcome k oc) d = ([], snd (RecordOutcome k oc d))"

text \<open>The warnings of a session, in order, and the detector after it.\<close>

fun det_run :: "det_op list \<Rightarrow> Detector \<Rightarrow> StateWarning list \<times> Detector" where
  "det_run [] d = ([], d)"
| "det_run (x # xs) d = (let (ws, d) = det_step x d; (ws', d) = det_run xs d in (ws @ ws', d))"

end
