(* ===== verification/StateWarnInv.thy ===== *)
theory StateWarnInv
  imports StateWarn
begin

text \<open>
  One step of the detector, and the invariant of a session: what the windows hold, which keys have been
  warned about, and the counters.
\<close>

section \<open>Keys and window ordinals\<close>

lemma windowOrdinal_floor: "0 < width \<Longrightarrow> windowOrdinal t width = t div width"
proof (cases "0 \<le> t")
  case False
  assume w: "0 < width"
  let ?u = "- t"
  have t: "t = - ?u" "0 < ?u" using False by auto
  have "- ?u div width = (if ?u mod width = 0 then - (?u div width) else - (?u div width) - 1)" using w by (rule zdiv_zminus1_eq_if [OF less_imp_neq [symmetric]])
  then show ?thesis using False by (simp add: windowOrdinal_def Let_def)
qed (auto simp: windowOrdinal_def Let_def sgn_if)

lemma same_window: "0 < width \<Longrightarrow> windowOrdinal t width = p \<longleftrightarrow> t \<in> {p * width ..< p * width + width}"
proof
  assume w: "0 < width" and "windowOrdinal t width = p"
  then have "p = t div width" by (simp add: windowOrdinal_floor)
  then have "t = p * width + t mod width" by simp
  then show "t \<in> {p * width ..< p * width + width}" using pos_mod_bound [OF w, of t] pos_mod_sign [OF w, of t] by simp
next
  assume w: "0 < width" and "t \<in> {p * width ..< p * width + width}"
  then have "t div width = p" by (intro int_div_pos_eq [of t width p "t - p * width"]) auto
  then show "windowOrdinal t width = p" using w by (simp add: windowOrdinal_floor)
qed

lemma windowOrdinal_mono: "0 < width \<Longrightarrow> s \<le> t \<Longrightarrow> windowOrdinal s width \<le> windowOrdinal t width"
  by (simp add: windowOrdinal_floor zdiv_mono1)

lemma length_Key: "length (Key s) = 19"
  by (simp add: Key_def Let_def stateKeyPrefix_def Hash_Short_def)

lemma Itoa_inj: "Itoa i = Itoa j \<Longrightarrow> i = j"
proof -
  have d: "digits m = digits n \<longleftrightarrow> m = n" for m n using digits_ok [of m] digits_ok [of n] by metis
  have hd: "hd (digits n) \<noteq> 0x2D" for n
  proof -
    have "is_digit (hd (digits n))" using digits_ok [of n] by (metis hd_in_set list_all_iff)
    then show ?thesis by (auto simp: is_digit_def)
  qed
  assume "Itoa i = Itoa j"
  then show ?thesis using hd [of "nat i"] hd [of "nat j"] by (auto simp: Itoa_def d split: if_splits dest: arg_cong [where f = hd])
qed

lemma dedupKey_inj: "dedupKeyFor (Key s) p = dedupKeyFor (Key s') p' \<Longrightarrow> Key s = Key s' \<and> p = p'"
  unfolding dedupKeyFor_def using length_Key [of s] length_Key [of s'] by (auto dest: Itoa_inj)

section \<open>One observation\<close>

definition accepted :: "Observation \<Rightarrow> bool" where
  "accepted ob \<longleftrightarrow> \<not> ob_SelfOriginated ob \<and> \<not> IsSelfOriginated (ob_Signature ob) \<and> ob_Signature ob \<noteq> emptySignature"

definition ob_ordinal :: "DetectorConfig \<Rightarrow> Observation \<Rightarrow> int" where
  "ob_ordinal c ob = windowOrdinal (ob_Turn ob) (dc_WindowTurns c)"

definition ob_key :: "DetectorConfig \<Rightarrow> Observation \<Rightarrow> bytes" where
  "ob_key c ob = dedupKeyFor (Key (ob_Signature ob)) (ob_ordinal c ob)"

definition window_after :: "Detector \<Rightarrow> Observation \<Rightarrow> stateWindow" where
  "window_after d ob = note_in_window ob
     (case d_windows (advanceTo (ob_ordinal (d_cfg d) ob) d) (ob_key (d_cfg d) ob) of
        None \<Rightarrow> new_window (ob_ordinal (d_cfg d) ob) | Some w \<Rightarrow> w)"

definition speaks :: "Detector \<Rightarrow> Observation \<Rightarrow> bool" where
  "speaks d ob \<longleftrightarrow> accepted ob \<and> \<not> w_progressObserved (window_after d ob) \<and> dc_MinRepeats (d_cfg d) \<le> w_occurrences (window_after d ob)
     \<and> d_warned d (ob_key (d_cfg d) ob) = None \<and> d_delivered d < dc_MaxPerSession (d_cfg d)"

definition warning_of :: "Detector \<Rightarrow> Observation \<Rightarrow> StateWarning" where
  "warning_of d ob = render (ob_Signature ob) (window_after d ob) (ob_key (d_cfg d) ob) (ob_Turn ob) d"

lemma count_simps [simp]:
  "d_cfg (count f d) = d_cfg d" "d_windows (count f d) = d_windows d" "d_warned (count f d) = d_warned d" "d_maxOrdinal (count f d) = d_maxOrdinal d"
  "d_seenOrdinal (count f d) = d_seenOrdinal d" "d_delivered (count f d) = d_delivered d" "d_stats (count f d) = f (d_stats d)"
  by (simp_all add: count_def)

lemma advanceTo_simps [simp]:
  "d_cfg (advanceTo p d) = d_cfg d" "d_warned (advanceTo p d) = d_warned d" "d_delivered (advanceTo p d) = d_delivered d" "d_stats (advanceTo p d) = d_stats d"
  "d_windows (advanceTo p (count f d)) = d_windows (advanceTo p d)" "d_maxOrdinal (advanceTo p (count f d)) = d_maxOrdinal (advanceTo p d)"
  "d_seenOrdinal (advanceTo p (count f d)) = d_seenOrdinal (advanceTo p d)"
  by (simp_all add: advanceTo_def Let_def)

lemma Observe_output: "fst (Observe ob d) = (if speaks d ob then Some (warning_of d ob) else None)"
  by (auto simp: Observe_def speaks_def accepted_def window_after_def warning_of_def ob_key_def ob_ordinal_def render_def Let_def
      split: option.split)

lemma Observe_state:
  "d_cfg (snd (Observe ob d)) = d_cfg d"
  "d_windows (snd (Observe ob d)) =
     (if accepted ob then (d_windows (advanceTo (ob_ordinal (d_cfg d) ob) d))(ob_key (d_cfg d) ob \<mapsto> window_after d ob) else d_windows d)"
  "d_maxOrdinal (snd (Observe ob d)) = (if accepted ob then d_maxOrdinal (advanceTo (ob_ordinal (d_cfg d) ob) d) else d_maxOrdinal d)"
  "d_seenOrdinal (snd (Observe ob d)) = (if accepted ob then d_seenOrdinal (advanceTo (ob_ordinal (d_cfg d) ob) d) else d_seenOrdinal d)"
  "d_warned (snd (Observe ob d)) = (if speaks d ob then (d_warned d)(ob_key (d_cfg d) ob \<mapsto> OutcomeUnknown) else d_warned d)"
  "d_delivered (snd (Observe ob d)) = (if speaks d ob then d_delivered d + 1 else d_delivered d)"
  by (auto simp: Observe_def speaks_def accepted_def window_after_def ob_key_def ob_ordinal_def Let_def split: option.split)

lemma Observe_cases:
  obtains (silent) "\<not> speaks d ob" "det_step (OpObserve ob) d = ([], snd (Observe ob d))"
    | (speaks) "speaks d ob" "det_step (OpObserve ob) d = ([warning_of d ob], snd (Observe ob d))"
  using Observe_output [of ob d] by (cases "Observe ob d") (auto split: if_splits)

section \<open>Counters\<close>

text \<open>Every observation is counted once, and every silence under one reason.\<close>

definition accounted :: "DetectorStats \<Rightarrow> int" where
  "accounted s = st_Ignored s + st_SelfSuppressed s + st_ProgressSuppressed s + st_Deduplicated s + st_CapSuppressed s + st_Delivered s"

definition too_few :: "Detector \<Rightarrow> Observation \<Rightarrow> bool" where
  "too_few d ob \<longleftrightarrow> accepted ob \<and> \<not> w_progressObserved (window_after d ob) \<and> w_occurrences (window_after d ob) < dc_MinRepeats (d_cfg d)"

lemma Observe_stats:
  "st_Observations (d_stats (snd (Observe ob d))) = st_Observations (d_stats d) + 1"
  "accounted (d_stats (snd (Observe ob d))) = accounted (d_stats d) + (if too_few d ob then 0 else 1)"
  "st_Delivered (d_stats (snd (Observe ob d))) = st_Delivered (d_stats d) + (if speaks d ob then 1 else 0)"
  "st_Useful (d_stats (snd (Observe ob d))) = st_Useful (d_stats d)" "st_FalseAlarms (d_stats (snd (Observe ob d))) = st_FalseAlarms (d_stats d)"
  by (auto simp: Observe_def speaks_def too_few_def accounted_def accepted_def window_after_def ob_key_def ob_ordinal_def Let_def split: option.split)

end
