(* ===== verification/StateWarnProps.thy ===== *)
theory StateWarnProps
  imports StateWarnInv
begin

text \<open>The properties of the loop detector.\<close>

section \<open>Feedback does not change decisions\<close>

text \<open>What a decision reads.\<close>

definition same_decisions :: "Detector \<Rightarrow> Detector \<Rightarrow> bool" where
  "same_decisions d e \<longleftrightarrow> d_cfg d = d_cfg e \<and> d_windows d = d_windows e \<and> dom (d_warned d) = dom (d_warned e)
     \<and> d_maxOrdinal d = d_maxOrdinal e \<and> d_seenOrdinal d = d_seenOrdinal e \<and> d_delivered d = d_delivered e"

lemma same_decisionsD:
  assumes "same_decisions d e"
  shows "d_cfg e = d_cfg d" "d_windows e = d_windows d" "d_warned e k = None \<longleftrightarrow> d_warned d k = None" "dom (d_warned e) = dom (d_warned d)"
    "d_maxOrdinal e = d_maxOrdinal d" "d_seenOrdinal e = d_seenOrdinal d" "d_delivered e = d_delivered d"
proof -
  have dm: "dom (d_warned e) = dom (d_warned d)" using assms by (simp add: same_decisions_def)
  then show "dom (d_warned e) = dom (d_warned d)" .
  show "d_warned e k = None \<longleftrightarrow> d_warned d k = None" using dm by (metis domIff)
qed (use assms in \<open>simp_all add: same_decisions_def\<close>)

lemma same_advance:
  assumes "same_decisions d e"
  shows "d_windows (advanceTo p e) = d_windows (advanceTo p d)" "d_maxOrdinal (advanceTo p e) = d_maxOrdinal (advanceTo p d)"
    "d_seenOrdinal (advanceTo p e) = d_seenOrdinal (advanceTo p d)"
  using same_decisionsD [OF assms] by (simp_all add: advanceTo_def Let_def)

lemma same_observe:
  assumes "same_decisions d e"
  shows "speaks e ob = speaks d ob" "warning_of e ob = warning_of d ob" "same_decisions (snd (Observe ob d)) (snd (Observe ob e))"
proof -
  note s = same_decisionsD [OF assms] same_advance [OF assms]
  have w: "window_after e ob = window_after d ob" unfolding window_after_def s by (rule refl)
  show sp: "speaks e ob = speaks d ob" by (simp add: speaks_def w s)
  show "warning_of e ob = warning_of d ob" by (simp add: warning_of_def render_def w s Let_def)
  show "same_decisions (snd (Observe ob d)) (snd (Observe ob e))"
    by (simp add: same_decisions_def Observe_state sp w s)
qed

fun is_observe :: "det_op \<Rightarrow> bool" where
  "is_observe (OpObserve ob) = True"
| "is_observe (OpDeliverable w at) = False"
| "is_observe (OpOutcome k oc) = False"

lemma feedback_same:
  assumes "\<not> is_observe x" "same_decisions d e"
  shows "fst (det_step x d) = []" "same_decisions (snd (det_step x d)) e"
proof (atomize (full), cases x)
  case (OpObserve ob)
  then show "fst (det_step x d) = [] \<and> same_decisions (snd (det_step x d)) e" using assms(1) by simp
next
  case (OpDeliverable w at)
  then show "fst (det_step x d) = [] \<and> same_decisions (snd (det_step x d)) e" using assms(2) by (simp add: Deliverable_def same_decisions_def)
next
  case (OpOutcome k oc)
  then show "fst (det_step x d) = [] \<and> same_decisions (snd (det_step x d)) e" using assms(2)
    by (auto simp: RecordOutcome_def same_decisions_def Let_def split: option.split)
qed

lemma det_run_Cons [simp]:
  "fst (det_run (x # xs) d) = fst (det_step x d) @ fst (det_run xs (snd (det_step x d)))" "snd (det_run (x # xs) d) = snd (det_run xs (snd (det_step x d)))"
  by (simp_all split: prod.split)

declare det_run.simps(2) [simp del]

lemma feedback_inert_gen: "same_decisions d e \<Longrightarrow> fst (det_run ops d) = fst (det_run (filter is_observe ops) e)"
proof (induction ops arbitrary: d e)
  case (Cons x ops)
  show ?case
  proof (cases x)
    case (OpObserve ob)
    have "fst (det_run ops (snd (Observe ob d))) = fst (det_run (filter is_observe ops) (snd (Observe ob e)))"
      by (rule Cons.IH) (rule same_observe(3) [OF Cons.prems])
    moreover have "fst (det_step (OpObserve ob) e) = fst (det_step (OpObserve ob) d)" "snd (det_step (OpObserve ob) h) = snd (Observe ob h)" for h
      using same_observe(1,2) [OF Cons.prems, of ob] Observe_output [of ob d] Observe_output [of ob e]
      by (auto split: prod.splits option.splits)
    ultimately show ?thesis by (simp add: OpObserve del: det_step.simps)
  next
    case (OpDeliverable w at)
    then have n: "\<not> is_observe x" by simp
    show ?thesis using feedback_same [OF n Cons.prems] Cons.IH [of "snd (det_step x d)" e] n by simp
  next
    case (OpOutcome k oc)
    then have n: "\<not> is_observe x" by simp
    show ?thesis using feedback_same [OF n Cons.prems] Cons.IH [of "snd (det_step x d)" e] n by simp
  qed
qed simp

text \<open>Feedback is one-way: the warnings of a session are those of its observations alone, whatever
  delivery checks and outcome reports are interleaved with them.\<close>

theorem feedback_inert: "fst (det_run ops d) = fst (det_run (filter is_observe ops) d)"
  by (rule feedback_inert_gen) (simp add: same_decisions_def)

section \<open>No warning begets a warning\<close>

lemma marker_in_warning: "sublist selfMarkerWarning (u @ FormatWarning w @ v)"
proof -
  have "FormatWarning w = selfMarkerWarning @ drop 9 (FormatWarning w)" by (simp add: FormatWarning_def selfMarkerWarning_def lit_def)
  then have "u @ FormatWarning w @ v = u @ selfMarkerWarning @ drop 9 (FormatWarning w) @ v" by (metis append_assoc)
  then show ?thesis by (metis sublist_appendI)
qed

text \<open>An observation with a rendered warning anywhere in its goal, target, action or failure is
  suppressed: it yields no warning and changes nothing but two counters.\<close>

theorem warning_text_suppressed:
  "list_all (\<lambda>sig. Observe (ob\<lparr>ob_Signature := sig\<rparr>) d
       = (None, d\<lparr>d_stats := (d_stats d)\<lparr>st_Observations := st_Observations (d_stats d) + 1, st_SelfSuppressed := st_SelfSuppressed (d_stats d) + 1\<rparr>\<rparr>))
     [s\<lparr>sg_Goal := u @ FormatWarning w @ v\<rparr>, s\<lparr>sg_Target := u @ FormatWarning w @ v\<rparr>,
      s\<lparr>sg_Action := u @ FormatWarning w @ v\<rparr>, s\<lparr>sg_Failure := u @ FormatWarning w @ v\<rparr>]"
  using marker_in_warning [of u w v] by (simp add: Observe_def IsSelfOriginated_def self_field_def Contains_def count_def)

section \<open>The command namespace\<close>

definition entry_segment :: "bytes \<Rightarrow> bool" where
  "entry_segment seg \<longleftrightarrow> seg = [] \<or> 2 \<le> length seg \<and> hd seg \<in> {0x2D, 0x5F} \<and> list_all isEntryByte (tl seg)"

lemma colon_no_entry: "\<not> isEntryByte 0x3A"
  by (simp add: isEntryByte_def)

lemma command_follows_iff: "command_follows rest \<longleftrightarrow> (\<exists>seg vs. rest = seg @ 0x3A # vs \<and> entry_segment seg)"
proof
  assume L: "command_follows rest"
  show "\<exists>seg vs. rest = seg @ 0x3A # vs \<and> entry_segment seg"
  proof (cases "prefix [0x3A] rest")
    case True
    then obtain vs where "rest = [] @ 0x3A # vs" by (auto elim: prefixE)
    then show ?thesis unfolding entry_segment_def by blast
  next
    case False
    let ?t = "takeWhile isEntryByte (tl rest)"
    obtain c r where r: "rest = c # r" using L False by (cases rest) (auto simp: command_follows_def HasPrefix_def lit_def)
    have h: "c = 0x2D \<or> c = 0x5F" "?t \<noteq> []" "length ?t < length r" "r ! length ?t = 0x3A"
      using L False by (auto simp: command_follows_def HasPrefix_def lit_def Let_def r)
    have "r = ?t @ 0x3A # drop (Suc (length ?t)) r"
      using h(3,4) id_take_nth_drop [of "length ?t" r] takeWhile_eq_take [of isEntryByte r] by (simp add: r)
    then have "rest = (c # ?t) @ 0x3A # drop (Suc (length ?t)) r" by (simp add: r)
    moreover have "list_all isEntryByte ?t" by (auto simp: list_all_iff dest: set_takeWhileD)
    then have "entry_segment (c # ?t)" using h(1,2) by (cases ?t) (auto simp: entry_segment_def)
    ultimately show ?thesis by blast
  qed
next
  assume "\<exists>seg vs. rest = seg @ 0x3A # vs \<and> entry_segment seg"
  then obtain seg vs where r: "rest = seg @ 0x3A # vs" and e: "entry_segment seg" by blast
  show "command_follows rest"
  proof (cases seg)
    case Nil
    then show ?thesis by (simp add: command_follows_def HasPrefix_def lit_def r)
  next
    case (Cons c seg')
    have a: "list_all isEntryByte seg'" "seg' \<noteq> []" "c = 0x2D \<or> c = 0x5F" using e Cons by (auto simp: entry_segment_def)
    have "takeWhile isEntryByte (seg' @ 0x3A # vs) = seg'" using a(1) colon_no_entry by (simp add: list_all_iff)
    then show ?thesis using a(2,3) by (simp add: command_follows_def r Cons Let_def nth_append)
  qed
qed

lemma slash_ns_eq: "slash_ns = [0x2F, 0x71, 0x6F, 0x6D, 0x70, 0x61, 0x63, 0x6B]"
  by (simp add: slash_ns_def selfMarkerSlashCommand_def lit_def)

lemma slash_once: "0 < j \<Longrightarrow> j < 8 \<Longrightarrow> slash_ns ! j \<noteq> 0x2F"
  by (simp add: slash_ns_eq nth_Cons' split: if_splits)

text \<open>Two occurrences of the namespace do not overlap.\<close>

lemma slash_apart:
  assumes p: "prefix slash_ns (drop i f)" and f: "f = us @ slash_ns @ vs" and i: "i < length us"
  shows "i + 8 \<le> length us"
proof (rule ccontr)
  assume "\<not> i + 8 \<le> length us"
  then have j: "0 < length us - i" "length us - i < 8" using i by auto
  obtain zs where "drop i f = slash_ns @ zs" using p by (auto elim: prefixE)
  moreover have "length slash_ns = 8" by (simp add: slash_ns_eq)
  ultimately have "drop i f ! (length us - i) = slash_ns ! (length us - i)" using j(2) by (simp add: nth_append)
  moreover have "drop i f ! (length us - i) = 0x2F" using i by (simp add: f nth_append slash_ns_eq)
  ultimately show False using slash_once [OF j] by simp
qed

text \<open>The search for a command of the program is exact: it finds one if and only if somewhere in the text
  the namespace is followed by a colon, or by a hyphen or underscore, a non-empty entry segment and a colon.\<close>

theorem slash_marker_exact:
  "hasSlashCommandMarker f \<longleftrightarrow> (\<exists>us seg vs. f = us @ slash_ns @ seg @ [0x3A] @ vs \<and> entry_segment seg)"
proof (induction f rule: hasSlashCommandMarker.induct)
  case (1 f)
  show ?case
  proof (cases "Index f slash_ns")
    case None
    then have "\<not> sublist slash_ns f" by (simp add: Index_None)
    then have "f \<noteq> us @ slash_ns @ x" for us x by auto
    then show ?thesis by (subst hasSlashCommandMarker.simps) (simp add: None)
  next
    case (Some i)
    let ?rest = "drop (i + length slash_ns) f"
    have p: "prefix slash_ns (drop i f)" by (rule Index_SomeD(1) [OF Some])
    have f: "f = take i f @ slash_ns @ ?rest"
    proof -
      obtain zs where z: "drop i f = slash_ns @ zs" using p by (auto elim: prefixE)
      then have "?rest = zs" by (metis add.commute append_eq_conv_conj drop_drop)
      then show ?thesis using z append_take_drop_id [of i f] by simp
    qed
    note IH = 1 [OF Some refl]
    have "hasSlashCommandMarker f \<longleftrightarrow> command_follows ?rest \<or> hasSlashCommandMarker ?rest"
      by (subst hasSlashCommandMarker.simps) (simp add: Some Let_def)
    also have "\<dots> \<longleftrightarrow> (\<exists>us seg vs. f = us @ slash_ns @ seg @ [0x3A] @ vs \<and> entry_segment seg)" (is "_ \<longleftrightarrow> ?R")
    proof
      assume "command_follows ?rest \<or> hasSlashCommandMarker ?rest"
      then show ?R
      proof
        assume "command_follows ?rest"
        then obtain seg vs where "?rest = seg @ 0x3A # vs" "entry_segment seg" by (auto simp: command_follows_iff)
        then show ?R using f by (intro exI [of _ "take i f"] exI [of _ seg] exI [of _ vs]) simp
      next
        assume "hasSlashCommandMarker ?rest"
        then obtain us seg vs where "?rest = us @ slash_ns @ seg @ [0x3A] @ vs" "entry_segment seg" using IH by blast
        then show ?R using f by (intro exI [of _ "take i f @ slash_ns @ us"] exI [of _ seg] exI [of _ vs]) simp
      qed
    next
      assume ?R
      then obtain us seg vs where R: "f = us @ slash_ns @ seg @ [0x3A] @ vs" "entry_segment seg" by blast
      have "prefix slash_ns (drop (length us) f)" by (simp add: R(1))
      then have "i \<le> length us" using Index_SomeD(3) [OF Some, of "length us"] by (cases "i \<le> length us") auto
      then consider "i = length us" | "i < length us" by linarith
      then show "command_follows ?rest \<or> hasSlashCommandMarker ?rest"
      proof cases
        case 1
        then have "?rest = seg @ 0x3A # vs" by (simp add: R(1))
        then show ?thesis using R(2) by (auto simp: command_follows_iff)
      next
        case 2
        then have "i + length slash_ns \<le> length us" using slash_apart [OF p R(1)] by (simp add: slash_ns_eq)
        then have "?rest = drop (i + length slash_ns) us @ slash_ns @ seg @ [0x3A] @ vs" by (simp add: R(1))
        then show ?thesis using IH R(2) by blast
      qed
    qed
    finally show ?thesis .
  qed
qed

section \<open>Bounds along every session\<close>

definition window_ok :: "DetectorConfig \<Rightarrow> bytes \<Rightarrow> stateWindow \<Rightarrow> bool" where
  "window_ok c k w \<longleftrightarrow> w_turns w \<noteq> [] \<and> distinct (w_turns w) \<and> int (length (w_turns w)) \<le> w_occurrences w
     \<and> (\<forall>t \<in> set (w_turns w). windowOrdinal t (dc_WindowTurns c) = w_ordinal w) \<and> (\<exists>sig. k = dedupKeyFor (Key sig) (w_ordinal w))"

text \<open>What every delivered warning satisfies.\<close>

definition warning_ok :: "DetectorConfig \<Rightarrow> StateWarning \<Rightarrow> bool" where
  "warning_ok c w \<longleftrightarrow> dc_MinRepeats c \<le> sw_Repeats w \<and> sw_Turns w \<noteq> [] \<and> sorted_wrt (<) (sw_Turns w)
     \<and> int (length (sw_Turns w)) \<le> dc_WindowTurns c \<and> int (length (sw_Turns w)) \<le> sw_Repeats w
     \<and> list_all (\<lambda>t. sw_DedupKey w = dedupKeyFor (Key (sw_Signature w)) (windowOrdinal t (dc_WindowTurns c))) (sw_Turns w)
     \<and> sw_ExpiresAt w \<in> (\<lambda>t. t + dc_ExpiryTurns c) ` set (sw_Turns w)
     \<and> (sw_Uncertain w \<longleftrightarrow> wa_Message (sw_Warning w) = messageRepeatedStateUncertain) \<and> elems (ru_Expansion (wa_Rule (sw_Warning w))) \<noteq> []
     \<and> wa_Repeats (sw_Warning w) = sw_Repeats w \<and> wa_Turns (sw_Warning w) = sw_Turns w"

definition judged :: "(bytes \<rightharpoonup> Outcome) \<Rightarrow> bytes set" where
  "judged m = {k. \<exists>oc. m k = Some oc \<and> oc \<noteq> OutcomeUnknown}"

lemma judged_dom: "judged m \<subseteq> dom m"
  by (auto simp: judged_def)

lemma judged_unknown: "m k = None \<Longrightarrow> judged (m(k \<mapsto> OutcomeUnknown)) = judged m"
  by (auto simp: judged_def)

lemma judged_outcome: "oc \<noteq> OutcomeUnknown \<Longrightarrow> judged (m(k \<mapsto> oc)) = insert k (judged m)"
  by (auto simp: judged_def)

definition session_inv :: "DetectorConfig \<Rightarrow> StateWarning list \<Rightarrow> Detector \<Rightarrow> bool" where
  "session_inv c ws d \<longleftrightarrow> d_cfg d = c \<and> d_delivered d = int (length ws) \<and> dom (d_warned d) = sw_DedupKey ` set ws
     \<and> distinct (map sw_DedupKey ws) \<and> length ws \<le> nat (dc_MaxPerSession c) \<and> (\<forall>k w. d_windows d k = Some w \<longrightarrow> window_ok c k w)
     \<and> list_all (warning_ok c) ws \<and> st_Delivered (d_stats d) = int (length ws)
     \<and> st_Useful (d_stats d) + st_FalseAlarms (d_stats d) \<le> int (card (judged (d_warned d)))
     \<and> accounted (d_stats d) \<le> st_Observations (d_stats d)"

lemma normalized_pos: "2 \<le> dc_MinRepeats (normalized_config c)" "0 < dc_WindowTurns (normalized_config c)" "0 < dc_ExpiryTurns (normalized_config c)"
  by (simp_all add: normalized_config_def)

lemma note_in_window_simps [simp]:
  "w_ordinal (note_in_window ob w) = w_ordinal w" "w_occurrences (note_in_window ob w) = w_occurrences w + 1"
  "w_turns (note_in_window ob w) = (if ob_Turn ob \<in> set (w_turns w) then w_turns w else w_turns w @ [ob_Turn ob])"
  "w_symbols (note_in_window ob w) = (if ob_Symbols ob \<noteq> [] then ob_Symbols ob else w_symbols w)"
  "w_progressObserved (note_in_window ob w) \<longleftrightarrow> w_progressObserved w \<or> ob_Progress ob = ProgressObserved"
  "w_unknownSeen (note_in_window ob w) \<longleftrightarrow> w_unknownSeen w \<or> ob_Progress ob \<notin> {ProgressNone, ProgressObserved}"
  "w_partialCoverage (note_in_window ob w) \<longleftrightarrow> w_partialCoverage w \<or> ob_PartialCoverage ob"
  by (auto simp: note_in_window_def Let_def)

lemma advance_windows: "d_windows (advanceTo p d) k = Some w \<Longrightarrow> d_windows d k = Some w"
  by (auto simp: advanceTo_def Let_def split: if_splits option.splits)

lemma window_after_ok:
  assumes "\<And>k w. d_windows d k = Some w \<Longrightarrow> window_ok (d_cfg d) k w"
  shows "window_ok (d_cfg d) (ob_key (d_cfg d) ob) (window_after d ob)" "ob_Turn ob \<in> set (w_turns (window_after d ob))"
    "w_ordinal (window_after d ob) = ob_ordinal (d_cfg d) ob"
proof -
  let ?c = "d_cfg d" let ?p = "ob_ordinal ?c ob" let ?k = "ob_key ?c ob"
  show "ob_Turn ob \<in> set (w_turns (window_after d ob))" by (simp add: window_after_def)
  have "window_ok ?c ?k (window_after d ob) \<and> w_ordinal (window_after d ob) = ?p"
  proof (cases "d_windows (advanceTo ?p d) ?k")
    case None
    then show ?thesis by (auto simp: window_after_def window_ok_def new_window_def ob_key_def ob_ordinal_def)
  next
    case (Some w)
    then have w: "window_ok ?c ?k w" using assms advance_windows by blast
    then obtain sig where "?k = dedupKeyFor (Key sig) (w_ordinal w)" by (auto simp: window_ok_def)
    then have p: "w_ordinal w = ?p" by (auto simp: ob_key_def dest: dedupKey_inj)
    have a: "window_after d ob = note_in_window ob w" by (simp add: window_after_def Some)
    have t: "windowOrdinal (ob_Turn ob) (dc_WindowTurns ?c) = w_ordinal w" by (simp add: p ob_ordinal_def)
    have "window_ok ?c ?k (note_in_window ob w)" using w t unfolding window_ok_def by simp
    then show ?thesis by (simp add: a p)
  qed
  then show "window_ok ?c ?k (window_after d ob)" "w_ordinal (window_after d ob) = ?p" by blast+
qed

lemma turns_in_window:
  assumes "0 < width" "distinct ts" "\<forall>t \<in> set ts. windowOrdinal t width = p"
  shows "int (length ts) \<le> width"
proof -
  have "set ts \<subseteq> {p * width ..< p * width + width}" using assms(3) same_window [OF assms(1)] by blast
  then have "card (set ts) \<le> card {p * width ..< p * width + width}" by (intro card_mono) auto
  then show ?thesis using assms(1,2) by (simp add: distinct_card)
qed

lemma sort_eq_Nil [simp]: "sort xs = [] \<longleftrightarrow> xs = []"
  by (metis set_empty set_sort)

lemma warning_of_ok:
  assumes c: "d_cfg d = normalized_config c" and w: "\<And>k w. d_windows d k = Some w \<Longrightarrow> window_ok (d_cfg d) k w" and s: "speaks d ob"
  shows "warning_ok (d_cfg d) (warning_of d ob)"
proof -
  let ?w = "window_after d ob" let ?k = "ob_key (d_cfg d) ob"
  note wa = window_after_ok [OF w, of ob]
  have ok: "window_ok (d_cfg d) ?k ?w" by (rule wa(1))
  have pos: "0 < dc_WindowTurns (d_cfg d)" by (simp add: c normalized_pos)
  have l: "int (length (w_turns ?w)) \<le> dc_WindowTurns (d_cfg d)" by (rule turns_in_window [OF pos, of _ "w_ordinal ?w"]) (use ok in \<open>auto simp: window_ok_def\<close>)
  have k: "?k = dedupKeyFor (Key (ob_Signature ob)) (windowOrdinal t (dc_WindowTurns (d_cfg d)))" if "t \<in> set (w_turns ?w)" for t
    using ok that wa(3) by (simp add: window_ok_def ob_key_def)
  have m: "messageRepeatedState \<noteq> messageRepeatedStateUncertain" by (simp add: messageRepeatedState_def messageRepeatedStateUncertain_def lit_def)
  have "ob_Signature ob \<noteq> emptySignature" using s by (simp add: speaks_def accepted_def)
  then have "\<not> (sg_Goal (ob_Signature ob) = [] \<and> sg_Target (ob_Signature ob) = [] \<and> sg_Action (ob_Signature ob) = [] \<and> sg_Failure (ob_Signature ob) = [])"
    by (auto simp: emptySignature_def)
  then have e: "elems (stateExpansion (ob_Signature ob) (w_symbols ?w)) \<noteq> []" by (auto simp: stateExpansion_def elems_def)
  show ?thesis using ok s l k m e wa(2)
    by (auto simp: warning_ok_def warning_of_def render_def Let_def window_ok_def speaks_def strict_sorted_iff list_all_iff)
qed

lemma session_observe:
  assumes I: "session_inv (normalized_config c) ws d"
  shows "session_inv (normalized_config c) (ws @ fst (det_step (OpObserve ob) d)) (snd (det_step (OpObserve ob) d))"
proof -
  have cfg: "d_cfg d = normalized_config c" using I by (simp add: session_inv_def)
  have w: "window_ok (d_cfg d) k w" if "d_windows d k = Some w" for k w using I that by (simp add: session_inv_def)
  have W: "window_ok (d_cfg d) k w" if "d_windows (snd (Observe ob d)) k = Some w" for k w
    using that w window_after_ok(1) [OF w, of ob] advance_windows [of _ d k w] by (auto simp: Observe_state split: if_splits)
  show ?thesis
  proof (cases rule: Observe_cases [of d ob])
    case silent
    then show ?thesis using I W by (simp add: session_inv_def Observe_state Observe_stats)
  next
    case speaks
    let ?k = "ob_key (d_cfg d) ob"
    have k: "sw_DedupKey (warning_of d ob) = ?k" by (simp add: warning_of_def render_def Let_def)
    have "d_warned d ?k = None" using speaks(1) by (auto simp: speaks_def)
    moreover from this have "?k \<notin> dom (d_warned d)" "judged ((d_warned d)(?k \<mapsto> OutcomeUnknown)) = judged (d_warned d)"
      by (auto simp: judged_unknown)
    moreover have "d_delivered d < dc_MaxPerSession (d_cfg d)" using speaks(1) by (simp add: speaks_def)
    moreover have "\<not> too_few d ob" using speaks(1) by (auto simp: speaks_def too_few_def)
    ultimately show ?thesis using I W speaks warning_of_ok [OF cfg w speaks(1)] k
      by (auto simp: session_inv_def Observe_state Observe_stats)
  qed
qed

lemma session_feedback:
  assumes I: "session_inv c ws d" and n: "\<not> is_observe x"
  shows "session_inv c (ws @ fst (det_step x d)) (snd (det_step x d))"
proof (cases x)
  case (OpDeliverable w at)
  then show ?thesis using I by (simp add: Deliverable_def session_inv_def accounted_def)
next
  case (OpOutcome k oc)
  show ?thesis
  proof (cases "\<exists>prev. d_warned d k = Some prev \<and> prev = OutcomeUnknown \<and> oc \<noteq> OutcomeUnknown")
    case False
    then have "snd (RecordOutcome k oc d) = d" by (auto simp: RecordOutcome_def split: option.split)
    then show ?thesis using I OpOutcome by simp
  next
    case True
    have "finite (dom (d_warned d))" using I by (simp add: session_inv_def)
    then have "finite (judged (d_warned d))" by (rule finite_subset [OF judged_dom])
    moreover have "k \<notin> judged (d_warned d)" using True by (auto simp: judged_def)
    ultimately have c: "card (judged ((d_warned d)(k \<mapsto> oc))) = Suc (card (judged (d_warned d)))" using True by (simp add: judged_outcome)
    have "dom ((d_warned d)(k \<mapsto> oc)) = dom (d_warned d)" using True by auto
    then show ?thesis using I True OpOutcome c by (auto simp: RecordOutcome_def Let_def session_inv_def accounted_def count_def)
  qed
qed (use n in simp)

lemma session_ok: "session_inv (normalized_config c) ws d \<Longrightarrow> session_inv (normalized_config c) (ws @ fst (det_run ops d)) (snd (det_run ops d))"
proof (induction ops arbitrary: ws d)
  case (Cons x ops)
  have "session_inv (normalized_config c) (ws @ fst (det_step x d)) (snd (det_step x d))"
    using session_observe [OF Cons.prems] session_feedback [OF Cons.prems, of x] by (cases x) auto
  from Cons.IH [OF this] show ?case by simp
qed simp


end
