(* ===== verification/StateWarnRef.thy ===== *)
theory StateWarnRef
  imports StateWarnProps
begin

text \<open>
  A reference for the loop detector with no state but the history: a warning is due when the
  observations so far with the same signature key and window are enough and none of them saw progress.
  On observations in turn order the detector gives exactly the warnings of the reference.
\<close>

section \<open>The reference\<close>

definition run_of :: "DetectorConfig \<Rightarrow> Observation list \<Rightarrow> bytes \<Rightarrow> Observation list" where
  "run_of c hs k = filter (\<lambda>h. accepted h \<and> ob_key c h = k) hs"

definition last_symbols :: "Observation list \<Rightarrow> Symbol list" where
  "last_symbols r = (let ss = filter (\<lambda>ss. ss \<noteq> []) (map ob_Symbols r) in if ss = [] then [] else last ss)"

definition saw_unknown :: "Observation list \<Rightarrow> bool" where
  "saw_unknown r \<longleftrightarrow> list_ex (\<lambda>h. ob_Progress h \<notin> {ProgressNone, ProgressObserved}) r"

definition ref_warning :: "DetectorConfig \<Rightarrow> Observation list \<Rightarrow> Observation \<Rightarrow> StateWarning" where
  "ref_warning c r ob =
     (let uncertain = (saw_unknown r \<or> list_ex ob_PartialCoverage r); turns = sorted_list_of_set (ob_Turn ` set r)
      in \<lparr>sw_Signature = ob_Signature ob, sw_Repeats = int (length r), sw_Turns = turns,
          sw_Progress = (if saw_unknown r then ProgressUnknown else ProgressNone), sw_Uncertain = uncertain,
          sw_DedupKey = ob_key c ob, sw_ExpiresAt = ob_Turn ob + dc_ExpiryTurns c,
          sw_Warning = \<lparr>wa_Rule = \<lparr>ru_ID = 0, ru_Body = None, ru_Uses = 0, ru_Expansion = stateExpansion (ob_Signature ob) (last_symbols r), ru_Span = 0\<rparr>,
            wa_Repeats = int (length r), wa_Message = (if uncertain then messageRepeatedStateUncertain else messageRepeatedState), wa_Turns = turns\<rparr>\<rparr>)"

definition due :: "DetectorConfig \<Rightarrow> Observation list \<Rightarrow> Observation \<Rightarrow> bool" where
  "due c r ob \<longleftrightarrow> accepted ob \<and> list_all (\<lambda>h. ob_Progress h \<noteq> ProgressObserved) r \<and> dc_MinRepeats c \<le> int (length r)"

fun ref_run :: "DetectorConfig \<Rightarrow> Observation list \<Rightarrow> bytes list \<Rightarrow> Observation list \<Rightarrow> StateWarning list" where
  "ref_run c past keys [] = []"
| "ref_run c past keys (ob # obs) =
     (let past' = past @ [ob]; k = ob_key c ob; r = run_of c past' k
      in if due c r ob \<and> k \<notin> set keys \<and> int (length keys) < dc_MaxPerSession c
         then ref_warning c r ob # ref_run c past' (k # keys) obs
         else ref_run c past' keys obs)"

section \<open>A window is the run it has seen\<close>

definition window_for :: "Observation list \<Rightarrow> stateWindow \<Rightarrow> bool" where
  "window_for r w \<longleftrightarrow> w_occurrences w = int (length r) \<and> set (w_turns w) = ob_Turn ` set r \<and> distinct (w_turns w) \<and> w_symbols w = last_symbols r
     \<and> (w_progressObserved w \<longleftrightarrow> list_ex (\<lambda>h. ob_Progress h = ProgressObserved) r) \<and> (w_unknownSeen w \<longleftrightarrow> saw_unknown r)
     \<and> (w_partialCoverage w \<longleftrightarrow> list_ex ob_PartialCoverage r)"

lemma window_for_new: "window_for [] (new_window p)"
  by (simp add: window_for_def new_window_def last_symbols_def saw_unknown_def)

lemma window_for_note:
  assumes "window_for r w"
  shows "window_for (r @ [ob]) (note_in_window ob w)"
proof -
  have "last_symbols (r @ [ob]) = (if ob_Symbols ob \<noteq> [] then ob_Symbols ob else last_symbols r)"
    by (simp add: last_symbols_def)
  then show ?thesis using assms by (auto simp: window_for_def saw_unknown_def)
qed

lemma sort_turns: "window_for r w \<Longrightarrow> sort (w_turns w) = sorted_list_of_set (ob_Turn ` set r)"
  unfolding window_for_def by (metis distinct_remdups_id sorted_list_of_set_sort_remdups)

lemma ref_warning_eq:
  assumes "window_for r (window_after d ob)" "d_cfg d = c"
  shows "warning_of d ob = ref_warning c r ob"
  using assms sort_turns [OF assms(1)] by (simp add: warning_of_def render_def ref_warning_def window_for_def Let_def)

lemma due_eq:
  assumes "window_for r (window_after d ob)" "d_cfg d = c"
  shows "speaks d ob \<longleftrightarrow> due c r ob \<and> d_warned d (ob_key c ob) = None \<and> d_delivered d < dc_MaxPerSession c"
  using assms by (auto simp: speaks_def due_def window_for_def list_ex_iff list_all_iff)

section \<open>The simulation\<close>

definition sim :: "DetectorConfig \<Rightarrow> Observation list \<Rightarrow> bytes list \<Rightarrow> Detector \<Rightarrow> bool" where
  "sim c hs keys d \<longleftrightarrow> d_cfg d = c \<and> dom (d_warned d) = set keys \<and> d_delivered d = int (length keys)
     \<and> (\<forall>k w. d_windows d k = Some w \<longrightarrow> window_for (run_of c hs k) w \<and> (\<exists>sig. k = dedupKeyFor (Key sig) (w_ordinal w)))
     \<and> (\<forall>h \<in> set hs. accepted h \<and> d_maxOrdinal d \<le> ob_ordinal c h \<longrightarrow> d_windows d (ob_key c h) \<noteq> None)
     \<and> (\<forall>h \<in> set hs. accepted h \<longrightarrow> d_seenOrdinal d \<and> ob_ordinal c h \<le> d_maxOrdinal d)
     \<and> (d_seenOrdinal d \<longrightarrow> (\<exists>h \<in> set hs. accepted h \<and> ob_ordinal c h = d_maxOrdinal d))"

lemma simD:
  assumes "sim c hs keys d"
  shows "d_cfg d = c" "dom (d_warned d) = set keys" "d_delivered d = int (length keys)"
    "d_windows d k = Some w \<Longrightarrow> window_for (run_of c hs k) w" "d_windows d k = Some w \<Longrightarrow> \<exists>sig. k = dedupKeyFor (Key sig) (w_ordinal w)"
    "h \<in> set hs \<Longrightarrow> accepted h \<Longrightarrow> d_maxOrdinal d \<le> ob_ordinal c h \<Longrightarrow> d_windows d (ob_key c h) \<noteq> None"
    "h \<in> set hs \<Longrightarrow> accepted h \<Longrightarrow> d_seenOrdinal d" "h \<in> set hs \<Longrightarrow> accepted h \<Longrightarrow> ob_ordinal c h \<le> d_maxOrdinal d"
    "d_seenOrdinal d \<Longrightarrow> \<exists>h \<in> set hs. accepted h \<and> ob_ordinal c h = d_maxOrdinal d"
  using assms unfolding sim_def by blast+

lemma same_key_ordinal: "ob_key c h = ob_key c ob \<Longrightarrow> ob_ordinal c h = ob_ordinal c ob"
  using dedupKey_inj unfolding ob_key_def by blast

lemma run_snoc: "run_of c (hs @ [ob]) k = run_of c hs k @ (if accepted ob \<and> ob_key c ob = k then [ob] else [])"
  by (simp add: run_of_def)

text \<open>In turn order the window an observation finds is the run it belongs to.\<close>

lemma window_found:
  assumes S: "sim c hs keys d" and acc: "accepted ob" and late: "\<And>h. h \<in> set hs \<Longrightarrow> ob_ordinal c h \<le> ob_ordinal c ob"
  shows "window_for (run_of c (hs @ [ob]) (ob_key c ob)) (window_after d ob)"
proof -
  let ?p = "ob_ordinal c ob" let ?k = "ob_key c ob"
  note cfg = simD(1) [OF S]
  have "window_for (run_of c hs ?k) (case d_windows (advanceTo ?p d) ?k of None \<Rightarrow> new_window ?p | Some w \<Rightarrow> w)"
  proof (cases "d_windows (advanceTo ?p d) ?k")
    case None
    have "\<not> (accepted h \<and> ob_key c h = ?k)" if h: "h \<in> set hs" for h
    proof
      assume a: "accepted h \<and> ob_key c h = ?k"
      then have p: "ob_ordinal c h = ?p" by (auto dest: same_key_ordinal)
      have seen: "d_seenOrdinal d" and le: "?p \<le> d_maxOrdinal d" using simD(7,8) [OF S h] a p by auto
      obtain h' where "h' \<in> set hs" "ob_ordinal c h' = d_maxOrdinal d" using simD(9) [OF S seen] by blast
      then have "d_maxOrdinal d \<le> ob_ordinal c h" using late [of h'] p by simp
      then have "d_windows d ?k \<noteq> None" using simD(6) [OF S h] a by auto
      then show False using None seen le by (simp add: advanceTo_def)
    qed
    then have "run_of c hs ?k = []" by (simp add: run_of_def filter_empty_conv)
    then show ?thesis using None window_for_new by simp
  next
    case (Some w)
    then show ?thesis using simD(4) [OF S advance_windows [OF Some]] by simp
  qed
  from window_for_note [OF this, of ob] show ?thesis using acc unfolding window_after_def cfg by (simp add: run_snoc)
qed

lemma sim_observe:
  assumes S: "sim c hs keys d" and late: "\<And>h. h \<in> set hs \<Longrightarrow> ob_ordinal c h \<le> ob_ordinal c ob"
  shows "sim c (hs @ [ob]) (if speaks d ob then ob_key c ob # keys else keys) (snd (Observe ob d))"
proof (cases "accepted ob")
  case False
  have "\<not> speaks d ob" using False by (simp add: speaks_def)
  then show ?thesis using S False unfolding sim_def by (auto simp: Observe_state run_snoc)
next
  case True
  let ?p = "ob_ordinal c ob" let ?k = "ob_key c ob" let ?d = "snd (Observe ob d)" let ?a = "advanceTo ?p d"
  note cfg = simD(1) [OF S]
  have W: "d_windows ?d = (d_windows ?a)(?k \<mapsto> window_after d ob)" and m: "d_maxOrdinal ?d = d_maxOrdinal ?a" "d_seenOrdinal ?d = d_seenOrdinal ?a"
    using True by (simp_all add: Observe_state cfg)
  have seen: "d_seenOrdinal ?a" and le: "?p \<le> d_maxOrdinal ?a" by (auto simp: advanceTo_def Let_def)
  have mx: "d_maxOrdinal ?a = ?p"
  proof (cases "d_seenOrdinal d")
    case True
    then obtain h where h: "h \<in> set hs" "ob_ordinal c h = d_maxOrdinal d" using simD(9) [OF S] by blast
    then show ?thesis using late [of h] by (auto simp: advanceTo_def Let_def)
  qed (simp add: advanceTo_def Let_def)
  have key: "w_ordinal w = ob_ordinal c h" if w: "d_windows d (ob_key c h) = Some w" for h w
  proof -
    obtain sig where "ob_key c h = dedupKeyFor (Key sig) (w_ordinal w)" using simD(5) [OF S w] by blast
    then show ?thesis unfolding ob_key_def by (auto dest: dedupKey_inj)
  qed
  have keep: "d_windows ?a (ob_key c h) \<noteq> None" if h: "h \<in> set hs" "accepted h" "?p \<le> ob_ordinal c h" for h
  proof -
    have "d_maxOrdinal d \<le> ?p" if sn: "d_seenOrdinal d"
    proof -
      obtain h' where "h' \<in> set hs" "ob_ordinal c h' = d_maxOrdinal d" using simD(9) [OF S sn] by blast
      then show ?thesis using late [of h'] by simp
    qed
    then have "d_maxOrdinal d \<le> ob_ordinal c h" using simD(7) [OF S h(1,2)] h(3) by simp
    then obtain w where w: "d_windows d (ob_key c h) = Some w" using simD(6) [OF S h(1,2)] by blast
    then show ?thesis using key [OF w] h(3) by (simp add: advanceTo_def Let_def)
  qed
  have wo: "window_for (run_of c (hs @ [ob]) k) w \<and> (\<exists>sig. k = dedupKeyFor (Key sig) (w_ordinal w))" if w: "d_windows ?d k = Some w" for k w
  proof (cases "k = ?k")
    case True
    then have "w = window_after d ob" using w by (simp add: W)
    moreover have "w_ordinal (window_after d ob) = ?p"
    proof (cases "d_windows ?a ?k")
      case (Some v)
      then show ?thesis using key [OF advance_windows [OF Some]] by (simp add: window_after_def cfg)
    qed (simp add: window_after_def cfg new_window_def)
    ultimately show ?thesis using True window_found [OF S \<open>accepted ob\<close> late] by (auto simp: ob_key_def)
  next
    case False
    then have v: "d_windows d k = Some w" using w advance_windows [of ?p d k w] by (simp add: W)
    have "run_of c (hs @ [ob]) k = run_of c hs k" using False by (simp add: run_snoc)
    then show ?thesis using simD(4) [OF S v] simD(5) [OF S v] by (simp only: simp_thms)
  qed
  have "d_cfg ?d = c" "dom (d_warned ?d) = set (if speaks d ob then ?k # keys else keys)" "d_delivered ?d = int (length (if speaks d ob then ?k # keys else keys))"
    using simD(1-3) [OF S] by (simp_all add: Observe_state)
  moreover have "d_windows ?d (ob_key c h) \<noteq> None" if "h \<in> set (hs @ [ob])" "accepted h" "d_maxOrdinal ?d \<le> ob_ordinal c h" for h
    using that keep [of h] by (auto simp: W m mx)
  moreover have "d_seenOrdinal ?d" "\<And>h. h \<in> set (hs @ [ob]) \<Longrightarrow> ob_ordinal c h \<le> d_maxOrdinal ?d" using late seen by (auto simp: m mx)
  moreover have "\<exists>h \<in> set (hs @ [ob]). accepted h \<and> ob_ordinal c h = d_maxOrdinal ?d" using True by (auto simp: m mx)
  ultimately show ?thesis using wo unfolding sim_def by blast
qed

lemma ref_run_eq:
  assumes "sim c hs keys d" "sorted (map ob_Turn (hs @ obs))" "0 < dc_WindowTurns c"
  shows "fst (det_run (map OpObserve obs) d) = ref_run c hs keys obs"
  using assms(1,2)
proof (induction obs arbitrary: hs keys d)
  case (Cons ob obs)
  let ?k = "ob_key c ob" let ?r = "run_of c (hs @ [ob]) ?k"
  note S = Cons.prems(1) and cfg = simD(1) [OF Cons.prems(1)]
  have late: "ob_ordinal c h \<le> ob_ordinal c ob" if "h \<in> set hs" for h
    unfolding ob_ordinal_def by (rule windowOrdinal_mono [OF assms(3)]) (use Cons.prems(2) that in \<open>auto simp: sorted_append\<close>)
  have dw: "d_warned d ?k = None \<longleftrightarrow> ?k \<notin> set keys" using simD(2) [OF S] by auto
  have sp: "speaks d ob \<longleftrightarrow> due c ?r ob \<and> ?k \<notin> set keys \<and> int (length keys) < dc_MaxPerSession c"
  proof (cases "accepted ob")
    case True
    from due_eq [OF window_found [OF S True late] cfg] show ?thesis by (simp add: dw simD(3) [OF S])
  qed (simp add: speaks_def due_def)
  have IH: "fst (det_run (map OpObserve obs) (snd (Observe ob d))) = ref_run c (hs @ [ob]) (if speaks d ob then ?k # keys else keys) obs"
    by (rule Cons.IH [OF sim_observe [OF S late]]) (use Cons.prems(2) in auto)
  show ?case
  proof (cases rule: Observe_cases [of d ob])
    case silent
    then have "ref_run c hs keys (ob # obs) = ref_run c (hs @ [ob]) keys obs" unfolding ref_run.simps Let_def sp [symmetric] by simp
    then show ?thesis using IH silent by (simp del: det_step.simps ref_run.simps)
  next
    case speaks
    then have a: "accepted ob" by (simp add: speaks_def)
    have "ref_run c hs keys (ob # obs) = ref_warning c ?r ob # ref_run c (hs @ [ob]) (?k # keys) obs"
      using speaks(1) unfolding ref_run.simps Let_def sp [symmetric] by simp
    then show ?thesis using IH speaks ref_warning_eq [OF window_found [OF S a late] cfg] by (simp del: det_step.simps ref_run.simps)
  qed
qed simp

fun observations :: "det_op list \<Rightarrow> Observation list" where
  "observations [] = []"
| "observations (OpObserve ob # ops) = ob # observations ops"
| "observations (_ # ops) = observations ops"


section \<open>A stuck session\<close>

definition stuck :: "int \<Rightarrow> Observation" where
  "stuck t = \<lparr>ob_Signature = \<lparr>sg_Goal = lit ''fix'', sg_Target = lit ''a.go'', sg_Action = lit ''Bash'', sg_Failure = lit ''exit 1''\<rparr>, ob_Turn = t,
     ob_Progress = ProgressNone, ob_SelfOriginated = False, ob_PartialCoverage = False, ob_Symbols = []\<rparr>"

lemma stuck_accepted: "accepted (stuck t)"
proof -
  have "\<not> self_field f" if "f \<in> {lit ''fix'', lit ''a.go'', lit ''Bash'', lit ''exit 1''}" for f
    using that by (auto simp: self_field_def HasPrefix_def Contains_def isHostSelfTool_def CutHostPluginTool_def CutPrefix_def hostPluginToolPrefix_def
      selfMarkerMCPTool_def selfMarkerWarning_def selfMarkerStateDir_def hasSlashCommandMarker.simps slash_ns_eq lit_def sublist_Cons_right)
  then show ?thesis by (auto simp: accepted_def stuck_def IsSelfOriginated_def emptySignature_def lit_def)
qed


end
