(* ===== verification/DerivedState.thy ===== *)
theory DerivedState
  imports CoreHash
begin

text \<open>
  The derived-state model of \<^verbatim>\<open>internal/state\<close>: records of what is believed, on whose authority and where,
  and the transitions between them (\<^verbatim>\<open>record.go\<close>, \<^verbatim>\<open>set.go\<close>), with the checks a durable document passes when
  it is read back (\<^verbatim>\<open>codec.go\<close>, the document being the parsed JSON value).  A record pointer of the set is
  the record's identifier, and a write through it an update of the map.  Values are immutable, so the deep
  copies at the boundary are the identity.
\<close>

section \<open>Authority and scope\<close>

type_synonym Authority = bytes

definition AuthorityUserCorrection :: Authority where "AuthorityUserCorrection = lit ''user_correction''"
definition AuthorityExplicitDecision :: Authority where "AuthorityExplicitDecision = lit ''explicit_decision''"
definition AuthorityToolObservation :: Authority where "AuthorityToolObservation = lit ''tool_observation''"
definition AuthorityCandidateExtraction :: Authority where "AuthorityCandidateExtraction = lit ''candidate_extraction''"
definition AuthorityHypothesis :: Authority where "AuthorityHypothesis = lit ''hypothesis''"
definition AuthorityConflict :: Authority where "AuthorityConflict = lit ''conflict''"

definition Authority_Valid :: "Authority \<Rightarrow> bool" where
  "Authority_Valid a \<longleftrightarrow> a = AuthorityUserCorrection \<or> a = AuthorityExplicitDecision \<or> a = AuthorityToolObservation
     \<or> a = AuthorityCandidateExtraction \<or> a = AuthorityHypothesis \<or> a = AuthorityConflict"

definition Authoritative :: "Authority \<Rightarrow> bool" where
  "Authoritative a \<longleftrightarrow> a = AuthorityUserCorrection \<or> a = AuthorityExplicitDecision"

definition authorityRank :: "Authority \<Rightarrow> int" where
  "authorityRank a =
     (if a = AuthorityUserCorrection \<or> a = AuthorityExplicitDecision then 4
      else if a = AuthorityToolObservation then 3
      else if a = AuthorityCandidateExtraction then 2
      else if a = AuthorityHypothesis then 1
      else 0)"

definition CanSupersede :: "Authority \<Rightarrow> Authority \<Rightarrow> bool" where
  "CanSupersede newer existing \<longleftrightarrow>
     (if \<not> Authority_Valid newer \<or> \<not> Authority_Valid existing \<or> newer = AuthorityConflict then False
      else if Authoritative existing then Authoritative newer
      else authorityRank newer \<ge> authorityRank existing)"

record Scope =
  sc_Worktree :: bytes
  sc_Session :: bytes

definition Scope_IsZero :: "Scope \<Rightarrow> bool" where
  "Scope_IsZero s \<longleftrightarrow> s = \<lparr>sc_Worktree = [], sc_Session = []\<rparr>"

definition WorktreeScope :: "bytes \<Rightarrow> Scope" where
  "WorktreeScope worktree = \<lparr>sc_Worktree = worktree, sc_Session = []\<rparr>"

definition SessionScope :: "bytes \<Rightarrow> bytes \<Rightarrow> Scope" where
  "SessionScope worktree session = \<lparr>sc_Worktree = worktree, sc_Session = session\<rparr>"

definition AppliesTo :: "Scope \<Rightarrow> Scope \<Rightarrow> bool" where
  "AppliesTo s q \<longleftrightarrow>
     (if Scope_IsZero s \<or> Scope_IsZero q then False
      else if sc_Worktree s \<noteq> sc_Worktree q then False
      else sc_Session s = [] \<or> sc_Session s = sc_Session q)"

section \<open>Records\<close>

type_synonym RecordID = bytes

definition DomainRecordID :: bytes where "DomainRecordID = lit ''qompack.state.record.v1''"
abbreviation (input) fieldSep :: byte where "fieldSep \<equiv> 0x1F"
abbreviation (input) RecordVersion :: int where "RecordVersion \<equiv> 1"

datatype state_error = ErrContract | ErrAppendOnly | ErrNotFound

definition NewRecordID :: "Scope \<Rightarrow> u64 \<Rightarrow> (state_error, RecordID) result" where
  "NewRecordID scope sequence =
     (if sequence = 0 then Inl ErrContract
      else Inr (Hash_String (HashBytes DomainRecordID
             (sc_Worktree scope @ [fieldSep] @ sc_Session scope @ [fieldSep] @ rev (le_put 8 (unat sequence))))))"

definition DepCoverageComplete :: bytes where "DepCoverageComplete = lit ''complete''"
definition DepCoveragePartial :: bytes where "DepCoveragePartial = lit ''partial''"
definition DepCoverageUnknown :: bytes where "DepCoverageUnknown = lit ''unknown''"

definition DepCoverage_Valid :: "bytes \<Rightarrow> bool" where
  "DepCoverage_Valid c \<longleftrightarrow> c = DepCoverageComplete \<or> c = DepCoveragePartial \<or> c = DepCoverageUnknown"

record Dependencies =
  de_Deps :: "(bytes \<times> hash) list"
  de_Coverage :: bytes
  de_Reason :: bytes

definition LineageSuperseded :: bytes where "LineageSuperseded = lit ''superseded''"
definition LineageCorrected :: bytes where "LineageCorrected = lit ''corrected''"
definition LineageConflicted :: bytes where "LineageConflicted = lit ''conflicted''"
definition LineageResolved :: bytes where "LineageResolved = lit ''resolved''"

record LineageEntry =
  en_Kind :: bytes
  en_Other :: RecordID
  en_Authority :: Authority
  en_Turn :: int
  en_Note :: bytes

record Lineage =
  li_Supersedes :: "RecordID list"
  li_SupersededBy :: "RecordID list"
  li_Corrects :: "RecordID list"
  li_CorrectedBy :: "RecordID list"
  li_ConflictedBy :: "RecordID list"
  li_History :: "LineageEntry list"

definition Lineage_IsZero :: "Lineage \<Rightarrow> bool" where
  "Lineage_IsZero l \<longleftrightarrow> length (li_Supersedes l) = 0 \<and> length (li_SupersededBy l) = 0 \<and> length (li_Corrects l) = 0
     \<and> length (li_CorrectedBy l) = 0 \<and> length (li_ConflictedBy l) = 0 \<and> length (li_History l) = 0"

record Resolution =
  re_By :: RecordID
  re_Authority :: Authority
  re_Turn :: int
  re_Reason :: bytes

record ConflictInfo =
  co_Parties :: "RecordID list"
  co_Reason :: bytes
  co_Resolution :: "Resolution option"

definition Resolved :: "ConflictInfo option \<Rightarrow> bool" where
  "Resolved c \<longleftrightarrow> (case c of None \<Rightarrow> False | Some c \<Rightarrow> co_Resolution c \<noteq> None)"

record EvidenceValidity =
  ev_From :: int
  ev_To :: int
  ev_Generation :: u64

definition validInterval :: "EvidenceValidity \<Rightarrow> bool" where
  "validInterval v \<longleftrightarrow> ev_From v \<ge> 0 \<and> ev_To v \<ge> 0 \<and> (ev_To v = 0 \<or> ev_To v \<ge> ev_From v)"

record Record =
  rc_Version :: int
  rc_ID :: RecordID
  rc_Authority :: Authority
  rc_Scope :: Scope
  rc_Claim :: bytes
  rc_Dependencies :: Dependencies
  rc_Validity :: EvidenceValidity
  rc_Sources :: "bytes list"
  rc_TransformVersion :: bytes
  rc_HashVersion :: bytes
  rc_Lineage :: Lineage
  rc_Conflict :: "ConflictInfo option"
  rc_RecordedAt :: int

definition Superseded :: "Record \<Rightarrow> bool" where
  "Superseded r \<longleftrightarrow> 0 < length (li_SupersededBy (rc_Lineage r))"

definition validateFields :: "Record \<Rightarrow> state_error option" where
  "validateFields r =
     (if rc_Version r \<noteq> RecordVersion then Some ErrContract
      else if rc_ID r = [] then Some ErrContract
      else if \<not> Authority_Valid (rc_Authority r) then Some ErrContract
      else if Scope_IsZero (rc_Scope r) then Some ErrContract
      else if rc_Claim r = [] then Some ErrContract
      else if length (rc_Sources r) = 0 then Some ErrContract
      else if \<not> DepCoverage_Valid (de_Coverage (rc_Dependencies r)) then Some ErrContract
      else if rc_TransformVersion r = [] then Some ErrContract
      else if rc_HashVersion r = [] then Some ErrContract
      else if \<not> validInterval (rc_Validity r) then Some ErrContract
      else if \<not> Lineage_IsZero (rc_Lineage r) then Some ErrContract
      else if rc_Conflict r \<noteq> None then Some ErrContract
      else if list_ex (\<lambda>src. src = []) (rc_Sources r) then Some ErrContract
      else None)"

definition Record_Validate :: "Record \<Rightarrow> state_error option" where
  "Record_Validate r = (if rc_Authority r = AuthorityConflict then Some ErrContract else validateFields r)"

section \<open>The set\<close>

record state_set =
  s_byID :: "RecordID \<rightharpoonup> Record"
  s_order :: "RecordID list"

definition NewSet :: state_set where "NewSet = \<lparr>s_byID = Map.empty, s_order = []\<rparr>"

definition Set_Len :: "state_set \<Rightarrow> int" where
  "Set_Len s = int (length (s_order s))"

definition admit :: "Record \<Rightarrow> state_set \<Rightarrow> state_error option \<times> state_set" where
  "admit r s =
     (if s_byID s (rc_ID r) \<noteq> None then (Some ErrAppendOnly, s)
      else (None, s\<lparr>s_byID := (s_byID s)(rc_ID r \<mapsto> r), s_order := s_order s @ [rc_ID r]\<rparr>))"

definition Set_Add :: "Record \<Rightarrow> state_set \<Rightarrow> state_error option \<times> state_set" where
  "Set_Add r s = (case Record_Validate r of Some e \<Rightarrow> (Some e, s) | None \<Rightarrow> admit r s)"

definition Set_Get :: "RecordID \<Rightarrow> state_set \<Rightarrow> Record option" where
  "Set_Get i s = s_byID s i"

definition All :: "state_set \<Rightarrow> Record list" where
  "All s = map (\<lambda>i. the (s_byID s i)) (s_order s)"

definition applies :: "state_set \<Rightarrow> Record \<Rightarrow> Scope \<Rightarrow> bool" where
  "applies s r q \<longleftrightarrow>
     (if rc_Authority r = AuthorityConflict \<or> \<not> Authority_Valid (rc_Authority r) then False
      else if length (rc_Sources r) = 0 \<or> Superseded r then False
      else if list_ex (\<lambda>cid. case s_byID s cid of None \<Rightarrow> False | Some c \<Rightarrow> \<not> Resolved (rc_Conflict c)) (li_ConflictedBy (rc_Lineage r)) then False
      else AppliesTo (rc_Scope r) q)"

definition Applicable :: "state_set \<Rightarrow> Scope \<Rightarrow> Record list" where
  "Applicable s q = filter (\<lambda>r. applies s r q) (All s)"

definition Conflicts :: "state_set \<Rightarrow> Scope \<Rightarrow> Record list" where
  "Conflicts s q = filter (\<lambda>r. rc_Authority r = AuthorityConflict \<and> \<not> Resolved (rc_Conflict r) \<and> AppliesTo (rc_Scope r) q) (All s)"

text \<open>A write through the pointer of a record.\<close>

definition at_record :: "RecordID \<Rightarrow> (Record \<Rightarrow> Record) \<Rightarrow> state_set \<Rightarrow> state_set" where
  "at_record i f s = s\<lparr>s_byID := (s_byID s)(i := map_option f (s_byID s i))\<rparr>"

definition lineage :: "(Lineage \<Rightarrow> Lineage) \<Rightarrow> Record \<Rightarrow> Record" where
  "lineage f r = r\<lparr>rc_Lineage := f (rc_Lineage r)\<rparr>"

definition Record_note :: "LineageEntry \<Rightarrow> RecordID \<Rightarrow> Record \<Rightarrow> Record" where
  "Record_note e other = lineage (li_History_update (\<lambda>h. h @ [e\<lparr>en_Other := other\<rparr>]))"

section \<open>Transitions\<close>

definition supersede :: "Record \<Rightarrow> RecordID \<Rightarrow> int \<Rightarrow> bytes \<Rightarrow> bool \<Rightarrow> state_set \<Rightarrow> state_error option \<times> state_set" where
  "supersede newer target at txt correcting s =
     (case s_byID s target of
        None \<Rightarrow> (Some ErrNotFound, s)
      | Some existing \<Rightarrow>
          (case Record_Validate newer of
             Some e \<Rightarrow> (Some e, s)
           | None \<Rightarrow>
               if s_byID s (rc_ID newer) \<noteq> None then (Some ErrAppendOnly, s)
               else if correcting \<and> \<not> Authoritative (rc_Authority newer) then (Some ErrContract, s)
               else if \<not> CanSupersede (rc_Authority newer) (rc_Authority existing) then (Some ErrContract, s)
               else if rc_Scope newer \<noteq> rc_Scope existing then (Some ErrContract, s)
               else if Superseded existing then (Some ErrContract, s)
               else (case admit newer s of
                       (Some e, s) \<Rightarrow> (Some e, s)
                     | (None, s) \<Rightarrow>
                         let added = rc_ID newer;
                             entry = \<lparr>en_Kind = LineageSuperseded, en_Other = [], en_Authority = rc_Authority newer, en_Turn = at, en_Note = txt\<rparr>;
                             s = at_record target (lineage (li_SupersededBy_update (\<lambda>l. l @ [added]))) s;
                             s = at_record added (lineage (li_Supersedes_update (\<lambda>l. l @ [target]))) s;
                             s = at_record target (Record_note entry added) s;
                             s = at_record added (Record_note entry target) s
                         in (None,
                             if correcting
                             then let s = at_record target (lineage (li_CorrectedBy_update (\<lambda>l. l @ [added]))) s;
                                      s = at_record added (lineage (li_Corrects_update (\<lambda>l. l @ [target]))) s;
                                      entry = entry\<lparr>en_Kind := LineageCorrected\<rparr>;
                                      s = at_record target (Record_note entry added) s
                                  in at_record added (Record_note entry target) s
                             else s))))"

definition Supersede :: "Record \<Rightarrow> RecordID \<Rightarrow> int \<Rightarrow> bytes \<Rightarrow> state_set \<Rightarrow> state_error option \<times> state_set" where
  "Supersede newer target at txt s = supersede newer target at txt False s"

definition Correct :: "Record \<Rightarrow> RecordID \<Rightarrow> int \<Rightarrow> bytes \<Rightarrow> state_set \<Rightarrow> state_error option \<times> state_set" where
  "Correct newer target at txt s = supersede newer target at txt True s"

fun check_parties :: "Scope \<Rightarrow> state_set \<Rightarrow> RecordID list \<Rightarrow> RecordID list \<Rightarrow> state_error option" where
  "check_parties sc s seen [] = None"
| "check_parties sc s seen (i # ids) =
     (case s_byID s i of
        None \<Rightarrow> Some ErrNotFound
      | Some party \<Rightarrow>
          if i \<in> set seen then Some ErrContract
          else if rc_Scope party \<noteq> sc then Some ErrContract
          else if Superseded party then Some ErrContract
          else check_parties sc s (i # seen) ids)"

definition Set_Conflict :: "Record \<Rightarrow> RecordID list \<Rightarrow> bytes \<Rightarrow> int \<Rightarrow> state_set \<Rightarrow> state_error option \<times> state_set" where
  "Set_Conflict marker parties reason at s =
     (if rc_Authority marker \<noteq> AuthorityConflict then (Some ErrContract, s)
      else case validateFields marker of
             Some e \<Rightarrow> (Some e, s)
           | None \<Rightarrow>
               if length parties < 2 then (Some ErrContract, s)
               else (case check_parties (rc_Scope marker) s [] parties of
                       Some e \<Rightarrow> (Some e, s)
                     | None \<Rightarrow>
                         (case admit (marker\<lparr>rc_Conflict := Some \<lparr>co_Parties = parties, co_Reason = reason, co_Resolution = None\<rparr>\<rparr>) s of
                            (Some e, s) \<Rightarrow> (Some e, s)
                          | (None, s) \<Rightarrow>
                              (None, fold (\<lambda>i s. at_record i (Record_note \<lparr>en_Kind = LineageConflicted, en_Other = [], en_Authority = AuthorityConflict, en_Turn = at,
                                         en_Note = reason\<rparr> (rc_ID marker))
                                       (at_record i (lineage (li_ConflictedBy_update (\<lambda>l. l @ [rc_ID marker]))) s)) parties s))))"

text \<open>\<open>None\<close> is the nil dereference at a party that is not in the set.\<close>

fun settle :: "RecordID \<Rightarrow> LineageEntry \<Rightarrow> RecordID list \<Rightarrow> state_set \<Rightarrow> state_set option" where
  "settle win entry [] s = Some s"
| "settle win entry (i # ids) s =
     (if i = win then settle win entry ids s
      else case s_byID s i of
             None \<Rightarrow> None
           | Some party \<Rightarrow>
               if Superseded party then settle win entry ids s
               else let s = at_record i (lineage (li_SupersededBy_update (\<lambda>l. l @ [win]))) s;
                        s = at_record win (lineage (li_Supersedes_update (\<lambda>l. l @ [i]))) s;
                        s = at_record i (Record_note entry win) s
                    in settle win entry ids (at_record win (Record_note entry i) s))"

definition Resolve :: "RecordID \<Rightarrow> RecordID \<Rightarrow> int \<Rightarrow> bytes \<Rightarrow> state_set \<Rightarrow> (state_error option \<times> state_set) option" where
  "Resolve conflictID win at reason s =
     (case s_byID s conflictID of
        None \<Rightarrow> Some (Some ErrNotFound, s)
      | Some conflict \<Rightarrow>
          (case (rc_Authority conflict = AuthorityConflict, rc_Conflict conflict) of
             (True, Some info) \<Rightarrow>
               if Resolved (rc_Conflict conflict) then Some (Some ErrContract, s)
               else (case s_byID s win of
                       None \<Rightarrow> Some (Some ErrNotFound, s)
                     | Some winner \<Rightarrow>
                         if \<not> Authoritative (rc_Authority winner) then Some (Some ErrContract, s)
                         else if rc_Scope winner \<noteq> rc_Scope conflict then Some (Some ErrContract, s)
                         else
                           let auth = rc_Authority winner;
                               s = at_record conflictID (rc_Conflict_update (map_option (co_Resolution_update (\<lambda>_. Some
                                     \<lparr>re_By = win, re_Authority = auth, re_Turn = at, re_Reason = reason\<rparr>)))) s;
                               resolved = \<lparr>en_Kind = LineageResolved, en_Other = [], en_Authority = auth, en_Turn = at, en_Note = reason\<rparr>;
                               s = at_record conflictID (Record_note resolved win) s;
                               s = at_record win (Record_note resolved conflictID) s
                           in map_option (\<lambda>s. (None, s)) (settle win (resolved\<lparr>en_Kind := LineageSuperseded\<rparr>) (co_Parties info) s))
           | _ \<Rightarrow> Some (Some ErrContract, s)))"

section \<open>The durable document\<close>

abbreviation (input) SnapshotVersion :: int where "SnapshotVersion \<equiv> 1"

record state_snapshot =
  ss_Version :: int
  ss_Records :: "Record list"

definition Encode :: "state_set \<Rightarrow> state_snapshot" where
  "Encode s = \<lparr>ss_Version = SnapshotVersion, ss_Records = All s\<rparr>"

definition qualify :: "Record \<Rightarrow> Record" where
  "qualify r =
     (let r = (if \<not> DepCoverage_Valid (de_Coverage (rc_Dependencies r))
               then r\<lparr>rc_Dependencies := (rc_Dependencies r)\<lparr>de_Coverage := DepCoverageUnknown\<rparr>\<rparr> else r)
      in if \<not> validInterval (rc_Validity r) then r\<lparr>rc_Validity := \<lparr>ev_From = 0, ev_To = 0, ev_Generation = 0\<rparr>\<rparr> else r)"

fun decode_records :: "Record list \<Rightarrow> state_set \<Rightarrow> (state_error, state_set) result" where
  "decode_records [] s = Inr s"
| "decode_records (r # rs) s =
     (if rc_Version r = 0 then Inl ErrContract
      else if rc_Version r \<noteq> RecordVersion then Inl ErrContract
      else if rc_ID r = [] then Inl ErrContract
      else case admit (qualify r) s of (Some e, s) \<Rightarrow> Inl ErrContract | (None, s) \<Rightarrow> decode_records rs s)"

definition Decode :: "state_snapshot \<Rightarrow> (state_error, state_set) result" where
  "Decode snap =
     (if ss_Version snap = 0 then Inl ErrContract
      else if ss_Version snap \<noteq> SnapshotVersion then Inl ErrContract
      else decode_records (ss_Records snap) NewSet)"

end
