(* ===== verification/DerivedStateInv.thy ===== *)
theory DerivedStateInv
  imports DerivedState "HOL-Library.Sublist"
begin

text \<open>
  Histories of the derived state: the steps, what a step may change, the relations its links form and
  the invariant that holds along every history.
\<close>

section \<open>Steps\<close>

datatype state_op =
    OpAdd Record
  | OpSupersede Record RecordID int bytes
  | OpCorrect Record RecordID int bytes
  | OpConflict Record "RecordID list" bytes int
  | OpResolve RecordID RecordID int bytes

fun state_step :: "state_op \<Rightarrow> state_set \<Rightarrow> (state_error option \<times> state_set) option" where
  "state_step (OpAdd r) s = Some (Set_Add r s)"
| "state_step (OpSupersede r t at txt) s = Some (Supersede r t at txt s)"
| "state_step (OpCorrect r t at txt) s = Some (Correct r t at txt s)"
| "state_step (OpConflict m ps txt at) s = Some (Set_Conflict m ps txt at s)"
| "state_step (OpResolve c w at txt) s = Resolve c w at txt s"

inductive evolves :: "(state_op \<Rightarrow> state_set \<Rightarrow> bool) \<Rightarrow> state_set \<Rightarrow> state_set \<Rightarrow> bool" for P s where
  evolves_refl: "evolves P s s"
| evolves_step: "evolves P s t \<Longrightarrow> P op t \<Longrightarrow> state_step op t = Some (e, u) \<Longrightarrow> evolves P s u"

section \<open>What a record may gain\<close>

definition no_lineage :: Lineage where
  "no_lineage = \<lparr>li_Supersedes = [], li_SupersededBy = [], li_Corrects = [], li_CorrectedBy = [], li_ConflictedBy = [], li_History = []\<rparr>"

text \<open>A record without what the transitions write: its links and the resolution of its conflict.\<close>

definition essence :: "Record \<Rightarrow> Record" where
  "essence r = r\<lparr>rc_Lineage := no_lineage, rc_Conflict := map_option (co_Resolution_update (\<lambda>_. None)) (rc_Conflict r)\<rparr>"

definition grows :: "Record \<Rightarrow> Record \<Rightarrow> bool" where
  "grows r r' \<longleftrightarrow> essence r' = essence r \<and> (Resolved (rc_Conflict r) \<longrightarrow> rc_Conflict r' = rc_Conflict r)
     \<and> prefix (li_Supersedes (rc_Lineage r)) (li_Supersedes (rc_Lineage r')) \<and> prefix (li_SupersededBy (rc_Lineage r)) (li_SupersededBy (rc_Lineage r'))
     \<and> prefix (li_Corrects (rc_Lineage r)) (li_Corrects (rc_Lineage r')) \<and> prefix (li_CorrectedBy (rc_Lineage r)) (li_CorrectedBy (rc_Lineage r'))
     \<and> prefix (li_ConflictedBy (rc_Lineage r)) (li_ConflictedBy (rc_Lineage r')) \<and> prefix (li_History (rc_Lineage r)) (li_History (rc_Lineage r'))"

definition grows_set :: "state_set \<Rightarrow> state_set \<Rightarrow> bool" where
  "grows_set s s' \<longleftrightarrow> prefix (s_order s) (s_order s') \<and> (\<forall>i r. s_byID s i = Some r \<longrightarrow> (\<exists>r'. s_byID s' i = Some r' \<and> grows r r'))"

lemma essenceD:
  assumes "essence r' = essence r"
  shows "rc_Version r' = rc_Version r" "rc_ID r' = rc_ID r" "rc_Authority r' = rc_Authority r" "rc_Scope r' = rc_Scope r" "rc_Claim r' = rc_Claim r"
    "rc_Dependencies r' = rc_Dependencies r" "rc_Validity r' = rc_Validity r" "rc_Sources r' = rc_Sources r" "rc_TransformVersion r' = rc_TransformVersion r"
    "rc_HashVersion r' = rc_HashVersion r" "rc_RecordedAt r' = rc_RecordedAt r"
    "map_option (co_Resolution_update (\<lambda>_. None)) (rc_Conflict r') = map_option (co_Resolution_update (\<lambda>_. None)) (rc_Conflict r)"
  using arg_cong [OF assms, of rc_Version] arg_cong [OF assms, of rc_ID] arg_cong [OF assms, of rc_Authority] arg_cong [OF assms, of rc_Scope]
    arg_cong [OF assms, of rc_Claim] arg_cong [OF assms, of rc_Dependencies] arg_cong [OF assms, of rc_Validity] arg_cong [OF assms, of rc_Sources]
    arg_cong [OF assms, of rc_TransformVersion] arg_cong [OF assms, of rc_HashVersion] arg_cong [OF assms, of rc_RecordedAt] arg_cong [OF assms, of rc_Conflict]
  by (simp_all add: essence_def)

lemma grows_refl [simp]: "grows r r"
  by (simp add: grows_def)

lemma grows_trans: "grows r r' \<Longrightarrow> grows r' r'' \<Longrightarrow> grows r r''"
  unfolding grows_def by (auto intro: prefix_order.trans)

lemma grows_set_refl [simp]: "grows_set s s"
  by (simp add: grows_set_def)

lemma grows_set_trans: "grows_set s t \<Longrightarrow> grows_set t u \<Longrightarrow> grows_set s u"
  unfolding grows_set_def by (meson grows_trans prefix_order.trans)

lemma resolution_stays:
  assumes "grows_set s s'" "s_byID s i = Some r" "s_byID s' i = Some r'" "Resolved (rc_Conflict r)"
  shows "rc_Conflict r' = rc_Conflict r"
proof -
  obtain x where "s_byID s' i = Some x" "grows r x" using assms(1,2) by (auto simp: grows_set_def)
  then show ?thesis using assms(3,4) by (simp add: grows_def)
qed

lemma grows_lineage:
  assumes "prefix (li_Supersedes l) (li_Supersedes (f l))" "prefix (li_SupersededBy l) (li_SupersededBy (f l))" "prefix (li_Corrects l) (li_Corrects (f l))"
    "prefix (li_CorrectedBy l) (li_CorrectedBy (f l))" "prefix (li_ConflictedBy l) (li_ConflictedBy (f l))" "prefix (li_History l) (li_History (f l))" "l = rc_Lineage r"
  shows "grows r (lineage f r)"
  using assms by (simp add: grows_def lineage_def essence_def)

lemma grows_links [simp]:
  "grows r (lineage (li_Supersedes_update (\<lambda>l. l @ xs)) r)" "grows r (lineage (li_SupersededBy_update (\<lambda>l. l @ xs)) r)"
  "grows r (lineage (li_Corrects_update (\<lambda>l. l @ xs)) r)" "grows r (lineage (li_CorrectedBy_update (\<lambda>l. l @ xs)) r)"
  "grows r (lineage (li_ConflictedBy_update (\<lambda>l. l @ xs)) r)" "grows r (Record_note e i r)"
  by (simp_all add: grows_lineage Record_note_def)

lemma grows_resolution [simp]: "\<not> Resolved (rc_Conflict r) \<Longrightarrow> grows r (rc_Conflict_update (map_option (co_Resolution_update (\<lambda>_. x))) r)"
  by (cases "rc_Conflict r") (simp_all add: grows_def essence_def)

lemma grows_at: "(\<And>r. s_byID s i = Some r \<Longrightarrow> grows r (f r)) \<Longrightarrow> grows_set s (at_record i f s)"
  by (auto simp: grows_set_def at_record_def)

lemma grows_admit: "grows_set s (snd (admit r s))"
  by (auto simp: grows_set_def admit_def)

section \<open>Links as relations\<close>

definition links :: "(Lineage \<Rightarrow> RecordID list) \<Rightarrow> state_set \<Rightarrow> (RecordID \<times> RecordID) set" where
  "links f s = {(a, b). \<exists>r. s_byID s a = Some r \<and> b \<in> set (f (rc_Lineage r))}"

abbreviation sup_by :: "state_set \<Rightarrow> (RecordID \<times> RecordID) set" where "sup_by s \<equiv> links li_SupersededBy s"

lemma dom_at [simp]: "dom (s_byID (at_record i f s)) = dom (s_byID s)"
  by (auto simp: at_record_def split: if_splits)

lemma order_at [simp]: "s_order (at_record i f s) = s_order s"
  by (simp add: at_record_def)

lemma links_at:
  assumes "\<And>r. f (rc_Lineage (g r)) = f (rc_Lineage r) @ xs"
  shows "links f (at_record i g s) = links f s \<union> (if i \<in> dom (s_byID s) then {i} \<times> set xs else {})"
  using assms by (auto simp: links_def at_record_def split: if_splits)

lemma links_note [simp]:
  assumes "\<And>l h. f (li_History_update h l) = f l"
  shows "links f (at_record i (Record_note e j) s) = links f s"
  using links_at [of f "Record_note e j" "[]"] assms by (simp add: Record_note_def lineage_def)

lemma links_push [simp]:
  "links li_SupersededBy (at_record i (lineage (li_SupersededBy_update (\<lambda>l. l @ xs))) s) = links li_SupersededBy s \<union> (if i \<in> dom (s_byID s) then {i} \<times> set xs else {})"
  "links li_Supersedes (at_record i (lineage (li_Supersedes_update (\<lambda>l. l @ xs))) s) = links li_Supersedes s \<union> (if i \<in> dom (s_byID s) then {i} \<times> set xs else {})"
  "links li_Corrects (at_record i (lineage (li_Corrects_update (\<lambda>l. l @ xs))) s) = links li_Corrects s \<union> (if i \<in> dom (s_byID s) then {i} \<times> set xs else {})"
  "links li_CorrectedBy (at_record i (lineage (li_CorrectedBy_update (\<lambda>l. l @ xs))) s) = links li_CorrectedBy s \<union> (if i \<in> dom (s_byID s) then {i} \<times> set xs else {})"
  "links li_ConflictedBy (at_record i (lineage (li_ConflictedBy_update (\<lambda>l. l @ xs))) s) = links li_ConflictedBy s \<union> (if i \<in> dom (s_byID s) then {i} \<times> set xs else {})"
  by (rule links_at; simp add: lineage_def)+

lemma links_keep:
  assumes "\<And>r. f (rc_Lineage (g r)) = f (rc_Lineage r)"
  shows "links f (at_record i g s) = links f s"
  using links_at [of f g "[]"] assms by simp

lemma links_other [simp]:
  "f \<in> {li_Supersedes, li_Corrects, li_CorrectedBy, li_ConflictedBy} \<Longrightarrow> links f (at_record i (lineage (li_SupersededBy_update h)) s) = links f s"
  "f \<in> {li_SupersededBy, li_Corrects, li_CorrectedBy, li_ConflictedBy} \<Longrightarrow> links f (at_record i (lineage (li_Supersedes_update h)) s) = links f s"
  "f \<in> {li_Supersedes, li_SupersededBy, li_CorrectedBy, li_ConflictedBy} \<Longrightarrow> links f (at_record i (lineage (li_Corrects_update h)) s) = links f s"
  "f \<in> {li_Supersedes, li_SupersededBy, li_Corrects, li_ConflictedBy} \<Longrightarrow> links f (at_record i (lineage (li_CorrectedBy_update h)) s) = links f s"
  "f \<in> {li_Supersedes, li_SupersededBy, li_Corrects, li_CorrectedBy} \<Longrightarrow> links f (at_record i (lineage (li_ConflictedBy_update h)) s) = links f s"
  "links f (at_record i (rc_Conflict_update k) s) = links f s"
  by (rule links_keep; auto simp: lineage_def)+

definition ess :: "state_set \<Rightarrow> RecordID \<rightharpoonup> Record" where
  "ess s i = map_option essence (s_byID s i)"

lemma ess_at: "(\<And>r. essence (f r) = essence r) \<Longrightarrow> ess (at_record i f s) = ess s"
  by (simp add: ess_def at_record_def fun_eq_iff option.map_comp o_def)

lemma ess_lineage [simp]: "ess (at_record i (lineage g) s) = ess s" "ess (at_record i (Record_note e j) s) = ess s"
  by (rule ess_at; simp add: lineage_def Record_note_def essence_def)+

lemma ess_resolution [simp]: "ess (at_record i (rc_Conflict_update (map_option (co_Resolution_update (\<lambda>_. x)))) s) = ess s"
  by (rule ess_at) (simp add: essence_def option.map_comp o_def)

lemma ess_dom: "dom (ess s) = dom (s_byID s)"
  by (auto simp: ess_def)

lemma superseded_iff: "s_byID s i = Some r \<Longrightarrow> Superseded r \<longleftrightarrow> i \<in> Domain (sup_by s)"
  by (cases "li_SupersededBy (rc_Lineage r)") (auto simp: Superseded_def links_def)

section \<open>What each transition does\<close>

lemma validate_fields:
  assumes "validateFields r = None"
  shows "rc_Version r = 1" "rc_ID r \<noteq> []" "Authority_Valid (rc_Authority r)" "\<not> Scope_IsZero (rc_Scope r)" "rc_Claim r \<noteq> []" "rc_Sources r \<noteq> []"
    "DepCoverage_Valid (de_Coverage (rc_Dependencies r))" "validInterval (rc_Validity r)" "Lineage_IsZero (rc_Lineage r)" "rc_Conflict r = None" "[] \<notin> set (rc_Sources r)"
  using assms by (auto simp: validateFields_def list_ex_iff split: if_splits)

lemma admit_new:
  assumes "rc_ID r \<notin> dom (s_byID s)" "Lineage_IsZero (rc_Lineage r)" and s': "s' = snd (admit r s)"
  shows "admit r s = (None, s')" "dom (s_byID s') = insert (rc_ID r) (dom (s_byID s))" "s_order s' = s_order s @ [rc_ID r]"
    "ess s' = (ess s)(rc_ID r \<mapsto> essence r)" "f \<in> {li_Supersedes, li_SupersededBy, li_Corrects, li_CorrectedBy, li_ConflictedBy} \<Longrightarrow> links f s' = links f s"
proof -
  have n: "s_byID s (rc_ID r) = None" using assms(1) by auto
  show "admit r s = (None, s')" "dom (s_byID s') = insert (rc_ID r) (dom (s_byID s))" "s_order s' = s_order s @ [rc_ID r]" "ess s' = (ess s)(rc_ID r \<mapsto> essence r)"
    using n by (auto simp: s' admit_def ess_def fun_eq_iff)
  show "links f s' = links f s" if "f \<in> {li_Supersedes, li_SupersededBy, li_Corrects, li_CorrectedBy, li_ConflictedBy}"
  proof -
    have "f (rc_Lineage r) = []" using that assms(2) by (auto simp: Lineage_IsZero_def)
    then show ?thesis using n by (auto simp: s' admit_def links_def split: if_splits)
  qed
qed

lemma add_effect:
  assumes "Set_Add r s = (None, s')"
  shows "validateFields r = None" "rc_Authority r \<noteq> AuthorityConflict" "rc_ID r \<notin> dom (s_byID s)" "s' = snd (admit r s)"
  using assms by (auto simp: Set_Add_def Record_Validate_def admit_def split: option.splits if_splits)

lemma supersede_effect:
  assumes "supersede r t at txt cor s = (None, s')"
  obtains old where "s_byID s t = Some old" "validateFields r = None" "rc_Authority r \<noteq> AuthorityConflict" "rc_ID r \<notin> dom (s_byID s)"
    "cor \<Longrightarrow> Authoritative (rc_Authority r)" "CanSupersede (rc_Authority r) (rc_Authority old)" "rc_Scope r = rc_Scope old" "t \<notin> Domain (sup_by s)"
    "dom (s_byID s') = insert (rc_ID r) (dom (s_byID s))" "s_order s' = s_order s @ [rc_ID r]" "ess s' = (ess s)(rc_ID r \<mapsto> essence r)"
    "sup_by s' = insert (t, rc_ID r) (sup_by s)" "links li_Supersedes s' = insert (rc_ID r, t) (links li_Supersedes s)"
    "links li_CorrectedBy s' = links li_CorrectedBy s \<union> (if cor then {(t, rc_ID r)} else {})" "links li_Corrects s' = links li_Corrects s \<union> (if cor then {(rc_ID r, t)} else {})"
    "links li_ConflictedBy s' = links li_ConflictedBy s" "grows_set s s'"
proof -
  obtain old where o: "s_byID s t = Some old" "validateFields r = None" "rc_Authority r \<noteq> AuthorityConflict" "s_byID s (rc_ID r) = None"
    "cor \<Longrightarrow> Authoritative (rc_Authority r)" "CanSupersede (rc_Authority r) (rc_Authority old)" "rc_Scope r = rc_Scope old" "\<not> Superseded old"
    using assms by (auto simp: supersede_def Record_Validate_def split: option.splits if_splits)
  have new: "rc_ID r \<notin> dom (s_byID s)" and z: "Lineage_IsZero (rc_Lineage r)" using o(2,4) validate_fields(9) by auto
  define s1 where "s1 = snd (admit r s)"
  note a = admit_new [OF new z s1_def]
  have t: "t \<in> dom (s_byID s1)" "rc_ID r \<in> dom (s_byID s1)" using o(1) by (auto simp: a(2))
  have "t \<notin> Domain (sup_by s)" using superseded_iff [OF o(1)] o(8) by simp
  moreover have "s' = snd (supersede r t at txt cor s)" using assms by simp
  moreover have "grows_set s s1" unfolding s1_def by (rule grows_admit)
  ultimately show ?thesis
    using o new a t by (intro that [of old]) (auto simp: supersede_def Record_Validate_def Let_def intro!: grows_set_trans [OF _ grows_at])
qed

lemma check_parties_ok:
  assumes "check_parties sc s seen ps = None"
  shows "distinct ps \<and> set ps \<inter> set seen = {} \<and> (\<forall>i \<in> set ps. \<exists>r. s_byID s i = Some r \<and> rc_Scope r = sc \<and> \<not> Superseded r)"
  using assms by (induction sc s seen ps rule: check_parties.induct) (auto split: option.splits if_splits)

lemma fold_conflicted:
  fixes c :: RecordID and e :: LineageEntry
  defines "f \<equiv> \<lambda>i s. at_record i (Record_note e c) (at_record i (lineage (li_ConflictedBy_update (\<lambda>l. l @ [c]))) s)"
  shows "set ps \<subseteq> dom (s_byID s) \<Longrightarrow> dom (s_byID (fold f ps s)) = dom (s_byID s) \<and> s_order (fold f ps s) = s_order s \<and> ess (fold f ps s) = ess s
    \<and> links li_ConflictedBy (fold f ps s) = links li_ConflictedBy s \<union> set ps \<times> {c}
    \<and> (\<forall>g \<in> {li_Supersedes, li_SupersededBy, li_Corrects, li_CorrectedBy}. links g (fold f ps s) = links g s) \<and> grows_set s (fold f ps s)"
proof (induction ps arbitrary: s)
  case (Cons p ps)
  have g: "grows_set s (f p s)" unfolding f_def by (intro grows_set_trans [OF grows_at grows_at]) auto
  have 1: "dom (s_byID (f p s)) = dom (s_byID s)" "s_order (f p s) = s_order s" "ess (f p s) = ess s"
    "links li_ConflictedBy (f p s) = insert (p, c) (links li_ConflictedBy s)"
    "h \<in> {li_Supersedes, li_SupersededBy, li_Corrects, li_CorrectedBy} \<Longrightarrow> links h (f p s) = links h s" for h
    using Cons.prems by (auto simp: f_def)
  have "set ps \<subseteq> dom (s_byID (f p s))" using Cons.prems by (simp add: 1)
  from Cons.IH [OF this] show ?case using 1 g grows_set_trans [OF g] by auto
qed simp

lemma conflict_effect:
  assumes "Set_Conflict m ps txt at s = (None, s')"
  obtains m' where "m' = m\<lparr>rc_Conflict := Some \<lparr>co_Parties = ps, co_Reason = txt, co_Resolution = None\<rparr>\<rparr>" "rc_Authority m = AuthorityConflict" "validateFields m = None"
    "2 \<le> length ps" "distinct ps" "\<And>i. i \<in> set ps \<Longrightarrow> \<exists>r. s_byID s i = Some r \<and> rc_Scope r = rc_Scope m" "rc_ID m \<notin> dom (s_byID s)"
    "dom (s_byID s') = insert (rc_ID m) (dom (s_byID s))" "s_order s' = s_order s @ [rc_ID m]" "ess s' = (ess s)(rc_ID m \<mapsto> m')"
    "links li_ConflictedBy s' = links li_ConflictedBy s \<union> set ps \<times> {rc_ID m}"
    "\<And>g. g \<in> {li_Supersedes, li_SupersededBy, li_Corrects, li_CorrectedBy} \<Longrightarrow> links g s' = links g s" "grows_set s s'"
proof -
  let ?m = "m\<lparr>rc_Conflict := Some \<lparr>co_Parties = ps, co_Reason = txt, co_Resolution = None\<rparr>\<rparr>"
  have v: "rc_Authority m = AuthorityConflict" "validateFields m = None" "2 \<le> length ps" "check_parties (rc_Scope m) s [] ps = None" "s_byID s (rc_ID m) = None"
    using assms by (auto simp: Set_Conflict_def admit_def split: option.splits if_splits)
  note c = check_parties_ok [OF v(4)]
  have new: "rc_ID ?m \<notin> dom (s_byID s)" and z: "Lineage_IsZero (rc_Lineage ?m)" using v(2,5) validate_fields(9) by auto
  define s1 where "s1 = snd (admit ?m s)"
  note a = admit_new [OF new z s1_def]
  have "set ps \<subseteq> dom (s_byID s1)" using c by (auto simp: a(2))
  have s': "s' = fold (\<lambda>i s. at_record i (Record_note \<lparr>en_Kind = LineageConflicted, en_Other = [], en_Authority = AuthorityConflict, en_Turn = at, en_Note = txt\<rparr> (rc_ID m))
      (at_record i (lineage (li_ConflictedBy_update (\<lambda>l. l @ [rc_ID m]))) s)) ps s1"
    using assms v a(1) by (simp add: Set_Conflict_def)
  note f = fold_conflicted [OF \<open>set ps \<subseteq> dom (s_byID s1)\<close>, where c = "rc_ID m"
      and e = "\<lparr>en_Kind = LineageConflicted, en_Other = [], en_Authority = AuthorityConflict, en_Turn = at, en_Note = txt\<rparr>", folded s']
  have "essence ?m = ?m" using validate_fields(9) [OF v(2)] by (simp add: essence_def Lineage_IsZero_def no_lineage_def)
  then have 1: "dom (s_byID s') = insert (rc_ID m) (dom (s_byID s))" "s_order s' = s_order s @ [rc_ID m]" "ess s' = (ess s)(rc_ID m \<mapsto> ?m)"
    using f a(2,3,4) by simp_all
  have 2: "links li_ConflictedBy s' = links li_ConflictedBy s \<union> set ps \<times> {rc_ID m}" using f a(5) by simp
  have 3: "links g s' = links g s" if "g \<in> {li_Supersedes, li_SupersededBy, li_Corrects, li_CorrectedBy}" for g using f a(5) [of g] that by auto
  have 4: "grows_set s s'" using grows_set_trans [of s s1 s'] grows_admit [of s ?m] f unfolding s1_def by blast
  have 5: "\<exists>r. s_byID s i = Some r \<and> rc_Scope r = rc_Scope m" if "i \<in> set ps" for i using c that by blast
  have 6: "distinct ps" "rc_ID m \<notin> dom (s_byID s)" using c new by simp_all
  show ?thesis by (rule that [OF refl v(1,2,3) 6(1) 5 6(2) 1 2 3 4])
qed

lemma settle_effect:
  assumes "settle w e ps s = Some s'" "w \<in> dom (s_byID s)"
  shows "dom (s_byID s') = dom (s_byID s) \<and> s_order s' = s_order s \<and> ess s' = ess s
    \<and> sup_by s' = sup_by s \<union> {(i, w) | i. i \<in> set ps \<and> i \<noteq> w \<and> i \<notin> Domain (sup_by s)}
    \<and> links li_Supersedes s' = links li_Supersedes s \<union> {(w, i) | i. i \<in> set ps \<and> i \<noteq> w \<and> i \<notin> Domain (sup_by s)}
    \<and> (\<forall>g \<in> {li_Corrects, li_CorrectedBy, li_ConflictedBy}. links g s' = links g s) \<and> grows_set s s'"
  using assms
proof (induction ps arbitrary: s)
  case (Cons i ids)
  show ?case
  proof (cases "i = w")
    case True
    then show ?thesis using Cons by auto
  next
    case False
    then obtain party where p: "s_byID s i = Some party" using Cons.prems by (auto split: option.splits)
    show ?thesis
    proof (cases "Superseded party")
      case True
      then show ?thesis using Cons.IH [of s] Cons.prems False p superseded_iff [OF p] by auto
    next
      case n: False
      define t where "t = at_record w (Record_note e i) (at_record i (Record_note e w) (at_record w (lineage (li_Supersedes_update (\<lambda>l. l @ [i])))
          (at_record i (lineage (li_SupersededBy_update (\<lambda>l. l @ [w]))) s)))"
      have t: "dom (s_byID t) = dom (s_byID s)" "s_order t = s_order s" "ess t = ess s" "sup_by t = insert (i, w) (sup_by s)"
        "links li_Supersedes t = insert (w, i) (links li_Supersedes s)" "\<forall>g \<in> {li_Corrects, li_CorrectedBy, li_ConflictedBy}. links g t = links g s"
        using p Cons.prems(2) by (auto simp: t_def)
      have g: "grows_set s t" unfolding t_def by (intro grows_set_trans [OF grows_set_trans [OF grows_set_trans [OF grows_at grows_at] grows_at] grows_at]) auto
      have st: "settle w e ids t = Some s'" using Cons.prems(1) False p n by (simp add: t_def Let_def)
      have "dom (s_byID s') = dom (s_byID t) \<and> s_order s' = s_order t \<and> ess s' = ess t
        \<and> sup_by s' = sup_by t \<union> {(i, w) | i. i \<in> set ids \<and> i \<noteq> w \<and> i \<notin> Domain (sup_by t)}
        \<and> links li_Supersedes s' = links li_Supersedes t \<union> {(w, i) | i. i \<in> set ids \<and> i \<noteq> w \<and> i \<notin> Domain (sup_by t)}
        \<and> (\<forall>g \<in> {li_Corrects, li_CorrectedBy, li_ConflictedBy}. links g s' = links g t) \<and> grows_set t s'"
        by (rule Cons.IH [OF st]) (use Cons.prems(2) t(1) in simp)
      then show ?thesis using t g False superseded_iff [OF p] n grows_set_trans [OF g, of s'] by auto
    qed
  qed
qed auto

lemma resolve_effect:
  assumes "Resolve c w at txt s = Some (None, s')"
  obtains con info win where "s_byID s c = Some con" "rc_Authority con = AuthorityConflict" "rc_Conflict con = Some info" "co_Resolution info = None"
    "s_byID s w = Some win" "Authoritative (rc_Authority win)" "rc_Scope win = rc_Scope con"
    "dom (s_byID s') = dom (s_byID s)" "s_order s' = s_order s" "ess s' = ess s"
    "sup_by s' = sup_by s \<union> {(i, w) | i. i \<in> set (co_Parties info) \<and> i \<noteq> w \<and> i \<notin> Domain (sup_by s)}"
    "links li_Supersedes s' = links li_Supersedes s \<union> {(w, i) | i. i \<in> set (co_Parties info) \<and> i \<noteq> w \<and> i \<notin> Domain (sup_by s)}"
    "\<And>g. g \<in> {li_Corrects, li_CorrectedBy, li_ConflictedBy} \<Longrightarrow> links g s' = links g s" "grows_set s s'"
    "\<exists>con'. s_byID s' c = Some con' \<and> rc_Conflict con' = Some (info\<lparr>co_Resolution := Some \<lparr>re_By = w, re_Authority = rc_Authority win, re_Turn = at, re_Reason = txt\<rparr>\<rparr>)"
proof -
  obtain con info win where o: "s_byID s c = Some con" "rc_Authority con = AuthorityConflict" "rc_Conflict con = Some info" "co_Resolution info = None"
    "s_byID s w = Some win" "Authoritative (rc_Authority win)" "rc_Scope win = rc_Scope con"
    using assms by (auto simp: Resolve_def Resolved_def split: option.splits if_splits bool.splits)
  let ?res = "\<lparr>en_Kind = LineageResolved, en_Other = [], en_Authority = rc_Authority win, en_Turn = at, en_Note = txt\<rparr>"
  let ?r = "Some \<lparr>re_By = w, re_Authority = rc_Authority win, re_Turn = at, re_Reason = txt\<rparr>"
  define s1 where "s1 = at_record c (rc_Conflict_update (map_option (co_Resolution_update (\<lambda>_. ?r)))) s"
  define s2 where "s2 = at_record w (Record_note ?res c) (at_record c (Record_note ?res w) s1)"
  have st: "settle w (?res\<lparr>en_Kind := LineageSuperseded\<rparr>) (co_Parties info) s2 = Some s'"
    using assms o by (auto simp: Resolve_def Resolved_def Let_def s1_def s2_def)
  have cw: "c \<noteq> w" using o by (auto simp: Authoritative_def AuthorityConflict_def AuthorityUserCorrection_def AuthorityExplicitDecision_def lit_def)
  have d: "dom (s_byID s2) = dom (s_byID s)" "s_order s2 = s_order s" "ess s2 = ess s" by (simp_all add: s1_def s2_def)
  have l: "links g s2 = links g s" if "g \<in> {li_Supersedes, li_SupersededBy, li_Corrects, li_CorrectedBy, li_ConflictedBy}" for g
    using that by (auto simp: s1_def s2_def)
  have "w \<in> dom (s_byID s2)" using o(5) by (auto simp: d)
  note e = settle_effect [OF st this]
  have "grows con (rc_Conflict_update (map_option (co_Resolution_update (\<lambda>_. ?r))) con)" by (rule grows_resolution) (simp add: Resolved_def o)
  then have g1: "grows_set s s1" unfolding s1_def by (intro grows_at) (simp add: o(1))
  then have g: "grows_set s s2" unfolding s2_def by (intro grows_set_trans [OF grows_set_trans [OF _ grows_at] grows_at]) auto
  have "\<exists>x. s_byID s2 c = Some x \<and> rc_Conflict x = Some (info\<lparr>co_Resolution := ?r\<rparr>)"
    using o(1,3) cw by (simp add: s1_def s2_def at_record_def Record_note_def lineage_def)
  then obtain x where x: "s_byID s2 c = Some x" "rc_Conflict x = Some (info\<lparr>co_Resolution := ?r\<rparr>)" by blast
  have g2: "grows_set s2 s'" using e by simp
  then obtain x' where "s_byID s' c = Some x'" "grows x x'" using x(1) by (auto simp: grows_set_def)
  moreover from this(2) have "rc_Conflict x' = rc_Conflict x" using x(2) by (simp add: grows_def Resolved_def)
  ultimately have r: "\<exists>x. s_byID s' c = Some x \<and> rc_Conflict x = Some (info\<lparr>co_Resolution := ?r\<rparr>)" using x(2) by auto
  have D: "dom (s_byID s') = dom (s_byID s)" "s_order s' = s_order s" "ess s' = ess s" using e d by simp_all
  have L: "sup_by s' = sup_by s \<union> {(i, w) | i. i \<in> set (co_Parties info) \<and> i \<noteq> w \<and> i \<notin> Domain (sup_by s)}"
    "links li_Supersedes s' = links li_Supersedes s \<union> {(w, i) | i. i \<in> set (co_Parties info) \<and> i \<noteq> w \<and> i \<notin> Domain (sup_by s)}"
    using e l by simp_all
  have K: "links g s' = links g s" if "g \<in> {li_Corrects, li_CorrectedBy, li_ConflictedBy}" for g using e l [of g] that by auto
  have G: "grows_set s s'" by (rule grows_set_trans [OF g g2])
  show ?thesis by (rule that [OF o D L K G r])
qed

lemma resolve_no_panic:
  assumes "\<And>con info i. s_byID s c = Some con \<Longrightarrow> rc_Conflict con = Some info \<Longrightarrow> i \<in> set (co_Parties info) \<Longrightarrow> i \<in> dom (s_byID s)"
  shows "Resolve c w at txt s \<noteq> None"
proof -
  have st: "settle v e ps t \<noteq> None" if "set ps \<subseteq> dom (s_byID t)" for v e ps t
    using that
  proof (induction ps arbitrary: t)
    case (Cons p ps)
    then have "p \<in> dom (s_byID t)" by simp
    then obtain party where p: "s_byID t p = Some party" by blast
    have IH: "settle v e ps u \<noteq> None" if "dom (s_byID u) = dom (s_byID t)" for u by (rule Cons.IH) (use Cons.prems that in simp)
    show ?case using p IH by (simp add: Let_def del: not_None_eq)
  qed simp
  have "map_option f (settle v e (co_Parties info) t) \<noteq> None" if "s_byID s c = Some con" "rc_Conflict con = Some info" "dom (s_byID t) = dom (s_byID s)" for f v e con info t
    using st [of "co_Parties info" t v e] assms [OF that(1,2)] that(3) by auto
  then show ?thesis unfolding Resolve_def Let_def by (auto split: option.splits bool.split)
qed

end
