(* ===== verification/DerivedStateProps.thy ===== *)
theory DerivedStateProps
  imports DerivedStateInv
begin

text \<open>The invariant along every history, and the promises of the derived state.\<close>

section \<open>The invariant\<close>

definition stored_ok :: "RecordID \<Rightarrow> Record \<Rightarrow> bool" where
  "stored_ok i x \<longleftrightarrow> rc_ID x = i \<and> i \<noteq> [] \<and> rc_Version x = 1 \<and> Authority_Valid (rc_Authority x) \<and> \<not> Scope_IsZero (rc_Scope x) \<and> rc_Claim x \<noteq> []
     \<and> rc_Sources x \<noteq> [] \<and> [] \<notin> set (rc_Sources x) \<and> DepCoverage_Valid (de_Coverage (rc_Dependencies x)) \<and> validInterval (rc_Validity x)
     \<and> (rc_Conflict x \<noteq> None \<longleftrightarrow> rc_Authority x = AuthorityConflict)"

text \<open>A successor never lowers the standing of what it replaces and stays in its scope.\<close>

definition may_replace :: "Record \<Rightarrow> Record \<Rightarrow> bool" where
  "may_replace x y \<longleftrightarrow> (Authoritative (rc_Authority x) \<longrightarrow> Authoritative (rc_Authority y)) \<and> authorityRank (rc_Authority x) \<le> authorityRank (rc_Authority y)
     \<and> rc_Scope y = rc_Scope x \<and> rc_Authority y \<noteq> AuthorityConflict"

definition party_of :: "state_set \<Rightarrow> (RecordID \<times> RecordID) set" where
  "party_of s = {(i, c). \<exists>x info. ess s c = Some x \<and> rc_Conflict x = Some info \<and> i \<in> set (co_Parties info)}"

definition state_inv :: "state_set \<Rightarrow> bool" where
  "state_inv s \<longleftrightarrow> distinct (s_order s) \<and> set (s_order s) = dom (s_byID s) \<and> (\<forall>i x. ess s i = Some x \<longrightarrow> stored_ok i x)
     \<and> links li_Supersedes s = (sup_by s)\<inverse> \<and> links li_Corrects s = (links li_CorrectedBy s)\<inverse> \<and> links li_CorrectedBy s \<subseteq> sup_by s
     \<and> single_valued (sup_by s) \<and> (\<forall>a b. (a, b) \<in> sup_by s \<longrightarrow> (\<exists>x y. ess s a = Some x \<and> ess s b = Some y \<and> may_replace x y))
     \<and> (\<forall>a b. (a, b) \<in> links li_CorrectedBy s \<longrightarrow> (\<exists>y. ess s b = Some y \<and> Authoritative (rc_Authority y)))
     \<and> links li_ConflictedBy s = party_of s
     \<and> (\<forall>c x info. ess s c = Some x \<longrightarrow> rc_Conflict x = Some info \<longrightarrow> 2 \<le> length (co_Parties info) \<and> distinct (co_Parties info))
     \<and> (\<forall>i c. (i, c) \<in> party_of s \<longrightarrow> (\<exists>x y. ess s i = Some x \<and> ess s c = Some y \<and> rc_Scope x = rc_Scope y))"

lemma state_invD:
  assumes "state_inv s"
  shows "distinct (s_order s)" "set (s_order s) = dom (s_byID s)" "ess s i = Some x \<Longrightarrow> stored_ok i x"
    "links li_Supersedes s = (sup_by s)\<inverse>" "links li_Corrects s = (links li_CorrectedBy s)\<inverse>" "links li_CorrectedBy s \<subseteq> sup_by s"
    "single_valued (sup_by s)" "(a, b) \<in> sup_by s \<Longrightarrow> \<exists>x y. ess s a = Some x \<and> ess s b = Some y \<and> may_replace x y"
    "(a, b) \<in> links li_CorrectedBy s \<Longrightarrow> \<exists>y. ess s b = Some y \<and> Authoritative (rc_Authority y)" "links li_ConflictedBy s = party_of s"
    "ess s c = Some x \<Longrightarrow> rc_Conflict x = Some info \<Longrightarrow> 2 \<le> length (co_Parties info) \<and> distinct (co_Parties info)"
    "(i, c) \<in> party_of s \<Longrightarrow> \<exists>x y. ess s i = Some x \<and> ess s c = Some y \<and> rc_Scope x = rc_Scope y"
  using assms unfolding state_inv_def by blast+

lemma state_invI:
  assumes "distinct (s_order s)" "set (s_order s) = dom (s_byID s)" "\<And>i x. ess s i = Some x \<Longrightarrow> stored_ok i x"
    "links li_Supersedes s = (sup_by s)\<inverse>" "links li_Corrects s = (links li_CorrectedBy s)\<inverse>" "links li_CorrectedBy s \<subseteq> sup_by s"
    "single_valued (sup_by s)" "\<And>a b. (a, b) \<in> sup_by s \<Longrightarrow> \<exists>x y. ess s a = Some x \<and> ess s b = Some y \<and> may_replace x y"
    "\<And>a b. (a, b) \<in> links li_CorrectedBy s \<Longrightarrow> \<exists>y. ess s b = Some y \<and> Authoritative (rc_Authority y)" "links li_ConflictedBy s = party_of s"
    "\<And>c x info. ess s c = Some x \<Longrightarrow> rc_Conflict x = Some info \<Longrightarrow> 2 \<le> length (co_Parties info) \<and> distinct (co_Parties info)"
    "\<And>i c. (i, c) \<in> party_of s \<Longrightarrow> \<exists>x y. ess s i = Some x \<and> ess s c = Some y \<and> rc_Scope x = rc_Scope y"
  shows "state_inv s"
  unfolding state_inv_def using assms by blast

lemma new_inv: "state_inv NewSet"
  by (rule state_invI) (simp_all add: NewSet_def links_def ess_def party_of_def)

lemma rank_bounds: "authorityRank a \<le> 4" "Authoritative a \<Longrightarrow> authorityRank a = 4" "Authoritative a \<Longrightarrow> a \<noteq> AuthorityConflict"
  by (auto simp: authorityRank_def Authoritative_def AuthorityConflict_def AuthorityUserCorrection_def AuthorityExplicitDecision_def lit_def)

lemma can_supersede_replace:
  assumes "CanSupersede (rc_Authority r) (rc_Authority old)" "rc_Scope r = rc_Scope old"
  shows "may_replace old r"
  using assms rank_bounds(1) [of "rc_Authority old"] rank_bounds(2) [of "rc_Authority r"] by (auto simp: may_replace_def CanSupersede_def split: if_splits)

lemma valid_stored:
  assumes "validateFields r = None" "rc_Authority r \<noteq> AuthorityConflict"
  shows "stored_ok (rc_ID r) (essence r)"
  using validate_fields [OF assms(1)] assms(2) by (simp add: stored_ok_def essence_def)

text \<open>A record added to the set leaves the facts about the others as they were.\<close>

lemma ess_fresh:
  assumes "ess s' = (ess s)(n \<mapsto> x)" "n \<notin> dom (s_byID s)"
  shows "ess s a = Some y \<Longrightarrow> ess s' a = Some y" "ess s' n = Some x" "ess s n = None"
proof -
  show e: "ess s n = None" using assms(2) ess_dom [of s] by auto
  show "ess s' a = Some y" if "ess s a = Some y" using that e assms(1) by (cases "a = n") auto
qed (use assms in simp)

lemma party_fresh:
  assumes "ess s' = (ess s)(n \<mapsto> x)" "n \<notin> dom (s_byID s)"
  shows "party_of s' = party_of s \<union> {(i, n) | i. \<exists>info. rc_Conflict x = Some info \<and> i \<in> set (co_Parties info)}"
proof -
  have "ess s n = None" by (rule ess_fresh(3) [OF assms])
  then show ?thesis unfolding party_of_def assms(1) by (auto split: if_splits)
qed

lemma fresh_links:
  assumes I: "state_inv s" and n: "n \<notin> dom (s_byID s)"
  shows "(n, b) \<notin> sup_by s" "(b, n) \<notin> sup_by s" "(b, n) \<notin> party_of s"
proof -
  have e: "ess s n = None" using n ess_dom [of s] by auto
  show "(n, b) \<notin> sup_by s" "(b, n) \<notin> sup_by s" using state_invD(8) [OF I] e by fastforce+
  show "(b, n) \<notin> party_of s" using state_invD(12) [OF I, of b n] e by auto
qed

lemma inv_extend:
  assumes I: "state_inv s" and n: "n \<notin> dom (s_byID s)" and d: "dom (s_byID s') = insert n (dom (s_byID s))" "s_order s' = s_order s @ [n]"
    and e: "ess s' = (ess s)(n \<mapsto> x)" and x: "stored_ok n x"
    and S: "sup_by s' = sup_by s \<union> T" "links li_Supersedes s' = links li_Supersedes s \<union> T\<inverse>" and C: "links li_CorrectedBy s' = links li_CorrectedBy s \<union> U" "links li_Corrects s' = links li_Corrects s \<union> U\<inverse>"
    and T: "T \<subseteq> {(t, n) | t. t \<notin> Domain (sup_by s) \<and> (\<exists>old. ess s t = Some old \<and> may_replace old x)}" "single_valued T" and U: "U \<subseteq> T" "U \<noteq> {} \<Longrightarrow> Authoritative (rc_Authority x)"
    and K: "links li_ConflictedBy s' = links li_ConflictedBy s \<union> {(i, n) | i. \<exists>info. rc_Conflict x = Some info \<and> i \<in> set (co_Parties info)}"
    and P: "\<And>info. rc_Conflict x = Some info \<Longrightarrow> 2 \<le> length (co_Parties info) \<and> distinct (co_Parties info)
      \<and> (\<forall>i \<in> set (co_Parties info). \<exists>y. ess s i = Some y \<and> rc_Scope y = rc_Scope x)"
  shows "state_inv s'"
proof (rule state_invI)
  note f = ess_fresh [OF e n] and pf = party_fresh [OF e n]
  show "distinct (s_order s')" "set (s_order s') = dom (s_byID s')" using state_invD(1,2) [OF I] n by (simp_all add: d)
  show "stored_ok i y" if "ess s' i = Some y" for i y using that state_invD(3) [OF I, of i y] x by (auto simp: e split: if_splits)
  show "links li_Supersedes s' = (sup_by s')\<inverse>" "links li_Corrects s' = (links li_CorrectedBy s')\<inverse>" "links li_CorrectedBy s' \<subseteq> sup_by s'"
    using state_invD(4,5,6) [OF I] U(1) by (auto simp: S C)
  show "single_valued (sup_by s')" using state_invD(7) [OF I] T unfolding S(1) single_valued_def by blast
  show "\<exists>y z. ess s' a = Some y \<and> ess s' b = Some z \<and> may_replace y z" if "(a, b) \<in> sup_by s'" for a b
    using that state_invD(8) [OF I, of a b] T(1) f unfolding S(1) by blast
  show "\<exists>y. ess s' b = Some y \<and> Authoritative (rc_Authority y)" if "(a, b) \<in> links li_CorrectedBy s'" for a b
    using that state_invD(9) [OF I, of a b] U T(1) f unfolding C(1) by blast
  show "links li_ConflictedBy s' = party_of s'" unfolding K pf state_invD(10) [OF I] by simp
  show "2 \<le> length (co_Parties info) \<and> distinct (co_Parties info)" if "ess s' c = Some y" "rc_Conflict y = Some info" for c y info
    using that state_invD(11) [OF I, of c y info] P [of info] by (auto simp: e split: if_splits)
  show "\<exists>y z. ess s' i = Some y \<and> ess s' c = Some z \<and> rc_Scope y = rc_Scope z" if "(i, c) \<in> party_of s'" for i c
    using that state_invD(12) [OF I, of i c] P f unfolding pf by blast
qed

lemma admit_inv:
  assumes I: "state_inv s" and "Set_Add r s = (None, s')"
  shows "state_inv s'"
proof -
  note e = add_effect [OF assms(2)]
  note a = admit_new [OF e(3) validate_fields(9) [OF e(1)] e(4)]
  have "rc_Conflict (essence r) = None" using validate_fields(10) [OF e(1)] by (simp add: essence_def)
  then show ?thesis by (intro inv_extend [OF I e(3) a(2,3,4) valid_stored [OF e(1,2)], of "{}" "{}"]) (auto simp: a(5))
qed

lemma supersede_inv:
  assumes I: "state_inv s" and "supersede r t at txt cor s = (None, s')"
  shows "state_inv s'"
  using assms(2)
proof (cases rule: supersede_effect)
  case (1 old)
  have "ess s t = Some (essence old)" using 1(1) by (simp add: ess_def)
  moreover have "may_replace (essence old) (essence r)" using can_supersede_replace [OF 1(6,7)] by (simp add: may_replace_def essence_def)
  moreover have "rc_Conflict (essence r) = None" using validate_fields(10) [OF 1(2)] by (simp add: essence_def)
  ultimately show ?thesis using 1
    by (intro inv_extend [OF I 1(4) 1(9,10,11) valid_stored [OF 1(2,3)], of "{(t, rc_ID r)}" "if cor then {(t, rc_ID r)} else {}"])
      (auto simp: single_valued_def essence_def split: if_splits)
qed

lemma conflict_inv:
  assumes I: "state_inv s" and "Set_Conflict m ps txt at s = (None, s')"
  shows "state_inv s'"
  using assms(2)
proof (cases rule: conflict_effect)
  case (1 m')
  have "stored_ok (rc_ID m) m'" using validate_fields [OF 1(3)] 1(1,2) by (simp add: stored_ok_def)
  moreover have "\<exists>y. ess s i = Some y \<and> rc_Scope y = rc_Scope m" if i: "i \<in> set ps" for i
  proof -
    obtain r where "s_byID s i = Some r" "rc_Scope r = rc_Scope m" using 1(6) [OF i] by blast
    then show ?thesis by (intro exI [of _ "essence r"]) (simp add: ess_def essence_def)
  qed
  ultimately show ?thesis using 1 by (intro inv_extend [OF I 1(7,8,9,10), of "{}" "{}"]) auto
qed

lemma resolve_inv:
  assumes I: "state_inv s" and "Resolve c w at txt s = Some (None, s')"
  shows "state_inv s'"
  using assms(2)
proof (cases rule: resolve_effect)
  case (1 con info win)
  have p: "party_of s' = party_of s" by (simp add: party_of_def 1(10))
  have "(i, c) \<in> party_of s" if "i \<in> set (co_Parties info)" for i using that 1(1,3) by (auto simp: party_of_def ess_def essence_def)
  then have sc: "\<exists>y. ess s i = Some y \<and> rc_Scope y = rc_Scope con" if "i \<in> set (co_Parties info)" for i
    using state_invD(12) [OF I, of i c] that 1(1) by (auto simp: ess_def essence_def)
  have w: "ess s w = Some (essence win)" using 1(5) by (simp add: ess_def)
  show ?thesis
  proof (rule state_invI)
    show "distinct (s_order s')" "set (s_order s') = dom (s_byID s')" using state_invD(1,2) [OF I] by (simp_all add: 1(8,9))
    show "stored_ok i x" if "ess s' i = Some x" for i x using that state_invD(3) [OF I] by (simp add: 1(10))
    show "links li_Supersedes s' = (sup_by s')\<inverse>" using state_invD(4) [OF I] by (auto simp: 1(11,12))
    show "links li_Corrects s' = (links li_CorrectedBy s')\<inverse>" "links li_CorrectedBy s' \<subseteq> sup_by s'"
      using state_invD(5,6) [OF I] 1(13) by (auto simp: 1(11))
    show "single_valued (sup_by s')" using state_invD(7) [OF I] unfolding 1(11) single_valued_def by blast
    show "\<exists>x y. ess s' a = Some x \<and> ess s' b = Some y \<and> may_replace x y" if ab: "(a, b) \<in> sup_by s'" for a b
    proof (cases "(a, b) \<in> sup_by s")
      case False
      then have "a \<in> set (co_Parties info)" "b = w" using ab by (auto simp: 1(11))
      then obtain y where "ess s a = Some y" "rc_Scope y = rc_Scope con" using sc by blast
      moreover have "may_replace y (essence win)" using 1(6,7) calculation(2) rank_bounds [of "rc_Authority win"] rank_bounds(1) [of "rc_Authority y"]
        by (simp add: may_replace_def essence_def)
      ultimately show ?thesis using w \<open>b = w\<close> by (simp add: 1(10))
    qed (use state_invD(8) [OF I, of a b] in \<open>simp add: 1(10)\<close>)
    show "\<exists>y. ess s' b = Some y \<and> Authoritative (rc_Authority y)" if "(a, b) \<in> links li_CorrectedBy s'" for a b
      using that state_invD(9) [OF I, of a b] by (simp add: 1(10,13))
    show "links li_ConflictedBy s' = party_of s'" using state_invD(10) [OF I] by (simp add: p 1(13))
    show "2 \<le> length (co_Parties j) \<and> distinct (co_Parties j)" if "ess s' d = Some x" "rc_Conflict x = Some j" for d x j
      using that state_invD(11) [OF I, of d x j] by (simp add: 1(10))
    show "\<exists>x y. ess s' i = Some x \<and> ess s' d = Some y \<and> rc_Scope x = rc_Scope y" if "(i, d) \<in> party_of s'" for i d
      using that state_invD(12) [OF I, of i d] by (simp add: p 1(10))
  qed
qed

section \<open>Every step\<close>

lemma step_refused: "state_step op s = Some (Some e, s') \<Longrightarrow> s' = s"
  by (cases op) (auto simp: Set_Add_def admit_def Supersede_def Correct_def supersede_def Set_Conflict_def Resolve_def Let_def
      split: option.splits if_splits bool.splits prod.splits)

lemma step_inv:
  assumes "state_inv s" "state_step op s = Some (e, s')"
  shows "state_inv s'"
proof (cases e)
  case None
  with assms show ?thesis by (cases op) (auto simp: Supersede_def Correct_def intro: admit_inv supersede_inv conflict_inv resolve_inv)
next
  case (Some x)
  with assms step_refused show ?thesis by blast
qed

lemma step_returns:
  assumes "state_inv s"
  shows "state_step op s \<noteq> None"
proof (cases op)
  case (OpResolve c w tn nt)
  have "i \<in> dom (s_byID s)" if "s_byID s c = Some con" "rc_Conflict con = Some info" "i \<in> set (co_Parties info)" for con info i
  proof -
    have "(i, c) \<in> party_of s" using that by (auto simp: party_of_def ess_def essence_def)
    then show ?thesis using state_invD(12) [OF assms] ess_dom [of s] by blast
  qed
  then show ?thesis using resolve_no_panic [of s c w tn nt] by (simp add: OpResolve)
qed simp_all

lemma step_grows:
  assumes "state_step op s = Some (e, s')"
  shows "grows_set s s'"
proof (cases e)
  case None
  then show ?thesis using assms
  proof (cases op)
    case (OpAdd r)
    then have "Set_Add r s = (None, s')" using assms None by simp
    from add_effect(4) [OF this] show ?thesis by (simp add: grows_admit)
  next
    case (OpSupersede r t tn nt)
    then have "supersede r t tn nt False s = (None, s')" using assms None by (simp add: Supersede_def)
    then show ?thesis by (rule supersede_effect)
  next
    case (OpCorrect r t tn nt)
    then have "supersede r t tn nt True s = (None, s')" using assms None by (simp add: Correct_def)
    then show ?thesis by (rule supersede_effect)
  next
    case (OpConflict m ps nt tn)
    then have "Set_Conflict m ps nt tn s = (None, s')" using assms None by simp
    then show ?thesis by (rule conflict_effect)
  next
    case (OpResolve c w tn nt)
    then have "Resolve c w tn nt s = Some (None, s')" using assms None by simp
    then show ?thesis by (rule resolve_effect)
  qed
next
  case (Some x)
  with assms step_refused show ?thesis by fastforce
qed

lemma evolves_inv: "evolves P s t \<Longrightarrow> state_inv s \<Longrightarrow> state_inv t"
  by (induction rule: evolves.induct) (auto intro: step_inv)

lemma evolves_grows: "evolves P s t \<Longrightarrow> grows_set s t"
  by (induction rule: evolves.induct) (auto intro: step_grows grows_set_trans)

abbreviation any_step :: "state_op \<Rightarrow> state_set \<Rightarrow> bool" where "any_step \<equiv> \<lambda>_ _. True"

section \<open>The answers\<close>

lemma in_All: "state_inv s \<Longrightarrow> r \<in> set (All s) \<longleftrightarrow> s_byID s (rc_ID r) = Some r"
proof -
  assume I: "state_inv s"
  have "rc_ID r = i" if "s_byID s i = Some r" for i r
    using state_invD(3) [OF I, of i "essence r"] that by (auto simp: ess_def stored_ok_def essence_def)
  then show ?thesis using state_invD(2) [OF I] by (force simp: All_def)
qed

lemma withheld:
  assumes I: "state_inv s" and c: "s_byID s c = Some con" "rc_Conflict con = Some info" "co_Resolution info = None" and i: "i \<in> set (co_Parties info)"
  shows "i \<notin> rc_ID ` set (Applicable s q)"
proof
  assume "i \<in> rc_ID ` set (Applicable s q)"
  then obtain r where r: "s_byID s i = Some r" "applies s r q" using in_All [OF I] by (auto simp: Applicable_def)
  have "(i, c) \<in> party_of s" using c i by (auto simp: party_of_def ess_def essence_def)
  then have "(i, c) \<in> links li_ConflictedBy s" using state_invD(10) [OF I] by simp
  then have "c \<in> set (li_ConflictedBy (rc_Lineage r))" using r(1) by (simp add: links_def)
  then show False using r(2) c by (auto simp: applies_def list_ex_iff Resolved_def split: if_splits)
qed

lemma superseded_not_applicable:
  assumes I: "state_inv s" and "i \<in> Domain (sup_by s)"
  shows "i \<notin> rc_ID ` set (Applicable s q)"
proof
  assume "i \<in> rc_ID ` set (Applicable s q)"
  then obtain r where r: "s_byID s i = Some r" "applies s r q" using in_All [OF I] by (auto simp: Applicable_def)
  then show False using superseded_iff [OF r(1)] assms(2) by (auto simp: applies_def split: if_splits)
qed

section \<open>After a resolution, and after reading back\<close>

lemma resolved_settled:
  assumes "Resolve c w tn nt s = Some (None, s')"
  shows "\<exists>con info win. s_byID s c = Some con \<and> rc_Conflict con = Some info \<and> s_byID s w = Some win \<and> Authoritative (rc_Authority win) \<and> rc_Scope win = rc_Scope con
    \<and> (\<exists>con'. s_byID s' c = Some con' \<and> Resolved (rc_Conflict con')) \<and> set (co_Parties info) - {w} \<subseteq> Domain (sup_by s')
    \<and> Domain (sup_by s') \<inter> {w} = Domain (sup_by s) \<inter> {w} \<and> grows_set s s' \<and> links li_ConflictedBy s' = links li_ConflictedBy s"
  using assms
proof (cases rule: resolve_effect)
  case (1 con info win)
  obtain con' where c: "s_byID s' c = Some con'" "rc_Conflict con' = Some (info\<lparr>co_Resolution := Some \<lparr>re_By = w, re_Authority = rc_Authority win, re_Turn = tn, re_Reason = nt\<rparr>\<rparr>)"
    using 1(15) by blast
  then have "Resolved (rc_Conflict con')" by (simp add: Resolved_def)
  moreover have "set (co_Parties info) - {w} \<subseteq> Domain (sup_by s')" unfolding 1(11) by blast
  moreover have "Domain (sup_by s') \<inter> {w} = Domain (sup_by s) \<inter> {w}" unfolding 1(11) by blast
  moreover have "links li_ConflictedBy s' = links li_ConflictedBy s" by (rule 1(13)) simp
  ultimately show ?thesis using 1(1,3,5,6,7,14) c(1) by blast
qed

lemma links_image: "s_byID s i = Some r \<Longrightarrow> links f s `` {i} = set (f (rc_Lineage r))"
  by (auto simp: links_def)

lemma winner_applies:
  assumes I: "state_inv s'" and G: "grows_set s s'" and win: "s_byID s w = Some win" "Authoritative (rc_Authority win)"
    and nd: "w \<notin> Domain (sup_by s')" and K: "links li_ConflictedBy s' = links li_ConflictedBy s"
    and open_c: "\<And>d con'. d \<in> set (li_ConflictedBy (rc_Lineage win)) \<Longrightarrow> s_byID s' d = Some con' \<Longrightarrow> Resolved (rc_Conflict con')"
  shows "w \<in> rc_ID ` set (Applicable s' (rc_Scope win))"
proof -
  obtain win' where w': "s_byID s' w = Some win'" "grows win win'" using G win(1) by (auto simp: grows_set_def)
  have e: "essence win' = essence win" using w'(2) by (simp add: grows_def)
  note e = essenceD [OF e]
  have "stored_ok w (essence win')" using state_invD(3) [OF I] w'(1) by (simp add: ess_def)
  then have ok: "rc_ID win' = w" "Authority_Valid (rc_Authority win')" "\<not> Scope_IsZero (rc_Scope win')" "rc_Sources win' \<noteq> []" by (simp_all add: stored_ok_def essence_def)
  have "set (li_ConflictedBy (rc_Lineage win')) = set (li_ConflictedBy (rc_Lineage win))"
    using links_image [OF w'(1), of li_ConflictedBy] links_image [OF win(1), of li_ConflictedBy] K by simp
  then have "\<not> list_ex (\<lambda>cid. case s_byID s' cid of None \<Rightarrow> False | Some c \<Rightarrow> \<not> Resolved (rc_Conflict c)) (li_ConflictedBy (rc_Lineage win'))"
    using open_c by (auto simp: list_ex_iff split: option.splits)
  moreover have "\<not> Superseded win'" using superseded_iff [OF w'(1)] nd by simp
  moreover have "rc_Authority win' \<noteq> AuthorityConflict" using rank_bounds(3) win(2) e(3) by simp
  moreover have "AppliesTo (rc_Scope win') (rc_Scope win)" using ok(3) e(4) by (simp add: AppliesTo_def)
  ultimately have "applies s' win' (rc_Scope win)" using ok by (simp add: applies_def)
  moreover have "win' \<in> set (All s')" using in_All [OF I] w'(1) ok(1) by simp
  ultimately show ?thesis using ok(1) by (auto simp: Applicable_def)
qed

text \<open>Reading back the records of a set in their order of admission.\<close>

lemma qualify_stored:
  assumes "stored_ok i (essence r)"
  shows "qualify r = r" "rc_ID r = i" "rc_Version r = 1" "i \<noteq> []"
  using assms by (simp_all add: stored_ok_def essence_def qualify_def)

lemma decode_prefix:
  assumes I: "state_inv s" and "s_order s = ps @ qs" and "t = \<lparr>s_byID = s_byID s |` set ps, s_order = ps\<rparr>"
  shows "decode_records (map (\<lambda>i. the (s_byID s i)) qs) t = Inr s"
  using assms(2,3)
proof (induction qs arbitrary: ps t)
  case Nil
  have "s_byID s |` set ps = s_byID s" using state_invD(2) [OF I] Nil(1) by (auto simp: restrict_map_def fun_eq_iff)
  then show ?case using Nil by simp
next
  case (Cons i qs)
  have "i \<in> dom (s_byID s)" using state_invD(2) [OF I] Cons.prems(1) by auto
  then obtain r where r: "s_byID s i = Some r" by blast
  have "stored_ok i (essence r)" using state_invD(3) [OF I] r by (simp add: ess_def)
  note q = qualify_stored [OF this]
  have n: "i \<notin> set ps" using state_invD(1) [OF I] Cons.prems(1) by simp
  have "s_byID s |` set (ps @ [i]) = (s_byID s |` set ps)(i \<mapsto> r)" using r by (auto simp: restrict_map_def fun_eq_iff)
  then have "decode_records (map (\<lambda>i. the (s_byID s i)) qs) \<lparr>s_byID = (s_byID s |` set ps)(i \<mapsto> r), s_order = ps @ [i]\<rparr> = Inr s"
    using Cons.IH [of "ps @ [i]"] Cons.prems(1) by (simp add: fun_upd_def)
  then show ?case using r q n Cons.prems(2) by (simp add: admit_def restrict_map_def)
qed

section \<open>Chains\<close>

definition live_winner :: "state_op \<Rightarrow> state_set \<Rightarrow> bool" where
  "live_winner op s \<longleftrightarrow> (case op of OpResolve c w tn nt \<Rightarrow> w \<notin> Domain (sup_by s) | _ \<Rightarrow> True)"

lemma acyclic_to_head:
  assumes "acyclic R" "h \<notin> Domain R" "h \<notin> A"
  shows "acyclic (R \<union> A \<times> {h})"
proof -
  have "(x, y) \<in> R\<^sup>+ \<or> y = h \<and> x \<noteq> h" if "(x, y) \<in> (R \<union> A \<times> {h})\<^sup>+" for x y
    using that
  proof (induction rule: trancl_induct)
    case (base y)
    then show ?case using assms(2,3) by blast
  next
    case (step y z)
    have "y \<noteq> h" using step.hyps(2) assms(2,3) by blast
    then have "(x, y) \<in> R\<^sup>+" using step.IH by blast
    then have "x \<noteq> h" using assms(2) by (metis Domain.DomainI tranclD)
    then show ?case using step.hyps(2) \<open>(x, y) \<in> R\<^sup>+\<close> by (auto intro: trancl_into_trancl)
  qed
  then show ?thesis using assms(1) unfolding acyclic_def by blast
qed

lemma acyclic_step:
  assumes I: "state_inv s" and A: "acyclic (sup_by s)" and P: "live_winner op s" and st: "state_step op s = Some (None, s')"
  shows "acyclic (sup_by s')"
proof -
  have sup: "acyclic (sup_by s')" if u: "supersede r t tn nt cor s = (None, s')" for r t tn nt cor
    using u
  proof (cases rule: supersede_effect)
    case (1 old)
    have "rc_ID r \<notin> Domain (sup_by s)" using fresh_links(1) [OF I 1(4)] by blast
    moreover have "rc_ID r \<noteq> t" using 1(1,4) by auto
    ultimately show ?thesis using acyclic_to_head [OF A, of "rc_ID r" "{t}"] by (simp add: 1(12))
  qed
  show ?thesis
  proof (cases op)
    case (OpAdd r)
    then have e: "Set_Add r s = (None, s')" using st by simp
    note a = add_effect [OF e]
    show ?thesis using A admit_new(5) [OF a(3) validate_fields(9) [OF a(1)] a(4), of li_SupersededBy] by simp
  next
    case (OpConflict m ps nt tn)
    then have "Set_Conflict m ps nt tn s = (None, s')" using st by simp
    then show ?thesis by (rule conflict_effect) (use A in simp)
  next
    case (OpResolve c w tn nt)
    then have "Resolve c w tn nt s = Some (None, s')" using st by simp
    then show ?thesis
    proof (cases rule: resolve_effect)
      case (1 con info win)
      have w: "w \<notin> Domain (sup_by s)" using P OpResolve by (simp add: live_winner_def)
      have "sup_by s' = sup_by s \<union> {i \<in> set (co_Parties info). i \<noteq> w \<and> i \<notin> Domain (sup_by s)} \<times> {w}" unfolding 1(11) by blast
      then show ?thesis using acyclic_to_head [OF A w, of "{i \<in> set (co_Parties info). i \<noteq> w \<and> i \<notin> Domain (sup_by s)}"] by simp
    qed
  qed (use sup st in \<open>auto simp: Supersede_def Correct_def\<close>)
qed

lemma evolves_acyclic: "evolves live_winner s t \<Longrightarrow> state_inv s \<Longrightarrow> acyclic (sup_by s) \<Longrightarrow> acyclic (sup_by t)"
proof (induction rule: evolves.induct)
  case (evolves_step t op e u)
  have I: "state_inv t" by (rule evolves_inv [OF evolves_step.hyps(1) evolves_step.prems(1)])
  have A: "acyclic (sup_by t)" by (rule evolves_step.IH [OF evolves_step.prems])
  show ?case
  proof (cases e)
    case None
    then show ?thesis using acyclic_step [OF I A evolves_step.hyps(2)] evolves_step.hyps(3) by simp
  next
    case (Some x)
    then show ?thesis using step_refused evolves_step.hyps(3) A by blast
  qed
qed simp

lemma head_exists:
  assumes I: "state_inv s" and A: "acyclic (sup_by s)" and a: "ess s a = Some x"
  shows "\<exists>h y. (a, h) \<in> (sup_by s)\<^sup>* \<and> ess s h = Some y \<and> h \<notin> Domain (sup_by s) \<and> rc_Scope y = rc_Scope x \<and> authorityRank (rc_Authority x) \<le> authorityRank (rc_Authority y)"
proof -
  have "sup_by s \<subseteq> dom (s_byID s) \<times> dom (s_byID s)" using state_invD(8) [OF I] ess_dom [of s] by fastforce
  moreover have "finite (dom (s_byID s))" using state_invD(2) [OF I] by (metis List.finite_set)
  ultimately have "finite (sup_by s)" by (meson finite_SigmaI finite_subset)
  then have "wf ((sup_by s)\<inverse>)" using A by (intro finite_acyclic_wf_converse)
  then show ?thesis using a
  proof (induction a arbitrary: x rule: wf_induct_rule)
    case (less a)
    show ?case
    proof (cases "a \<in> Domain (sup_by s)")
      case False
      then show ?thesis using less.prems by blast
    next
      case True
      then obtain b where b: "(a, b) \<in> sup_by s" by blast
      then obtain y where y: "ess s b = Some y" "may_replace x y" using state_invD(8) [OF I b] less.prems by auto
      obtain h z where h: "(b, h) \<in> (sup_by s)\<^sup>*" "ess s h = Some z" "h \<notin> Domain (sup_by s)" "rc_Scope z = rc_Scope y" "authorityRank (rc_Authority y) \<le> authorityRank (rc_Authority z)"
        using less.IH [of b y] b y(1) by blast
      have "(a, h) \<in> (sup_by s)\<^sup>*" using b h(1) by (rule converse_rtrancl_into_rtrancl)
      moreover have "rc_Scope z = rc_Scope x" "authorityRank (rc_Authority x) \<le> authorityRank (rc_Authority z)" using y(2) h(4,5) by (auto simp: may_replace_def)
      ultimately show ?thesis using h(2,3) by blast
    qed
  qed
qed

end
