(* ===== verification/DerivedStateThms.thy ===== *)
theory DerivedStateThms
  imports DerivedStateProps
begin

text \<open>The promises of the derived state to its clients, with a session that shows each.\<close>

section \<open>A session\<close>

definition scope_w :: Scope where "scope_w = WorktreeScope (lit ''w'')"

definition sample :: "string \<Rightarrow> Authority \<Rightarrow> Record" where
  "sample i a = \<lparr>rc_Version = 1, rc_ID = lit i, rc_Authority = a, rc_Scope = scope_w, rc_Claim = lit ''claim'',
     rc_Dependencies = \<lparr>de_Deps = [], de_Coverage = DepCoverageUnknown, de_Reason = []\<rparr>, rc_Validity = \<lparr>ev_From = 0, ev_To = 0, ev_Generation = 0\<rparr>,
     rc_Sources = [lit ''o1''], rc_TransformVersion = lit ''state/v1'', rc_HashVersion = lit ''sha256/v1'', rc_Lineage = no_lineage, rc_Conflict = None, rc_RecordedAt = 0\<rparr>"

fun run_ops :: "state_op list \<Rightarrow> state_set \<Rightarrow> (state_error option list \<times> state_set) option" where
  "run_ops [] s = Some ([], s)"
| "run_ops (x # xs) s =
     (case state_step x s of None \<Rightarrow> None | Some (e, s) \<Rightarrow> map_option (\<lambda>(es, s). (e # es, s)) (run_ops xs s))"

lemma run_evolves:
  assumes "evolves P s t" "run_ops xs t = Some (es, u)" "\<And>op v. op \<in> set xs \<Longrightarrow> P op v"
  shows "evolves P s u"
  using assms
proof (induction xs arbitrary: t es)
  case (Cons x xs)
  obtain e v where v: "state_step x t = Some (e, v)" "\<exists>es. run_ops xs v = Some (es, u)" using Cons.prems(2) by (auto split: option.splits prod.splits)
  have "evolves P s v" using evolves_step [OF Cons.prems(1) _ v(1)] Cons.prems(3) by simp
  then show ?case using Cons.IH v(2) Cons.prems(3) by fastforce
qed simp

text \<open>A guess and a tool observation disagree.\<close>

definition quarrel :: "state_op list" where
  "quarrel = [OpAdd (sample ''a'' AuthorityHypothesis), OpAdd (sample ''b'' AuthorityToolObservation), OpAdd (sample ''u'' AuthorityUserCorrection),
     OpConflict (sample ''c'' AuthorityConflict) [lit ''a'', lit ''b''] [] 1]"

lemmas state_run_simps = quarrel_def sample_def scope_w_def WorktreeScope_def Set_Add_def Record_Validate_def validateFields_def admit_def Authority_Valid_def Scope_IsZero_def DepCoverage_Valid_def
  validInterval_def Lineage_IsZero_def no_lineage_def AuthorityHypothesis_def AuthorityConflict_def AuthorityToolObservation_def AuthorityUserCorrection_def
  AuthorityExplicitDecision_def AuthorityCandidateExtraction_def DepCoverageUnknown_def DepCoverageComplete_def DepCoveragePartial_def Set_Conflict_def Superseded_def
  at_record_def lineage_def Record_note_def NewSet_def lit_def Resolve_def Authoritative_def Resolved_def Let_def Supersede_def supersede_def CanSupersede_def authorityRank_def

lemma quarrel_run: "\<exists>s con. run_ops quarrel NewSet = Some ([None, None, None, None], s) \<and> s_byID s (lit ''c'') = Some con
    \<and> rc_Conflict con = Some \<lparr>co_Parties = [lit ''a'', lit ''b''], co_Reason = [], co_Resolution = None\<rparr> \<and> con \<in> set (Conflicts s scope_w)
    \<and> (\<exists>s'. Resolve (lit ''c'') (lit ''u'') 2 [] s = Some (None, s'))"
  by (simp add: state_run_simps Conflicts_def All_def AppliesTo_def)

text \<open>A decision replaces a guess.\<close>

definition replaced :: "state_op list" where
  "replaced = [OpAdd (sample ''a'' AuthorityHypothesis), OpSupersede (sample ''b'' AuthorityExplicitDecision) (lit ''a'') 1 []]"

lemma replaced_run: "\<exists>s r. run_ops replaced NewSet = Some ([None, None], s) \<and> Set_Get (lit ''a'') s = Some r \<and> Superseded r"
  by (simp add: replaced_def state_run_simps Set_Get_def)

section \<open>Properties\<close>

text \<open>C8. The invariant of the derived state: after any sequence of operations from the empty set the admission
  order lists exactly the records, every record is complete and fit to cite, supersession, correction and
  conflict links agree in both directions, a record has at most one successor, which is in its scope
  and never of lower standing, only authoritative records replace authoritative ones or correct; and no
  operation panics.\<close>

theorem derived_state_invariant:
  assumes "evolves any_step NewSet s"
  shows "state_inv s \<and> state_step op s \<noteq> None"
  using evolves_inv [OF assms new_inv] step_returns by blast

text \<open>Witness.\<close>

theorem derived_state_invariant_witness:
  "\<exists>s. run_ops quarrel NewSet = Some ([None, None, None, None], s) \<and> state_inv s \<and> state_step (OpResolve (lit ''c'') (lit ''u'') 2 []) s \<noteq> None"
proof -
  obtain s where r: "run_ops quarrel NewSet = Some ([None, None, None, None], s)" using quarrel_run by blast
  have "evolves any_step NewSet s" by (rule run_evolves [OF evolves_refl r]) simp
  from derived_state_invariant [OF this] r show ?thesis by blast
qed

text \<open>C16. Nothing recorded is ever rewritten: along any history every record stays, with its identity, authority,
  scope, claim, dependencies, validity and sources; its links and its history only grow at the end, a
  resolution once written stays, and an operation that reports an error changes nothing.\<close>

theorem evidence_never_rewritten:
  assumes "evolves any_step s t" "state_step op t = Some (e, u)"
  shows "grows_set s t \<and> grows_set s u \<and> (if e = None then True else u = t)"
  using evolves_grows [OF assms(1)] step_grows [OF assms(2)] step_refused assms(2) grows_set_trans by (cases e) auto

text \<open>Witness.\<close>

theorem evidence_never_rewritten_witness:
  "\<exists>s u. run_ops quarrel NewSet = Some ([None, None, None, None], s) \<and> state_step (OpResolve (lit ''c'') (lit ''u'') 2 []) s = Some (None, u) \<and> grows_set s u"
proof -
  obtain s u where r: "run_ops quarrel NewSet = Some ([None, None, None, None], s)" "Resolve (lit ''c'') (lit ''u'') 2 [] s = Some (None, u)" using quarrel_run by blast
  have "state_step (OpResolve (lit ''c'') (lit ''u'') 2 []) s = Some (None, u)" using r(2) by simp
  with evidence_never_rewritten [OF evolves_refl this] r(1) show ?thesis by blast
qed

text \<open>C17. A disagreement is not decided silently: while a conflict is reported, none of its parties applies in
  any scope.\<close>

theorem conflict_withholds_parties:
  assumes "evolves any_step NewSet s" "con \<in> set (Conflicts s q)" "rc_Conflict con = Some info" "i \<in> set (co_Parties info)"
  shows "i \<notin> rc_ID ` set (Applicable s q')"
proof -
  have I: "state_inv s" by (rule evolves_inv [OF assms(1) new_inv])
  have "s_byID s (rc_ID con) = Some con" "co_Resolution info = None" using assms(2,3) in_All [OF I] by (auto simp: Conflicts_def Resolved_def)
  then show ?thesis using withheld [OF I _ assms(3) _ assms(4)] by blast
qed

text \<open>Witness.\<close>

theorem conflict_withholds_parties_witness:
  "\<exists>s. run_ops quarrel NewSet = Some ([None, None, None, None], s) \<and> lit ''a'' \<notin> rc_ID ` set (Applicable s scope_w)"
proof -
  obtain s con where r: "run_ops quarrel NewSet = Some ([None, None, None, None], s)" "con \<in> set (Conflicts s scope_w)"
    "rc_Conflict con = Some \<lparr>co_Parties = [lit ''a'', lit ''b''], co_Reason = [], co_Resolution = None\<rparr>" using quarrel_run by blast
  have "evolves any_step NewSet s" by (rule run_evolves [OF evolves_refl r(1)]) simp
  from conflict_withholds_parties [OF this r(2,3), of "lit ''a''" scope_w] r(1) show ?thesis by auto
qed

text \<open>C18. A resolution settles: the conflict records the authoritative winner and is no longer reported, and no
  other party applies; the winner does, in the scope of the conflict, unless it was itself superseded or
  is party to another open conflict.\<close>

theorem resolve_settles:
  assumes "evolves any_step NewSet s" "Resolve c w tn nt s = Some (None, s')"
  shows "\<exists>con info win. Set_Get c s = Some con \<and> rc_Conflict con = Some info \<and> Set_Get w s = Some win \<and> Authoritative (rc_Authority win)
    \<and> c \<notin> rc_ID ` set (Conflicts s' q) \<and> rc_ID ` set (Applicable s' q) \<inter> set (co_Parties info) \<subseteq> {w}
    \<and> (if Superseded win \<or> list_ex (\<lambda>d. d \<noteq> c \<and> \<not> Resolved (Option.bind (Set_Get d s) rc_Conflict)) (li_ConflictedBy (rc_Lineage win)) then True
       else w \<in> rc_ID ` set (Applicable s' (rc_Scope con)))"
proof -
  have I: "state_inv s" by (rule evolves_inv [OF assms(1) new_inv])
  have I': "state_inv s'" by (rule resolve_inv [OF I assms(2)])
  obtain con info win con' where r: "s_byID s c = Some con" "rc_Conflict con = Some info" "s_byID s w = Some win" "Authoritative (rc_Authority win)" "rc_Scope win = rc_Scope con"
    "s_byID s' c = Some con'" "Resolved (rc_Conflict con')" "set (co_Parties info) - {w} \<subseteq> Domain (sup_by s')"
    "Domain (sup_by s') \<inter> {w} = Domain (sup_by s) \<inter> {w}" "grows_set s s'" "links li_ConflictedBy s' = links li_ConflictedBy s"
    using resolved_settled [OF assms(2)] by blast
  have "c \<notin> rc_ID ` set (Conflicts s' q)" using r(6,7) in_All [OF I'] by (auto simp: Conflicts_def)
  moreover have "rc_ID ` set (Applicable s' q) \<inter> set (co_Parties info) \<subseteq> {w}" using superseded_not_applicable [OF I'] r(8) by blast
  moreover have "w \<in> rc_ID ` set (Applicable s' (rc_Scope con))"
    if n: "\<not> Superseded win" "\<not> list_ex (\<lambda>d. d \<noteq> c \<and> \<not> Resolved (Option.bind (Set_Get d s) rc_Conflict)) (li_ConflictedBy (rc_Lineage win))"
    unfolding r(5) [symmetric]
  proof (rule winner_applies [OF I' r(10,3,4) _ r(11)])
    show "w \<notin> Domain (sup_by s')" using superseded_iff [OF r(3)] n(1) r(9) by blast
    show "Resolved (rc_Conflict x)" if d: "d \<in> set (li_ConflictedBy (rc_Lineage win))" "s_byID s' d = Some x" for d x
    proof (cases "d = c")
      case False
      then have z: "Resolved (Option.bind (Set_Get d s) rc_Conflict)" using n(2) d(1) by (auto simp: list_ex_iff)
      then obtain y where y: "s_byID s d = Some y" by (cases "s_byID s d") (auto simp: Set_Get_def Resolved_def)
      with z have "Resolved (rc_Conflict y)" by (simp add: Set_Get_def)
      with resolution_stays [OF r(10) y d(2)] show ?thesis by simp
    qed (use r(6,7) d(2) in simp)
  qed
  ultimately show ?thesis using r(1-4) by (auto simp: Set_Get_def)
qed

text \<open>Witness.\<close>

theorem resolve_settles_witness:
  "\<exists>s s'. run_ops quarrel NewSet = Some ([None, None, None, None], s) \<and> Resolve (lit ''c'') (lit ''u'') 2 [] s = Some (None, s')
    \<and> lit ''c'' \<notin> rc_ID ` set (Conflicts s' scope_w)"
proof -
  obtain s u where r: "run_ops quarrel NewSet = Some ([None, None, None, None], s)" "Resolve (lit ''c'') (lit ''u'') 2 [] s = Some (None, u)" using quarrel_run by blast
  have "evolves any_step NewSet s" by (rule run_evolves [OF evolves_refl r(1)]) simp
  from resolve_settles [OF this r(2), of scope_w] r show ?thesis by blast
qed

text \<open>C35. Every chain of supersessions ends: as long as conflicts are resolved in favour of records that are not
  superseded themselves, following the successors of any record reaches one that is not superseded, in
  the same scope and of no lower standing.\<close>

theorem chain_reaches_head:
  assumes "evolves live_winner NewSet s" "Set_Get a s = Some r"
  shows "\<exists>h y. (a, h) \<in> (sup_by s)\<^sup>* \<and> Set_Get h s = Some y \<and> \<not> Superseded y \<and> rc_Scope y = rc_Scope r
    \<and> authorityRank (rc_Authority r) \<le> authorityRank (rc_Authority y)"
proof -
  have I: "state_inv s" by (rule evolves_inv [OF assms(1) new_inv])
  have "sup_by NewSet = {}" by (simp add: links_def NewSet_def)
  then have "acyclic (sup_by s)" by (intro evolves_acyclic [OF assms(1) new_inv]) (simp add: acyclic_def)
  moreover have "ess s a = Some (essence r)" using assms(2) by (simp add: ess_def Set_Get_def)
  ultimately obtain h y where h: "(a, h) \<in> (sup_by s)\<^sup>*" "ess s h = Some y" "h \<notin> Domain (sup_by s)" "rc_Scope y = rc_Scope (essence r)"
    "authorityRank (rc_Authority (essence r)) \<le> authorityRank (rc_Authority y)" using head_exists [OF I] by blast
  obtain z where z: "s_byID s h = Some z" "y = essence z" using h(2) by (auto simp: ess_def)
  show ?thesis using h z superseded_iff [OF z(1)] by (intro exI [of _ h] exI [of _ z]) (simp add: Set_Get_def essence_def)
qed

text \<open>Witness.\<close>

theorem chain_reaches_head_witness:
  "\<exists>s r h. run_ops replaced NewSet = Some ([None, None], s) \<and> Set_Get (lit ''a'') s = Some r \<and> Superseded r \<and> (lit ''a'', h) \<in> (sup_by s)\<^sup>*
    \<and> (case Set_Get h s of None \<Rightarrow> False | Some y \<Rightarrow> \<not> Superseded y)"
proof -
  obtain s r where r: "run_ops replaced NewSet = Some ([None, None], s)" "Set_Get (lit ''a'') s = Some r" "Superseded r" using replaced_run by blast
  have "evolves live_winner NewSet s" by (rule run_evolves [OF evolves_refl r(1)]) (auto simp: replaced_def live_winner_def)
  from chain_reaches_head [OF this r(2)] obtain h y where "(lit ''a'', h) \<in> (sup_by s)\<^sup>*" "Set_Get h s = Some y" "\<not> Superseded y" by blast
  with r show ?thesis by (intro exI [of _ s] exI [of _ r] exI [of _ h]) simp
qed

text \<open>Without that proviso it does not: the code lets a superseded record win a conflict.\<close>

definition circle :: "state_op list" where
  "circle = [OpAdd (sample ''a'' AuthorityExplicitDecision), OpSupersede (sample ''b'' AuthorityExplicitDecision) (lit ''a'') 1 [],
     OpAdd (sample ''d'' AuthorityToolObservation), OpConflict (sample ''c'' AuthorityConflict) [lit ''b'', lit ''d''] [] 2, OpResolve (lit ''c'') (lit ''a'') 3 []]"


section \<open>The durable document\<close>

text \<open>Reading back what was written gives the same set.\<close>

theorem state_roundtrip:
  assumes "evolves any_step NewSet s"
  shows "Decode (Encode s) = Inr s"
proof -
  have "state_inv s" by (rule evolves_inv [OF assms new_inv])
  from decode_prefix [OF this, of "[]" "s_order s" NewSet] show ?thesis by (simp add: Decode_def Encode_def All_def NewSet_def)
qed

text \<open>Witness.\<close>

theorem state_roundtrip_witness: "\<exists>s. run_ops quarrel NewSet = Some ([None, None, None, None], s) \<and> Decode (Encode s) = Inr s"
proof -
  obtain s where r: "run_ops quarrel NewSet = Some ([None, None, None, None], s)" using quarrel_run by blast
  have "evolves any_step NewSet s" by (rule run_evolves [OF evolves_refl r]) simp
  from state_roundtrip [OF this] r show ?thesis by blast
qed

text \<open>A conflict whose parties are missing from the document.\<close>

definition dangling_doc :: state_snapshot where
  "dangling_doc = \<lparr>ss_Version = 1, ss_Records = [sample ''u'' AuthorityUserCorrection,
     (sample ''c'' AuthorityConflict)\<lparr>rc_Conflict := Some \<lparr>co_Parties = [lit ''a'', lit ''b''], co_Reason = [], co_Resolution = None\<rparr>\<rparr>]\<rparr>"

text \<open>A document whose conflict names a party it does not hold is accepted, and resolving that conflict
  dereferences nil.\<close>

theorem decoded_resolve_panics:
  "\<exists>s. Decode dangling_doc = Inr s \<and> Resolve (lit ''c'') (lit ''u'') 2 [] s = None"
  by (simp add: dangling_doc_def Decode_def qualify_def state_run_simps)

end
