(* ===== verification/GoGlob.thy ===== *)
theory GoGlob
  imports GoStrings
begin

text \<open>
  Go's \<^verbatim>\<open>path.Match\<close>, with the UTF-8 decoder it uses, on byte strings.  An error return (\<^verbatim>\<open>ErrBadPattern\<close>) is
  \<open>None\<close>.  The reference semantics reads a pattern as a list of elements, of which a star stands for any run
  of bytes other than slashes; the code is greedy and never backtracks over a star.
\<close>

section \<open>Runes\<close>

abbreviation (input) RuneError :: nat where "RuneError \<equiv> 0xFFFD"

definition cont_in :: "byte \<Rightarrow> byte \<Rightarrow> byte \<Rightarrow> bool" where
  "cont_in lo hi b \<longleftrightarrow> lo \<le> b \<and> b \<le> hi"

definition low6 :: "byte \<Rightarrow> nat" where
  "low6 b = unat b mod 64"

text \<open>The second byte of a sequence that starts with the given byte lies in this range.\<close>

definition accept_range :: "byte \<Rightarrow> byte \<times> byte" where
  "accept_range b = (if b = 0xE0 then (0xA0, 0xBF) else if b = 0xED then (0x80, 0x9F) else if b = 0xF0 then (0x90, 0xBF)
     else if b = 0xF4 then (0x80, 0x8F) else (0x80, 0xBF))"

fun DecodeRuneInString :: "bytes \<Rightarrow> nat \<times> nat" where
  "DecodeRuneInString [] = (RuneError, 0)"
| "DecodeRuneInString (b # s) =
     (if b < 0x80 then (unat b, 1)
      else if b < 0xC2 \<or> 0xF4 < b then (RuneError, 1)
      else case s of
        [] \<Rightarrow> (RuneError, 1)
      | b1 # s \<Rightarrow>
          let (lo, hi) = accept_range b in
          if \<not> cont_in lo hi b1 then (RuneError, 1)
          else if b < 0xE0 then (unat b mod 32 * 64 + low6 b1, 2)
          else (case s of
             [] \<Rightarrow> (RuneError, 1)
           | b2 # s \<Rightarrow>
               if \<not> cont_in 0x80 0xBF b2 then (RuneError, 1)
               else if b < 0xF0 then (unat b mod 16 * 4096 + low6 b1 * 64 + low6 b2, 3)
               else (case s of
                  [] \<Rightarrow> (RuneError, 1)
                | b3 # _ \<Rightarrow>
                    if \<not> cont_in 0x80 0xBF b3 then (RuneError, 1)
                    else (unat b mod 8 * 262144 + low6 b1 * 4096 + low6 b2 * 64 + low6 b3, 4))))"

declare DecodeRuneInString.simps(2) [simp del]

lemma rune_width: "s \<noteq> [] \<Longrightarrow> 1 \<le> snd (DecodeRuneInString s) \<and> snd (DecodeRuneInString s) \<le> length s"
  by (cases s) (auto simp: DecodeRuneInString.simps(2) split: list.splits prod.splits)

lemma rune_ascii [simp]: "b < 0x80 \<Longrightarrow> DecodeRuneInString (b # s) = (unat b, 1)"
  by (simp add: DecodeRuneInString.simps(2))

section \<open>path.Match\<close>

abbreviation (input) slash :: byte where "slash \<equiv> 0x2F"

definition getEsc :: "bytes \<Rightarrow> (nat \<times> bytes) option" where
  "getEsc chunk =
     (case chunk of
        [] \<Rightarrow> None
      | c # cs \<Rightarrow>
          if c = 0x2D \<or> c = 0x5D then None
          else if c = 0x5C \<and> cs = [] then None
          else let chunk = (if c = 0x5C then cs else chunk);
                   (r, n) = DecodeRuneInString chunk
               in if r = RuneError \<and> n = 1 then None
                  else if drop n chunk = [] then None
                  else Some (r, drop n chunk))"

lemma getEsc_shorter: "getEsc chunk = Some (r, rest) \<Longrightarrow> length rest < length chunk"
proof -
  assume a: "getEsc chunk = Some (r, rest)"
  then obtain c cs where c: "chunk = c # cs" by (auto simp: getEsc_def split: list.splits)
  define ch where "ch = (if c = 0x5C then cs else chunk)"
  have "ch \<noteq> []" using a by (auto simp: getEsc_def c ch_def split: if_splits)
  moreover have "rest = drop (snd (DecodeRuneInString ch)) ch"
    using a by (auto simp: getEsc_def c ch_def Let_def split: if_splits prod.splits)
  ultimately have "length rest < length ch" using rune_width [of ch] by simp
  then show ?thesis by (simp add: ch_def c split: if_splits)
qed

text \<open>The loop over the ranges of a class, from the rune of the name and whether a range was read and matched.\<close>

function class_loop :: "nat \<Rightarrow> bool \<Rightarrow> bool \<Rightarrow> bytes \<Rightarrow> (bool \<times> bytes) option" where
  "class_loop r nrange matched chunk =
     (if chunk \<noteq> [] \<and> hd chunk = 0x5D \<and> nrange then Some (matched, tl chunk)
      else case getEsc chunk of
             None \<Rightarrow> None
           | Some (lo, chunk') \<Rightarrow>
               (case if hd chunk' = 0x2D then getEsc (tl chunk') else Some (lo, chunk') of
                  None \<Rightarrow> None
                | Some (hi, chunk'') \<Rightarrow> class_loop r True (matched \<or> lo \<le> r \<and> r \<le> hi) chunk''))"
  by pat_completeness auto
termination
  by (relation "measure (\<lambda>(_, _, _, c). length c)") (auto dest!: getEsc_shorter split: if_splits)

declare class_loop.simps [simp del]

lemma class_loop_shorter: "class_loop r n m chunk = Some (x, rest) \<Longrightarrow> length rest < length chunk"
proof (induction r n m chunk rule: class_loop.induct)
  case (1 r n m chunk)
  show ?case
  proof (cases "chunk \<noteq> [] \<and> hd chunk = 0x5D \<and> n")
    case True
    then have "rest = tl chunk" using "1.prems" unfolding class_loop.simps [of r n m chunk] by simp
    then show ?thesis using True by (cases chunk) auto
  next
    case False
    then obtain lo c' hi c'' where e: "getEsc chunk = Some (lo, c')" "(if hd c' = 0x2D then getEsc (tl c') else Some (lo, c')) = Some (hi, c'')"
      "class_loop r True (m \<or> lo \<le> r \<and> r \<le> hi) c'' = Some (x, rest)"
      using "1.prems" by (auto simp: class_loop.simps [of r n m chunk] split: option.splits if_splits)
    have "length c'' \<le> length c'" using e(2) by (auto dest!: getEsc_shorter split: if_splits)
    moreover have "length c' < length chunk" using getEsc_shorter [OF e(1)] .
    moreover have "length rest < length c''" by (rule "1.IH" [OF False e(1) refl e(2) refl e(3)])
    ultimately show ?thesis by simp
  qed
qed

definition match_lit :: "byte \<Rightarrow> bytes option \<Rightarrow> bytes option" where
  "match_lit c s = (case s of None \<Rightarrow> None | Some t \<Rightarrow> if c \<noteq> hd t then None else Some (tl t))"

definition class_rune :: "bytes option \<Rightarrow> nat \<times> bytes option" where
  "class_rune s = (case s of None \<Rightarrow> (0, None) | Some t \<Rightarrow> let (r, n) = DecodeRuneInString t in (r, Some (drop n t)))"

definition match_any :: "bytes option \<Rightarrow> bytes option" where
  "match_any s = (case s of None \<Rightarrow> None | Some t \<Rightarrow> if hd t = slash then None else Some (drop (snd (DecodeRuneInString t)) t))"

text \<open>The name is \<open>None\<close> once the match has failed; the rest of the chunk is still checked.\<close>

function matchChunk :: "bytes \<Rightarrow> bytes option \<Rightarrow> bytes option option" where
  "matchChunk [] s = Some s"
| "matchChunk (c # chunk) s0 =
     (let s = (if s0 = Some [] then None else s0) in
      if c = 0x5B then
        let (r, s) = class_rune s;
            negated = (chunk \<noteq> [] \<and> hd chunk = 0x5E);
            chunk = (if negated then tl chunk else chunk)
        in (case class_loop r False False chunk of
              None \<Rightarrow> None
            | Some (m, chunk') \<Rightarrow> matchChunk chunk' (if m = negated then None else s))
      else if c = 0x3F then
        matchChunk chunk (match_any s)
      else if c = 0x5C then
        (case chunk of [] \<Rightarrow> None | d # chunk' \<Rightarrow> matchChunk chunk' (match_lit d s))
      else matchChunk chunk (match_lit c s))"
  by pat_completeness auto
termination
  by (relation "measure (\<lambda>(c, _). length c)") (auto dest!: class_loop_shorter split: if_splits)

declare matchChunk.simps(2) [simp del]

fun scan_len :: "bool \<Rightarrow> bytes \<Rightarrow> nat" where
  "scan_len inrange [] = 0"
| "scan_len inrange (c # p) =
     (if c = 0x5C then (case p of [] \<Rightarrow> 1 | _ # q \<Rightarrow> Suc (Suc (scan_len inrange q)))
      else if c = 0x5B then Suc (scan_len True p)
      else if c = 0x5D then Suc (scan_len False p)
      else if c = 0x2A \<and> \<not> inrange then 0
      else Suc (scan_len inrange p))"

definition scanChunk :: "bytes \<Rightarrow> bool \<times> bytes \<times> bytes" where
  "scanChunk pattern =
     (let p = dropWhile (\<lambda>c. c = 0x2A) pattern; i = scan_len False p
      in (pattern \<noteq> [] \<and> hd pattern = 0x2A, take i p, drop i p))"

lemma scanChunk_shorter: "scanChunk p = (star, chunk, rest) \<Longrightarrow> p \<noteq> [] \<Longrightarrow> length rest < length p"
proof -
  assume a: "scanChunk p = (star, chunk, rest)" and p: "p \<noteq> []"
  define q where "q = dropWhile (\<lambda>c. c = 0x2A) p"
  have r: "rest = drop (scan_len False q) q" using a by (simp add: scanChunk_def q_def Let_def)
  have l: "length q \<le> length p" unfolding q_def by (rule length_dropWhile_le)
  show ?thesis
  proof (cases "hd p = 0x2A")
    case True
    then have "length q < length p" using p length_dropWhile_le [of "\<lambda>c. c = 0x2A" "tl p"] by (cases p) (auto simp: q_def)
    then show ?thesis by (simp add: r)
  next
    case False
    then have "q = p" using p by (cases p) (auto simp: q_def)
    moreover have "0 < scan_len False p" using p False by (cases p) (auto split: list.splits)
    ultimately show ?thesis using p by (simp add: r)
  qed
qed

text \<open>The positions after at least one skipped byte; \<open>final\<close> tells that no pattern follows the chunk.\<close>

fun skip_match :: "bytes \<Rightarrow> bool \<Rightarrow> bytes \<Rightarrow> bytes option option" where
  "skip_match chunk final [] = Some None"
| "skip_match chunk final (b # name) =
     (if b = slash then Some None
      else case matchChunk chunk (Some name) of
             None \<Rightarrow> None
           | Some (Some t) \<Rightarrow> if final \<and> t \<noteq> [] then skip_match chunk final name else Some (Some t)
           | Some None \<Rightarrow> skip_match chunk final name)"

function rest_valid :: "bytes \<Rightarrow> bool" where
  "rest_valid p = (if p = [] then True else case scanChunk p of (_, chunk, rest) \<Rightarrow> matchChunk chunk (Some []) \<noteq> None \<and> rest_valid rest)"
  by pat_completeness auto
termination by (relation "measure length") (auto dest!: scanChunk_shorter [OF sym])

declare rest_valid.simps [simp del]

function Match :: "bytes \<Rightarrow> bytes \<Rightarrow> bool option" where
  "Match pattern name =
     (if pattern = [] then Some (name = [])
      else case scanChunk pattern of (star, chunk, rest) \<Rightarrow>
        if star \<and> chunk = [] then Some (slash \<notin> set name)
        else (case matchChunk chunk (Some name) of
                None \<Rightarrow> None
              | Some here \<Rightarrow>
                  (case (if here \<noteq> None \<and> (here = Some [] \<or> rest \<noteq> []) then Some here
                         else if star then skip_match chunk (rest = []) name else Some None) of
                     None \<Rightarrow> None
                   | Some (Some t) \<Rightarrow> Match rest t
                   | Some None \<Rightarrow> if rest_valid rest then Some False else None)))"
  by pat_completeness auto
termination by (relation "measure (\<lambda>(p, _). length p)") (auto dest!: scanChunk_shorter [OF sym])

declare Match.simps [simp del]

section \<open>The reference\<close>

datatype gel = GLit byte | GAny | GClass bool "(nat \<times> nat) list" | GStar

function parse_class :: "bool \<Rightarrow> bytes \<Rightarrow> ((nat \<times> nat) list \<times> bytes) option" where
  "parse_class nrange chunk =
     (if chunk \<noteq> [] \<and> hd chunk = 0x5D \<and> nrange then Some ([], tl chunk)
      else case getEsc chunk of
             None \<Rightarrow> None
           | Some (lo, chunk') \<Rightarrow>
               (case if hd chunk' = 0x2D then getEsc (tl chunk') else Some (lo, chunk') of
                  None \<Rightarrow> None
                | Some (hi, chunk'') \<Rightarrow> map_option (\<lambda>(rs, rest). ((lo, hi) # rs, rest)) (parse_class True chunk'')))"
  by pat_completeness auto
termination
  by (relation "measure (\<lambda>(_, c). length c)") (auto dest!: getEsc_shorter split: if_splits)

declare parse_class.simps [simp del]

lemma class_loop_parse:
  "class_loop r n m chunk = map_option (\<lambda>(rs, rest). (m \<or> (\<exists>(lo, hi) \<in> set rs. lo \<le> r \<and> r \<le> hi), rest)) (parse_class n chunk)"
proof (induction r n m chunk rule: class_loop.induct)
  case (1 r n m chunk)
  show ?case
  proof (cases "chunk \<noteq> [] \<and> hd chunk = 0x5D \<and> n")
    case True
    then show ?thesis unfolding class_loop.simps [of r n m chunk] parse_class.simps [of n chunk] by simp
  next
    case F: False
    show ?thesis
    proof (cases "getEsc chunk")
      case None
      then show ?thesis using F by (simp add: class_loop.simps [of r n m chunk] parse_class.simps [of n chunk])
    next
      case (Some p)
      obtain lo c' where p: "p = (lo, c')" by (cases p)
      show ?thesis
      proof (cases "if hd c' = 0x2D then getEsc (tl c') else Some (lo, c')")
        case None
        then show ?thesis using F Some p by (simp add: class_loop.simps [of r n m chunk] parse_class.simps [of n chunk])
      next
        case S: (Some q)
        obtain hi c'' where q: "q = (hi, c'')" by (cases q)
        have IH: "class_loop r True (m \<or> lo \<le> r \<and> r \<le> hi) c'' =
            map_option (\<lambda>(rs, rest). ((m \<or> lo \<le> r \<and> r \<le> hi) \<or> (\<exists>(lo, hi) \<in> set rs. lo \<le> r \<and> r \<le> hi), rest)) (parse_class True c'')"
          by (rule "1.IH" [OF F Some p [symmetric] S q [symmetric]])
        have "class_loop r n m chunk = class_loop r True (m \<or> lo \<le> r \<and> r \<le> hi) c''"
          unfolding class_loop.simps [of r n m chunk] if_not_P [OF F] Some p by (simp only: option.case prod.case S q)
        moreover have "parse_class n chunk = map_option (\<lambda>(rs, rest). ((lo, hi) # rs, rest)) (parse_class True c'')"
          unfolding parse_class.simps [of n chunk] if_not_P [OF F] Some p by (simp only: option.case prod.case S q)
        ultimately show ?thesis unfolding IH by (cases "parse_class True c''") auto
      qed
    qed
  qed
qed

lemma parse_class_shorter: "parse_class n chunk = Some (rs, rest) \<Longrightarrow> length rest < length chunk"
  using class_loop_parse [of 0 n False chunk] class_loop_shorter by fastforce

function parse_chunk :: "bytes \<Rightarrow> gel list option" where
  "parse_chunk [] = Some []"
| "parse_chunk (c # chunk) =
     (if c = 0x5B then
        let negated = (chunk \<noteq> [] \<and> hd chunk = 0x5E)
        in (case parse_class False (if negated then tl chunk else chunk) of
              None \<Rightarrow> None
            | Some (rs, chunk') \<Rightarrow> map_option ((#) (GClass negated rs)) (parse_chunk chunk'))
      else if c = 0x3F then map_option ((#) GAny) (parse_chunk chunk)
      else if c = 0x5C then (case chunk of [] \<Rightarrow> None | d # chunk' \<Rightarrow> map_option ((#) (GLit d)) (parse_chunk chunk'))
      else map_option ((#) (GLit c)) (parse_chunk chunk))"
  by pat_completeness auto
termination
  by (relation "measure length") (auto dest!: parse_class_shorter split: if_splits)

declare parse_chunk.simps(2) [simp del]

function glob :: "bytes \<Rightarrow> gel list option" where
  "glob p =
     (if p = [] then Some []
      else case scanChunk p of (star, chunk, rest) \<Rightarrow>
        (case (parse_chunk chunk, glob rest) of (Some c, Some g) \<Rightarrow> Some ((if star then [GStar] else []) @ c @ g) | _ \<Rightarrow> None))"
  by pat_completeness auto
termination by (relation "measure length") (auto dest!: scanChunk_shorter [OF sym])

declare glob.simps [simp del]

text \<open>One element other than a star consumes one byte or one rune.\<close>

fun gstep :: "gel \<Rightarrow> bytes \<Rightarrow> bytes option" where
  "gstep e [] = None"
| "gstep (GLit c) (b # s) = (if b = c then Some s else None)"
| "gstep GAny (b # s) = (if b = slash then None else Some (drop (snd (DecodeRuneInString (b # s))) (b # s)))"
| "gstep (GClass negated rs) (b # s) =
     (let (r, n) = DecodeRuneInString (b # s)
      in if (\<exists>(lo, hi) \<in> set rs. lo \<le> r \<and> r \<le> hi) = negated then None else Some (drop n (b # s)))"
| "gstep GStar (b # s) = None"

fun gmatches :: "gel list \<Rightarrow> bytes \<Rightarrow> bool" where
  "gmatches [] s \<longleftrightarrow> s = []"
| "gmatches (GStar # g) [] \<longleftrightarrow> gmatches g []"
| "gmatches (GStar # g) (b # s) \<longleftrightarrow> gmatches g (b # s) \<or> b \<noteq> slash \<and> gmatches (GStar # g) s"
| "gmatches (e # g) s \<longleftrightarrow> (case gstep e s of None \<Rightarrow> False | Some t \<Rightarrow> gmatches g t)"

end
