(* ===== verification/GoPath.thy ===== *)
theory GoPath
  imports GoGlob
begin

text \<open>
  The functions of \<^verbatim>\<open>strings\<close> and of the POSIX \<^verbatim>\<open>path/filepath\<close> that the permission rules use.  \<^verbatim>\<open>ToLower\<close> maps ASCII
  itself and takes the Unicode case tables as an argument.
\<close>

section \<open>Strings\<close>

text \<open>The encodings of the runes \<^verbatim>\<open>unicode.IsSpace\<close> accepts.\<close>

definition space_seqs :: "bytes list" where
  "space_seqs = [ [0x09], [0x0A], [0x0B], [0x0C], [0x0D], [0x20], [0xC2, 0x85], [0xC2, 0xA0], [0xE1, 0x9A, 0x80]]
     @ map (\<lambda>b. [0xE2, 0x80, b]) [0x80, 0x81, 0x82, 0x83, 0x84, 0x85, 0x86, 0x87, 0x88, 0x89, 0x8A, 0xA8, 0xA9, 0xAF]
     @ [ [0xE2, 0x81, 0x9F], [0xE3, 0x80, 0x80]]"

definition starts_with_any :: "bytes list \<Rightarrow> bytes \<Rightarrow> bytes option" where
  "starts_with_any seqs s = find (\<lambda>q. prefix q s) seqs"

function trim_left :: "bytes list \<Rightarrow> bytes \<Rightarrow> bytes" where
  "trim_left seqs s = (case starts_with_any seqs s of None \<Rightarrow> s | Some q \<Rightarrow> if q = [] then s else trim_left seqs (drop (length q) s))"
  by pat_completeness auto
termination
proof (relation "measure (\<lambda>(_, s). length s)")
  fix seqs s q
  assume "starts_with_any seqs s = Some q" "q \<noteq> []"
  then have "prefix q s" "q \<noteq> []" by (auto simp: starts_with_any_def find_Some_iff)
  then show "((seqs, drop (length q) s), seqs, s) \<in> measure (\<lambda>(_, s). length s)" by (cases q; cases s) (auto dest: prefix_length_le)
qed simp

declare trim_left.simps [simp del]

definition TrimSpace :: "bytes \<Rightarrow> bytes" where
  "TrimSpace s = rev (trim_left (map rev space_seqs) (rev (trim_left space_seqs s)))"

definition HasSuffix :: "bytes \<Rightarrow> bytes \<Rightarrow> bool" where
  "HasSuffix s p \<longleftrightarrow> suffix p s"

definition TrimSuffix :: "bytes \<Rightarrow> bytes \<Rightarrow> bytes" where
  "TrimSuffix s p = (if suffix p s then take (length s - length p) s else s)"

definition TrimRightByte :: "bytes \<Rightarrow> byte \<Rightarrow> bytes" where
  "TrimRightByte s c = rev (dropWhile (\<lambda>b. b = c) (rev s))"

fun IndexByte :: "bytes \<Rightarrow> byte \<Rightarrow> nat option" where
  "IndexByte [] c = None"
| "IndexByte (b # s) c = (if b = c then Some 0 else map_option Suc (IndexByte s c))"

definition ContainsAny :: "bytes \<Rightarrow> bytes \<Rightarrow> bool" where
  "ContainsAny s cs \<longleftrightarrow> list_ex (\<lambda>b. b \<in> set cs) s"

definition ReplaceByte :: "byte \<Rightarrow> byte \<Rightarrow> bytes \<Rightarrow> bytes" where
  "ReplaceByte a b s = map (\<lambda>c. if c = a then b else c) s"

fun SplitByte :: "byte \<Rightarrow> bytes \<Rightarrow> bytes list" where
  "SplitByte c [] = [ []]"
| "SplitByte c (b # s) = (if b = c then [] # SplitByte c s else (case SplitByte c s of [] \<Rightarrow> [ [b]] | w # ws \<Rightarrow> (b # w) # ws))"

text \<open>One byte to lower or upper case; a byte that is not ASCII is no valid string and becomes U+FFFD.\<close>

definition lower_byte :: "byte \<Rightarrow> byte" where
  "lower_byte b = (if 0x41 \<le> b \<and> b \<le> 0x5A then b + 0x20 else b)"

definition ToLower1 :: "byte \<Rightarrow> bytes" where
  "ToLower1 b = (if b < 0x80 then [lower_byte b] else [0xEF, 0xBF, 0xBD])"

definition ToUpper1 :: "byte \<Rightarrow> bytes" where
  "ToUpper1 b = (if b < 0x80 then [if 0x61 \<le> b \<and> b \<le> 0x7A then b - 0x20 else b] else [0xEF, 0xBF, 0xBD])"

definition ToLower :: "(bytes \<Rightarrow> bytes) \<Rightarrow> bytes \<Rightarrow> bytes" where
  "ToLower tables s = (if list_all (\<lambda>b. b < 0x80) s then map lower_byte s else tables s)"

section \<open>File paths\<close>

abbreviation (input) dot :: bytes where "dot \<equiv> [0x2E]"
abbreviation (input) dotdot :: bytes where "dotdot \<equiv> [0x2E, 0x2E]"

definition clean_step :: "bool \<Rightarrow> bytes list \<Rightarrow> bytes \<Rightarrow> bytes list" where
  "clean_step rooted out seg =
     (if seg = [] \<or> seg = dot then out
      else if seg = dotdot then (if out \<noteq> [] \<and> last out \<noteq> dotdot then butlast out else if rooted then out else out @ [dotdot])
      else out @ [seg])"

definition Clean :: "bytes \<Rightarrow> bytes" where
  "Clean p =
     (if p = [] then dot
      else let rooted = (hd p = slash); out = foldl (clean_step rooted) [] (SplitByte slash p)
           in if rooted then slash # Join out [slash] else if out = [] then dot else Join out [slash])"

definition JoinPath :: "bytes list \<Rightarrow> bytes" where
  "JoinPath elems = (let es = dropWhile (\<lambda>e. e = []) elems in if es = [] then [] else Clean (Join es [slash]))"

definition IsAbs :: "bytes \<Rightarrow> bool" where
  "IsAbs p \<longleftrightarrow> HasPrefix p [slash]"

definition Dir :: "bytes \<Rightarrow> bytes" where
  "Dir p = Clean (rev (dropWhile (\<lambda>b. b \<noteq> slash) (rev p)))"

definition Base :: "bytes \<Rightarrow> bytes" where
  "Base p = (if p = [] then dot
     else let b = rev (takeWhile (\<lambda>c. c \<noteq> slash) (rev (TrimRightByte p slash))) in if b = [] then [slash] else b)"

section \<open>Facts\<close>

lemma SplitByte_nonempty [simp]: "SplitByte c s \<noteq> []"
  by (induction s) (auto split: list.splits)

lemma SplitByte_no_sep: "w \<in> set (SplitByte c s) \<Longrightarrow> c \<notin> set w"
  by (induction s arbitrary: w) (fastforce split: list.splits if_splits)+

lemma SplitByte_append: "c \<notin> set w \<Longrightarrow> SplitByte c (w @ c # s) = w # SplitByte c s"
  by (induction w) auto

lemma SplitByte_single: "c \<notin> set w \<Longrightarrow> SplitByte c w = [w]"
  by (induction w) auto

lemma Split_Join: "ws \<noteq> [] \<Longrightarrow> (\<forall>w \<in> set ws. c \<notin> set w) \<Longrightarrow> SplitByte c (Join ws [c]) = ws"
proof (induction ws rule: induct_list012)
  case (3 w v ws)
  then show ?case using SplitByte_append [of c w "Join (v # ws) [c]"] by simp
qed (simp_all add: SplitByte_single)

lemma trim_left_suffix: "suffix (trim_left seqs s) s"
proof (induction seqs s rule: trim_left.induct)
  case (1 seqs s)
  show ?case
  proof (cases "starts_with_any seqs s")
    case (Some q)
    then show ?thesis using 1 suffix_drop [of "length q" s] suffix_order.trans by (cases "q = []") (auto simp: trim_left.simps [of seqs s])
  qed (simp add: trim_left.simps [of seqs s])
qed

end
