(* ===== verification/HostRules.thy ===== *)
theory HostRules
  imports GoPath
begin

text \<open>
  The host's file-read permission rules (\<^verbatim>\<open>internal/hostperm/rules.go\<close>, \<^verbatim>\<open>patterns.go\<close>): parsing one entry of a
  \<^verbatim>\<open>deny\<close> or \<^verbatim>\<open>ask\<close> list into patterns, and matching patterns against the segments of a path.  The scratch
  buffers of the code carry no information between calls, so a row is a value; the 8.3 spelling they
  hold (\<^verbatim>\<open>alt\<close>) is an argument.
\<close>

section \<open>Rules\<close>

definition readTool :: bytes where "readTool = lit ''Read''"

definition readParams :: "bytes list" where
  "readParams = [lit ''file_path'', lit ''offset'', lit ''limit'', lit ''pages'']"

definition re_space :: "byte \<Rightarrow> bool" where
  "re_space b \<longleftrightarrow> b \<in> {0x09, 0x0A, 0x0C, 0x0D, 0x20}"

definition ident_start :: "byte \<Rightarrow> bool" where
  "ident_start b \<longleftrightarrow> 0x41 \<le> b \<and> b \<le> 0x5A \<or> 0x61 \<le> b \<and> b \<le> 0x7A \<or> b = 0x5F"

definition digit :: "byte \<Rightarrow> bool" where
  "digit b \<longleftrightarrow> 0x30 \<le> b \<and> b \<le> 0x39"

text \<open>The name captured by the expression of a parameter rule.\<close>

definition paramRule :: "bytes \<Rightarrow> bytes option" where
  "paramRule spec =
     (let s = dropWhile re_space spec;
          name = takeWhile (\<lambda>b. ident_start b \<or> digit b) s;
          rest = dropWhile re_space (drop (length name) s)
      in if name \<noteq> [] \<and> ident_start (hd name) \<and> rest \<noteq> [] \<and> hd rest = 0x3A then Some name else None)"

definition drivePath :: "bytes \<Rightarrow> bool" where
  "drivePath s \<longleftrightarrow> 3 \<le> length s \<and> (0x41 \<le> s ! 0 \<and> s ! 0 \<le> 0x5A \<or> 0x61 \<le> s ! 0 \<and> s ! 0 \<le> 0x7A) \<and> s ! 1 = 0x3A \<and> (s ! 2 = 0x5C \<or> s ! 2 = slash)"

datatype anchorKind = anchorCwd | anchorFS | anchorHome | anchorSettings

record pattern =
  pt_raw :: bytes
  pt_neg :: bool
  pt_inert :: bool
  pt_carvable :: bool
  pt_kind :: anchorKind
  pt_up :: nat
  pt_segs :: "bytes list"
  pt_literal :: bool
  pt_anchors :: "bytes list list"

definition zero_pattern :: pattern where
  "zero_pattern = \<lparr>pt_raw = [], pt_neg = False, pt_inert = False, pt_carvable = False, pt_kind = anchorCwd, pt_up = 0, pt_segs = [], pt_literal = False, pt_anchors = []\<rparr>"

record parsedRule =
  pr_relevant :: bool
  pr_toolLevel :: bool
  pr_patterns :: "pattern list"

definition irrelevant :: parsedRule where
  "irrelevant = \<lparr>pr_relevant = False, pr_toolLevel = False, pr_patterns = []\<rparr>"

definition star2 :: bytes where "star2 = [0x2A, 0x2A]"

definition toolMatchesRead :: "bytes \<Rightarrow> bool" where
  "toolMatchesRead tool \<longleftrightarrow>
     (if tool = readTool then True
      else if \<not> ContainsAny tool (lit ''*?['') then False
      else Match tool readTool = Some True)"

definition singleDirectorySegment :: "bytes list \<Rightarrow> bool" where
  "singleDirectorySegment segs \<longleftrightarrow>
     (if length segs < 2 \<or> segs ! 0 = star2 \<or> segs ! 0 = [0x2A] then False
      else list_all (\<lambda>s. s = [0x2A] \<or> s = star2) (tl segs))"

definition cleanLiteral :: "bytes list \<Rightarrow> bytes list" where
  "cleanLiteral segs = foldl (\<lambda>out s. if s = dotdot then (if out \<noteq> [] then butlast out else out) else out @ [s]) [] segs"

definition finishPattern :: "(bytes \<Rightarrow> bytes) \<Rightarrow> pattern \<Rightarrow> anchorKind \<Rightarrow> bytes \<Rightarrow> bool \<Rightarrow> bool \<Rightarrow> pattern" where
  "finishPattern tables p kind rest anchored folds =
     (let p = p\<lparr>pt_kind := kind\<rparr>;
          rest = (if folds then ToLower tables rest else rest);
          rest = TrimSuffix (TrimRightByte rest 0x20) [slash];
          segs = filter (\<lambda>s. s \<noteq> [] \<and> s \<noteq> dot) (SplitByte slash rest);
          up = length (takeWhile (\<lambda>s. s = dotdot) segs);
          segs = dropWhile (\<lambda>s. s = dotdot) segs;
          p = p\<lparr>pt_up := up\<rparr>;
          p = (if up > 0 then p\<lparr>pt_carvable := False\<rparr> else p);
          anchored = (up > 0 \<or> anchored);
          literal = list_ex (\<lambda>s. s = dotdot \<or> Match s [] = None) segs
      in if literal then p\<lparr>pt_literal := True, pt_segs := cleanLiteral segs\<rparr>
         else if \<not> anchored \<and> (length segs = 1 \<or> singleDirectorySegment segs) then p\<lparr>pt_segs := star2 # segs\<rparr>
         else p\<lparr>pt_segs := segs\<rparr>)"

definition compileOne :: "(bytes \<Rightarrow> bytes) \<Rightarrow> bytes \<Rightarrow> bytes \<Rightarrow> bool \<Rightarrow> pattern" where
  "compileOne tables raw spec folds =
     (let p = zero_pattern\<lparr>pt_raw := raw\<rparr> in
      if HasPrefix spec (lit ''!'') then
        let p = p\<lparr>pt_neg := True, pt_carvable := True\<rparr>; rest = drop 1 spec in
        if HasPrefix rest (lit ''//'') \<or> HasPrefix rest (lit ''~/'') \<or> rest = lit ''~'' then p\<lparr>pt_inert := True\<rparr>
        else if HasPrefix rest (lit ''/'') then finishPattern tables p anchorCwd (drop 1 rest) True folds
        else finishPattern tables p anchorCwd (TrimPrefix rest (lit ''./'')) False folds
      else if HasPrefix spec (lit ''//'') then finishPattern tables p anchorFS (drop 2 spec) True folds
      else if spec = lit ''~'' then finishPattern tables p anchorHome [] True folds
      else if HasPrefix spec (lit ''~/'') then finishPattern tables p anchorHome (drop 2 spec) True folds
      else if HasPrefix spec (lit ''/'') then finishPattern tables p anchorSettings (drop 1 spec) True folds
      else finishPattern tables (p\<lparr>pt_carvable := True\<rparr>) anchorCwd (TrimPrefix spec (lit ''./'')) False folds)"

definition compileAlias :: "(bytes \<Rightarrow> bytes) \<Rightarrow> bytes \<Rightarrow> bytes \<Rightarrow> bool \<Rightarrow> pattern" where
  "compileAlias tables raw spec folds = (compileOne tables raw spec folds)\<lparr>pt_carvable := False\<rparr>"

definition windows :: bytes where "windows = lit ''windows''"

definition compilePath :: "(bytes \<Rightarrow> bytes) \<Rightarrow> bytes \<Rightarrow> bytes \<Rightarrow> bytes \<Rightarrow> bool \<Rightarrow> pattern list" where
  "compilePath tables raw spec goos folds =
     (let out = [compileOne tables raw spec folds] in
      if goos \<noteq> windows \<or> HasPrefix spec (lit ''!'') then out
      else if drivePath spec then
        out @ [compileAlias tables raw (lit ''//'' @ ToLower1 (spec ! 0) @ lit ''/'' @ ReplaceByte 0x5C slash (drop 3 spec)) folds]
      else if 0x5C \<in> set spec then out @ [compileAlias tables raw (ReplaceByte 0x5C slash spec) folds]
      else out)"

text \<open>\<open>None\<close> is \<^verbatim>\<open>errMalformedRule\<close>.\<close>

definition parseRule :: "(bytes \<Rightarrow> bytes) \<Rightarrow> bytes \<Rightarrow> bytes \<Rightarrow> bool \<Rightarrow> parsedRule option" where
  "parseRule tables entry goos folds =
     (let s = TrimSpace entry in
      if s = [] then Some irrelevant
      else let govern = (\<lambda>tool spec hasSpec.
             if \<not> toolMatchesRead tool then Some irrelevant
             else if \<not> hasSpec \<or> spec = [] then Some \<lparr>pr_relevant = True, pr_toolLevel = True, pr_patterns = []\<rparr>
             else if (case paramRule spec of None \<Rightarrow> False | Some m \<Rightarrow> m \<in> set readParams) then Some irrelevant
             else Some \<lparr>pr_relevant = True, pr_toolLevel = False, pr_patterns = compilePath tables entry spec goos folds\<rparr>)
      in case IndexByte s 0x28 of
           None \<Rightarrow> govern s [] False
         | Some i \<Rightarrow>
             let tool = TrimSpace (take i s) in
             if \<not> HasSuffix s (lit '')'') then (if toolMatchesRead tool then None else Some irrelevant)
             else govern tool (TrimSpace (gslice s (i + 1) (length s - 1))) True)"

definition ruleSpecifier :: "bytes \<Rightarrow> bytes" where
  "ruleSpecifier raw =
     (let s = TrimSpace raw in
      case IndexByte s 0x28 of
        None \<Rightarrow> s
      | Some i \<Rightarrow> if \<not> HasSuffix s (lit '')'') then s else TrimSpace (gslice s (i + 1) (length s - 1)))"

section \<open>The 8.3 shape\<close>

text \<open>Whether a tilde follows inside a bracket expression, stepping over escapes.\<close>

fun class_tilde :: "bytes \<Rightarrow> bool" where
  "class_tilde [] = False"
| "class_tilde (c # s) =
     (if c = 0x7E then True
      else if c = 0x5C then (case s of [] \<Rightarrow> False | d # t \<Rightarrow> if d = 0x7E then True else if d = 0x0A then False else class_tilde t)
      else if c = 0x5D then False
      else class_tilde s)"

fun shortShaped :: "bytes \<Rightarrow> bool" where
  "shortShaped [] = False"
| "shortShaped (c # s) =
     (c = 0x7E \<and> s \<noteq> [] \<and> (digit (hd s) \<or> hd s \<in> {0x2A, 0x3F, 0x5B, 0x5C}) \<or> c = 0x5B \<and> class_tilde s \<or> shortShaped s)"

section \<open>Matching\<close>

text \<open>A glob segment against a path segment and, when it has an 8.3 shape, the 8.3 name of that segment.\<close>

definition seg_match :: "bytes \<Rightarrow> bytes \<Rightarrow> bytes option \<Rightarrow> bool" where
  "seg_match ps seg alt \<longleftrightarrow>
     (if Match ps seg = Some True then True
      else case alt of None \<Rightarrow> False | Some a \<Rightarrow> shortShaped ps \<and> Match ps a = Some True)"

definition alt_at :: "bytes list option \<Rightarrow> nat \<Rightarrow> bytes option" where
  "alt_at alt j = (case alt of None \<Rightarrow> None | Some a \<Rightarrow> Some (a ! j))"

definition row_cell :: "bytes \<Rightarrow> bool \<Rightarrow> bytes list \<Rightarrow> bytes list option \<Rightarrow> bool list \<Rightarrow> bool list \<Rightarrow> nat \<Rightarrow> bool" where
  "row_cell ps final segs alt prev cur j =
     (if ps = star2 \<and> final then j > 0 \<and> (prev ! (j - 1) \<or> cur ! (j - 1))
      else if ps = star2 then prev ! j \<or> j > 0 \<and> cur ! (j - 1)
      else if j > 0 \<and> prev ! (j - 1) then seg_match ps (segs ! (j - 1)) (alt_at alt (j - 1))
      else False)"

definition next_row :: "bytes \<Rightarrow> bool \<Rightarrow> bytes list \<Rightarrow> bytes list option \<Rightarrow> bool list \<Rightarrow> bool list" where
  "next_row ps final segs alt prev = foldl (\<lambda>cur j. cur @ [row_cell ps final segs alt prev cur j]) [] [0..<length segs + 1]"

fun prefix_rows :: "bytes list \<Rightarrow> bytes list option \<Rightarrow> bytes list \<Rightarrow> bool list \<Rightarrow> bool list" where
  "prefix_rows segs alt [] prev = prev"
| "prefix_rows segs alt (ps # pat) prev = prefix_rows segs alt pat (next_row ps (pat = []) segs alt prev)"

definition prefixRow :: "bytes list \<Rightarrow> bytes list \<Rightarrow> bytes list option \<Rightarrow> bool list" where
  "prefixRow pat segs alt = prefix_rows segs alt pat (True # replicate (length segs) False)"

fun literalEqual :: "bytes list \<Rightarrow> bytes list \<Rightarrow> bytes list option \<Rightarrow> bool" where
  "literalEqual [] segs alt = True"
| "literalEqual (ps # pat) segs alt =
     (if ps \<noteq> hd segs \<and> (case alt of None \<Rightarrow> True | Some a \<Rightarrow> \<not> shortShaped ps \<or> ps \<noteq> hd a) then False
      else literalEqual pat (tl segs) (map_option tl alt))"

definition pattern_row :: "pattern \<Rightarrow> bytes list \<Rightarrow> bytes list option \<Rightarrow> bool list" where
  "pattern_row p rel alt =
     (let cleared = replicate (length rel + 1) False in
      if pt_inert p then cleared
      else if pt_literal p then
        let k = length (pt_segs p) in if k \<le> length rel \<and> literalEqual (pt_segs p) (take k rel) alt then cleared[k := True] else cleared
      else if pt_segs p = [] then replicate (length rel + 1) True
      else prefixRow (pt_segs p) rel alt)"

definition matchSelfOrAncestor :: "pattern \<Rightarrow> bytes list \<Rightarrow> bytes list option \<Rightarrow> bool" where
  "matchSelfOrAncestor p rel alt \<longleftrightarrow>
     (if pt_segs p = [] \<and> \<not> pt_literal p then True else True \<in> set (tl (pattern_row p rel alt)))"

end
