(* ===== verification/HostPolicy.thy ===== *)
theory HostPolicy
  imports HostRules GoMap
begin

text \<open>
  The permission policy over the rules (\<^verbatim>\<open>internal/hostperm/policy.go\<close>, \<^verbatim>\<open>resolve.go\<close>): the spellings of a path, rule
  lists with carve-outs, rule sets and their evaluation.  What the operating system answers is a
  \<open>platform\<close>, the state of the file system as one call sees it; \<^verbatim>\<open>linkMemo\<close> caches answers within one
  build, during which that state is fixed, so it does not appear.
\<close>

section \<open>Paths and links\<close>

definition posixSegments :: "(bytes \<Rightarrow> bytes) \<Rightarrow> bytes \<Rightarrow> bytes \<Rightarrow> bool \<Rightarrow> bytes list" where
  "posixSegments tables p goos folds =
     (let s = (if goos = windows then
                 let s = TrimPrefix (TrimPrefix p (lit [CHR 0x5C, CHR 0x5C, CHR ''?'', CHR 0x5C] @ lit ''UNC'' @ [0x5C])) (lit [CHR 0x5C, CHR 0x5C, CHR ''?'', CHR 0x5C]);
                     s = ReplaceByte 0x5C slash s
                 in if length s \<ge> 2 \<and> s ! 1 = 0x3A then slash # ToLower1 (s ! 0) @ drop 2 s else s
               else p);
          s = (if folds then ToLower tables s else s)
      in foldl (\<lambda>out seg. if seg = [] \<or> seg = dot then out
                          else if seg = dotdot then (if out \<noteq> [] then butlast out else out)
                          else out @ [seg]) [] (SplitByte slash s))"

definition under :: "bytes list \<Rightarrow> bytes list \<Rightarrow> bytes list option" where
  "under p anchor = (if length p < length anchor then None
     else if take (length anchor) p \<noteq> anchor then None
     else Some (drop (length anchor) p))"

definition ancestorsUp :: "bytes list \<Rightarrow> nat \<Rightarrow> bytes list" where
  "ancestorsUp anchor n = (if n \<ge> length anchor then [] else take (length anchor - n) anchor)"

abbreviation (input) maxLinkHops :: nat where "maxLinkHops \<equiv> 64"

datatype link_answer = LinkTarget bytes | LinkMissing | LinkError

text \<open>The loop of \<^verbatim>\<open>resolveLinks\<close> over the parts that are left, on a POSIX platform.\<close>

function resolve_loop :: "(bytes \<Rightarrow> link_answer) \<Rightarrow> nat \<Rightarrow> bytes \<Rightarrow> bytes list \<Rightarrow> bytes option" where
  "resolve_loop readlink hops cur [] = Some cur"
| "resolve_loop readlink hops cur (part # parts) =
     (if part = [] \<or> part = dot then resolve_loop readlink hops cur parts
      else let cur = JoinPath [cur, part] in
        (case readlink cur of
           LinkMissing \<Rightarrow> Some (JoinPath (cur # parts))
         | LinkError \<Rightarrow> resolve_loop readlink hops cur parts
         | LinkTarget target \<Rightarrow>
             if Suc hops > maxLinkHops then None
             else let target = TrimPrefix (TrimPrefix target (lit [CHR 0x5C, CHR ''?'', CHR ''?'', CHR 0x5C])) (lit [CHR 0x5C, CHR 0x5C, CHR ''?'', CHR 0x5C]);
                      target = (if \<not> IsAbs target then JoinPath [Dir cur, target] else target);
                      target = Clean target
                  in resolve_loop readlink (Suc hops) [slash] (SplitByte slash target @ parts)))"
  by pat_completeness auto
termination by (relation "measures [\<lambda>(_, hops, _, _). maxLinkHops - hops, \<lambda>(_, _, _, parts). length parts]") auto

definition resolveLinks :: "(bytes \<Rightarrow> link_answer) \<Rightarrow> bytes \<Rightarrow> bytes option" where
  "resolveLinks readlink p = resolve_loop readlink 0 [slash] (SplitByte slash (Clean p))"

section \<open>Spellings\<close>

record platform =
  pf_GOOS :: bytes
  pf_osAlias :: "bytes \<Rightarrow> bytes \<times> bool"
  pf_osShortName :: "bytes \<Rightarrow> bytes \<times> bool"
  pf_resolveLinks :: "bytes \<Rightarrow> bytes option"
  pf_tables :: "bytes \<Rightarrow> bytes"
  pf_foldEq :: "bytes \<Rightarrow> bytes \<Rightarrow> bool"

text \<open>\<^verbatim>\<open>strings.EqualFold\<close>: ASCII directly, other text by the Unicode tables of the platform.\<close>

definition EqualFold :: "platform \<Rightarrow> bytes \<Rightarrow> bytes \<Rightarrow> bool" where
  "EqualFold pf a b \<longleftrightarrow> (if list_all (\<lambda>c. c < 0x80) (a @ b) then map lower_byte a = map lower_byte b else pf_foldEq pf a b)"

text \<open>The platform of a POSIX build.\<close>

definition osAlias :: "bytes \<Rightarrow> bytes \<times> bool" where "osAlias p = ([], False)"
definition osShortName :: "bytes \<Rightarrow> bytes \<times> bool" where "osShortName p = (p, True)"

definition posix_platform :: "bytes \<Rightarrow> (bytes \<Rightarrow> bytes) \<Rightarrow> (bytes \<Rightarrow> bytes \<Rightarrow> bool) \<Rightarrow> (bytes \<Rightarrow> link_answer) \<Rightarrow> platform" where
  "posix_platform goos tables foldEq readlink =
     \<lparr>pf_GOOS = goos, pf_osAlias = osAlias, pf_osShortName = osShortName, pf_resolveLinks = resolveLinks readlink, pf_tables = tables, pf_foldEq = foldEq\<rparr>"

definition appendDistinct :: "bytes list list \<Rightarrow> bytes list \<Rightarrow> bytes list list \<times> bool" where
  "appendDistinct all segs = (if list_ex (\<lambda>s. s = segs) all then (all, False) else (all @ [segs], True))"

definition add_spelling :: "platform \<Rightarrow> bytes \<Rightarrow> bool \<Rightarrow> bytes \<Rightarrow> bytes list list \<times> bytes list \<Rightarrow> bytes list list \<times> bytes list" where
  "add_spelling pf goos folds a st =
     (case appendDistinct (fst st) (posixSegments (pf_tables pf) a goos folds) of
        (out, added) \<Rightarrow> (out, if added then snd st @ [a] else snd st))"

definition spellings :: "platform \<Rightarrow> bytes \<Rightarrow> bytes \<Rightarrow> bool \<Rightarrow> bool \<Rightarrow> bytes list list \<times> bytes list \<times> bool" where
  "spellings pf p goos folds onDisk =
     (let st = ([posixSegments (pf_tables pf) p goos folds], [p]) in
      if \<not> onDisk then (fst st, snd st, False)
      else let (a, unresolved) = pf_osAlias pf p;
               st = (if a \<noteq> [] then add_spelling pf goos folds a st else st);
               st = foldl (\<lambda>st n. case pf_resolveLinks pf n of None \<Rightarrow> st | Some r \<Rightarrow> add_spelling pf goos folds r st) st (snd st)
           in (fst st, snd st, unresolved))"

definition short_spelling :: "platform \<Rightarrow> bytes \<Rightarrow> bool \<Rightarrow> bytes list \<Rightarrow> bytes \<Rightarrow> bytes list option" where
  "short_spelling pf goos folds c native =
     (case pf_osShortName pf native of (s, complete) \<Rightarrow>
        if \<not> complete then None
        else let segs = posixSegments (pf_tables pf) s goos folds in if length segs = length c then Some segs else None)"

text \<open>\<open>None\<close> is the nil answer: no spelling has a known 8.3 form.\<close>

definition shortSpellings :: "platform \<Rightarrow> bytes list list \<Rightarrow> bytes list \<Rightarrow> bytes \<Rightarrow> bool \<Rightarrow> bytes list option list option" where
  "shortSpellings pf cands natives goos folds =
     (let alts = map2 (short_spelling pf goos folds) cands natives
      in if list_all (\<lambda>a. a = None) alts then None else Some alts)"

section \<open>Rule lists\<close>

datatype Effect = Allow | Ask | Deny

record ruleList =
  rl_effect :: Effect
  rl_source :: bytes
  rl_toolRule :: bytes
  rl_patterns :: "pattern list"
  rl_settingsDirs :: "bytes list"
  rl_cwdAnchors :: "bytes list list"

definition set_hits :: "pattern \<Rightarrow> bool list \<Rightarrow> (bytes \<times> bool) list \<Rightarrow> (bytes \<times> bool) list" where
  "set_hits p row answers = map2 (\<lambda>hit a. if hit then (pt_raw p, \<not> pt_neg p) else a) row answers"

definition carve_answers :: "pattern list \<Rightarrow> bytes list \<Rightarrow> bytes list option \<Rightarrow> (bytes \<times> bool) list" where
  "carve_answers ps rel alt =
     foldl (\<lambda>answers p. if \<not> pt_carvable p then answers
                        else set_hits p (pattern_row p rel (if pt_neg p then None else alt)) answers)
       (replicate (length rel + 1) ([], False)) ps"

text \<open>\<open>None\<close> is a miss, otherwise the deciding rule.\<close>

definition carvedMatch :: "ruleList \<Rightarrow> bytes list \<Rightarrow> bytes list option \<Rightarrow> bytes option" where
  "carvedMatch l rel alt =
     (let answers = carve_answers (rl_patterns l) rel alt; n = length rel in
      case find (\<lambda>k. snd (answers ! k)) [1..<n] of
        Some k \<Rightarrow> Some (fst (answers ! k))
      | None \<Rightarrow> if snd (answers ! n) then Some (fst (answers ! n)) else None)"

definition alt_tail :: "bytes list option \<Rightarrow> nat \<Rightarrow> bytes list option" where
  "alt_tail alt n = map_option (drop n) alt"

text \<open>The first of the results of \<open>f\<close> that is not \<open>None\<close>: a loop that returns at its first hit.\<close>

fun first_hit :: "('a \<Rightarrow> 'b option) \<Rightarrow> 'a list \<Rightarrow> 'b option" where
  "first_hit f [] = None"
| "first_hit f (x # xs) = (case f x of Some y \<Rightarrow> Some y | None \<Rightarrow> first_hit f xs)"

definition anchored_hit :: "bytes list \<Rightarrow> bytes list option \<Rightarrow> pattern \<Rightarrow> bytes option" where
  "anchored_hit c alt p =
     (if pt_neg p \<or> pt_carvable p then None
      else first_hit (\<lambda>a. case under c a of
             None \<Rightarrow> None
           | Some rel \<Rightarrow> if matchSelfOrAncestor p rel (alt_tail alt (length a)) then Some (pt_raw p) else None) (pt_anchors p))"

definition list_hit :: "ruleList \<Rightarrow> bytes list \<times> bytes list option \<Rightarrow> bytes option" where
  "list_hit l = (\<lambda>(c, alt).
     case first_hit (anchored_hit c alt) (rl_patterns l) of
       Some rule \<Rightarrow> Some rule
     | None \<Rightarrow> first_hit (\<lambda>a. case under c a of None \<Rightarrow> None | Some rel \<Rightarrow> carvedMatch l rel (alt_tail alt (length a))) (rl_cwdAnchors l))"

definition ruleList_match :: "ruleList \<Rightarrow> bytes list list \<Rightarrow> bytes list option list option \<Rightarrow> bytes option" where
  "ruleList_match l cands alts =
     (if rl_toolRule l \<noteq> [] then Some (rl_toolRule l)
      else first_hit (list_hit l) (zip cands (case alts of None \<Rightarrow> replicate (length cands) None | Some as \<Rightarrow> as)))"

section \<open>Rule sets\<close>

record RuleSet =
  rs_goos :: bytes
  rs_fold :: bool
  rs_resolve :: bool
  rs_deny :: "ruleList list"
  rs_ask :: "ruleList list"
  rs_shortPending :: bool

record Decision =
  d_Effect :: Effect
  d_Rule :: bytes
  d_Source :: bytes

definition unresolvedShortName :: bytes where
  "unresolvedShortName = lit ''(an 8.3 name that names nothing on disk, so its long name is unknown)''"

definition unknownShortName :: bytes where
  "unknownShortName = lit ''(a rule names an 8.3 name, and a path that does not exist has none to compare)''"

definition RuleSet_Empty :: "RuleSet \<Rightarrow> bool" where
  "RuleSet_Empty rs \<longleftrightarrow> length (rs_deny rs) = 0 \<and> length (rs_ask rs) = 0"

definition allowed :: Decision where
  "allowed = \<lparr>d_Effect = Allow, d_Rule = [], d_Source = []\<rparr>"

definition first_list :: "Effect \<Rightarrow> bytes list list \<Rightarrow> bytes list option list option \<Rightarrow> ruleList list \<Rightarrow> Decision option" where
  "first_list e cands alts =
     first_hit (\<lambda>l. map_option (\<lambda>rule. \<lparr>d_Effect = e, d_Rule = rule, d_Source = rl_source l\<rparr>) (ruleList_match l cands alts))"

definition Evaluate :: "platform \<Rightarrow> RuleSet \<Rightarrow> bytes \<Rightarrow> Decision" where
  "Evaluate pf rs apath =
     (if RuleSet_Empty rs \<or> apath = [] then allowed
      else case spellings pf apath (rs_goos rs) (rs_fold rs) (rs_resolve rs) of (cands, natives, unresolved) \<Rightarrow>
        if unresolved then \<lparr>d_Effect = Deny, d_Rule = unresolvedShortName, d_Source = []\<rparr>
        else let alts = (if rs_shortPending rs then shortSpellings pf cands natives (rs_goos rs) (rs_fold rs) else None) in
          if rs_shortPending rs \<and> alts = None then \<lparr>d_Effect = Deny, d_Rule = unknownShortName, d_Source = []\<rparr>
          else (case first_list Deny cands alts (rs_deny rs) of
                  Some d \<Rightarrow> d
                | None \<Rightarrow> (case first_list Ask cands alts (rs_ask rs) of Some d \<Rightarrow> d | None \<Rightarrow> allowed)))"

definition ReadRulePatterns :: "RuleSet \<Rightarrow> bytes list" where
  "ReadRulePatterns rs =
     (if RuleSet_Empty rs then []
      else foldl (\<lambda>out spec. if spec \<in> set out then out else out @ [spec]) []
        (concat (map (\<lambda>l. (if rl_toolRule l \<noteq> [] then [ []] else []) @ map (\<lambda>p. ruleSpecifier (pt_raw p)) (filter (\<lambda>p. \<not> pt_neg p) (rl_patterns l)))
           (rs_deny rs @ rs_ask rs))))"

section \<open>Building a rule set\<close>

definition concretePrefix :: "pattern \<Rightarrow> nat" where
  "concretePrefix pt = length (takeWhile (\<lambda>s. \<not> ContainsAny s (lit ''*?['' @ [0x5C])) (pt_segs pt))"

definition spelledAsAlias :: "bytes list \<Rightarrow> bool" where
  "spelledAsAlias segs \<longleftrightarrow> list_ex (\<lambda>s. ContainsAny s (lit ''~:'') \<or> HasSuffix s (lit ''.'') \<or> HasSuffix s (lit '' '')) segs"

definition nativePath :: "bytes list \<Rightarrow> bytes \<Rightarrow> bytes" where
  "nativePath segs goos =
     (if goos = windows \<and> segs \<noteq> [] \<and> length (hd segs) = 1 then ToUpper1 (hd (hd segs)) @ [0x3A, 0x5C] @ Join (tl segs) [0x5C]
      else slash # Join segs [slash])"

definition alias_pattern :: "pattern \<Rightarrow> nat \<Rightarrow> bytes list \<Rightarrow> pattern" where
  "alias_pattern pt n rp = zero_pattern\<lparr>pt_raw := pt_raw pt, pt_kind := pt_kind pt, pt_segs := drop n (pt_segs pt), pt_anchors := [rp]\<rparr>"

definition throughLinks :: "platform \<Rightarrow> bytes \<Rightarrow> bool \<Rightarrow> pattern \<Rightarrow> pattern list" where
  "throughLinks pf goos folds pt =
     (if goos \<noteq> pf_GOOS pf \<or> pt_literal pt then []
      else let n = concretePrefix pt in
        if n = 0 then []
        else concat (map (\<lambda>a. let literal = a @ take n (pt_segs pt) in
          case pf_resolveLinks pf (nativePath literal goos) of
            None \<Rightarrow> []
          | Some r \<Rightarrow> let rp = posixSegments (pf_tables pf) r goos folds in if rp = literal then [] else [alias_pattern pt n rp]) (pt_anchors pt)))"

definition real_names :: "platform \<Rightarrow> pattern \<Rightarrow> bytes \<Rightarrow> bytes list" where
  "real_names pf pt alias = alias # (if pt_kind pt \<noteq> anchorCwd then (case pf_resolveLinks pf alias of None \<Rightarrow> [] | Some r \<Rightarrow> [r]) else [])"

definition long_alias :: "platform \<Rightarrow> bytes \<Rightarrow> bool \<Rightarrow> pattern \<Rightarrow> nat \<Rightarrow> bytes list \<Rightarrow> pattern list \<times> bool" where
  "long_alias pf goos folds pt n a =
     (let literal = a @ take n (pt_segs pt) in
      case pf_osAlias pf (nativePath literal goos) of (alias, unresolved) \<Rightarrow>
        if alias = [] then ([], unresolved)
        else (snd (foldl (\<lambda>(seen, out) r.
                let rp = posixSegments (pf_tables pf) r goos folds in
                case appendDistinct seen rp of (seen, added) \<Rightarrow> (seen, if added then out @ [alias_pattern pt n rp] else out))
              ([literal], []) (real_names pf pt alias)), unresolved))"

definition longNameAliases :: "platform \<Rightarrow> bytes \<Rightarrow> bool \<Rightarrow> pattern \<Rightarrow> pattern list \<times> bool" where
  "longNameAliases pf goos folds pt =
     (if goos \<noteq> pf_GOOS pf \<or> pf_GOOS pf \<noteq> windows \<or> pt_inert pt then ([], False)
      else if pt_literal pt then ([], list_ex shortShaped (pt_segs pt))
      else let n = concretePrefix pt; pending = list_ex shortShaped (drop n (pt_segs pt)) in
        if n = 0 \<or> \<not> spelledAsAlias (take n (pt_segs pt)) then ([], pending)
        else let rs = map (long_alias pf goos folds pt n) (pt_anchors pt)
             in (concat (map fst rs), pending \<or> list_ex snd rs))"

definition anchorVariants :: "platform \<Rightarrow> bytes \<Rightarrow> bool \<Rightarrow> bytes \<Rightarrow> bytes list list" where
  "anchorVariants pf goos folds dir =
     (if dir = [] then [] else fst (spellings pf dir goos folds (goos = pf_GOOS pf)))"

definition settingsAnchors :: "platform \<Rightarrow> bytes \<Rightarrow> bool \<Rightarrow> ruleList \<Rightarrow> bytes list list" where
  "settingsAnchors pf goos folds l = concat (map (anchorVariants pf goos folds) (rl_settingsDirs l))"

definition base_anchors :: "platform \<Rightarrow> bytes \<Rightarrow> bool \<Rightarrow> bytes list list \<Rightarrow> bytes list list \<Rightarrow> ruleList \<Rightarrow> pattern \<Rightarrow> bytes list list" where
  "base_anchors pf goos folds cwd home l pt =
     (case pt_kind pt of anchorFS \<Rightarrow> [ []] | anchorHome \<Rightarrow> home | anchorSettings \<Rightarrow> settingsAnchors pf goos folds l | anchorCwd \<Rightarrow> cwd)"

definition place_pattern :: "platform \<Rightarrow> bytes \<Rightarrow> bool \<Rightarrow> bytes list list \<Rightarrow> bytes list list \<Rightarrow> ruleList \<Rightarrow> pattern \<Rightarrow> pattern \<times> pattern list \<times> bool" where
  "place_pattern pf goos folds cwd home l pt =
     (let pt = pt\<lparr>pt_anchors := pt_anchors pt @ map (\<lambda>a. ancestorsUp a (pt_up pt)) (base_anchors pf goos folds cwd home l pt)\<rparr>;
          links = (if \<not> pt_neg pt \<and> pt_kind pt \<noteq> anchorCwd then throughLinks pf goos folds pt else []);
          (long, pending) = (if \<not> pt_neg pt then longNameAliases pf goos folds pt else ([], False))
      in (pt, links @ long, pending))"

definition place_list :: "platform \<Rightarrow> bytes \<Rightarrow> bool \<Rightarrow> bytes list list \<Rightarrow> bytes list list \<Rightarrow> ruleList \<Rightarrow> ruleList \<times> bool" where
  "place_list pf goos folds cwd home l =
     (let placed = map (place_pattern pf goos folds cwd home l) (rl_patterns l)
      in (l\<lparr>rl_patterns := map fst placed @ concat (map (\<lambda>q. fst (snd q)) placed), rl_cwdAnchors := cwd\<rparr>, list_ex (\<lambda>q. snd (snd q)) placed))"

definition newRuleSet :: "platform \<Rightarrow> bytes \<Rightarrow> bool \<Rightarrow> bytes \<Rightarrow> bytes \<Rightarrow> ruleList list \<Rightarrow> RuleSet" where
  "newRuleSet pf goos folds root home rls =
     (let rs = \<lparr>rs_goos = goos, rs_fold = folds, rs_resolve = (goos = pf_GOOS pf), rs_deny = [], rs_ask = [], rs_shortPending = False\<rparr> in
      if length rls = 0 then rs
      else let placed = map (place_list pf goos folds (anchorVariants pf goos folds root) (anchorVariants pf goos folds home)) rls
           in rs\<lparr>rs_deny := filter (\<lambda>l. rl_effect l = Deny) (map fst placed), rs_ask := filter (\<lambda>l. rl_effect l \<noteq> Deny) (map fst placed),
                 rs_shortPending := list_ex snd placed\<rparr>)"

end
