(* ===== verification/GoGlobRef.thy ===== *)
theory GoGlobRef
  imports GoGlob
begin

text \<open>
  The matcher against its reference: the error is exactly that of a malformed pattern, whatever the name;
  a match is a match of the reference; and on names of ASCII bytes without a slash the two are equal.
\<close>

section \<open>Chunks\<close>

fun gsteps :: "gel list \<Rightarrow> bytes \<Rightarrow> bytes option" where
  "gsteps [] s = Some s"
| "gsteps (e # g) s = Option.bind (gstep e s) (gsteps g)"

abbreviation (input) run_chunk :: "bytes option \<Rightarrow> gel list \<Rightarrow> bytes option" where
  "run_chunk s g \<equiv> Option.bind s (gsteps g)"

lemma run_lit: "s \<noteq> Some [] \<Longrightarrow> run_chunk (match_lit c s) g = run_chunk s (GLit c # g)"
  by (cases s; cases "the s") (auto simp: match_lit_def)

lemma run_any: "s \<noteq> Some [] \<Longrightarrow> run_chunk (match_any s) g = run_chunk s (GAny # g)"
  by (cases s; cases "the s") (auto simp: match_any_def)

lemma run_class:
  assumes "s \<noteq> Some []" "class_rune s = (r, s')"
  shows "run_chunk (if (\<exists>(lo, hi) \<in> set rs. lo \<le> r \<and> r \<le> hi) = neg then None else s') g = run_chunk s (GClass neg rs # g)"
proof (cases s)
  case (Some t)
  then obtain b t' where t: "t = b # t'" using assms(1) by (cases t) auto
  obtain n where "DecodeRuneInString t = (r, n)" "s' = Some (drop n t)"
    using assms(2) Some by (auto simp: class_rune_def split: prod.splits)
  then show ?thesis using Some t by simp
qed (use assms(2) in \<open>simp add: class_rune_def\<close>)

lemma matchChunk_class:
  assumes "class_rune (if s = Some [] then None else s) = (r, s')" "neg \<longleftrightarrow> chunk \<noteq> [] \<and> hd chunk = 0x5E" "ch = (if neg then tl chunk else chunk)"
  shows "matchChunk (0x5B # chunk) s = (case parse_class False ch of None \<Rightarrow> None
      | Some (rs, ch') \<Rightarrow> matchChunk ch' (if (\<exists>(lo, hi) \<in> set rs. lo \<le> r \<and> r \<le> hi) = neg then None else s'))"
    "parse_chunk (0x5B # chunk) = (case parse_class False ch of None \<Rightarrow> None | Some (rs, ch') \<Rightarrow> map_option ((#) (GClass neg rs)) (parse_chunk ch'))"
  unfolding matchChunk.simps(2) parse_chunk.simps(2) assms(1) Let_def prod.case assms(2) [symmetric] assms(3) [symmetric] class_loop_parse
  by (cases "parse_class False ch"; simp add: split_beta)+

lemma matchChunk_parse: "matchChunk chunk s = map_option (run_chunk s) (parse_chunk chunk)"
proof (induction "length chunk" arbitrary: chunk s rule: less_induct)
  case less
  show ?case
  proof (cases chunk)
    case Nil
    then show ?thesis by (cases s) simp_all
  next
    case (Cons c cs)
    define t where "t = (if s = Some [] then None else s)"
    have t: "t \<noteq> Some []" "run_chunk s (e # g) = run_chunk t (e # g)" for e g by (auto simp: t_def)
    have IH: "matchChunk ch x = map_option (run_chunk x) (parse_chunk ch)" if "length ch \<le> length cs" for ch x
      using that Cons by (intro less) simp
    consider (cls) "c = 0x5B" | (any) "c = 0x3F" | (esc) "c = 0x5C" | (other) "c \<noteq> 0x5B" "c \<noteq> 0x3F" "c \<noteq> 0x5C" by blast
    then show ?thesis
    proof cases
      case cls
      define neg where "neg \<longleftrightarrow> cs \<noteq> [] \<and> hd cs = 0x5E"
      define ch where "ch = (if neg then tl cs else cs)"
      obtain r s' where r: "class_rune t = (r, s')" by (cases "class_rune t")
      note m = matchChunk_class [OF r [unfolded t_def] neg_def ch_def]
      show ?thesis
      proof (cases "parse_class False ch")
        case (Some p)
        obtain rs ch' where p: "p = (rs, ch')" by (cases p)
        have "length ch' \<le> length cs" using parse_class_shorter [of False ch rs ch'] Some p by (simp add: ch_def split: if_splits)
        then show ?thesis using Some p IH unfolding Cons cls m by (cases "parse_chunk ch'") (auto simp: t(2) run_class [OF t(1) r])
      qed (simp add: Cons cls m)
    next
      case any
      then show ?thesis using IH [of cs "match_any t"] run_any [OF t(1)]
        by (cases "parse_chunk cs") (simp_all add: Cons matchChunk.simps(2) parse_chunk.simps(2) t_def [symmetric] t(2))
    next
      case esc
      then show ?thesis using IH [of "tl cs"] run_lit [OF t(1)]
        by (cases cs; cases "parse_chunk (tl cs)") (simp_all add: Cons matchChunk.simps(2) parse_chunk.simps(2) t_def [symmetric] t(2))
    next
      case other
      then show ?thesis using IH [of cs "match_lit c t"] run_lit [OF t(1)]
        by (cases "parse_chunk cs") (simp_all add: Cons matchChunk.simps(2) parse_chunk.simps(2) t_def [symmetric] t(2))
    qed
  qed
qed

lemma parse_chunk_no_star: "parse_chunk c = Some g \<Longrightarrow> GStar \<notin> set g"
proof (induction "length c" arbitrary: c g rule: less_induct)
  case less
  have IH: "GStar \<notin> set g'" if "parse_chunk d = Some g'" "length d < length c" for d g' using less that by blast
  show ?case using less.prems
    by (cases c) (auto 0 4 simp: parse_chunk.simps(2) Let_def dest: IH parse_class_shorter split: if_splits option.splits list.splits prod.splits)
qed

lemma gmatches_cons: "e \<noteq> GStar \<Longrightarrow> gmatches (e # g) s \<longleftrightarrow> (case gstep e s of None \<Rightarrow> False | Some t \<Rightarrow> gmatches g t)"
  by (cases e) simp_all

lemma gmatches_chunk: "GStar \<notin> set c \<Longrightarrow> gmatches (c @ g) s \<longleftrightarrow> (\<exists>t. gsteps c s = Some t \<and> gmatches g t)"
proof (induction c arbitrary: s)
  case (Cons e c)
  then show ?case by (cases "gstep e s") (auto simp: gmatches_cons)
qed simp

lemma gmatches_star: "gmatches (GStar # g) s \<longleftrightarrow> (\<exists>u v. s = u @ v \<and> slash \<notin> set u \<and> gmatches g v)"
proof (induction s)
  case (Cons b s)
  have "(\<exists>u v. b # s = u @ v \<and> slash \<notin> set u \<and> gmatches g v) \<longleftrightarrow> gmatches g (b # s) \<or> b \<noteq> slash \<and> (\<exists>u v. s = u @ v \<and> slash \<notin> set u \<and> gmatches g v)"
    (is "?l \<longleftrightarrow> ?r")
  proof
    assume ?l
    then obtain u v where "b # s = u @ v" "slash \<notin> set u" "gmatches g v" by blast
    then show ?r by (cases u) auto
  next
    assume ?r
    then show ?l
    proof
      assume "gmatches g (b # s)"
      then show ?l by (intro exI [of _ "[]"] exI [of _ "b # s"]) simp
    next
      assume "b \<noteq> slash \<and> (\<exists>u v. s = u @ v \<and> slash \<notin> set u \<and> gmatches g v)"
      then obtain u v where "b \<noteq> slash" "s = u @ v" "slash \<notin> set u" "gmatches g v" by blast
      then show ?l by (intro exI [of _ "b # u"] exI [of _ v]) simp
    qed
  qed
  then show ?case using Cons by simp
qed simp

section \<open>Errors\<close>

lemma scan_len_stop: "drop (scan_len inr p) p = [] \<or> hd (drop (scan_len inr p) p) = 0x2A"
proof (induction inr p rule: scan_len.induct)
  case (2 inr c p)
  then show ?case by (cases p) (simp_all del: scan_len.simps(1) drop_eq_Nil add: scan_len.simps(1) [of inr])
qed simp

lemma scanChunk_rest: "scanChunk p = (star, chunk, rest) \<Longrightarrow> rest = [] \<or> hd rest = 0x2A"
  using scan_len_stop [of False "dropWhile (\<lambda>c. c = 0x2A) p"] by (simp add: scanChunk_def Let_def)

lemma scanChunk_star: "p \<noteq> [] \<Longrightarrow> hd p = 0x2A \<Longrightarrow> fst (scanChunk p)"
  by (simp add: scanChunk_def Let_def)

lemma scanChunk_empty:
  assumes "scanChunk p = (star, [], rest)"
  shows "rest = []"
proof -
  define q where "q = dropWhile (\<lambda>c. c = 0x2A) p"
  have "take (scan_len False q) q = []" "rest = drop (scan_len False q) q" using assms by (auto simp: scanChunk_def q_def Let_def)
  moreover have "q = [] \<or> hd q \<noteq> 0x2A" unfolding q_def using hd_dropWhile [of "\<lambda>c. c = 0x2A" p] by blast
  moreover have "0 < scan_len False q" if "q \<noteq> []" "hd q \<noteq> 0x2A" using that by (cases q) (simp_all split: list.split)
  ultimately show ?thesis by (cases "q = []") simp_all
qed

lemma glob_Nil [simp]: "glob [] = Some []" "rest_valid []" "Match [] s = Some (s = [])"
  by (simp_all add: glob.simps [of "[]"] rest_valid.simps [of "[]"] Match.simps [of "[]"])

lemma glob_step:
  assumes "p \<noteq> []" "scanChunk p = (star, chunk, rest)"
  shows "glob p = (case parse_chunk chunk of None \<Rightarrow> None | Some c \<Rightarrow> map_option (\<lambda>g. (if star then [GStar] else []) @ c @ g) (glob rest))"
  using assms by (cases "parse_chunk chunk"; cases "glob rest") (simp_all add: glob.simps [of p])

lemma rest_valid_iff: "rest_valid p \<longleftrightarrow> glob p \<noteq> None"
proof (induction p rule: rest_valid.induct)
  case (1 p)
  show ?case
  proof (cases "p = []")
    case False
    obtain star chunk rest where sc: "scanChunk p = (star, chunk, rest)" by (cases "scanChunk p")
    have "rest_valid rest \<longleftrightarrow> glob rest \<noteq> None" using "1.IH" [OF False sc [symmetric]] by blast
    then show ?thesis unfolding rest_valid.simps [of p] glob_step [OF False sc]
      using False sc by (cases "parse_chunk chunk") (auto simp: matchChunk_parse)
  qed simp
qed

text \<open>The first position from which a chunk matches, and at the end of the pattern matches to the end.\<close>

definition fits :: "gel list \<Rightarrow> bool \<Rightarrow> bytes \<Rightarrow> bytes option" where
  "fits c final s = (case gsteps c s of Some t \<Rightarrow> if final \<and> t \<noteq> [] then None else Some t | None \<Rightarrow> None)"

fun first_fit :: "gel list \<Rightarrow> bool \<Rightarrow> bytes \<Rightarrow> bytes option" where
  "first_fit c final s =
     (case fits c final s of Some t \<Rightarrow> Some t | None \<Rightarrow> (case s of [] \<Rightarrow> None | b # u \<Rightarrow> if b = slash then None else first_fit c final u))"

declare first_fit.simps [simp del]

lemma skip_match_fit:
  assumes "parse_chunk chunk = Some c"
  shows "skip_match chunk final s = Some (case s of [] \<Rightarrow> None | b # u \<Rightarrow> if b = slash then None else first_fit c final u)"
proof (induction s)
  case (Cons b s)
  then show ?case using assms
    by (auto simp: matchChunk_parse first_fit.simps [of c final s] fits_def split: option.splits)
qed simp

lemma Match_step:
  assumes p: "p \<noteq> []" and sc: "scanChunk p = (star, chunk, rest)" and "\<not> (star \<and> chunk = [])"
  shows "Match p s = (case parse_chunk chunk of None \<Rightarrow> None
    | Some c \<Rightarrow> (case (if star then first_fit c (rest = []) s else fits c (rest = []) s) of
         Some t \<Rightarrow> Match rest t | None \<Rightarrow> if glob rest \<noteq> None then Some False else None))"
proof (cases "parse_chunk chunk")
  case None
  then show ?thesis using assms by (simp add: Match.simps [of p] matchChunk_parse)
next
  case (Some c)
  have "Match p s = (case (if star then first_fit c (rest = []) s else fits c (rest = []) s) of
         Some t \<Rightarrow> Match rest t | None \<Rightarrow> if glob rest \<noteq> None then Some False else None)"
    unfolding Match.simps [of p] using assms Some
    by (cases "gsteps c s"; cases star)
      (auto simp: matchChunk_parse skip_match_fit [OF Some] first_fit.simps [of c _ s] fits_def rest_valid_iff split: option.splits list.splits)
  then show ?thesis using Some by simp
qed

lemma Match_star:
  assumes "p \<noteq> []" "scanChunk p = (True, [], rest)"
  shows "Match p s = Some (slash \<notin> set s)" "glob p = Some [GStar]"
  using assms scanChunk_empty [OF assms(2)] by (simp_all add: Match.simps [of p] glob.simps [of p])

lemma Match_error: "Match p s = None \<longleftrightarrow> glob p = None"
proof (induction p arbitrary: s rule: glob.induct)
  case (1 p)
  show ?case
  proof (cases "p = []")
    case False
    obtain star chunk rest where sc: "scanChunk p = (star, chunk, rest)" by (cases "scanChunk p")
    have IH: "Match rest t = None \<longleftrightarrow> glob rest = None" for t using "1.IH" [OF False sc [symmetric]] by blast
    show ?thesis
    proof (cases "star \<and> chunk = []")
      case True
      then show ?thesis using Match_star [OF False] sc by simp
    next
      case n: False
      show ?thesis unfolding Match_step [OF False sc n] glob_step [OF False sc] by (auto simp: IH split: option.splits)
    qed
  qed simp
qed

section \<open>Matches\<close>

lemma first_fit_sound: "first_fit c final s = Some t \<Longrightarrow> \<exists>u v. s = u @ v \<and> slash \<notin> set u \<and> fits c final v = Some t"
proof (induction s)
  case (Cons b s)
  show ?case
  proof (cases "fits c final (b # s)")
    case None
    then have "b \<noteq> slash" "first_fit c final s = Some t" using Cons.prems by (auto simp: first_fit.simps [of _ _ "b # s"] split: if_splits)
    then obtain u v where "s = u @ v" "slash \<notin> set u" "fits c final v = Some t" using Cons.IH by blast
    with \<open>b \<noteq> slash\<close> show ?thesis by (intro exI [of _ "b # u"] exI [of _ v]) simp
  next
    case (Some x)
    then show ?thesis using Cons.prems by (intro exI [of _ "[]"] exI [of _ "b # s"]) (simp add: first_fit.simps [of _ _ "b # s"])
  qed
qed (auto simp: first_fit.simps [of _ _ "[]"] split: option.splits)

lemma Match_sound: "Match p s = Some True \<Longrightarrow> glob p = Some g \<Longrightarrow> gmatches g s"
proof (induction p arbitrary: s g rule: glob.induct)
  case (1 p)
  show ?case
  proof (cases "p = []")
    case False
    obtain star chunk rest where sc: "scanChunk p = (star, chunk, rest)" by (cases "scanChunk p")
    show ?thesis
    proof (cases "star \<and> chunk = []")
      case True
      then show ?thesis using Match_star [OF False] sc "1.prems" by (simp add: gmatches_star)
    next
      case n: False
      obtain c h where c: "parse_chunk chunk = Some c" "glob rest = Some h" "g = (if star then [GStar] else []) @ c @ h"
        using "1.prems"(2) unfolding glob_step [OF False sc] by (auto split: option.splits)
      obtain t where t: "(if star then first_fit c (rest = []) s else fits c (rest = []) s) = Some t" "Match rest t = Some True"
        using "1.prems"(1) c(1,2) unfolding Match_step [OF False sc n] by (auto split: option.splits)
      have ns: "GStar \<notin> set c" by (rule parse_chunk_no_star [OF c(1)])
      have h: "gmatches h t" using "1.IH" [OF False sc [symmetric] refl t(2) c(2)] by simp
      have fit: "gmatches (c @ h) v" if "fits c (rest = []) v = Some t" for v
        using that h by (auto simp: gmatches_chunk [OF ns] fits_def split: option.splits if_splits)
      show ?thesis using t(1) fit first_fit_sound [of c "rest = []" s t] by (cases star) (auto simp: c(3) gmatches_star)
    qed
  qed (use "1.prems" in simp)
qed

definition plain_name :: "bytes \<Rightarrow> bool" where
  "plain_name s \<longleftrightarrow> (\<forall>b \<in> set s. b < 0x80 \<and> b \<noteq> slash)"

lemma plain_append [simp]: "plain_name (u @ v) \<longleftrightarrow> plain_name u \<and> plain_name v"
  by (auto simp: plain_name_def)

lemma plain_gstep: "plain_name s \<Longrightarrow> gstep e s = Some t \<Longrightarrow> s \<noteq> [] \<and> t = tl s"
  by (cases s; cases e) (auto simp: plain_name_def split: if_splits)

lemma plain_gsteps: "plain_name s \<Longrightarrow> gsteps c s = Some t \<Longrightarrow> length c \<le> length s \<and> t = drop (length c) s"
proof (induction c arbitrary: s)
  case (Cons e c)
  then obtain u where u: "gstep e s = Some u" "gsteps c u = Some t" by (auto simp: bind_eq_Some_conv)
  with plain_gstep [OF Cons.prems(1) u(1)] Cons.prems(1) Cons.IH [of u] show ?case by (cases s) (auto simp: plain_name_def)
qed simp

text \<open>The leftmost fit leaves the longest rest.\<close>

lemma first_fit_least:
  assumes "plain_name (u @ v)" "fits c final v = Some t"
  obtains t' w where "first_fit c final (u @ v) = Some t'" "if final then t' = [] else t' = w @ t" "slash \<notin> set w"
proof -
  have "\<exists>t' w. first_fit c final (u @ v) = Some t' \<and> (if final then t' = [] else t' = w @ t) \<and> slash \<notin> set w"
    using assms(1)
  proof (induction u)
    case Nil
    then show ?case using assms(2) by (intro exI [of _ t] exI [of _ "[]"]) (auto simp: first_fit.simps [of c final v] fits_def split: option.splits if_splits)
  next
    case (Cons b u)
    show ?case
    proof (cases "fits c final ((b # u) @ v)")
      case None
      then have "first_fit c final ((b # u) @ v) = first_fit c final (u @ v)" using Cons.prems by (simp add: first_fit.simps [of c final "b # u @ v"] plain_name_def)
      then show ?thesis using Cons.IH Cons.prems by (simp add: plain_name_def)
    next
      case (Some t')
      have f: "first_fit c final ((b # u) @ v) = Some t'" using Some by (simp add: first_fit.simps [of c final "b # u @ v"])
      have g: "gsteps c ((b # u) @ v) = Some t'" "final \<Longrightarrow> t' = []" "gsteps c v = Some t"
        using Some assms(2) by (auto simp: fits_def split: option.splits if_splits)
      have p: "plain_name v" "plain_name ((b # u) @ v)" using Cons.prems by (simp_all add: plain_name_def)
      have d: "t' = drop (length c) ((b # u) @ v)" "t = drop (length c) v" "length c \<le> length v" using plain_gsteps [OF p(2) g(1)] plain_gsteps [OF p(1) g(3)] by simp_all
      define w where "w = drop (length c) ((b # u) @ take (length c) v)"
      have "(b # u) @ v = ((b # u) @ take (length c) v) @ t" unfolding d(2) by simp
      then have "t' = drop (length c) (((b # u) @ take (length c) v) @ t)" by (simp only: d(1))
      also have "\<dots> = w @ t" unfolding w_def drop_append using d(3) by simp
      finally have "t' = w @ t" .
      moreover have "slash \<notin> set w" using p(2) unfolding w_def by (auto simp: plain_name_def dest!: in_set_dropD in_set_takeD)
      ultimately show ?thesis using f g(2) by (intro exI [of _ t'] exI [of _ w]) simp
    qed
  qed
  then show ?thesis using that by blast
qed

lemma glob_head:
  assumes "glob p = Some g" "p \<noteq> []"
  shows "g \<noteq> []" "fst (scanChunk p) \<Longrightarrow> \<exists>h. g = GStar # h"
proof -
  obtain star chunk rest where sc: "scanChunk p = (star, chunk, rest)" by (cases "scanChunk p")
  obtain c h where c: "parse_chunk chunk = Some c" "g = (if star then [GStar] else []) @ c @ h"
    using assms(1) unfolding glob_step [OF assms(2) sc] by (auto split: option.splits)
  show "\<exists>h. g = GStar # h" if "fst (scanChunk p)" using that sc c(2) by simp
  have "chunk \<noteq> []" if "\<not> star"
  proof
    assume "chunk = []"
    then have "rest = []" "scan_len False p = 0" using sc scanChunk_empty [of p star rest] that assms(2)
      by (cases p; auto simp: scanChunk_def Let_def)+
    then show False using sc that assms(2) by (cases p) (auto simp: scanChunk_def Let_def)
  qed
  then show "g \<noteq> []" using c by (cases chunk; cases star) (auto simp: parse_chunk.simps(2) Let_def split: if_splits option.splits list.splits prod.splits)
qed

lemma fits_plain:
  assumes "plain_name s" "fits c final s = Some t"
  shows "plain_name t"
proof -
  have "gsteps c s = Some t" using assms(2) by (auto simp: fits_def split: option.splits if_splits)
  with plain_gsteps [OF assms(1)] assms(1) show ?thesis by (auto simp: plain_name_def dest: in_set_dropD)
qed

lemma first_fit_plain: "plain_name s \<Longrightarrow> first_fit c final s = Some t \<Longrightarrow> plain_name t"
  using first_fit_sound fits_plain by fastforce

lemma Match_complete: "gmatches g s \<Longrightarrow> glob p = Some g \<Longrightarrow> plain_name s \<Longrightarrow> Match p s = Some True"
proof (induction p arbitrary: s g rule: glob.induct)
  case (1 p)
  show ?case
  proof (cases "p = []")
    case False
    obtain star chunk rest where sc: "scanChunk p = (star, chunk, rest)" by (cases "scanChunk p")
    show ?thesis
    proof (cases "star \<and> chunk = []")
      case True
      then show ?thesis using Match_star [OF False] sc "1.prems"(3) by (auto simp: plain_name_def)
    next
      case n: False
      obtain c h where c: "parse_chunk chunk = Some c" "glob rest = Some h" "g = (if star then [GStar] else []) @ c @ h"
        using "1.prems"(2) unfolding glob_step [OF False sc] by (auto split: option.splits)
      have ns: "GStar \<notin> set c" by (rule parse_chunk_no_star [OF c(1)])
      have IH: "gmatches h t \<Longrightarrow> plain_name t \<Longrightarrow> Match rest t = Some True" for t using "1.IH" [OF False sc [symmetric] refl _ c(2)] by simp
      have h0: "h = [] \<longleftrightarrow> rest = []" "rest \<noteq> [] \<Longrightarrow> \<exists>h'. h = GStar # h'"
        using c(2) scanChunk_rest [OF sc] scanChunk_star [of rest] glob_head [of rest h] by auto
      obtain u v t where v: "s = u @ v" "star \<or> u = []" "gsteps c v = Some t" "gmatches h t"
        using "1.prems"(1) unfolding c(3) by (cases star) (auto simp: gmatches_star gmatches_chunk [OF ns])
      have fit: "fits c (rest = []) v = Some t" using v(3,4) h0(1) by (auto simp: fits_def)
      have pv: "plain_name v" "plain_name (u @ v)" using "1.prems"(3) v(1) by simp_all
      show ?thesis
      proof (cases star)
        case F: False
        have "plain_name t" by (rule fits_plain [OF pv(1) fit])
        then show ?thesis unfolding Match_step [OF False sc n] using F c(1) fit v IH by simp
      next
        case True
        obtain t' w where t': "first_fit c (rest = []) (u @ v) = Some t'" "if rest = [] then t' = [] else t' = w @ t" "slash \<notin> set w"
          using first_fit_least [OF pv(2) fit] .
        have "gmatches h t'"
        proof (cases "rest = []")
          case False
          then obtain h' where h': "h = GStar # h'" using h0(2) by blast
          show ?thesis using v(4) t'(2,3) False unfolding h' gmatches_star by (metis append.assoc UnE set_append)
        qed (use t'(2) h0(1) in simp)
        moreover have "plain_name t'" by (rule first_fit_plain [OF pv(2) t'(1)])
        ultimately show ?thesis unfolding Match_step [OF False sc n] using True c(1) t'(1) v(1) IH by simp
      qed
    qed
  qed (use "1.prems" in simp)
qed

end
