(* ===== verification/HostRulesRef.thy ===== *)
theory HostRulesRef
  imports HostPolicy GoGlobRef
begin

text \<open>
  What a pattern means, without tables: a path is a list of segments, each with its 8.3 name where one is
  known, and a pattern hits some of the prefixes of the path.
\<close>

section \<open>Glob segments\<close>

type_synonym seg = "bytes \<times> bytes option"

definition pairs :: "bytes list \<Rightarrow> bytes list option \<Rightarrow> seg list" where
  "pairs segs alt = map (\<lambda>j. (segs ! j, alt_at alt j)) [0..<length segs]"

lemma length_pairs [simp]: "length (pairs segs alt) = length segs"
  by (simp add: pairs_def)

lemma nth_pairs [simp]: "j < length segs \<Longrightarrow> pairs segs alt ! j = (segs ! j, alt_at alt j)"
  by (simp add: pairs_def)

fun segs_match :: "bytes list \<Rightarrow> seg list \<Rightarrow> bool" where
  "segs_match [] xs \<longleftrightarrow> xs = []"
| "segs_match (ps # pat) [] \<longleftrightarrow> ps = star2 \<and> pat \<noteq> [] \<and> segs_match pat []"
| "segs_match (ps # pat) (x # xs) \<longleftrightarrow>
     (if ps = star2 then pat = [] \<or> segs_match pat (x # xs) \<or> segs_match (ps # pat) xs
      else seg_match ps (fst x) (snd x) \<and> segs_match pat xs)"

text \<open>The run of segments one element of a pattern takes.\<close>

definition takes :: "bytes \<Rightarrow> bool \<Rightarrow> seg list \<Rightarrow> bool" where
  "takes ps final xs \<longleftrightarrow> (if ps = star2 then final \<longrightarrow> xs \<noteq> [] else \<exists>x. xs = [x] \<and> seg_match ps (fst x) (snd x))"

lemma split_cons: "(\<exists>ys zs. x # xs = ys @ zs \<and> P zs) \<longleftrightarrow> P (x # xs) \<or> (\<exists>ys zs. xs = ys @ zs \<and> P zs)"
proof
  assume "\<exists>ys zs. x # xs = ys @ zs \<and> P zs"
  then obtain ys zs where "x # xs = ys @ zs" "P zs" by blast
  then show "P (x # xs) \<or> (\<exists>ys zs. xs = ys @ zs \<and> P zs)" by (cases ys) auto
next
  assume "P (x # xs) \<or> (\<exists>ys zs. xs = ys @ zs \<and> P zs)"
  then show "\<exists>ys zs. x # xs = ys @ zs \<and> P zs"
  proof
    assume "P (x # xs)"
    then show ?thesis by (intro exI [of _ "[]"] exI [of _ "x # xs"]) simp
  next
    assume "\<exists>ys zs. xs = ys @ zs \<and> P zs"
    then obtain ys zs where "xs = ys @ zs" "P zs" by blast
    then show ?thesis by (intro exI [of _ "x # ys"] exI [of _ zs]) simp
  qed
qed

lemma segs_match_takes: "segs_match (ps # pat) xs \<longleftrightarrow> (\<exists>ys zs. xs = ys @ zs \<and> takes ps (pat = []) ys \<and> segs_match pat zs)"
proof (induction xs)
  case Nil
  then show ?case by (auto simp: takes_def)
next
  case (Cons x xs)
  show ?case
  proof (cases "ps = star2")
    case False
    have "(\<exists>ys zs. x # xs = ys @ zs \<and> takes ps (pat = []) ys \<and> segs_match pat zs) \<longleftrightarrow> seg_match ps (fst x) (snd x) \<and> segs_match pat xs"
    proof
      assume "seg_match ps (fst x) (snd x) \<and> segs_match pat xs"
      then show "\<exists>ys zs. x # xs = ys @ zs \<and> takes ps (pat = []) ys \<and> segs_match pat zs"
        using False by (intro exI [of _ "[x]"] exI [of _ xs]) (simp add: takes_def)
    qed (use False in \<open>auto simp: takes_def\<close>)
    then show ?thesis using False by simp
  next
    case star: True
    show ?thesis
    proof (cases "pat = []")
      case True
      then show ?thesis using star by (auto simp: takes_def)
    next
      case False
      have "(\<exists>ys zs. x # xs = ys @ zs \<and> segs_match pat zs) \<longleftrightarrow> segs_match pat (x # xs) \<or> (\<exists>ys zs. xs = ys @ zs \<and> segs_match pat zs)"
        by (rule split_cons)
      then show ?thesis using Cons star False by (simp add: takes_def)
    qed
  qed
qed

abbreviation (input) stretch :: "'a list \<Rightarrow> nat \<Rightarrow> nat \<Rightarrow> 'a list" where
  "stretch xs i j \<equiv> take (j - i) (drop i xs)"

lemma foldl_row:
  "length (foldl (\<lambda>cur j. cur @ [f cur j]) [] [0..<n]) = n"
  "k < n \<Longrightarrow> foldl (\<lambda>cur j. cur @ [f cur j]) [] [0..<n] ! k = f (foldl (\<lambda>cur j. cur @ [f cur j]) [] [0..<k]) k"
proof -
  show l: "length (foldl (\<lambda>cur j. cur @ [f cur j]) [] [0..<n]) = n" for n by (induction n) simp_all
  show "k < n \<Longrightarrow> foldl (\<lambda>cur j. cur @ [f cur j]) [] [0..<n] ! k = f (foldl (\<lambda>cur j. cur @ [f cur j]) [] [0..<k]) k"
  proof (induction n)
    case (Suc n)
    then show ?case using l [of n] by (cases "k = n") (simp_all add: nth_append)
  qed simp
qed

lemma length_next_row [simp]: "length (next_row ps final segs alt prev) = length segs + 1"
  unfolding next_row_def by (rule foldl_row)

lemma next_row_cell:
  assumes "j \<le> length segs"
  shows "next_row ps final segs alt prev ! j =
    row_cell ps final segs alt prev (next_row ps final segs alt prev) j"
proof -
  let ?F = "\<lambda>n. foldl (\<lambda>cur j. cur @ [row_cell ps final segs alt prev cur j]) [] [0..<n]"
  have n: "next_row ps final segs alt prev ! k = row_cell ps final segs alt prev (?F k) k" if "k \<le> length segs" for k
    unfolding next_row_def by (rule foldl_row(2)) (use that in simp)
  have "?F j ! (j - 1) = next_row ps final segs alt prev ! (j - 1)" if "j > 0"
    using that assms n [of "j - 1"] foldl_row(2) [of "j - 1" j "row_cell ps final segs alt prev"] by simp
  then have "row_cell ps final segs alt prev (?F j) j = row_cell ps final segs alt prev (next_row ps final segs alt prev) j"
    by (cases "j > 0") (simp_all only: row_cell_def simp_thms)
  then show ?thesis unfolding n [OF assms] .
qed

lemma next_row_takes:
  assumes "j \<le> length segs" "length prev = length segs + 1"
  shows "next_row ps final segs alt prev ! j \<longleftrightarrow> (\<exists>i \<le> j. prev ! i \<and> takes ps final (stretch (pairs segs alt) i j))"
proof (cases "ps = star2")
  case star: True
  show ?thesis using assms(1)
  proof (induction j)
    case 0
    then show ?case unfolding next_row_cell [OF 0] using star by (simp add: row_cell_def takes_def)
  next
    case (Suc j)
    have t: "takes ps final (stretch (pairs segs alt) i (Suc j)) \<longleftrightarrow> (final \<longrightarrow> i \<le> j)" if "i \<le> Suc j" for i
      using that star Suc.prems by (auto simp: takes_def)
    have t': "takes ps final (stretch (pairs segs alt) i j) \<longleftrightarrow> (final \<longrightarrow> i < j)" if "i \<le> j" for i
      using that star Suc.prems by (auto simp: takes_def)
    have IH: "next_row ps final segs alt prev ! j \<longleftrightarrow> (\<exists>i \<le> j. prev ! i \<and> (final \<longrightarrow> i < j))" using Suc t' by auto
    have "next_row ps final segs alt prev ! Suc j \<longleftrightarrow> (\<exists>i \<le> Suc j. prev ! i \<and> (final \<longrightarrow> i \<le> j))"
      unfolding next_row_cell [OF Suc.prems] using star IH by (auto simp: row_cell_def le_Suc_eq less_le)
    then show ?case using t by auto
  qed
next
  case False
  show ?thesis
  proof (cases j)
    case 0
    then show ?thesis unfolding next_row_cell [OF assms(1)] using False by (auto simp: row_cell_def takes_def)
  next
    case (Suc i)
    have tk: "takes ps final (stretch (pairs segs alt) h j) \<longleftrightarrow> h = i \<and> seg_match ps (segs ! i) (alt_at alt i)" if "h \<le> j" for h
    proof (cases "h = i")
      case True
      then have "stretch (pairs segs alt) h j = [pairs segs alt ! i]" using Suc assms(1) by (simp add: take_Suc hd_drop_conv_nth)
      then show ?thesis using False True Suc assms(1) by (simp add: takes_def)
    next
      case False
      then have "length (stretch (pairs segs alt) h j) \<noteq> length [x]" for x :: seg using that Suc assms(1) by auto
      then have "stretch (pairs segs alt) h j \<noteq> [x]" for x by metis
      then show ?thesis using \<open>ps \<noteq> star2\<close> False by (simp add: takes_def)
    qed
    have "(\<exists>h \<le> j. prev ! h \<and> takes ps final (stretch (pairs segs alt) h j)) \<longleftrightarrow> prev ! i \<and> seg_match ps (segs ! i) (alt_at alt i)"
      using tk Suc by (metis le_SucI order_refl)
    then show ?thesis unfolding next_row_cell [OF assms(1)] using False Suc by (simp add: row_cell_def)
  qed
qed

lemma prefix_rows_match:
  assumes "k \<le> length segs" "length prev = length segs + 1"
  shows "prefix_rows segs alt pat prev ! k \<longleftrightarrow> (\<exists>i \<le> k. prev ! i \<and> segs_match pat (stretch (pairs segs alt) i k))"
  using assms(2)
proof (induction pat arbitrary: prev)
  case Nil
  have "stretch (pairs segs alt) i k = [] \<longleftrightarrow> i = k" if "i \<le> k" for i using that assms(1) by auto
  then show ?case by auto
next
  case (Cons ps pat)
  let ?xs = "pairs segs alt"
  have IH: "prefix_rows segs alt (ps # pat) prev ! k \<longleftrightarrow> (\<exists>j \<le> k. next_row ps (pat = []) segs alt prev ! j \<and> segs_match pat (stretch ?xs j k))"
    using Cons.IH [of "next_row ps (pat = []) segs alt prev"] by simp
  have "(\<exists>j \<le> k. next_row ps (pat = []) segs alt prev ! j \<and> segs_match pat (stretch ?xs j k)) \<longleftrightarrow>
      (\<exists>i \<le> k. prev ! i \<and> (\<exists>j. i \<le> j \<and> j \<le> k \<and> takes ps (pat = []) (stretch ?xs i j) \<and> segs_match pat (stretch ?xs j k)))"
    using next_row_takes [OF _ Cons.prems] assms(1) by (meson order.trans)
  also have "\<dots> \<longleftrightarrow> (\<exists>i \<le> k. prev ! i \<and> segs_match (ps # pat) (stretch ?xs i k))"
  proof -
    have "(\<exists>j. i \<le> j \<and> j \<le> k \<and> takes ps (pat = []) (stretch ?xs i j) \<and> segs_match pat (stretch ?xs j k)) \<longleftrightarrow> segs_match (ps # pat) (stretch ?xs i k)"
      if i: "i \<le> k" for i
    proof
      assume "\<exists>j. i \<le> j \<and> j \<le> k \<and> takes ps (pat = []) (stretch ?xs i j) \<and> segs_match pat (stretch ?xs j k)"
      then obtain j where j: "i \<le> j" "j \<le> k" "takes ps (pat = []) (stretch ?xs i j)" "segs_match pat (stretch ?xs j k)" by blast
      have "stretch ?xs i k = stretch ?xs i j @ stretch ?xs j k" using gslice_append_gslice [OF j(1,2), of ?xs] by (simp add: gslice_def)
      then show "segs_match (ps # pat) (stretch ?xs i k)" unfolding segs_match_takes using j(3,4) by blast
    next
      assume "segs_match (ps # pat) (stretch ?xs i k)"
      then obtain ys zs where y: "stretch ?xs i k = ys @ zs" "takes ps (pat = []) ys" "segs_match pat zs" unfolding segs_match_takes by blast
      have l: "length ys \<le> k - i" using arg_cong [OF y(1), of length] by simp
      have "ys = stretch ?xs i (i + length ys)" using arg_cong [OF y(1), of "take (length ys)"] l by (simp add: min_absorb2)
      moreover have "zs = stretch ?xs (i + length ys) k" using arg_cong [OF y(1), of "drop (length ys)"] by (simp add: drop_take add.commute)
      ultimately show "\<exists>j. i \<le> j \<and> j \<le> k \<and> takes ps (pat = []) (stretch ?xs i j) \<and> segs_match pat (stretch ?xs j k)"
        using y(2,3) l i by (intro exI [of _ "i + length ys"]) simp
    qed
    then show ?thesis by blast
  qed
  finally show ?case unfolding IH .
qed

lemma length_prefix_rows: "length prev = length segs + 1 \<Longrightarrow> length (prefix_rows segs alt pat prev) = length segs + 1"
  by (induction pat arbitrary: prev) simp_all

lemma length_prefixRow [simp]: "length (prefixRow pat segs alt) = length segs + 1"
  unfolding prefixRow_def by (rule length_prefix_rows) simp

lemma prefixRow_match: "k \<le> length segs \<Longrightarrow> prefixRow pat segs alt ! k \<longleftrightarrow> segs_match pat (take k (pairs segs alt))"
proof -
  assume k: "k \<le> length segs"
  have "(True # replicate (length segs) False) ! i \<longleftrightarrow> i = 0" if "i \<le> k" for i using that k by (cases i) auto
  then show ?thesis unfolding prefixRow_def using prefix_rows_match [OF k, of "True # replicate (length segs) False" alt pat] by auto
qed

end
