(* ===== verification/HostEvalRef.thy ===== *)
theory HostEvalRef
  imports HostRulesRef
begin

text \<open>The reference semantics of rule lists and rule sets, and the equality of \<^verbatim>\<open>Evaluate\<close> with it.\<close>

section \<open>Patterns\<close>

definition hits :: "pattern \<Rightarrow> seg list \<Rightarrow> bool" where
  "hits p xs \<longleftrightarrow> \<not> pt_inert p \<and>
     (if pt_literal p then list_all2 (\<lambda>ps x. ps = fst x \<or> shortShaped ps \<and> snd x = Some ps) (pt_segs p) xs
      else pt_segs p = [] \<or> segs_match (pt_segs p) xs)"

definition aligned :: "bytes list \<Rightarrow> bytes list option \<Rightarrow> bool" where
  "aligned segs alt \<longleftrightarrow> (case alt of None \<Rightarrow> True | Some a \<Rightarrow> length a = length segs)"

lemma literalEqual_iff:
  assumes "length pat \<le> length segs" "case alt of None \<Rightarrow> True | Some a \<Rightarrow> length pat \<le> length a"
  shows "literalEqual pat segs alt \<longleftrightarrow> (\<forall>i < length pat. pat ! i = segs ! i \<or> shortShaped (pat ! i) \<and> alt_at alt i = Some (pat ! i))"
  using assms
proof (induction pat arbitrary: segs alt)
  case (Cons ps pat)
  obtain s segs' where s: "segs = s # segs'" using Cons.prems(1) by (cases segs) auto
  have IH: "literalEqual pat segs' (map_option tl alt) \<longleftrightarrow>
      (\<forall>i < length pat. pat ! i = segs' ! i \<or> shortShaped (pat ! i) \<and> alt_at (map_option tl alt) i = Some (pat ! i))"
    by (rule Cons.IH) (use Cons.prems s in \<open>auto split: option.splits\<close>)
  have a: "alt_at (map_option tl alt) i = alt_at alt (Suc i)" if "i < length pat" for i
    using Cons.prems(2) that by (auto simp: alt_at_def nth_tl split: option.splits)
  have h: "alt_at alt 0 = map_option hd alt" using Cons.prems(2) by (cases alt; cases "the alt") (auto simp: alt_at_def)
  have "literalEqual (ps # pat) segs alt \<longleftrightarrow> (ps = s \<or> shortShaped ps \<and> alt_at alt 0 = Some ps) \<and> literalEqual pat segs' (map_option tl alt)"
    using h by (auto simp: s split: option.splits)
  then show ?case unfolding IH using a by (auto simp: s All_less_Suc2)
qed simp

lemma length_pattern_row [simp]: "length (pattern_row p rel alt) = length rel + 1"
  by (simp add: pattern_row_def Let_def del: replicate_Suc)

lemma pattern_row_hits:
  assumes "k \<le> length rel" "aligned rel alt"
  shows "pattern_row p rel alt ! k \<longleftrightarrow> hits p (take k (pairs rel alt))"
proof (cases "\<not> pt_inert p \<and> pt_literal p")
  case False
  then show ?thesis using assms(1) prefixRow_match [OF assms(1), of "pt_segs p" alt]
    by (auto simp: pattern_row_def hits_def Let_def nth_append simp del: replicate_Suc)
next
  case True
  define n where "n = length (pt_segs p)"
  have l: "n \<le> length rel \<Longrightarrow> literalEqual (pt_segs p) (take n rel) alt \<longleftrightarrow>
      (\<forall>i < n. pt_segs p ! i = rel ! i \<or> shortShaped (pt_segs p ! i) \<and> alt_at alt i = Some (pt_segs p ! i))"
    using literalEqual_iff [of "pt_segs p" "take n rel" alt] assms(2) by (auto simp: n_def aligned_def split: option.splits)
  have h: "hits p (take k (pairs rel alt)) \<longleftrightarrow> n = k \<and> (\<forall>i < n. pt_segs p ! i = rel ! i \<or> shortShaped (pt_segs p ! i) \<and> alt_at alt i = Some (pt_segs p ! i))"
    using True assms(1) by (auto simp: hits_def list_all2_conv_all_nth n_def)
  have "pattern_row p rel alt ! k \<longleftrightarrow> n = k \<and> literalEqual (pt_segs p) (take n rel) alt"
    using True assms(1) by (auto simp: pattern_row_def Let_def n_def nth_list_update simp del: replicate_Suc)
  then show ?thesis using l h assms(1) by auto
qed

definition covers :: "pattern \<Rightarrow> seg list \<Rightarrow> bool" where
  "covers p xs \<longleftrightarrow> pt_segs p = [] \<and> \<not> pt_literal p \<or> (\<exists>k. 1 \<le> k \<and> k \<le> length xs \<and> hits p (take k xs))"

lemma set_tl: "True \<in> set (tl xs) \<longleftrightarrow> (\<exists>k. 1 \<le> k \<and> k < length xs \<and> xs ! k)"
proof -
  have "True \<in> set (tl xs) \<longleftrightarrow> (\<exists>i < length xs - 1. xs ! Suc i)" by (auto simp: in_set_conv_nth nth_tl)
  also have "\<dots> \<longleftrightarrow> (\<exists>k. 1 \<le> k \<and> k < length xs \<and> xs ! k)"
    by (metis One_nat_def Suc_le_D Suc_le_eq Suc_pred less_diff_conv less_imp_Suc_add add.commute plus_1_eq_Suc zero_less_Suc Suc_leI)
  finally show ?thesis .
qed

lemma matchSelf_covers: "aligned rel alt \<Longrightarrow> matchSelfOrAncestor p rel alt \<longleftrightarrow> covers p (pairs rel alt)"
  unfolding matchSelfOrAncestor_def covers_def set_tl using pattern_row_hits [of _ rel alt p]
  by (auto simp: less_Suc_eq_le)

section \<open>Carve-outs\<close>

definition own_names :: "pattern \<Rightarrow> seg list \<Rightarrow> seg list" where
  "own_names p xs = (if pt_neg p then map (\<lambda>x. (fst x, None)) xs else xs)"

definition decided :: "pattern list \<Rightarrow> seg list \<Rightarrow> pattern option" where
  "decided ps xs = find (\<lambda>p. pt_carvable p \<and> hits p (own_names p xs)) (rev ps)"

definition carves :: "pattern list \<Rightarrow> seg list \<Rightarrow> bool" where
  "carves ps xs \<longleftrightarrow> (case decided ps xs of None \<Rightarrow> False | Some p \<Rightarrow> \<not> pt_neg p)"

definition blocked :: "pattern list \<Rightarrow> seg list \<Rightarrow> bool" where
  "blocked ps xs \<longleftrightarrow> (\<exists>k. 1 \<le> k \<and> k < length xs \<and> carves ps (take k xs)) \<or> carves ps xs"

lemma pairs_None: "pairs rel None = map (\<lambda>x. (fst x, None)) (pairs rel alt)"
  by (simp add: pairs_def alt_at_def)

lemma own_names_take: "take k (pairs rel (if pt_neg p then None else alt)) = own_names p (take k (pairs rel alt))"
  using pairs_None [of rel alt] by (simp add: own_names_def take_map)

lemma length_carve_answers [simp]: "length (carve_answers ps rel alt) = length rel + 1"
  by (induction ps rule: rev_induct) (simp_all add: carve_answers_def set_hits_def)

lemma carve_answers_decided:
  assumes "k \<le> length rel" "aligned rel alt"
  shows "carve_answers ps rel alt ! k = (case decided ps (take k (pairs rel alt)) of None \<Rightarrow> ([], False) | Some p \<Rightarrow> (pt_raw p, \<not> pt_neg p))"
proof (induction ps rule: rev_induct)
  case Nil
  then show ?case using assms(1) by (simp add: carve_answers_def decided_def nth_append del: replicate_Suc)
next
  case (snoc p ps)
  let ?alt = "if pt_neg p then None else alt"
  have e: "carve_answers (ps @ [p]) rel alt = (if \<not> pt_carvable p then carve_answers ps rel alt else set_hits p (pattern_row p rel ?alt) (carve_answers ps rel alt))"
    by (simp add: carve_answers_def)
  have "aligned rel ?alt" using assms(2) by (simp add: aligned_def)
  then have "pattern_row p rel ?alt ! k \<longleftrightarrow> hits p (own_names p (take k (pairs rel alt)))"
    using pattern_row_hits [OF assms(1)] own_names_take [of k rel p alt] by simp
  then show ?case using snoc assms(1) unfolding e by (simp add: set_hits_def decided_def)
qed

lemma find_upt: "(\<exists>k \<in> set ks. P k) \<longleftrightarrow> find P ks \<noteq> None"
  by (auto simp: find_None_iff)

lemma carvedMatch_blocked:
  assumes "aligned rel alt"
  shows "carvedMatch l rel alt \<noteq> None \<longleftrightarrow> blocked (rl_patterns l) (pairs rel alt)"
proof -
  have c: "snd (carve_answers (rl_patterns l) rel alt ! k) \<longleftrightarrow> carves (rl_patterns l) (take k (pairs rel alt))" if "k \<le> length rel" for k
    using carve_answers_decided [OF that assms, of "rl_patterns l"] by (simp add: carves_def split: option.splits)
  have "(\<exists>k. 1 \<le> k \<and> k < length rel \<and> carves (rl_patterns l) (take k (pairs rel alt))) \<longleftrightarrow>
      find (\<lambda>k. snd (carve_answers (rl_patterns l) rel alt ! k)) [1..<length rel] \<noteq> None"
    unfolding find_upt [symmetric] using c by auto
  then show ?thesis using c [of "length rel"] by (auto simp: carvedMatch_def blocked_def Let_def split: option.splits)
qed

lemma carvedMatch_rule:
  assumes "carvedMatch l rel alt = Some r" "aligned rel alt"
  shows "\<exists>p \<in> set (rl_patterns l). \<not> pt_neg p \<and> pt_raw p = r"
proof -
  let ?A = "\<lambda>k. carve_answers (rl_patterns l) rel alt ! k"
  have "\<exists>k. k \<le> length rel \<and> snd (?A k) \<and> r = fst (?A k)"
  proof (cases "find (\<lambda>k. snd (?A k)) [1..<length rel]")
    case None
    then show ?thesis using assms(1) by (intro exI [of _ "length rel"]) (simp add: carvedMatch_def Let_def split: if_splits)
  next
    case (Some k)
    then show ?thesis using assms(1) find_SomeD [OF Some] by (intro exI [of _ k]) (simp add: carvedMatch_def Let_def)
  qed
  then obtain k where k: "k \<le> length rel" "snd (?A k)" "r = fst (?A k)" by blast
  then obtain p where "decided (rl_patterns l) (take k (pairs rel alt)) = Some p" "\<not> pt_neg p" "pt_raw p = r"
    using carve_answers_decided [OF k(1) assms(2), of "rl_patterns l"] by (auto split: option.splits)
  moreover from this(1) have "p \<in> set (rl_patterns l)" by (auto simp: decided_def dest: find_SomeD)
  ultimately show ?thesis by blast
qed

section \<open>Rule lists and rule sets\<close>

definition below_anchor :: "bytes list \<Rightarrow> seg list \<Rightarrow> seg list option" where
  "below_anchor a xs = (if map fst (take (length a) xs) = a then Some (drop (length a) xs) else None)"

definition refuses :: "ruleList \<Rightarrow> seg list \<Rightarrow> bool" where
  "refuses l xs \<longleftrightarrow> rl_toolRule l \<noteq> []
     \<or> (\<exists>p \<in> set (rl_patterns l). \<not> pt_neg p \<and> \<not> pt_carvable p \<and> (\<exists>a \<in> set (pt_anchors p). \<exists>ys. below_anchor a xs = Some ys \<and> covers p ys))
     \<or> (\<exists>a \<in> set (rl_cwdAnchors l). \<exists>ys. below_anchor a xs = Some ys \<and> blocked (rl_patterns l) ys)"

lemma map_fst_pairs [simp]: "map fst (pairs c alt) = c"
  by (simp add: pairs_def comp_def map_nth)

lemma below_anchor_under:
  assumes "aligned c alt"
  shows "under c a = Some rel \<Longrightarrow> below_anchor a (pairs c alt) = Some (pairs rel (alt_tail alt (length a))) \<and> aligned rel (alt_tail alt (length a))"
    "under c a = None \<Longrightarrow> below_anchor a (pairs c alt) = None"
proof -
  have t: "map fst (take n (pairs c alt)) = take n c" for n by (simp add: take_map [symmetric])
  show "below_anchor a (pairs c alt) = None" if "under c a = None"
    using that unfolding below_anchor_def t by (auto simp: under_def split: if_splits)
  show "below_anchor a (pairs c alt) = Some (pairs rel (alt_tail alt (length a))) \<and> aligned rel (alt_tail alt (length a))" if u: "under c a = Some rel"
  proof
    have r: "rel = drop (length a) c" "take (length a) c = a" "length a \<le> length c" using u by (auto simp: under_def split: if_splits)
    have "drop (length a) (pairs c alt) = pairs rel (alt_tail alt (length a))"
      using r(1,3) assms by (intro nth_equalityI) (auto simp: alt_at_def alt_tail_def aligned_def split: option.splits)
    then show "below_anchor a (pairs c alt) = Some (pairs rel (alt_tail alt (length a)))" unfolding below_anchor_def t using r(2) by simp
    show "aligned rel (alt_tail alt (length a))" using assms r(1) by (auto simp: aligned_def alt_tail_def split: option.splits)
  qed
qed

lemma first_hit_Some: "(\<exists>y. first_hit f xs = Some y) \<longleftrightarrow> (\<exists>x \<in> set xs. f x \<noteq> None)"
  by (induction xs) (auto split: option.splits)

lemma first_hit_None: "first_hit f xs = None \<longleftrightarrow> (\<forall>x \<in> set xs. f x = None)"
  by (induction xs) (auto split: option.splits)

lemma first_hit_SomeD: "first_hit f xs = Some y \<Longrightarrow> \<exists>x \<in> set xs. f x = Some y"
  by (induction xs) (auto split: option.splits)

lemma below_anchor_cases:
  assumes "aligned c alt"
  shows "(case under c a of None \<Rightarrow> None | Some rel \<Rightarrow> f rel (alt_tail alt (length a))) \<noteq> None \<longleftrightarrow>
    (\<exists>rel. under c a = Some rel \<and> aligned rel (alt_tail alt (length a)) \<and> below_anchor a (pairs c alt) = Some (pairs rel (alt_tail alt (length a))) \<and> f rel (alt_tail alt (length a)) \<noteq> None)"
  using below_anchor_under(1) [OF assms] by (auto split: option.splits)

lemma anchored_hit_covers:
  assumes "aligned c alt"
  shows "anchored_hit c alt p \<noteq> None \<longleftrightarrow> \<not> pt_neg p \<and> \<not> pt_carvable p \<and> (\<exists>a \<in> set (pt_anchors p). \<exists>ys. below_anchor a (pairs c alt) = Some ys \<and> covers p ys)"
proof -
  have "(case under c a of None \<Rightarrow> None | Some rel \<Rightarrow> if matchSelfOrAncestor p rel (alt_tail alt (length a)) then Some (pt_raw p) else None) \<noteq> None
      \<longleftrightarrow> (\<exists>ys. below_anchor a (pairs c alt) = Some ys \<and> covers p ys)" for a
    using below_anchor_under [OF assms, of a] matchSelf_covers by (cases "under c a") auto
  then show ?thesis unfolding anchored_hit_def by (simp add: first_hit_Some)
qed

lemma list_hit_refuses:
  assumes "aligned c alt" "rl_toolRule l = []"
  shows "list_hit l (c, alt) \<noteq> None \<longleftrightarrow> refuses l (pairs c alt)"
proof -
  have "(case under c a of None \<Rightarrow> None | Some rel \<Rightarrow> carvedMatch l rel (alt_tail alt (length a))) \<noteq> None
      \<longleftrightarrow> (\<exists>ys. below_anchor a (pairs c alt) = Some ys \<and> blocked (rl_patterns l) ys)" for a
    using below_anchor_under [OF assms(1), of a] carvedMatch_blocked by (cases "under c a") auto
  moreover have "list_hit l (c, alt) \<noteq> None \<longleftrightarrow> first_hit (anchored_hit c alt) (rl_patterns l) \<noteq> None
      \<or> first_hit (\<lambda>a. case under c a of None \<Rightarrow> None | Some rel \<Rightarrow> carvedMatch l rel (alt_tail alt (length a))) (rl_cwdAnchors l) \<noteq> None"
    by (auto simp: list_hit_def split: option.splits)
  ultimately show ?thesis unfolding refuses_def using assms(2) anchored_hit_covers [OF assms(1)] by (simp add: first_hit_Some)
qed

text \<open>The spellings of a path with their 8.3 names.\<close>

definition spelled :: "bytes list list \<Rightarrow> bytes list option list option \<Rightarrow> seg list list" where
  "spelled cands alts = map (\<lambda>(c, alt). pairs c alt) (zip cands (case alts of None \<Rightarrow> replicate (length cands) None | Some as \<Rightarrow> as))"

definition all_aligned :: "bytes list list \<Rightarrow> bytes list option list option \<Rightarrow> bool" where
  "all_aligned cands alts \<longleftrightarrow> (case alts of None \<Rightarrow> True | Some as \<Rightarrow> list_all2 aligned cands as)"

lemma aligned_zip:
  assumes "all_aligned cands alts" "(c, alt) \<in> set (zip cands (case alts of None \<Rightarrow> replicate (length cands) None | Some as \<Rightarrow> as))"
  shows "aligned c alt"
proof (cases alts)
  case None
  then have "alt = None" using assms(2) by (auto dest: set_zip_rightD)
  then show ?thesis by (simp add: aligned_def)
next
  case (Some as)
  then show ?thesis using assms by (auto simp: all_aligned_def list_all2_iff)
qed

lemma ruleList_match_refuses:
  assumes "all_aligned cands alts" "cands \<noteq> []" "case alts of None \<Rightarrow> True | Some as \<Rightarrow> as \<noteq> []"
  shows "ruleList_match l cands alts \<noteq> None \<longleftrightarrow> (\<exists>xs \<in> set (spelled cands alts). refuses l xs)"
proof (cases "rl_toolRule l = []")
  case True
  let ?z = "zip cands (case alts of None \<Rightarrow> replicate (length cands) None | Some as \<Rightarrow> as)"
  have "ruleList_match l cands alts \<noteq> None \<longleftrightarrow> (\<exists>x \<in> set ?z. list_hit l x \<noteq> None)" using True by (simp add: ruleList_match_def first_hit_Some)
  also have "\<dots> \<longleftrightarrow> (\<exists>x \<in> set ?z. refuses l (pairs (fst x) (snd x)))"
    using list_hit_refuses [OF aligned_zip [OF assms(1)] True] by (intro bex_cong refl) (metis prod.collapse)
  finally show ?thesis by (simp add: spelled_def split_beta)
next
  case False
  have "spelled cands alts \<noteq> []" using assms(2,3) by (cases cands; cases alts; cases "the alts") (auto simp: spelled_def)
  then show ?thesis using False by (cases "spelled cands alts") (auto simp: ruleList_match_def refuses_def)
qed

section \<open>Evaluation\<close>

text \<open>What a path is judged by; \<open>None\<close> when it cannot be judged.\<close>

definition judged_as :: "platform \<Rightarrow> RuleSet \<Rightarrow> bytes \<Rightarrow> seg list list option" where
  "judged_as pf rs path =
     (case spellings pf path (rs_goos rs) (rs_fold rs) (rs_resolve rs) of (cands, natives, unresolved) \<Rightarrow>
        if unresolved then None
        else if rs_shortPending rs then map_option (\<lambda>alts. spelled cands (Some alts)) (shortSpellings pf cands natives (rs_goos rs) (rs_fold rs))
        else Some (spelled cands None))"

definition verdict :: "RuleSet \<Rightarrow> seg list list \<Rightarrow> Effect" where
  "verdict rs xss =
     (if \<exists>l \<in> set (rs_deny rs). \<exists>xs \<in> set xss. refuses l xs then Deny
      else if \<exists>l \<in> set (rs_ask rs). \<exists>xs \<in> set xss. refuses l xs then Ask
      else Allow)"

lemma add_spelling_lengths:
  "length (fst st) = length (snd st) \<Longrightarrow> length (fst (add_spelling pf goos folds a st)) = length (snd (add_spelling pf goos folds a st))"
  "fst st \<noteq> [] \<Longrightarrow> fst (add_spelling pf goos folds a st) \<noteq> []"
  by (simp_all add: add_spelling_def appendDistinct_def split: prod.splits)

lemma spellings_lengths:
  assumes "spellings pf p goos folds onDisk = (cands, natives, unresolved)"
  shows "length cands = length natives" "cands \<noteq> []"
proof -
  define ok where "ok = (\<lambda>st :: bytes list list \<times> bytes list. length (fst st) = length (snd st) \<and> fst st \<noteq> [])"
  have a: "ok (add_spelling pf goos folds x st)" if "ok st" for x st using that add_spelling_lengths unfolding ok_def by blast
  have f: "ok (foldl (\<lambda>st n. case pf_resolveLinks pf n of None \<Rightarrow> st | Some r \<Rightarrow> add_spelling pf goos folds r st) st ns)" if "ok st" for st ns
    using that by (induction ns arbitrary: st) (simp_all add: a split: option.split)
  have z: "ok ([posixSegments (pf_tables pf) p goos folds], [p])" by (simp add: ok_def)
  have "ok (cands, natives)"
  proof (cases onDisk)
    case True
    let ?a = "fst (pf_osAlias pf p)"
    let ?st = "if ?a \<noteq> [] then add_spelling pf goos folds ?a ([posixSegments (pf_tables pf) p goos folds], [p]) else ([posixSegments (pf_tables pf) p goos folds], [p])"
    let ?r = "foldl (\<lambda>st n. case pf_resolveLinks pf n of None \<Rightarrow> st | Some r \<Rightarrow> add_spelling pf goos folds r st) ?st (snd ?st)"
    have "spellings pf p goos folds onDisk = (fst ?r, snd ?r, snd (pf_osAlias pf p))"
      unfolding spellings_def Let_def split_beta using True by (simp only: simp_thms if_False fst_conv snd_conv not_False_eq_True not_True_eq_False)
    then have e: "?r = (cands, natives)" using assms by simp
    have "ok ?r" by (rule f) (use z a in simp)
    then show ?thesis unfolding e .
  qed (use assms z in \<open>simp add: spellings_def\<close>)
  then show "length cands = length natives" "cands \<noteq> []" by (simp_all add: ok_def)
qed

lemma shortSpellings_aligned:
  assumes "shortSpellings pf cands natives goos folds = Some alts" "length cands = length natives"
  shows "all_aligned cands (Some alts)" "cands \<noteq> [] \<Longrightarrow> alts \<noteq> []"
proof -
  have m: "alts = map2 (short_spelling pf goos folds) cands natives" using assms(1) by (auto simp: shortSpellings_def Let_def split: if_splits)
  have "aligned c (short_spelling pf goos folds c n)" for c n
    by (auto simp: short_spelling_def aligned_def Let_def split: prod.splits option.splits if_splits)
  then show "all_aligned cands (Some alts)" using assms(2) by (simp add: all_aligned_def m list_all2_conv_all_nth)
  show "alts \<noteq> []" if "cands \<noteq> []" using that assms(2) by (cases cands; cases natives) (auto simp: m)
qed

lemma first_list_iff: "first_list e cands alts rls \<noteq> None \<longleftrightarrow> (\<exists>l \<in> set rls. ruleList_match l cands alts \<noteq> None)"
  by (simp add: first_list_def first_hit_Some)

lemma first_list_effect: "first_list e cands alts rls = Some d \<Longrightarrow> d_Effect d = e"
  unfolding first_list_def by (auto dest!: first_hit_SomeD)

lemma lists_verdict:
  assumes "all_aligned cands alts" "cands \<noteq> []" "case alts of None \<Rightarrow> True | Some as \<Rightarrow> as \<noteq> []"
  shows "d_Effect (case first_list Deny cands alts (rs_deny rs) of Some d \<Rightarrow> d
      | None \<Rightarrow> (case first_list Ask cands alts (rs_ask rs) of Some d \<Rightarrow> d | None \<Rightarrow> allowed)) = verdict rs (spelled cands alts)"
proof -
  have "first_list e cands alts rls \<noteq> None \<longleftrightarrow> (\<exists>l \<in> set rls. \<exists>xs \<in> set (spelled cands alts). refuses l xs)" for e rls
    unfolding first_list_iff using ruleList_match_refuses [OF assms] by blast
  from this [of Deny "rs_deny rs"] this [of Ask "rs_ask rs"] show ?thesis
    by (auto simp: verdict_def allowed_def dest: first_list_effect split: option.splits)
qed

lemma Evaluate_effect:
  "d_Effect (Evaluate pf rs path) = (if RuleSet_Empty rs \<or> path = [] then Allow else case judged_as pf rs path of None \<Rightarrow> Deny | Some xss \<Rightarrow> verdict rs xss)"
proof (cases "RuleSet_Empty rs \<or> path = []")
  case False
  obtain cands natives unresolved where s: "spellings pf path (rs_goos rs) (rs_fold rs) (rs_resolve rs) = (cands, natives, unresolved)"
    by (cases "spellings pf path (rs_goos rs) (rs_fold rs) (rs_resolve rs)") auto
  note len = spellings_lengths [OF s]
  show ?thesis
  proof (cases "unresolved")
    case n: False
    show ?thesis
    proof (cases "rs_shortPending rs")
      case True
      show ?thesis
      proof (cases "shortSpellings pf cands natives (rs_goos rs) (rs_fold rs)")
        case (Some alts)
        note a = shortSpellings_aligned [OF Some len(1)]
        show ?thesis using lists_verdict [OF a(1) len(2)] a(2) [OF len(2)] False n True Some s by (simp add: Evaluate_def judged_as_def Let_def)
      qed (use False n True s in \<open>simp add: Evaluate_def judged_as_def Let_def\<close>)
    next
      case np: False
      show ?thesis using lists_verdict [OF _ len(2), of None] False n np s by (simp add: Evaluate_def judged_as_def Let_def all_aligned_def)
    qed
  qed (use False s in \<open>simp add: Evaluate_def judged_as_def\<close>)
qed (simp add: Evaluate_def allowed_def)

end
