(* ===== verification/HostMono.thy ===== *)
theory HostMono
  imports HostEvalRef
begin

text \<open>Refusals are monotone: in the rules, in the 8.3 names that are known, and down the directory tree.\<close>

section \<open>The order of effects\<close>

fun effect_rank :: "Effect \<Rightarrow> nat" where
  "effect_rank Allow = 0"
| "effect_rank Ask = 1"
| "effect_rank Deny = 2"

instantiation Effect :: linorder
begin

definition less_eq_Effect :: "Effect \<Rightarrow> Effect \<Rightarrow> bool" where "less_eq_Effect a b \<longleftrightarrow> effect_rank a \<le> effect_rank b"
definition less_Effect :: "Effect \<Rightarrow> Effect \<Rightarrow> bool" where "less_Effect a b \<longleftrightarrow> effect_rank a < effect_rank b"

instance
proof
  fix a b c :: Effect
  show "a < b \<longleftrightarrow> a \<le> b \<and> \<not> b \<le> a" by (auto simp: less_eq_Effect_def less_Effect_def)
  show "a \<le> a" by (simp add: less_eq_Effect_def)
  show "a \<le> b \<Longrightarrow> b \<le> c \<Longrightarrow> a \<le> c" by (simp add: less_eq_Effect_def)
  show "a \<le> b \<Longrightarrow> b \<le> a \<Longrightarrow> a = b" by (cases a; cases b) (simp_all add: less_eq_Effect_def)
  show "a \<le> b \<or> b \<le> a" by (auto simp: less_eq_Effect_def)
qed

end

lemma Effect_bounds [simp]: "Allow \<le> e" "e \<le> Deny"
  by (cases e; simp add: less_eq_Effect_def)+

section \<open>More names\<close>

definition names_le :: "seg list \<Rightarrow> seg list \<Rightarrow> bool" where
  "names_le = list_all2 (\<lambda>x y. fst x = fst y \<and> (snd x = None \<or> snd x = snd y))"

lemma names_le_refl [simp]: "names_le xs xs"
  by (simp add: names_le_def list_all2_refl)

lemma names_le_take: "names_le xs ys \<Longrightarrow> names_le (take k xs) (take k ys)" "names_le xs ys \<Longrightarrow> names_le (drop k xs) (drop k ys)"
  by (simp_all add: names_le_def list_all2_takeI list_all2_dropI)

lemma names_le_fst: "names_le xs ys \<Longrightarrow> map fst xs = map fst ys"
  unfolding names_le_def by (induction rule: list_all2_induct) auto

lemma names_le_length: "names_le xs ys \<Longrightarrow> length xs = length ys"
  unfolding names_le_def by (rule list_all2_lengthD)

lemma seg_match_mono: "seg_match ps s a \<Longrightarrow> a = None \<or> a = b \<Longrightarrow> seg_match ps s b"
  by (auto simp: seg_match_def split: if_splits option.splits)

lemma segs_match_mono: "segs_match pat xs \<Longrightarrow> names_le xs ys \<Longrightarrow> segs_match pat ys"
proof (induction pat xs arbitrary: ys rule: segs_match.induct)
  case (3 ps pat x xs)
  obtain y ys' where y: "ys = y # ys'" "fst x = fst y" "snd x = None \<or> snd x = snd y" "names_le xs ys'"
    using "3.prems"(2) by (auto simp: names_le_def list_all2_Cons1)
  show ?case
  proof (cases "ps = star2")
    case True
    then show ?thesis using 3 y by auto
  next
    case False
    then show ?thesis using 3 y seg_match_mono [of ps "fst y" "snd x" "snd y"] by auto
  qed
qed (auto simp: names_le_def)

lemma hits_mono: "hits p xs \<Longrightarrow> names_le xs ys \<Longrightarrow> hits p ys"
proof -
  assume h: "hits p xs" and n: "names_le xs ys"
  have "list_all2 (\<lambda>ps x. ps = fst x \<or> shortShaped ps \<and> snd x = Some ps) ss ys" if "list_all2 (\<lambda>ps x. ps = fst x \<or> shortShaped ps \<and> snd x = Some ps) ss xs" for ss
    using that n unfolding names_le_def by (rule list_all2_trans [rotated]) auto
  then show "hits p ys" using h n segs_match_mono by (auto simp: hits_def split: if_splits)
qed

lemma own_names_le: "names_le xs ys \<Longrightarrow> pt_neg p \<Longrightarrow> own_names p xs = own_names p ys"
proof -
  assume "names_le xs ys" "pt_neg p"
  have "map (\<lambda>x. (fst x, None :: bytes option)) zs = map (\<lambda>b. (b, None)) (map fst zs)" for zs :: "seg list" by simp
  with \<open>pt_neg p\<close> names_le_fst [OF \<open>names_le xs ys\<close>] show ?thesis by (simp only: own_names_def if_True)
qed

lemma covers_mono:
  assumes "covers p xs" "names_le xs ys"
  shows "covers p ys"
proof -
  have "hits p (take k xs) \<Longrightarrow> hits p (take k ys)" for k by (rule hits_mono [OF _ names_le_take(1) [OF assms(2)]])
  then show ?thesis using assms(1) names_le_length [OF assms(2)] unfolding covers_def by auto
qed

section \<open>More rules\<close>

text \<open>A list of patterns with refusing patterns added anywhere.\<close>

inductive widens :: "pattern list \<Rightarrow> pattern list \<Rightarrow> bool" where
  widens_Nil: "widens [] []"
| widens_keep: "widens ps qs \<Longrightarrow> widens (p # ps) (p # qs)"
| widens_add: "widens ps qs \<Longrightarrow> \<not> pt_neg q \<Longrightarrow> widens ps (q # qs)"

lemma widens_subset: "widens ps qs \<Longrightarrow> set ps \<subseteq> set qs"
  by (induction rule: widens.induct) auto

lemma widens_refl [simp]: "widens ps ps"
  by (induction ps) (auto intro: widens.intros)

lemma decided_Cons:
  "decided (p # ps) xs = (case decided ps xs of Some q \<Rightarrow> Some q | None \<Rightarrow> if pt_carvable p \<and> hits p (own_names p xs) then Some p else None)"
proof -
  have "find P (ys @ [y]) = (case find P ys of Some z \<Rightarrow> Some z | None \<Rightarrow> if P y then Some y else None)" for P and y :: pattern and ys
    by (induction ys) auto
  then show ?thesis unfolding decided_def by simp
qed

abbreviation (input) reopened :: "pattern list \<Rightarrow> seg list \<Rightarrow> bool" where
  "reopened ps xs \<equiv> \<exists>q. decided ps xs = Some q \<and> pt_neg q"

lemma decided_widen:
  assumes "widens ps qs" "names_le xs ys"
  shows "(reopened qs ys \<longrightarrow> reopened ps xs) \<and> (decided ps xs \<noteq> None \<longrightarrow> decided qs ys \<noteq> None)"
  using assms(1)
proof (induction rule: widens.induct)
  case (widens_keep ps qs p)
  have h: "pt_carvable p \<and> hits p (own_names p xs) \<Longrightarrow> pt_carvable p \<and> hits p (own_names p ys)"
    using hits_mono [OF _ assms(2)] own_names_le [OF assms(2), of p] by (cases "pt_neg p") (auto simp: own_names_def)
  have n: "pt_neg p \<Longrightarrow> own_names p xs = own_names p ys" by (rule own_names_le [OF assms(2)])
  show ?case using widens_keep.IH h n unfolding decided_Cons by (auto split: option.splits)
next
  case (widens_add ps qs q)
  then show ?case unfolding decided_Cons by (auto split: option.splits)
qed (simp add: decided_def)

lemma carves_mono:
  assumes "widens ps qs" "names_le xs ys" "carves ps xs"
  shows "carves qs ys"
  using decided_widen [OF assms(1,2)] assms(3) by (auto simp: carves_def split: option.splits)

lemma blocked_mono:
  assumes "widens ps qs" "names_le xs ys" "blocked ps xs"
  shows "blocked qs ys"
proof -
  have "carves ps (take k xs) \<Longrightarrow> carves qs (take k ys)" for k by (rule carves_mono [OF assms(1) names_le_take(1) [OF assms(2)]])
  then show ?thesis using assms(3) carves_mono [OF assms(1,2)] names_le_length [OF assms(2)] unfolding blocked_def by auto
qed

lemma below_anchor_mono: "names_le xs ys \<Longrightarrow> below_anchor a xs = Some zs \<Longrightarrow> \<exists>ws. below_anchor a ys = Some ws \<and> names_le zs ws"
  using names_le_take [of xs ys "length a"] names_le_fst [of "take (length a) xs" "take (length a) ys"] by (auto simp: below_anchor_def split: if_splits)

definition tightens_list :: "ruleList \<Rightarrow> ruleList \<Rightarrow> bool" where
  "tightens_list l m \<longleftrightarrow> (rl_toolRule l \<noteq> [] \<longrightarrow> rl_toolRule m \<noteq> []) \<and> widens (rl_patterns l) (rl_patterns m) \<and> set (rl_cwdAnchors l) \<subseteq> set (rl_cwdAnchors m)"

lemma refuses_mono:
  assumes t: "tightens_list l m" and n: "names_le xs ys" and r: "refuses l xs"
  shows "refuses m ys"
proof -
  have w: "widens (rl_patterns l) (rl_patterns m)" using t by (simp add: tightens_list_def)
  consider (tool) "rl_toolRule l \<noteq> []"
    | (anchored) p a zs where "p \<in> set (rl_patterns l)" "\<not> pt_neg p" "\<not> pt_carvable p" "a \<in> set (pt_anchors p)" "below_anchor a xs = Some zs" "covers p zs"
    | (carved) a zs where "a \<in> set (rl_cwdAnchors l)" "below_anchor a xs = Some zs" "blocked (rl_patterns l) zs"
    using r unfolding refuses_def by blast
  then show ?thesis
  proof cases
    case tool
    then show ?thesis using t by (simp add: tightens_list_def refuses_def)
  next
    case anchored
    obtain ws where "below_anchor a ys = Some ws" "names_le zs ws" using below_anchor_mono [OF n anchored(5)] by blast
    with anchored covers_mono widens_subset [OF w] show ?thesis unfolding refuses_def by blast
  next
    case carved
    obtain ws where "below_anchor a ys = Some ws" "names_le zs ws" using below_anchor_mono [OF n carved(2)] by blast
    with carved blocked_mono [OF w] t show ?thesis unfolding refuses_def tightens_list_def by blast
  qed
qed

definition tightens :: "RuleSet \<Rightarrow> RuleSet \<Rightarrow> bool" where
  "tightens rs rs' \<longleftrightarrow> rs_goos rs' = rs_goos rs \<and> rs_fold rs' = rs_fold rs \<and> rs_resolve rs' = rs_resolve rs \<and> (rs_shortPending rs \<longrightarrow> rs_shortPending rs')
     \<and> (\<forall>l \<in> set (rs_deny rs). \<exists>m \<in> set (rs_deny rs'). tightens_list l m)
     \<and> (\<forall>l \<in> set (rs_ask rs). \<exists>m \<in> set (rs_deny rs') \<union> set (rs_ask rs'). tightens_list l m)"

lemma verdict_mono:
  assumes t: "tightens rs rs'" and xs: "\<And>xs. xs \<in> set xss \<Longrightarrow> \<exists>ys \<in> set yss. names_le xs ys"
  shows "verdict rs xss \<le> verdict rs' yss"
proof -
  have r: "\<exists>ys \<in> set yss. refuses m ys" if "tightens_list l m" "xs \<in> set xss" "refuses l xs" for l m xs
    using refuses_mono that xs by blast
  have d: "\<exists>m \<in> set (rs_deny rs'). \<exists>ys \<in> set yss. refuses m ys" if "l \<in> set (rs_deny rs)" "xs \<in> set xss" "refuses l xs" for l xs
    using that t r unfolding tightens_def by blast
  have a: "\<exists>m \<in> set (rs_deny rs') \<union> set (rs_ask rs'). \<exists>ys \<in> set yss. refuses m ys" if "l \<in> set (rs_ask rs)" "xs \<in> set xss" "refuses l xs" for l xs
    using that t r unfolding tightens_def by blast
  show ?thesis
  proof (cases "\<exists>l \<in> set (rs_deny rs). \<exists>xs \<in> set xss. refuses l xs")
    case True
    then have "verdict rs' yss = Deny" using d unfolding verdict_def by meson
    then show ?thesis by simp
  next
    case False
    show ?thesis
    proof (cases "\<exists>l \<in> set (rs_ask rs). \<exists>xs \<in> set xss. refuses l xs")
      case True
      then have "\<exists>m \<in> set (rs_deny rs') \<union> set (rs_ask rs'). \<exists>ys \<in> set yss. refuses m ys" using a by blast
      then have "Ask \<le> verdict rs' yss" by (auto simp: verdict_def less_eq_Effect_def)
      moreover have "verdict rs xss = Ask" using True False by (simp add: verdict_def)
      ultimately show ?thesis by simp
    qed (use False in \<open>simp add: verdict_def\<close>)
  qed
qed

lemma spelled_le: "length alts = length cands \<Longrightarrow> xs \<in> set (spelled cands None) \<Longrightarrow> \<exists>ys \<in> set (spelled cands (Some alts)). names_le xs ys"
proof -
  assume l: "length alts = length cands" and x: "xs \<in> set (spelled cands None)"
  then obtain i where i: "i < length cands" "xs = pairs (cands ! i) None" by (auto simp: spelled_def in_set_conv_nth)
  have "pairs (cands ! i) (alts ! i) \<in> set (spelled cands (Some alts))" using i(1) l by (auto simp: spelled_def set_conv_nth intro!: exI [of _ i])
  moreover have "names_le xs (pairs (cands ! i) (alts ! i))" unfolding i(2) names_le_def by (simp add: list_all2_conv_all_nth alt_at_def)
  ultimately show ?thesis by blast
qed

lemma judged_le:
  assumes t: "tightens rs rs'" and j: "judged_as pf rs' path = Some yss"
  shows "\<exists>xss. judged_as pf rs path = Some xss \<and> (\<forall>xs \<in> set xss. \<exists>ys \<in> set yss. names_le xs ys)"
proof -
  obtain cands natives unresolved where s: "spellings pf path (rs_goos rs) (rs_fold rs) (rs_resolve rs) = (cands, natives, unresolved)"
    by (cases "spellings pf path (rs_goos rs) (rs_fold rs) (rs_resolve rs)") auto
  have e: "rs_goos rs' = rs_goos rs" "rs_fold rs' = rs_fold rs" "rs_resolve rs' = rs_resolve rs" "rs_shortPending rs \<Longrightarrow> rs_shortPending rs'"
    using t by (auto simp: tightens_def)
  have u: "\<not> unresolved" using j s e by (auto simp: judged_as_def)
  show ?thesis
  proof (cases "rs_shortPending rs = rs_shortPending rs'")
    case True
    have "judged_as pf rs path = Some yss" using j unfolding judged_as_def e(1,2,3) True .
    then show ?thesis using names_le_refl by blast
  next
    case False
    then have "\<not> rs_shortPending rs" "rs_shortPending rs'" using e(4) by auto
    then obtain alts where a: "shortSpellings pf cands natives (rs_goos rs) (rs_fold rs) = Some alts" "yss = spelled cands (Some alts)"
      using j s u by (auto simp: judged_as_def e)
    have "length alts = length cands" using shortSpellings_aligned(1) [OF a(1) spellings_lengths(1) [OF s]] by (auto simp: all_aligned_def dest: list_all2_lengthD)
    then show ?thesis using spelled_le a(2) \<open>\<not> rs_shortPending rs\<close> s u by (intro exI [of _ "spelled cands None"]) (auto simp: judged_as_def)
  qed
qed

lemma Evaluate_mono:
  assumes "tightens rs rs'"
  shows "d_Effect (Evaluate pf rs path) \<le> d_Effect (Evaluate pf rs' path)"
proof (cases "RuleSet_Empty rs \<or> path = []")
  case False
  have "\<not> RuleSet_Empty rs'" using False assms by (auto simp: RuleSet_Empty_def tightens_def)
  then show ?thesis using False judged_le [OF assms, of pf path] verdict_mono [OF assms] unfolding Evaluate_effect
    by (cases "judged_as pf rs' path") auto
qed (simp add: Evaluate_effect)

section \<open>Down the tree\<close>

lemma covers_append: "covers p xs \<Longrightarrow> covers p (xs @ ys)"
proof -
  assume c: "covers p xs"
  show ?thesis
  proof (cases "pt_segs p = [] \<and> \<not> pt_literal p")
    case False
    then obtain k where "1 \<le> k" "k \<le> length xs" "hits p (take k xs)" using c by (auto simp: covers_def)
    then show ?thesis unfolding covers_def by (intro disjI2 exI [of _ k]) simp
  qed (simp add: covers_def)
qed

lemma blocked_append:
  assumes "blocked ps xs" "xs \<noteq> []"
  shows "blocked ps (xs @ ys)"
proof (cases "ys = []")
  case False
  obtain k where k: "1 \<le> k" "k \<le> length xs" "carves ps (take k xs)"
  proof (cases "carves ps xs")
    case True
    then show ?thesis using that [of "length xs"] assms(2) by (cases xs) auto
  next
    case False
    then show ?thesis using assms(1) that unfolding blocked_def by auto
  qed
  have "k < length (xs @ ys)" "carves ps (take k (xs @ ys))" using k False by (cases ys; simp)+
  then show ?thesis using k(1) unfolding blocked_def by blast
qed (use assms in simp)

lemma below_anchor_append: "below_anchor a xs = Some zs \<Longrightarrow> below_anchor a (xs @ ys) = Some (zs @ ys)"
proof -
  assume b: "below_anchor a xs = Some zs"
  then have m: "map fst (take (length a) xs) = a" "zs = drop (length a) xs" by (auto simp: below_anchor_def split: if_splits)
  have "length a \<le> length xs" using arg_cong [OF m(1), of length] by simp
  then show ?thesis using m by (simp add: below_anchor_def)
qed

lemma refuses_below:
  assumes "refuses l xs" "map fst xs \<notin> set (rl_cwdAnchors l)"
  shows "refuses l (xs @ ys)"
proof -
  have "zs \<noteq> []" if "a \<in> set (rl_cwdAnchors l)" "below_anchor a xs = Some zs" for a zs
  proof
    assume "zs = []"
    then have "map fst xs = a" using that(2) by (auto simp: below_anchor_def split: if_splits)
    then show False using that(1) assms(2) by simp
  qed
  then show ?thesis using assms(1) covers_append blocked_append below_anchor_append unfolding refuses_def by blast
qed

lemma Evaluate_below:
  assumes s: "spellings pf path (rs_goos rs) (rs_fold rs) (rs_resolve rs) = (cands, natives, False)"
    "spellings pf path' (rs_goos rs) (rs_fold rs) (rs_resolve rs) = (map (\<lambda>c. c @ d) cands, natives', False)"
    and n: "\<not> rs_shortPending rs" "path' \<noteq> []" and a: "\<And>l. l \<in> set (rs_deny rs) \<union> set (rs_ask rs) \<Longrightarrow> set (rl_cwdAnchors l) \<inter> set cands = {}"
  shows "d_Effect (Evaluate pf rs path) \<le> d_Effect (Evaluate pf rs path')"
proof (cases "RuleSet_Empty rs \<or> path = []")
  case False
  have sp: "spelled cands None = map (\<lambda>c. pairs c None) cands" for cands unfolding spelled_def by (induction cands) auto
  have ap: "pairs (c @ d) None = pairs c None @ pairs d None" for c
    by (rule nth_equalityI) (auto simp: nth_append alt_at_def)
  have r: "refuses l xs \<Longrightarrow> xs \<in> set (spelled cands None) \<Longrightarrow> \<exists>ys \<in> set (spelled (map (\<lambda>c. c @ d) cands) None). refuses l ys"
    if "l \<in> set (rs_deny rs) \<union> set (rs_ask rs)" for l xs
  proof -
    assume x: "refuses l xs" "xs \<in> set (spelled cands None)"
    then obtain c where c: "c \<in> set cands" "xs = pairs c None" by (auto simp: sp)
    have "refuses l (pairs c None @ pairs d None)" using refuses_below [of l xs "pairs d None"] a [OF that] x(1) c by auto
    then show ?thesis using c(1) by (auto simp: sp ap)
  qed
  have "verdict rs (spelled cands None) \<le> verdict rs (spelled (map (\<lambda>c. c @ d) cands) None)"
  proof (cases "\<exists>l \<in> set (rs_deny rs). \<exists>xs \<in> set (spelled cands None). refuses l xs")
    case True
    then have "verdict rs (spelled (map (\<lambda>c. c @ d) cands) None) = Deny" using r unfolding verdict_def by (meson UnI1)
    then show ?thesis by simp
  next
    case F: False
    show ?thesis
    proof (cases "\<exists>l \<in> set (rs_ask rs). \<exists>xs \<in> set (spelled cands None). refuses l xs")
      case True
      then have "\<exists>l \<in> set (rs_ask rs). \<exists>ys \<in> set (spelled (map (\<lambda>c. c @ d) cands) None). refuses l ys" using r by (meson UnI2)
      then have "Ask \<le> verdict rs (spelled (map (\<lambda>c. c @ d) cands) None)" by (simp add: verdict_def less_eq_Effect_def)
      moreover have "verdict rs (spelled cands None) = Ask" using F True by (simp add: verdict_def)
      ultimately show ?thesis by simp
    qed (use F in \<open>simp add: verdict_def\<close>)
  qed
  then show ?thesis using False n s by (simp add: Evaluate_effect judged_as_def)
qed (simp add: Evaluate_effect)

end
