(* ===== verification/HostSnapshot.thy ===== *)
theory HostSnapshot
  imports HostPolicy
begin

text \<open>
  Where the rules come from (\<^verbatim>\<open>internal/hostperm/sources.go\<close>, \<^verbatim>\<open>layers.go\<close> and the cache of \<^verbatim>\<open>policy.go\<close>), on a POSIX
  build: the settings sources in their order, their signatures, reading and parsing them, and the
  snapshot that is kept while no signature changes.  A \<open>world\<close> is what the operating system answers
  during one call.  The JSON decoder is an argument; it yields the members of an object in the order
  of the text.
\<close>

section \<open>The world of one call\<close>

datatype json = JNull | JBool bool | JNum bytes | JStr bytes | JArr "json list" | JObj "(bytes \<times> json) list"

datatype file_stat = StatMissing | StatError bytes | StatSpecial | StatRegular int int
datatype dir_answer = DirMissing | DirError bytes | DirEntries "bytes list"

record RegistryValue =
  rv_Hive :: bytes
  rv_Key :: bytes
  rv_Name :: bytes

record world =
  wd_pf :: platform
  wd_now :: int
  wd_stat :: "bytes \<Rightarrow> file_stat"
  wd_content :: "bytes \<Rightarrow> (bytes, bytes) result"
  wd_readDir :: "bytes \<Rightarrow> dir_answer"
  wd_userHome :: bytes
  wd_json :: "bytes \<Rightarrow> json option"

record signature_of =
  sg_id :: bytes
  sg_present :: bool
  sg_size :: int
  sg_mod :: int
  sg_errText :: bytes

text \<open>Errors: a failed read is transient, the others follow from the content.\<close>

datatype perm_error = NoProjectRoot | HomeUnknown | TransientError bytes bytes | ParseError bytes | EmptyPath | TextError bytes

section \<open>Sources\<close>

record ManagedSources =
  ms_Dirs :: "bytes list"
  ms_Opaque :: "bytes list"
  ms_Registry :: "RegistryValue list"

record Options =
  op_ProjectRoot :: bytes
  op_Home :: bytes
  op_Getenv :: "bytes \<Rightarrow> bytes"
  op_Managed :: "ManagedSources option"

record source =
  so_id :: bytes
  so_file :: bytes
  so_reg :: "RegistryValue option"
  so_opaque :: bool
  so_nested :: bool
  so_settingsDirs :: "bytes list"

definition file_source :: "bytes \<Rightarrow> bytes list \<Rightarrow> source" where
  "file_source f dirs = \<lparr>so_id = f, so_file = f, so_reg = None, so_opaque = False, so_nested = False, so_settingsDirs = dirs\<rparr>"

definition RegistryValue_id :: "RegistryValue \<Rightarrow> bytes" where
  "RegistryValue_id r = rv_Hive r @ [0x5C] @ rv_Key r @ [0x5C] @ rv_Name r"

definition policyKey :: bytes where
  "policyKey = lit ''SOFTWARE'' @ [0x5C] @ lit ''Policies'' @ [0x5C] @ lit ''ClaudeCode''"

definition DefaultManaged :: "platform \<Rightarrow> bytes \<Rightarrow> (bytes \<Rightarrow> bytes) \<Rightarrow> ManagedSources" where
  "DefaultManaged pf goos getenv =
     (if goos = windows then
        let d0 = lit ''C:'' @ [0x5C] @ lit ''Program Files'' @ [0x5C] @ lit ''ClaudeCode''; files = getenv (lit ''ProgramFiles''); d = JoinPath [files, lit ''ClaudeCode'']
        in \<lparr>ms_Dirs = d0 # (if files \<noteq> [] \<and> \<not> EqualFold pf d d0 then [d] else []), ms_Opaque = [],
            ms_Registry = map (\<lambda>h. \<lparr>rv_Hive = h, rv_Key = policyKey, rv_Name = lit ''Settings''\<rparr>) [lit ''HKLM'', lit ''HKCU'']\<rparr>
      else if goos = lit ''darwin'' then
        let prefs = lit ''/Library/Managed Preferences''; plist = lit ''com.anthropic.claudecode.plist''; u = getenv (lit ''USER'')
        in \<lparr>ms_Dirs = [lit ''/Library/Application Support/ClaudeCode''],
            ms_Opaque = (prefs @ [slash] @ plist) # (if u \<noteq> [] \<and> \<not> ContainsAny u [slash, 0x5C] then [prefs @ [slash] @ u @ [slash] @ plist] else []),
            ms_Registry = []\<rparr>
      else \<lparr>ms_Dirs = [lit ''/etc/claude-code''], ms_Opaque = [], ms_Registry = []\<rparr>)"

abbreviation (input) maxDropIns :: int where "maxDropIns \<equiv> 256"
abbreviation (input) maxSettingsBytes :: int where "maxSettingsBytes \<equiv> 8388608"
abbreviation (input) maxReadPatterns :: int where "maxReadPatterns \<equiv> 5000"
abbreviation (input) maxReadSegments :: int where "maxReadSegments \<equiv> 80000"
abbreviation (input) maxGitFileBytes :: int where "maxGitFileBytes \<equiv> 65536"
abbreviation (input) racyWindow :: int where "racyWindow \<equiv> 2000000000"

definition listDropIns :: "world \<Rightarrow> bytes \<Rightarrow> (perm_error, bytes list) result" where
  "listDropIns w dir =
     (case wd_readDir w dir of
        DirMissing \<Rightarrow> Inr []
      | DirError e \<Rightarrow> Inl (TransientError dir e)
      | DirEntries names \<Rightarrow>
          let out = map (\<lambda>n. JoinPath [dir, n]) (filter (\<lambda>n. \<not> (HasPrefix n (lit ''.'') \<or> \<not> HasSuffix n (lit ''.json''))) names)
          in if int (length out) > maxDropIns then Inl (ParseError dir) else Inr (sort out))"

definition home_dir :: "world \<Rightarrow> Options \<Rightarrow> bytes" where
  "home_dir w opts = (if op_Home opts \<noteq> [] then op_Home opts else wd_userHome w)"

definition configDir :: "Options \<Rightarrow> bytes \<Rightarrow> bytes" where
  "configDir opts home =
     (let d = op_Getenv opts (lit ''CLAUDE_CONFIG_DIR'') in
      if d \<noteq> [] then (if d = lit ''~'' \<or> HasPrefix d (lit ''~/'') \<or> HasPrefix d [0x7E, 0x5C] then JoinPath [home, drop 1 d] else d)
      else JoinPath [home, lit ''.claude''])"

definition readSmall :: "world \<Rightarrow> bytes \<Rightarrow> bytes option" where
  "readSmall w p =
     (case wd_stat w p of
        StatRegular sz _ \<Rightarrow> if sz > maxGitFileBytes then None else (case wd_content w p of Inl _ \<Rightarrow> None | Inr b \<Rightarrow> Some b)
      | _ \<Rightarrow> None)"

definition mainCheckout :: "world \<Rightarrow> bytes \<Rightarrow> bytes" where
  "mainCheckout w root =
     (case readSmall w (JoinPath [root, lit ''.git'']) of
        None \<Rightarrow> []
      | Some b \<Rightarrow>
          let line = TrimSpace b in
          if \<not> HasPrefix line (lit ''gitdir:'') then []
          else let gitdir = TrimSpace (TrimPrefix line (lit ''gitdir:''));
                   gitdir = (if \<not> IsAbs gitdir then JoinPath [root, gitdir] else gitdir)
               in (case readSmall w (JoinPath [gitdir, lit ''commondir'']) of
                     None \<Rightarrow> []
                   | Some cb \<Rightarrow>
                       let common = TrimSpace cb;
                           common = (if \<not> IsAbs common then JoinPath [gitdir, common] else common);
                           common = Clean common
                       in if Base common \<noteq> lit ''.git'' then [] else Dir common))"

definition samePath :: "world \<Rightarrow> bytes \<Rightarrow> bytes \<Rightarrow> bool" where
  "samePath w a b =
     (let a = Clean a; b = Clean b in
      if pf_GOOS (wd_pf w) = windows \<or> pf_GOOS (wd_pf w) = lit ''darwin'' then EqualFold (wd_pf w) a b else a = b)"

definition localSettingsDirs :: "world \<Rightarrow> bytes \<Rightarrow> bytes list" where
  "localSettingsDirs w root =
     (let main = mainCheckout w root in root # (if main \<noteq> [] \<and> \<not> samePath w main root then [main] else []))"

fun dir_sources :: "world \<Rightarrow> bytes \<Rightarrow> bytes list \<Rightarrow> (perm_error, source list) result" where
  "dir_sources w root [] = Inr []"
| "dir_sources w root (d # ds) =
     (case listDropIns w (JoinPath [d, lit ''managed-settings.d'']) of
        Inl e \<Rightarrow> Inl e
      | Inr dropIns \<Rightarrow>
          (case dir_sources w root ds of
             Inl e \<Rightarrow> Inl e
           | Inr rest \<Rightarrow> Inr (file_source (JoinPath [d, lit ''managed-settings.json'']) [root, d]
                              # map (\<lambda>f. file_source f [root, d]) dropIns @ rest)))"

record Policy =
  po_o :: Options
  po_goos :: bytes
  po_fold :: bool
  po_sigs :: "signature_of list"
  po_rules :: "(perm_error, RuleSet) result"
  po_racy :: bool
  po_loads :: nat

definition NewPolicy :: "platform \<Rightarrow> Options \<Rightarrow> bytes \<Rightarrow> Policy" where
  "NewPolicy pf opts override =
     (let goos = (if override = [] then pf_GOOS pf else override)
      in \<lparr>po_o = opts, po_goos = goos, po_fold = (goos = windows \<or> goos = lit ''darwin''), po_sigs = [], po_rules = Inl EmptyPath, po_racy = False, po_loads = 0\<rparr>)"

definition managed_of :: "world \<Rightarrow> Policy \<Rightarrow> ManagedSources" where
  "managed_of w p = (case op_Managed (po_o p) of None \<Rightarrow> DefaultManaged (wd_pf w) (po_goos p) (op_Getenv (po_o p)) | Some m \<Rightarrow> m)"

definition sources :: "world \<Rightarrow> Policy \<Rightarrow> (perm_error, source list) result" where
  "sources w p =
     (let root = op_ProjectRoot (po_o p) in
      if root = [] then Inl NoProjectRoot
      else let home = home_dir w (po_o p) in
      if home = [] then Inl HomeUnknown
      else let cfgDir = configDir (po_o p) home; managed = managed_of w p in
      case dir_sources w root (ms_Dirs managed) of
        Inl e \<Rightarrow> Inl e
      | Inr dirs \<Rightarrow> Inr
          (map (\<lambda>r. \<lparr>so_id = RegistryValue_id r, so_file = [], so_reg = Some r, so_opaque = False, so_nested = False, so_settingsDirs = [root]\<rparr>) (ms_Registry managed)
           @ dirs
           @ map (\<lambda>f. (file_source f [])\<lparr>so_opaque := True\<rparr>) (ms_Opaque managed)
           @ [(file_source (JoinPath [cfgDir, lit ''remote-settings.json'']) [root, cfgDir])\<lparr>so_nested := True\<rparr>,
              file_source (JoinPath [cfgDir, lit ''settings.json'']) [cfgDir],
              file_source (JoinPath [root, lit ''.claude'', lit ''settings.json'']) [root]]
           @ map (\<lambda>d. file_source (JoinPath [d, lit ''.claude'', lit ''settings.local.json'']) [root]) (localSettingsDirs w root)))"

section \<open>Reading a source\<close>

definition absent :: "bytes \<Rightarrow> signature_of" where
  "absent i = \<lparr>sg_id = i, sg_present = False, sg_size = 0, sg_mod = 0, sg_errText = []\<rparr>"

definition errNoRegistry :: bytes where "errNoRegistry = lit ''this platform has no Windows registry''"

definition signRegistry :: "RegistryValue \<Rightarrow> signature_of" where
  "signRegistry r = (absent (RegistryValue_id r))\<lparr>sg_errText := errNoRegistry\<rparr>"

definition sign :: "world \<Rightarrow> source \<Rightarrow> signature_of" where
  "sign w s =
     (case so_reg s of
        Some r \<Rightarrow> signRegistry r
      | None \<Rightarrow>
          (case wd_stat w (so_file s) of
             StatMissing \<Rightarrow> absent (so_id s)
           | StatError e \<Rightarrow> (absent (so_id s))\<lparr>sg_errText := e\<rparr>
           | StatSpecial \<Rightarrow> (absent (so_id s))\<lparr>sg_errText := lit ''not a regular file''\<rparr>
           | StatRegular sz mtime \<Rightarrow> (absent (so_id s))\<lparr>sg_present := True, sg_size := sz, sg_mod := mtime\<rparr>))"

definition read_source :: "world \<Rightarrow> source \<Rightarrow> (perm_error, bytes) result" where
  "read_source w s =
     (case so_reg s of
        Some r \<Rightarrow> Inl (TransientError (so_id s) errNoRegistry)
      | None \<Rightarrow>
          (case wd_content w (so_file s) of
             Inl e \<Rightarrow> Inl (TransientError (so_id s) e)
           | Inr b \<Rightarrow> if int (length b) > maxSettingsBytes then Inl (ParseError (so_id s)) else Inr b))"

section \<open>Parsing settings\<close>

definition utf8BOM :: bytes where "utf8BOM = [0xEF, 0xBB, 0xBF]"

definition jget :: "bytes \<Rightarrow> (bytes \<times> json) list \<Rightarrow> json option" where
  "jget k kvs = map_of (rev kvs) k"

fun parse_entries :: "(bytes \<Rightarrow> bytes) \<Rightarrow> bytes \<Rightarrow> bool \<Rightarrow> bytes \<Rightarrow> json list \<Rightarrow> ruleList \<Rightarrow> (perm_error, ruleList) result" where
  "parse_entries tables goos folds sid [] l = Inr l"
| "parse_entries tables goos folds sid (e # es) l =
     (case (case e of JStr s \<Rightarrow> Some s | JNull \<Rightarrow> Some [] | _ \<Rightarrow> None) of
        None \<Rightarrow> Inl (ParseError sid)
      | Some entry \<Rightarrow>
          (case parseRule tables entry goos folds of
             None \<Rightarrow> Inl (ParseError sid)
           | Some r \<Rightarrow> parse_entries tables goos folds sid es
               (if \<not> pr_relevant r then l
                else if pr_toolLevel r then (if rl_toolRule l = [] then l\<lparr>rl_toolRule := entry\<rparr> else l)
                else l\<lparr>rl_patterns := rl_patterns l @ pr_patterns r\<rparr>)))"

definition parseList :: "(bytes \<Rightarrow> bytes) \<Rightarrow> json \<Rightarrow> Effect \<Rightarrow> source \<Rightarrow> bytes \<Rightarrow> bool \<Rightarrow> (perm_error, ruleList) result" where
  "parseList tables raw effect s goos folds =
     (case (case raw of JArr es \<Rightarrow> Some es | JNull \<Rightarrow> Some [] | _ \<Rightarrow> None) of
        None \<Rightarrow> Inl (ParseError (so_id s))
      | Some entries \<Rightarrow> parse_entries tables goos folds (so_id s) entries
          \<lparr>rl_effect = effect, rl_source = so_id s, rl_toolRule = [], rl_patterns = [], rl_settingsDirs = so_settingsDirs s, rl_cwdAnchors = []\<rparr>)"

definition permissions :: bytes where "permissions = lit ''permissions''"

text \<open>The walk of \<^verbatim>\<open>collectPermissions\<close>: the members of an object in the order of their keys, the last of equal ones.\<close>

fun collect_walk :: "json \<Rightarrow> json list" where
  "collect_walk (JObj kvs) =
     concat (map (\<lambda>(k, v, found). if k = permissions \<and> (case v of JObj _ \<Rightarrow> True | _ \<Rightarrow> False) then [v] else found)
       (foldl (\<lambda>m (k, x). mput k x m) [] (map (\<lambda>(k, v). (k, v, collect_walk v)) kvs)))"
| "collect_walk (JArr es) = concat (map collect_walk es)"
| "collect_walk v = []"

fun parse_blocks :: "(bytes \<Rightarrow> bytes) \<Rightarrow> source \<Rightarrow> bytes \<Rightarrow> bool \<Rightarrow> (bytes \<times> Effect) list \<Rightarrow> (bytes \<times> json) list \<Rightarrow> (perm_error, ruleList list) result" where
  "parse_blocks tables s goos folds [] perms = Inr []"
| "parse_blocks tables s goos folds ((key, effect) # ks) perms =
     (case (case jget key perms of None \<Rightarrow> Inr [] | Some raw \<Rightarrow>
              (case parseList tables raw effect s goos folds of
                 Inl e \<Rightarrow> Inl e
               | Inr l \<Rightarrow> Inr (if rl_toolRule l \<noteq> [] \<or> length (rl_patterns l) > 0 then [l] else []))) of
        Inl e \<Rightarrow> Inl e
      | Inr here \<Rightarrow> (case parse_blocks tables s goos folds ks perms of Inl e \<Rightarrow> Inl e | Inr rest \<Rightarrow> Inr (here @ rest)))"

fun parse_all :: "(bytes \<Rightarrow> bytes) \<Rightarrow> source \<Rightarrow> bytes \<Rightarrow> bool \<Rightarrow> json list \<Rightarrow> (perm_error, ruleList list) result" where
  "parse_all tables s goos folds [] = Inr []"
| "parse_all tables s goos folds (raw # raws) =
     (case raw of
        JObj perms \<Rightarrow>
          (case parse_blocks tables s goos folds [(lit ''deny'', Deny), (lit ''ask'', Ask)] perms of
             Inl e \<Rightarrow> Inl e
           | Inr here \<Rightarrow> (case parse_all tables s goos folds raws of Inl e \<Rightarrow> Inl e | Inr rest \<Rightarrow> Inr (here @ rest)))
      | _ \<Rightarrow> Inl (ParseError (so_id s)))"

definition parseSettings :: "(bytes \<Rightarrow> bytes) \<Rightarrow> (bytes \<Rightarrow> json option) \<Rightarrow> bytes \<Rightarrow> source \<Rightarrow> bytes \<Rightarrow> bool \<Rightarrow> (perm_error, ruleList list) result" where
  "parseSettings tables decode bs s goos folds =
     (case decode (TrimPrefix bs utf8BOM) of
        Some (JObj doc) \<Rightarrow>
          parse_all tables s goos folds
            (if so_nested s then collect_walk (JObj doc) else (case jget permissions doc of None \<Rightarrow> [] | Some raw \<Rightarrow> [raw]))
      | _ \<Rightarrow> Inl (ParseError (so_id s)))"

section \<open>Snapshots\<close>

definition recent :: "world \<Rightarrow> signature_of \<Rightarrow> bool" where
  "recent w sig \<longleftrightarrow> sg_mod sig \<noteq> 0 \<and> wd_now w - sg_mod sig < racyWindow"

text \<open>The loop of \<^verbatim>\<open>build\<close> over the sources, from the pattern and segment counts so far.\<close>

fun build_lists :: "world \<Rightarrow> Policy \<Rightarrow> (source \<times> signature_of) list \<Rightarrow> nat \<Rightarrow> nat \<Rightarrow> (perm_error, ruleList list \<times> bool) result" where
  "build_lists w p [] compiled segments = Inr ([], False)"
| "build_lists w p ((s, sig) # rest) compiled segments =
     (if sg_errText sig \<noteq> [] then Inl (TransientError (so_id s) (sg_errText sig))
      else if \<not> sg_present sig then build_lists w p rest compiled segments
      else if so_opaque s then Inl (ParseError (so_id s))
      else case read_source w s of
        Inl e \<Rightarrow> Inl e
      | Inr bs \<Rightarrow>
          (case parseSettings (pf_tables (wd_pf w)) (wd_json w) bs s (po_goos p) (po_fold p) of
             Inl e \<Rightarrow> Inl e
           | Inr got \<Rightarrow>
               let compiled = compiled + sum_list (map (\<lambda>l. length (rl_patterns l)) got);
                   segments = segments + sum_list (map (\<lambda>l. sum_list (map (\<lambda>pt. length (pt_segs pt)) (rl_patterns l))) got)
               in if int compiled > maxReadPatterns \<or> int segments > maxReadSegments then Inl (ParseError (so_id s))
                  else (case build_lists w p rest compiled segments of
                          Inl e \<Rightarrow> Inl e
                        | Inr (rls, racy) \<Rightarrow> Inr (got @ rls, recent w sig \<or> racy))))"

definition build :: "world \<Rightarrow> Policy \<Rightarrow> source list \<Rightarrow> signature_of list \<Rightarrow> (perm_error, RuleSet \<times> bool) result" where
  "build w p srcs sigs =
     (case build_lists w p (zip srcs sigs) 0 0 of
        Inl e \<Rightarrow> Inl e
      | Inr (rls, racy) \<Rightarrow> Inr (newRuleSet (wd_pf w) (po_goos p) (po_fold p) (op_ProjectRoot (po_o p)) (home_dir w (po_o p)) rls, racy))"

definition Policy_Snapshot :: "world \<Rightarrow> Policy \<Rightarrow> (perm_error, RuleSet) result \<times> Policy" where
  "Policy_Snapshot w p =
     (case sources w p of
        Inl e \<Rightarrow> (Inl e, p)
      | Inr srcs \<Rightarrow>
          let sigs = map (sign w) srcs in
          if po_loads p > 0 \<and> \<not> po_racy p \<and> po_sigs p = sigs then (po_rules p, p)
          else (case build w p srcs sigs of
                  Inl (TransientError i t) \<Rightarrow> (Inl (TransientError i t), p)
                | Inl e \<Rightarrow> (Inl e, p\<lparr>po_sigs := sigs, po_rules := Inl e, po_racy := False, po_loads := po_loads p + 1\<rparr>)
                | Inr (rules, racy) \<Rightarrow> (Inr rules, p\<lparr>po_sigs := sigs, po_rules := Inr rules, po_racy := racy, po_loads := po_loads p + 1\<rparr>)))"

definition Check :: "world \<Rightarrow> Policy \<Rightarrow> bytes \<Rightarrow> (perm_error, Decision) result \<times> Policy" where
  "Check w p path =
     (if path = [] then (Inl EmptyPath, p)
      else case Policy_Snapshot w p of
             (Inl e, p) \<Rightarrow> (Inl e, p)
           | (Inr rs, p) \<Rightarrow> (Inr (Evaluate (wd_pf w) rs path), p))"

section \<open>Settings layers\<close>

datatype LayerKind = LayerRegistry | LayerManaged | LayerManagedDropIn | LayerManagedProfile | LayerRemote | LayerUser | LayerProject | LayerLocal

record layerSource =
  ls_kind :: LayerKind
  ls_src :: source
  ls_err :: "perm_error option"

definition layer :: "LayerKind \<Rightarrow> source \<Rightarrow> layerSource" where
  "layer k s = \<lparr>ls_kind = k, ls_src = s, ls_err = None\<rparr>"

definition layerConfigDir :: "world \<Rightarrow> Policy \<Rightarrow> bytes option" where
  "layerConfigDir w p =
     (let home = home_dir w (po_o p) in
      if home \<noteq> [] then Some (configDir (po_o p) home)
      else let d = op_Getenv (po_o p) (lit ''CLAUDE_CONFIG_DIR'') in if d \<noteq> [] \<and> IsAbs d then Some d else None)"

definition dir_layers :: "world \<Rightarrow> bytes \<Rightarrow> layerSource list" where
  "dir_layers w d =
     layer LayerManaged (file_source (JoinPath [d, lit ''managed-settings.json'']) [])
     # (let dir = JoinPath [d, lit ''managed-settings.d''] in
        case listDropIns w dir of
          Inl e \<Rightarrow> [(layer LayerManagedDropIn ((file_source dir [])\<lparr>so_file := []\<rparr>))\<lparr>ls_err := Some e\<rparr>]
        | Inr dropIns \<Rightarrow> map (\<lambda>f. layer LayerManagedDropIn (file_source f [])) dropIns)"

definition layerSources :: "world \<Rightarrow> Policy \<Rightarrow> layerSource list" where
  "layerSources w p =
     (let root = op_ProjectRoot (po_o p); managed = managed_of w p in
      map (\<lambda>r. layer LayerRegistry \<lparr>so_id = RegistryValue_id r, so_file = [], so_reg = Some r, so_opaque = False, so_nested = False, so_settingsDirs = []\<rparr>) (ms_Registry managed)
      @ concat (map (dir_layers w) (ms_Dirs managed))
      @ map (\<lambda>f. layer LayerManagedProfile ((file_source f [])\<lparr>so_opaque := True\<rparr>)) (ms_Opaque managed)
      @ (case layerConfigDir w p of
           Some cfgDir \<Rightarrow> [layer LayerRemote ((file_source (JoinPath [cfgDir, lit ''remote-settings.json'']) [])\<lparr>so_nested := True\<rparr>),
                           layer LayerUser (file_source (JoinPath [cfgDir, lit ''settings.json'']) [])]
         | None \<Rightarrow> [(layer LayerRemote ((file_source (lit ''remote-settings.json'') [])\<lparr>so_file := []\<rparr>))\<lparr>ls_err := Some HomeUnknown\<rparr>,
                    (layer LayerUser ((file_source (lit ''settings.json'') [])\<lparr>so_file := []\<rparr>))\<lparr>ls_err := Some HomeUnknown\<rparr>])
      @ (if root = [] then []
         else layer LayerProject (file_source (JoinPath [root, lit ''.claude'', lit ''settings.json'']) [])
              # map (\<lambda>d. layer LayerLocal (file_source (JoinPath [d, lit ''.claude'', lit ''settings.local.json'']) [])) (localSettingsDirs w root)))"

record Layer =
  la_Kind :: LayerKind
  la_Source :: bytes
  la_Present :: bool
  la_Opaque :: bool
  la_Data :: "bytes option"
  la_Err :: "perm_error option"

definition readLayer :: "world \<Rightarrow> layerSource \<Rightarrow> Layer" where
  "readLayer w ls =
     (let l = \<lparr>la_Kind = ls_kind ls, la_Source = so_id (ls_src ls), la_Present = False, la_Opaque = False, la_Data = None, la_Err = None\<rparr> in
      if ls_err ls \<noteq> None then l\<lparr>la_Err := ls_err ls\<rparr>
      else let sig = sign w (ls_src ls) in
        if sg_errText sig \<noteq> [] then l\<lparr>la_Err := Some (TextError (sg_errText sig))\<rparr>
        else if \<not> sg_present sig then l
        else let l = l\<lparr>la_Present := True\<rparr> in
          if so_opaque (ls_src ls) then l\<lparr>la_Opaque := True\<rparr>
          else (case read_source w (ls_src ls) of Inl e \<Rightarrow> l\<lparr>la_Err := Some e\<rparr> | Inr b \<Rightarrow> l\<lparr>la_Data := Some b\<rparr>))"

definition ReadLayers :: "world \<Rightarrow> Options \<Rightarrow> Layer list" where
  "ReadLayers w opts = map (readLayer w) (layerSources w (NewPolicy (wd_pf w) opts []))"

end
