(* ===== verification/HostWf.thy ===== *)
theory HostWf
  imports HostSnapshot HostEvalRef
begin

text \<open>Every pattern of a rule set is well formed, and every refusal names a rule the set lists.\<close>

section \<open>Patterns\<close>

definition seg_ok :: "bool \<Rightarrow> bytes \<Rightarrow> bool" where
  "seg_ok literal s \<longleftrightarrow> s \<noteq> [] \<and> s \<noteq> dot \<and> s \<noteq> dotdot \<and> slash \<notin> set s \<and> (literal \<or> glob s \<noteq> None)"

definition pattern_ok :: "pattern \<Rightarrow> bool" where
  "pattern_ok p \<longleftrightarrow> list_all (seg_ok (pt_literal p)) (pt_segs p) \<and> (if pt_inert p then pt_neg p else True) \<and> (if pt_neg p \<or> pt_carvable p then pt_kind p = anchorCwd else True)"

lemma seg_ok_star2 [simp]: "seg_ok False star2"
proof -
  have "scanChunk star2 = (True, [], [])" by (simp add: scanChunk_def star2_def)
  then have "glob star2 = Some [GStar]" by (intro Match_star(2)) (simp_all add: star2_def)
  then show ?thesis by (simp add: seg_ok_def star2_def)
qed

lemma cleanLiteral_subset: "set (cleanLiteral segs) \<subseteq> {s \<in> set segs. s \<noteq> dotdot}"
proof -
  let ?f = "\<lambda>out s. if s = dotdot then (if out \<noteq> [] then butlast out else out) else out @ [s]"
  have "set (foldl ?f out segs) \<subseteq> set out \<union> {s \<in> set segs. s \<noteq> dotdot}" for out
  proof (induction segs arbitrary: out)
    case (Cons a segs)
    have "set (?f out a) \<subseteq> set out \<union> {s \<in> {a}. s \<noteq> dotdot}" by (auto dest: in_set_butlastD)
    moreover have "foldl ?f out (a # segs) = foldl ?f (?f out a) segs" by simp
    ultimately show ?case using Cons.IH [of "?f out a"] by auto
  qed simp
  from this [of "[]"] show ?thesis by (simp add: cleanLiteral_def)
qed

lemma finishPattern_ok:
  assumes p: "pt_segs p = []" "\<not> pt_literal p" "if pt_inert p then pt_neg p else True" "if pt_neg p \<or> pt_carvable p then kind = anchorCwd else True"
  shows "pattern_ok (finishPattern tables p kind rest anchored folds)"
proof -
  define ws where "ws = SplitByte slash (TrimSuffix (TrimRightByte (if folds then ToLower tables rest else rest) 0x20) [slash])"
  define segs where "segs = dropWhile (\<lambda>s. s = dotdot) (filter (\<lambda>s. s \<noteq> [] \<and> s \<noteq> dot) ws)"
  have s: "s \<noteq> [] \<and> s \<noteq> dot \<and> slash \<notin> set s" if "s \<in> set segs" for s
    using that SplitByte_no_sep [of s slash] unfolding segs_def ws_def by (auto dest!: set_dropWhileD)
  define literal where "literal = list_ex (\<lambda>s. s = dotdot \<or> Match s [] = None) segs"
  have lit: "list_all (seg_ok True) (cleanLiteral segs)" using s cleanLiteral_subset [of segs] by (auto simp: list_all_iff seg_ok_def)
  have nl: "list_all (seg_ok False) segs" if "\<not> literal"
    using that s Match_error by (auto simp: list_all_iff list_ex_iff seg_ok_def literal_def)
  show ?thesis
    using p lit nl unfolding pattern_ok_def finishPattern_def Let_def ws_def [symmetric] segs_def [symmetric] literal_def [symmetric]
    by (cases literal) auto
qed

lemma compileOne_ok: "pattern_ok (compileOne tables raw spec folds)"
proof -
  have z: "pattern_ok (finishPattern tables (zero_pattern\<lparr>pt_raw := raw\<rparr>) kind rest anchored folds)" for kind rest anchored
    by (rule finishPattern_ok) (simp_all add: zero_pattern_def)
  have c: "pattern_ok (finishPattern tables (zero_pattern\<lparr>pt_raw := raw, pt_carvable := True\<rparr>) anchorCwd rest anchored folds)"
    "pattern_ok (finishPattern tables (zero_pattern\<lparr>pt_raw := raw, pt_neg := True, pt_carvable := True\<rparr>) anchorCwd rest anchored folds)" for rest anchored
    by (rule finishPattern_ok; simp add: zero_pattern_def)+
  have i: "pattern_ok (zero_pattern\<lparr>pt_raw := raw, pt_neg := True, pt_carvable := True, pt_inert := True\<rparr>)" by (simp add: pattern_ok_def zero_pattern_def)
  show ?thesis unfolding compileOne_def Let_def using z c i by (simp split: if_split)
qed

lemma finishPattern_fields: "pt_neg (finishPattern tables p kind rest anchored folds) = pt_neg p" "pt_raw (finishPattern tables p kind rest anchored folds) = pt_raw p"
  "pt_inert (finishPattern tables p kind rest anchored folds) = pt_inert p"
  by (simp_all add: finishPattern_def Let_def)

lemma compileOne_fields: "pt_raw (compileOne tables raw spec folds) = raw" "pt_neg (compileOne tables raw spec folds) = HasPrefix spec (lit ''!'')"
  unfolding compileOne_def Let_def by (auto simp: finishPattern_fields zero_pattern_def)

lemma compileAlias_ok: "\<not> HasPrefix spec (lit ''!'') \<Longrightarrow> pattern_ok (compileAlias tables raw spec folds)"
  using compileOne_ok [of tables raw spec folds] compileOne_fields(2) [of tables raw spec folds] by (auto simp: compileAlias_def pattern_ok_def split: if_splits)

lemma bang_replace: "\<not> HasPrefix spec (lit ''!'') \<Longrightarrow> \<not> HasPrefix (ReplaceByte 0x5C slash spec) (lit ''!'')"
  by (cases spec) (auto simp: HasPrefix_def ReplaceByte_def lit_def)

lemma bang_slash: "\<not> HasPrefix (lit ''//'' @ s) (lit ''!'')"
  by (simp add: HasPrefix_def lit_def)

lemma compilePath_ok: "p \<in> set (compilePath tables raw spec goos folds) \<Longrightarrow> pattern_ok p \<and> pt_raw p = raw"
  using compileOne_ok compileAlias_ok [OF bang_replace] compileAlias_ok [OF bang_slash]
  by (auto simp: compilePath_def Let_def compileOne_fields compileAlias_def split: if_splits)

lemma parseRule_ok:
  assumes "parseRule tables entry goos folds = Some r" "p \<in> set (pr_patterns r)"
  shows "p \<in> set (compilePath tables entry (ruleSpecifier entry) goos folds)"
  using assms by (auto simp: parseRule_def ruleSpecifier_def Let_def irrelevant_def split: if_splits option.splits)

section \<open>Rule sets\<close>

definition list_ok :: "ruleList \<Rightarrow> bool" where
  "list_ok l \<longleftrightarrow> list_all pattern_ok (rl_patterns l)"

lemma parse_entries_ok: "parse_entries tables goos folds sid es l = Inr l' \<Longrightarrow> list_ok l \<Longrightarrow> list_ok l'"
proof (induction tables goos folds sid es l rule: parse_entries.induct)
  case (2 tables goos folds sid e es l)
  obtain entry where e: "(case e of JStr s \<Rightarrow> Some s | JNull \<Rightarrow> Some [] | _ \<Rightarrow> None) = Some entry" using "2.prems"(1) by (auto split: option.splits)
  obtain r where r: "parseRule tables entry goos folds = Some r" using "2.prems"(1) e by (auto split: option.splits)
  let ?l = "if \<not> pr_relevant r then l else if pr_toolLevel r then (if rl_toolRule l = [] then l\<lparr>rl_toolRule := entry\<rparr> else l)
                else l\<lparr>rl_patterns := rl_patterns l @ pr_patterns r\<rparr>"
  have "pattern_ok q" if "q \<in> set (pr_patterns r)" for q using compilePath_ok [OF parseRule_ok [OF r that]] by blast
  then have "list_ok ?l" using "2.prems"(2) by (auto simp: list_ok_def list_all_iff)
  moreover have "parse_entries tables goos folds sid es ?l = Inr l'" using "2.prems"(1) e r by simp
  ultimately show ?case using "2.IH" [OF e r] by blast
qed simp

lemma parseList_ok: "parseList tables raw effect s goos folds = Inr l \<Longrightarrow> list_ok l"
  unfolding parseList_def by (auto dest!: parse_entries_ok simp: list_ok_def split: option.splits)

lemma parse_blocks_ok: "parse_blocks tables s goos folds ks perms = Inr ls \<Longrightarrow> list_all list_ok ls"
proof (induction tables s goos folds ks perms arbitrary: ls rule: parse_blocks.induct)
  case (2 tables s goos folds key effect ks perms)
  show ?case using 2 parseList_ok [of tables _ effect s goos folds] by (auto split: option.splits sum.splits if_splits)
qed simp

lemma parse_all_ok: "parse_all tables s goos folds raws = Inr ls \<Longrightarrow> list_all list_ok ls"
  by (induction raws arbitrary: ls) (auto simp del: parse_blocks.simps split: json.splits sum.splits dest: parse_blocks_ok)

lemma build_lists_ok: "build_lists w p srcs compiled segments = Inr (ls, racy) \<Longrightarrow> list_all list_ok ls"
proof (induction w p srcs compiled segments arbitrary: ls racy rule: build_lists.induct)
  case (2 w p s sig rest compiled segments)
  have ps: "parseSettings (pf_tables (wd_pf w)) (wd_json w) bs s (po_goos p) (po_fold p) = Inr got \<Longrightarrow> list_all list_ok got" for bs got
    unfolding parseSettings_def by (auto split: option.splits json.splits dest: parse_all_ok)
  show ?case using 2 ps by (auto simp: Let_def split: if_splits sum.splits prod.splits)
qed simp

lemma alias_ok: "pattern_ok pt \<Longrightarrow> \<not> pt_literal pt \<Longrightarrow> pattern_ok (alias_pattern pt n rp)"
  by (auto simp: pattern_ok_def alias_pattern_def zero_pattern_def list_all_iff dest: in_set_dropD)

lemma throughLinks_ok: "pattern_ok pt \<Longrightarrow> q \<in> set (throughLinks pf goos folds pt) \<Longrightarrow> pattern_ok q \<and> pt_raw q = pt_raw pt \<and> \<not> pt_neg q"
  by (auto simp: throughLinks_def Let_def alias_ok split: if_splits option.splits) (simp_all add: alias_pattern_def zero_pattern_def)

lemma long_alias_ok:
  assumes "pattern_ok pt" "\<not> pt_literal pt" "q \<in> set (fst (long_alias pf goos folds pt n a))"
  shows "pattern_ok q \<and> pt_raw q = pt_raw pt \<and> \<not> pt_neg q"
proof -
  let ?f = "\<lambda>(seen, out) r. let rp = posixSegments (pf_tables pf) r goos folds in
      case appendDistinct seen rp of (seen, added) \<Rightarrow> (seen, if added then out @ [alias_pattern pt n rp] else out)"
  have f: "set (snd (foldl ?f st rs)) \<subseteq> set (snd st) \<union> range (alias_pattern pt n)" for st rs
  proof (induction rs arbitrary: st)
    case (Cons r rs)
    have "set (snd (?f st r)) \<subseteq> set (snd st) \<union> range (alias_pattern pt n)" by (auto simp: Let_def split: prod.splits if_splits)
    moreover have "foldl ?f st (r # rs) = foldl ?f (?f st r) rs" by simp
    ultimately show ?case using Cons.IH [of "?f st r"] by auto
  qed simp
  have "q \<in> range (alias_pattern pt n)" using assms(3) f [of "([a @ take n (pt_segs pt)], [])"]
    by (auto simp: long_alias_def Let_def split: prod.splits if_splits)
  then show ?thesis using alias_ok [OF assms(1,2)] by (auto simp: alias_pattern_def zero_pattern_def)
qed

lemma longNameAliases_ok: "pattern_ok pt \<Longrightarrow> q \<in> set (fst (longNameAliases pf goos folds pt)) \<Longrightarrow> pattern_ok q \<and> pt_raw q = pt_raw pt \<and> \<not> pt_neg q"
  using long_alias_ok [of pt] by (auto simp: longNameAliases_def Let_def split: if_splits)

lemma place_ok:
  assumes "pattern_ok pt" "place_pattern pf goos folds cwd home l pt = (pt', aliases, pending)"
  shows "pattern_ok pt'" "q \<in> set aliases \<Longrightarrow> pattern_ok q"
proof -
  define pa where "pa = pt\<lparr>pt_anchors := pt_anchors pt @ map (\<lambda>a. ancestorsUp a (pt_up pt)) (base_anchors pf goos folds cwd home l pt)\<rparr>"
  have ok: "pattern_ok pa" using assms(1) by (simp add: pa_def pattern_ok_def)
  have e: "place_pattern pf goos folds cwd home l pt = (pa, (if \<not> pt_neg pa \<and> pt_kind pa \<noteq> anchorCwd then throughLinks pf goos folds pa else [])
      @ fst (if \<not> pt_neg pa then longNameAliases pf goos folds pa else ([], False)), snd (if \<not> pt_neg pa then longNameAliases pf goos folds pa else ([], False)))"
    unfolding place_pattern_def Let_def pa_def [symmetric] by (simp only: split_beta)
  show "pattern_ok pt'" "q \<in> set aliases \<Longrightarrow> pattern_ok q"
    using assms(2) ok throughLinks_ok [OF ok] longNameAliases_ok [OF ok] unfolding e by (auto split: if_splits)
qed

lemma place_list_ok: "list_ok l \<Longrightarrow> list_ok (fst (place_list pf goos folds cwd home l))"
proof -
  assume l: "list_ok l"
  have e: "place_pattern pf goos folds cwd home l pt = (fst (place_pattern pf goos folds cwd home l pt), fst (snd (place_pattern pf goos folds cwd home l pt)), snd (snd (place_pattern pf goos folds cwd home l pt)))" for pt
    by simp
  have "pattern_ok pt" if "pt \<in> set (rl_patterns l)" for pt using that l by (auto simp: list_ok_def list_all_iff)
  note ok = place_ok [OF this e]
  show ?thesis unfolding list_ok_def list_all_iff place_list_def Let_def using ok by auto
qed

lemma newRuleSet_ok: "list_all list_ok ls \<Longrightarrow> l \<in> set (rs_deny (newRuleSet pf goos folds root home ls)) \<union> set (rs_ask (newRuleSet pf goos folds root home ls)) \<Longrightarrow> list_ok l"
  by (auto simp: newRuleSet_def Let_def list_all_iff place_list_ok split: if_splits)

end
