(* ===== verification/HostResolve.thy ===== *)
theory HostResolve
  imports HostPolicy
begin

text \<open>Link resolution: the path it returns is clean and passes through no link.\<close>

section \<open>Clean absolute paths\<close>

definition good_seg :: "bytes \<Rightarrow> bool" where
  "good_seg s \<longleftrightarrow> s \<noteq> [] \<and> s \<noteq> dot \<and> s \<noteq> dotdot \<and> slash \<notin> set s"

definition render_path :: "bytes list \<Rightarrow> bytes" where
  "render_path segs = slash # Join segs [slash]"

lemma split_render: "list_all good_seg segs \<Longrightarrow> segs \<noteq> [] \<Longrightarrow> SplitByte slash (render_path segs) = [] # segs"
  using Split_Join [of segs slash] by (auto simp: render_path_def list_all_iff good_seg_def)

lemma split_render_Nil: "SplitByte slash (render_path []) = [ [], []]"
  by (simp add: render_path_def)

lemma clean_fold_good: "list_all (\<lambda>s. s = [] \<or> good_seg s) segs \<Longrightarrow> foldl (clean_step rooted) out segs = out @ filter (\<lambda>s. s \<noteq> []) segs"
  by (induction segs arbitrary: out) (auto simp: clean_step_def good_seg_def)

lemma clean_fold_rooted:
  assumes "list_all good_seg out" "\<forall>s \<in> set segs. slash \<notin> set s"
  shows "list_all good_seg (foldl (clean_step True) out segs)"
  using assms
proof (induction segs arbitrary: out)
  case (Cons s segs)
  have "list_all good_seg (clean_step True out s)"
    using Cons.prems by (auto simp: clean_step_def good_seg_def list_all_iff dest: in_set_butlastD)
  then show ?case using Cons by simp
qed simp

lemma Clean_abs: "IsAbs p \<Longrightarrow> \<exists>segs. Clean p = render_path segs \<and> list_all good_seg segs"
proof -
  assume "IsAbs p"
  then have p: "p \<noteq> []" "hd p = slash" by (auto simp: IsAbs_def HasPrefix_def prefix_def)
  have "Clean p = render_path (foldl (clean_step True) [] (SplitByte slash p))" using p by (simp add: Clean_def render_path_def)
  moreover have "list_all good_seg (foldl (clean_step True) [] (SplitByte slash p))"
    by (rule clean_fold_rooted) (auto dest: SplitByte_no_sep)
  ultimately show ?thesis by blast
qed

lemma Split_slash_append: "SplitByte c (u @ c # v) = SplitByte c u @ SplitByte c v"
proof (induction u)
  case (Cons b u)
  then show ?case by (cases "SplitByte c u") auto
qed simp

lemma Split_Join_parts: "xs \<noteq> [] \<Longrightarrow> SplitByte slash (Join xs [slash]) = concat (map (SplitByte slash) xs)"
proof (induction xs rule: induct_list012)
  case (3 x y zs)
  then show ?case using Split_slash_append [of slash x "Join (y # zs) [slash]"] by simp
qed auto

lemma split_good: "list_all (\<lambda>s. s = [] \<or> good_seg s) parts \<Longrightarrow> concat (map (SplitByte slash) parts) = parts"
  by (induction parts) (auto simp: good_seg_def SplitByte_single)

lemma join_render:
  assumes A: "list_all good_seg A" and parts: "list_all (\<lambda>s. s = [] \<or> good_seg s) parts"
  shows "JoinPath (render_path A # parts) = render_path (A @ filter (\<lambda>s. s \<noteq> []) parts)"
proof -
  have j: "JoinPath (render_path A # parts) = Clean (Join (render_path A # parts) [slash])" by (simp add: JoinPath_def render_path_def)
  have h: "Join (render_path A # parts) [slash] \<noteq> []" "hd (Join (render_path A # parts) [slash]) = slash"
    by (cases parts; simp add: render_path_def)+
  have "SplitByte slash (render_path A) = [] # (if A = [] then [ []] else A)" using split_render [OF A] split_render_Nil by auto
  then have "SplitByte slash (Join (render_path A # parts) [slash]) = ([] # (if A = [] then [ []] else A)) @ parts"
    using Split_Join_parts [of "render_path A # parts"] split_good [OF parts] by simp
  moreover have "list_all (\<lambda>s. s = [] \<or> good_seg s) (([] # (if A = [] then [ []] else A)) @ parts)" using A parts by (auto simp: list_all_iff)
  ultimately have "foldl (clean_step True) [] (SplitByte slash (Join (render_path A # parts) [slash])) = filter (\<lambda>s. s \<noteq> []) (([] # (if A = [] then [ []] else A)) @ parts)"
    using clean_fold_good [of "([] # (if A = [] then [ []] else A)) @ parts" True "[]"] by (simp only: append_Nil)
  moreover have "filter (\<lambda>s. s \<noteq> []) A = A" using A by (auto simp: list_all_iff good_seg_def intro: filter_True)
  ultimately show ?thesis unfolding j using h by (simp add: Clean_def render_path_def)
qed

lemma Clean_render: "list_all good_seg A \<Longrightarrow> Clean (render_path A) = render_path A"
  using join_render [of A "[]"] by (simp add: JoinPath_def render_path_def)

lemma Dir_render_abs: "IsAbs (Dir (render_path A))"
proof -
  have "slash \<in> set (rev (render_path A))" by (simp add: render_path_def)
  then obtain u v where r: "rev (render_path A) = u @ slash # v" "slash \<notin> set u" using split_list_first by metis
  have "dropWhile (\<lambda>b. b \<noteq> slash) (rev (render_path A)) = slash # v"
    unfolding r(1) using r(2) by (induction u) auto
  then have "Dir (render_path A) = Clean (rev v @ [slash])" by (simp add: Dir_def)
  moreover have "render_path A = rev v @ slash # rev u" using arg_cong [OF r(1), of rev] by simp
  then have "IsAbs (rev v @ [slash])" by (cases "rev v") (auto simp: IsAbs_def HasPrefix_def render_path_def)
  ultimately show ?thesis using Clean_abs [of "rev v @ [slash]"] by (auto simp: IsAbs_def HasPrefix_def render_path_def)
qed

section \<open>Links\<close>

text \<open>A file system in which nothing exists below a missing directory.\<close>

definition fs_tree :: "(bytes \<Rightarrow> link_answer) \<Rightarrow> bool" where
  "fs_tree rl \<longleftrightarrow> (\<forall>A B. rl (render_path A) = LinkMissing \<longrightarrow> rl (render_path (A @ B)) = LinkMissing)"

definition is_link :: "link_answer \<Rightarrow> bool" where
  "is_link a \<longleftrightarrow> (case a of LinkTarget _ \<Rightarrow> True | _ \<Rightarrow> False)"

definition no_links :: "(bytes \<Rightarrow> link_answer) \<Rightarrow> bytes list \<Rightarrow> bool" where
  "no_links rl A \<longleftrightarrow> (\<forall>k. 1 \<le> k \<longrightarrow> k \<le> length A \<longrightarrow> \<not> is_link (rl (render_path (take k A))))"

text \<open>What the walk leaves: it looked at every prefix up to the first missing one, and none of them is a link.\<close>

definition link_settled :: "(bytes \<Rightarrow> link_answer) \<Rightarrow> bytes list \<Rightarrow> nat \<Rightarrow> bool" where
  "link_settled rl A n \<longleftrightarrow> (\<forall>k. n < k \<longrightarrow> k \<le> length A \<longrightarrow> is_link (rl (render_path (take k A)))
     \<longrightarrow> (\<exists>j. n < j \<and> j < k \<and> rl (render_path (take j A)) = LinkMissing))"

lemma settledD:
  "link_settled rl A n \<Longrightarrow> n < k \<Longrightarrow> k \<le> length A \<Longrightarrow> is_link (rl (render_path (take k A))) \<Longrightarrow> \<exists>j. n < j \<and> j < k \<and> rl (render_path (take j A)) = LinkMissing"
  unfolding link_settled_def by blast

definition link_walked :: "(bytes \<Rightarrow> link_answer) \<Rightarrow> bytes list \<Rightarrow> bool" where
  "link_walked rl A \<longleftrightarrow> (\<forall>k. 1 \<le> k \<longrightarrow> k \<le> length A \<longrightarrow> rl (render_path (take k A)) = LinkError)"

lemma walked_snoc: "link_walked rl A \<Longrightarrow> rl (render_path (A @ [s])) = LinkError \<Longrightarrow> link_walked rl (A @ [s])"
  by (auto simp: link_walked_def le_Suc_eq)

lemma settled_walked: "link_walked rl A \<Longrightarrow> link_settled rl A 0"
  by (auto simp: link_settled_def link_walked_def is_link_def)

lemma settled_missing:
  assumes "link_walked rl A" "rl (render_path (A @ [s])) = LinkMissing"
  shows "link_settled rl ((A @ [s]) @ B) 0"
proof -
  have "\<exists>j. 0 < j \<and> j < k \<and> rl (render_path (take j ((A @ [s]) @ B))) = LinkMissing"
    if k: "0 < k" "is_link (rl (render_path (take k ((A @ [s]) @ B))))" for k
  proof -
    have "length A + 1 < k"
    proof (rule ccontr)
      assume "\<not> ?thesis"
      then consider "k \<le> length A" | "k = length A + 1" by linarith
      then show False using assms k by cases (auto simp: link_walked_def is_link_def)
    qed
    then show ?thesis using assms(2) by (intro exI [of _ "length A + 1"]) simp
  qed
  then show ?thesis by (simp add: link_settled_def)
qed

lemma settled_no_links:
  assumes "fs_tree rl" "link_settled rl A 0"
  shows "no_links rl A"
  unfolding no_links_def
proof (intro allI impI notI)
  fix k assume k: "1 \<le> k" "k \<le> length A" "is_link (rl (render_path (take k A)))"
  then obtain j where j: "j < k" "rl (render_path (take j A)) = LinkMissing" using settledD [OF assms(2), of k] by auto
  have "take k A = take j A @ drop j (take k A)" using j(1) append_take_drop_id [of j "take k A"] by (simp add: min_absorb1)
  then have "rl (render_path (take k A)) = LinkMissing" using assms(1) j(2) unfolding fs_tree_def by metis
  then show False using k(3) by (simp add: is_link_def)
qed

lemma resolve_settled:
  assumes "link_settled rl (A @ B) (length A)" "list_all good_seg (A @ B)"
  shows "resolve_loop rl hops (render_path A) B = Some (render_path (A @ B))"
  using assms
proof (induction B arbitrary: A)
  case (Cons s B)
  have s: "good_seg s" "list_all good_seg A" "list_all good_seg B" using Cons.prems(2) by simp_all
  have j: "JoinPath [render_path A, s] = render_path (A @ [s])" using join_render [of A "[s]"] s by (simp add: good_seg_def)
  have m: "JoinPath (render_path (A @ [s]) # B) = render_path (A @ s # B)"
    using join_render [of "A @ [s]" B] s filter_True [of B "\<lambda>s. s \<noteq> []"] by (simp add: list_all_iff good_seg_def)
  have n: "\<not> is_link (rl (render_path (A @ [s])))" using Cons.prems(1) by (auto simp: link_settled_def dest!: spec [of _ "Suc (length A)"])
  show ?case
  proof (cases "rl (render_path (A @ [s]))")
    case LinkError
    have "link_settled rl ((A @ [s]) @ B) (length (A @ [s]))"
      unfolding link_settled_def
    proof (intro allI impI)
      fix k assume k: "length (A @ [s]) < k" "k \<le> length ((A @ [s]) @ B)" "is_link (rl (render_path (take k ((A @ [s]) @ B))))"
      then obtain i where i: "length A < i" "i < k" "rl (render_path (take i (A @ s # B))) = LinkMissing" using settledD [OF Cons.prems(1), of k] by auto
      then have "i \<noteq> Suc (length A)" using LinkError by auto
      then show "\<exists>i. length (A @ [s]) < i \<and> i < k \<and> rl (render_path (take i ((A @ [s]) @ B))) = LinkMissing" using i by (intro exI [of _ i]) simp
    qed
    then show ?thesis using Cons.IH [of "A @ [s]"] Cons.prems(2) LinkError s(1) j by (simp add: good_seg_def)
  qed (use n s(1) j m in \<open>auto simp: is_link_def good_seg_def\<close>)
qed simp

lemma resolve_loop_clean:
  "resolve_loop rl hops cur parts = Some q \<Longrightarrow> cur = render_path A \<Longrightarrow> list_all good_seg A \<Longrightarrow> link_walked rl A
    \<Longrightarrow> list_all (\<lambda>s. s = [] \<or> good_seg s) parts \<Longrightarrow> \<exists>B. q = render_path B \<and> list_all good_seg B \<and> link_settled rl B 0"
proof (induction rl hops cur parts arbitrary: A rule: resolve_loop.induct)
  case (2 rl hops cur part parts)
  show ?case
  proof (cases "part = [] \<or> part = dot")
    case True
    then show ?thesis using 2 by auto
  next
    case False
    then have g: "good_seg part" using "2.prems"(5) by (auto simp: good_seg_def)
    have j: "JoinPath [cur, part] = render_path (A @ [part])" using join_render [of A "[part]"] "2.prems"(2,3) g False by simp
    have gA: "list_all good_seg (A @ [part])" using "2.prems"(3) g by simp
    have ps: "list_all (\<lambda>s. s = [] \<or> good_seg s) parts" using "2.prems"(5) by simp
    show ?thesis
    proof (cases "rl (render_path (A @ [part]))")
      case LinkMissing
      then have "q = render_path ((A @ [part]) @ filter (\<lambda>s. s \<noteq> []) parts)"
        using "2.prems"(1) False j join_render [OF gA ps] by simp
      moreover have "list_all good_seg (filter (\<lambda>s. s \<noteq> []) parts)" using ps by (auto simp: list_all_iff)
      ultimately show ?thesis using settled_missing [OF "2.prems"(4) LinkMissing] gA by (intro exI [of _ "(A @ [part]) @ filter (\<lambda>s. s \<noteq> []) parts"]) simp
    next
      case LinkError
      then have r: "resolve_loop rl hops (JoinPath [cur, part]) parts = Some q" using "2.prems"(1) False j by simp
      have "link_walked rl (A @ [part])" by (rule walked_snoc [OF "2.prems"(4) LinkError])
      then show ?thesis using "2.IH"(3) [OF False refl _ r j gA _ ps] LinkError j by simp
    next
      case (LinkTarget target)
      define t where "t = TrimPrefix (TrimPrefix target (lit [CHR 0x5C, CHR ''?'', CHR ''?'', CHR 0x5C])) (lit [CHR 0x5C, CHR 0x5C, CHR ''?'', CHR 0x5C])"
      define u where "u = (if \<not> IsAbs t then JoinPath [Dir (JoinPath [cur, part]), t] else t)"
      have h: "\<not> Suc hops > maxLinkHops" and r: "resolve_loop rl (Suc hops) [slash] (SplitByte slash (Clean u) @ parts) = Some q"
        using "2.prems"(1) False j LinkTarget by (auto simp: Let_def t_def u_def split: if_splits)
      have "IsAbs u"
      proof (cases "IsAbs t")
        case n: False
        have d: "IsAbs (Dir (JoinPath [cur, part]))" unfolding j by (rule Dir_render_abs)
        then obtain D where D: "Dir (JoinPath [cur, part]) = slash # D" by (auto simp: IsAbs_def HasPrefix_def prefix_def)
        have "u = Clean (slash # D @ slash # t)" using n unfolding u_def D by (simp add: JoinPath_def)
        then show ?thesis using Clean_abs [of "slash # D @ slash # t"] by (auto simp: IsAbs_def HasPrefix_def render_path_def)
      qed (simp add: u_def)
      then obtain T where T: "Clean u = render_path T" "list_all good_seg T" using Clean_abs by blast
      have "list_all (\<lambda>s. s = [] \<or> good_seg s) (SplitByte slash (Clean u))"
        using split_render [OF T(2)] split_render_Nil T unfolding T(1) by (cases "T = []") (auto simp: list_all_iff)
      then have "list_all (\<lambda>s. s = [] \<or> good_seg s) (SplitByte slash (Clean u) @ parts)" using ps by simp
      moreover have "[slash] = render_path []" by (simp add: render_path_def)
      moreover have "link_walked rl []" by (simp add: link_walked_def)
      ultimately show ?thesis using "2.IH"(2) [OF False refl _ h t_def u_def refl r, of "[]"] LinkTarget j by simp
    qed
  qed
qed (auto dest: settled_walked)

lemma split_clean:
  assumes "IsAbs p"
  shows "\<exists>T. Clean p = render_path T \<and> list_all good_seg T \<and> SplitByte slash (Clean p) = [] # (if T = [] then [ []] else T)"
proof -
  obtain T where T: "Clean p = render_path T" "list_all good_seg T" using Clean_abs [OF assms] by blast
  have "SplitByte slash (render_path T) = [] # (if T = [] then [ []] else T)" using split_render [OF T(2)] split_render_Nil by (cases "T = []") simp_all
  then show ?thesis using T by (intro exI [of _ T]) simp
qed

lemma resolveLinks_settled:
  assumes "IsAbs p" "resolveLinks rl p = Some q"
  shows "\<exists>B. q = render_path B \<and> list_all good_seg B \<and> link_settled rl B 0"
proof -
  obtain T where T: "Clean p = render_path T" "list_all good_seg T" "SplitByte slash (Clean p) = [] # (if T = [] then [ []] else T)" using split_clean [OF assms(1)] by blast
  have r: "resolve_loop rl 0 [slash] (SplitByte slash (Clean p)) = Some q" using assms(2) by (simp add: resolveLinks_def)
  have parts: "list_all (\<lambda>s. s = [] \<or> good_seg s) (SplitByte slash (Clean p))" using T(2) unfolding T(3) by (simp add: list_all_iff)
  show ?thesis by (rule resolve_loop_clean [OF r _ _ _ parts, of "[]"]) (simp_all add: render_path_def link_walked_def)
qed

lemma resolveLinks_again:
  assumes "IsAbs p" "resolveLinks rl p = Some q"
  shows "IsAbs q" "resolveLinks rl q = Some q"
proof -
  obtain B where B: "q = render_path B" "list_all good_seg B" "link_settled rl B 0" using resolveLinks_settled [OF assms] by blast
  show "IsAbs q" unfolding B(1) by (simp add: IsAbs_def HasPrefix_def render_path_def)
  have "SplitByte slash (Clean q) = [] # (if B = [] then [ []] else B)" unfolding B(1) Clean_render [OF B(2)] using split_render [OF B(2)] split_render_Nil by auto
  then show "resolveLinks rl q = Some q" using resolve_settled [of rl "[]" B 0] B by (simp add: resolveLinks_def render_path_def)
qed

lemma resolveLinks_clean:
  assumes "fs_tree rl" "IsAbs p" "resolveLinks rl p = Some q"
  shows "\<exists>B. q = render_path B \<and> list_all good_seg B \<and> no_links rl B \<and> resolveLinks rl q = Some q"
  using resolveLinks_settled [OF assms(2,3)] resolveLinks_again(2) [OF assms(2,3)] settled_no_links [OF assms(1)] by blast

section \<open>Spellings are complete\<close>

text \<open>
  What the spellings of a path rely on: the place a path resolves to is absolute and resolves to itself.
  The resolutions are not resolved again, and by this contract need not be.
\<close>

locale link_resolver =
  fixes resolve :: "bytes \<Rightarrow> bytes option" and absolute :: "bytes \<Rightarrow> bool"
  assumes resolved_absolute: "absolute p \<Longrightarrow> resolve p = Some q \<Longrightarrow> absolute q"
    and resolved_again: "absolute p \<Longrightarrow> resolve p = Some q \<Longrightarrow> resolve q = Some q"
begin

lemma closed_under:
  assumes "\<And>n. n \<in> set ns \<Longrightarrow> absolute n" "\<And>n q. n \<in> set ns \<Longrightarrow> resolve n = Some q \<Longrightarrow> names q \<in> S"
    and "n \<in> set ns \<or> (\<exists>m \<in> set ns. resolve m = Some n)" "resolve n = Some q"
  shows "names q \<in> S"
  using assms resolved_again by (metis option.inject)

end

interpretation posix: link_resolver "resolveLinks readlink" IsAbs for readlink
  by unfold_locales (rule resolveLinks_again; assumption)+

definition resolve_step :: "platform \<Rightarrow> bytes \<Rightarrow> bool \<Rightarrow> bytes list list \<times> bytes list \<Rightarrow> bytes \<Rightarrow> bytes list list \<times> bytes list" where
  "resolve_step pf goos folds st n = (case pf_resolveLinks pf n of None \<Rightarrow> st | Some r \<Rightarrow> add_spelling pf goos folds r st)"

lemma add_spelling_set:
  "set (fst (add_spelling pf goos folds a st)) = insert (posixSegments (pf_tables pf) a goos folds) (set (fst st))"
  "set (snd st) \<subseteq> set (snd (add_spelling pf goos folds a st))" "set (snd (add_spelling pf goos folds a st)) \<subseteq> insert a (set (snd st))"
  by (auto simp: add_spelling_def appendDistinct_def list_ex_iff)

lemma resolve_steps:
  "set (fst (foldl (resolve_step pf goos folds) st ns)) = set (fst st) \<union> {posixSegments (pf_tables pf) q goos folds | n q. n \<in> set ns \<and> pf_resolveLinks pf n = Some q}
   \<and> set (snd (foldl (resolve_step pf goos folds) st ns)) \<subseteq> set (snd st) \<union> {q. \<exists>n \<in> set ns. pf_resolveLinks pf n = Some q}"
proof (induction ns arbitrary: st)
  case (Cons n ns)
  show ?case
  proof (cases "pf_resolveLinks pf n")
    case None
    then show ?thesis using Cons.IH [of st] by (auto simp: resolve_step_def)
  next
    case (Some r)
    then show ?thesis using Cons.IH [of "add_spelling pf goos folds r st"] add_spelling_set [where pf = pf and goos = goos and folds = folds and a = r and st = st] by (auto simp: resolve_step_def)
  qed
qed simp

lemma posix_spellings_closed:
  assumes "spellings (posix_platform goos tables foldEq readlink) p g folds True = (cands, natives, unresolved)" "IsAbs p" "n \<in> set natives" "resolveLinks readlink n = Some q"
  shows "posixSegments tables q g folds \<in> set cands"
proof -
  let ?pf = "posix_platform goos tables foldEq readlink"
  let ?st = "([posixSegments tables p g folds], [p])"
  have f: "(\<lambda>st n. case pf_resolveLinks ?pf n of None \<Rightarrow> st | Some r \<Rightarrow> add_spelling ?pf g folds r st) = resolve_step ?pf g folds"
    by (intro ext) (simp add: resolve_step_def)
  have e: "cands = fst (foldl (resolve_step ?pf g folds) ?st [p])" "natives = snd (foldl (resolve_step ?pf g folds) ?st [p])"
    using assms(1) unfolding spellings_def f by (simp_all add: posix_platform_def osAlias_def Let_def)
  have pf: "pf_resolveLinks ?pf = resolveLinks readlink" "pf_tables ?pf = tables" by (simp_all add: posix_platform_def)
  note st = resolve_steps [of ?pf g folds ?st "[p]", unfolded pf e [symmetric]]
  show ?thesis
    by (rule posix.closed_under [of "[p]" readlink "\<lambda>q. posixSegments tables q g folds" "set cands" n q]) (use assms(2-4) st in auto)
qed

end
