(* ===== verification/HostFresh.thy ===== *)
theory HostFresh
  imports HostSnapshot
begin

text \<open>The cache of \<^verbatim>\<open>Snapshot\<close>: a rule set it answers with is the one a fresh build would give.\<close>

definition fresh :: "world \<Rightarrow> Policy \<Rightarrow> (perm_error, RuleSet) result" where
  "fresh w p =
     (case sources w p of
        Inl e \<Rightarrow> Inl e
      | Inr srcs \<Rightarrow> (case build w p srcs (map (sign w) srcs) of Inl e \<Rightarrow> Inl e | Inr (rs, _) \<Rightarrow> Inr rs))"

fun snapshots :: "world list \<Rightarrow> Policy \<Rightarrow> (perm_error, RuleSet) result list" where
  "snapshots [] p = []"
| "snapshots (w # ws) p = (case Policy_Snapshot w p of (r, p) \<Rightarrow> r # snapshots ws p)"

text \<open>
  What the cache relies on: between two calls the links, the home directory and the decoder are the same,
  and a source whose signature is the same and was not taken within the racy window has the same content.
\<close>

definition stable :: "Policy \<Rightarrow> world \<Rightarrow> world \<Rightarrow> bool" where
  "stable p w w' \<longleftrightarrow> wd_pf w' = wd_pf w \<and> wd_userHome w' = wd_userHome w \<and> wd_json w' = wd_json w
     \<and> (case (sources w p, sources w' p) of
          (Inr srcs, Inr srcs') \<Rightarrow>
            (if map (sign w) srcs = map (sign w') srcs'
             then srcs' = srcs \<and> list_all (\<lambda>s. sg_present (sign w s) \<and> \<not> recent w (sign w s) \<longrightarrow> read_source w' s = read_source w s) srcs
             else True)
        | _ \<Rightarrow> True)"

definition same_config :: "Policy \<Rightarrow> Policy \<Rightarrow> bool" where
  "same_config p q \<longleftrightarrow> po_o q = po_o p \<and> po_goos q = po_goos p \<and> po_fold q = po_fold p"

lemma same_config_refl [simp]: "same_config p p"
  by (simp add: same_config_def)

lemma same_configD: "same_config p q \<Longrightarrow> po_o q = po_o p" "same_config p q \<Longrightarrow> po_goos q = po_goos p" "same_config p q \<Longrightarrow> po_fold q = po_fold p"
  by (simp_all add: same_config_def)

lemma sources_config:
  assumes "same_config p q"
  shows "sources w q = sources w p"
  unfolding sources_def managed_of_def same_configD [OF assms] ..

lemma build_lists_config: "same_config p q \<Longrightarrow> build_lists w q xs c n = build_lists w p xs c n"
proof (induction w p xs c n rule: build_lists.induct)
  case (2 w p s sig rest c n)
  have g: "po_goos q = po_goos p" "po_fold q = po_fold p" using "2.prems" by (simp_all add: same_config_def)
  show ?case using 2 by (simp add: g Let_def split: sum.split)
qed simp

lemma build_config:
  assumes "same_config p q"
  shows "build w q srcs sigs = build w p srcs sigs"
  unfolding build_def build_lists_config [OF assms] same_configD [OF assms] ..

lemma build_lists_again:
  assumes "build_lists w p xs c n = Inr (rls, False)" "wd_pf w' = wd_pf w" "wd_json w' = wd_json w"
    "\<forall>(s, sig) \<in> set xs. sg_present sig \<and> \<not> recent w sig \<longrightarrow> read_source w' s = read_source w s"
  shows "\<exists>r. build_lists w' p xs c n = Inr (rls, r)"
  using assms
proof (induction w p xs c n arbitrary: rls rule: build_lists.induct)
  case (2 w p s sig rest c n)
  show ?case
  proof (cases "sg_present sig")
    case False
    then show ?thesis using 2 by (auto split: if_splits)
  next
    case True
    let ?got = "\<lambda>bs. parseSettings (pf_tables (wd_pf w)) (wd_json w) bs s (po_goos p) (po_fold p)"
    obtain bs got ls where b: "read_source w s = Inr bs" "?got bs = Inr got" "sg_errText sig = []" "\<not> so_opaque s"
      "\<not> (int (c + sum_list (map (\<lambda>l. length (rl_patterns l)) got)) > maxReadPatterns
          \<or> int (n + sum_list (map (\<lambda>l. sum_list (map (\<lambda>pt. length (pt_segs pt)) (rl_patterns l))) got)) > maxReadSegments)"
      "build_lists w p rest (c + sum_list (map (\<lambda>l. length (rl_patterns l)) got))
         (n + sum_list (map (\<lambda>l. sum_list (map (\<lambda>pt. length (pt_segs pt)) (rl_patterns l))) got)) = Inr (ls, False)"
      "rls = got @ ls" "\<not> recent w sig"
      using "2.prems"(1) True by (auto simp: Let_def split: if_splits sum.splits prod.splits)
    have r: "read_source w' s = Inr bs" using "2.prems"(4) True b(1,8) by auto
    have "\<exists>r. build_lists w' p rest (c + sum_list (map (\<lambda>l. length (rl_patterns l)) got))
         (n + sum_list (map (\<lambda>l. sum_list (map (\<lambda>pt. length (pt_segs pt)) (rl_patterns l))) got)) = Inr (ls, r)"
      using "2.IH"(2) [of bs got] True b "2.prems"(2,3,4) by simp
    then show ?thesis using True b(2,3,4,5,7) r "2.prems"(2,3) by (auto simp: Let_def)
  qed
qed (auto intro: exI [of _ False])

lemma build_again:
  assumes "build w p srcs (map (sign w) srcs) = Inr (rs, False)" "stable p w w'" "sources w p = Inr srcs" "sources w' p = Inr srcs'"
    "map (sign w) srcs = map (sign w') srcs'"
  shows "fresh w' p = Inr rs"
proof -
  have st: "wd_pf w' = wd_pf w" "wd_userHome w' = wd_userHome w" "wd_json w' = wd_json w" "srcs' = srcs"
    "list_all (\<lambda>s. sg_present (sign w s) \<and> \<not> recent w (sign w s) \<longrightarrow> read_source w' s = read_source w s) srcs"
    using assms(2,3,4,5) by (auto simp: stable_def)
  obtain rls where b: "build_lists w p (zip srcs (map (sign w) srcs)) 0 0 = Inr (rls, False)"
    "rs = newRuleSet (wd_pf w) (po_goos p) (po_fold p) (op_ProjectRoot (po_o p)) (home_dir w (po_o p)) rls"
    using assms(1) by (auto simp: build_def split: sum.splits)
  have "\<forall>(s, sig) \<in> set (zip srcs (map (sign w) srcs)). sg_present sig \<and> \<not> recent w sig \<longrightarrow> read_source w' s = read_source w s"
    using st(5) by (auto simp: list_all_iff in_set_zip)
  from build_lists_again [OF b(1) st(1,3) this] obtain r where "build_lists w' p (zip srcs (map (sign w) srcs)) 0 0 = Inr (rls, r)" by blast
  then have "build w' p srcs (map (sign w') srcs) = Inr (rs, r)" using b(2) st assms(5) by (simp add: build_def home_dir_def)
  then show ?thesis using assms(4) st(4) by (simp add: fresh_def)
qed

text \<open>What the cache holds: the outcome of a build in an earlier world.\<close>

definition cached :: "Policy \<Rightarrow> world set \<Rightarrow> Policy \<Rightarrow> bool" where
  "cached p W q \<longleftrightarrow> same_config p q \<and> (po_loads q > 0 \<longrightarrow> (\<forall>rs. po_rules q = Inr rs \<longrightarrow>
     (\<exists>w \<in> W. \<exists>srcs. sources w p = Inr srcs \<and> po_sigs q = map (sign w) srcs \<and> build w p srcs (map (sign w) srcs) = Inr (rs, po_racy q))))"

lemma Policy_Snapshot_cached:
  assumes c: "cached p W q" and st: "\<And>v. v \<in> W \<Longrightarrow> stable p v w" and s: "Policy_Snapshot w q = (r, q')"
  shows "cached p (insert w W) q' \<and> (\<forall>rs. r = Inr rs \<longrightarrow> fresh w p = Inr rs)"
proof -
  have cfg: "same_config p q" using c by (simp add: cached_def)
  have mono: "cached p (insert w W) q" using c by (auto simp: cached_def)
  show ?thesis
  proof (cases "sources w p")
    case (Inl e)
    then show ?thesis using s mono by (auto simp: Policy_Snapshot_def sources_config [OF cfg])
  next
    case (Inr srcs)
    let ?sigs = "map (sign w) srcs"
    show ?thesis
    proof (cases "po_loads q > 0 \<and> \<not> po_racy q \<and> po_sigs q = ?sigs")
      case True
      then have r: "r = po_rules q" "q' = q" using s Inr by (auto simp: Policy_Snapshot_def sources_config [OF cfg] Let_def)
      have "fresh w p = Inr rs" if x: "po_rules q = Inr rs" for rs
      proof -
        obtain v vs where v: "v \<in> W" "sources v p = Inr vs" "po_sigs q = map (sign v) vs" "build v p vs (map (sign v) vs) = Inr (rs, False)"
          using c x True unfolding cached_def by auto
        show ?thesis by (rule build_again [OF v(4) st [OF v(1)] v(2) Inr]) (use v(3) True in simp)
      qed
      then show ?thesis using r mono by simp
    next
      case False
      have b: "build w q srcs ?sigs = build w p srcs ?sigs" by (rule build_config [OF cfg])
      have sn: "Policy_Snapshot w q = (case build w p srcs ?sigs of
                  Inl (TransientError i t) \<Rightarrow> (Inl (TransientError i t), q)
                | Inl e \<Rightarrow> (Inl e, q\<lparr>po_sigs := ?sigs, po_rules := Inl e, po_racy := False, po_loads := po_loads q + 1\<rparr>)
                | Inr (rules, racy) \<Rightarrow> (Inr rules, q\<lparr>po_sigs := ?sigs, po_rules := Inr rules, po_racy := racy, po_loads := po_loads q + 1\<rparr>))"
        unfolding Policy_Snapshot_def sources_config [OF cfg] Inr by (simp only: sum.case Let_def if_not_P [OF False] b)
      show ?thesis
      proof (cases "build w p srcs ?sigs")
        case E: (Inl e)
        then show ?thesis using s mono cfg unfolding sn by (cases e) (auto simp: cached_def same_config_def)
      next
        case R: (Inr x)
        obtain rules racy where x: "x = (rules, racy)" by (cases x)
        have q': "r = Inr rules" "q' = q\<lparr>po_sigs := ?sigs, po_rules := Inr rules, po_racy := racy, po_loads := po_loads q + 1\<rparr>" using s R x unfolding sn by auto
        have "cached p (insert w W) q'" using cfg Inr R x by (auto simp: cached_def same_config_def q'(2))
        then show ?thesis using q'(1) Inr R x by (simp add: fresh_def)
      qed
    qed
  qed
qed

lemma snapshots_fresh:
  assumes "sorted_wrt (stable p) ws" "cached p W q" "\<And>v w. v \<in> W \<Longrightarrow> w \<in> set ws \<Longrightarrow> stable p v w"
  shows "list_all2 (\<lambda>r w. \<forall>rs. r = Inr rs \<longrightarrow> fresh w p = Inr rs) (snapshots ws q) ws"
  using assms
proof (induction ws arbitrary: W q)
  case (Cons w ws)
  obtain r q' where s: "Policy_Snapshot w q = (r, q')" by (cases "Policy_Snapshot w q")
  have sc: "cached p (insert w W) q' \<and> (\<forall>rs. r = Inr rs \<longrightarrow> fresh w p = Inr rs)"
    by (rule Policy_Snapshot_cached [OF Cons.prems(2) _ s]) (use Cons.prems(3) in simp)
  have "list_all2 (\<lambda>r w. \<forall>rs. r = Inr rs \<longrightarrow> fresh w p = Inr rs) (snapshots ws q') ws"
    by (rule Cons.IH [of "insert w W"]) (use Cons.prems(1,3) sc in auto)
  then show ?case using sc s by simp
qed simp

end
