(* ===== verification/HostPermProps.thy ===== *)
theory HostPermProps
  imports HostMono HostWf HostResolve HostFresh
begin

text \<open>The promises of the permission policy, with settings on which each is seen.\<close>

section \<open>What a pattern matches\<close>

fun git_match :: "bytes list \<Rightarrow> bytes list \<Rightarrow> bool" where
  "git_match [] xs \<longleftrightarrow> xs = []"
| "git_match (ps # pat) [] \<longleftrightarrow> ps = star2 \<and> pat \<noteq> [] \<and> git_match pat []"
| "git_match (ps # pat) (x # xs) \<longleftrightarrow>
     (if ps = star2 then pat = [] \<or> git_match pat (x # xs) \<or> git_match (ps # pat) xs
      else (case glob ps of None \<Rightarrow> False | Some g \<Rightarrow> gmatches g x) \<and> git_match pat xs)"

lemma seg_match_glob: "plain_name s \<Longrightarrow> seg_match ps s None \<longleftrightarrow> (case glob ps of None \<Rightarrow> False | Some g \<Rightarrow> gmatches g s)"
proof (cases "glob ps")
  case None
  then show ?thesis using Match_error [of ps s] by (simp add: seg_match_def)
next
  case (Some g)
  assume "plain_name s"
  then show ?thesis using Some Match_sound [of ps s g] Match_complete [of g s ps] by (auto simp: seg_match_def)
qed

lemma git_match_segs: "list_all plain_name segs \<Longrightarrow> segs_match pat (map (\<lambda>s. (s, None)) segs) \<longleftrightarrow> git_match pat segs"
  by (induction pat segs rule: git_match.induct) (auto simp: seg_match_glob)

text \<open>C13. The table of a pattern is its meaning: cell \<open>k\<close> is true exactly when the pattern matches the first
  \<open>k\<close> segments, where \<^verbatim>\<open>**\<close> stands for any run of segments, in last position for a run that is not empty, and
  every other element for one segment it globs, a star for any run of bytes.  On names of ASCII
  bytes the single forward pass and the greedy glob matcher agree with this backtracking definition.\<close>

theorem prefixRow_reference:
  assumes "k \<le> length segs" "list_all plain_name segs"
  shows "prefixRow pat segs None ! k \<longleftrightarrow> git_match pat (take k segs)"
proof -
  have p: "list_all plain_name (take k segs)" using assms(2) by (auto simp: list_all_iff dest: in_set_takeD)
  have "take k (pairs segs None) = map (\<lambda>s. (s, None)) (take k segs)" by (rule nth_equalityI) (simp_all add: alt_at_def)
  then show ?thesis unfolding prefixRow_match [OF assms(1)] git_match_segs [OF p, symmetric] by simp
qed

text \<open>Witness.\<close>

theorem prefixRow_reference_witness:
  "prefixRow [lit ''src'', star2, lit ''*.go''] [lit ''src'', lit ''a'', lit ''b'', lit ''c.go''] None ! 4"
  using prefixRow_reference [of 4 "[lit ''src'', lit ''a'', lit ''b'', lit ''c.go'']" "[lit ''src'', star2, lit ''*.go'']"]
  by code_simp

section \<open>Decisions\<close>

text \<open>C10. The decision for a path: a path that cannot be judged is denied under any rule; otherwise it is denied
  when some deny list refuses some spelling of it, asked when only an ask list does, and allowed when none
  does.  A list refuses a spelling by a tool-level rule, by a pattern that covers it or a directory above it,
  or, among the patterns of the working directory, when the last pattern that matches the path, or some directory
  between the working directory and it, is no carve-out.\<close>

theorem evaluate_reference:
  "d_Effect (Evaluate pf rs path) = (if RuleSet_Empty rs \<or> path = [] then Allow else case judged_as pf rs path of None \<Rightarrow> Deny | Some xss \<Rightarrow> verdict rs xss)"
  by (rule Evaluate_effect)

text \<open>C12. Adding rules that refuse never loosens a decision: with more lists, more patterns at any place of a
  list, or more 8.3 names to compare, a denied path stays denied and an asked one is asked or denied.\<close>

theorem rules_monotone:
  assumes "tightens rs rs'"
  shows "d_Effect (Evaluate pf rs path) \<le> d_Effect (Evaluate pf rs' path)"
  by (rule Evaluate_mono [OF assms])

definition sample_pattern :: "bytes \<Rightarrow> bool \<Rightarrow> pattern" where
  "sample_pattern s neg = zero_pattern\<lparr>pt_raw := s, pt_neg := neg, pt_carvable := True, pt_segs := [star2, s], pt_anchors := [ [lit ''p'']]\<rparr>"

definition sample_list :: "pattern list \<Rightarrow> ruleList" where
  "sample_list ps = \<lparr>rl_effect = Deny, rl_source = lit ''s'', rl_toolRule = [], rl_patterns = ps, rl_settingsDirs = [], rl_cwdAnchors = [ [lit ''p'']]\<rparr>"

definition sample_rules :: "pattern list \<Rightarrow> RuleSet" where
  "sample_rules ps = \<lparr>rs_goos = lit ''linux'', rs_fold = False, rs_resolve = False, rs_deny = [sample_list ps], rs_ask = [], rs_shortPending = False\<rparr>"

definition no_link_platform :: platform where
  "no_link_platform = posix_platform (lit ''linux'') id (=) (\<lambda>_. LinkError)"

text \<open>Witness.\<close>

theorem rules_monotone_witness:
  "d_Effect (Evaluate no_link_platform (sample_rules [sample_pattern (lit ''a'') False, sample_pattern (lit ''b'') False]) (lit ''/p/x/a'')) = Deny"
proof -
  let ?a = "sample_pattern (lit ''a'') False" and ?b = "sample_pattern (lit ''b'') False"
  have "widens [?a] [?a, ?b]" by (intro widens_keep widens_add widens_Nil) (simp add: sample_pattern_def zero_pattern_def)
  then have "tightens (sample_rules [?a]) (sample_rules [?a, ?b])" by (simp add: tightens_def sample_rules_def tightens_list_def sample_list_def)
  from rules_monotone [OF this, of no_link_platform "lit ''/p/x/a''"]
  have "d_Effect (Evaluate no_link_platform (sample_rules [?a]) (lit ''/p/x/a'')) \<le> d_Effect (Evaluate no_link_platform (sample_rules [?a, ?b]) (lit ''/p/x/a''))" .
  moreover have "d_Effect (Evaluate no_link_platform (sample_rules [?a]) (lit ''/p/x/a'')) = Deny" by code_simp
  ultimately show ?thesis by (metis Effect_bounds(2) order_antisym)
qed



section \<open>Settings\<close>

text \<open>A project with one settings file, and nothing else on disk.\<close>

definition settings_file :: bytes where "settings_file = lit ''/p/.claude/settings.json''"

definition one_file :: "json \<Rightarrow> (bytes \<Rightarrow> link_answer) \<Rightarrow> world" where
  "one_file doc readlink =
     \<lparr>wd_pf = posix_platform (lit ''linux'') id (=) readlink, wd_now = 10000000000,
      wd_stat = (\<lambda>f. if f = settings_file then StatRegular 2 1000 else StatMissing), wd_content = (\<lambda>f. Inr (lit ''{}'')),
      wd_readDir = (\<lambda>_. DirMissing), wd_userHome = lit ''/h'', wd_json = (\<lambda>_. Some doc)\<rparr>"

definition deny_doc :: "string list \<Rightarrow> json" where
  "deny_doc rules = JObj [(permissions, JObj [(lit ''deny'', JArr (map (\<lambda>r. JStr (lit r)) rules))])]"

definition project :: Policy where
  "project = NewPolicy (posix_platform (lit ''linux'') id (=) (\<lambda>_. LinkError)) \<lparr>op_ProjectRoot = lit ''/p'', op_Home = [], op_Getenv = (\<lambda>_. []), op_Managed = None\<rparr> []"

definition checked :: "world \<Rightarrow> Policy \<Rightarrow> string \<Rightarrow> (perm_error, Effect) result" where
  "checked w p path = map_sum id d_Effect (fst (Check w p (lit path)))"


text \<open>C37. Every pattern of a rule set is well formed: its segments are names without slashes, dots or dot-dots,
  each of them, unless the pattern is literal, a glob that matching never rejects, so that the error the
  matching loop ignores cannot occur; only carve-outs are inert and only patterns of the working directory carve.\<close>

theorem rules_well_formed:
  assumes "build w p srcs sigs = Inr (rs, racy)" "l \<in> set (rs_deny rs) \<union> set (rs_ask rs)" "pt \<in> set (rl_patterns l)"
  shows "pattern_ok pt \<and> (pt_literal pt \<or> list_all (\<lambda>s. Match s name \<noteq> None) (pt_segs pt))"
proof -
  obtain rls where b: "build_lists w p (zip srcs sigs) 0 0 = Inr (rls, racy)"
    "rs = newRuleSet (wd_pf w) (po_goos p) (po_fold p) (op_ProjectRoot (po_o p)) (home_dir w (po_o p)) rls"
    using assms(1) by (auto simp: build_def split: sum.splits)
  have "list_ok l" using newRuleSet_ok [OF build_lists_ok [OF b(1)]] assms(2) unfolding b(2) by blast
  then have "pattern_ok pt" using assms(3) by (simp add: list_ok_def list_all_iff)
  moreover from this have "pt_literal pt \<or> list_all (\<lambda>s. Match s name \<noteq> None) (pt_segs pt)"
    by (auto simp: pattern_ok_def list_all_iff seg_ok_def Match_error simp del: not_None_eq)
  ultimately show ?thesis by blast
qed

end
