(* ===== verification/HostLayers.thy ===== *)
theory HostLayers
  imports HostEvalRef HostSnapshot
begin

text \<open>The two reports on a policy: the settings layers it reads and the path specifiers it refuses by.\<close>

section \<open>Layers and sources\<close>

text \<open>The two enumerations may differ in the directories a source's rules are anchored at, which reading does not use.\<close>

definition same_source :: "source \<Rightarrow> layerSource \<Rightarrow> bool" where
  "same_source s ls \<longleftrightarrow> ls_err ls = None \<and> ls_src ls = s\<lparr>so_settingsDirs := so_settingsDirs (ls_src ls)\<rparr>"

lemma same_source_file [simp]: "same_source (file_source f dirs) (layer k (file_source f dirs'))"
  by (simp add: same_source_def layer_def file_source_def)

lemma sources_cons: "list_all2 same_source (s # ss) (l # ls) \<longleftrightarrow> same_source s l \<and> list_all2 same_source ss ls"
  by simp

lemma same_sources_map: "(\<And>x. same_source (f x) (g x)) \<Longrightarrow> list_all2 same_source (map f xs) (map g xs)"
  by (simp add: list_all2_map1 list_all2_map2 list.rel_refl)

lemma dir_layers_sources: "dir_sources w root ds = Inr srcs \<Longrightarrow> list_all2 same_source srcs (concat (map (dir_layers w) ds))"
proof (induction ds arbitrary: srcs)
  case (Cons d ds)
  then show ?case
    by (auto simp: dir_layers_def Let_def split: sum.splits intro!: list_all2_appendI same_sources_map)
qed simp

lemma layerSources_sources:
  assumes "sources w p = Inr srcs"
  shows "list_all2 same_source srcs (layerSources w p)"
proof -
  obtain dirs where d: "op_ProjectRoot (po_o p) \<noteq> []" "home_dir w (po_o p) \<noteq> []" "dir_sources w (op_ProjectRoot (po_o p)) (ms_Dirs (managed_of w p)) = Inr dirs"
    using assms by (auto simp: sources_def Let_def split: if_splits sum.splits)
  show ?thesis
    using assms d dir_layers_sources [OF d(3)] unfolding sources_def layerSources_def
    by (auto simp: Let_def layerConfigDir_def list_all2_append same_source_def layer_def file_source_def
        intro!: list_all2_appendI same_sources_map)
qed

lemma sign_settingsDirs [simp]: "sign w (s\<lparr>so_settingsDirs := d\<rparr>) = sign w s" "read_source w (s\<lparr>so_settingsDirs := d\<rparr>) = read_source w s"
  by (simp_all add: sign_def read_source_def split: option.split file_stat.split sum.split)

lemma readLayer_cong:
  assumes "ls_kind a = ls_kind b" "ls_err a = ls_err b" "so_id (ls_src a) = so_id (ls_src b)" "so_opaque (ls_src a) = so_opaque (ls_src b)"
    "sign w (ls_src a) = sign w (ls_src b)" "read_source w (ls_src a) = read_source w (ls_src b)"
  shows "readLayer w a = readLayer w b"
  unfolding readLayer_def assms ..

lemma readLayer_settingsDirs [simp]: "readLayer w (layer k (s\<lparr>so_settingsDirs := d\<rparr>)) = readLayer w (layer k s)"
  by (rule readLayer_cong) (simp_all add: layer_def)

lemma readLayer_same:
  assumes "same_source s ls"
  shows "readLayer w ls = readLayer w (layer (ls_kind ls) s)"
proof -
  have "ls = layer (ls_kind ls) (s\<lparr>so_settingsDirs := so_settingsDirs (ls_src ls)\<rparr>)"
    using assms by (cases ls) (simp add: same_source_def layer_def)
  then show ?thesis using readLayer_settingsDirs by metis
qed

lemma ReadLayers_sources:
  assumes "sources w (NewPolicy (wd_pf w) opts []) = Inr srcs"
  shows "list_all2 (\<lambda>la s. la = readLayer w (layer (la_Kind la) s)) (ReadLayers w opts) srcs"
proof -
  have k: "la_Kind (readLayer w ls) = ls_kind ls" for ls by (simp add: readLayer_def Let_def split: sum.split)
  have "list_all2 (\<lambda>ls s. readLayer w ls = readLayer w (layer (la_Kind (readLayer w ls)) s)) (layerSources w (NewPolicy (wd_pf w) opts [])) srcs"
    using layerSources_sources [OF assms] readLayer_same unfolding k by (auto simp: list_all2_conv_all_nth)
  then show ?thesis by (simp add: ReadLayers_def list_all2_map1)
qed

section \<open>The listed specifiers\<close>

lemma foldl_distinct: "set (foldl (\<lambda>out x. if x \<in> set out then out else out @ [x]) out xs) = set out \<union> set xs
    \<and> (distinct out \<longrightarrow> distinct (foldl (\<lambda>out x. if x \<in> set out then out else out @ [x]) out xs))"
  by (induction xs arbitrary: out) auto

lemma ReadRulePatterns_distinct: "distinct (ReadRulePatterns rs)"
  by (simp add: ReadRulePatterns_def foldl_distinct)

definition list_specifiers :: "ruleList \<Rightarrow> bytes set" where
  "list_specifiers l = (if rl_toolRule l \<noteq> [] then {[]} else {}) \<union> (\<lambda>p. ruleSpecifier (pt_raw p)) ` {p \<in> set (rl_patterns l). \<not> pt_neg p}"

lemma set_ReadRulePatterns: "set (ReadRulePatterns rs) = (\<Union>l \<in> set (rs_deny rs @ rs_ask rs). list_specifiers l)"
proof (cases "RuleSet_Empty rs")
  case False
  have "set ((if rl_toolRule l \<noteq> [] then [ []] else []) @ map (\<lambda>p. ruleSpecifier (pt_raw p)) (filter (\<lambda>p. \<not> pt_neg p) (rl_patterns l))) = list_specifiers l" for l
    by (auto simp: list_specifiers_def)
  then show ?thesis using False by (simp add: ReadRulePatterns_def foldl_distinct del: set_append) simp
qed (simp add: ReadRulePatterns_def RuleSet_Empty_def)

lemma anchored_hit_rule: "anchored_hit c alt p = Some r \<Longrightarrow> \<not> pt_neg p \<and> pt_raw p = r"
  by (auto simp: anchored_hit_def split: if_splits option.splits dest!: first_hit_SomeD)

lemma list_hit_rule:
  assumes "list_hit l (c, alt) = Some r" "aligned c alt"
  shows "\<exists>p \<in> set (rl_patterns l). \<not> pt_neg p \<and> pt_raw p = r"
proof (cases "first_hit (anchored_hit c alt) (rl_patterns l)")
  case None
  then have "first_hit (\<lambda>a. case under c a of None \<Rightarrow> None | Some rel \<Rightarrow> carvedMatch l rel (alt_tail alt (length a))) (rl_cwdAnchors l) = Some r"
    using assms(1) by (simp add: list_hit_def)
  from first_hit_SomeD [OF this] obtain a rel where "under c a = Some rel" "carvedMatch l rel (alt_tail alt (length a)) = Some r"
    by (auto split: option.splits)
  then show ?thesis using carvedMatch_rule below_anchor_under(1) [OF assms(2)] by blast
next
  case (Some r')
  then have "r' = r" using assms(1) by (simp add: list_hit_def)
  then show ?thesis using first_hit_SomeD [OF Some] anchored_hit_rule by blast
qed

lemma ruleList_match_rule:
  assumes "ruleList_match l cands alts = Some r" "all_aligned cands alts"
  shows "(rl_toolRule l \<noteq> [] \<and> r = rl_toolRule l) \<or> (\<exists>p \<in> set (rl_patterns l). \<not> pt_neg p \<and> pt_raw p = r)"
proof (cases "rl_toolRule l = []")
  case True
  then have "first_hit (list_hit l) (zip cands (case alts of None \<Rightarrow> replicate (length cands) None | Some as \<Rightarrow> as)) = Some r"
    using assms(1) by (simp add: ruleList_match_def)
  from first_hit_SomeD [OF this] show ?thesis using list_hit_rule aligned_zip [OF assms(2)] by auto
qed (use assms(1) in \<open>simp add: ruleList_match_def\<close>)

definition names_list :: "RuleSet \<Rightarrow> Decision \<Rightarrow> bool" where
  "names_list rs d \<longleftrightarrow> (\<exists>l \<in> set (rs_deny rs @ rs_ask rs). d_Source d = rl_source l
     \<and> ((rl_toolRule l \<noteq> [] \<and> d_Rule d = rl_toolRule l) \<or> (\<exists>p \<in> set (rl_patterns l). \<not> pt_neg p \<and> pt_raw p = d_Rule d)))"

lemma first_list_names:
  assumes "first_list e cands alts rls = Some d" "all_aligned cands alts" "set rls \<subseteq> set (rs_deny rs @ rs_ask rs)"
  shows "names_list rs d"
proof -
  obtain l r where l: "l \<in> set rls" "ruleList_match l cands alts = Some r" "d = \<lparr>d_Effect = e, d_Rule = r, d_Source = rl_source l\<rparr>"
    using assms(1) unfolding first_list_def by (auto dest!: first_hit_SomeD)
  then show ?thesis using ruleList_match_rule [OF l(2) assms(2)] assms(3) unfolding names_list_def by (intro bexI [of _ l]) auto
qed

lemma lists_names:
  assumes "d = (case first_list Deny cands alts (rs_deny rs) of Some d \<Rightarrow> d
      | None \<Rightarrow> (case first_list Ask cands alts (rs_ask rs) of Some d \<Rightarrow> d | None \<Rightarrow> allowed))" "d_Effect d \<noteq> Allow" "all_aligned cands alts"
  shows "names_list rs d"
  using assms(1,2) first_list_names [OF _ assms(3), of Deny "rs_deny rs" d rs] first_list_names [OF _ assms(3), of Ask "rs_ask rs" d rs]
  by (auto simp: allowed_def split: option.splits)

lemma Evaluate_names:
  assumes "d_Effect (Evaluate pf rs path) \<noteq> Allow"
  shows "d_Rule (Evaluate pf rs path) \<in> {unresolvedShortName, unknownShortName} \<or> names_list rs (Evaluate pf rs path)"
proof -
  obtain cands natives unresolved where s: "spellings pf path (rs_goos rs) (rs_fold rs) (rs_resolve rs) = (cands, natives, unresolved)"
    by (cases "spellings pf path (rs_goos rs) (rs_fold rs) (rs_resolve rs)") auto
  note len = spellings_lengths [OF s]
  define alts where "alts = (if rs_shortPending rs then shortSpellings pf cands natives (rs_goos rs) (rs_fold rs) else None)"
  have a: "all_aligned cands alts" if "\<not> (rs_shortPending rs \<and> alts = None)"
    using that shortSpellings_aligned(1) [OF _ len(1)] by (auto simp: alts_def all_aligned_def split: option.splits if_splits)
  have "Evaluate pf rs path = (if RuleSet_Empty rs \<or> path = [] then allowed
      else if unresolved then \<lparr>d_Effect = Deny, d_Rule = unresolvedShortName, d_Source = []\<rparr>
      else if rs_shortPending rs \<and> alts = None then \<lparr>d_Effect = Deny, d_Rule = unknownShortName, d_Source = []\<rparr>
      else (case first_list Deny cands alts (rs_deny rs) of Some d \<Rightarrow> d
        | None \<Rightarrow> (case first_list Ask cands alts (rs_ask rs) of Some d \<Rightarrow> d | None \<Rightarrow> allowed)))"
    unfolding Evaluate_def s alts_def by (simp add: Let_def)
  then show ?thesis using assms lists_names [OF _ _ a] by (auto simp: allowed_def split: if_splits)
qed

end
