(* ===== verification/HostPermThms.thy ===== *)
theory HostPermThms
  imports HostPermProps HostLayers
begin

text \<open>Snapshots of the settings: fresh, complete or refused.\<close>

section \<open>A project\<close>

definition env_world :: world where
  "env_world = one_file (deny_doc [''Read(./.env)'']) (\<lambda>_. LinkError)"

definition env_sources :: "source list" where
  "env_sources = (case sources env_world project of Inr srcs \<Rightarrow> srcs | Inl _ \<Rightarrow> [])"

lemma env_build:
  obtains rs where "build env_world project env_sources (map (sign env_world) env_sources) = Inr (rs, False)" "rs_deny rs \<noteq> []" "rl_patterns (hd (rs_deny rs)) \<noteq> []"
    "sources env_world project = Inr env_sources"
proof -
  have b: "case build env_world project env_sources (map (sign env_world) env_sources) of
      Inl _ \<Rightarrow> False | Inr (rs, racy) \<Rightarrow> \<not> racy \<and> 0 < length (rs_deny rs) \<and> 0 < length (rl_patterns (hd (rs_deny rs)))" by code_simp
  have "is_ok (sources env_world project)" by code_simp
  then have "sources env_world project = Inr env_sources" by (auto simp: is_ok_iff env_sources_def)
  with b show ?thesis by (auto split: sum.splits prod.splits intro: that)
qed

text \<open>Witness.\<close>

theorem rules_well_formed_witness:
  "\<exists>rs. build env_world project env_sources (map (sign env_world) env_sources) = Inr (rs, False) \<and> pattern_ok (hd (rl_patterns (hd (rs_deny rs))))"
proof -
  obtain rs where r: "build env_world project env_sources (map (sign env_world) env_sources) = Inr (rs, False)" "rs_deny rs \<noteq> []" "rl_patterns (hd (rs_deny rs)) \<noteq> []"
    using env_build by blast
  have "hd (rs_deny rs) \<in> set (rs_deny rs) \<union> set (rs_ask rs)" "hd (rl_patterns (hd (rs_deny rs))) \<in> set (rl_patterns (hd (rs_deny rs)))" using r(2,3) by simp_all
  from rules_well_formed [OF r(1) this] r(1) show ?thesis by blast
qed

section \<open>Snapshots\<close>


lemma stable_refl: "stable p w w"
  by (auto simp: stable_def list_all_iff split: sum.split)


text \<open>What a successful build has read.\<close>

lemma build_lists_complete:
  assumes "build_lists w p xs c n = Inr (rls, racy)" "c \<le> 5000" "n \<le> 80000"
  shows "(\<forall>(s, sig) \<in> set xs. sg_errText sig = [] \<and> (sg_present sig \<longrightarrow> \<not> so_opaque s
      \<and> (\<exists>bs got. read_source w s = Inr bs \<and> parseSettings (pf_tables (wd_pf w)) (wd_json w) bs s (po_goos p) (po_fold p) = Inr got \<and> set got \<subseteq> set rls)))
    \<and> c + sum_list (map (\<lambda>l. length (rl_patterns l)) rls) \<le> 5000 \<and> n + sum_list (map (\<lambda>l. sum_list (map (\<lambda>pt. length (pt_segs pt)) (rl_patterns l))) rls) \<le> 80000"
  using assms
proof (induction w p xs c n arbitrary: rls racy rule: build_lists.induct)
  case (2 w p s sig rest c n)
  show ?case
  proof (cases "sg_present sig")
    case False
    then show ?thesis using 2 by (auto split: if_splits)
  next
    case True
    let ?got = "\<lambda>bs. parseSettings (pf_tables (wd_pf w)) (wd_json w) bs s (po_goos p) (po_fold p)"
    obtain bs got ls r where b: "read_source w s = Inr bs" "?got bs = Inr got" "sg_errText sig = []" "\<not> so_opaque s"
      "\<not> (int (c + sum_list (map (\<lambda>l. length (rl_patterns l)) got)) > maxReadPatterns
          \<or> int (n + sum_list (map (\<lambda>l. sum_list (map (\<lambda>pt. length (pt_segs pt)) (rl_patterns l))) got)) > maxReadSegments)"
      "build_lists w p rest (c + sum_list (map (\<lambda>l. length (rl_patterns l)) got))
         (n + sum_list (map (\<lambda>l. sum_list (map (\<lambda>pt. length (pt_segs pt)) (rl_patterns l))) got)) = Inr (ls, r)"
      "rls = got @ ls"
      using "2.prems"(1) True by (auto simp: Let_def split: if_splits sum.splits prod.splits)
    have IH: "(\<forall>(s, sig) \<in> set rest. sg_errText sig = [] \<and> (sg_present sig \<longrightarrow> \<not> so_opaque s
      \<and> (\<exists>bs got. read_source w s = Inr bs \<and> parseSettings (pf_tables (wd_pf w)) (wd_json w) bs s (po_goos p) (po_fold p) = Inr got \<and> set got \<subseteq> set ls)))
    \<and> c + sum_list (map (\<lambda>l. length (rl_patterns l)) got) + sum_list (map (\<lambda>l. length (rl_patterns l)) ls) \<le> 5000
    \<and> n + sum_list (map (\<lambda>l. sum_list (map (\<lambda>pt. length (pt_segs pt)) (rl_patterns l))) got) + sum_list (map (\<lambda>l. sum_list (map (\<lambda>pt. length (pt_segs pt)) (rl_patterns l))) ls) \<le> 80000"
      by (rule "2.IH"(2) [of bs got]) (use True b in auto)
    then show ?thesis using True b by (fastforce simp: add.assoc)
  qed
qed auto



section \<open>Reports\<close>



text \<open>A refusal names a rule of its list, and that rule's specifier is one of the listed ones.\<close>

lemma refusal_listed:
  assumes "d_Effect (Evaluate pf rs path) \<noteq> Allow" "d_Rule (Evaluate pf rs path) \<notin> {unresolvedShortName, unknownShortName}"
  shows "[] \<in> set (ReadRulePatterns rs) \<or> ruleSpecifier (d_Rule (Evaluate pf rs path)) \<in> set (ReadRulePatterns rs)"
proof -
  from Evaluate_names [OF assms(1)] assms(2) obtain l where l: "l \<in> set (rs_deny rs @ rs_ask rs)"
    "rl_toolRule l \<noteq> [] \<or> (\<exists>p \<in> set (rl_patterns l). \<not> pt_neg p \<and> pt_raw p = d_Rule (Evaluate pf rs path))"
    unfolding names_list_def by blast
  have "[] \<in> list_specifiers l \<or> ruleSpecifier (d_Rule (Evaluate pf rs path)) \<in> list_specifiers l"
    using l(2)
  proof
    assume "\<exists>p \<in> set (rl_patterns l). \<not> pt_neg p \<and> pt_raw p = d_Rule (Evaluate pf rs path)"
    then show ?thesis unfolding list_specifiers_def by (auto simp del: image_eqI intro: rev_image_eqI)
  qed (simp add: list_specifiers_def)
  then show ?thesis unfolding set_ReadRulePatterns using l(1) by blast
qed

section \<open>Where the cache falls short\<close>

definition linked :: "string \<Rightarrow> world" where
  "linked target = one_file (deny_doc [''Read(//data/secrets/**)'']) (\<lambda>f. if f = lit ''/data/secrets'' then LinkTarget (lit target) else LinkError)"


text \<open>A parse failure is cached although the file changed within the racy window, and stays after a repair that keeps size and time.\<close>

definition broken :: "string \<Rightarrow> world" where
  "broken content = (one_file JNull (\<lambda>_. LinkError))\<lparr>wd_now := 1001, wd_content := (\<lambda>_. Inr (lit content)), wd_json := (\<lambda>b. if b = lit ''ok'' then Some (JObj []) else None)\<rparr>"

lemma broken_file_sticks:
  "stable project (broken ''no'') (broken ''ok'')"
  "snapshots [broken ''no'', broken ''ok''] project = [Inl (ParseError settings_file), Inl (ParseError settings_file)]"
  "is_ok (fresh (broken ''ok'') project)"
proof -
  have "case (sources (broken ''no'') project, sources (broken ''ok'') project) of
      (Inr srcs, Inr srcs') \<Rightarrow> srcs' = srcs \<and> list_all (\<lambda>s. \<not> (sg_present (sign (broken ''no'') s) \<and> \<not> recent (broken ''no'') (sign (broken ''no'') s))) srcs
    | _ \<Rightarrow> True"
    by code_simp
  then show "stable project (broken ''no'') (broken ''ok'')"
    by (auto simp: stable_def broken_def one_file_def list_all_iff split: sum.splits)
  show "snapshots [broken ''no'', broken ''ok''] project = [Inl (ParseError settings_file), Inl (ParseError settings_file)]"
    by code_simp
  show "is_ok (fresh (broken ''ok'') project)" by code_simp
qed

end
