(* ===== verification/Spec2Isabelle.thy ===== *)
theory Spec2Isabelle
  imports CoreHash Bloom Hll HeavyHitters ChunkStream MinHash DagProps DagBuild GrammarProps StateWarnRef DerivedStateThms HostPermThms
begin

text \<open>
  Verification of Qompack, a per-project sidecar for a coding agent written in Go
  (\<^verbatim>\<open>src/internal\<close>).  Hooks of the host report every tool call to a daemon, which chunks and stores
  tool output, keeps permanent probabilistic sketches of it, records a dependence graph of the
  session, and answers compaction and retrieval questions from them.

  \<^bold>\<open>Parts of the program and their theories.\<close>

  \<^item> Shared vocabulary: \<open>Prelude\<close> (byte strings, little-endian integers, slices, saturation), \<open>GoFloat\<close>
    (the IEEE double operations the sketches use), \<open>GoMap\<close> (Go maps as key-sorted association lists),
    \<open>Crc32c\<close> and \<open>Sha256\<close> (the library checksums, written out).
  \<^item> \<^verbatim>\<open>core/hash.go\<close>: domain-separated hashes and their text form, theory \<open>CoreHash\<close>.
  \<^item> \<^verbatim>\<open>sketch\<close>: the QPKS frame (\<^verbatim>\<open>header.go\<close>, theory \<open>SketchHeader\<close>), hash functions (\<open>SketchHash\<close>), a contract
    shared by the codecs (\<open>SketchCodec\<close>, a locale interpreted by each sketch), the Bloom filter (\<open>Bloom\<close>),
    the count-min sketch (\<open>CountMin\<close>), HyperLogLog (\<open>Hll\<close>), the Misra-Gries summary (\<open>MisraGries\<close>), their
    composition (\<open>HeavyHitters\<close>), and MinHash signatures (\<open>QuickSelect\<close>, \<open>ShingleSet\<close>, \<open>MinHash\<close>).
  \<^item> \<^verbatim>\<open>chunk\<close>: FastCDC content-defined chunking (\<open>Chunk\<close>) and its streaming form (\<open>ChunkStream\<close>).
  \<^item> \<^verbatim>\<open>dag\<close>: the dependence graph.  Identifiers (\<open>DagIds\<close>), state, lookups and position index (\<open>DagGraph\<close>),
    the append-only log with damaged lines and torn tails (\<open>DagLog\<close>), mutation and compaction
    (\<open>DagOps\<close>), and the builders that record observations through the \<^verbatim>\<open>Graph\<close> interface (\<open>DagBuild\<close>).
  \<^item> \<^verbatim>\<open>grammar\<close>: the Sequitur analyzer of the action stream.  Types and the reserved spelling of references
    (\<open>GrammarTypes\<close>), the linked-list heap with \<^verbatim>\<open>Append\<close> and its cascade (\<open>Sequitur\<close>), the projections
    (\<open>SequiturViews\<close>), the snapshot codec (\<open>GrammarCodec\<close>, on the varints of \<open>GoVarint\<close>), and \<^verbatim>\<open>Restore\<close> with its
    validation passes (\<open>SequiturRestore\<close>); \<open>GoStrconv\<close> has the decimal conversions.  The state-aware loop
    detector beside it (\<^verbatim>\<open>statewarn.go\<close>, \<^verbatim>\<open>formatwarning.go\<close>) is theory \<open>StateWarn\<close>, on the string functions of
    \<open>GoStrings\<close> and the hash of \<open>CoreHash\<close>.
  \<^item> \<^verbatim>\<open>state\<close>: derived state, records of what is believed, with their authority, scope and lineage, the set that
    admits, supersedes, corrects, puts in conflict and resolves them, and the document it is kept in
    (\<open>DerivedState\<close>, with the authority labels of \<^verbatim>\<open>core/evidence.go\<close>).
  \<^item> \<^verbatim>\<open>hostperm\<close>: the host's permission rules, by which archived content is refused.  Go's \<^verbatim>\<open>path.Match\<close> (\<open>GoGlob\<close>) and
    path functions (\<open>GoPath\<close>), the rule language with its prefix tables (\<open>HostRules\<close>, \<^verbatim>\<open>rules.go\<close>), spellings of a
    path, link resolution, rule lists with carve-outs and their evaluation (\<open>HostPolicy\<close>, \<^verbatim>\<open>policy.go\<close> and
    \<^verbatim>\<open>resolve.go\<close>), the settings sources, their parsing, the cached snapshot and the layer report
    (\<open>HostSnapshot\<close>, \<^verbatim>\<open>sources.go\<close> and \<^verbatim>\<open>layers.go\<close>).

  \<^bold>\<open>State and operations.\<close>  A struct is a record with the fields of the code, a method is a function on
  it, an error return is the left side of a sum or an option, a Go \<^verbatim>\<open>int\<close> is an \<open>int\<close> where the code keeps
  it in range and a word where it wraps.  A mutex serializes the methods of a component, so each is one
  step.  Loops are structural recursion, \<open>function\<close> with a measure, or \<open>partial_function (option)\<close> with a
  theorem that the loop ends (chunking, streaming, quickselect, the open-addressed set).  The disk, the
  reader given to \<^verbatim>\<open>SplitStream\<close>, callbacks and the rendered length of a JSON line are arguments, so a
  theorem holds for everything they may do.  What the operating system answers to \<^verbatim>\<open>hostperm\<close> during one call
  is a value of type \<open>world\<close>, whose field \<open>wd_pf\<close> is the \<open>platform\<close>: links, 8.3 names, Unicode case tables.
  Following links stops after 64 hops, the bound of the code, which is the measure of that loop.

  \<^bold>\<open>What the theorems show.\<close>

  \<^item> Frames: round trip, canonical form, exact length, and rejection of every damage inside four
    consecutive bytes.  Each sketch round-trips through its frame and refuses malformed ones.
  \<^item> Sketches: the error bounds of the two frequency sketches over any stream, order independence and
    exact merging, no false negatives, the exact reference semantics of a MinHash signature.
  \<^item> Chunking: partition, size bounds, equality of the primed two-mask scan with the definition of a
    boundary, locality of edits, and equality of the streaming form with the in-memory one for every
    behaviour of the reader.
  \<^item> Dependence graph: \<open>DagInv\<close> has the invariant and its preservation by each update, \<open>DagRun\<close> histories
    of operations with restarts and disk failures, \<open>DagReplay\<close> that the log followed by the queue replays
    to the live graph, \<open>DagProps\<close> the promises to clients: well-formedness along every history, exact
    queries, restart without loss, invisible compaction, and three behaviours of the code that its
    comments exclude.  \<open>DagBuild\<close> states what the builders rely on as a locale, interprets it on the
    graph, and derives that every well-formed observation is recorded completely.

  \<^item> Grammar: \<open>SequiturHeap\<close> abstracts the linked bodies to lists of nodes, \<open>SequiturInv\<close> has the invariant over
    two ghost maps, the body nodes \<open>B\<close> and the word \<open>W\<close> of every rule, and a rank that bodies descend;
    \<open>SequiturSubst\<close>, \<open>SequiturExpand\<close>, \<open>SequiturMint\<close> show what each splice does, \<open>SequiturCheck\<close> and \<open>SequiturMatch\<close>
    that the recursive cascade keeps the invariant, \<open>SequiturAppend\<close> that \<^verbatim>\<open>Append\<close> returns.  Every splice makes
    the measure \<open>mu\<close>, twice the nodes less the rules, smaller, and \<open>mu\<close> is at most twice the addresses in
    use, which is the fuel.  \<open>SequiturBuild\<close>, \<open>SequiturCycle\<close> and \<open>SequiturReload\<close> give the exact set of snapshots
    \<^verbatim>\<open>Restore\<close> accepts, \<open>SequiturRoundtrip\<close> that a snapshot determines itself, \<open>GrammarProps\<close> the promises:
    lossless induction, rule utility, total and safe decoding, and the binary round trip.  Digram
    uniqueness, which the comments of \<^verbatim>\<open>rules.go\<close> promise, does not hold, and a stream shows it.
  \<^item> Loop detector: \<open>StateWarnInv\<close> has one step and the injectivity of its keys, \<open>StateWarnProps\<close> the bounds
    along every session, the independence of decisions from feedback, the suppression of the program's
    own text and the exact scan for its commands, \<open>StateWarnRef\<close> the equality with a reference that keeps
    no state but the history.
  \<^item> Derived state: \<open>DerivedStateInv\<close> has histories of operations and the effect of each on the links,
    \<open>DerivedStateProps\<close> the invariant and chains of supersessions, \<open>DerivedStateThms\<close> the promises: the links
    agree in both directions, nothing recorded is rewritten, an open conflict withholds its parties and
    a resolution settles it, the document reads back to the same set.  A superseded record may win a
    conflict, which closes a circle of supersessions, and a document may name parties it does not hold,
    on which \<^verbatim>\<open>Resolve\<close> dereferences nil; both are shown on concrete sets.
  \<^item> Permissions: \<open>GoGlobRef\<close> relates \<^verbatim>\<open>path.Match\<close> to a backtracking reference, \<open>HostRulesRef\<close> the prefix table to a
    declarative match, \<open>HostEvalRef\<close> the evaluation to a declarative verdict over spellings, \<open>HostMono\<close> that
    rules only tighten, \<open>HostWf\<close> that every rule set is well formed, \<open>HostResolve\<close> that a resolved path is
    clean and free of links and, by a locale of what the spellings rely on, that resolving them again finds
    nothing new, \<open>HostFresh\<close> the cache, \<open>HostLayers\<close> the layer report and the listed specifiers.
    \<open>HostPermProps\<close> and \<open>HostPermThms\<close> state the promises: the decision is the declarative one, more rules
    never loosen it, a refused directory stays closed, a snapshot is never stale and fails closed.  A
    carve-out reopens a name in a working directory that is denied as a whole, cached rules keep old link
    targets, and a parse failure is kept through the racy window; each is shown on a concrete project.

  \<^bold>\<open>Not modelled.\<close>  Packages that are I/O, process or protocol glue (\<^verbatim>\<open>cli\<close>, \<^verbatim>\<open>daemon\<close>, \<^verbatim>\<open>ipc\<close>, \<^verbatim>\<open>mcp\<close>, \<^verbatim>\<open>store\<close>,
  \<^verbatim>\<open>checkpoint\<close>, \<^verbatim>\<open>paths\<close>, \<^verbatim>\<open>logging\<close>, ...), regular-expression based text processing (\<^verbatim>\<open>canon\<close>, \<^verbatim>\<open>redact\<close>,
  \<^verbatim>\<open>symbols\<close>), floating-point scoring (\<^verbatim>\<open>analyzer\<close>, \<^verbatim>\<open>scheduler\<close>, \<^verbatim>\<open>tokens\<close>, graph slicing), the read-only
  float estimates of the sketches, the Windows calls behind 8.3 names and the registry (\<^verbatim>\<open>hostperm\<close> is modelled on
  a POSIX build, with those answers as arguments), and JSON rendering itself (the documents of
  \<^verbatim>\<open>dag\<close> and \<^verbatim>\<open>state\<close> are the values the bytes stand for, and a nil slice is an empty list).
\<close>

end
